(* ===== verification/Prelude.thy ===== *)
theory Prelude
  imports Main "HOL-Library.Word" "HOL-Library.Code_Target_Nat" "HOL-Library.Code_Target_Int"
begin

text \<open>
  Shared vocabulary of the development: the machine types of the Rust sources, results as sums,
  the checked and saturating integer operations of the standard library, little-endian codecs,
  and the generic list lemmas the components rely on.

  Conventions. \<open>u8\<close>, \<open>u16\<close>, \<open>u32\<close> and \<open>u64\<close> are words of their width, so \<open>+\<close>, \<open>-\<close> and \<open>*\<close> wrap as
  the release build does; \<open>usize\<close> values (lengths, offsets, indices) are naturals, with the
  64-bit limit written out wherever the source tests for it. \<open>Result<T, E>\<close> is \<open>E + T\<close>, with
  \<open>Inl\<close> for \<open>Err\<close>. Every error type that models a function with a reachable index or unwrap
  carries a \<open>Panic\<close> constructor, which is not an \<open>Err\<close> value but the abort of the thread.
\<close>

unbundle bit_operations_syntax

type_synonym u8 = "8 word"
type_synonym u16 = "16 word"
type_synonym u32 = "32 word"
type_synonym u64 = "64 word"
type_synonym bytes = "u8 list"

named_theorems codec_simps "round-trip equations of the byte codecs"
named_theorems unat_simps "natural-number readings of the checked and saturating operations"

section \<open>Results\<close>

definition bindR :: "'e + 'a \<Rightarrow> ('a \<Rightarrow> 'e + 'b) \<Rightarrow> 'e + 'b" where
  "bindR m k = (case m of Inl e \<Rightarrow> Inl e | Inr x \<Rightarrow> k x)"

definition ok_or :: "'e \<Rightarrow> 'a option \<Rightarrow> 'e + 'a" where
  "ok_or e v = (case v of None \<Rightarrow> Inl e | Some x \<Rightarrow> Inr x)"

definition map_err :: "('e \<Rightarrow> 'f) \<Rightarrow> 'e + 'a \<Rightarrow> 'f + 'a" where
  "map_err f m = (case m of Inl e \<Rightarrow> Inl (f e) | Inr x \<Rightarrow> Inr x)"

lemma bindR_simps [simp]:
  "bindR (Inl e) k = Inl e"
  "bindR (Inr x) k = k x"
  by (simp_all add: bindR_def)

lemma bindR_Inr_iff: "bindR m k = Inr y \<longleftrightarrow> (\<exists>x. m = Inr x \<and> k x = Inr y)"
  by (cases m) auto

lemma bindR_Inl_iff: "bindR m k = Inl e \<longleftrightarrow> m = Inl e \<or> (\<exists>x. m = Inr x \<and> k x = Inl e)"
  by (cases m) auto

lemma ok_or_simps [simp]:
  "ok_or e None = Inl e"
  "ok_or e (Some x) = Inr x"
  by (simp_all add: ok_or_def)

lemma ok_or_Inr_iff [simp]: "ok_or e v = Inr x \<longleftrightarrow> v = Some x"
  by (cases v) auto

lemma map_err_simps [simp]:
  "map_err f (Inl e) = Inl (f e)"
  "map_err f (Inr x) = Inr x"
  by (simp_all add: map_err_def)

lemma map_err_Inr_iff [simp]: "map_err f m = Inr x \<longleftrightarrow> m = Inr x"
  by (cases m) auto

section \<open>State and error together\<close>

text \<open>A function that takes \<open>&mut self\<close> and returns a \<open>Result\<close>.\<close>

type_synonym ('s, 'e, 'a) step = "'s \<Rightarrow> 'e + ('a \<times> 's)"

definition sbind :: "('s, 'e, 'a) step \<Rightarrow> ('a \<Rightarrow> ('s, 'e, 'b) step) \<Rightarrow> ('s, 'e, 'b) step" where
  "sbind m k s = (case m s of Inl e \<Rightarrow> Inl e | Inr (x, s') \<Rightarrow> k x s')"

definition sreturn :: "'a \<Rightarrow> ('s, 'e, 'a) step" where
  "sreturn x s = Inr (x, s)"

definition sfail :: "'e \<Rightarrow> ('s, 'e, 'a) step" where
  "sfail e s = Inl e"

definition sguard :: "bool \<Rightarrow> 'e \<Rightarrow> ('s, 'e, unit) step" where
  "sguard b e s = (if b then Inr ((), s) else Inl e)"

definition sgets :: "('s \<Rightarrow> 'a) \<Rightarrow> ('s, 'e, 'a) step" where
  "sgets f s = Inr (f s, s)"

lemma sgets_apply [simp]: "sgets f s = Inr (f s, s)"
  by (simp add: sgets_def)

lemma sbind_Inr_iff:
  "sbind m k s = Inr (y, t) \<longleftrightarrow> (\<exists>x s'. m s = Inr (x, s') \<and> k x s' = Inr (y, t))"
  by (auto simp: sbind_def split: sum.splits prod.splits)

lemma sbind_run [simp]: "m s = Inr (x, s') \<Longrightarrow> sbind m k s = k x s'"
  by (simp add: sbind_def)

lemma sbind_fail [simp]: "m s = Inl e \<Longrightarrow> sbind m k s = Inl e"
  by (simp add: sbind_def)

lemma sreturn_apply [simp]: "sreturn x s = Inr (x, s)"
  by (simp add: sreturn_def)

lemma sfail_apply [simp]: "sfail e s = Inl e"
  by (simp add: sfail_def)

lemma sguard_Inr_iff [simp]: "sguard b e s = Inr (u, t) \<longleftrightarrow> b \<and> t = s"
  by (auto simp: sguard_def)

lemma sguard_True [simp]: "b \<Longrightarrow> sguard b e s = Inr ((), s)"
  by (simp add: sguard_def)

lemma sguard_False [simp]: "\<not> b \<Longrightarrow> sguard b e s = Inl e"
  by (simp add: sguard_def)

section \<open>Checked and saturating integer operations\<close>

definition checked_add :: "'a::len word \<Rightarrow> 'a word \<Rightarrow> 'a word option" where
  "checked_add a b = (if unat a + unat b < 2 ^ LENGTH('a) then Some (a + b) else None)"

definition checked_mul :: "'a::len word \<Rightarrow> 'a word \<Rightarrow> 'a word option" where
  "checked_mul a b = (if unat a * unat b < 2 ^ LENGTH('a) then Some (a * b) else None)"

definition checked_sub :: "'a::len word \<Rightarrow> 'a word \<Rightarrow> 'a word option" where
  "checked_sub a b = (if b \<le> a then Some (a - b) else None)"

definition saturating_add :: "'a::len word \<Rightarrow> 'a word \<Rightarrow> 'a word" where
  "saturating_add a b = (if unat a + unat b < 2 ^ LENGTH('a) then a + b else - 1)"

definition saturating_mul :: "'a::len word \<Rightarrow> 'a word \<Rightarrow> 'a word" where
  "saturating_mul a b = (if unat a * unat b < 2 ^ LENGTH('a) then a * b else - 1)"

definition saturating_sub :: "'a::len word \<Rightarrow> 'a word \<Rightarrow> 'a word" where
  "saturating_sub a b = (if b \<le> a then a - b else 0)"

definition div_ceil :: "'a::len word \<Rightarrow> 'a word \<Rightarrow> 'a word" where
  "div_ceil a b = (if a mod b = 0 then a div b else a div b + 1)"

lemma checked_add_Some [unat_simps]:
  "checked_add a b = Some c \<longleftrightarrow> unat a + unat b < 2 ^ LENGTH('a) \<and> c = a + b"
  for a b :: "'a::len word"
  by (auto simp: checked_add_def)

lemma checked_mul_Some [unat_simps]:
  "checked_mul a b = Some c \<longleftrightarrow> unat a * unat b < 2 ^ LENGTH('a) \<and> c = a * b"
  for a b :: "'a::len word"
  by (auto simp: checked_mul_def)

lemma unat_lt: "unat (w :: 'a::len word) < 2 ^ LENGTH('a)"
  by (rule unsigned_less)

lemma unat_u8_lt: "unat (w :: u8) < 256"
  using unat_lt [of w] by simp

lemma unat_u16_lt: "unat (w :: u16) < 2 ^ 16"
  using unat_lt [of w] by simp

lemma unat_u32_lt: "unat (w :: u32) < 2 ^ 32"
  using unat_lt [of w] by simp

lemma unat_u64_lt: "unat (w :: u64) < 2 ^ 64"
  using unat_lt [of w] by simp

lemma unat_add_nowrap:
  "unat a + unat b < 2 ^ LENGTH('a) \<Longrightarrow> unat (a + b) = unat a + unat b" for a b :: "'a::len word"
  by (simp add: unat_word_ariths)

lemma unat_mult_nowrap:
  "unat a * unat b < 2 ^ LENGTH('a) \<Longrightarrow> unat (a * b) = unat a * unat b" for a b :: "'a::len word"
  by (simp add: unat_word_ariths)

lemma less_plus_one: "x + 1 \<noteq> 0 \<Longrightarrow> x < x + 1" for x :: u64
proof (cases "unat x + 1 < 2 ^ 64")
  case True
  then show ?thesis by (simp add: word_less_nat_alt unat_add_nowrap)
next
  case False
  then have "unat x + 1 = 2 ^ 64" using unat_u64_lt [of x] by simp
  moreover have "unat (x + 1) = (unat x + 1) mod 2 ^ 64" by (simp add: unat_word_ariths(1))
  ultimately have "x + 1 = 0" by (simp add: word_unat_eq_iff)
  then show "x + 1 \<noteq> 0 \<Longrightarrow> x < x + 1" by simp
qed

lemma unat_minus_nowrap: "b \<le> a \<Longrightarrow> unat (a - b) = unat a - unat b" for a b :: "'a::len word"
  by (rule unat_sub)

lemma unat_of_nat_small: "n < 2 ^ LENGTH('a) \<Longrightarrow> unat (of_nat n :: 'a::len word) = n"
  by (simp add: unat_of_nat take_bit_nat_eq_self)

lemma unat_of_nat_u64: "n < 2 ^ 64 \<Longrightarrow> unat (of_nat n :: u64) = n"
  by (simp add: unat_of_nat_small)

lemma of_nat_u64_inject: "m < 2 ^ 64 \<Longrightarrow> n < 2 ^ 64 \<Longrightarrow> (of_nat m :: u64) = of_nat n \<longleftrightarrow> m = n"
  by (metis unat_of_nat_u64)

lemma unat_max: "unat (- 1 :: 'a::len word) = 2 ^ LENGTH('a) - 1"
  by (simp add: unsigned_minus_1_eq_mask mask_eq_exp_minus_1)

lemma unat_saturating_mul:
  "unat (saturating_mul a b) = min (unat a * unat b) (2 ^ LENGTH('a) - 1)" for a b :: "'a::len word"
proof (cases "unat a * unat b < 2 ^ LENGTH('a)")
  case True
  then have "unat a * unat b \<le> 2 ^ LENGTH('a) - 1" by linarith
  then show ?thesis using True by (simp add: saturating_mul_def unat_mult_nowrap min_absorb1)
next
  case False
  then have "2 ^ LENGTH('a) - 1 \<le> unat a * unat b" by linarith
  then show ?thesis using False by (simp add: saturating_mul_def unat_max min_absorb2)
qed

lemma unat_saturating_sub: "unat (saturating_sub a b) = unat a - unat b" for a b :: "'a::len word"
  by (auto simp: saturating_sub_def unat_minus_nowrap word_le_nat_alt)

lemma unat_saturating_add:
  "unat (saturating_add a b) = min (unat a + unat b) (2 ^ LENGTH('a) - 1)" for a b :: "'a::len word"
  by (auto simp: saturating_add_def unat_add_nowrap unat_max min_def)

section \<open>Little-endian byte strings\<close>

text \<open>\<open>to_le_bytes\<close> and \<open>from_le_bytes\<close> of the fixed-width integers.\<close>

fun le_bytes :: "nat \<Rightarrow> nat \<Rightarrow> bytes" where
  "le_bytes 0 v = []"
| "le_bytes (Suc n) v = of_nat v # le_bytes n (v div 256)"

fun le_val :: "bytes \<Rightarrow> nat" where
  "le_val [] = 0"
| "le_val (b # bs) = unat b + 256 * le_val bs"

abbreviation u16_le :: "u16 \<Rightarrow> bytes" where "u16_le w \<equiv> le_bytes 2 (unat w)"
abbreviation u32_le :: "u32 \<Rightarrow> bytes" where "u32_le w \<equiv> le_bytes 4 (unat w)"
abbreviation u64_le :: "u64 \<Rightarrow> bytes" where "u64_le w \<equiv> le_bytes 8 (unat w)"

lemma length_le_bytes [simp]: "length (le_bytes n v) = n"
  by (induction n arbitrary: v) auto

lemma le_val_le_bytes: "le_val (le_bytes n v) = v mod 256 ^ n"
proof (induction n arbitrary: v)
  case 0
  then show ?case by simp
next
  case (Suc n)
  have "le_val (le_bytes (Suc n) v) = v mod 256 + 256 * (v div 256 mod 256 ^ n)"
    by (simp add: Suc.IH unat_of_nat take_bit_eq_mod)
  also have "\<dots> = v mod 256 ^ Suc n"
    by (simp add: mod_mult2_eq)
  finally show ?case .
qed

lemma of_nat_mod_width [simp]:
  "(of_nat (v mod 4294967296) :: u32) = of_nat v" "(of_nat (v mod 18446744073709551616) :: u64) = of_nat v"
  by (rule word_unat_eq_iff [THEN iffD2], simp add: unsigned_of_nat take_bit_eq_mod)+

lemma le_val_bound: "le_val bs < 256 ^ length bs"
proof (induction bs)
  case Nil
  then show ?case by simp
next
  case (Cons b bs)
  have "unat b < 256" by (rule unat_u8_lt)
  moreover have "le_val bs + 1 \<le> 256 ^ length bs" using Cons.IH by simp
  then have "256 * le_val bs + 256 \<le> 256 * 256 ^ length bs" by simp
  ultimately show ?case by simp
qed

lemma le_bytes_le_val: "le_bytes (length bs) (le_val bs) = bs"
proof (induction bs)
  case Nil
  then show ?case by simp
next
  case (Cons b bs)
  have "unat b < 256" by (rule unat_u8_lt)
  then have "(unat b + 256 * le_val bs) div 256 = le_val bs" by simp
  moreover have z: "(256 :: u8) = 0" by simp
  have "(of_nat (unat b + 256 * le_val bs) :: u8) = b"
    by (simp only: of_nat_add of_nat_mult of_nat_numeral z mult_zero_left add_0_right) simp
  ultimately show ?case using Cons.IH by simp
qed

lemma u16_le_roundtrip [codec_simps, simp]: "(of_nat (le_val (u16_le w)) :: u16) = w"
  using unat_u16_lt [of w] by (simp add: le_val_le_bytes)

lemma u32_le_roundtrip [codec_simps, simp]: "(of_nat (le_val (u32_le w)) :: u32) = w"
  using unat_u32_lt [of w] by (simp add: le_val_le_bytes)

lemma u64_le_roundtrip [codec_simps, simp]: "(of_nat (le_val (u64_le w)) :: u64) = w"
  using unat_u64_lt [of w] by (simp add: le_val_le_bytes)

lemma le_val_u16 [simp]: "le_val (u16_le w) = unat w"
  using unat_u16_lt [of w] by (simp add: le_val_le_bytes)

lemma le_val_u32 [simp]: "le_val (u32_le w) = unat w"
  using unat_u32_lt [of w] by (simp add: le_val_le_bytes)

lemma le_val_u64 [simp]: "le_val (u64_le w) = unat w"
  using unat_u64_lt [of w] by (simp add: le_val_le_bytes)

lemma append_cancel: "as @ bs = cs @ ds \<Longrightarrow> length as = length cs \<Longrightarrow> as = cs \<and> bs = ds"
  by simp

lemma u16_le_inject [simp]: "u16_le a = u16_le b \<longleftrightarrow> a = b"
  by (metis le_val_u16 word_unat_eq_iff)

lemma u32_le_inject [simp]: "u32_le a = u32_le b \<longleftrightarrow> a = b"
  by (metis le_val_u32 word_unat_eq_iff)

lemma u64_le_inject [simp]: "u64_le a = u64_le b \<longleftrightarrow> a = b"
  by (metis le_val_u64 word_unat_eq_iff)

lemma le_bytes_inverse: "length bs = n \<Longrightarrow> le_bytes n (le_val bs) = bs"
  using le_bytes_le_val by blast

lemma unat_of_le_val16: "length bs = 2 \<Longrightarrow> unat (of_nat (le_val bs) :: u16) = le_val bs"
  using le_val_bound [of bs] by (simp add: unat_of_nat_small)

lemma unat_of_le_val32: "length bs = 4 \<Longrightarrow> unat (of_nat (le_val bs) :: u32) = le_val bs"
  using le_val_bound [of bs] by (simp add: unat_of_nat_small)

lemma unat_of_le_val64: "length bs \<le> 8 \<Longrightarrow> unat (of_nat (le_val bs) :: u64) = le_val bs"
proof -
  assume "length bs \<le> 8"
  then have "(256 :: nat) ^ length bs \<le> 256 ^ 8" by (intro power_increasing) auto
  then show ?thesis using le_val_bound [of bs] by (simp add: unat_of_nat_small)
qed

lemma take_drop_append: "m + k \<le> length xs \<Longrightarrow> take k (drop m (xs @ ys)) = take k (drop m xs)"
  by (simp add: drop_append)

section \<open>Chunks\<close>

text \<open>The first \<open>k\<close> chunks of \<open>n\<close> elements (\<open>slice::chunks_exact\<close>).\<close>

fun chunks_exact :: "nat \<Rightarrow> nat \<Rightarrow> 'a list \<Rightarrow> 'a list list" where
  "chunks_exact 0 n bs = []"
| "chunks_exact (Suc k) n bs = take n bs # chunks_exact k n (drop n bs)"

lemma length_concat_const: "\<forall>x \<in> set xs. length x = n \<Longrightarrow> length (concat xs) = length xs * n"
  by (induction xs) auto

lemma chunks_exact_concat: "\<forall>x \<in> set xs. length x = n \<Longrightarrow> chunks_exact (length xs) n (concat xs) = xs"
  by (induction xs) auto

lemma length_chunks_exact [simp]: "length (chunks_exact k n bs) = k"
  by (induction k arbitrary: bs) auto

lemma concat_chunks_exact: "length bs = k * n \<Longrightarrow> concat (chunks_exact k n bs) = bs"
  by (induction k arbitrary: bs) auto

lemma chunks_exact_lengths: "k * n \<le> length bs \<Longrightarrow> c \<in> set (chunks_exact k n bs) \<Longrightarrow> length c = n"
proof (induction k arbitrary: bs)
  case (Suc k)
  then have len: "k * n \<le> length (drop n bs)" by simp
  from Suc.prems(2) have "c = take n bs \<or> c \<in> set (chunks_exact k n (drop n bs))" by simp
  then show ?case using Suc.IH [OF len] Suc.prems(1) by auto
qed simp

lemma nth_chunks_exact: "i < k \<Longrightarrow> chunks_exact k n bs ! i = take n (drop (i * n) bs)"
proof (induction k arbitrary: i bs)
  case (Suc k)
  then show ?case by (cases i) (auto simp: add.commute)
qed simp

text \<open>Blocks of equal size within their concatenation.\<close>

lemma concat_slice:
  "\<forall>x \<in> set xs. length x = n \<Longrightarrow> i < length xs \<Longrightarrow> m + k \<le> n \<Longrightarrow> take k (drop (i * n + m) (concat xs)) = take k (drop m (xs ! i))"
proof (induction xs arbitrary: i)
  case (Cons x xs)
  then show ?case by (cases i) (auto simp: add.assoc)
qed simp

lemma nth_concat_const:
  "\<forall>x \<in> set xs. length x = n \<Longrightarrow> i < length xs \<Longrightarrow> take n (drop (i * n) (concat xs)) = xs ! i"
  using concat_slice [of xs n i 0 n] by simp

lemma drop_concat_const: "\<forall>x \<in> set xs. length x = n \<Longrightarrow> drop (k * n) (concat xs) = concat (drop k xs)"
proof (induction xs arbitrary: k)
  case (Cons x xs)
  then show ?case by (cases k) auto
qed simp

lemma take_concat_const: "\<forall>x \<in> set xs. length x = n \<Longrightarrow> take (k * n) (concat xs) = concat (take k xs)"
proof (induction xs arbitrary: k)
  case (Cons x xs)
  then show ?case by (cases k) auto
qed simp

text \<open>\<open>File::set_len\<close> shortens the file, or extends it with zero bytes.\<close>

definition set_len :: "nat \<Rightarrow> bytes \<Rightarrow> bytes" where
  "set_len n bs = take n bs @ replicate (n - length bs) 0"

text \<open>A list of 64-bit words from its little-endian bytes.\<close>

definition u64s_of :: "bytes \<Rightarrow> u64 list" where
  "u64s_of raw = map (\<lambda>chunk. of_nat (le_val chunk)) (chunks_exact (length raw div 8) 8 raw)"

definition u64s_le :: "u64 list \<Rightarrow> bytes" where
  "u64s_le xs = concat (map u64_le xs)"

lemma length_u64s_le [simp]: "length (u64s_le xs) = 8 * length xs"
  by (induction xs) (simp_all add: u64s_le_def)

lemma u64s_of_le: "u64s_of (u64s_le xs) = xs"
proof -
  have "chunks_exact (length (u64s_le xs) div 8) 8 (u64s_le xs) = map u64_le xs"
    using chunks_exact_concat [of "map u64_le xs" 8] by (simp add: u64s_le_def [symmetric])
  then show ?thesis by (simp add: u64s_of_def comp_def)
qed

lemma u64s_le_of:
  assumes "length bs = 8 * n"
  shows "u64s_le (u64s_of bs) = bs" and "length (u64s_of bs) = n"
proof -
  have n: "length bs div 8 = n" "length bs = n * 8" using assms by simp_all
  have "map (\<lambda>c. u64_le (of_nat (le_val c))) (chunks_exact n 8 bs) = chunks_exact n 8 bs"
    by (rule map_idI) (use n in \<open>auto dest: chunks_exact_lengths [of n 8 bs, rotated] simp: unat_of_le_val64 le_bytes_inverse\<close>)
  then show "u64s_le (u64s_of bs) = bs"
    using concat_chunks_exact [OF n(2)] by (simp add: u64s_of_def u64s_le_def n(1) comp_def)
  show "length (u64s_of bs) = n" by (simp add: u64s_of_def n)
qed

lemma u64s_of_iff: "length bs = 8 * n \<and> v = u64s_of bs \<longleftrightarrow> length v = n \<and> bs = u64s_le v"
  using u64s_le_of u64s_of_le by auto

section \<open>Powers of two\<close>

text \<open>
  \<open>next_power_of_two\<close> in the release build: the least power of two at or above the argument, and 0
  when that is not below \<open>2 ^ 64\<close>.
\<close>

function ceil_log2 :: "nat \<Rightarrow> nat \<Rightarrow> nat" where
  "ceil_log2 k n = (if n \<le> 2 ^ k \<or> 64 \<le> k then k else ceil_log2 (Suc k) n)"
  by pat_completeness auto
termination by (relation "measure (\<lambda>(k, _). 64 - k)") auto

declare ceil_log2.simps [simp del]

definition next_power_of_two :: "u64 \<Rightarrow> u64" where
  "next_power_of_two x = of_nat (2 ^ ceil_log2 0 (unat x))"

definition is_power_of_two :: "nat \<Rightarrow> bool" where
  "is_power_of_two n \<longleftrightarrow> n = 2 ^ ceil_log2 0 n"

lemma ceil_log2_spec:
  assumes "k \<le> 64" and "n \<le> 2 ^ 64"
  shows "n \<le> 2 ^ ceil_log2 k n \<and> k \<le> ceil_log2 k n \<and> (\<forall>j. k \<le> j \<and> n \<le> 2 ^ j \<longrightarrow> ceil_log2 k n \<le> j)"
  using assms
proof (induction k n rule: ceil_log2.induct)
  case (1 k n)
  show ?case
  proof (cases "n \<le> 2 ^ k \<or> 64 \<le> k")
    case True
    then have c: "ceil_log2 k n = k" by (subst ceil_log2.simps) simp
    have "n \<le> 2 ^ k"
    proof (cases "n \<le> 2 ^ k")
      case False
      then have "k = 64" using True "1.prems"(1) by simp
      then show ?thesis using "1.prems"(2) by simp
    qed
    then show ?thesis by (simp add: c)
  next
    case False
    then have c: "ceil_log2 k n = ceil_log2 (Suc k) n" by (subst ceil_log2.simps) simp
    have IH: "n \<le> 2 ^ ceil_log2 (Suc k) n \<and> Suc k \<le> ceil_log2 (Suc k) n
        \<and> (\<forall>j. Suc k \<le> j \<and> n \<le> 2 ^ j \<longrightarrow> ceil_log2 (Suc k) n \<le> j)"
      using "1.IH" [OF False] False "1.prems"(2) by simp
    have "Suc k \<le> j" if "k \<le> j" "n \<le> 2 ^ j" for j using that False by (cases "j = k") auto
    then show ?thesis using IH c by auto
  qed
qed

lemma next_power_of_two_spec:
  assumes "unat x \<le> 2 ^ 63"
  shows "\<exists>k \<le> 63. unat (next_power_of_two x) = 2 ^ k \<and> unat x \<le> 2 ^ k \<and> (\<forall>j. unat x \<le> 2 ^ j \<longrightarrow> k \<le> j)"
proof -
  let ?k = "ceil_log2 0 (unat x)"
  have spec: "unat x \<le> 2 ^ ?k \<and> (\<forall>j. unat x \<le> 2 ^ j \<longrightarrow> ?k \<le> j)"
    using ceil_log2_spec [of 0 "unat x"] unat_u64_lt [of x] by simp
  then have k: "?k \<le> 63" using assms by blast
  then have "(2 :: nat) ^ ?k \<le> 2 ^ 63" by (intro power_increasing) auto
  then have "unat (next_power_of_two x) = 2 ^ ?k"
    unfolding next_power_of_two_def by (subst unat_of_nat_u64) simp_all
  then show ?thesis using spec k by blast
qed

lemma is_power_of_two_iff: "n \<le> 2 ^ 64 \<Longrightarrow> is_power_of_two n \<longleftrightarrow> (\<exists>k. n = 2 ^ k)"
proof
  assume "n \<le> 2 ^ 64" and "\<exists>k. n = 2 ^ k"
  then obtain k where k: "n = 2 ^ k" by blast
  have "ceil_log2 0 n \<le> k" "n \<le> 2 ^ ceil_log2 0 n"
    using ceil_log2_spec [of 0 n] \<open>n \<le> 2 ^ 64\<close> k by auto
  then have "ceil_log2 0 n = k" unfolding k by (metis le_antisym power_le_imp_le_exp one_less_numeral_iff semiring_norm(76))
  then show "is_power_of_two n" by (simp add: is_power_of_two_def k)
qed (auto simp: is_power_of_two_def)

section \<open>Text\<close>

text \<open>The UTF-8 bytes of an ASCII literal, and the validity test of \<open>std::str::from_utf8\<close>.\<close>

fun decimal :: "nat \<Rightarrow> string" where
  "decimal n = (if n < 10 then [char_of (48 + n)] else decimal (n div 10) @ [char_of (48 + n mod 10)])"

declare decimal.simps [simp del]

definition str_bytes :: "string \<Rightarrow> bytes" where
  "str_bytes s = map of_char s"

definition utf8_tail :: "u8 \<Rightarrow> bool" where
  "utf8_tail b \<longleftrightarrow> 0x80 \<le> b \<and> b \<le> 0xbf"

fun valid_utf8 :: "bytes \<Rightarrow> bool" where
  "valid_utf8 [] = True"
| "valid_utf8 (a # bs) =
    (if a \<le> 0x7f then valid_utf8 bs
     else if 0xc2 \<le> a \<and> a \<le> 0xdf then
       (case bs of b # cs \<Rightarrow> utf8_tail b \<and> valid_utf8 cs | _ \<Rightarrow> False)
     else if 0xe0 \<le> a \<and> a \<le> 0xef then
       (case bs of b # c # cs \<Rightarrow>
          utf8_tail b \<and> (a = 0xe0 \<longrightarrow> 0xa0 \<le> b) \<and> (a = 0xed \<longrightarrow> b \<le> 0x9f)
          \<and> utf8_tail c \<and> valid_utf8 cs
        | _ \<Rightarrow> False)
     else if 0xf0 \<le> a \<and> a \<le> 0xf4 then
       (case bs of b # c # d # cs \<Rightarrow>
          utf8_tail b \<and> (a = 0xf0 \<longrightarrow> 0x90 \<le> b) \<and> (a = 0xf4 \<longrightarrow> b \<le> 0x8f)
          \<and> utf8_tail c \<and> utf8_tail d \<and> valid_utf8 cs
        | _ \<Rightarrow> False)
     else False)"

section \<open>Fallible loops over lists\<close>

fun mapR :: "('a \<Rightarrow> 'e + 'b) \<Rightarrow> 'a list \<Rightarrow> 'e + 'b list" where
  "mapR f [] = Inr []"
| "mapR f (x # xs) = bindR (f x) (\<lambda>y. bindR (mapR f xs) (\<lambda>ys. Inr (y # ys)))"

fun foldR :: "('a \<Rightarrow> 's \<Rightarrow> 'e + 's) \<Rightarrow> 'a list \<Rightarrow> 's \<Rightarrow> 'e + 's" where
  "foldR f [] s = Inr s"
| "foldR f (x # xs) s = bindR (f x s) (foldR f xs)"

lemma mapR_Inr_iff: "mapR f xs = Inr ys \<longleftrightarrow> list_all2 (\<lambda>x y. f x = Inr y) xs ys"
proof (induction xs arbitrary: ys)
  case Nil
  then show ?case by auto
next
  case (Cons x xs)
  then show ?case by (cases ys) (auto simp: bindR_Inr_iff)
qed

lemma mapR_Inl: "mapR f xs = Inl e \<Longrightarrow> \<exists>x \<in> set xs. f x = Inl e"
  by (induction xs) (auto simp: bindR_Inl_iff)

lemma foldR_append: "foldR f (xs @ ys) s = bindR (foldR f xs s) (foldR f ys)"
  by (induction xs arbitrary: s) (auto simp: bindR_def split: sum.splits)

lemma foldR_invariant:
  assumes "foldR f xs s = Inr t" and "P s"
    and "\<And>x s t. x \<in> set xs \<Longrightarrow> P s \<Longrightarrow> f x s = Inr t \<Longrightarrow> P t"
  shows "P t"
  using assms
proof (induction xs arbitrary: s)
  case Nil
  then show ?case by simp
next
  case (Cons x xs)
  then obtain u where u: "f x s = Inr u" "foldR f xs u = Inr t"
    by (auto simp: bindR_Inr_iff)
  show ?case
  proof (rule Cons.IH)
    show "foldR f xs u = Inr t" by (rule u)
    show "P u" using Cons.prems u by auto
    show "\<And>y s t. y \<in> set xs \<Longrightarrow> P s \<Longrightarrow> f y s = Inr t \<Longrightarrow> P t" using Cons.prems(3) by auto
  qed
qed

section \<open>Ordered maps\<close>

text \<open>
  A \<open>BTreeMap\<close> as the list of its entries in key order, the order in which it is iterated; \<open>get\<close> is
  \<open>map_of\<close>. \<open>bt_ok\<close> is the invariant of the type: strictly increasing keys.
\<close>

type_synonym ('k, 'v) btree = "('k \<times> 'v) list"

definition bt_ok :: "('k::linorder, 'v) btree \<Rightarrow> bool" where
  "bt_ok m \<longleftrightarrow> sorted_wrt (<) (map fst m)"

fun bt_insert :: "'k::linorder \<Rightarrow> 'v \<Rightarrow> ('k, 'v) btree \<Rightarrow> ('k, 'v) btree" where
  "bt_insert k v [] = [(k, v)]"
| "bt_insert k v ((k', v') # m) =
     (if k < k' then (k, v) # (k', v') # m
      else if k = k' then (k, v) # m
      else (k', v') # bt_insert k v m)"

definition bt_retain :: "('k \<Rightarrow> 'v \<Rightarrow> bool) \<Rightarrow> ('k::linorder, 'v) btree \<Rightarrow> ('k, 'v) btree" where
  "bt_retain f m = filter (\<lambda>(k, v). f k v) m"

definition bt_remove :: "'k \<Rightarrow> ('k::linorder, 'v) btree \<Rightarrow> ('k, 'v) btree" where
  "bt_remove k m = filter (\<lambda>e. fst e \<noteq> k) m"

lemma bt_ok_Nil [simp]: "bt_ok []"
  by (simp add: bt_ok_def)

lemma bt_ok_Cons [simp]: "bt_ok (e # m) \<longleftrightarrow> (\<forall>e' \<in> set m. fst e < fst e') \<and> bt_ok m"
  by (auto simp: bt_ok_def)

lemma set_bt_insert: "bt_ok m \<Longrightarrow> set (bt_insert k v m) = insert (k, v) {e \<in> set m. fst e \<noteq> k}"
  by (induction k v m rule: bt_insert.induct) auto

lemma bt_ok_insert [simp]: "bt_ok m \<Longrightarrow> bt_ok (bt_insert k v m)"
  by (induction k v m rule: bt_insert.induct) (auto simp: set_bt_insert)

lemma map_of_bt_insert [simp]: "bt_ok m \<Longrightarrow> map_of (bt_insert k v m) = (map_of m)(k \<mapsto> v)"
proof (induction k v m rule: bt_insert.induct)
  case (2 k v k' v' m)
  have "map_of m k = None" if "k < k'"
    using 2(2) that by (force simp: map_of_eq_None_iff)
  with 2 show ?case by (auto simp: fun_eq_iff)
qed auto

lemma bt_ok_distinct: "bt_ok m \<Longrightarrow> distinct (map fst m)"
  by (simp add: bt_ok_def strict_sorted_iff)

lemma bt_get_iff: "bt_ok m \<Longrightarrow> map_of m k = Some v \<longleftrightarrow> (k, v) \<in> set m"
  by (simp add: bt_ok_distinct map_of_eq_Some_iff)

lemma bt_ok_filter [simp]: "bt_ok m \<Longrightarrow> bt_ok (filter f m)"
  by (induction m) auto

lemma bt_ok_retain [simp]: "bt_ok m \<Longrightarrow> bt_ok (bt_retain f m)"
  by (simp add: bt_retain_def)

lemma bt_ok_remove [simp]: "bt_ok m \<Longrightarrow> bt_ok (bt_remove k m)"
  by (simp add: bt_remove_def)

lemma map_of_bt_retain:
  "bt_ok m \<Longrightarrow> map_of (bt_retain f m) k = (case map_of m k of None \<Rightarrow> None | Some v \<Rightarrow> if f k v then Some v else None)"
proof (induction m)
  case Nil
  then show ?case by (simp add: bt_retain_def)
next
  case (Cons e m)
  have "map_of m k = None" if "k = fst e"
    using Cons.prems that by (force simp: map_of_eq_None_iff)
  then show ?case using Cons by (cases e; cases "k = fst e") (simp_all add: bt_retain_def)
qed

lemma map_of_bt_remove: "map_of (bt_remove k m) k' = (if k' = k then None else map_of m k')"
  by (induction m) (auto simp: bt_remove_def)

section \<open>Cursors\<close>

text \<open>
  A decoder advances a cursor over a byte string. \<open>reads good rest p R\<close> says that the step \<open>p\<close>
  accepts from a well-formed cursor exactly the byte strings related to its result by \<open>R\<close>, and
  leaves the rest of the input untouched: it returns \<open>v\<close> if and only if the unread input starts with
  some \<open>bs\<close> with \<open>R v bs\<close>. Reading composes, so the format of a whole message is read off its decoder.
\<close>

definition reads ::
  "('s \<Rightarrow> bool) \<Rightarrow> ('s \<Rightarrow> bytes) \<Rightarrow> ('s, 'e, 'a) step \<Rightarrow> ('a \<Rightarrow> bytes \<Rightarrow> bool) \<Rightarrow> bool" where
  "reads good rest p R \<longleftrightarrow>
     (\<forall>s. good s \<longrightarrow>
        (\<forall>v s'. p s = Inr (v, s') \<longrightarrow> good s' \<and> (\<exists>bs. R v bs \<and> rest s = bs @ rest s')) \<and>
        (\<forall>v bs r. R v bs \<longrightarrow> rest s = bs @ r \<longrightarrow> (\<exists>s'. p s = Inr (v, s') \<and> rest s' = r \<and> good s')))"

lemma readsI:
  assumes "\<And>s v s'. good s \<Longrightarrow> p s = Inr (v, s') \<Longrightarrow> good s' \<and> (\<exists>bs. R v bs \<and> rest s = bs @ rest s')"
    and "\<And>s v bs r. good s \<Longrightarrow> R v bs \<Longrightarrow> rest s = bs @ r \<Longrightarrow> \<exists>s'. p s = Inr (v, s') \<and> rest s' = r \<and> good s'"
  shows "reads good rest p R"
  using assms unfolding reads_def by blast

lemma reads_sound:
  assumes "reads good rest p R" and "good s" and "p s = Inr (v, s')"
  obtains bs where "R v bs" "rest s = bs @ rest s'" "good s'"
  using assms unfolding reads_def by blast

lemma reads_complete:
  assumes "reads good rest p R" and "good s" and "R v bs" and "rest s = bs @ r"
  obtains s' where "p s = Inr (v, s')" "rest s' = r" "good s'"
  using assms unfolding reads_def by blast

lemma reads_return: "reads good rest (sreturn x) (\<lambda>v bs. v = x \<and> bs = [])"
  by (rule readsI) auto

lemma reads_guard: "reads good rest (sguard b e) (\<lambda>v bs. b \<and> bs = [])"
  by (rule readsI) auto

lemma reads_bind:
  assumes p: "reads good rest p R" and k: "\<And>x. reads good rest (k x) (S x)"
  shows "reads good rest (sbind p k) (\<lambda>v bs. \<exists>x as cs. R x as \<and> S x v cs \<and> bs = as @ cs)"
proof (rule readsI)
  fix s v s'
  assume "good s" and "sbind p k s = Inr (v, s')"
  then obtain x t where x: "p s = Inr (x, t)" "k x t = Inr (v, s')"
    by (auto simp: sbind_Inr_iff)
  obtain as where as: "R x as" "rest s = as @ rest t" "good t"
    using reads_sound [OF p \<open>good s\<close> x(1)] by blast
  obtain cs where "S x v cs" "rest t = cs @ rest s'" "good s'"
    using reads_sound [OF k as(3) x(2)] by blast
  with as show "good s' \<and> (\<exists>bs. (\<exists>x as cs. R x as \<and> S x v cs \<and> bs = as @ cs) \<and> rest s = bs @ rest s')"
    by auto
next
  fix s v bs r
  assume s: "good s" "\<exists>x as cs. R x as \<and> S x v cs \<and> bs = as @ cs" "rest s = bs @ r"
  then obtain x as cs where x: "R x as" "S x v cs" "rest s = as @ (cs @ r)" by auto
  obtain t where t: "p s = Inr (x, t)" "rest t = cs @ r" "good t"
    using reads_complete [OF p s(1) x(1) x(3)] by blast
  obtain s' where "k x t = Inr (v, s')" "rest s' = r" "good s'"
    using reads_complete [OF k t(3) x(2) t(2)] by blast
  with t show "\<exists>s'. sbind p k s = Inr (v, s') \<and> rest s' = r \<and> good s'" by auto
qed

lemma reads_cong:
  assumes "reads good rest p R" and "\<And>v bs. R v bs \<longleftrightarrow> S v bs"
  shows "reads good rest p S"
  using assms by (simp add: reads_def)

text \<open>
  \<open>reads_end\<close> is the same for a step that must consume all of the input: from a well-formed cursor
  it returns \<open>v\<close> if and only if \<open>R v\<close> holds of the whole unread input.
\<close>

definition reads_end ::
  "('s \<Rightarrow> bool) \<Rightarrow> ('s \<Rightarrow> bytes) \<Rightarrow> ('s, 'e, 'a) step \<Rightarrow> ('a \<Rightarrow> bytes \<Rightarrow> bool) \<Rightarrow> bool" where
  "reads_end good rest p R \<longleftrightarrow> (\<forall>s v. good s \<longrightarrow> (\<exists>s'. p s = Inr (v, s')) \<longleftrightarrow> R v (rest s))"

lemma reads_end_iff: "reads_end good rest p R \<Longrightarrow> good s \<Longrightarrow> (\<exists>s'. p s = Inr (v, s')) \<longleftrightarrow> R v (rest s)"
  by (simp add: reads_end_def)

lemma reads_end_bind:
  assumes p: "reads good rest p R" and k: "\<And>x. reads_end good rest (k x) (S x)"
  shows "reads_end good rest (sbind p k) (\<lambda>v bs. \<exists>x as cs. R x as \<and> S x v cs \<and> bs = as @ cs)"
  unfolding reads_end_def
proof (intro allI impI iffI)
  fix s v
  assume s: "good s" "\<exists>s'. sbind p k s = Inr (v, s')"
  then obtain x t s' where x: "p s = Inr (x, t)" "k x t = Inr (v, s')" by (auto simp: sbind_Inr_iff)
  obtain as where as: "R x as" "rest s = as @ rest t" "good t"
    using reads_sound [OF p s(1) x(1)] by blast
  have "S x v (rest t)" using reads_end_iff [OF k as(3)] x(2) by blast
  with as show "\<exists>x as cs. R x as \<and> S x v cs \<and> rest s = as @ cs" by blast
next
  fix s v
  assume s: "good s" "\<exists>x as cs. R x as \<and> S x v cs \<and> rest s = as @ cs"
  then obtain x as cs where x: "R x as" "S x v cs" "rest s = as @ cs" by auto
  obtain t where t: "p s = Inr (x, t)" "rest t = cs" "good t"
    using reads_complete [OF p s(1) x(1,3)] by blast
  then show "\<exists>s'. sbind p k s = Inr (v, s')"
    using reads_end_iff [OF k t(3), where v = v] x(2) by auto
qed

lemma reads_end_cong:
  assumes "reads_end good rest p R" and "\<And>v bs. R v bs \<longleftrightarrow> S v bs"
  shows "reads_end good rest p S"
  using assms by (simp add: reads_end_def)

text \<open>
  A length test before the bytes are read changes nothing when every accepted string is long
  enough, and a test that nothing remains makes the step consume all of the input.
\<close>

lemma reads_floor:
  assumes "reads good rest p R" and "\<And>v bs. R v bs \<Longrightarrow> n \<le> length bs"
    and "\<And>s. good s \<Longrightarrow> b s \<longleftrightarrow> n \<le> length (rest s)"
  shows "reads good rest (\<lambda>s. if b s then p s else Inl e) R"
proof (rule readsI)
  fix s v bs r
  assume "good s" "R v bs" "rest s = bs @ r"
  moreover from this have "b s" using assms(2,3) by fastforce
  ultimately show "\<exists>s'. (if b s then p s else Inl e) = Inr (v, s') \<and> rest s' = r \<and> good s'"
    using reads_complete [OF assms(1)] by (metis (full_types))
qed (use assms(1) in \<open>auto simp: reads_def split: if_splits\<close>)

lemma reads_end_floor:
  assumes "reads_end good rest p R" and "\<And>v bs. R v bs \<Longrightarrow> n \<le> length bs"
    and "\<And>s. good s \<Longrightarrow> b s \<longleftrightarrow> n \<le> length (rest s)"
  shows "reads_end good rest (\<lambda>s. if b s then p s else Inl e) R"
  using assms by (auto simp: reads_end_def split: if_splits)

lemma reads_end_return:
  assumes "\<And>s. good s \<Longrightarrow> b s \<longleftrightarrow> rest s = []"
  shows "reads_end good rest (\<lambda>s. if b s then sreturn x s else Inl e) (\<lambda>v bs. v = x \<and> bs = [])"
  using assms by (auto simp: reads_end_def)

lemma sgets_guard: "sbind (sgets f) (\<lambda>y. sbind (sguard (c y) e) (\<lambda>_. p)) = (\<lambda>s. if c (f s) then p s else Inl e)"
  by (rule ext) (simp add: sbind_def sguard_def)

text \<open>The same step \<open>n\<close> times, the results as a list.\<close>

fun srepeat :: "nat \<Rightarrow> ('s, 'e, 'a) step \<Rightarrow> ('s, 'e, 'a list) step" where
  "srepeat 0 p = sreturn []"
| "srepeat (Suc n) p = sbind p (\<lambda>x. sbind (srepeat n p) (\<lambda>xs. sreturn (x # xs)))"

lemma reads_repeat:
  assumes "reads good rest p (\<lambda>v bs. ok v \<and> bs = enc v)"
  shows "reads good rest (srepeat n p)
     (\<lambda>vs bs. length vs = n \<and> (\<forall>v \<in> set vs. ok v) \<and> bs = concat (map enc vs))"
proof (induction n)
  case 0
  show ?case unfolding srepeat.simps by (rule reads_cong [OF reads_return]) auto
next
  case (Suc n)
  show ?case
    unfolding srepeat.simps
    by (rule reads_cong [OF reads_bind [OF assms reads_bind [OF Suc.IH reads_return]]])
       (auto simp: length_Suc_conv)
qed

lemma srepeat_concat:
  "\<forall>x \<in> set xs. \<forall>r. p (enc x @ r) = Inr (x, r) \<Longrightarrow> srepeat (length xs) p (concat (map enc xs) @ r) = Inr (xs, r)" for p :: "('x list, 'e, 'a) step"
  by (induction xs) (auto simp: sbind_def)

text \<open>The interface of a byte cursor: taking \<open>n\<close> bytes succeeds exactly when they are there.\<close>

locale byte_cursor =
  fixes good :: "'s \<Rightarrow> bool"
    and rest :: "'s \<Rightarrow> bytes"
    and take_bytes :: "nat \<Rightarrow> ('s, 'e, bytes) step"
  assumes take_sound:
      "good s \<Longrightarrow> take_bytes n s = Inr (bs, s') \<Longrightarrow> good s' \<and> length bs = n \<and> rest s = bs @ rest s'"
    and take_complete:
      "good s \<Longrightarrow> rest s = bs @ r \<Longrightarrow> length bs = n
         \<Longrightarrow> \<exists>s'. take_bytes n s = Inr (bs, s') \<and> rest s' = r \<and> good s'"
begin

lemma reads_take: "reads good rest (take_bytes n) (\<lambda>v bs. v = bs \<and> length bs = n)"
  by (rule readsI) (use take_sound take_complete in \<open>blast+\<close>)

lemma reads_take_map:
  "reads good rest (sbind (take_bytes n) (\<lambda>b. sreturn (f b))) (\<lambda>v bs. v = f bs \<and> length bs = n)"
  by (rule reads_cong [OF reads_bind [OF reads_take reads_return]]) auto

lemma take_exact: "good s \<Longrightarrow> (\<exists>bs s'. take_bytes n s = Inr (bs, s')) \<longleftrightarrow> n \<le> length (rest s)"
  using take_sound [of s n] take_complete [of s "take n (rest s)" "drop n (rest s)" n]
  by fastforce

lemma take_short:
  assumes "good s" and "length (rest s) < n"
  shows "\<exists>e. take_bytes n s = Inl e"
proof (cases "take_bytes n s")
  case (Inr p)
  then show ?thesis using take_exact [OF assms(1), of n] assms(2) by (cases p) auto
qed auto

end

end
