(* ===== verification/Filter_Types.thy ===== *)
theory Filter_Types
  imports Prelude
begin

text \<open>
  The vocabulary of the crate \<open>pir/transparent-filter\<close>: the fixed application profile
  (\<open>profile.rs\<close>), the error type (\<open>error.rs\<close>), raw scripts as filter elements (\<open>script.rs\<close>),
  block hashes in internal and display order (\<open>hash.rs\<close>), the filter digests (\<open>digest.rs\<close>) and the
  CompactSize integers that both the filters and the envelope use.

  The crates \<open>hex\<close> and \<open>sha2\<close> are third-party code: \<open>hex_decode\<close>, \<open>hex_encode\<close> and \<open>sha256\<close> are
  parameters of the definitions that call them.
\<close>

section \<open>Profile\<close>

definition PROFILE :: bytes where
  "PROFILE = str_bytes ''zcash-transparent-basic-v1''"

definition P :: nat where "P = 19"

definition M :: u64 where "M = 784931"

definition NETWORK :: string where "NETWORK = ''main''"

definition START_HEIGHT :: u64 where "START_HEIGHT = 3428143"

lemma unat_M [simp]: "unat M = 784931"
  by (simp add: M_def)

section \<open>Errors\<close>

text \<open>
  Messages are kept as their literal templates; the numbers interpolated into them are dropped.
  \<open>Panic\<close> is the abort of the thread, not a value of the Rust type.
\<close>

datatype filter_error =
    BlockHashError string
  | Encoding string
  | Truncated string
  | NotCanonical string
  | LimitExceeded string
  | TrailingBytes nat
  | NonZeroPadding
  | MissingPreviousOutput bytes
  | Envelope string
  | Response string
  | Panic

section \<open>Scripts\<close>

type_synonym script_bytes = bytes

definition OP_RETURN :: u8 where "OP_RETURN = 0x6a"

definition is_op_return :: "script_bytes \<Rightarrow> bool" where
  "is_op_return s = (case s of [] \<Rightarrow> False | b # _ \<Rightarrow> b = OP_RETURN)"

definition is_filter_element :: "script_bytes \<Rightarrow> bool" where
  "is_filter_element s \<longleftrightarrow> s \<noteq> [] \<and> \<not> is_op_return s"

lemma is_filter_element_iff: "is_filter_element s \<longleftrightarrow> (\<exists>b t. s = b # t \<and> b \<noteq> 0x6a)"
  by (auto simp: is_filter_element_def is_op_return_def OP_RETURN_def split: list.splits)

section \<open>Block hashes\<close>

text \<open>A \<open>[u8; 32]\<close> in internal order; \<open>hash_ok\<close> is the length its Rust type guarantees.\<close>

type_synonym block_hash = bytes

definition hash_ok :: "block_hash \<Rightarrow> bool" where
  "hash_ok h \<longleftrightarrow> length h = 32"

definition from_display_hex ::
  "(string \<Rightarrow> bytes option) \<Rightarrow> string \<Rightarrow> filter_error + block_hash" where
  "from_display_hex hex_decode text =
     bindR (ok_or (BlockHashError ''block hash is not hexadecimal'') (hex_decode text)) (\<lambda>bs.
       if length bs = 32 then Inr (rev bs)
       else Inl (BlockHashError ''block hash is not 32 bytes''))"

definition to_display_hex :: "(bytes \<Rightarrow> string) \<Rightarrow> block_hash \<Rightarrow> string" where
  "to_display_hex hex_encode h = hex_encode (rev h)"

definition filter_keys :: "block_hash \<Rightarrow> u64 \<times> u64" where
  "filter_keys h =
     (of_nat (le_val (take 8 h)), of_nat (le_val (take 8 (drop 8 h))))"

lemma display_hex_roundtrip:
  assumes "\<And>bs. hex_decode (hex_encode bs) = Some bs" and "hash_ok h"
  shows "from_display_hex hex_decode (to_display_hex hex_encode h) = Inr h"
  using assms by (simp add: from_display_hex_def to_display_hex_def hash_ok_def)

lemma from_display_hex_ok: "from_display_hex dec t = Inr h \<Longrightarrow> hash_ok h"
  by (auto simp: from_display_hex_def bindR_Inr_iff hash_ok_def split: if_splits)

lemma filter_keys_le_bytes:
  assumes "hash_ok h"
  shows "u64_le (fst (filter_keys h)) @ u64_le (snd (filter_keys h)) = take 16 h"
proof -
  let ?a = "take 8 h" and ?b = "take 8 (drop 8 h)"
  have len: "length ?a = 8" "length ?b = 8"
    using assms by (simp_all add: hash_ok_def)
  have "take (8 + 8) h = ?a @ ?b"
    by (rule take_add)
  moreover have "u64_le (fst (filter_keys h)) = ?a"
    unfolding filter_keys_def fst_conv
    using unat_of_le_val64 [of ?a] le_bytes_inverse [OF len(1)] len by simp
  moreover have "u64_le (snd (filter_keys h)) = ?b"
    unfolding filter_keys_def snd_conv
    using unat_of_le_val64 [of ?b] le_bytes_inverse [OF len(2)] len by simp
  ultimately show ?thesis by simp
qed

section \<open>Digests\<close>

definition double_sha256 :: "(bytes \<Rightarrow> bytes) \<Rightarrow> bytes list \<Rightarrow> bytes" where
  "double_sha256 sha256 parts = sha256 (sha256 (concat parts))"

definition filter_hash :: "(bytes \<Rightarrow> bytes) \<Rightarrow> bytes \<Rightarrow> bytes" where
  "filter_hash sha256 bs = double_sha256 sha256 [bs]"

definition filter_header :: "(bytes \<Rightarrow> bytes) \<Rightarrow> bytes \<Rightarrow> bytes \<Rightarrow> bytes" where
  "filter_header sha256 fh previous = double_sha256 sha256 [fh, previous]"

definition GENESIS_PREDECESSOR :: bytes where
  "GENESIS_PREDECESSOR = replicate 32 0"

section \<open>CompactSize\<close>

text \<open>\<open>write_compact_size\<close> of \<open>envelope.rs\<close>; \<open>out\<close> is the vector it appends to.\<close>

definition write_compact_size :: "bytes \<Rightarrow> u64 \<Rightarrow> bytes" where
  "write_compact_size out value =
     (if value \<le> 0xfc then out @ [ucast value]
      else if value \<le> 0xffff then out @ [0xfd] @ u16_le (ucast value)
      else if value \<le> 0xffffffff then out @ [0xfe] @ u32_le (ucast value)
      else out @ [0xff] @ u64_le value)"

abbreviation compact_size :: "u64 \<Rightarrow> bytes" where
  "compact_size v \<equiv> write_compact_size [] v"

lemma write_compact_size_append: "write_compact_size out v = out @ compact_size v"
  by (simp add: write_compact_size_def)

lemma unat_ucast_le:
  "unat v < 2 ^ LENGTH('b) \<Longrightarrow> unat (ucast v :: 'b::len word) = unat v" for v :: "'a::len word"
  by (simp add: unsigned_ucast_eq take_bit_nat_eq_self)

lemma compact_size_cases:
  obtains (one) "unat v \<le> 0xfc" "compact_size v = [of_nat (unat v)]"
  | (two) "0xfd \<le> unat v" "unat v \<le> 0xffff" "compact_size v = 0xfd # le_bytes 2 (unat v)"
  | (four) "0x10000 \<le> unat v" "unat v \<le> 0xffffffff" "compact_size v = 0xfe # le_bytes 4 (unat v)"
  | (eight) "0x100000000 \<le> unat v" "compact_size v = 0xff # le_bytes 8 (unat v)"
proof -
  have le: "v \<le> numeral k \<longleftrightarrow> unat v \<le> unat (numeral k :: u64)" for k
    by (simp add: word_le_nat_alt)
  consider "unat v \<le> 0xfc" | "0xfd \<le> unat v" "unat v \<le> 0xffff"
    | "0x10000 \<le> unat v" "unat v \<le> 0xffffffff" | "0x100000000 \<le> unat v"
    by linarith
  then show thesis
  proof cases
    case 1
    then show ?thesis
      by (intro one) (simp_all add: write_compact_size_def le of_nat_unat)
  next
    case 2
    then have "unat (ucast v :: u16) = unat v" by (intro unat_ucast_le) simp
    with 2 show ?thesis by (intro two) (simp_all add: write_compact_size_def le)
  next
    case 3
    then have "unat (ucast v :: u32) = unat v" by (intro unat_ucast_le) simp
    with 3 show ?thesis by (intro four) (simp_all add: write_compact_size_def le)
  next
    case 4
    then show ?thesis by (intro eight) (simp_all add: write_compact_size_def le)
  qed
qed

lemma length_compact_size: "1 \<le> length (compact_size v) \<and> length (compact_size v) \<le> 9"
  by (cases v rule: compact_size_cases) simp_all

text \<open>
  The four shapes of a canonical CompactSize; both readers of the crate are shown to accept
  exactly these.
\<close>

definition compact_shape :: "u8 \<Rightarrow> bytes \<Rightarrow> u64 \<Rightarrow> bool" where
  "compact_shape f b v \<longleftrightarrow>
     (if f = 0xfd then length b = 2 \<and> 0xfd \<le> le_val b \<and> v = of_nat (le_val b)
      else if f = 0xfe then length b = 4 \<and> 0x10000 \<le> le_val b \<and> v = of_nat (le_val b)
      else if f = 0xff then length b = 8 \<and> 0x100000000 \<le> le_val b \<and> v = of_nat (le_val b)
      else b = [] \<and> v = ucast f)"

lemma compact_size_shape: "\<exists>f b. compact_size v = f # b \<and> compact_shape f b v"
proof (cases v rule: compact_size_cases)
  case one
  have "(of_nat (unat v) :: u8) \<noteq> 0xfd" "(of_nat (unat v) :: u8) \<noteq> 0xfe" "(of_nat (unat v) :: u8) \<noteq> 0xff"
    using one(1) by (auto simp: word_unat_eq_iff unat_ucast_le)
  moreover have "ucast (of_nat (unat v) :: u8) = v"
    using one(1) by (simp add: word_unat_eq_iff unat_ucast_le unat_of_nat_small)
  ultimately show ?thesis using one by (simp add: compact_shape_def)
qed (use unat_u64_lt [of v] in \<open>simp_all add: compact_shape_def le_val_le_bytes\<close>)

lemma compact_shape_size: "compact_shape f b v \<Longrightarrow> compact_size v = f # b"
proof -
  assume sh: "compact_shape f b v"
  have le: "le_val b < 2 ^ 64" if "length b \<le> 8"
    using unat_of_le_val64 [OF that] unat_u64_lt [of "of_nat (le_val b)"] by simp
  consider (two) "f = 0xfd" | (four) "f = 0xfe" | (eight) "f = 0xff"
    | (one) "f \<noteq> 0xfd" "f \<noteq> 0xfe" "f \<noteq> 0xff" by blast
  then show ?thesis
  proof cases
    case two
    with sh have b: "length b = 2" "0xfd \<le> le_val b" "v = of_nat (le_val b)" by (simp_all add: compact_shape_def)
    then have "unat v = le_val b" "le_val b < 2 ^ 16"
      using unat_of_le_val64 [of b] le_val_bound [of b] by simp_all
    then show ?thesis using b two le_bytes_inverse [OF b(1)]
      by (cases v rule: compact_size_cases) simp_all
  next
    case four
    with sh have b: "length b = 4" "0x10000 \<le> le_val b" "v = of_nat (le_val b)" by (simp_all add: compact_shape_def)
    then have "unat v = le_val b" "le_val b < 2 ^ 32"
      using unat_of_le_val64 [of b] le_val_bound [of b] by simp_all
    then show ?thesis using b four le_bytes_inverse [OF b(1)]
      by (cases v rule: compact_size_cases) simp_all
  next
    case eight
    with sh have b: "length b = 8" "0x100000000 \<le> le_val b" "v = of_nat (le_val b)" by (simp_all add: compact_shape_def)
    then have "unat v = le_val b" using unat_of_le_val64 [of b] by simp
    then show ?thesis using b eight le_bytes_inverse [OF b(1)]
      by (cases v rule: compact_size_cases) simp_all
  next
    case one
    with sh have v: "b = []" "unat v = unat f"
      using unat_u8_lt [of f] by (simp_all add: compact_shape_def unat_ucast_le)
    have "unat f \<noteq> 0xfd" "unat f \<noteq> 0xfe" "unat f \<noteq> 0xff"
      using one by (auto simp: word_unat_eq_iff)
    then have "unat v \<le> 0xfc" using v unat_u8_lt [of f] by linarith
    then show ?thesis using v by (cases v rule: compact_size_cases) simp_all
  qed
qed

lemma compact_size_eq_iff: "compact_size v = f # b \<longleftrightarrow> compact_shape f b v"
  by (metis compact_size_shape compact_shape_size list.inject)

end
