(* ===== verification/Filter_Validate.thy ===== *)
theory Filter_Validate
  imports Filter_Types
begin

text \<open>
  Strict decoding of a downloaded filter: \<open>pir/transparent-filter/src/validate.rs\<close>, in the order
  of the source. \<open>decode_values\<close> is the \<open>for index in 0..count\<close> loop of \<open>validate_filter\<close> and
  \<open>read_unary\<close> its inner \<open>while\<close> loop; the latter terminates because every set bit advances the
  reader towards the end of the body.
\<close>

section \<open>Limits and validated filters\<close>

record filter_limits =
  max_bytes :: nat
  max_elements :: u64

definition ZCASH_MAINNET :: filter_limits where
  "ZCASH_MAINNET = \<lparr> max_bytes = 2 * 1024 * 1024, max_elements = 1000000 \<rparr>"

record validated_filter =
  vf_bytes :: bytes
  vf_values :: "u64 list"

definition vf_element_count :: "validated_filter \<Rightarrow> nat" where
  "vf_element_count f = length (vf_values f)"

definition vf_range :: "validated_filter \<Rightarrow> u64" where
  "vf_range f = of_nat (length (vf_values f)) * M"

section \<open>The bit reader\<close>

record bit_reader =
  br_bytes :: bytes
  br_bit :: nat

definition bit_reader_new :: "bytes \<Rightarrow> bit_reader" where
  "bit_reader_new bs = \<lparr> br_bytes = bs, br_bit = 0 \<rparr>"

definition read_bit :: "bit_reader \<Rightarrow> filter_error + (u8 \<times> bit_reader)" where
  "read_bit r =
     (if br_bit r div 8 < length (br_bytes r)
      then let byte = br_bytes r ! (br_bit r div 8);
               v = drop_bit (7 - br_bit r mod 8) byte AND 1
           in Inr (v, r \<lparr> br_bit := br_bit r + 1 \<rparr>)
      else Inl (Truncated ''bit stream ended mid-value''))"

fun read_bits_loop :: "nat \<Rightarrow> u64 \<Rightarrow> bit_reader \<Rightarrow> filter_error + (u64 \<times> bit_reader)" where
  "read_bits_loop 0 v r = Inr (v, r)"
| "read_bits_loop (Suc n) v r =
     (case read_bit r of Inl e \<Rightarrow> Inl e
      | Inr (b, r') \<Rightarrow> read_bits_loop n (push_bit 1 v OR ucast b) r')"

definition read_bits :: "nat \<Rightarrow> bit_reader \<Rightarrow> filter_error + (u64 \<times> bit_reader)" where
  "read_bits count r = read_bits_loop count 0 r"

definition consumed_bytes :: "bit_reader \<Rightarrow> nat" where
  "consumed_bytes r = (br_bit r + 7) div 8"

definition padding_is_zero :: "bit_reader \<Rightarrow> filter_error + unit" where
  "padding_is_zero r =
     (let rem = br_bit r mod 8 in
      if rem = 0 then Inr ()
      else if length (br_bytes r) \<le> br_bit r div 8 then Inl Panic
      else let byte = br_bytes r ! (br_bit r div 8); mask = drop_bit rem 0xff
           in if byte AND mask \<noteq> 0 then Inl NonZeroPadding else Inr ())"

section \<open>CompactSize\<close>

definition need :: "bytes \<Rightarrow> nat \<Rightarrow> filter_error + bytes" where
  "need bs width =
     (if 1 + width \<le> length bs then Inr (take width (drop 1 bs))
      else Inl (Truncated ''CompactSize is truncated''))"

definition read_compact_size :: "bytes \<Rightarrow> filter_error + (u64 \<times> nat)" where
  "read_compact_size bs =
     (case bs of [] \<Rightarrow> Inl (Truncated ''filter is empty'')
      | first # _ \<Rightarrow>
        if first = 0xfd then
          bindR (need bs 2) (\<lambda>b. let value = ucast (of_nat (le_val b) :: u16) in
            if value < 0xfd
            then Inl (NotCanonical ''CompactSize used a 3-byte encoding for a 1-byte value'')
            else Inr (value, 3))
        else if first = 0xfe then
          bindR (need bs 4) (\<lambda>b. let value = ucast (of_nat (le_val b) :: u32) in
            if value \<le> 0xffff
            then Inl (NotCanonical ''CompactSize used a 5-byte encoding for a shorter value'')
            else Inr (value, 5))
        else if first = 0xff then
          bindR (need bs 8) (\<lambda>b. let value = of_nat (le_val b) in
            if value \<le> 0xffffffff
            then Inl (NotCanonical ''CompactSize used a 9-byte encoding for a shorter value'')
            else Inr (value, 9))
        else Inr (ucast first, 1))"

section \<open>Decoding\<close>

text \<open>\<open>while reader.read_bit()? == 1 { quotient += 1; if quotient > max_quotient { return Err } }\<close>\<close>

function read_unary ::
  "u64 \<Rightarrow> bit_reader \<Rightarrow> u64 \<Rightarrow> filter_error + (u64 \<times> bit_reader)" where
  "read_unary max_quotient r q =
     (case read_bit r of Inl e \<Rightarrow> Inl e
      | Inr (b, r') \<Rightarrow>
        if b = 1 then
          if q + 1 > max_quotient
          then Inl (LimitExceeded ''unary run exceeds the encodable range'')
          else read_unary max_quotient r' (q + 1)
        else Inr (q, r'))"
  by pat_completeness auto
termination
  by (relation "measure (\<lambda>(_, r, _). 8 * length (br_bytes r) - br_bit r)")
     (auto simp: read_bit_def Let_def split: if_splits)

declare read_unary.simps [simp del]

fun decode_values ::
  "nat \<Rightarrow> u64 \<Rightarrow> u64 \<Rightarrow> bit_reader \<Rightarrow> u64 \<Rightarrow> u64 list
     \<Rightarrow> filter_error + (u64 list \<times> bit_reader)" where
  "decode_values 0 rng max_quotient r prev values = Inr (values, r)"
| "decode_values (Suc n) rng max_quotient r prev values =
     bindR (read_unary max_quotient r 0) (\<lambda>(q, r).
     bindR (read_bits P r) (\<lambda>(remainder, r).
     bindR (ok_or (Encoding ''delta overflows'')
              (checked_add (push_bit P q) remainder)) (\<lambda>delta.
     bindR (ok_or (Encoding ''cumulative value overflows'') (checked_add prev delta)) (\<lambda>prev.
       if prev \<ge> rng
       then Inl (Encoding ''element maps outside the encoded range'')
       else decode_values n rng max_quotient r prev (values @ [prev])))))"

definition validate_filter :: "bytes \<Rightarrow> filter_limits \<Rightarrow> filter_error + validated_filter" where
  "validate_filter bs limits =
     (if length bs > max_bytes limits then Inl (LimitExceeded ''filter bytes'')
      else bindR (read_compact_size bs) (\<lambda>(count, header_len).
      if count > max_elements limits then Inl (LimitExceeded ''filter elements'')
      else if length bs < header_len then Inl Panic
      else let body = drop header_len bs in
      bindR (ok_or (LimitExceeded ''element count overflows'')
               (checked_mul count (of_nat P + 1))) (\<lambda>minimum_bits.
      if minimum_bits > saturating_mul (of_nat (length body)) 8
      then Inl (Truncated ''filter claims more elements than its body encodes'')
      else if count = 0 then
        if body \<noteq> [] then Inl (TrailingBytes (length body))
        else Inr \<lparr> vf_bytes = bs, vf_values = [] \<rparr>
      else
        bindR (ok_or (LimitExceeded ''mapped range overflows'') (checked_mul count M)) (\<lambda>rng.
        let max_quotient = drop_bit P rng in
        bindR (decode_values (unat count) rng max_quotient (bit_reader_new body) 0 [])
          (\<lambda>(values, reader).
        bindR (padding_is_zero reader) (\<lambda>_.
          let consumed = consumed_bytes reader in
          if consumed < length body then Inl (TrailingBytes (length body - consumed))
          else Inr \<lparr> vf_bytes = bs, vf_values = values \<rparr>))))))"

section \<open>The reader as a bit list\<close>

definition bits_of_byte :: "u8 \<Rightarrow> bool list" where
  "bits_of_byte b = map (\<lambda>i. bit b (7 - i)) [0..<8]"

definition bits_of :: "bytes \<Rightarrow> bool list" where
  "bits_of bs = concat (map bits_of_byte bs)"

definition unread :: "bit_reader \<Rightarrow> bool list" where
  "unread r = drop (br_bit r) (bits_of (br_bytes r))"

definition advance :: "nat \<Rightarrow> bit_reader \<Rightarrow> bit_reader" where
  "advance n r = r \<lparr> br_bit := br_bit r + n \<rparr>"

lemma bits_of_simps [simp]: "bits_of [] = []" "bits_of (b # bs) = bits_of_byte b @ bits_of bs"
  by (simp_all add: bits_of_def)

lemma length_bits_of_byte [simp]: "length (bits_of_byte b) = 8"
  by (simp add: bits_of_byte_def)

lemma length_bits_of [simp]: "length (bits_of bs) = 8 * length bs"
  by (induction bs) simp_all

lemma nth_bits_of:
  "i < 8 * length bs \<Longrightarrow> bits_of bs ! i = bit (bs ! (i div 8)) (7 - i mod 8)"
proof (induction bs arbitrary: i)
  case Nil
  then show ?case by simp
next
  case (Cons b bs)
  show ?case
  proof (cases "i < 8")
    case True
    then show ?thesis by (simp add: nth_append) (simp add: bits_of_byte_def)
  next
    case False
    then obtain j where j: "i = j + 8" by (metis add.commute le_Suc_ex not_less)
    moreover have "(j + 8) div 8 = Suc (j div 8)" by simp
    ultimately show ?thesis using Cons by (simp add: nth_append)
  qed
qed

lemma advance_simps [simp]:
  "br_bytes (advance n r) = br_bytes r"
  "br_bit (advance n r) = br_bit r + n"
  "advance m (advance n r) = advance (n + m) r"
  "advance 0 r = r"
  by (simp_all add: advance_def)

lemma unread_advance [simp]: "unread (advance n r) = drop n (unread r)"
  by (simp add: unread_def add.commute)

lemma unread_new [simp]: "unread (bit_reader_new bs) = bits_of bs"
  by (simp add: unread_def bit_reader_new_def)

lemma low_bit: "drop_bit n (b :: u8) AND 1 = of_bool (bit b n)"
  by (simp add: and_one_eq mod_2_eq_odd bit_iff_odd_drop_bit)

lemma read_bit_Cons:
  assumes "unread r = b # bs"
  shows "read_bit r = Inr (of_bool b, advance 1 r)"
proof -
  have lt: "br_bit r < 8 * length (br_bytes r)"
    using assms by (cases "br_bit r < 8 * length (br_bytes r)") (simp_all add: unread_def)
  then have "br_bit r div 8 < length (br_bytes r)" by auto
  moreover have "b = bit (br_bytes r ! (br_bit r div 8)) (7 - br_bit r mod 8)"
    using assms nth_bits_of [OF lt] Cons_nth_drop_Suc [of "br_bit r" "bits_of (br_bytes r)"] lt
    by (simp add: unread_def)
  ultimately show ?thesis by (simp add: read_bit_def low_bit advance_def)
qed

lemma read_bit_Nil:
  assumes "unread r = []"
  shows "read_bit r = Inl (Truncated ''bit stream ended mid-value'')"
  using assms by (auto simp: read_bit_def unread_def)

lemma read_bit_eq:
  "read_bit r = (case unread r of [] \<Rightarrow> Inl (Truncated ''bit stream ended mid-value'')
                 | b # _ \<Rightarrow> Inr (of_bool b, advance 1 r))"
  by (cases "unread r") (simp_all add: read_bit_Nil read_bit_Cons)

section \<open>Reading words and unary runs\<close>

definition be_val :: "bool list \<Rightarrow> u64" where
  "be_val bs = horner_sum of_bool 2 (rev bs)"

lemma be_val_snoc: "be_val (bs @ [b]) = push_bit 1 (be_val bs) OR of_bool b"
  by (cases b) (simp_all add: be_val_def or_one_eq mult.commute)

lemma read_bits_loop_eq:
  "read_bits_loop n (be_val pre) r =
     (if n \<le> length (unread r) then Inr (be_val (pre @ take n (unread r)), advance n r)
      else Inl (Truncated ''bit stream ended mid-value''))"
proof (induction n arbitrary: pre r)
  case 0
  then show ?case by simp
next
  case (Suc n)
  show ?case
  proof (cases "unread r")
    case Nil
    then show ?thesis by (simp add: read_bit_Nil)
  next
    case (Cons b bs)
    have "ucast (of_bool b :: u8) = (of_bool b :: u64)" by simp
    then have step: "read_bits_loop (Suc n) (be_val pre) r = read_bits_loop n (be_val (pre @ [b])) (advance 1 r)"
      by (simp add: read_bit_Cons [OF Cons] be_val_snoc del: push_bit_of_Suc_0)
    show ?thesis unfolding step Suc.IH using Cons by simp
  qed
qed

lemma read_bits_eq:
  "read_bits n r =
     (if n \<le> length (unread r) then Inr (be_val (take n (unread r)), advance n r)
      else Inl (Truncated ''bit stream ended mid-value''))"
  using read_bits_loop_eq [of n "[]" r] by (simp add: read_bits_def be_val_def)

lemma bit_be_val: "bit (be_val bs) i \<longleftrightarrow> i < 64 \<and> i < length bs \<and> rev bs ! i"
  by (simp add: be_val_def bit_horner_sum_bit_iff)

lemma unat_be_val: "length bs \<le> 64 \<Longrightarrow> unat (be_val bs) < 2 ^ length bs"
proof -
  assume len: "length bs \<le> 64"
  have "take_bit (length bs) (be_val bs) = be_val bs"
    by (rule bit_eqI) (auto simp: bit_take_bit_iff bit_be_val)
  then have "take_bit (length bs) (unat (be_val bs)) = unat (be_val bs)"
    by (metis unsigned_take_bit_eq)
  then show ?thesis by (metis take_bit_nat_less_exp)
qed

lemma read_unary_sound:
  assumes "read_unary mq r q = Inr (q', r')" and "unat mq < 2 ^ 64 - 1" and "q \<le> mq"
  shows "\<exists>k rst. unread r = replicate k True @ False # rst \<and> unat q' = unat q + k
           \<and> unat q' \<le> unat mq \<and> r' = advance (k + 1) r"
  using assms
proof (induction mq r q arbitrary: q' r' rule: read_unary.induct)
  case (1 mq r q)
  show ?case
  proof (cases "unread r")
    case Nil
    then show ?thesis using "1.prems" by (simp add: read_unary.simps read_bit_Nil)
  next
    case (Cons b bs)
    note rb = read_bit_Cons [OF Cons]
    show ?thesis
    proof (cases b)
      case False
      then have "q' = q" "r' = advance 1 r"
        using "1.prems"(1) rb by (simp_all add: read_unary.simps)
      then show ?thesis using Cons False "1.prems"(3)
        by (intro exI [of _ 0] exI [of _ bs]) (simp add: word_le_nat_alt)
    next
      case True
      have inc: "unat (q + 1) = unat q + 1"
        using "1.prems"(2,3) by (simp add: unat_add_nowrap word_le_nat_alt)
      have le: "q + 1 \<le> mq" and rec: "read_unary mq (advance 1 r) (q + 1) = Inr (q', r')"
        using "1.prems"(1) rb True by (auto simp: read_unary.simps [of mq r] split: if_splits)
      obtain k rst where "unread (advance 1 r) = replicate k True @ False # rst"
        "unat q' = unat (q + 1) + k" "unat q' \<le> unat mq" "r' = advance (k + 1) (advance 1 r)"
        using "1.IH" [OF rb refl _ _ rec "1.prems"(2) le] True le by (auto simp: not_less)
      then show ?thesis using Cons True inc
        by (intro exI [of _ "Suc k"] exI [of _ rst]) simp
    qed
  qed
qed

lemma read_unary_complete:
  assumes "unread r = replicate k True @ False # rst" and "unat q + k \<le> unat mq"
    and "unat mq < 2 ^ 64 - 1"
  shows "read_unary mq r q = Inr (q + of_nat k, advance (k + 1) r)"
  using assms
proof (induction k arbitrary: r q)
  case 0
  then have "unread r = False # rst" by simp
  from read_bit_Cons [OF this] show ?case by (simp add: read_unary.simps)
next
  case (Suc k)
  have un: "unread r = True # replicate k True @ False # rst" using Suc.prems(1) by simp
  have inc: "unat (q + 1) = unat q + 1"
    using Suc.prems(2,3) by (simp add: unat_add_nowrap)
  then have "q + 1 \<le> mq" using Suc.prems(2) by (simp add: word_le_nat_alt)
  moreover have "read_unary mq (advance 1 r) (q + 1) = Inr (q + 1 + of_nat k, advance (k + 1) (advance 1 r))"
    by (rule Suc.IH) (use un inc Suc.prems in simp_all)
  ultimately show ?case using read_bit_Cons [OF un]
    by (simp add: read_unary.simps [of mq r] add.assoc)
qed

end
