(* ===== verification/Filter_Gcs.thy ===== *)
theory Filter_Gcs
  imports Filter_Validate
begin

text \<open>
  The reference form of a serialized filter, and what \<open>validate_filter\<close> accepts.

  \<open>gcs_encode\<close> is the encoding that BIP 158 prescribes for a sorted list of mapped values: the
  CompactSize count, then the Golomb-Rice codes of the successive differences as a big-endian bit
  stream, padded with zero bits to a whole number of bytes. The code under \<open>src/\<close> holds only the
  decoder; the encoder is the third-party \<open>GcsFilterWriter\<close>, a parameter of \<open>Filter_Matching\<close>.
\<close>

section \<open>Packing bits into bytes\<close>

definition byte_of :: "bool list \<Rightarrow> u8" where
  "byte_of bs = horner_sum of_bool 2 (rev bs)"

fun pack :: "bool list \<Rightarrow> bytes" where
  "pack [] = []"
| "pack (b # bs) = byte_of (take 8 (b # bs) @ replicate (8 - length (b # bs)) False) # pack (drop 7 bs)"

lemma byte_of_bits: "byte_of (bits_of_byte b) = b"
proof (rule bit_eqI)
  fix n
  assume "possible_bit TYPE(u8) n"
  then have n: "n < 8" by simp
  then have "rev (bits_of_byte b) ! n = bit b n"
    by (simp add: bits_of_byte_def rev_nth nth_upt less_imp_diff_less)
  then show "bit (byte_of (bits_of_byte b)) n = bit b n"
    using n by (simp add: byte_of_def bit_horner_sum_bit_iff)
qed

lemma bits_of_byte_of: "length bs = 8 \<Longrightarrow> bits_of_byte (byte_of bs) = bs"
proof (rule nth_equalityI)
  fix i
  assume len: "length bs = 8" and "i < length (bits_of_byte (byte_of bs))"
  then have i: "i < 8" by simp
  then have "rev bs ! (7 - i) = bs ! i" "7 - i < 8" using len by (simp_all add: rev_nth)
  then show "bits_of_byte (byte_of bs) ! i = bs ! i"
    using i len by (simp add: bits_of_byte_def byte_of_def bit_horner_sum_bit_iff)
qed simp

lemma bits_of_inject: "bits_of as = bits_of bs \<Longrightarrow> as = bs"
proof (induction as arbitrary: bs)
  case Nil
  then show ?case using length_bits_of [of bs] by (metis bits_of_simps(1) length_0_conv mult_is_0 numeral_eq_Suc zero_neq_numeral)
next
  case (Cons a as)
  then obtain b bs' where bs: "bs = b # bs'"
    using length_bits_of [of bs] length_bits_of [of "a # as"] by (cases bs) auto
  with Cons.prems have "bits_of_byte a = bits_of_byte b" "bits_of as = bits_of bs'" by auto
  then show ?case using Cons.IH bs byte_of_bits by metis
qed

definition padding :: "nat \<Rightarrow> nat" where
  "padding n = (8 - n mod 8) mod 8"

lemma padding_less: "padding n < 8"
  by (simp add: padding_def)

lemma padding_unique:
  assumes "8 dvd n + k" and "k < 8"
  shows "k = padding n"
proof -
  have "(n mod 8 + k) mod 8 = 0" using assms(1) by (simp add: mod_add_left_eq dvd_eq_mod_eq_0)
  then obtain m where m: "n mod 8 + k = 8 * m" by (auto elim: dvdE simp: mod_eq_0_iff_dvd)
  have "n mod 8 < 8" by simp
  then have "m < 2" using m assms(2) by linarith
  then have "m = 0 \<or> m = 1" by auto
  then show ?thesis using assms(2) m by (auto simp: padding_def)
qed

lemma padding_add8: "padding (n + 8) = padding n"
  by (simp add: padding_def)

lemma bits_of_pack: "bits_of (pack bs) = bs @ replicate (padding (length bs)) False"
proof (induction bs rule: pack.induct)
  case 1
  then show ?case by (simp add: padding_def)
next
  case (2 b bs)
  let ?xs = "b # bs"
  have byte: "bits_of_byte (byte_of (take 8 ?xs @ replicate (8 - length ?xs) False))
                = take 8 ?xs @ replicate (8 - length ?xs) False"
    by (rule bits_of_byte_of) simp
  show ?case
  proof (cases "length ?xs \<le> 8")
    case True
    then have "padding (length ?xs) = 8 - length ?xs"
      by (intro padding_unique [symmetric]) simp_all
    with True byte show ?thesis by simp
  next
    case False
    then have "padding (length ?xs) = padding (length (drop 7 bs))"
      using padding_add8 [of "length (drop 7 bs)"] by simp
    with False byte 2 show ?thesis
      using append_take_drop_id [of 8 ?xs] by simp
  qed
qed

lemma pack_unique:
  assumes "bits_of bs = xs @ replicate k False" and "k < 8"
  shows "bs = pack xs"
proof (rule bits_of_inject)
  have "8 dvd length xs + k"
    using arg_cong [OF assms(1), of length] by (metis dvd_triv_left length_append length_bits_of length_replicate)
  then show "bits_of bs = bits_of (pack xs)"
    using assms padding_unique by (simp add: bits_of_pack)
qed

section \<open>Golomb-Rice codes\<close>

definition rice_bits :: "nat \<Rightarrow> bool list" where
  "rice_bits d = rev (map (bit d) [0..<P])"

definition golomb_bits :: "nat \<Rightarrow> bool list" where
  "golomb_bits d = replicate (d div 2 ^ P) True @ False # rice_bits d"

fun deltas :: "nat \<Rightarrow> nat list \<Rightarrow> nat list" where
  "deltas p [] = []"
| "deltas p (v # vs) = (v - p) # deltas v vs"

definition gcs_stream :: "nat \<Rightarrow> nat list \<Rightarrow> bool list" where
  "gcs_stream p vs = concat (map golomb_bits (deltas p vs))"

definition gcs_encode :: "nat list \<Rightarrow> bytes" where
  "gcs_encode vs = compact_size (of_nat (length vs)) @ pack (gcs_stream 0 vs)"

lemma length_rice_bits [simp]: "length (rice_bits d) = P"
  by (simp add: rice_bits_def)

lemma gcs_stream_simps [simp]:
  "gcs_stream p [] = []"
  "gcs_stream p (v # vs) = golomb_bits (v - p) @ gcs_stream v vs"
  by (simp_all add: gcs_stream_def)

lemma length_gcs_stream: "length vs * (P + 1) \<le> length (gcs_stream p vs)"
  by (induction vs arbitrary: p) (auto simp: golomb_bits_def intro: trans_le_add2 add_mono)

text \<open>An encoded filter is short: the unary parts together are no longer than the largest value allows.\<close>

lemma gcs_stream_le:
  "sorted (p # vs) \<Longrightarrow> 2 ^ P * length (gcs_stream p vs) + p \<le> last (p # vs) + 2 ^ P * (P + 1) * length vs"
proof (induction vs arbitrary: p)
  case (Cons v vs)
  have le: "p \<le> v" using Cons.prems by simp
  have "2 ^ P * length (golomb_bits (v - p)) = 2 ^ P * ((v - p) div 2 ^ P) + 2 ^ P * (P + 1)"
    by (simp add: golomb_bits_def add_mult_distrib2)
  also have "\<dots> \<le> (v - p) + 2 ^ P * (P + 1)" by simp
  finally have "2 ^ P * length (golomb_bits (v - p)) + p \<le> v + 2 ^ P * (P + 1)" using le by simp
  moreover have "2 ^ P * length (gcs_stream v vs) + v \<le> last (v # vs) + 2 ^ P * (P + 1) * length vs"
    using Cons.prems by (intro Cons.IH) simp
  ultimately show ?case by (simp add: add_mult_distrib2)
qed simp

lemma length_gcs_encode_le:
  assumes "sorted vs" and "\<forall>v \<in> set vs. v < length vs * unat M" and "length vs < 2 ^ 30"
  shows "length (gcs_encode vs) < 2 ^ 32"
proof -
  have "last (0 # vs) \<le> length vs * 2 ^ 20"
  proof (cases "vs = []")
    case False
    then have "last vs < length vs * unat M" using assms(2) by simp
    then show ?thesis using False by (simp add: M_def)
  qed simp
  moreover have "2 ^ P * length (gcs_stream 0 vs) \<le> last (0 # vs) + 2 ^ P * (P + 1) * length vs"
    using gcs_stream_le [of 0 vs] assms(1) by simp
  ultimately have "length (gcs_stream 0 vs) \<le> 22 * length vs" by (simp add: P_def)
  moreover have "8 * length (pack (gcs_stream 0 vs)) < length (gcs_stream 0 vs) + 8"
    using arg_cong [OF bits_of_pack [of "gcs_stream 0 vs"], of length] padding_less [of "length (gcs_stream 0 vs)"] by simp
  moreover have "length (compact_size (of_nat (length vs))) \<le> 9" by (simp add: write_compact_size_def)
  ultimately show ?thesis using assms(3) by (simp add: gcs_encode_def)
qed

lemma unat_be_val_rice: "unat (be_val (rice_bits d)) = d mod 2 ^ P"
proof -
  have "bit (unat (be_val (rice_bits d))) i \<longleftrightarrow> bit (take_bit P d) i" for i
    by (auto simp: bit_unsigned_iff bit_be_val rice_bits_def bit_take_bit_iff P_def)
  then have "unat (be_val (rice_bits d)) = take_bit P d" by (intro bit_eqI)
  then show ?thesis by (simp add: take_bit_eq_mod)
qed

lemma rice_bits_be_val:
  assumes "length bs = P"
  shows "rice_bits (q * 2 ^ P + unat (be_val bs)) = bs"
proof -
  let ?d = "q * 2 ^ P + unat (be_val bs)"
  have low: "take_bit P ?d = unat (be_val bs)"
    using unat_be_val [of bs] assms by (simp add: take_bit_eq_mod P_def)
  have eq: "bit ?d i \<longleftrightarrow> bit (be_val bs) i" if "i < P" for i
  proof -
    have "bit ?d i \<longleftrightarrow> bit (take_bit P ?d) i" using that by (simp add: bit_take_bit_iff)
    also have "\<dots> \<longleftrightarrow> bit (unat (be_val bs)) i" by (simp only: low)
    finally show ?thesis using that by (simp add: bit_unsigned_iff P_def)
  qed
  show ?thesis
    by (rule nth_equalityI) (use assms eq in \<open>auto simp: rice_bits_def rev_nth bit_be_val P_def\<close>)
qed

section \<open>The decoding loop reads exactly the Golomb-Rice stream\<close>

lemma unat_max_quotient: "unat (drop_bit P rng) = unat rng div 2 ^ P" for rng :: u64
  unfolding unat_drop_bit_eq by (rule drop_bit_eq_div)

lemma max_quotient_less: "unat (drop_bit P rng) < 2 ^ 45" for rng :: u64
  using unat_u64_lt [of rng] unfolding unat_max_quotient by (simp add: P_def)

lemma unat_push_quotient: "unat q < 2 ^ 45 \<Longrightarrow> unat (push_bit P q) = unat q * 2 ^ P" for q :: u64
  by (simp add: push_bit_eq_mult unat_word_ariths P_def)

lemma golomb_split:
  "golomb_bits d @ tail = replicate (d div 2 ^ P) True @ False # (rice_bits d @ tail)"
  by (simp add: golomb_bits_def)

lemma read_delta_sound:
  assumes "read_unary (drop_bit P rng) r 0 = Inr (q, r1)" and "read_bits P r1 = Inr (m, r2)"
  shows "\<exists>tail. unread r = golomb_bits (unat q * 2 ^ P + unat m) @ tail
           \<and> r2 = advance (length (golomb_bits (unat q * 2 ^ P + unat m))) r
           \<and> unat m < 2 ^ P \<and> unat q < 2 ^ 45"
proof -
  have mq: "unat (drop_bit P rng) < 2 ^ 64 - 1" using max_quotient_less [of rng] by simp
  obtain k tail where k: "unread r = replicate k True @ False # tail" "unat q = k"
      "k \<le> unat (drop_bit P rng)" "r1 = advance (k + 1) r"
    using read_unary_sound [OF assms(1) mq] by auto
  let ?bs = "take P tail"
  have un1: "unread r1 = tail" using k by simp
  then have b: "P \<le> length tail" "m = be_val ?bs" "r2 = advance P r1"
    using assms(2) by (auto simp: read_bits_eq split: if_splits)
  then have len: "length ?bs = P" by simp
  have m: "unat m < 2 ^ P" using unat_be_val [of ?bs] len b(2) by (simp add: P_def)
  have g: "golomb_bits (k * 2 ^ P + unat m) = replicate k True @ False # ?bs"
    using rice_bits_be_val [OF len, of k] b(2) m by (simp add: golomb_bits_def)
  have "r2 = advance (length (golomb_bits (k * 2 ^ P + unat m))) r"
    unfolding g using b(3) k(4) len by (simp add: add.commute)
  moreover have "unread r = golomb_bits (k * 2 ^ P + unat m) @ drop P tail"
    unfolding g by (simp add: k(1))
  ultimately show ?thesis using m k(2,3) max_quotient_less [of rng] by auto
qed

lemma read_delta_complete:
  assumes "unread r = golomb_bits d @ tail" and "d \<le> unat rng"
  shows "read_unary (drop_bit P rng) r 0 = Inr (of_nat (d div 2 ^ P), advance (d div 2 ^ P + 1) r)"
    and "read_bits P (advance (d div 2 ^ P + 1) r)
           = Inr (be_val (rice_bits d), advance (length (golomb_bits d)) r)"
proof -
  let ?k = "d div 2 ^ P"
  have un: "unread r = replicate ?k True @ False # (rice_bits d @ tail)"
    using assms(1) by (simp add: golomb_split)
  have "unat (0 :: u64) + ?k \<le> unat (drop_bit P rng)"
    using assms(2) by (simp add: unat_max_quotient div_le_mono)
  moreover have "unat (drop_bit P rng) < 2 ^ 64 - 1" using max_quotient_less [of rng] by simp
  ultimately have "read_unary (drop_bit P rng) r 0 = Inr (0 + of_nat ?k, advance (?k + 1) r)"
    by (rule read_unary_complete [OF un])
  then show "read_unary (drop_bit P rng) r 0 = Inr (of_nat ?k, advance (?k + 1) r)" by simp
  have "unread (advance (?k + 1) r) = rice_bits d @ tail" using un by simp
  then show "read_bits P (advance (?k + 1) r)
      = Inr (be_val (rice_bits d), advance (length (golomb_bits d)) r)"
    by (simp add: read_bits_eq golomb_bits_def add.commute)
qed

lemma unat_delta:
  fixes q m :: u64
  assumes "unat q < 2 ^ 45" and "unat m < 2 ^ P"
  shows "checked_add (push_bit P q) m = Some delta \<longleftrightarrow> delta = push_bit P q + m"
    and "unat (push_bit P q + m) = unat q * 2 ^ P + unat m"
proof -
  have "unat q * 2 ^ P + unat m < 2 ^ 64" using assms by (simp add: P_def)
  then show "checked_add (push_bit P q) m = Some delta \<longleftrightarrow> delta = push_bit P q + m"
    and "unat (push_bit P q + m) = unat q * 2 ^ P + unat m"
    using assms unat_push_quotient [OF assms(1)] unat_add_nowrap [of "push_bit P q" m]
    by (auto simp: checked_add_Some)
qed

lemma decode_values_sound:
  assumes "decode_values n rng (drop_bit P rng) r prev acc = Inr (vals, r')"
  shows "\<exists>vs tail. vals = acc @ vs \<and> length vs = n \<and> sorted (prev # vs) \<and> (\<forall>v \<in> set vs. v < rng)
           \<and> unread r = gcs_stream (unat prev) (map unat vs) @ tail
           \<and> r' = advance (length (gcs_stream (unat prev) (map unat vs))) r"
  using assms
proof (induction n arbitrary: r prev acc)
  case 0
  then show ?case by simp
next
  case (Suc n)
  from Suc.prems obtain q r1 m r2 delta where
    steps: "read_unary (drop_bit P rng) r 0 = Inr (q, r1)" "read_bits P r1 = Inr (m, r2)"
      "checked_add (push_bit P q) m = Some delta" "checked_add prev delta = Some (prev + delta)"
      "prev + delta < rng"
      "decode_values n rng (drop_bit P rng) r2 (prev + delta) (acc @ [prev + delta]) = Inr (vals, r')"
    by (auto simp: bindR_Inr_iff checked_add_Some split: if_splits)
  let ?v = "prev + delta" and ?d = "unat q * 2 ^ P + unat m"
  obtain tail where tail: "unread r = golomb_bits ?d @ tail" "r2 = advance (length (golomb_bits ?d)) r"
      "unat m < 2 ^ P" "unat q < 2 ^ 45"
    using read_delta_sound [OF steps(1,2)] by blast
  have d: "unat delta = ?d" using steps(3) unat_delta [OF tail(4,3)] by simp
  have v: "unat ?v = unat prev + ?d" using steps(4) d by (simp add: checked_add_Some unat_add_nowrap)
  then have gd: "golomb_bits ?d = golomb_bits (unat ?v - unat prev)" by simp
  obtain vs rest where vs: "vals = (acc @ [?v]) @ vs" "length vs = n" "sorted (?v # vs)"
      "\<forall>v \<in> set vs. v < rng" "unread r2 = gcs_stream (unat ?v) (map unat vs) @ rest"
      "r' = advance (length (gcs_stream (unat ?v) (map unat vs))) r2"
    using Suc.IH [OF steps(6)] by blast
  have "prev \<le> ?v" using v by (simp add: word_le_nat_alt)
  moreover have "tail = gcs_stream (unat ?v) (map unat vs) @ rest" using vs(5) tail by simp
  ultimately show ?case
    using vs tail(1,2) steps(5) gd by (intro exI [of _ "?v # vs"] exI [of _ rest]) auto
qed

lemma decode_values_complete:
  assumes "sorted (prev # vs)" and "\<forall>v \<in> set vs. v < rng"
    and "unread r = gcs_stream (unat prev) (map unat vs) @ tail"
  shows "decode_values (length vs) rng (drop_bit P rng) r prev acc
           = Inr (acc @ vs, advance (length (gcs_stream (unat prev) (map unat vs))) r)"
  using assms
proof (induction vs arbitrary: r prev acc)
  case Nil
  then show ?case by simp
next
  case (Cons v vs)
  let ?d = "unat v - unat prev"
  have le: "unat prev \<le> unat v" using Cons.prems(1) by (simp add: word_le_nat_alt)
  have lt: "unat v < unat rng" using Cons.prems(2) by (simp add: word_less_nat_alt)
  have un: "unread r = golomb_bits ?d @ (gcs_stream (unat v) (map unat vs) @ tail)"
    using Cons.prems(3) by simp
  note rd = read_delta_complete [OF un, of rng]
  let ?q = "of_nat (?d div 2 ^ P) :: u64" and ?m = "be_val (rice_bits ?d)"
  have q: "unat ?q = ?d div 2 ^ P" "?d div 2 ^ P < 2 ^ 45"
    using unat_u64_lt [of v] by (simp_all add: P_def unat_of_nat_small)
  have m: "unat ?m = ?d mod 2 ^ P" by (rule unat_be_val_rice)
  note del = unat_delta [of ?q ?m]
  have delta: "unat (push_bit P ?q + ?m) = ?d"
    using del(2) q m by (simp add: P_def)
  have v: "prev + (push_bit P ?q + ?m) = v"
    using delta le lt unat_u64_lt [of rng]
    by (intro word_unat_eq_iff [THEN iffD2]) (simp add: unat_add_nowrap)
  have "checked_add prev (push_bit P ?q + ?m) = Some v"
    using delta v le unat_u64_lt [of v] by (simp add: checked_add_Some)
  moreover have "checked_add (push_bit P ?q) ?m = Some (push_bit P ?q + ?m)"
    using del(1) q m by (simp add: P_def)
  moreover have "\<not> rng \<le> v" using lt by (simp add: word_le_nat_alt)
  moreover have "decode_values (length vs) rng (drop_bit P rng) (advance (length (golomb_bits ?d)) r) v (acc @ [v])
      = Inr ((acc @ [v]) @ vs, advance (length (gcs_stream (unat v) (map unat vs))) (advance (length (golomb_bits ?d)) r))"
    by (rule Cons.IH) (use Cons.prems un in auto)
  ultimately show ?case using rd lt le by (simp add: add.commute)
qed

section \<open>The count\<close>

lemma bind_need_iff:
  "bindR (need (f # bs) n) g = Inr y \<longleftrightarrow> (\<exists>b body. bs = b @ body \<and> length b = n \<and> g b = Inr y)"
proof (cases "n \<le> length bs")
  case True
  then have "(\<exists>b body. bs = b @ body \<and> length b = n \<and> g b = Inr y) \<longleftrightarrow> g (take n bs) = Inr y"
    by (metis append_eq_conv_conj append_take_drop_id length_take min_absorb2)
  then show ?thesis using True by (simp add: need_def)
next
  case False
  then show ?thesis by (auto simp: need_def)
qed

lemma ucast_of_le16: "length b = 2 \<Longrightarrow> ucast (of_nat (le_val b) :: u16) = (of_nat (le_val b) :: u64)"
  using le_val_bound [of b] by (simp add: word_unat_eq_iff unat_ucast_le unat_of_nat_small)

lemma ucast_of_le32: "length b = 4 \<Longrightarrow> ucast (of_nat (le_val b) :: u32) = (of_nat (le_val b) :: u64)"
  using le_val_bound [of b] by (simp add: word_unat_eq_iff unat_ucast_le unat_of_nat_small)

lemma of_le_val_less:
  "length b \<le> 8 \<Longrightarrow> (of_nat (le_val b) :: u64) < numeral k \<longleftrightarrow> le_val b < unat (numeral k :: u64)"
  "length b \<le> 8 \<Longrightarrow> (of_nat (le_val b) :: u64) \<le> numeral k \<longleftrightarrow> le_val b \<le> unat (numeral k :: u64)"
  "length b \<le> 8 \<Longrightarrow> numeral k \<le> (of_nat (le_val b) :: u64) \<longleftrightarrow> unat (numeral k :: u64) \<le> le_val b"
  by (simp_all only: word_less_nat_alt word_le_nat_alt unat_of_le_val64)

lemma read_compact_size_iff:
  "read_compact_size bs = Inr (n, h)
     \<longleftrightarrow> (\<exists>body. bs = compact_size n @ body \<and> h = length (compact_size n))"
proof (cases bs)
  case Nil
  then show ?thesis using length_compact_size [of n] by (simp add: read_compact_size_def) auto
next
  case (Cons f rest)
  have bound: "65535 < x \<longleftrightarrow> 65536 \<le> x" "4294967295 < x \<longleftrightarrow> 4294967296 \<le> x" for x :: nat
    by arith+
  have "read_compact_size (f # rest) = Inr (n, h)
     \<longleftrightarrow> (\<exists>b body. rest = b @ body \<and> compact_shape f b n \<and> h = length (f # b))"
    unfolding read_compact_size_def compact_shape_def list.case Let_def
    by (cases "f = 0xfd"; cases "f = 0xfe"; cases "f = 0xff")
      (auto simp: bind_need_iff ucast_of_le16 ucast_of_le32 of_le_val_less not_less not_le bound
        cong: conj_cong split: if_splits)
  also have "\<dots> \<longleftrightarrow> (\<exists>body. f # rest = compact_size n @ body \<and> h = length (compact_size n))"
    unfolding compact_size_eq_iff [symmetric] using length_compact_size [of n]
    by (cases "compact_size n") auto
  finally show ?thesis using Cons by simp
qed

section \<open>The end of the stream\<close>

lemma mask_zero_iff:
  "n < 8 \<Longrightarrow> b AND drop_bit n 0xff = 0 \<longleftrightarrow> (\<forall>i < 8 - n. \<not> bit b i)" for b :: u8
proof -
  have ones: "(0xff :: u8) = - 1" by simp
  have mask: "bit (drop_bit n (0xff :: u8)) i \<longleftrightarrow> i + n < 8" for i
    unfolding ones by (auto simp: bit_drop_bit_eq bit_minus_1_iff bit_mask_iff simp del: drop_bit_minus_one)
  then have bits: "bit (b AND drop_bit n 0xff) i \<longleftrightarrow> bit b i \<and> i < 8 - n" for i
    by (simp only: bit_and_iff mask less_diff_conv)
  show ?thesis
  proof
    assume "b AND drop_bit n 0xff = 0"
    then show "\<forall>i < 8 - n. \<not> bit b i" using bits by (metis bit_0_eq bot_apply bot_bool_def)
  next
    assume "\<forall>i < 8 - n. \<not> bit b i"
    then show "b AND drop_bit n 0xff = 0" by (intro bit_eqI) (auto simp: bits)
  qed
qed

lemma bits_of_last_byte:
  assumes "length bs = Suc k"
  shows "drop (8 * k + m) (bits_of bs) = drop m (bits_of_byte (bs ! k))"
proof -
  obtain as b where bs: "bs = as @ [b]" "length as = k"
    using assms by (metis length_Suc_conv_rev)
  then have "bits_of bs = bits_of as @ bits_of_byte b" by (simp add: bits_of_def)
  then show ?thesis using bs by (simp add: nth_append)
qed

lemma drop_bits_zero_iff:
  assumes "m < 8"
  shows "drop m (bits_of_byte b) = replicate (8 - m) False \<longleftrightarrow> (\<forall>i < 8 - m. \<not> bit b i)"
proof -
  have nth: "drop m (bits_of_byte b) ! i = bit b (7 - (m + i))" if "i < 8 - m" for i
  proof -
    have "m + i < 8" using that by simp
    then show ?thesis by (simp add: bits_of_byte_def nth_upt)
  qed
  have "drop m (bits_of_byte b) = replicate (8 - m) False \<longleftrightarrow> (\<forall>i < 8 - m. \<not> bit b (7 - (m + i)))"
    by (auto simp: list_eq_iff_nth_eq nth simp del: nth_drop)
  also have "\<dots> \<longleftrightarrow> (\<forall>i < 8 - m. \<not> bit b i)"
  proof (intro iffI allI impI)
    fix i assume all: "\<forall>i < 8 - m. \<not> bit b (7 - (m + i))" and i: "i < 8 - m"
    then have "7 - (m + (7 - m - i)) = i" "7 - m - i < 8 - m" by auto
    with all show "\<not> bit b i" by metis
  next
    fix i assume "\<forall>i < 8 - m. \<not> bit b i" and "i < 8 - m"
    then show "\<not> bit b (7 - (m + i))" using assms by auto
  qed
  finally show ?thesis .
qed

lemma finish_iff:
  assumes le: "br_bit r \<le> 8 * length (br_bytes r)"
  shows "padding_is_zero r = Inr () \<and> \<not> consumed_bytes r < length (br_bytes r)
           \<longleftrightarrow> (\<exists>k < 8. unread r = replicate k False)"
proof -
  let ?n = "length (br_bytes r)"
  define j where "j = br_bit r div 8"
  define m where "m = br_bit r mod 8"
  have p: "br_bit r = 8 * j + m" and m: "m < 8" by (simp_all add: j_def m_def)
  have len: "length (unread r) = 8 * ?n - (8 * j + m)" by (simp add: unread_def p)
  show ?thesis
  proof (cases "m = 0")
    case True
    then have "br_bit r = 8 * j" using p by simp
    then have "consumed_bytes r = j" "padding_is_zero r = Inr ()" "j \<le> ?n"
      using le by (simp_all add: consumed_bytes_def padding_is_zero_def)
    moreover have "(\<exists>k < 8. unread r = replicate k False) \<longleftrightarrow> ?n \<le> j"
    proof
      assume "\<exists>k < 8. unread r = replicate k False"
      then have "8 * ?n - 8 * j < 8" using len True by auto
      then show "?n \<le> j" by simp
    next
      assume "?n \<le> j"
      then have "unread r = []" using len by simp
      then show "\<exists>k < 8. unread r = replicate k False" by auto
    qed
    ultimately show ?thesis by auto
  next
    case False
    then have j: "j < ?n" and con: "consumed_bytes r = Suc j"
      using p le m by (simp_all add: consumed_bytes_def)
    have pad: "padding_is_zero r = Inr () \<longleftrightarrow> (\<forall>i < 8 - m. \<not> bit (br_bytes r ! j) i)"
      using False j mask_zero_iff [OF m] by (simp add: padding_is_zero_def j_def m_def)
    have last: "unread r = drop m (bits_of_byte (br_bytes r ! j))" if "?n = Suc j"
      using bits_of_last_byte [OF that, of m] by (simp add: unread_def p)
    show ?thesis
    proof
      assume "padding_is_zero r = Inr () \<and> \<not> consumed_bytes r < ?n"
      then have "?n = Suc j" "\<forall>i < 8 - m. \<not> bit (br_bytes r ! j) i" using j con pad by auto
      then have "unread r = replicate (8 - m) False" using last drop_bits_zero_iff [OF m] by simp
      then show "\<exists>k < 8. unread r = replicate k False" using False by (intro exI [of _ "8 - m"]) auto
    next
      assume "\<exists>k < 8. unread r = replicate k False"
      then obtain k where k: "k < 8" "unread r = replicate k False" by blast
      then have "8 * ?n - (8 * j + m) = k" using len by simp
      then have n: "?n = Suc j" using k(1) m j by linarith
      then have "k = 8 - m" using k(2) last by (metis length_bits_of_byte length_drop length_replicate)
      then have "drop m (bits_of_byte (br_bytes r ! j)) = replicate (8 - m) False"
        using k(2) last [OF n] by simp
      then show "padding_is_zero r = Inr () \<and> \<not> consumed_bytes r < ?n"
        using pad con n by (simp only: drop_bits_zero_iff [OF m]) simp
    qed
  qed
qed

section \<open>Acceptance\<close>

definition canonical_filter :: "filter_limits \<Rightarrow> bytes \<Rightarrow> nat list \<Rightarrow> bool" where
  "canonical_filter L bs vs \<longleftrightarrow>
     length bs \<le> max_bytes L \<and> length vs \<le> unat (max_elements L) \<and> length vs * unat M < 2 ^ 64
     \<and> sorted vs \<and> (\<forall>v \<in> set vs. v < length vs * unat M) \<and> bs = gcs_encode vs"

lemma sorted_unat: "sorted (map unat vs) \<longleftrightarrow> sorted vs" for vs :: "u64 list"
  by (simp add: sorted_map sorted_wrt_iff_nth_less word_le_nat_alt)

lemma unread_decoded:
  assumes "unread r = xs @ ys" and "r' = advance (length xs) r"
    and "br_bit r + length xs \<le> 8 * length (br_bytes r) \<or> br_bit r = 0"
  shows "unread r' = ys" and "br_bit r' \<le> 8 * length (br_bytes r')"
proof -
  show "unread r' = ys" using assms(1,2) by simp
  have "length xs + length ys = 8 * length (br_bytes r) - br_bit r"
    using arg_cong [OF assms(1), of length] by (simp add: unread_def)
  then show "br_bit r' \<le> 8 * length (br_bytes r')" using assms(2,3) by auto
qed

lemma unat_count_times:
  "unat n * unat c < 2 ^ 64 \<Longrightarrow> checked_mul n c = Some (n * c) \<and> unat (n * c) = unat n * unat c"
  for n c :: u64
  by (simp add: checked_mul_Some unat_mult_nowrap)

lemma min_bits_iff:
  fixes n :: u64
  assumes "unat n * 20 < 2 ^ 64" and "k < 2 ^ 64"
  shows "n * (of_nat P + 1) > saturating_mul (of_nat k) 8 \<longleftrightarrow> unat n * 20 > 8 * k"
proof -
  have "unat (n * (of_nat P + 1)) = unat n * 20"
    using unat_mult_nowrap [of n 20] assms(1) by (simp add: P_def)
  moreover have "unat (saturating_mul (of_nat k) (8 :: u64)) = min (k * 8) (2 ^ 64 - 1)"
    using unat_saturating_mul [of "of_nat k" "8 :: u64"] assms(2) by (simp add: unat_of_nat_small)
  ultimately show ?thesis using assms(1) by (auto simp: word_less_nat_alt)
qed

lemma decode_body_iff:
  assumes "n > 0"
  shows "(\<exists>r. decode_values n rng (drop_bit P rng) (bit_reader_new body) 0 [] = Inr (vs, r)
              \<and> padding_is_zero r = Inr () \<and> \<not> consumed_bytes r < length body)
         \<longleftrightarrow> length vs = n \<and> sorted vs \<and> (\<forall>v \<in> set vs. v < rng) \<and> body = pack (gcs_stream 0 (map unat vs))"
  (is "?L \<longleftrightarrow> ?R")
proof
  assume ?L
  then obtain r where r: "decode_values n rng (drop_bit P rng) (bit_reader_new body) 0 [] = Inr (vs, r)"
    "padding_is_zero r = Inr ()" "\<not> consumed_bytes r < length body" by blast
  let ?s = "gcs_stream 0 (map unat vs)"
  obtain tail where d: "length vs = n" "sorted (0 # vs)" "\<forall>v \<in> set vs. v < rng"
    "unread (bit_reader_new body) = ?s @ tail" "r = advance (length ?s) (bit_reader_new body)"
    using decode_values_sound [OF r(1)] by auto
  note un = unread_decoded [OF d(4,5)]
  have rb: "br_bytes r = body" using d(5) by (simp add: bit_reader_new_def)
  have zero: "br_bit (bit_reader_new body) = 0" by (simp add: bit_reader_new_def)
  obtain k where "k < 8" "tail = replicate k False"
    using finish_iff [of r] un r(2,3) rb zero by auto
  then have "body = pack ?s" using d(4) by (intro pack_unique) auto
  with d show ?R by simp
next
  assume R: ?R
  let ?s = "gcs_stream 0 (map unat vs)" and ?r = "bit_reader_new body"
  let ?r' = "advance (length ?s) ?r"
  have bits: "unread ?r = ?s @ replicate (padding (length ?s)) False"
    using R by (simp add: bits_of_pack)
  have dec: "decode_values n rng (drop_bit P rng) ?r 0 [] = Inr (vs, ?r')"
    using decode_values_complete [of 0 vs rng ?r _ "[]"] R bits by auto
  have zero: "br_bit ?r = 0" "br_bytes ?r' = body" by (simp_all add: bit_reader_new_def)
  have "padding_is_zero ?r' = Inr () \<and> \<not> consumed_bytes ?r' < length (br_bytes ?r')"
    using finish_iff [of ?r'] unread_decoded [OF bits refl] zero(1) padding_less by metis
  with dec zero(2) show ?L by auto
qed

text \<open>\<open>validate_filter\<close> on a filter whose count has been read: the conditions, in source order.\<close>

lemma validate_filter_unfold:
  fixes n :: u64 and body :: bytes
  assumes small: "max_bytes L < 2 ^ 64" and bs: "bs = compact_size n @ body"
  shows "validate_filter bs L = Inr f \<longleftrightarrow>
     length bs \<le> max_bytes L \<and> n \<le> max_elements L \<and> unat n * 20 < 2 ^ 64 \<and> unat n * 20 \<le> 8 * length body
     \<and> (if n = 0 then body = [] \<and> f = \<lparr> vf_bytes = bs, vf_values = [] \<rparr>
        else unat n * unat M < 2 ^ 64
          \<and> (\<exists>r. decode_values (unat n) (n * M) (drop_bit P (n * M)) (bit_reader_new body) 0 []
                    = Inr (vf_values f, r)
               \<and> padding_is_zero r = Inr () \<and> \<not> consumed_bytes r < length body)
          \<and> vf_bytes f = bs)"
proof -
  have rc: "read_compact_size bs = Inr (n, length (compact_size n))"
    using bs by (simp add: read_compact_size_iff)
  have body: "drop (length (compact_size n)) bs = body" "length (compact_size n) \<le> length bs"
    using bs by simp_all
  have P1: "unat (of_nat P + 1 :: u64) = 20" by (simp add: P_def)
  show ?thesis
  proof (cases "length bs \<le> max_bytes L \<and> n \<le> max_elements L \<and> unat n * 20 < 2 ^ 64")
    case False
    then show ?thesis
      using body by (auto simp: validate_filter_def rc checked_mul_def P1)
  next
    case True
    then have "length body < 2 ^ 64" using bs small by simp
    note mb = min_bits_iff [OF _ this, of n]
    have cm: "checked_mul n (of_nat P + 1) = Some (n * (of_nat P + 1))"
      using True by (simp add: checked_mul_Some P1)
    have rec: "\<lparr> vf_bytes = bs, vf_values = vs \<rparr> = f \<longleftrightarrow> vs = vf_values f \<and> vf_bytes f = bs" for vs
      by (cases f) auto
    have head: "\<not> max_bytes L < length bs" "\<not> max_elements L < n" "\<not> length bs < length (compact_size n)"
      using True body by auto
    have conds: "length bs \<le> max_bytes L" "n \<le> max_elements L" "unat n * 20 < 2 ^ 64" using True by auto
    let ?bits = "saturating_mul (of_nat (length body)) 8 < n * (of_nat P + 1)"
    have v: "validate_filter bs L =
       (if ?bits then Inl (Truncated ''filter claims more elements than its body encodes'')
        else if n = 0 then if body \<noteq> [] then Inl (TrailingBytes (length body))
             else Inr \<lparr> vf_bytes = bs, vf_values = [] \<rparr>
        else bindR (ok_or (LimitExceeded ''mapped range overflows'') (checked_mul n M)) (\<lambda>rng.
          bindR (decode_values (unat n) rng (drop_bit P rng) (bit_reader_new body) 0 []) (\<lambda>(values, reader).
          bindR (padding_is_zero reader) (\<lambda>_.
            if consumed_bytes reader < length body then Inl (TrailingBytes (length body - consumed_bytes reader))
            else Inr \<lparr> vf_bytes = bs, vf_values = values \<rparr>))))"
      unfolding validate_filter_def rc bindR_simps prod.case Let_def body cm ok_or_simps
      by (simp only: head if_False bindR_simps)
    have bits: "?bits \<longleftrightarrow> \<not> unat n * 20 \<le> 8 * length body" using mb conds by (simp only: not_le)
    have guard: "(if b then Inl e else Inr x) = Inr y \<longleftrightarrow> \<not> b \<and> x = y"
      for b and e :: filter_error and x y :: validated_filter
      by auto
    show ?thesis
    proof (cases "n \<noteq> 0 \<and> unat n * 20 \<le> 8 * length body")
      case True
      then show ?thesis
        by (simp only: v bits conds if_False if_True simp_thms bindR_Inr_iff guard rec
            split_paired_Ex prod.case) (auto simp: checked_mul_Some)
    next
      case False
      then show ?thesis
        by (cases "unat n * 20 \<le> 8 * length body") (simp_all only: v bits conds, auto)
    qed
  qed
qed

lemma validate_filter_header:
  "validate_filter bs L = Inr f \<Longrightarrow> \<exists>n body. bs = compact_size n @ body"
  by (auto simp: validate_filter_def bindR_Inr_iff read_compact_size_iff split: if_splits)

lemma gcs_stream_bits: "length vs * 20 \<le> 8 * length (pack (gcs_stream p vs))"
proof -
  have "length (gcs_stream p vs) \<le> 8 * length (pack (gcs_stream p vs))"
    using arg_cong [OF bits_of_pack [of "gcs_stream p vs"], of length] by simp
  then show ?thesis using length_gcs_stream [of vs p] by (simp add: P_def)
qed

lemma pack_empty_stream: "pack (gcs_stream 0 []) = []"
  by simp

lemma canonical_filter_values:
  fixes n :: u64
  assumes "unat n * unat M < 2 ^ 64" and "n \<noteq> 0"
  shows "canonical_filter L (compact_size n @ body) (map unat vs) \<and> length vs = unat n
     \<longleftrightarrow> length (compact_size n @ body) \<le> max_bytes L \<and> n \<le> max_elements L
         \<and> length vs = unat n \<and> sorted vs \<and> (\<forall>v \<in> set vs. v < n * M)
         \<and> body = pack (gcs_stream 0 (map unat vs))"
proof -
  have "unat (n * M) = unat n * unat M" using unat_mult_nowrap [of n M] assms(1) by simp
  then show ?thesis
    using assms(1) unfolding canonical_filter_def
    by (auto simp: sorted_unat gcs_encode_def word_less_nat_alt word_le_nat_alt)
qed

lemma canonical_filter_empty:
  "canonical_filter L bs [] \<longleftrightarrow> length bs \<le> max_bytes L \<and> bs = compact_size 0"
  by (auto simp: canonical_filter_def gcs_encode_def)

lemma validate_filter_sound:
  assumes v: "validate_filter bs L = Inr f" and small: "max_bytes L < 2 ^ 64"
  shows "vf_bytes f = bs" and "canonical_filter L bs (map unat (vf_values f))"
proof -
  obtain n body where bs: "bs = compact_size n @ body" using validate_filter_header [OF v] by blast
  note c = validate_filter_unfold [OF small bs, of f, THEN iffD1, OF v]
  show "vf_bytes f = bs" using c by (auto split: if_splits)
  show "canonical_filter L bs (map unat (vf_values f))"
  proof (cases "n = 0")
    case True
    then show ?thesis using c bs by (simp add: canonical_filter_empty)
  next
    case False
    then have "unat n * unat M < 2 ^ 64" using c by simp
    note cv = canonical_filter_values [OF this False, of L body "vf_values f"]
    have "unat n > 0" using False by (simp add: unat_gt_0)
    from decode_body_iff [OF this, of "n * M" body "vf_values f"] cv show ?thesis
      using c False bs by auto
  qed
qed

lemma validate_filter_complete:
  assumes can: "canonical_filter L bs (map unat vs)" and small: "max_bytes L < 2 ^ 64"
  shows "validate_filter bs L = Inr \<lparr> vf_bytes = bs, vf_values = vs \<rparr>"
proof -
  define n :: u64 where "n = of_nat (length vs)"
  define body where "body = pack (gcs_stream 0 (map unat vs))"
  have bs: "bs = compact_size n @ body"
    using can by (simp add: canonical_filter_def gcs_encode_def n_def body_def)
  have len: "length vs * unat M < 2 ^ 64" using can by (simp add: canonical_filter_def)
  then have n: "unat n = length vs" by (simp add: n_def unat_of_nat_small)
  have bits: "unat n * 20 \<le> 8 * length body" using gcs_stream_bits [of "map unat vs" 0] by (simp add: n body_def)
  show ?thesis
  proof (cases "n = 0")
    case True
    then have "vs = []" using n by simp
    then show ?thesis
      using can True bs unfolding validate_filter_unfold [OF small bs]
      by (simp add: canonical_filter_empty)
  next
    case False
    then have "unat n > 0" by (simp add: unat_gt_0)
    note dec = decode_body_iff [OF this, of "n * M" body vs]
    show ?thesis
      unfolding validate_filter_unfold [OF small bs]
      using dec canonical_filter_values [of n L body vs] can False bits len n bs by auto
  qed
qed

section \<open>No panic\<close>

lemma read_unary_err: "read_unary mq r q = Inl e \<Longrightarrow> e \<noteq> Panic"
proof (induction mq r q rule: read_unary.induct)
  case (1 mq r q)
  then show ?case
    by (cases "unread r") (auto simp: read_unary.simps [of mq r] read_bit_eq split: if_splits)
qed

lemma decode_values_err: "decode_values n rng mq r prev acc = Inl e \<Longrightarrow> e \<noteq> Panic"
proof (induction n arbitrary: r prev acc)
  case 0
  then show ?case by simp
next
  case (Suc n)
  then show ?case
    by (auto simp: bindR_Inl_iff read_bits_eq ok_or_def dest: read_unary_err
        split: if_splits option.splits)
qed

lemma read_compact_size_err: "read_compact_size bs = Inl e \<Longrightarrow> e \<noteq> Panic"
  by (auto simp: read_compact_size_def need_def bindR_Inl_iff Let_def split: list.splits if_splits)

lemma padding_err:
  assumes "br_bit r \<le> 8 * length (br_bytes r)"
  shows "padding_is_zero r \<noteq> Inl Panic"
proof -
  have "br_bit r div 8 < length (br_bytes r)" if "br_bit r mod 8 \<noteq> 0"
    using assms that by presburger
  then show ?thesis by (cases "br_bit r mod 8 = 0") (auto simp: padding_is_zero_def Let_def)
qed

lemma decode_values_position:
  assumes "decode_values n rng (drop_bit P rng) (bit_reader_new body) 0 [] = Inr (vs, r)"
  shows "br_bit r \<le> 8 * length (br_bytes r)"
  using decode_values_sound [OF assms] unread_decoded(2) [of "bit_reader_new body"]
  by (auto simp: bit_reader_new_def)

lemma validate_filter_err:
  assumes "validate_filter bs L = Inl Panic"
  shows False
  using assms
  by (auto simp: validate_filter_def bindR_Inl_iff Let_def ok_or_def read_compact_size_iff
      split: if_splits option.splits
      dest: read_compact_size_err decode_values_err padding_err [OF decode_values_position])

section \<open>Overflow checks\<close>

text \<open>
  The decoder as a build with overflow checks runs it: every addition and shift that the source writes without
  \<open>checked_\<close> or \<open>saturating_\<close> aborts when its exact result does not fit in 64 bits. These are the position of the bit
  reader, the accumulator of \<open>read_bits\<close>, the quotient of the unary loop and its shift by \<open>P\<close>.
\<close>

definition read_bit_checked :: "bit_reader \<Rightarrow> filter_error + (u8 \<times> bit_reader)" where
  "read_bit_checked r =
     bindR (read_bit r) (\<lambda>(b, r'). if br_bit r + 1 < 2 ^ 64 then Inr (b, r') else Inl Panic)"

fun read_bits_checked :: "nat \<Rightarrow> u64 \<Rightarrow> bit_reader \<Rightarrow> filter_error + (u64 \<times> bit_reader)" where
  "read_bits_checked 0 v r = Inr (v, r)"
| "read_bits_checked (Suc n) v r =
     (if unat v * 2 \<ge> 2 ^ 64 then Inl Panic
      else case read_bit_checked r of Inl e \<Rightarrow> Inl e
      | Inr (b, r') \<Rightarrow> read_bits_checked n (push_bit 1 v OR ucast b) r')"

function read_unary_checked :: "u64 \<Rightarrow> bit_reader \<Rightarrow> u64 \<Rightarrow> filter_error + (u64 \<times> bit_reader)" where
  "read_unary_checked max_quotient r q =
     (case read_bit_checked r of Inl e \<Rightarrow> Inl e
      | Inr (b, r') \<Rightarrow>
        if b = 1 then
          if unat q + 1 \<ge> 2 ^ 64 then Inl Panic
          else if q + 1 > max_quotient
          then Inl (LimitExceeded ''unary run exceeds the encodable range'')
          else read_unary_checked max_quotient r' (q + 1)
        else Inr (q, r'))"
  by pat_completeness auto
termination
  by (relation "measure (\<lambda>(_, r, _). 8 * length (br_bytes r) - br_bit r)")
     (auto simp: read_bit_checked_def read_bit_def Let_def bindR_Inr_iff split: if_splits)

declare read_unary_checked.simps [simp del]

fun decode_values_checked ::
  "nat \<Rightarrow> u64 \<Rightarrow> u64 \<Rightarrow> bit_reader \<Rightarrow> u64 \<Rightarrow> u64 list \<Rightarrow> filter_error + (u64 list \<times> bit_reader)" where
  "decode_values_checked 0 rng max_quotient r prev values = Inr (values, r)"
| "decode_values_checked (Suc n) rng max_quotient r prev values =
     bindR (read_unary_checked max_quotient r 0) (\<lambda>(q, r).
     bindR (read_bits_checked P 0 r) (\<lambda>(remainder, r).
     if unat q * 2 ^ P \<ge> 2 ^ 64 then Inl Panic else
     bindR (ok_or (Encoding ''delta overflows'') (checked_add (push_bit P q) remainder)) (\<lambda>delta.
     bindR (ok_or (Encoding ''cumulative value overflows'') (checked_add prev delta)) (\<lambda>prev.
       if prev \<ge> rng
       then Inl (Encoding ''element maps outside the encoded range'')
       else decode_values_checked n rng max_quotient r prev (values @ [prev])))))"

definition validate_filter_checked :: "bytes \<Rightarrow> filter_limits \<Rightarrow> filter_error + validated_filter" where
  "validate_filter_checked bs limits =
     (if length bs > max_bytes limits then Inl (LimitExceeded ''filter bytes'')
      else bindR (read_compact_size bs) (\<lambda>(count, header_len).
      if count > max_elements limits then Inl (LimitExceeded ''filter elements'')
      else if length bs < header_len then Inl Panic
      else let body = drop header_len bs in
      bindR (ok_or (LimitExceeded ''element count overflows'')
               (checked_mul count (of_nat P + 1))) (\<lambda>minimum_bits.
      if minimum_bits > saturating_mul (of_nat (length body)) 8
      then Inl (Truncated ''filter claims more elements than its body encodes'')
      else if count = 0 then
        if body \<noteq> [] then Inl (TrailingBytes (length body))
        else Inr \<lparr> vf_bytes = bs, vf_values = [] \<rparr>
      else
        bindR (ok_or (LimitExceeded ''mapped range overflows'') (checked_mul count M)) (\<lambda>rng.
        bindR (decode_values_checked (unat count) rng (drop_bit P rng) (bit_reader_new body) 0 [])
          (\<lambda>(values, reader).
        bindR (padding_is_zero reader) (\<lambda>_.
          if consumed_bytes reader < length body then Inl (TrailingBytes (length body - consumed_bytes reader))
          else Inr \<lparr> vf_bytes = bs, vf_values = values \<rparr>))))))"

lemma read_bit_bytes: "read_bit r = Inr (b, r') \<Longrightarrow> br_bytes r' = br_bytes r \<and> br_bit r' = br_bit r + 1 \<and> br_bit r' \<le> 8 * length (br_bytes r)"
  by (auto simp: read_bit_def Let_def split: if_splits)

lemma read_bit_checked_eq:
  assumes "length (br_bytes r) < 2 ^ 61"
  shows "read_bit_checked r = read_bit r"
proof (cases "read_bit r")
  case (Inr x)
  obtain b r' where x: "x = (b, r')" by (cases x)
  have "br_bit r + 1 \<le> 8 * length (br_bytes r)" using read_bit_bytes [of r b r'] Inr x by simp
  then have "br_bit r + 1 < 2 ^ 64" using assms by simp
  then show ?thesis by (simp add: read_bit_checked_def Inr x)
qed (simp add: read_bit_checked_def)

lemma read_unary_checked_eq:
  assumes "length (br_bytes r) < 2 ^ 61" and "unat mq < 2 ^ 64 - 1" and "q \<le> mq"
  shows "read_unary_checked mq r q = read_unary mq r q"
  using assms
proof (induction mq r q rule: read_unary.induct)
  case (1 mq r q)
  note rb = read_bit_checked_eq [OF "1.prems"(1)]
  show ?case
  proof (cases "read_bit r")
    case (Inl e)
    then show ?thesis by (simp add: read_unary.simps [of mq r] read_unary_checked.simps [of mq r] rb)
  next
    case (Inr x)
    obtain b r' where x: "x = (b, r')" by (cases x)
    have no: "unat q + 1 < 2 ^ 64" using "1.prems"(2,3) by (simp add: word_le_nat_alt)
    have "read_unary_checked mq r' (q + 1) = read_unary mq r' (q + 1)" if "b = 1" "\<not> mq < q + 1"
      using "1.IH" [OF Inr x [symmetric] that] read_bit_bytes [of r b r'] Inr x "1.prems" that by simp
    then show ?thesis using no by (simp add: read_unary.simps [of mq r] read_unary_checked.simps [of mq r] rb Inr x)
  qed
qed

lemma read_bits_checked_eq:
  assumes "length (br_bytes r) < 2 ^ 61" and "length pre + n \<le> 64"
  shows "read_bits_checked n (be_val pre) r = read_bits_loop n (be_val pre) r"
  using assms
proof (induction n arbitrary: pre r)
  case (Suc n)
  have "unat (be_val pre) < 2 ^ length pre" using Suc.prems(2) by (intro unat_be_val) simp
  then have "unat (be_val pre) * 2 < 2 ^ Suc (length pre)" by simp
  also have "\<dots> \<le> 2 ^ 64" using Suc.prems(2) by (intro power_increasing) simp_all
  finally have fits: "\<not> 2 ^ 64 \<le> unat (be_val pre) * 2" by (simp only: not_le)
  show ?case
  proof (cases "unread r")
    case Nil
    then show ?thesis using fits by (simp add: read_bit_checked_eq [OF Suc.prems(1)] read_bit_Nil)
  next
    case (Cons b bs)
    have u: "ucast (of_bool b :: u8) = (of_bool b :: u64)" by simp
    have "read_bits_checked n (be_val (pre @ [b])) (advance 1 r) = read_bits_loop n (be_val (pre @ [b])) (advance 1 r)"
      using Suc.prems by (intro Suc.IH) simp_all
    then show ?thesis
      using fits unfolding read_bits_checked.simps read_bits_loop.simps read_bit_checked_eq [OF Suc.prems(1)] read_bit_Cons [OF Cons] be_val_snoc u [symmetric]
      by simp
  qed
qed simp

lemma read_unary_bytes: "read_unary mq r q = Inr (q', r') \<Longrightarrow> br_bytes r' = br_bytes r"
proof (induction mq r q arbitrary: q' r' rule: read_unary.induct)
  case (1 mq r q)
  show ?case
  proof (cases "read_bit r")
    case (Inr x)
    obtain b r1 where x: "x = (b, r1)" by (cases x)
    show ?thesis
      using "1.prems" "1.IH" [OF Inr x [symmetric]] read_bit_bytes [of r b r1] Inr x
      by (auto simp: read_unary.simps [of mq r] split: if_splits)
  qed (use "1.prems" in \<open>simp add: read_unary.simps [of mq r]\<close>)
qed

lemma decode_values_checked_eq:
  assumes "length (br_bytes r) < 2 ^ 61"
  shows "decode_values_checked n rng (drop_bit P rng) r prev vals = decode_values n rng (drop_bit P rng) r prev vals"
  using assms
proof (induction n arbitrary: r prev vals)
  case (Suc n)
  have mq: "unat (drop_bit P rng) < 2 ^ 64 - 1" using max_quotient_less [of rng] by simp
  have u: "read_unary_checked (drop_bit P rng) r 0 = read_unary (drop_bit P rng) r 0"
    by (rule read_unary_checked_eq [OF Suc.prems mq]) simp
  show ?case
  proof (cases "read_unary (drop_bit P rng) r 0")
    case (Inr x)
    obtain q r1 where x: "x = (q, r1)" by (cases x)
    have r1: "length (br_bytes r1) < 2 ^ 61" using read_unary_bytes [of _ r 0 q r1] Inr x Suc.prems by simp
    have b: "read_bits_checked P 0 r1 = read_bits P r1"
      using read_bits_checked_eq [OF r1, of "[]" P] by (simp add: read_bits_def be_val_def P_def)
    have "unat q \<le> unat (drop_bit P rng)" using read_unary_sound [OF _ mq, of r 0 q r1] Inr x by auto
    then have "unat q < 2 ^ 45" using max_quotient_less [of rng] by (rule le_less_trans)
    then have q: "\<not> 2 ^ 64 \<le> unat q * 2 ^ P" by (simp add: P_def)
    show ?thesis
    proof (cases "read_bits P r1")
      case (Inr y)
      obtain m r2 where y: "y = (m, r2)" by (cases y)
      have "length (br_bytes r2) < 2 ^ 61" using Inr y r1 by (auto simp: read_bits_eq split: if_splits)
      then show ?thesis using Suc.IH \<open>read_unary (drop_bit P rng) r 0 = Inr x\<close> x Inr y u b q by (simp add: bindR_def split: sum.splits)
    qed (use u b Inr x in simp)
  qed (use u in simp)
qed simp

lemma validate_filter_checked_eq:
  assumes "max_bytes L < 2 ^ 61"
  shows "validate_filter_checked bs L = validate_filter bs L"
proof (cases "length bs \<le> max_bytes L")
  case True
  then have "length (br_bytes (bit_reader_new (drop h bs))) < 2 ^ 61" for h using assms by (simp add: bit_reader_new_def)
  note d = decode_values_checked_eq [OF this]
  show ?thesis unfolding validate_filter_checked_def validate_filter_def Let_def d ..
qed (simp add: validate_filter_checked_def validate_filter_def)

section \<open>Properties\<close>

text \<open>
  C1. \<open>validate_filter\<close> accepts exactly the canonical encodings. It returns a filter if and only if
  the bytes are the BIP 158 encoding (count, Golomb-Rice stream, zero padding, nothing after it) of the
  sorted values it returns, all of them below \<open>n * M\<close>, and the size, the count and the mapped range are
  within the limits. So it is injective (one byte string per accepted value list), a truncated, padded,
  extended or non-canonical filter is refused, and no accepted byte is left unexamined.
\<close>

theorem validate_filter_canonical:
  assumes "max_bytes L < 2 ^ 64"
  shows "validate_filter bs L = Inr f \<longleftrightarrow>
    vf_bytes f = bs
    \<and> length bs \<le> max_bytes L
    \<and> length (vf_values f) \<le> unat (max_elements L)
    \<and> length (vf_values f) * unat M < 2 ^ 64
    \<and> sorted (vf_values f)
    \<and> (\<forall>v \<in> set (vf_values f). unat v < length (vf_values f) * unat M)
    \<and> bs = gcs_encode (map unat (vf_values f))"
proof -
  have "\<lparr> vf_bytes = vf_bytes f, vf_values = vf_values f \<rparr> = f" by simp
  then have "validate_filter bs L = Inr f \<longleftrightarrow> vf_bytes f = bs \<and> canonical_filter L bs (map unat (vf_values f))"
    using validate_filter_sound [OF _ assms] validate_filter_complete [OF _ assms] by metis
  then show ?thesis by (auto simp: canonical_filter_def sorted_unat)
qed

theorem validate_filter_canonical_witness:
  "max_bytes ZCASH_MAINNET < 2 ^ 64
   \<and> validate_filter [0x02, 0x00, 0x00, 0x50, 0x00, 0x00] ZCASH_MAINNET
     = Inr \<lparr> vf_bytes = [0x02, 0x00, 0x00, 0x50, 0x00, 0x00], vf_values = [5, 5] \<rparr>"
proof -
  have small: "max_bytes ZCASH_MAINNET < 2 ^ 64" by (simp add: ZCASH_MAINNET_def)
  have "gcs_encode (map unat [5, 5 :: u64]) = [0x02, 0x00, 0x00, 0x50, 0x00, 0x00]" by code_simp
  with small show ?thesis
    using validate_filter_canonical [OF small, of "[0x02, 0x00, 0x00, 0x50, 0x00, 0x00]"
        "\<lparr> vf_bytes = [0x02, 0x00, 0x00, 0x50, 0x00, 0x00], vf_values = [5, 5] \<rparr>"]
    by (simp add: ZCASH_MAINNET_def)
qed

text \<open>
  C2. Validation never panics and never computes with a wrapped number: whatever the bytes, for limits below \<open>2 ^ 61\<close> bytes, the slice of the
  body and the byte examined by the padding check are in range, and a build that aborts on every addition or shift
  whose result does not fit returns the same filter or the same error. So malformed input is always reported as an error value. (That
  it always returns is the totality of \<open>validate_filter\<close>: the unary loop ends with the input.)
\<close>

theorem validate_filter_no_panic:
  assumes "max_bytes L < 2 ^ 61"
  shows "validate_filter bs L \<noteq> Inl Panic \<and> validate_filter_checked bs L = validate_filter bs L"
  using validate_filter_err validate_filter_checked_eq [OF assms] by blast

theorem validate_filter_no_panic_witness:
  "validate_filter_checked [0x01, 0xff, 0xff, 0xff] ZCASH_MAINNET = validate_filter [0x01, 0xff, 0xff, 0xff] ZCASH_MAINNET
   \<and> validate_filter [0x01, 0xff, 0xff, 0xff] ZCASH_MAINNET = Inl (LimitExceeded ''unary run exceeds the encodable range'')"
proof -
  have "max_bytes ZCASH_MAINNET < 2 ^ 61" by (simp add: ZCASH_MAINNET_def)
  moreover have "validate_filter [0x01, 0xff, 0xff, 0xff] ZCASH_MAINNET = Inl (LimitExceeded ''unary run exceeds the encodable range'')" by code_simp
  ultimately show ?thesis using validate_filter_no_panic [of ZCASH_MAINNET "[0x01, 0xff, 0xff, 0xff]"] by simp
qed

end
