(* ===== verification/Filter_Matching.thy ===== *)
theory Filter_Matching
  imports Filter_Gcs "HOL-Library.Multiset" "HOL-Library.List_Lexorder" "HOL-Library.Product_Lexorder"
begin

text \<open>
  Building a block's filter (\<open>build_filter.rs\<close>) and matching wallet scripts against a validated one
  (\<open>matching.rs\<close>).

  The encoder and the keyed hash are third-party code of the \<open>bitcoin\<close> crate and are parameters:
  \<open>gcs_writer k0 k1 m p es\<close> is the result of \<open>GcsFilterWriter::new(&mut bytes, k0, k1, m, p)\<close> after
  \<open>add_element\<close> for each of \<open>es\<close> and \<open>finish\<close>; \<open>siphash k0 k1 s\<close> is
  \<open>siphash24::Hash::hash_to_u64_with_keys\<close>. What the code relies on is stated by \<open>bip158_writer\<close>: the
  writer emits the BIP 158 encoding of the sorted mapped hashes of the distinct elements.
\<close>

section \<open>Building\<close>

text \<open>\<open>collect::<BTreeSet<&[u8]>>()\<close>, iterated: sorted by bytes, without duplicates.\<close>

definition btree_elements :: "script_bytes list \<Rightarrow> script_bytes list" where
  "btree_elements es = sort (remdups (filter is_filter_element es))"

definition build_filter ::
  "(u64 \<Rightarrow> u64 \<Rightarrow> u64 \<Rightarrow> nat \<Rightarrow> bytes list \<Rightarrow> string + bytes) \<Rightarrow> block_hash \<Rightarrow> script_bytes list
     \<Rightarrow> filter_error + bytes" where
  "build_filter gcs_writer block_hash elements =
     (let (k0, k1) = filter_keys block_hash in
      map_err Encoding (gcs_writer k0 k1 M P (btree_elements elements)))"

definition element_count :: "script_bytes list \<Rightarrow> nat" where
  "element_count elements = length (btree_elements elements)"

section \<open>Matching\<close>

definition map_to_range :: "u64 \<Rightarrow> u64 \<Rightarrow> u64" where
  "map_to_range h nm = ucast (drop_bit 64 ((ucast h :: 128 word) * (ucast nm :: 128 word)))"

definition map_wallet_scripts ::
  "(u64 \<Rightarrow> u64 \<Rightarrow> bytes \<Rightarrow> u64) \<Rightarrow> validated_filter \<Rightarrow> block_hash \<Rightarrow> script_bytes list
     \<Rightarrow> (u64 \<times> nat) list" where
  "map_wallet_scripts siphash f block_hash wallet_scripts =
     (let (k0, k1) = filter_keys block_hash; rng = vf_range f in
      sort (map (\<lambda>(index, script). (map_to_range (siphash k0 k1 script) rng, index))
             (filter (\<lambda>(_, script). script \<noteq> []) (List.enumerate 0 wallet_scripts))))"

function skip_smaller :: "u64 list \<Rightarrow> u64 \<Rightarrow> nat \<Rightarrow> nat" where
  "skip_smaller vals v cursor =
     (if cursor < length vals \<and> vals ! cursor < v then skip_smaller vals v (cursor + 1)
      else cursor)"
  by pat_completeness auto
termination by (relation "measure (\<lambda>(vals, _, cursor). length vals - cursor)") auto

declare skip_smaller.simps [simp del]

fun match_loop :: "u64 list \<Rightarrow> (u64 \<times> nat) list \<Rightarrow> nat \<Rightarrow> nat list \<Rightarrow> nat list" where
  "match_loop vals [] cursor matches = matches"
| "match_loop vals ((v, index) # mapped) cursor matches =
     (let cursor = skip_smaller vals v cursor in
      match_loop vals mapped cursor
        (if cursor < length vals \<and> vals ! cursor = v then matches @ [index] else matches))"

definition match_mapped :: "validated_filter \<Rightarrow> (u64 \<times> nat) list \<Rightarrow> filter_error + nat list" where
  "match_mapped f mapped = Inr (sort (match_loop (vf_values f) mapped 0 []))"

definition match_scripts ::
  "(u64 \<Rightarrow> u64 \<Rightarrow> bytes \<Rightarrow> u64) \<Rightarrow> validated_filter \<Rightarrow> block_hash \<Rightarrow> script_bytes list
     \<Rightarrow> filter_error + nat list" where
  "match_scripts siphash f block_hash wallet_scripts =
     match_mapped f (map_wallet_scripts siphash f block_hash wallet_scripts)"

section \<open>What the writer promises\<close>

definition mapped_values :: "(bytes \<Rightarrow> u64) \<Rightarrow> bytes list \<Rightarrow> nat list" where
  "mapped_values h es =
     sort (map (\<lambda>e. unat (map_to_range (h e) (of_nat (length es) * M))) es)"

definition bip158_writer ::
  "(u64 \<Rightarrow> u64 \<Rightarrow> bytes \<Rightarrow> u64)
     \<Rightarrow> (u64 \<Rightarrow> u64 \<Rightarrow> u64 \<Rightarrow> nat \<Rightarrow> bytes list \<Rightarrow> string + bytes) \<Rightarrow> bool" where
  "bip158_writer siphash gcs_writer \<longleftrightarrow>
     (\<forall>k0 k1 es. distinct es \<and> length es * unat M < 2 ^ 64 \<longrightarrow>
        gcs_writer k0 k1 M P es = Inr (gcs_encode (mapped_values (siphash k0 k1) es)))"

section \<open>Lemmas\<close>

lemma unat_map_to_range: "unat (map_to_range h nm) = unat h * unat nm div 2 ^ 64"
proof -
  have lt: "unat h < 2 ^ 64" "unat nm < 2 ^ 64" by (rule unat_u64_lt)+
  have "unat h * unat nm < 2 ^ 64 * 2 ^ 64"
    using lt by (intro mult_strict_mono) auto
  then have "unat ((ucast h :: 128 word) * ucast nm) = unat h * unat nm"
    using lt by (subst unat_mult_nowrap) (simp_all add: unat_ucast_le)
  moreover have "unat h * unat nm div 2 ^ 64 < 2 ^ 64"
    using \<open>unat h * unat nm < 2 ^ 64 * 2 ^ 64\<close> by (intro less_mult_imp_div_less) simp
  ultimately have "unat (drop_bit 64 ((ucast h :: 128 word) * ucast nm)) = unat h * unat nm div 2 ^ 64"
    "unat h * unat nm div 2 ^ 64 < 2 ^ LENGTH(64)"
    by (simp_all only: unat_drop_bit_eq) (simp_all add: drop_bit_eq_div)
  then show ?thesis unfolding map_to_range_def by (subst unat_ucast_le) simp_all
qed

lemma map_to_range_less: "0 < unat nm \<Longrightarrow> unat (map_to_range h nm) < unat nm"
  using unat_u64_lt [of h] by (simp add: unat_map_to_range less_mult_imp_div_less)

lemma skip_smaller_spec:
  "cursor \<le> skip_smaller vals v cursor
   \<and> (\<forall>i. cursor \<le> i \<longrightarrow> i < skip_smaller vals v cursor \<longrightarrow> i < length vals \<and> vals ! i < v)
   \<and> (skip_smaller vals v cursor < length vals \<longrightarrow> v \<le> vals ! skip_smaller vals v cursor)"
proof (induction vals v cursor rule: skip_smaller.induct)
  case (1 vals v cursor)
  show ?case
  proof (cases "cursor < length vals \<and> vals ! cursor < v")
    case True
    then have step: "skip_smaller vals v cursor = skip_smaller vals v (cursor + 1)"
      by (simp add: skip_smaller.simps [of vals v cursor])
    show ?thesis unfolding step using 1 [OF True] True by (metis Suc_eq_plus1 Suc_leD Suc_leI le_neq_implies_less)
  next
    case False
    then have "skip_smaller vals v cursor = cursor" by (auto simp: skip_smaller.simps [of vals v cursor])
    then show ?thesis using False by (auto simp: not_less)
  qed
qed

text \<open>The cursor stops on a value equal to \<open>v\<close> exactly when \<open>v\<close> occurs in the sorted list.\<close>

lemma skip_smaller_member:
  assumes "sorted vals" and "\<forall>i < cursor. i < length vals \<and> vals ! i < v"
  defines "c \<equiv> skip_smaller vals v cursor"
  shows "c < length vals \<and> vals ! c = v \<longleftrightarrow> v \<in> set vals"
    and "\<forall>i < c. i < length vals \<and> vals ! i < v"
proof -
  note spec = skip_smaller_spec [of cursor vals v, folded c_def]
  show below: "\<forall>i < c. i < length vals \<and> vals ! i < v"
    using assms(2) spec by (metis not_le)
  show "c < length vals \<and> vals ! c = v \<longleftrightarrow> v \<in> set vals"
  proof
    assume "v \<in> set vals"
    then obtain j where j: "j < length vals" "vals ! j = v" by (auto simp: in_set_conv_nth)
    then have "c \<le> j" using below by (metis less_irrefl not_le)
    then have "c < length vals" "vals ! c \<le> v" using j assms(1) by (auto simp: sorted_nth_mono)
    with spec show "c < length vals \<and> vals ! c = v" by auto
  qed auto
qed

lemma match_loop_eq:
  assumes "sorted vals" and "sorted (map fst mapped)"
    and "\<forall>i < cursor. i < length vals \<and> (\<forall>p \<in> set mapped. vals ! i < fst p)"
  shows "match_loop vals mapped cursor acc = acc @ map snd (filter (\<lambda>p. fst p \<in> set vals) mapped)"
  using assms
proof (induction mapped arbitrary: cursor acc)
  case Nil
  then show ?case by simp
next
  case (Cons p mapped)
  obtain v index where p: "p = (v, index)" by (cases p)
  let ?c = "skip_smaller vals v cursor"
  have "\<forall>i < cursor. i < length vals \<and> vals ! i < v" using Cons.prems(3) p by auto
  note mem = skip_smaller_member [OF Cons.prems(1) this]
  have "\<forall>i < ?c. i < length vals \<and> (\<forall>p \<in> set mapped. vals ! i < fst p)"
    using mem(2) Cons.prems(2) p by (force intro: less_le_trans)
  then show ?case
    using Cons.IH [of ?c] Cons.prems mem(1) p by (simp add: Let_def)
qed

text \<open>The reference: the indices of the non-empty scripts whose mapped hash is a filter value.\<close>

definition matches_script ::
  "(u64 \<Rightarrow> u64 \<Rightarrow> bytes \<Rightarrow> u64) \<Rightarrow> validated_filter \<Rightarrow> block_hash \<Rightarrow> script_bytes \<Rightarrow> bool" where
  "matches_script siphash f h s \<longleftrightarrow>
     s \<noteq> [] \<and> map_to_range (siphash (fst (filter_keys h)) (snd (filter_keys h)) s) (vf_range f) \<in> set (vf_values f)"

definition match_reference ::
  "(u64 \<Rightarrow> u64 \<Rightarrow> bytes \<Rightarrow> u64) \<Rightarrow> validated_filter \<Rightarrow> block_hash \<Rightarrow> script_bytes list \<Rightarrow> nat list" where
  "match_reference siphash f h ws = filter (\<lambda>i. matches_script siphash f h (ws ! i)) [0..<length ws]"

lemma sorted_map_fst: "sorted ps \<Longrightarrow> sorted (map fst ps)" for ps :: "('a::linorder \<times> 'b::linorder) list"
proof (induction ps)
  case (Cons p ps)
  then show ?case by (auto simp: less_eq_prod_def)
qed simp

lemma sort_unique: "sorted ys \<Longrightarrow> mset xs = mset ys \<Longrightarrow> sort xs = ys"
  by (metis mset_sort properties_for_sort)

lemma match_scripts_eq:
  assumes "sorted (vf_values f)"
  shows "match_scripts siphash f h ws = Inr (match_reference siphash f h ws)"
proof -
  obtain k0 k1 where k: "filter_keys h = (k0, k1)" by fastforce
  define g where "g = (\<lambda>(index :: nat, script). (map_to_range (siphash k0 k1 script) (vf_range f), index))"
  define xs where "xs = map g (filter (\<lambda>(_, script). script \<noteq> []) (List.enumerate 0 ws))"
  let ?Q = "\<lambda>p. fst p \<in> set (vf_values f)"
  have mapped: "map_wallet_scripts siphash f h ws = sort xs"
    by (simp add: map_wallet_scripts_def k xs_def g_def)
  have "match_loop (vf_values f) (sort xs) 0 [] = map snd (filter ?Q (sort xs))"
    using match_loop_eq [OF assms sorted_map_fst, of "sort xs" 0 "[]"] by simp
  moreover have "sort (map snd (filter ?Q (sort xs))) = match_reference siphash f h ws"
  proof (rule sort_unique)
    have en: "List.enumerate 0 ws = map (\<lambda>i. (i, ws ! i)) [0..<length ws]"
      by (rule nth_equalityI) (simp_all add: nth_enumerate_eq)
    have "map snd (filter ?Q xs) = match_reference siphash f h ws"
      unfolding xs_def en match_reference_def
      by (simp add: filter_map comp_def g_def matches_script_def k case_prod_beta conj_ac
          del: filter_filter) (simp add: filter_filter conj_ac)
    moreover have "mset (map snd (filter ?Q (sort xs))) = mset (map snd (filter ?Q xs))"
      by (simp only: mset_map mset_filter mset_sort)
    ultimately show "mset (map snd (filter ?Q (sort xs))) = mset (match_reference siphash f h ws)"
      by simp
    show "sorted (match_reference siphash f h ws)"
      by (simp add: match_reference_def sorted_wrt_filter)
  qed
  ultimately show ?thesis by (simp add: match_scripts_def match_mapped_def mapped)
qed

lemma validated_sorted:
  "validate_filter bs L = Inr f \<Longrightarrow> max_bytes L < 2 ^ 64 \<Longrightarrow> sorted (vf_values f)"
  using validate_filter_sound(2) by (auto simp: canonical_filter_def sorted_unat)

section \<open>From elements to matches\<close>

lemma set_btree_elements: "set (btree_elements es) = {e \<in> set es. is_filter_element e}"
  by (auto simp: btree_elements_def)

lemma distinct_btree_elements: "distinct (btree_elements es)"
  by (simp add: btree_elements_def)

lemma btree_elements_cong:
  assumes "set (filter is_filter_element es) = set (filter is_filter_element es')"
  shows "btree_elements es = btree_elements es'"
  unfolding btree_elements_def using assms
  by (intro sorted_distinct_set_unique) auto

lemma element_count_card: "element_count es = card {e \<in> set es. is_filter_element e}"
  by (metis element_count_def distinct_btree_elements distinct_card set_btree_elements)

lemma length_mapped_values [simp]: "length (mapped_values h es) = length es"
  by (simp add: mapped_values_def)

lemma mapped_values_less:
  assumes "v \<in> set (mapped_values h es)" and "length es * unat M < 2 ^ 64"
  shows "v < length es * unat M"
proof -
  let ?nm = "of_nat (length es) * M :: u64"
  obtain e where e: "e \<in> set es" "v = unat (map_to_range (h e) ?nm)"
    using assms(1) by (auto simp: mapped_values_def)
  have "unat (of_nat (length es) :: u64) = length es"
    using assms(2) by (simp add: unat_of_nat_small)
  then have nm: "unat ?nm = length es * unat M" using assms(2) by (simp add: unat_mult_nowrap)
  moreover have "0 < length es" using e(1) by (cases es) auto
  ultimately show ?thesis using e(2) map_to_range_less [of ?nm "h e"] by simp
qed

lemma build_filter_bytes:
  assumes "bip158_writer siphash gcs_writer" and "element_count es * unat M < 2 ^ 64"
  shows "build_filter gcs_writer h es
           = Inr (gcs_encode (mapped_values (siphash (fst (filter_keys h)) (snd (filter_keys h))) (btree_elements es)))"
  using assms distinct_btree_elements [of es]
  by (simp add: build_filter_def bip158_writer_def element_count_def case_prod_beta)

lemma unat_values_roundtrip:
  "(\<forall>v \<in> set vs. v < 2 ^ 64) \<Longrightarrow> map unat (map of_nat vs :: u64 list) = vs"
  by (simp add: map_idI unat_of_nat_small)

lemma built_filter_validates:
  assumes w: "bip158_writer siphash gcs_writer" and count: "element_count es * unat M < 2 ^ 64"
    and b: "build_filter gcs_writer h es = Inr bs"
    and lim: "length bs \<le> max_bytes L" "element_count es \<le> unat (max_elements L)" "max_bytes L < 2 ^ 64"
  defines "vs \<equiv> mapped_values (siphash (fst (filter_keys h)) (snd (filter_keys h))) (btree_elements es)"
  shows "validate_filter bs L = Inr \<lparr> vf_bytes = bs, vf_values = map of_nat vs \<rparr>"
proof (rule validate_filter_complete)
  have bs: "bs = gcs_encode vs" using build_filter_bytes [OF w count, of h] b by (simp add: vs_def)
  have len: "length vs = element_count es" by (simp add: vs_def element_count_def)
  have less: "\<forall>v \<in> set vs. v < length vs * unat M"
    using mapped_values_less count len by (simp add: vs_def element_count_def)
  then have "\<forall>v \<in> set vs. v < 2 ^ 64" using count len by auto
  then have rt: "map unat (map of_nat vs :: u64 list) = vs" by (rule unat_values_roundtrip)
  have "sorted vs" by (simp add: vs_def mapped_values_def)
  then show "canonical_filter L bs (map unat (map of_nat vs :: u64 list))"
    unfolding rt canonical_filter_def using lim len less count bs by simp
qed (rule lim(3))

lemma built_filter_matches:
  fixes f :: validated_filter
  assumes "f = \<lparr> vf_bytes = bs, vf_values = map of_nat (mapped_values (siphash k0 k1) (btree_elements es)) \<rparr>"
    and "filter_keys h = (k0, k1)" and "s \<in> set es" and "is_filter_element s"
  shows "matches_script siphash f h s"
proof -
  have s: "s \<in> set (btree_elements es)" using assms(3,4) by (simp add: set_btree_elements)
  have rng: "vf_range f = of_nat (length (btree_elements es)) * M"
    using assms(1) by (simp add: vf_range_def)
  have "unat (map_to_range (siphash k0 k1 s) (vf_range f))
          \<in> set (mapped_values (siphash k0 k1) (btree_elements es))"
    using s by (auto simp: mapped_values_def rng)
  then have "map_to_range (siphash k0 k1 s) (vf_range f) \<in> set (vf_values f)"
    using assms(1) by (force simp: image_iff)
  then show ?thesis using assms(2,4) by (auto simp: matches_script_def is_filter_element_def)
qed

section \<open>Properties\<close>

text \<open>
  C3. The merge of the sorted wallet values against the sorted filter values computes exactly the
  reference answer: on every filter that validation accepts, \<open>match_scripts\<close> returns the increasing list
  of the indices of all non-empty wallet scripts whose mapped hash is one of the filter's values,
  several scripts on one value included.
\<close>

theorem match_scripts_reference:
  assumes "validate_filter bs L = Inr f" and "max_bytes L < 2 ^ 64"
  shows "match_scripts siphash f h ws = Inr (match_reference siphash f h ws)"
  by (rule match_scripts_eq [OF validated_sorted [OF assms]])

definition sample_siphash :: "u64 \<Rightarrow> u64 \<Rightarrow> bytes \<Rightarrow> u64" where
  "sample_siphash k0 k1 s = of_nat (le_val s) * 0x9e3779b97f4a7c15 + k0"

definition sample_writer :: "u64 \<Rightarrow> u64 \<Rightarrow> u64 \<Rightarrow> nat \<Rightarrow> bytes list \<Rightarrow> string + bytes" where
  "sample_writer k0 k1 m p es = Inr (gcs_encode (mapped_values (sample_siphash k0 k1) es))"

lemma sample_bip158: "bip158_writer sample_siphash sample_writer"
  by (simp add: bip158_writer_def sample_writer_def)

theorem match_scripts_reference_witness:
  "match_scripts (\<lambda>k0 k1 s. of_nat (length s)) \<lparr> vf_bytes = [0x01, 0x00, 0x00, 0x00], vf_values = [0] \<rparr>
     (replicate 32 7) [[], [0x76, 0xa9], [0x51]] = Inr [1, 2]"
proof -
  let ?f = "\<lparr> vf_bytes = [0x01, 0x00, 0x00, 0x00], vf_values = [0] \<rparr>"
  have "validate_filter [0x01, 0x00, 0x00, 0x00] ZCASH_MAINNET = Inr ?f" by code_simp
  moreover have "max_bytes ZCASH_MAINNET < 2 ^ 64" by (simp add: ZCASH_MAINNET_def)
  ultimately have "match_scripts (\<lambda>k0 k1 s. of_nat (length s)) ?f (replicate 32 7) [[], [0x76, 0xa9], [0x51]]
    = Inr (match_reference (\<lambda>k0 k1 s. of_nat (length s)) ?f (replicate 32 7) [[], [0x76, 0xa9], [0x51]])"
    by (rule match_scripts_reference)
  also have "match_reference (\<lambda>k0 k1 s. of_nat (length s)) ?f (replicate 32 7) [[], [0x76, 0xa9], [0x51]]
    = [1, 2]" by code_simp
  finally show ?thesis .
qed

text \<open>
  C4. No false negatives, end to end: the filter built for a block from a complete element list is
  accepted by validation (within the limits), and matching it reports every wallet script that is one
  of the block's elements, whatever the order of the wallet list and whatever else it holds.
\<close>

theorem no_false_negatives:
  assumes w: "bip158_writer siphash gcs_writer" and count: "element_count es * unat M < 2 ^ 64"
    and b: "build_filter gcs_writer h es = Inr bs"
    and lim: "length bs \<le> max_bytes L" "element_count es \<le> unat (max_elements L)" "max_bytes L < 2 ^ 64"
  shows "\<exists>f ms. validate_filter bs L = Inr f \<and> vf_element_count f = element_count es
           \<and> match_scripts siphash f h ws = Inr ms \<and> sorted ms \<and> distinct ms
           \<and> (\<forall>i < length ws. ws ! i \<in> set es \<and> is_filter_element (ws ! i) \<longrightarrow> i \<in> set ms)"
proof -
  obtain k0 k1 where k: "filter_keys h = (k0, k1)" by fastforce
  let ?f = "\<lparr> vf_bytes = bs, vf_values = map of_nat (mapped_values (siphash k0 k1) (btree_elements es)) \<rparr>"
  let ?ms = "match_reference siphash ?f h ws"
  have v: "validate_filter bs L = Inr ?f"
    using built_filter_validates [OF w count b lim] by (simp add: k)
  then have "match_scripts siphash ?f h ws = Inr ?ms"
    by (intro match_scripts_eq validated_sorted [OF v lim(3)])
  moreover have "i \<in> set ?ms" if "i < length ws" "ws ! i \<in> set es \<and> is_filter_element (ws ! i)" for i
    using that built_filter_matches [OF refl k, where s = "ws ! i" and es = es] by (simp add: match_reference_def)
  moreover have "sorted ?ms" "distinct ?ms" by (simp_all add: match_reference_def sorted_wrt_filter)
  ultimately show ?thesis using v by (auto simp: vf_element_count_def element_count_def)
qed

theorem no_false_negatives_witness:
  "\<exists>f ms. validate_filter (gcs_encode (mapped_values (sample_siphash 0 0) [[0x51], [0x76, 0xa9]])) ZCASH_MAINNET = Inr f
     \<and> match_scripts sample_siphash f (replicate 32 0) [[0x01], [0x76, 0xa9], [], [0x51]] = Inr ms
     \<and> 1 \<in> set ms \<and> 3 \<in> set ms"
proof -
  let ?es = "[[0x76, 0xa9], [0x6a, 0x01], [0x51], [0x76, 0xa9]] :: bytes list"
  let ?h = "replicate 32 (0 :: u8)" and ?ws = "[[0x01], [0x76, 0xa9], [], [0x51]] :: bytes list"
  let ?bs = "gcs_encode (mapped_values (sample_siphash 0 0) [[0x51], [0x76, 0xa9]])"
  have b: "build_filter sample_writer ?h ?es = Inr ?bs" by code_simp
  have c: "element_count ?es * unat M < 2 ^ 64" "element_count ?es \<le> unat (max_elements ZCASH_MAINNET)"
    by code_simp+
  have l: "length ?bs \<le> max_bytes ZCASH_MAINNET" "max_bytes ZCASH_MAINNET < 2 ^ 64" by code_simp+
  obtain f ms where f: "validate_filter ?bs ZCASH_MAINNET = Inr f"
      "match_scripts sample_siphash f ?h ?ws = Inr ms"
      "\<forall>i < length ?ws. ?ws ! i \<in> set ?es \<and> is_filter_element (?ws ! i) \<longrightarrow> i \<in> set ms"
    using no_false_negatives [OF sample_bip158 c(1) b l(1) c(2) l(2), of ?ws] by blast
  have "1 \<in> set ms" "3 \<in> set ms"
    using f(3) [rule_format, of 1] f(3) [rule_format, of 3]
    by (simp_all add: is_filter_element_iff)
  with f show ?thesis by blast
qed

text \<open>
  A filter depends only on the set of its elements: reordering them, repeating them, or adding
  scripts that are empty or begin with \<open>OP_RETURN\<close> changes neither the bytes nor the count, and the
  count is the number of distinct included scripts.
\<close>

lemma build_filter_set:
  assumes "{e \<in> set es. is_filter_element e} = {e \<in> set es'. is_filter_element e}"
  shows "build_filter gcs_writer h es = build_filter gcs_writer h es'
    \<and> element_count es = element_count es' \<and> element_count es = card {e \<in> set es. is_filter_element e}"
proof -
  have "btree_elements es = btree_elements es'"
    using assms by (intro btree_elements_cong) (simp add: set_filter)
  then show ?thesis by (simp add: build_filter_def element_count_def flip: element_count_card)
qed

end
