(* ===== verification/Filter_Envelope.thy ===== *)
theory Filter_Envelope
  imports Filter_Gcs
begin

text \<open>
  The range-delivery envelope, \<open>pir/transparent-filter/src/envelope.rs\<close>: the byte cursor \<open>Reader\<close>,
  \<open>FilterBatch::encode\<close> and \<open>FilterBatch::decode\<close>. The profile, a Rust \<open>String\<close>, is its UTF-8 bytes.
\<close>

definition ENVELOPE_VERSION :: u16 where "ENVELOPE_VERSION = 1"

definition MAGIC :: bytes where "MAGIC = str_bytes ''ZTFB''"

lemma length_MAGIC [simp]: "length MAGIC = 4"
  by (simp add: MAGIC_def str_bytes_def)

definition MAX_RECORDS_PER_BATCH :: u64 where "MAX_RECORDS_PER_BATCH = 1000"

definition MAX_BATCH_BYTES :: nat where "MAX_BATCH_BYTES = 64 * 1024 * 1024"

record filter_record =
  fr_height :: u64
  fr_block_hash :: block_hash
  fr_filter :: bytes

record filter_batch =
  fb_version :: u16
  fb_genesis :: block_hash
  fb_profile :: bytes
  fb_start_height :: u64
  fb_stop_block_hash :: block_hash
  fb_records :: "filter_record list"

section \<open>The cursor\<close>

record reader =
  rd_bytes :: bytes
  rd_offset :: nat

definition reader_new :: "bytes \<Rightarrow> reader" where
  "reader_new bs = \<lparr> rd_bytes = bs, rd_offset = 0 \<rparr>"

definition rd_take :: "nat \<Rightarrow> (reader, filter_error, bytes) step" where
  "rd_take count r =
     (let stop = rd_offset r + count in
      if stop \<ge> 2 ^ 64 then Inl (Envelope ''length overflow'')
      else if stop > length (rd_bytes r) then Inl (Envelope ''envelope is truncated'')
      else Inr (take count (drop (rd_offset r) (rd_bytes r)), r \<lparr> rd_offset := stop \<rparr>))"

definition rd_u16 :: "(reader, filter_error, u16) step" where
  "rd_u16 = sbind (rd_take 2) (\<lambda>b. sreturn (of_nat (le_val b)))"

definition rd_u64 :: "(reader, filter_error, u64) step" where
  "rd_u64 = sbind (rd_take 8) (\<lambda>b. sreturn (of_nat (le_val b)))"

definition rd_hash :: "(reader, filter_error, block_hash) step" where
  "rd_hash = rd_take 32"

definition rd_compact_size :: "(reader, filter_error, u64) step" where
  "rd_compact_size =
     sbind (rd_take 1) (\<lambda>b. let f = b ! 0 in
     sbind (if f = 0xfd then
              sbind (rd_take 2) (\<lambda>b. sreturn (ucast (of_nat (le_val b) :: u16), 0xfd))
            else if f = 0xfe then
              sbind (rd_take 4) (\<lambda>b. sreturn (ucast (of_nat (le_val b) :: u32), 0x10000))
            else if f = 0xff then
              sbind (rd_take 8) (\<lambda>b. sreturn (of_nat (le_val b), 0x100000000))
            else sreturn (ucast f, 0)) (\<lambda>(v :: u64, minimum).
     sbind (sguard (\<not> v < minimum) (Envelope ''CompactSize is not canonically encoded'')) (\<lambda>_.
     sreturn v)))"

definition rd_remaining :: "reader \<Rightarrow> nat" where
  "rd_remaining r = length (rd_bytes r) - rd_offset r"

section \<open>Encoding and decoding\<close>

definition encode_record :: "filter_record \<Rightarrow> bytes \<Rightarrow> bytes" where
  "encode_record rec out =
     write_compact_size (out @ u64_le (fr_height rec) @ fr_block_hash rec)
       (of_nat (length (fr_filter rec))) @ fr_filter rec"

definition encode :: "filter_batch \<Rightarrow> bytes" where
  "encode b =
     (let out = MAGIC @ u16_le (fb_version b) @ fb_genesis b;
          out = write_compact_size out (of_nat (length (fb_profile b)));
          out = out @ fb_profile b @ u64_le (fb_start_height b) @ fb_stop_block_hash b;
          out = write_compact_size out (of_nat (length (fb_records b)))
      in fold encode_record (fb_records b) out)"

definition decode_record :: "(reader, filter_error, filter_record) step" where
  "decode_record =
     sbind rd_u64 (\<lambda>height.
     sbind rd_hash (\<lambda>block_hash.
     sbind rd_compact_size (\<lambda>len.
     sbind (sgets rd_remaining) (\<lambda>remaining.
     sbind (sguard (\<not> len > of_nat remaining) (Envelope ''record length exceeds batch'')) (\<lambda>_.
     sbind (rd_take (unat len)) (\<lambda>body.
     sreturn \<lparr> fr_height = height, fr_block_hash = block_hash, fr_filter = body \<rparr>))))))"

fun decode_records :: "nat \<Rightarrow> (reader, filter_error, filter_record list) step" where
  "decode_records 0 = sreturn []"
| "decode_records (Suc n) =
     sbind decode_record (\<lambda>r. sbind (decode_records n) (\<lambda>rs. sreturn (r # rs)))"

definition decode_batch :: "(reader, filter_error, filter_batch) step" where
  "decode_batch =
     sbind (rd_take 4) (\<lambda>magic.
     sbind (sguard (magic = MAGIC) (Envelope ''bad magic'')) (\<lambda>_.
     sbind rd_u16 (\<lambda>version.
     sbind (sguard (version = ENVELOPE_VERSION) (Envelope ''unsupported envelope version'')) (\<lambda>_.
     sbind rd_hash (\<lambda>genesis.
     sbind rd_compact_size (\<lambda>profile_len.
     sbind (sguard (\<not> profile_len > 64) (Envelope ''profile name is too long'')) (\<lambda>_.
     sbind (rd_take (unat profile_len)) (\<lambda>profile.
     sbind (sguard (valid_utf8 profile) (Envelope ''profile name is not UTF-8'')) (\<lambda>_.
     sbind rd_u64 (\<lambda>start_height.
     sbind rd_hash (\<lambda>stop_block_hash.
     sbind rd_compact_size (\<lambda>count.
     sbind (sguard (\<not> count > MAX_RECORDS_PER_BATCH) (Envelope ''batch claims too many records'')) (\<lambda>_.
     sbind (sgets rd_remaining) (\<lambda>remaining.
     sbind (sguard (\<not> saturating_mul count 41 > of_nat remaining)
             (Envelope ''batch claims more records than it has bytes'')) (\<lambda>_.
     sbind (decode_records (unat count)) (\<lambda>records.
     sbind (sgets rd_remaining) (\<lambda>remaining.
     sbind (sguard (remaining = 0) (Envelope ''trailing bytes after the batch'')) (\<lambda>_.
     sreturn \<lparr> fb_version = version, fb_genesis = genesis, fb_profile = profile,
               fb_start_height = start_height, fb_stop_block_hash = stop_block_hash,
               fb_records = records \<rparr>))))))))))))))))))"

definition decode :: "bytes \<Rightarrow> filter_error + filter_batch" where
  "decode bs =
     (if length bs > MAX_BATCH_BYTES then Inl (Envelope ''batch exceeds the byte limit'')
      else bindR (decode_batch (reader_new bs)) (\<lambda>(b, _). Inr b))"

section \<open>The cursor implements the byte-cursor interface\<close>

definition reader_ok :: "reader \<Rightarrow> bool" where
  "reader_ok r \<longleftrightarrow> rd_offset r \<le> length (rd_bytes r) \<and> length (rd_bytes r) < 2 ^ 64"

definition rd_rest :: "reader \<Rightarrow> bytes" where
  "rd_rest r = drop (rd_offset r) (rd_bytes r)"

lemma rd_remaining_eq: "rd_remaining r = length (rd_rest r)"
  by (simp add: rd_remaining_def rd_rest_def)

lemma rd_rest_small: "reader_ok r \<Longrightarrow> length (rd_rest r) < 2 ^ 64"
  by (auto simp: reader_ok_def rd_rest_def)

interpretation rd: byte_cursor reader_ok rd_rest rd_take
proof
  fix s n bs s'
  assume "reader_ok s" and t: "rd_take n s = Inr (bs, s')"
  then show "reader_ok s' \<and> length bs = n \<and> rd_rest s = bs @ rd_rest s'"
    by (auto simp: rd_take_def reader_ok_def rd_rest_def Let_def split: if_splits)
       (metis add.commute append_take_drop_id drop_drop)
next
  fix s bs r n
  assume s: "reader_ok s" "rd_rest s = bs @ r" "length bs = n"
  then have "rd_offset s + n \<le> length (rd_bytes s)"
  proof -
    have "length (rd_rest s) = n + length r" using s by simp
    then show ?thesis using s(1) unfolding rd_rest_def reader_ok_def length_drop by linarith
  qed
  with s show "\<exists>s'. rd_take n s = Inr (bs, s') \<and> rd_rest s' = r \<and> reader_ok s'"
    by (intro exI [of _ "s \<lparr> rd_offset := rd_offset s + n \<rparr>"])
       (auto simp: rd_take_def reader_ok_def rd_rest_def Let_def add.commute simp flip: drop_drop)
qed

abbreviation rreads :: "(reader, filter_error, 'a) step \<Rightarrow> ('a \<Rightarrow> bytes \<Rightarrow> bool) \<Rightarrow> bool" where
  "rreads \<equiv> reads reader_ok rd_rest"

lemma rreads_u16: "rreads rd_u16 (\<lambda>v bs. bs = u16_le v)"
  unfolding rd_u16_def
  by (rule reads_cong [OF rd.reads_take_map]) (auto simp: unat_of_le_val16 le_bytes_inverse)

lemma rreads_u64: "rreads rd_u64 (\<lambda>v bs. bs = u64_le v)"
  unfolding rd_u64_def
  by (rule reads_cong [OF rd.reads_take_map]) (auto simp: unat_of_le_val64 le_bytes_inverse)

lemma rreads_hash: "rreads rd_hash (\<lambda>v bs. bs = v \<and> hash_ok v)"
  unfolding rd_hash_def hash_ok_def by (rule reads_cong [OF rd.reads_take]) auto

lemma tagged_iff:
  "(\<exists>b as cs. (b = as \<and> length as = 1)
      \<and> (\<exists>x ds es. R (b ! 0) x ds \<and> (v = fst x \<and> \<not> fst x < snd x \<and> es = []) \<and> cs = ds @ es) \<and> bs = as @ cs)
   \<longleftrightarrow> (\<exists>f cs. bs = f # cs \<and> (\<exists>m. R f (v, m) cs \<and> \<not> v < m))" (is "?lhs \<longleftrightarrow> ?rhs")
  for R :: "u8 \<Rightarrow> u64 \<times> u64 \<Rightarrow> bytes \<Rightarrow> bool" and v :: u64 and bs :: bytes
proof
  assume ?lhs
  then show ?rhs by (auto simp: length_Suc_conv)
next
  assume ?rhs
  then obtain f cs m where "bs = f # cs" "R f (v, m) cs" "\<not> v < m" by blast
  then show ?lhs by (intro exI [of _ "[f]"] exI [of _ cs]) auto
qed

lemma rreads_compact_size: "rreads rd_compact_size (\<lambda>v bs. bs = compact_size v)"
proof -
  let ?tail = "\<lambda>f :: u8. if f = 0xfd then sbind (rd_take 2) (\<lambda>b. sreturn (ucast (of_nat (le_val b) :: u16), 0xfd))
      else if f = 0xfe then sbind (rd_take 4) (\<lambda>b. sreturn (ucast (of_nat (le_val b) :: u32), 0x10000))
      else if f = 0xff then sbind (rd_take 8) (\<lambda>b. sreturn (of_nat (le_val b), 0x100000000))
      else sreturn (ucast f, 0 :: u64)"
  let ?R = "\<lambda>f (v :: u64, m) bs. if f = 0xfd then v = of_nat (le_val bs) \<and> m = 0xfd \<and> length bs = 2
      else if f = 0xfe then v = of_nat (le_val bs) \<and> m = 0x10000 \<and> length bs = 4
      else if f = 0xff then v = of_nat (le_val bs) \<and> m = 0x100000000 \<and> length bs = 8
      else v = ucast f \<and> m = 0 \<and> bs = []"
  have tail: "rreads (?tail f) (?R f)" for f
    by (cases "f = 0xfd"; cases "f = 0xfe"; cases "f = 0xff"; simp)
      (rule reads_cong [OF rd.reads_take_map] reads_cong [OF reads_return];
        auto simp: ucast_of_le16 ucast_of_le32)+
  have shape: "(\<exists>m. ?R f (v, m) bs \<and> \<not> v < m) \<longleftrightarrow> compact_shape f bs v" for f v bs
    by (auto simp: compact_shape_def of_le_val_less not_less cong: conj_cong)
  have guard: "rreads (case x of (v, m) \<Rightarrow> sbind (sguard (\<not> v < m) e) (\<lambda>_. sreturn v))
      (\<lambda>w bs. w = fst x \<and> \<not> fst x < snd x \<and> bs = [])" for x :: "u64 \<times> u64" and e
    by (cases x) (auto intro: reads_cong [OF reads_bind [OF reads_guard reads_return]])
  have "rreads rd_compact_size (\<lambda>v bs. \<exists>b as cs. (b = as \<and> length as = 1)
      \<and> (\<exists>x ds es. ?R (b ! 0) x ds \<and> (v = fst x \<and> \<not> fst x < snd x \<and> es = []) \<and> cs = ds @ es) \<and> bs = as @ cs)"
    unfolding rd_compact_size_def Let_def
    by (intro reads_bind rd.reads_take tail guard)
  then show ?thesis
  proof (rule reads_cong)
    fix v bs
    have "(\<exists>b as cs. (b = as \<and> length as = 1)
      \<and> (\<exists>x ds es. ?R (b ! 0) x ds \<and> (v = fst x \<and> \<not> fst x < snd x \<and> es = []) \<and> cs = ds @ es) \<and> bs = as @ cs)
      \<longleftrightarrow> (\<exists>f cs. bs = f # cs \<and> (\<exists>m. ?R f (v, m) cs \<and> \<not> v < m))"
      by (rule tagged_iff)
    also have "\<dots> \<longleftrightarrow> bs = compact_size v"
      unfolding shape compact_size_eq_iff [symmetric] using length_compact_size [of v]
      by (cases "compact_size v") auto
    finally show "(\<exists>b as cs. (b = as \<and> length as = 1)
      \<and> (\<exists>x ds es. ?R (b ! 0) x ds \<and> (v = fst x \<and> \<not> fst x < snd x \<and> es = []) \<and> cs = ds @ es) \<and> bs = as @ cs)
      \<longleftrightarrow> bs = compact_size v" .
  qed
qed

section \<open>Records\<close>

definition record_bytes :: "filter_record \<Rightarrow> bytes" where
  "record_bytes r = u64_le (fr_height r) @ fr_block_hash r @ compact_size (of_nat (length (fr_filter r))) @ fr_filter r"

definition record_ok :: "filter_record \<Rightarrow> bool" where
  "record_ok r \<longleftrightarrow> hash_ok (fr_block_hash r) \<and> length (fr_filter r) < 2 ^ 64"

lemma encode_record_append: "encode_record r out = out @ record_bytes r"
  unfolding encode_record_def record_bytes_def
  by (subst write_compact_size_append) simp

lemma fold_encode_record: "fold encode_record rs out = out @ concat (map record_bytes rs)"
  by (induction rs arbitrary: out) (simp_all add: encode_record_append)

lemma length_record_bytes: "record_ok r \<Longrightarrow> 41 \<le> length (record_bytes r)"
  using length_compact_size [of "of_nat (length (fr_filter r))"]
  by (simp add: record_bytes_def record_ok_def hash_ok_def)

lemma remaining_le:
  "reader_ok s \<Longrightarrow> \<not> n > of_nat (rd_remaining s) \<longleftrightarrow> unat n \<le> length (rd_rest s)" for n :: u64
  using rd_rest_small [of s] by (auto simp: rd_remaining_eq word_less_nat_alt unat_of_nat_small)

lemma remaining_zero: "reader_ok s \<Longrightarrow> rd_remaining s = 0 \<longleftrightarrow> rd_rest s = []"
  by (simp add: rd_remaining_eq)

lemma unat_len_iff: "(\<exists>n :: u64. k = unat n \<and> Q n) \<longleftrightarrow> k < 2 ^ 64 \<and> Q (of_nat k)"
proof
  assume "\<exists>n :: u64. k = unat n \<and> Q n"
  then show "k < 2 ^ 64 \<and> Q (of_nat k)" using unat_u64_lt by fastforce
next
  assume "k < 2 ^ 64 \<and> Q (of_nat k)"
  then show "\<exists>n :: u64. k = unat n \<and> Q n" by (intro exI [of _ "of_nat k"]) (simp add: unat_of_nat_small)
qed

lemma rreads_record: "rreads decode_record (\<lambda>r bs. record_ok r \<and> bs = record_bytes r)"
proof -
  let ?mk = "\<lambda>h b body. \<lparr> fr_height = h, fr_block_hash = b, fr_filter = body \<rparr>"
  have body: "rreads (sbind (sgets rd_remaining) (\<lambda>remaining.
      sbind (sguard (\<not> len > of_nat remaining) (Envelope ''record length exceeds batch'')) (\<lambda>_.
      sbind (rd_take (unat len)) (\<lambda>body. sreturn (?mk h b body)))))
      (\<lambda>v bs. v = ?mk h b bs \<and> length bs = unat len)" for len :: u64 and h b
    unfolding sgets_guard by (rule reads_floor [OF rd.reads_take_map, where n = "unat len"]) (simp, erule remaining_le)
  have "rreads decode_record (\<lambda>v bs. \<exists>h as cs. as = u64_le h \<and> (\<exists>b ds es. (ds = b \<and> hash_ok b)
      \<and> (\<exists>len fs gs. fs = compact_size len \<and> (v = ?mk h b gs \<and> length gs = unat len) \<and> es = fs @ gs)
      \<and> cs = ds @ es) \<and> bs = as @ cs)"
    unfolding decode_record_def
    by (intro reads_bind rreads_u64 rreads_hash rreads_compact_size body)
  then show ?thesis
  proof (rule reads_cong)
    fix v bs
    have "(\<exists>len gs. v = ?mk h b gs \<and> length gs = unat len \<and> es = compact_size len @ gs)
        \<longleftrightarrow> (\<exists>gs. v = ?mk h b gs \<and> length gs < 2 ^ 64 \<and> es = compact_size (of_nat (length gs)) @ gs)" for h b es
      using unat_len_iff [of "length (fr_filter v)" "\<lambda>n. es = compact_size n @ fr_filter v"] by (cases v) auto
    then show "(\<exists>h as cs. as = u64_le h \<and> (\<exists>b ds es. (ds = b \<and> hash_ok b)
      \<and> (\<exists>len fs gs. fs = compact_size len \<and> (v = ?mk h b gs \<and> length gs = unat len) \<and> es = fs @ gs)
      \<and> cs = ds @ es) \<and> bs = as @ cs) \<longleftrightarrow> record_ok v \<and> bs = record_bytes v"
      by (cases v) (auto simp: record_ok_def record_bytes_def)
  qed
qed

lemma rreads_records:
  "rreads (decode_records n)
     (\<lambda>rs bs. length rs = n \<and> (\<forall>r \<in> set rs. record_ok r) \<and> bs = concat (map record_bytes rs))"
proof (induction n)
  case 0
  show ?case unfolding decode_records.simps by (rule reads_cong [OF reads_return]) auto
next
  case (Suc n)
  show ?case
    unfolding decode_records.simps
    by (rule reads_cong [OF reads_bind [OF rreads_record reads_bind [OF Suc.IH reads_return]]])
       (auto simp: length_Suc_conv)
qed

lemma length_records: "\<forall>r \<in> set rs. record_ok r \<Longrightarrow> 41 * length rs \<le> length (concat (map record_bytes rs))"
  by (induction rs) (auto dest!: length_record_bytes)

section \<open>Batches\<close>

definition batch_head :: "filter_batch \<Rightarrow> bytes" where
  "batch_head b = MAGIC @ u16_le (fb_version b) @ fb_genesis b
     @ compact_size (of_nat (length (fb_profile b))) @ fb_profile b
     @ u64_le (fb_start_height b) @ fb_stop_block_hash b"

definition batch_ok :: "filter_batch \<Rightarrow> bool" where
  "batch_ok b \<longleftrightarrow> fb_version b = ENVELOPE_VERSION \<and> hash_ok (fb_genesis b)
     \<and> length (fb_profile b) \<le> 64 \<and> valid_utf8 (fb_profile b) \<and> hash_ok (fb_stop_block_hash b)
     \<and> length (fb_records b) \<le> 1000 \<and> (\<forall>r \<in> set (fb_records b). record_ok r)"

lemma encode_eq:
  "encode b = batch_head b @ compact_size (of_nat (length (fb_records b))) @ concat (map record_bytes (fb_records b))"
proof -
  let ?a = "MAGIC @ u16_le (fb_version b) @ fb_genesis b"
  let ?b = "(?a @ compact_size (of_nat (length (fb_profile b)))) @ fb_profile b @ u64_le (fb_start_height b)
    @ fb_stop_block_hash b"
  note steps = write_compact_size_append [of ?a] write_compact_size_append [of ?b]
  show ?thesis
    unfolding encode_def Let_def fold_encode_record steps batch_head_def by simp
qed

lemma le_numeral_iff: "\<not> n > numeral k \<longleftrightarrow> unat n \<le> unat (numeral k :: u64)" for n :: u64
  by (simp add: word_le_nat_alt not_less)

lemma reads_end_tail:
  "reads_end reader_ok rd_rest
     (sbind (sguard (\<not> n > MAX_RECORDS_PER_BATCH) (Envelope ''batch claims too many records'')) (\<lambda>_.
      sbind (sgets rd_remaining) (\<lambda>remaining.
      sbind (sguard (\<not> saturating_mul n 41 > of_nat remaining)
              (Envelope ''batch claims more records than it has bytes'')) (\<lambda>_.
      sbind (decode_records (unat n)) (\<lambda>records.
      sbind (sgets rd_remaining) (\<lambda>remaining.
      sbind (sguard (remaining = 0) (Envelope ''trailing bytes after the batch'')) (\<lambda>_.
      sreturn (g records))))))))
     (\<lambda>v bs. unat n \<le> 1000 \<and> (\<exists>rs. length rs = unat n \<and> (\<forall>r \<in> set rs. record_ok r)
        \<and> bs = concat (map record_bytes rs) \<and> v = g rs))" for n :: u64
proof (cases "unat n \<le> 1000")
  case False
  then have "\<not> \<not> n > MAX_RECORDS_PER_BATCH" by (simp add: MAX_RECORDS_PER_BATCH_def word_less_nat_alt)
  with False show ?thesis by (simp add: reads_end_def)
next
  case True
  let ?R = "\<lambda>v bs. \<exists>rs. length rs = unat n \<and> (\<forall>r \<in> set rs. record_ok r)
        \<and> bs = concat (map record_bytes rs) \<and> v = g rs"
  have last: "reads_end reader_ok rd_rest
      (sbind (sgets rd_remaining) (\<lambda>remaining.
       sbind (sguard (remaining = 0) (Envelope ''trailing bytes after the batch'')) (\<lambda>_. sreturn (g rs))))
      (\<lambda>v bs. v = g rs \<and> bs = [])" for rs
    unfolding sgets_guard by (rule reads_end_return) (rule remaining_zero)
  have recs: "reads_end reader_ok rd_rest (sbind (decode_records (unat n)) (\<lambda>records.
      sbind (sgets rd_remaining) (\<lambda>remaining.
      sbind (sguard (remaining = 0) (Envelope ''trailing bytes after the batch'')) (\<lambda>_.
      sreturn (g records))))) ?R"
    by (rule reads_end_cong [OF reads_end_bind [OF rreads_records last]]) auto
  have "unat (saturating_mul n 41) = 41 * unat n"
    using True by (simp add: unat_saturating_mul)
  then have "reads_end reader_ok rd_rest (sbind (sgets rd_remaining) (\<lambda>remaining.
      sbind (sguard (\<not> saturating_mul n 41 > of_nat remaining)
              (Envelope ''batch claims more records than it has bytes'')) (\<lambda>_.
      sbind (decode_records (unat n)) (\<lambda>records.
      sbind (sgets rd_remaining) (\<lambda>remaining.
      sbind (sguard (remaining = 0) (Envelope ''trailing bytes after the batch'')) (\<lambda>_.
      sreturn (g records))))))) ?R"
    unfolding sgets_guard [of rd_remaining "\<lambda>r. \<not> saturating_mul n 41 > of_nat r"]
    by (intro reads_end_floor [OF recs, where n = "unat (saturating_mul n 41)"])
       (auto simp: remaining_le not_less [symmetric] dest!: length_records)
  moreover have "\<not> n > MAX_RECORDS_PER_BATCH"
    using True by (simp add: MAX_RECORDS_PER_BATCH_def word_less_nat_alt)
  ultimately show ?thesis using True by (simp add: reads_end_def)
qed

definition batch_format :: "filter_batch \<Rightarrow> bytes \<Rightarrow> u64 \<Rightarrow> u64 \<Rightarrow> bool" where
  "batch_format b bs n m \<longleftrightarrow> fb_version b = ENVELOPE_VERSION \<and> hash_ok (fb_genesis b)
     \<and> unat n \<le> 64 \<and> length (fb_profile b) = unat n \<and> valid_utf8 (fb_profile b)
     \<and> hash_ok (fb_stop_block_hash b) \<and> unat m \<le> 1000 \<and> length (fb_records b) = unat m
     \<and> (\<forall>r \<in> set (fb_records b). record_ok r)
     \<and> bs = MAGIC @ u16_le (fb_version b) @ fb_genesis b @ compact_size n @ fb_profile b
           @ u64_le (fb_start_height b) @ fb_stop_block_hash b @ compact_size m
           @ concat (map record_bytes (fb_records b))"

lemma batch_format_ok: "batch_ok b \<Longrightarrow> \<exists>n m. batch_format b (encode b) n m"
  by (rule exI [of _ "of_nat (length (fb_profile b))"], rule exI [of _ "of_nat (length (fb_records b))"])
     (simp add: batch_format_def batch_ok_def encode_eq batch_head_def unat_of_nat_small)

lemma reads_end_batch: "reads_end reader_ok rd_rest decode_batch (\<lambda>b bs. batch_ok b \<and> bs = encode b)"
  unfolding decode_batch_def
  apply (rule reads_end_cong)
   apply (rule reads_end_tail | (rule reads_end_bind,
       rule rd.reads_take reads_guard rreads_u16 rreads_u64 rreads_hash rreads_compact_size))+
  apply (rule iffI)
  subgoal by (elim exE conjE) (simp add: batch_ok_def encode_eq batch_head_def word_le_nat_alt not_less)
  apply (elim conjE, drule batch_format_ok, elim exE)
  subgoal for b bs n m
    apply (cases b)
    apply (simp only: ex_simps(1,2) [symmetric] conj_assoc)
    apply (simp del: ex_simps add: batch_format_def)
    by (rule exI [of _ n], rule exI [of _ m]) (simp add: word_less_nat_alt)
  done

lemma decode_iff: "decode bs = Inr b \<longleftrightarrow> length bs \<le> MAX_BATCH_BYTES \<and> batch_ok b \<and> bs = encode b"
proof (cases "length bs \<le> MAX_BATCH_BYTES")
  case True
  then have ok: "reader_ok (reader_new bs)"
    by (simp add: reader_ok_def reader_new_def MAX_BATCH_BYTES_def)
  have "decode bs = Inr b \<longleftrightarrow> (\<exists>s. decode_batch (reader_new bs) = Inr (b, s))"
    using True by (auto simp: decode_def bindR_Inr_iff)
  also have "\<dots> \<longleftrightarrow> batch_ok b \<and> bs = encode b"
    unfolding reads_end_iff [OF reads_end_batch ok] by (simp add: rd_rest_def reader_new_def)
  finally show ?thesis using True by simp
qed (simp add: decode_def)

section \<open>No encoding is a prefix of another\<close>

lemma compact_size_cancel: "compact_size n @ a = compact_size m @ b \<longleftrightarrow> n = m \<and> a = b"
proof
  assume eq: "compact_size n @ a = compact_size m @ b"
  have "read_compact_size (compact_size n @ a) = Inr (n, length (compact_size n))"
    "read_compact_size (compact_size m @ b) = Inr (m, length (compact_size m))"
    by (simp_all add: read_compact_size_iff)
  then show "n = m \<and> a = b" using eq by simp
qed simp

lemma record_bytes_cancel:
  assumes "record_ok r" "record_ok r'" and "record_bytes r @ a = record_bytes r' @ b"
  shows "r = r' \<and> a = b"
proof -
  let ?n = "length (fr_filter r)" and ?n' = "length (fr_filter r')"
  from assms have eq: "fr_height r = fr_height r'" "fr_block_hash r = fr_block_hash r'"
    "compact_size (of_nat ?n) @ (fr_filter r @ a) = compact_size (of_nat ?n') @ (fr_filter r' @ b)"
    by (simp_all add: record_bytes_def record_ok_def hash_ok_def)
  then have "(of_nat ?n :: u64) = of_nat ?n'" and rest: "fr_filter r @ a = fr_filter r' @ b"
    by (simp_all only: compact_size_cancel)
  then have "?n = ?n'" using assms(1,2) of_nat_u64_inject [of ?n ?n'] by (simp add: record_ok_def)
  with rest eq show ?thesis by (cases r, cases r') simp
qed

lemma records_cancel:
  assumes "length rs = length rs'" "\<forall>r \<in> set rs. record_ok r" "\<forall>r \<in> set rs'. record_ok r"
    and "concat (map record_bytes rs) @ a = concat (map record_bytes rs') @ b"
  shows "rs = rs' \<and> a = b"
  using assms
proof (induction rs rs' rule: list_induct2)
  case (Cons r rs r' rs')
  have "record_bytes r @ (concat (map record_bytes rs) @ a) = record_bytes r' @ (concat (map record_bytes rs') @ b)"
    using Cons.prems(3) by simp
  then have "r = r' \<and> concat (map record_bytes rs) @ a = concat (map record_bytes rs') @ b"
    using Cons.prems(1,2) by (intro record_bytes_cancel) auto
  then show ?case using Cons by auto
qed simp

lemma encode_cancel:
  assumes ok: "batch_ok b" "batch_ok b'" and "encode b @ x = encode b' @ y"
  shows "b = b' \<and> x = y"
proof -
  let ?p = "fb_profile b" and ?p' = "fb_profile b'"
  have small: "length ?p < 2 ^ 64" "length ?p' < 2 ^ 64" "length (fb_records b) < 2 ^ 64" "length (fb_records b') < 2 ^ 64"
    using ok by (simp_all add: batch_ok_def)
  define t where "t c z = u64_le (fb_start_height c) @ fb_stop_block_hash c
      @ compact_size (of_nat (length (fb_records c))) @ concat (map record_bytes (fb_records c)) @ z" for c :: filter_batch and z
  have eq: "fb_version b = fb_version b'" "fb_genesis b = fb_genesis b'"
    "compact_size (of_nat (length ?p)) @ (?p @ t b x) = compact_size (of_nat (length ?p')) @ (?p' @ t b' y)"
    using assms by (simp_all add: encode_eq batch_head_def batch_ok_def hash_ok_def t_def)
  then have "length ?p = length ?p'" "?p @ t b x = ?p' @ t b' y"
    by (simp_all only: compact_size_cancel of_nat_u64_inject [OF small(1,2)])
  then have p: "?p = ?p'" "t b x = t b' y" by simp_all
  have "length (fb_stop_block_hash b) = length (fb_stop_block_hash b')"
    using ok by (simp add: batch_ok_def hash_ok_def)
  moreover have "u64_le (fb_start_height b) = u64_le (fb_start_height b')
    \<and> fb_stop_block_hash b @ compact_size (of_nat (length (fb_records b))) @ concat (map record_bytes (fb_records b)) @ x
     = fb_stop_block_hash b' @ compact_size (of_nat (length (fb_records b'))) @ concat (map record_bytes (fb_records b')) @ y"
    using p(2) unfolding t_def by (rule append_cancel) simp
  ultimately have q: "fb_start_height b = fb_start_height b'" "fb_stop_block_hash b = fb_stop_block_hash b'"
    "compact_size (of_nat (length (fb_records b))) @ (concat (map record_bytes (fb_records b)) @ x)
       = compact_size (of_nat (length (fb_records b'))) @ (concat (map record_bytes (fb_records b')) @ y)"
    using append_cancel [of "fb_stop_block_hash b" _ "fb_stop_block_hash b'"] u64_le_inject by blast+
  then have "length (fb_records b) = length (fb_records b')"
    "concat (map record_bytes (fb_records b)) @ x = concat (map record_bytes (fb_records b')) @ y"
    by (simp_all only: compact_size_cancel of_nat_u64_inject [OF small(3,4)])
  then have "fb_records b = fb_records b' \<and> x = y"
    using ok unfolding batch_ok_def by (intro records_cancel) blast+
  then show ?thesis using eq(1,2) p(1) q(1,2) by (intro conjI filter_batch.equality) simp_all
qed

section \<open>Properties\<close>

text \<open>
  C6. The envelope codec is a bijection between the well-formed batches within the limits and the
  byte strings it accepts: \<open>decode bs\<close> returns \<open>b\<close> if and only if \<open>bs\<close> is \<open>encode b\<close>, fits the byte limit,
  and \<open>b\<close> has the supported version, a UTF-8 profile of at most 64 bytes and at most 1000 records. So
  decoding an encoding gives the batch back, re-encoding a decoded batch gives the same bytes, and a
  non-canonical length prefix anywhere in the message is refused.
\<close>

theorem envelope_roundtrip:
  "decode bs = Inr b \<longleftrightarrow>
     bs = encode b \<and> length (encode b) \<le> MAX_BATCH_BYTES
     \<and> fb_version b = ENVELOPE_VERSION \<and> hash_ok (fb_genesis b) \<and> hash_ok (fb_stop_block_hash b)
     \<and> length (fb_profile b) \<le> 64 \<and> valid_utf8 (fb_profile b)
     \<and> length (fb_records b) \<le> unat MAX_RECORDS_PER_BATCH
     \<and> list_all record_ok (fb_records b)"
  unfolding decode_iff batch_ok_def by (auto simp: list_all_iff MAX_RECORDS_PER_BATCH_def)

text \<open>
  A batch is never mistaken for a longer or shorter one: whatever is appended to an accepted
  envelope makes it an error, and every strict prefix of one is an error.
\<close>

lemma envelope_prefix_free:
  assumes "decode bs = Inr b"
  shows "(\<forall>x. x \<noteq> [] \<longrightarrow> (\<exists>e. decode (bs @ x) = Inl e)) \<and> (\<forall>k < length bs. \<exists>e. decode (take k bs) = Inl e)"
proof -
  have clash: False if "decode cs = Inr b1" "decode (cs @ y) = Inr b2" "y \<noteq> []" for cs y b1 b2
    using that encode_cancel [of b1 b2 y "[]"] by (auto simp: decode_iff)
  have "\<exists>e. decode (bs @ x) = Inl e" if "x \<noteq> []" for x
    using clash [OF assms] that by (cases "decode (bs @ x)") auto
  moreover have "\<exists>e. decode (take k bs) = Inl e" if "k < length bs" for k
    using clash [of "take k bs" _ "drop k bs"] assms that by (cases "decode (take k bs)") auto
  ultimately show ?thesis by blast
qed

definition sample_batch :: filter_batch where
  "sample_batch = \<lparr> fb_version = 1, fb_genesis = replicate 32 1, fb_profile = PROFILE,
     fb_start_height = 5, fb_stop_block_hash = replicate 32 2,
     fb_records = [\<lparr> fr_height = 5, fr_block_hash = replicate 32 2, fr_filter = [0] \<rparr>] \<rparr>"

lemma decode_sample: "decode (encode sample_batch) = Inr sample_batch"
  by code_simp

end
