(* ===== verification/Filter_Client.thy ===== *)
theory Filter_Client
  imports Filter_Matching Filter_Envelope
begin

text \<open>
  The wallet side of range delivery: what a request and its charges are (\<open>transport.rs\<close>, \<open>http.rs\<close>),
  the wallet's accepted chain, \<open>check_batch\<close> and \<open>sync_range\<close> (\<open>client.rs\<close>).

  A \<open>FilterTransport\<close> is a function \<open>fetch\<close> from its state and a request to the result and its next
  state. The two methods of the \<open>AcceptedChain\<close> trait are passed as functions; the trait's contract
  is the locale \<open>accepted_chain\<close>, interpreted on \<open>ChainMap\<close>. \<open>sync_range\<close> loops until the next height
  passes the stop height; \<open>sync_loop\<close> carries fuel, \<open>None\<close> is running out of it, and one unit for each
  height of the range is shown to be enough.
\<close>

section \<open>Requests and charges\<close>

record range_request =
  rq_genesis :: block_hash
  rq_profile :: bytes
  rq_start_height :: u64
  rq_stop_block_hash :: block_hash

record byte_charges =
  received :: u64
  sent :: u64
  requests :: u64

definition no_charges :: byte_charges where
  "no_charges = \<lparr> received = 0, sent = 0, requests = 0 \<rparr>"

definition charges_add :: "byte_charges \<Rightarrow> byte_charges \<Rightarrow> byte_charges" where
  "charges_add a b = \<lparr> received = received a + received b, sent = sent a + sent b,
     requests = requests a + requests b \<rparr>"

definition charges_total :: "byte_charges \<Rightarrow> u64" where
  "charges_total c = received c + sent c"

type_synonym 't transport =
  "'t \<Rightarrow> range_request \<Rightarrow> (filter_error + (filter_batch \<times> byte_charges)) \<times> 't"

text \<open>\<open>FileTransport\<close>: the directory is the map from a start height to the bytes of its batch file.\<close>

definition file_fetch_range :: "(u64 \<rightharpoonup> bytes) transport" where
  "file_fetch_range files request =
     (bindR (ok_or (Response ''batch file'') (files (rq_start_height request))) (\<lambda>bs.
        let charges = \<lparr> received = of_nat (length bs), sent = 0, requests = 1 \<rparr> in
        bindR (decode bs) (\<lambda>batch. Inr (batch, charges))), files)"

text \<open>\<open>HttpTransport\<close>: \<open>http_get\<close> stands for the HTTP client, \<open>url_len\<close> for the length of the URL.\<close>

definition http_fetch_range ::
  "('t \<Rightarrow> u64 \<Rightarrow> block_hash \<Rightarrow> (filter_error + bytes) \<times> 't) \<Rightarrow> (u64 \<Rightarrow> block_hash \<Rightarrow> u64) \<Rightarrow> 't transport" where
  "http_fetch_range http_get url_len net request =
     (let (r, net') = http_get net (rq_start_height request) (rq_stop_block_hash request) in
      (bindR r (\<lambda>bs.
         let charges = \<lparr> received = of_nat (length bs),
               sent = url_len (rq_start_height request) (rq_stop_block_hash request), requests = 1 \<rparr> in
         bindR (decode bs) (\<lambda>batch. Inr (batch, charges))), net'))"

section \<open>The accepted chain\<close>

locale accepted_chain =
  fixes chain_ok :: "'c \<Rightarrow> bool"
    and block_hash_at :: "'c \<Rightarrow> u64 \<Rightarrow> block_hash option"
    and height_of :: "'c \<Rightarrow> block_hash \<Rightarrow> u64 option"
  assumes height_of_sound: "chain_ok c \<Longrightarrow> height_of c h = Some n \<Longrightarrow> block_hash_at c n = Some h"
    and height_of_complete: "chain_ok c \<Longrightarrow> block_hash_at c n = Some h \<Longrightarrow> height_of c h \<noteq> None"
begin

lemma height_of_iff: "chain_ok c \<Longrightarrow> (\<exists>n. height_of c h = Some n) \<longleftrightarrow> (\<exists>n. block_hash_at c n = Some h)"
  using height_of_sound height_of_complete by blast

end

record chain_map =
  by_height :: "(u64, block_hash) btree"

definition cm_insert :: "u64 \<Rightarrow> block_hash \<Rightarrow> chain_map \<Rightarrow> chain_map" where
  "cm_insert height h c = c \<lparr> by_height := bt_insert height h (by_height c) \<rparr>"

definition cm_rollback_to :: "u64 \<Rightarrow> chain_map \<Rightarrow> chain_map" where
  "cm_rollback_to height c = c \<lparr> by_height := bt_retain (\<lambda>at _. at \<le> height) (by_height c) \<rparr>"

definition cm_tip :: "chain_map \<Rightarrow> (u64 \<times> block_hash) option" where
  "cm_tip c = (if by_height c = [] then None else Some (last (by_height c)))"

definition cm_block_hash :: "chain_map \<Rightarrow> u64 \<Rightarrow> block_hash option" where
  "cm_block_hash c height = map_of (by_height c) height"

definition cm_height_of :: "chain_map \<Rightarrow> block_hash \<Rightarrow> u64 option" where
  "cm_height_of c h = map_option fst (List.find (\<lambda>(_, candidate). candidate = h) (by_height c))"

definition cm_ok :: "chain_map \<Rightarrow> bool" where
  "cm_ok c \<longleftrightarrow> bt_ok (by_height c)"

lemma cm_ok_insert: "cm_ok c \<Longrightarrow> cm_ok (cm_insert n h c)"
  by (simp add: cm_ok_def cm_insert_def)

lemma cm_ok_rollback: "cm_ok c \<Longrightarrow> cm_ok (cm_rollback_to n c)"
  by (simp add: cm_ok_def cm_rollback_to_def)

lemma cm_block_hash_insert:
  "cm_ok c \<Longrightarrow> cm_block_hash (cm_insert n h c) m = (if m = n then Some h else cm_block_hash c m)"
  by (simp add: cm_ok_def cm_block_hash_def cm_insert_def)

lemma cm_block_hash_rollback:
  "cm_ok c \<Longrightarrow> cm_block_hash (cm_rollback_to n c) m = (if m \<le> n then cm_block_hash c m else None)"
  by (auto simp: cm_ok_def cm_block_hash_def cm_rollback_to_def map_of_bt_retain split: option.split)

interpretation cm: accepted_chain cm_ok cm_block_hash cm_height_of
proof
  fix c h n
  assume "cm_ok c" "cm_height_of c h = Some n"
  then show "cm_block_hash c n = Some h"
    by (auto simp: cm_height_of_def cm_block_hash_def cm_ok_def bt_get_iff find_Some_iff)
       (metis nth_mem)
next
  fix c n h
  assume "cm_ok c" "cm_block_hash c n = Some h"
  then show "cm_height_of c h \<noteq> None"
    by (auto simp: cm_height_of_def cm_block_hash_def cm_ok_def bt_get_iff find_None_iff)
qed

section \<open>Checking a batch\<close>

record checked_record =
  cr_height :: u64
  cr_block_hash :: block_hash
  cr_filter :: validated_filter

definition check_record ::
  "(u64 \<Rightarrow> block_hash option) \<Rightarrow> filter_limits \<Rightarrow> u64 \<Rightarrow> nat \<times> filter_record \<Rightarrow> filter_error + checked_record" where
  "check_record block_hash limits start_height = (\<lambda>(offset, rec).
     let expected_height = start_height + of_nat offset in
     if fr_height rec \<noteq> expected_height then Inl (Response ''record is at the wrong height'')
     else bindR (ok_or (Response ''wallet has not accepted a block at height'') (block_hash (fr_height rec)))
       (\<lambda>accepted.
     if accepted \<noteq> fr_block_hash rec then Inl (Response ''record is on a different branch'')
     else bindR (validate_filter (fr_filter rec) limits) (\<lambda>f.
     Inr \<lparr> cr_height = fr_height rec, cr_block_hash = fr_block_hash rec, cr_filter = f \<rparr>)))"

definition check_batch ::
  "(u64 \<Rightarrow> block_hash option) \<Rightarrow> (block_hash \<Rightarrow> u64 option) \<Rightarrow> filter_batch \<Rightarrow> range_request \<Rightarrow> filter_limits
     \<Rightarrow> filter_error + checked_record list" where
  "check_batch block_hash height_of batch request limits =
     (if fb_genesis batch \<noteq> rq_genesis request then Inl (Response ''batch is for a different chain'')
      else if fb_profile batch \<noteq> rq_profile request then Inl (Response ''batch profile is not the requested'')
      else if fb_start_height batch \<noteq> rq_start_height request then Inl (Response ''batch starts elsewhere'')
      else if fb_stop_block_hash batch \<noteq> rq_stop_block_hash request
        then Inl (Response ''batch terminates at a different block'')
      else bindR (ok_or (Response ''terminal block is not on the accepted chain'')
                   (height_of (rq_stop_block_hash request))) (\<lambda>stop_height.
      if stop_height < rq_start_height request
        then Inl (Response ''terminal block is below the requested start'')
      else let wanted = min (stop_height - rq_start_height request + 1) MAX_RECORDS_PER_BATCH in
      if of_nat (length (fb_records batch)) \<noteq> wanted then Inl (Response ''batch has the wrong record count'')
      else mapR (check_record block_hash limits (rq_start_height request))
             (List.enumerate 0 (fb_records batch))))"

section \<open>Synchronizing a range\<close>

record block_match =
  bm_height :: u64
  bm_block_hash :: block_hash
  bm_script_indices :: "nat list"

record sync_outcome =
  so_matches :: "block_match list"
  so_covered_through :: u64
  so_covered_block_hash :: block_hash
  so_charges :: byte_charges
  so_filters_checked :: u64

definition sync_record ::
  "(u64 \<Rightarrow> u64 \<Rightarrow> bytes \<Rightarrow> u64) \<Rightarrow> script_bytes list \<Rightarrow> checked_record \<Rightarrow> sync_outcome
     \<Rightarrow> filter_error + sync_outcome" where
  "sync_record siphash ws rec st =
     (let mapped = map_wallet_scripts siphash (cr_filter rec) (cr_block_hash rec) ws in
      bindR (match_mapped (cr_filter rec) mapped) (\<lambda>indices.
      let matches = (if indices \<noteq> []
            then so_matches st @ [\<lparr> bm_height = cr_height rec, bm_block_hash = cr_block_hash rec,
                                     bm_script_indices = indices \<rparr>]
            else so_matches st) in
      Inr (st \<lparr> so_matches := matches, so_filters_checked := so_filters_checked st + 1,
                so_covered_through := cr_height rec, so_covered_block_hash := cr_block_hash rec \<rparr>)))"

fun sync_loop ::
  "nat \<Rightarrow> 't transport \<Rightarrow> (u64 \<Rightarrow> block_hash option) \<Rightarrow> (block_hash \<Rightarrow> u64 option)
     \<Rightarrow> (u64 \<Rightarrow> u64 \<Rightarrow> bytes \<Rightarrow> u64) \<Rightarrow> script_bytes list \<Rightarrow> filter_limits \<Rightarrow> range_request \<Rightarrow> u64
     \<Rightarrow> u64 \<Rightarrow> sync_outcome \<Rightarrow> 't \<Rightarrow> ((filter_error + sync_outcome) \<times> 't) option" where
  "sync_loop fuel fetch bh ho siphash ws limits request stop_height nxt st t =
     (if nxt \<le> stop_height then
        (case fuel of 0 \<Rightarrow> None
         | Suc fuel' \<Rightarrow>
           let batch_request = request \<lparr> rq_start_height := nxt \<rparr> in
           (case fetch t batch_request of
              (Inl e, t') \<Rightarrow> Some (Inl e, t')
            | (Inr (batch, batch_charges), t') \<Rightarrow>
              let st = st \<lparr> so_charges := charges_add (so_charges st) batch_charges \<rparr> in
              (case check_batch bh ho batch batch_request limits of
                 Inl e \<Rightarrow> Some (Inl e, t')
               | Inr checked \<Rightarrow>
                 (case foldR (sync_record siphash ws) checked st of
                    Inl e \<Rightarrow> Some (Inl e, t')
                  | Inr st \<Rightarrow> sync_loop fuel' fetch bh ho siphash ws limits request stop_height
                               (nxt + of_nat (length checked)) st t'))))
      else Some (Inr st, t))"

declare sync_loop.simps [simp del]

definition sync_range ::
  "nat \<Rightarrow> 't transport \<Rightarrow> (u64 \<Rightarrow> block_hash option) \<Rightarrow> (block_hash \<Rightarrow> u64 option)
     \<Rightarrow> (u64 \<Rightarrow> u64 \<Rightarrow> bytes \<Rightarrow> u64) \<Rightarrow> range_request \<Rightarrow> script_bytes list \<Rightarrow> filter_limits
     \<Rightarrow> 't \<Rightarrow> ((filter_error + sync_outcome) \<times> 't) option" where
  "sync_range fuel fetch bh ho siphash request ws limits t =
     (case ho (rq_stop_block_hash request) of
        None \<Rightarrow> Some (Inl (Response ''terminal block is not on the accepted chain''), t)
      | Some stop_height \<Rightarrow>
        sync_loop fuel fetch bh ho siphash ws limits request stop_height (rq_start_height request)
          \<lparr> so_matches = [], so_covered_through = saturating_sub (rq_start_height request) 1,
            so_covered_block_hash = rq_stop_block_hash request, so_charges = no_charges,
            so_filters_checked = 0 \<rparr> t)"

section \<open>What a checked batch guarantees\<close>

definition record_checks ::
  "(u64 \<Rightarrow> block_hash option) \<Rightarrow> filter_limits \<Rightarrow> u64 \<Rightarrow> filter_record \<Rightarrow> checked_record \<Rightarrow> bool" where
  "record_checks bh L n r c \<longleftrightarrow>
     fr_height r = n \<and> bh n = Some (fr_block_hash r) \<and> validate_filter (fr_filter r) L = Inr (cr_filter c)
     \<and> cr_height c = n \<and> cr_block_hash c = fr_block_hash r"

lemma check_record_iff:
  "check_record bh L start (i, r) = Inr c \<longleftrightarrow> record_checks bh L (start + of_nat i) r c"
  by (cases c) (auto simp: check_record_def record_checks_def bindR_Inr_iff Let_def)

lemma check_records_iff:
  "mapR (check_record bh L start) (List.enumerate 0 rs) = Inr cs
     \<longleftrightarrow> length cs = length rs \<and> (\<forall>i < length rs. record_checks bh L (start + of_nat i) (rs ! i) (cs ! i))"
  unfolding mapR_Inr_iff list_all2_conv_all_nth
  by (auto simp: nth_enumerate_eq check_record_iff)

definition batch_matches :: "filter_batch \<Rightarrow> range_request \<Rightarrow> bool" where
  "batch_matches b r \<longleftrightarrow> fb_genesis b = rq_genesis r \<and> fb_profile b = rq_profile r
     \<and> fb_start_height b = rq_start_height r \<and> fb_stop_block_hash b = rq_stop_block_hash r"

definition wanted_records :: "u64 \<Rightarrow> u64 \<Rightarrow> u64" where
  "wanted_records start stop = min (stop - start + 1) MAX_RECORDS_PER_BATCH"

lemma check_batch_iff:
  "check_batch bh ho b r L = Inr cs \<longleftrightarrow>
     batch_matches b r \<and> (\<exists>stop. ho (rq_stop_block_hash r) = Some stop \<and> rq_start_height r \<le> stop
       \<and> of_nat (length (fb_records b)) = wanted_records (rq_start_height r) stop)
     \<and> length cs = length (fb_records b)
     \<and> (\<forall>i < length cs. record_checks bh L (rq_start_height r + of_nat i) (fb_records b ! i) (cs ! i))"
  unfolding check_batch_def batch_matches_def wanted_records_def
  by (auto simp: bindR_Inr_iff Let_def check_records_iff not_less)

lemma unat_wanted:
  assumes "start \<le> stop" and "unat stop < 2 ^ 64 - 1"
  shows "unat (wanted_records start stop) = min (unat stop - unat start + 1) 1000"
proof -
  have "unat (stop - start + 1) = unat stop - unat start + 1"
    using assms by (subst unat_add_nowrap) (simp_all add: unat_minus_nowrap)
  then show ?thesis
    by (auto simp: wanted_records_def min_def MAX_RECORDS_PER_BATCH_def word_le_nat_alt)
qed

lemma sync_record_eq:
  assumes "sorted (vf_values (cr_filter c))"
  shows "sync_record siphash ws c st =
     Inr (st \<lparr> so_matches := so_matches st @
                (let ms = match_reference siphash (cr_filter c) (cr_block_hash c) ws in
                 if ms \<noteq> [] then [\<lparr> bm_height = cr_height c, bm_block_hash = cr_block_hash c,
                                     bm_script_indices = ms \<rparr>] else []),
              so_filters_checked := so_filters_checked st + 1,
              so_covered_through := cr_height c, so_covered_block_hash := cr_block_hash c \<rparr>)"
  using match_scripts_eq [OF assms, of siphash "cr_block_hash c" ws]
  by (auto simp: sync_record_def match_scripts_def Let_def)

definition block_matches ::
  "(u64 \<Rightarrow> u64 \<Rightarrow> bytes \<Rightarrow> u64) \<Rightarrow> script_bytes list \<Rightarrow> checked_record list \<Rightarrow> block_match list" where
  "block_matches siphash ws cs =
     concat (map (\<lambda>c. let ms = match_reference siphash (cr_filter c) (cr_block_hash c) ws in
        if ms \<noteq> [] then [\<lparr> bm_height = cr_height c, bm_block_hash = cr_block_hash c,
                             bm_script_indices = ms \<rparr>] else []) cs)"

lemma block_matches_append: "block_matches s ws (xs @ ys) = block_matches s ws xs @ block_matches s ws ys"
  by (simp add: block_matches_def)

lemma sync_records_eq:
  assumes "\<forall>c \<in> set cs. sorted (vf_values (cr_filter c))"
  shows "foldR (sync_record siphash ws) cs st =
     Inr (st \<lparr> so_matches := so_matches st @ block_matches siphash ws cs,
              so_filters_checked := so_filters_checked st + of_nat (length cs),
              so_covered_through := (if cs = [] then so_covered_through st else cr_height (last cs)),
              so_covered_block_hash := (if cs = [] then so_covered_block_hash st else cr_block_hash (last cs)) \<rparr>)"
  using assms
proof (induction cs arbitrary: st)
  case Nil
  then show ?case by (simp add: block_matches_def)
next
  case (Cons c cs)
  then show ?case
    by (simp add: sync_record_eq block_matches_def add.assoc)
qed

section \<open>The synchronization loop\<close>

text \<open>The batches the transport delivers, each asked for from the height after the last record of the one before.\<close>

inductive fetched :: "'t transport \<Rightarrow> range_request \<Rightarrow> u64 \<Rightarrow> 't \<Rightarrow> filter_batch list \<Rightarrow> 't \<Rightarrow> bool" for fetch r where
  no_more: "fetched fetch r nxt t [] t"
| one_more: "fetch t (r \<lparr> rq_start_height := nxt \<rparr>) = (Inr (b, charges), t1)
    \<Longrightarrow> fetched fetch r (nxt + of_nat (length (fb_records b))) t1 bs t' \<Longrightarrow> fetched fetch r nxt t (b # bs) t'"

definition batch_records :: "filter_batch list \<Rightarrow> filter_record list" where
  "batch_records bs = concat (map fb_records bs)"

definition records_checked ::
  "(u64 \<Rightarrow> block_hash option) \<Rightarrow> filter_limits \<Rightarrow> u64 \<Rightarrow> filter_record list \<Rightarrow> checked_record list \<Rightarrow> bool" where
  "records_checked bh L n rs cs \<longleftrightarrow>
     length cs = length rs \<and> (\<forall>i < length rs. record_checks bh L (n + of_nat i) (rs ! i) (cs ! i))"

lemma records_checked_append:
  assumes "records_checked bh L n rs cs" and "records_checked bh L (n + of_nat (length rs)) qs ds"
  shows "records_checked bh L n (rs @ qs) (cs @ ds)"
proof -
  have len: "length cs = length rs" "length ds = length qs" using assms by (simp_all add: records_checked_def)
  have "record_checks bh L (n + of_nat i) ((rs @ qs) ! i) ((cs @ ds) ! i)" if i: "i < length (rs @ qs)" for i
  proof (cases "i < length rs")
    case True
    then show ?thesis using assms(1) len by (simp add: records_checked_def nth_append)
  next
    case False
    then have "(n + of_nat (length rs)) + of_nat (i - length rs) = n + of_nat i"
      by (simp add: add.assoc flip: of_nat_add)
    then show ?thesis using False i len assms(2) [unfolded records_checked_def, THEN conjunct2, rule_format, of "i - length rs"]
      by (simp add: nth_append)
  qed
  then show ?thesis using len by (simp add: records_checked_def)
qed

text \<open>One accepted batch: at least one record, never past the stop height.\<close>

lemma checked_batch_step:
  assumes "check_batch bh ho b (r \<lparr> rq_start_height := nxt \<rparr>) L = Inr cs"
    and "ho (rq_stop_block_hash r) = Some stop" and "unat stop < 2 ^ 64 - 1"
    and "length (fb_records b) < 2 ^ 64"
  shows "0 < length cs" and "unat nxt + length cs \<le> unat stop + 1"
    and "unat (nxt + of_nat (length cs)) = unat nxt + length cs" and "records_checked bh L nxt (fb_records b) cs"
proof -
  have c: "nxt \<le> stop" "of_nat (length (fb_records b)) = wanted_records nxt stop" "length cs = length (fb_records b)"
    "\<forall>i < length cs. record_checks bh L (nxt + of_nat i) (fb_records b ! i) (cs ! i)"
    using assms(1,2) by (auto simp: check_batch_iff)
  have "length cs = unat (wanted_records nxt stop)"
    using c(2,3) assms(4) unat_of_nat_u64 by metis
  then have len: "length cs = min (unat stop - unat nxt + 1) 1000"
    using unat_wanted [OF c(1) assms(3)] by simp
  then show "0 < length cs" by simp
  show le: "unat nxt + length cs \<le> unat stop + 1"
    using len c(1) by (simp add: word_le_nat_alt)
  then show "unat (nxt + of_nat (length cs)) = unat nxt + length cs"
  proof -
    have "length cs < 2 ^ 64" using len by simp
    then have "unat (of_nat (length cs) :: u64) = length cs" by (rule unat_of_nat_u64)
    with le assms(3) show ?thesis using unat_add_nowrap [of nxt "of_nat (length cs)"] by simp
  qed
  show "records_checked bh L nxt (fb_records b) cs" using c(3,4) by (simp add: records_checked_def)
qed

lemma records_checked_sorted:
  assumes "records_checked bh L n rs cs" and "max_bytes L < 2 ^ 64"
  shows "\<forall>c \<in> set cs. sorted (vf_values (cr_filter c))"
proof
  fix c
  assume "c \<in> set cs"
  then obtain i where "i < length cs" "c = cs ! i" by (auto simp: in_set_conv_nth)
  then have "validate_filter (fr_filter (rs ! i)) L = Inr (cr_filter c)"
    using assms(1) by (simp add: records_checked_def record_checks_def)
  then show "sorted (vf_values (cr_filter c))" using validated_sorted assms(2) by metis
qed

lemma sync_loop_covers:
  assumes "sync_loop fuel fetch bh ho siphash ws L r stop nxt st t = Some (Inr out, t')"
    and "ho (rq_stop_block_hash r) = Some stop" and "unat stop < 2 ^ 64 - 1" and "max_bytes L < 2 ^ 64"
    and "unat nxt \<le> unat stop + 1"
    and small: "\<And>t q b c t'. fetch t q = (Inr (b, c), t') \<Longrightarrow> length (fb_records b) < 2 ^ 64"
  shows "\<exists>bs cs. fetched fetch r nxt t bs t' \<and> length cs = unat stop + 1 - unat nxt \<and> records_checked bh L nxt (batch_records bs) cs
     \<and> so_matches out = so_matches st @ block_matches siphash ws cs
     \<and> so_filters_checked out = so_filters_checked st + of_nat (length cs)
     \<and> so_covered_through out = (if cs = [] then so_covered_through st else cr_height (last cs))
     \<and> so_covered_block_hash out = (if cs = [] then so_covered_block_hash st else cr_block_hash (last cs))"
  using assms(1,5)
proof (induction fuel arbitrary: nxt st t)
  case (0 nxt st t)
  then have "\<not> nxt \<le> stop" "out = st" by (auto simp: sync_loop.simps split: if_splits)
  moreover have "t = t'" using 0 by (auto simp: sync_loop.simps split: if_splits)
  ultimately show ?case
    by (intro exI [of _ "[]"]) (auto simp: records_checked_def batch_records_def block_matches_def word_le_nat_alt intro: fetched.no_more)
next
  case (Suc fuel nxt st t)
  show ?case
  proof (cases "nxt \<le> stop")
    case False
    then have "out = st" "t = t'" using Suc.prems(1) by (auto simp: sync_loop.simps split: if_splits)
    then show ?thesis using False
      by (intro exI [of _ "[]"]) (auto simp: records_checked_def batch_records_def block_matches_def word_le_nat_alt intro: fetched.no_more)
  next
    case True
    let ?rq = "r \<lparr> rq_start_height := nxt \<rparr>"
    obtain b c t1 cs st1 where
      f: "fetch t ?rq = (Inr (b, c), t1)" and chk: "check_batch bh ho b ?rq L = Inr cs"
      and st1: "foldR (sync_record siphash ws) cs (st \<lparr> so_charges := charges_add (so_charges st) c \<rparr>) = Inr st1"
      and rec: "sync_loop fuel fetch bh ho siphash ws L r stop (nxt + of_nat (length cs)) st1 t1 = Some (Inr out, t')"
      using Suc.prems(1) True
      by (subst (asm) sync_loop.simps) (auto simp: Let_def split: prod.splits sum.splits)
    note step = checked_batch_step [OF chk assms(2,3) small [OF f]]
    note eq = sync_records_eq [OF records_checked_sorted [OF step(4) assms(4)], of siphash ws]
    have len: "length (fb_records b) = length cs" using step(4) by (simp add: records_checked_def)
    obtain bs ds where ds: "length ds = unat stop + 1 - unat (nxt + of_nat (length cs))"
      "records_checked bh L (nxt + of_nat (length cs)) (batch_records bs) ds"
      "so_matches out = so_matches st1 @ block_matches siphash ws ds"
      "so_filters_checked out = so_filters_checked st1 + of_nat (length ds)"
      "so_covered_through out = (if ds = [] then so_covered_through st1 else cr_height (last ds))"
      "so_covered_block_hash out = (if ds = [] then so_covered_block_hash st1 else cr_block_hash (last ds))"
      "fetched fetch r (nxt + of_nat (length cs)) t1 bs t'"
      using Suc.IH [OF rec] step(2,3) by auto
    show ?thesis
    proof (intro exI [of _ "b # bs"] exI [of _ "cs @ ds"] conjI)
      show "length (cs @ ds) = unat stop + 1 - unat nxt" using ds(1) step(2,3) by simp
      show "fetched fetch r nxt t (b # bs) t'" using fetched.one_more [where fetch = fetch and r = r, OF f] ds(7) len by simp
      show "records_checked bh L nxt (batch_records (b # bs)) (cs @ ds)"
        using records_checked_append [OF step(4)] ds(2) len by (simp add: batch_records_def)
    qed (use ds st1 eq step(1) in \<open>auto simp: block_matches_append add.assoc\<close>)
  qed
qed

lemma sync_loop_returns:
  assumes "ho (rq_stop_block_hash r) = Some stop" and "unat stop < 2 ^ 64 - 1"
    and small: "\<And>t q b c t'. fetch t q = (Inr (b, c), t') \<Longrightarrow> length (fb_records b) < 2 ^ 64"
    and "unat stop + 1 - unat nxt \<le> fuel"
  shows "sync_loop fuel fetch bh ho siphash ws L r stop nxt st t \<noteq> None"
  using assms(4)
proof (induction fuel arbitrary: nxt st t)
  case (0 nxt st t)
  then have "\<not> nxt \<le> stop" by (simp add: word_le_nat_alt)
  then show ?case by (simp add: sync_loop.simps)
next
  case (Suc fuel nxt st t)
  let ?rq = "r \<lparr> rq_start_height := nxt \<rparr>"
  have "sync_loop fuel fetch bh ho siphash ws L r stop (nxt + of_nat (length cs)) st1 t1 \<noteq> None"
    if "fetch t ?rq = (Inr (b, c), t1)" "check_batch bh ho b ?rq L = Inr cs" for b c t1 cs st1
  proof (rule Suc.IH)
    show "unat stop + 1 - unat (nxt + of_nat (length cs)) \<le> fuel"
      using checked_batch_step(1,3) [OF that(2) assms(1,2) small [OF that(1)]] Suc.prems by linarith
  qed
  then show ?case
    by (subst sync_loop.simps) (auto simp: Let_def split: prod.splits sum.splits)
qed

lemma file_fetch_small: "file_fetch_range files q = (Inr (b, c), files') \<Longrightarrow> length (fb_records b) < 2 ^ 64"
  by (auto simp: file_fetch_range_def bindR_Inr_iff Let_def decode_iff batch_ok_def)

lemma http_fetch_small: "http_fetch_range get url_len net q = (Inr (b, c), net') \<Longrightarrow> length (fb_records b) < 2 ^ 64"
  by (auto simp: http_fetch_range_def bindR_Inr_iff Let_def decode_iff batch_ok_def split: prod.splits)

section \<open>Properties\<close>

text \<open>
  C8. \<open>check_batch\<close> accepts a batch exactly when it is the one asked for: same chain, profile, start and
  stop block; the stop block is on the accepted chain at or above the start; there are exactly
  \<open>min (stop - start + 1) 1000\<close> records; and the record at position \<open>i\<close> is at height \<open>start + i\<close>, carries the
  hash the wallet itself accepted at that height, and its filter passes validation. The result holds,
  in order, those heights and hashes with the validated filters.
\<close>

theorem check_batch_exact:
  "check_batch bh ho b r L = Inr cs \<longleftrightarrow>
     fb_genesis b = rq_genesis r \<and> fb_profile b = rq_profile r
     \<and> fb_start_height b = rq_start_height r \<and> fb_stop_block_hash b = rq_stop_block_hash r
     \<and> (\<exists>stop. ho (rq_stop_block_hash r) = Some stop \<and> rq_start_height r \<le> stop
          \<and> of_nat (length (fb_records b)) = min (stop - rq_start_height r + 1) MAX_RECORDS_PER_BATCH)
     \<and> length cs = length (fb_records b)
     \<and> (\<forall>i < length cs. let n = rq_start_height r + of_nat i; rec = fb_records b ! i; c = cs ! i in
          fr_height rec = n \<and> bh n = Some (fr_block_hash rec)
          \<and> validate_filter (fr_filter rec) L = Inr (cr_filter c)
          \<and> cr_height c = n \<and> cr_block_hash c = fr_block_hash rec)"
  unfolding check_batch_iff batch_matches_def wanted_records_def record_checks_def Let_def by blast

definition sample_chain :: chain_map where
  "sample_chain = cm_insert 5 (replicate 32 2) \<lparr> by_height = [] \<rparr>"

definition sample_request :: range_request where
  "sample_request = \<lparr> rq_genesis = replicate 32 1, rq_profile = PROFILE, rq_start_height = 5,
     rq_stop_block_hash = replicate 32 2 \<rparr>"

theorem check_batch_exact_witness:
  "check_batch (cm_block_hash sample_chain) (cm_height_of sample_chain) sample_batch sample_request ZCASH_MAINNET
     = Inr [\<lparr> cr_height = 5, cr_block_hash = replicate 32 2, cr_filter = \<lparr> vf_bytes = [0], vf_values = [] \<rparr> \<rparr>]"
proof -
  have v: "validate_filter [0] ZCASH_MAINNET = Inr \<lparr> vf_bytes = [0], vf_values = [] \<rparr>" by code_simp
  have "cm_height_of sample_chain (replicate 32 2) = Some 5" "cm_block_hash sample_chain 5 = Some (replicate 32 2)"
    by code_simp+
  with v show ?thesis
    unfolding check_batch_exact
    by (simp add: sample_batch_def sample_request_def MAX_RECORDS_PER_BATCH_def min_def)
qed

text \<open>
  C9. Synchronizing a range ends and covers all of it. With one unit of fuel per height \<open>sync_range\<close>
  returns, whatever the transport does; and when it returns an outcome, the range from the requested
  start to the stop block was covered without a gap: the batches the transport delivered hold exactly one record for each of
  its heights, in order, each with the hash the wallet accepted at that height and a filter that passes validation; the matches reported
  are exactly the reference matches of the filters delivered, in height order; and the coverage reported ends
  at the stop block.
\<close>

theorem sync_range_coverage:
  assumes "cm_ok c" and "cm_height_of c (rq_stop_block_hash r) = Some stop" and "rq_start_height r \<le> stop"
    and "unat stop < 2 ^ 64 - 1" and "max_bytes L < 2 ^ 64"
    and "\<And>t q b ch t'. fetch t q = (Inr (b, ch), t') \<Longrightarrow> length (fb_records b) < 2 ^ 64"
    and "unat stop + 1 - unat (rq_start_height r) \<le> fuel"
  shows "\<exists>res t'. sync_range fuel fetch (cm_block_hash c) (cm_height_of c) siphash r ws L t = Some (res, t')
    \<and> (\<forall>out. res = Inr out \<longrightarrow>
         so_covered_through out = stop \<and> so_covered_block_hash out = rq_stop_block_hash r
         \<and> unat (so_filters_checked out) = unat stop + 1 - unat (rq_start_height r)
         \<and> (\<exists>batches cs. fetched fetch r (rq_start_height r) t batches t'
              \<and> length (batch_records batches) = unat stop + 1 - unat (rq_start_height r) \<and> length cs = length (batch_records batches)
              \<and> (\<forall>i < length cs. let n = rq_start_height r + of_nat i; rec = batch_records batches ! i in
                   fr_height rec = n \<and> cm_block_hash c n = Some (fr_block_hash rec)
                   \<and> validate_filter (fr_filter rec) L = Inr (cr_filter (cs ! i))
                   \<and> cr_height (cs ! i) = n \<and> cr_block_hash (cs ! i) = fr_block_hash rec)
              \<and> so_matches out = block_matches siphash ws cs))"
proof -
  let ?n = "unat stop + 1 - unat (rq_start_height r)"
  let ?run = "sync_range fuel fetch (cm_block_hash c) (cm_height_of c) siphash r ws L t"
  have "?run \<noteq> None"
    using sync_loop_returns [where ho = "cm_height_of c" and fetch = fetch, OF assms(2,4,6,7)] assms(2)
    by (simp add: sync_range_def)
  then obtain res t' where run: "?run = Some (res, t')" by auto
  have ge: "unat (rq_start_height r) \<le> unat stop" using assms(3) by (simp add: word_le_nat_alt)
  show ?thesis
  proof (intro exI [of _ res] exI [of _ t'] conjI allI impI)
    show "?run = Some (res, t')" by (rule run)
    fix out assume "res = Inr out"
    then obtain bs cs where cs: "length cs = ?n" "records_checked (cm_block_hash c) L (rq_start_height r) (batch_records bs) cs"
      "so_matches out = block_matches siphash ws cs" "so_filters_checked out = of_nat (length cs)"
      "so_covered_through out = (if cs = [] then saturating_sub (rq_start_height r) 1 else cr_height (last cs))"
      "so_covered_block_hash out = (if cs = [] then rq_stop_block_hash r else cr_block_hash (last cs))"
      "fetched fetch r (rq_start_height r) t bs t'"
      using sync_loop_covers [where ho = "cm_height_of c" and fetch = fetch, OF _ assms(2,4,5) _ assms(6)] run assms(2) ge
      by (fastforce simp: sync_range_def)
    have ne: "cs \<noteq> []" using cs(1) ge by auto
    have len: "length (batch_records bs) = length cs" using cs(2) by (simp add: records_checked_def)
    then have "record_checks (cm_block_hash c) L (rq_start_height r + of_nat (length cs - 1)) (batch_records bs ! (length cs - 1)) (cs ! (length cs - 1))"
      using cs(2) ne by (auto simp: records_checked_def)
    moreover have "rq_start_height r + of_nat (length cs - 1) = stop"
      using cs(1) ge by (simp add: word_unat_eq_iff unat_word_ariths of_nat_diff)
    ultimately have lst: "cr_height (last cs) = stop" "cm_block_hash c stop = Some (cr_block_hash (last cs))"
      using ne by (simp_all add: record_checks_def last_conv_nth)
    show "so_covered_through out = stop" using cs(5) ne lst by simp
    show "so_covered_block_hash out = rq_stop_block_hash r"
      using cs(6) ne lst(2) cm.height_of_sound [OF assms(1,2)] by simp
    show "unat (so_filters_checked out) = ?n" using cs(1,4) assms(4) by (simp add: unat_of_nat_u64)
    show "\<exists>batches cs. fetched fetch r (rq_start_height r) t batches t' \<and> length (batch_records batches) = ?n \<and> length cs = length (batch_records batches)
        \<and> (\<forall>i < length cs. let n = rq_start_height r + of_nat i; rec = batch_records batches ! i in
             fr_height rec = n \<and> cm_block_hash c n = Some (fr_block_hash rec) \<and> validate_filter (fr_filter rec) L = Inr (cr_filter (cs ! i))
             \<and> cr_height (cs ! i) = n \<and> cr_block_hash (cs ! i) = fr_block_hash rec)
        \<and> so_matches out = block_matches siphash ws cs"
      using cs(1,2,3,7) len by (intro exI [of _ bs] exI [of _ cs]) (simp add: records_checked_def record_checks_def Let_def)
  qed
qed

theorem sync_range_coverage_witness:
  "\<exists>out t'. sync_range 1 file_fetch_range (cm_block_hash sample_chain) (cm_height_of sample_chain) sample_siphash
       sample_request [[0x51]] ZCASH_MAINNET [5 \<mapsto> encode sample_batch] = Some (Inr out, t')
     \<and> so_covered_through out = 5 \<and> so_covered_block_hash out = replicate 32 2 \<and> so_filters_checked out = 1"
proof -
  let ?run = "sync_range 1 file_fetch_range (cm_block_hash sample_chain) (cm_height_of sample_chain) sample_siphash
       sample_request [[0x51]] ZCASH_MAINNET [5 \<mapsto> encode sample_batch]"
  have h: "cm_height_of sample_chain (rq_stop_block_hash sample_request) = Some 5" by code_simp
  have ok: "cm_ok sample_chain" unfolding sample_chain_def by (rule cm_ok_insert) (simp add: cm_ok_def)
  have l: "rq_start_height sample_request \<le> 5" "unat (5 :: u64) < 2 ^ 64 - 1" "max_bytes ZCASH_MAINNET < 2 ^ 64"
    "unat (5 :: u64) + 1 - unat (rq_start_height sample_request) \<le> 1"
    by (simp_all add: sample_request_def ZCASH_MAINNET_def)
  note cov = sync_range_coverage [where fetch = file_fetch_range, OF ok h l(1,2,3) file_fetch_small l(4),
      where siphash = sample_siphash and ws = "[[0x51]]" and t = "[5 \<mapsto> encode sample_batch]"]
  have "map_option (\<lambda>(res, _). \<not> isl res) ?run = Some True" by code_simp
  then obtain res t' where "?run = Some (res, t')" "\<not> isl res" by auto
  then obtain out where run: "?run = Some (Inr out, t')" by (cases res) auto
  moreover from cov run have "so_covered_through out = 5"
    "so_covered_block_hash out = rq_stop_block_hash sample_request"
    "unat (so_filters_checked out) = unat (5 :: u64) + 1 - unat (rq_start_height sample_request)"
    by auto
  ultimately show ?thesis by (auto simp: sample_request_def word_unat_eq_iff)
qed

end
