(* ===== verification/Filter_Store.thy ===== *)
theory Filter_Store
  imports Filter_Client "HOL-Library.AList"
begin

text \<open>
  The filter service's storage, \<open>server/transparent-filter-server/src/store.rs\<close>.

  \<open>store_disk\<close> is the directory: the content of each file, \<open>None\<close> when it does not exist;
  \<open>filter_store\<close> is the in-memory part of \<open>FilterStore\<close>. The \<open>HashMap\<close> of locations is an association
  list (\<open>AList.update\<close>), in insertion order, which is also the order of \<open>index.bin\<close>. JSON is third-party
  code: \<open>meta.json\<close> is either missing, unreadable, or holds a parsed \<open>Meta\<close>.

  Every file write is followed by \<open>sync_all\<close>, so a crash leaves the writes before it, and at most a
  prefix of the interrupted one; \<open>append_writes\<close> lists the writes of \<open>append\<close> and \<open>crash_disk\<close> the disks
  a crash among them may leave. Operations that fail in the operating system are covered by the same
  reasoning: they stop after some of the writes.
\<close>

definition STORE_VERSION :: u16 where "STORE_VERSION = 1"
definition INDEX_RECORD_BYTES :: nat where "INDEX_RECORD_BYTES = 32 + 8 + 4 + 32"
definition CHAIN_RECORD_BYTES :: nat where "CHAIN_RECORD_BYTES = 32"

datatype store_error = Invariant string | Io string

record store_meta =
  sm_version :: u16
  sm_profile :: bytes
  sm_genesis_hash :: string
  sm_start_height :: u64

record located =
  lc_offset :: u64
  lc_length :: u32
  lc_digest :: bytes

record stored_filter =
  sf_block_hash :: block_hash
  sf_bytes :: bytes
  sf_digest :: bytes

datatype meta_file = Meta_Missing | Meta_Unreadable | Meta_Found store_meta

record store_disk =
  meta_json :: meta_file
  filters_bin :: "bytes option"
  index_bin :: "bytes option"
  chain_bin :: "bytes option"
  checkpoint_bin :: "bytes option"

record filter_store =
  fs_meta :: store_meta
  by_hash :: "(block_hash \<times> located) list"
  fs_chain :: "block_hash list"
  filters_len :: u64

section \<open>Opening\<close>

definition read_u64 :: "bytes \<Rightarrow> u64" where
  "read_u64 bs = of_nat (le_val bs)"

text \<open>
  The incompatible store is moved to a \<open>superseded\<close> directory that nothing reads again, so setting it
  aside empties the directory.
\<close>

definition set_aside :: "store_disk \<Rightarrow> store_disk" where
  "set_aside d = d \<lparr> meta_json := Meta_Missing, filters_bin := None, index_bin := None,
     chain_bin := None, checkpoint_bin := None \<rparr>"

definition prepare_files :: "store_meta \<Rightarrow> store_disk \<Rightarrow> store_disk" where
  "prepare_files wanted d =
     (let d = (if meta_json d \<noteq> Meta_Missing \<and> meta_json d \<noteq> Meta_Found wanted then set_aside d else d);
          d = (if meta_json d = Meta_Missing then d \<lparr> meta_json := Meta_Found wanted \<rparr> else d);
          create = (\<lambda>f. case f of None \<Rightarrow> Some [] | Some b \<Rightarrow> Some b)
      in d \<lparr> filters_bin := create (filters_bin d), index_bin := create (index_bin d),
             chain_bin := create (chain_bin d) \<rparr>)"

definition read_checkpoint :: "store_disk \<Rightarrow> store_error + (u64 \<times> u64 \<times> u64)" where
  "read_checkpoint d =
     (case checkpoint_bin d of
        None \<Rightarrow> Inr (0, 0, 0)
      | Some bs \<Rightarrow>
        if length bs \<noteq> 24 then Inl (Invariant ''checkpoint is not 24 bytes'')
        else Inr (read_u64 (take 8 bs), read_u64 (take 8 (drop 8 bs)), read_u64 (take 8 (drop 16 bs))))"

definition truncate_file :: "bytes option \<Rightarrow> u64 \<Rightarrow> store_error + bytes option" where
  "truncate_file f len =
     (case f of
        None \<Rightarrow> Inl (Io ''no such file'')
      | Some bs \<Rightarrow>
        if length bs < unat len then Inl (Invariant ''file is shorter than its checkpoint'')
        else Inr (Some (take (unat len) bs)))"

definition parse_located :: "bytes \<Rightarrow> located" where
  "parse_located rec = \<lparr> lc_offset = read_u64 (take 8 (drop 32 rec)),
     lc_length = of_nat (le_val (take 4 (drop 40 rec))), lc_digest = take 32 (drop 44 rec) \<rparr>"

definition parse_index :: "bytes \<Rightarrow> store_error + (block_hash \<times> located) list" where
  "parse_index bs =
     (if length bs mod INDEX_RECORD_BYTES \<noteq> 0
      then Inl (Invariant ''index.bin is not a whole number of records'')
      else Inr (fold (\<lambda>rec m. AList.update (take 32 rec) (parse_located rec) m)
             (chunks_exact (length bs div INDEX_RECORD_BYTES) INDEX_RECORD_BYTES bs) []))"

definition parse_chain :: "bytes \<Rightarrow> store_error + block_hash list" where
  "parse_chain bs =
     (if length bs mod CHAIN_RECORD_BYTES \<noteq> 0
      then Inl (Invariant ''chain.bin is not a whole number of records'')
      else Inr (chunks_exact (length bs div CHAIN_RECORD_BYTES) CHAIN_RECORD_BYTES bs))"

definition load_store :: "store_meta \<Rightarrow> store_disk \<Rightarrow> store_disk \<times> (store_error + filter_store)" where
  "load_store wanted d =
     (case read_checkpoint d of
        Inl e \<Rightarrow> (d, Inl e)
      | Inr (flen, ilen, clen) \<Rightarrow>
        (case truncate_file (filters_bin d) flen of Inl e \<Rightarrow> (d, Inl e) | Inr f \<Rightarrow>
         let d = d \<lparr> filters_bin := f \<rparr> in
        (case truncate_file (index_bin d) ilen of Inl e \<Rightarrow> (d, Inl e) | Inr i \<Rightarrow>
         let d = d \<lparr> index_bin := i \<rparr> in
        (case truncate_file (chain_bin d) clen of Inl e \<Rightarrow> (d, Inl e) | Inr c \<Rightarrow>
         let d = d \<lparr> chain_bin := c \<rparr> in
         (d, bindR (parse_index (the i)) (\<lambda>idx.
             bindR (parse_chain (the c)) (\<lambda>chn.
             Inr \<lparr> fs_meta = wanted, by_hash = idx, fs_chain = chn, filters_len = flen \<rparr>)))))))"

definition open_store ::
  "bytes \<Rightarrow> string \<Rightarrow> u64 \<Rightarrow> store_disk \<Rightarrow> store_disk \<times> (store_error + filter_store)" where
  "open_store profile genesis_hash start_height d =
     (let wanted = \<lparr> sm_version = STORE_VERSION, sm_profile = profile, sm_genesis_hash = genesis_hash,
                     sm_start_height = start_height \<rparr>
      in load_store wanted (prepare_files wanted d))"

section \<open>Queries\<close>

definition fs_start_height :: "filter_store \<Rightarrow> u64" where
  "fs_start_height st = sm_start_height (fs_meta st)"

definition filters_stored :: "filter_store \<Rightarrow> u64" where
  "filters_stored st = of_nat (length (by_hash st))"

definition covered_through :: "filter_store \<Rightarrow> u64 option" where
  "covered_through st =
     (if fs_chain st = [] then None
      else Some (fs_start_height st + of_nat (length (fs_chain st)) - 1))"

definition next_height :: "filter_store \<Rightarrow> u64" where
  "next_height st =
     (case covered_through st of None \<Rightarrow> fs_start_height st | Some height \<Rightarrow> height + 1)"

definition block_hash_at :: "filter_store \<Rightarrow> u64 \<Rightarrow> block_hash option" where
  "block_hash_at st height =
     (let start = fs_start_height st in
      if height < start then None
      else let i = unat (height - start) in
        if i < length (fs_chain st) then Some (fs_chain st ! i) else None)"

definition fs_height_of :: "filter_store \<Rightarrow> block_hash \<Rightarrow> u64 option" where
  "fs_height_of st h =
     map_option (\<lambda>(offset, _). fs_start_height st + of_nat offset)
       (List.find (\<lambda>(_, candidate). candidate = h) (List.enumerate 0 (fs_chain st)))"

definition filter_by_hash ::
  "store_disk \<times> filter_store \<Rightarrow> block_hash \<Rightarrow> store_error + stored_filter option" where
  "filter_by_hash = (\<lambda>(d, st) h.
     (case map_of (by_hash st) h of
        None \<Rightarrow> Inr None
      | Some loc \<Rightarrow>
        (case filters_bin d of
           None \<Rightarrow> Inl (Io ''no such file'')
         | Some f \<Rightarrow>
           if length f < unat (lc_offset loc) + unat (lc_length loc) then Inl (Io ''failed to fill whole buffer'')
           else Inr (Some \<lparr> sf_block_hash = h,
                  sf_bytes = take (unat (lc_length loc)) (drop (unat (lc_offset loc)) f),
                  sf_digest = lc_digest loc \<rparr>))))"

section \<open>Updates\<close>

datatype disk_write =
    Append_Filters bytes
  | Append_Index bytes
  | Append_Chain bytes

fun apply_write :: "disk_write \<Rightarrow> store_disk \<Rightarrow> store_disk" where
  "apply_write (Append_Filters bs) d = d \<lparr> filters_bin := map_option (\<lambda>f. f @ bs) (filters_bin d) \<rparr>"
| "apply_write (Append_Index bs) d = d \<lparr> index_bin := map_option (\<lambda>f. f @ bs) (index_bin d) \<rparr>"
| "apply_write (Append_Chain bs) d = d \<lparr> chain_bin := map_option (\<lambda>f. f @ bs) (chain_bin d) \<rparr>"

definition index_record :: "block_hash \<Rightarrow> located \<Rightarrow> bytes" where
  "index_record h loc = h @ u64_le (lc_offset loc) @ u32_le (lc_length loc) @ lc_digest loc"

definition append ::
  "(bytes \<Rightarrow> bytes) \<Rightarrow> u64 \<Rightarrow> block_hash \<Rightarrow> bytes \<Rightarrow> store_disk \<times> filter_store
     \<Rightarrow> store_error + (store_disk \<times> filter_store)" where
  "append sha256 height h filt = (\<lambda>(d, st).
     if height \<noteq> next_height st then Inl (Invariant ''block does not follow coverage'')
     else
       let digest = filter_hash sha256 filt;
           finish = (\<lambda>(d, st). Inr (apply_write (Append_Chain h) d, st \<lparr> fs_chain := fs_chain st @ [h] \<rparr>)) in
       (case map_of (by_hash st) h of
          Some existing \<Rightarrow>
            if lc_digest existing \<noteq> digest
            then Inl (Invariant ''block already has a filter with a different digest'')
            else finish (d, st)
        | None \<Rightarrow>
            let loc = \<lparr> lc_offset = filters_len st, lc_length = of_nat (length filt), lc_digest = digest \<rparr>;
                d = apply_write (Append_Filters filt) d;
                d = apply_write (Append_Index (index_record h loc)) d
            in finish (d, st \<lparr> filters_len := filters_len st + of_nat (length filt),
                               by_hash := AList.update h loc (by_hash st) \<rparr>)))"

definition commit :: "store_disk \<times> filter_store \<Rightarrow> store_disk \<times> filter_store" where
  "commit = (\<lambda>(d, st).
     (d \<lparr> checkpoint_bin := Some (u64_le (filters_len st)
            @ u64_le (of_nat (length (by_hash st) * INDEX_RECORD_BYTES))
            @ u64_le (of_nat (length (fs_chain st) * CHAIN_RECORD_BYTES))) \<rparr>, st))"

definition rollback_keep :: "u64 option \<Rightarrow> filter_store \<Rightarrow> nat" where
  "rollback_keep height st =
     (case height of None \<Rightarrow> 0
      | Some height \<Rightarrow>
        if height < fs_start_height st then 0
        else min (unat (height - fs_start_height st + 1)) (length (fs_chain st)))"

definition truncate_chain :: "nat \<Rightarrow> store_disk \<times> filter_store \<Rightarrow> store_disk \<times> filter_store" where
  "truncate_chain keep = (\<lambda>(d, st).
     (d \<lparr> chain_bin := map_option (set_len (keep * CHAIN_RECORD_BYTES)) (chain_bin d) \<rparr>,
      st \<lparr> fs_chain := take keep (fs_chain st) \<rparr>))"

definition rollback_to :: "u64 option \<Rightarrow> store_disk \<times> filter_store \<Rightarrow> store_disk \<times> filter_store" where
  "rollback_to height s = commit (truncate_chain (rollback_keep height (snd s)) s)"

section \<open>Invariant and abstraction\<close>

definition slice :: "bytes \<Rightarrow> located \<Rightarrow> bytes" where
  "slice f loc = take (unat (lc_length loc)) (drop (unat (lc_offset loc)) f)"

definition entry_ok :: "(bytes \<Rightarrow> bytes) \<Rightarrow> bytes \<Rightarrow> block_hash \<times> located \<Rightarrow> bool" where
  "entry_ok sha256 f e \<longleftrightarrow> hash_ok (fst e) \<and> length (lc_digest (snd e)) = 32
     \<and> unat (lc_offset (snd e)) + unat (lc_length (snd e)) \<le> length f
     \<and> lc_digest (snd e) = filter_hash sha256 (slice f (snd e))"

definition index_bytes :: "(block_hash \<times> located) list \<Rightarrow> bytes" where
  "index_bytes es = concat (map (\<lambda>e. index_record (fst e) (snd e)) es)"

definition store_ok :: "(bytes \<Rightarrow> bytes) \<Rightarrow> store_disk \<times> filter_store \<Rightarrow> bool" where
  "store_ok sha256 = (\<lambda>(d, st).
     meta_json d = Meta_Found (fs_meta st)
     \<and> index_bin d = Some (index_bytes (by_hash st))
     \<and> chain_bin d = Some (concat (fs_chain st))
     \<and> distinct (map fst (by_hash st)) \<and> set (fs_chain st) \<subseteq> fst ` set (by_hash st)
     \<and> unat (fs_start_height st) + length (fs_chain st) < 2 ^ 64
     \<and> length (by_hash st) * INDEX_RECORD_BYTES < 2 ^ 64
     \<and> length (fs_chain st) * CHAIN_RECORD_BYTES < 2 ^ 64
     \<and> (case filters_bin d of None \<Rightarrow> False
        | Some f \<Rightarrow> length f = unat (filters_len st) \<and> (\<forall>e \<in> set (by_hash st). entry_ok sha256 f e)))"

text \<open>What a store promises: content by block hash, and the covered blocks in height order.\<close>

record archive =
  contents :: "block_hash \<Rightarrow> bytes option"
  coverage :: "block_hash list"

definition store_abs :: "store_disk \<times> filter_store \<Rightarrow> archive" where
  "store_abs = (\<lambda>(d, st). \<lparr>
     contents = (\<lambda>h. map_option (slice (the (filters_bin d))) (map_of (by_hash st) h)),
     coverage = fs_chain st \<rparr>)"

lemma store_okE:
  assumes "store_ok sha256 (d, st)"
  obtains f where "filters_bin d = Some f" "length f = unat (filters_len st)"
    "\<forall>e \<in> set (by_hash st). entry_ok sha256 f e" "index_bin d = Some (index_bytes (by_hash st))"
    "chain_bin d = Some (concat (fs_chain st))" "distinct (map fst (by_hash st))"
    "set (fs_chain st) \<subseteq> fst ` set (by_hash st)" "unat (fs_start_height st) + length (fs_chain st) < 2 ^ 64"
    "length (by_hash st) * INDEX_RECORD_BYTES < 2 ^ 64" "meta_json d = Meta_Found (fs_meta st)"
    "length (fs_chain st) * CHAIN_RECORD_BYTES < 2 ^ 64"
  using assms by (auto simp: store_ok_def split: option.splits)

lemma slice_append: "unat (lc_offset loc) + unat (lc_length loc) \<le> length f \<Longrightarrow> slice (f @ g) loc = slice f loc"
  by (simp add: slice_def)

lemma entry_ok_append: "entry_ok sha256 f e \<Longrightarrow> entry_ok sha256 (f @ g) e"
  by (auto simp: entry_ok_def slice_append)

lemma slice_new:
  assumes "length f + length g < 2 ^ 64" and "length g < 2 ^ 32"
  shows "slice (f @ g) \<lparr> lc_offset = of_nat (length f), lc_length = of_nat (length g), lc_digest = x \<rparr> = g"
    and "unat (of_nat (length f) :: u64) + unat (of_nat (length g) :: u32) = length f + length g"
  using assms by (simp_all add: slice_def unat_of_nat_small)

lemma filter_by_hash_contents:
  assumes "store_ok sha256 s"
  shows "filter_by_hash s h = Inr (case contents (store_abs s) h of None \<Rightarrow> None
     | Some c \<Rightarrow> Some \<lparr> sf_block_hash = h, sf_bytes = c, sf_digest = filter_hash sha256 c \<rparr>)"
proof -
  obtain d st where s: "s = (d, st)" by (cases s)
  obtain f where f: "filters_bin d = Some f" "\<forall>e \<in> set (by_hash st). entry_ok sha256 f e"
    using assms s by (auto elim: store_okE)
  show ?thesis
  proof (cases "map_of (by_hash st) h")
    case None
    then show ?thesis by (simp add: filter_by_hash_def s store_abs_def)
  next
    case (Some loc)
    then have "entry_ok sha256 f (h, loc)" using f(2) map_of_SomeD by force
    then show ?thesis using Some f(1)
      by (auto simp: filter_by_hash_def s store_abs_def entry_ok_def slice_def)
  qed
qed

lemma next_height_eq:
  "unat (fs_start_height st) + length (fs_chain st) < 2 ^ 64
     \<Longrightarrow> next_height st = fs_start_height st + of_nat (length (fs_chain st))"
  by (auto simp: next_height_def covered_through_def)

lemma update_new: "map_of xs k = None \<Longrightarrow> AList.update k v xs = xs @ [(k, v)]"
  by (induction xs) (auto split: if_splits)

section \<open>Each operation keeps the invariant\<close>

lemma append_ok:
  assumes ok: "store_ok sha256 s" and app: "append sha256 height h filt s = Inr s'"
    and sha: "\<And>x. length (sha256 x) = 32" and h: "hash_ok h"
    and fits: "length filt < 2 ^ 32" "unat (filters_len (snd s)) + length filt < 2 ^ 64"
      "unat (fs_start_height (snd s)) + length (fs_chain (snd s)) + 1 < 2 ^ 64
         \<and> (length (fs_chain (snd s)) + 1) * CHAIN_RECORD_BYTES < 2 ^ 64"
      "(length (by_hash (snd s)) + 1) * INDEX_RECORD_BYTES < 2 ^ 64"
  shows "store_ok sha256 s'"
proof -
  obtain d st where s: "s = (d, st)" by (cases s)
  obtain f where f: "filters_bin d = Some f" "length f = unat (filters_len st)"
    "\<forall>e \<in> set (by_hash st). entry_ok sha256 f e" "index_bin d = Some (index_bytes (by_hash st))"
    "chain_bin d = Some (concat (fs_chain st))" "distinct (map fst (by_hash st))"
    "set (fs_chain st) \<subseteq> fst ` set (by_hash st)" "meta_json d = Meta_Found (fs_meta st)"
    "length (by_hash st) * INDEX_RECORD_BYTES < 2 ^ 64"
    using ok s by (auto elim: store_okE)
  show ?thesis
  proof (cases "map_of (by_hash st) h")
    case (Some loc)
    then have "h \<in> fst ` set (by_hash st)" by (force dest: map_of_SomeD)
    moreover have "s' = (apply_write (Append_Chain h) d, st \<lparr> fs_chain := fs_chain st @ [h] \<rparr>)"
      using app Some s by (auto simp: append_def Let_def split: if_splits)
    ultimately show ?thesis using f fits(3) s by (simp add: store_ok_def fs_start_height_def)
  next
    case None
    let ?loc = "\<lparr> lc_offset = filters_len st, lc_length = of_nat (length filt), lc_digest = filter_hash sha256 filt \<rparr>"
    have len: "length f + length filt < 2 ^ 64" using fits(2) f(2) s by simp
    have off: "filters_len st = of_nat (length f)" by (simp add: f(2))
    have new: "entry_ok sha256 (f @ filt) (h, ?loc)"
      using h sha slice_new [OF len fits(1)]
      by (auto simp: entry_ok_def filter_hash_def double_sha256_def off)
    have up: "AList.update h ?loc (by_hash st) = by_hash st @ [(h, ?loc)]" by (rule update_new [OF None])
    have "unat (filters_len st + of_nat (length filt)) = length f + length filt"
      using len f(2) by (subst unat_add_nowrap) (simp_all add: unat_of_nat_u64)
    moreover have "h \<notin> fst ` set (by_hash st)" using None by (simp add: map_of_eq_None_iff)
    moreover have "s' = (apply_write (Append_Chain h) (apply_write (Append_Index (index_record h ?loc)) (apply_write (Append_Filters filt) d)),
        st \<lparr> filters_len := filters_len st + of_nat (length filt), by_hash := by_hash st @ [(h, ?loc)],
             fs_chain := fs_chain st @ [h] \<rparr>)"
      using app None s up by (auto simp: append_def Let_def split: if_splits)
    ultimately show ?thesis using f fits(3,4) new s entry_ok_append
      by (auto simp: store_ok_def index_bytes_def fs_start_height_def)
  qed
qed

lemma append_abs:
  assumes ok: "store_ok sha256 s" and app: "append sha256 height h filt s = Inr s'"
    and fits: "length filt < 2 ^ 32" "unat (filters_len (snd s)) + length filt < 2 ^ 64"
  shows "coverage (store_abs s') = coverage (store_abs s) @ [h]"
    and "contents (store_abs s') = (case contents (store_abs s) h of
           None \<Rightarrow> (contents (store_abs s))(h \<mapsto> filt) | Some c \<Rightarrow> contents (store_abs s))"
    and "contents (store_abs s) h = Some c \<Longrightarrow> filter_hash sha256 c = filter_hash sha256 filt"
proof -
  obtain d st where s: "s = (d, st)" by (cases s)
  obtain f where f: "filters_bin d = Some f" "length f = unat (filters_len st)"
    "\<forall>e \<in> set (by_hash st). entry_ok sha256 f e"
    using ok s by (auto elim: store_okE)
  have entry: "entry_ok sha256 f (k, loc)" if "map_of (by_hash st) k = Some loc" for k loc
    using that f(3) map_of_SomeD by force
  show "coverage (store_abs s') = coverage (store_abs s) @ [h]"
    using app s by (auto simp: append_def store_abs_def Let_def split: if_splits option.splits)
  show "filter_hash sha256 c = filter_hash sha256 filt" if "contents (store_abs s) h = Some c"
    using that app s f(1) entry
    by (auto simp: append_def store_abs_def Let_def entry_ok_def split: if_splits option.splits)
  show "contents (store_abs s') = (case contents (store_abs s) h of
           None \<Rightarrow> (contents (store_abs s))(h \<mapsto> filt) | Some c \<Rightarrow> contents (store_abs s))"
  proof (cases "map_of (by_hash st) h")
    case (Some loc)
    then show ?thesis using app s
      by (auto simp: append_def store_abs_def Let_def split: if_splits)
  next
    case None
    let ?loc = "\<lparr> lc_offset = filters_len st, lc_length = of_nat (length filt), lc_digest = filter_hash sha256 filt \<rparr>"
    have s': "filters_bin (fst s') = Some (f @ filt)" "by_hash (snd s') = AList.update h ?loc (by_hash st)"
      using app s None f(1) by (auto simp: append_def Let_def split: if_splits)
    have len: "length f + length filt < 2 ^ 64" using fits(2) f(2) s by simp
    have "filters_len st = of_nat (length f)" by (simp add: f(2))
    then have new: "slice (f @ filt) ?loc = filt" using slice_new(1) [OF len fits(1)] by simp
    have old: "slice (f @ filt) loc = slice f loc" if "map_of (by_hash st) k = Some loc" for k loc
      using entry [OF that] by (simp add: slice_append entry_ok_def)
    have "contents (store_abs s') k = ((contents (store_abs s))(h \<mapsto> filt)) k" for k
      using s' f(1) new old [of k] s
      by (cases s'; cases "map_of (by_hash st) k") (auto simp: store_abs_def update_conv')
    then show ?thesis using None s by (simp add: store_abs_def fun_eq_iff)
  qed
qed

lemma concat_take_chunks:
  "\<forall>x \<in> set xs. length x = n \<Longrightarrow> concat (take k xs) = take (k * n) (concat xs)"
proof (induction xs arbitrary: k)
  case (Cons x xs)
  then show ?case by (cases k) auto
qed simp

lemma chain_hashes_ok: "store_ok sha256 (d, st) \<Longrightarrow> \<forall>x \<in> set (fs_chain st). length x = 32"
  by (erule store_okE) (force simp: entry_ok_def hash_ok_def)

lemma rollback_keep_le: "rollback_keep n st \<le> length (fs_chain st)"
  by (auto simp: rollback_keep_def split: option.splits)

lemma truncate_chain_ok:
  assumes "store_ok sha256 s" and "k \<le> length (fs_chain (snd s))"
  shows "store_ok sha256 (truncate_chain k s)"
proof -
  obtain d st where s: "s = (d, st)" by (cases s)
  have len: "\<forall>x \<in> set (fs_chain st). length x = 32" using assms(1) s chain_hashes_ok by simp
  have "k * 32 \<le> length (concat (fs_chain st))"
    using assms(2) s length_concat_const [OF len] by simp
  then have "set_len (k * CHAIN_RECORD_BYTES) (concat (fs_chain st)) = concat (take k (fs_chain st))"
    by (simp add: set_len_def CHAIN_RECORD_BYTES_def concat_take_chunks [OF len])
  then show ?thesis
    using assms s set_take_subset [of k "fs_chain st"]
    by (auto simp: store_ok_def truncate_chain_def fs_start_height_def CHAIN_RECORD_BYTES_def split: option.splits)
qed

lemma commit_ok: "store_ok sha256 s \<Longrightarrow> store_ok sha256 (commit s)"
  by (cases s) (auto simp: store_ok_def commit_def)

lemma rollback_ok: "store_ok sha256 s \<Longrightarrow> store_ok sha256 (rollback_to n s)"
  by (simp add: rollback_to_def commit_ok truncate_chain_ok rollback_keep_le)

lemma rollback_abs:
  "store_abs (rollback_to n s) = (store_abs s) \<lparr> coverage := take (rollback_keep n (snd s)) (coverage (store_abs s)) \<rparr>"
  by (cases s) (simp add: rollback_to_def truncate_chain_def commit_def store_abs_def)

section \<open>Reading the files back\<close>

lemma parse_index_record:
  assumes "length h = 32" and "length (lc_digest loc) = 32"
  shows "take 32 (index_record h loc) = h" and "parse_located (index_record h loc) = loc"
    and "length (index_record h loc) = INDEX_RECORD_BYTES"
  using assms by (cases loc, simp_all add: index_record_def parse_located_def read_u64_def INDEX_RECORD_BYTES_def)

lemma fold_update_distinct:
  "distinct (map fst (acc @ es)) \<Longrightarrow> fold (\<lambda>e m. AList.update (fst e) (snd e) m) es acc = acc @ es"
proof (induction es arbitrary: acc)
  case (Cons e es)
  then have "map_of acc (fst e) = None" by (auto simp: map_of_eq_None_iff)
  then have "AList.update (fst e) (snd e) acc = acc @ [e]" by (simp add: update_new)
  then show ?case using Cons.IH [of "acc @ [e]"] Cons.prems by simp
qed simp

lemma parse_index_bytes:
  assumes "distinct (map fst es)" and "\<forall>e \<in> set es. length (fst e) = 32 \<and> length (lc_digest (snd e)) = 32"
  shows "parse_index (index_bytes es) = Inr es"
proof -
  let ?rs = "map (\<lambda>e. index_record (fst e) (snd e)) es"
  have len: "\<forall>r \<in> set ?rs. length r = INDEX_RECORD_BYTES"
    using assms(2) by (auto simp: parse_index_record)
  have eq: "fold (\<lambda>rec m. AList.update (take 32 rec) (parse_located rec) m) ?rs acc
     = fold (\<lambda>e m. AList.update (fst e) (snd e) m) es acc" for acc
    using assms(2) by (induction es arbitrary: acc) (simp_all add: parse_index_record)
  have "length (index_bytes es) = length es * INDEX_RECORD_BYTES"
    using length_concat_const [OF len] by (simp add: index_bytes_def)
  moreover have "INDEX_RECORD_BYTES > 0" by (simp add: INDEX_RECORD_BYTES_def)
  ultimately show ?thesis
    using chunks_exact_concat [OF len] eq [of "[]"] fold_update_distinct [of "[]" es] assms(1)
    by (simp add: parse_index_def index_bytes_def)
qed

lemma parse_chain_concat: "\<forall>x \<in> set xs. length x = 32 \<Longrightarrow> parse_chain (concat xs) = Inr xs"
  using chunks_exact_concat [of xs 32] length_concat_const [of xs 32]
  by (simp add: parse_chain_def CHAIN_RECORD_BYTES_def)

lemma read_checkpoint_commit:
  "read_checkpoint (fst (commit (d, st))) = Inr (filters_len st, of_nat (length (by_hash st) * INDEX_RECORD_BYTES),
     of_nat (length (fs_chain st) * CHAIN_RECORD_BYTES))"
  by (simp add: read_checkpoint_def commit_def read_u64_def)

definition wanted_meta :: "bytes \<Rightarrow> string \<Rightarrow> u64 \<Rightarrow> store_meta" where
  "wanted_meta profile genesis start = \<lparr> sm_version = STORE_VERSION, sm_profile = profile,
     sm_genesis_hash = genesis, sm_start_height = start \<rparr>"

lemma open_store_eq: "open_store p g n d = load_store (wanted_meta p g n) (prepare_files (wanted_meta p g n) d)"
  by (simp add: open_store_def wanted_meta_def Let_def)

lemma prepare_files_same:
  "meta_json d = Meta_Found m \<Longrightarrow> filters_bin d = Some f \<Longrightarrow> index_bin d = Some i \<Longrightarrow> chain_bin d = Some c
     \<Longrightarrow> prepare_files m d = d"
  by (simp add: prepare_files_def)

lemma truncate_committed:
  assumes "store_ok sha256 (d, st)"
  obtains f where "filters_bin d = Some f" "truncate_file (Some f) (filters_len st) = Inr (Some f)"
    "truncate_file (Some (index_bytes (by_hash st))) (of_nat (length (by_hash st) * INDEX_RECORD_BYTES)) = Inr (Some (index_bytes (by_hash st)))"
    "truncate_file (Some (concat (fs_chain st))) (of_nat (length (fs_chain st) * CHAIN_RECORD_BYTES)) = Inr (Some (concat (fs_chain st)))"
    "\<forall>e \<in> set (by_hash st). length (fst e) = 32 \<and> length (lc_digest (snd e)) = 32"
proof -
  obtain f where f: "filters_bin d = Some f" "length f = unat (filters_len st)"
    "\<forall>e \<in> set (by_hash st). entry_ok sha256 f e" "length (by_hash st) * INDEX_RECORD_BYTES < 2 ^ 64"
    "length (fs_chain st) * CHAIN_RECORD_BYTES < 2 ^ 64"
    using assms by (auto elim: store_okE)
  have ent: "\<forall>e \<in> set (by_hash st). length (fst e) = 32 \<and> length (lc_digest (snd e)) = 32"
    using f(3) by (auto simp: entry_ok_def hash_ok_def)
  then have "\<forall>r \<in> set (map (\<lambda>e. index_record (fst e) (snd e)) (by_hash st)). length r = INDEX_RECORD_BYTES"
    by (auto simp: parse_index_record)
  then have il: "length (index_bytes (by_hash st)) = length (by_hash st) * INDEX_RECORD_BYTES"
    using length_concat_const by (fastforce simp: index_bytes_def)
  have cl: "length (concat (fs_chain st)) = length (fs_chain st) * CHAIN_RECORD_BYTES"
    using length_concat_const [OF chain_hashes_ok [OF assms]] by (simp add: CHAIN_RECORD_BYTES_def)
  show thesis
    by (rule that [OF f(1)])
      (use f(2) il cl ent unat_of_nat_u64 [OF f(4)] unat_of_nat_u64 [OF f(5)] in
        \<open>simp_all add: truncate_file_def del: of_nat_mult length_concat\<close>)
qed

lemma open_committed:
  assumes "store_ok sha256 (d, st)" and "fs_meta st = wanted_meta p g n"
  shows "open_store p g n (fst (commit (d, st))) = (fst (commit (d, st)), Inr st)"
proof -
  let ?d = "fst (commit (d, st))"
  obtain f where tr: "filters_bin d = Some f" "truncate_file (Some f) (filters_len st) = Inr (Some f)"
    "truncate_file (Some (index_bytes (by_hash st))) (of_nat (length (by_hash st) * INDEX_RECORD_BYTES)) = Inr (Some (index_bytes (by_hash st)))"
    "truncate_file (Some (concat (fs_chain st))) (of_nat (length (fs_chain st) * CHAIN_RECORD_BYTES)) = Inr (Some (concat (fs_chain st)))"
    "\<forall>e \<in> set (by_hash st). length (fst e) = 32 \<and> length (lc_digest (snd e)) = 32"
    using truncate_committed [OF assms(1)] by blast
  have f: "index_bin d = Some (index_bytes (by_hash st))" "chain_bin d = Some (concat (fs_chain st))"
    "distinct (map fst (by_hash st))" "meta_json d = Meta_Found (fs_meta st)"
    using assms(1) by (auto elim: store_okE)
  have files: "filters_bin ?d = Some f" "index_bin ?d = Some (index_bytes (by_hash st))"
    "chain_bin ?d = Some (concat (fs_chain st))" "meta_json ?d = Meta_Found (wanted_meta p g n)"
    using f tr(1) assms(2) by (simp_all add: commit_def)
  have "\<lparr> fs_meta = wanted_meta p g n, by_hash = by_hash st, fs_chain = fs_chain st, filters_len = filters_len st \<rparr> = st"
    using assms(2) by (cases st) simp
  then show ?thesis
    using files unfolding open_store_eq prepare_files_same [OF files(4,1,2,3)] load_store_def read_checkpoint_commit
    by (simp add: tr(2,3,4) parse_index_bytes [OF f(3) tr(5)] parse_chain_concat [OF chain_hashes_ok [OF assms(1)]]
        del: of_nat_mult)
qed

section \<open>Crashes\<close>

definition append_writes :: "(bytes \<Rightarrow> bytes) \<Rightarrow> block_hash \<Rightarrow> bytes \<Rightarrow> filter_store \<Rightarrow> disk_write list" where
  "append_writes sha256 h filt st =
     (if map_of (by_hash st) h = None
      then [Append_Filters filt,
            Append_Index (index_record h \<lparr> lc_offset = filters_len st, lc_length = of_nat (length filt),
              lc_digest = filter_hash sha256 filt \<rparr>)]
      else []) @ [Append_Chain h]"

fun torn_write :: "nat \<Rightarrow> disk_write \<Rightarrow> disk_write" where
  "torn_write j (Append_Filters bs) = Append_Filters (take j bs)"
| "torn_write j (Append_Index bs) = Append_Index (take j bs)"
| "torn_write j (Append_Chain bs) = Append_Chain (take j bs)"

text \<open>The disk after \<open>k\<close> complete writes and the first \<open>j\<close> bytes of the next one.\<close>

definition crash_disk :: "disk_write list \<Rightarrow> nat \<Rightarrow> nat \<Rightarrow> store_disk \<Rightarrow> store_disk" where
  "crash_disk ws k j d =
     (let d' = fold apply_write (take k ws) d in
      if k < length ws then apply_write (torn_write j (ws ! k)) d' else d')"

lemma append_is_writes:
  "append sha256 height h filt (d, st) = Inr (d', st') \<Longrightarrow> d' = fold apply_write (append_writes sha256 h filt st) d"
  by (auto simp: append_def append_writes_def Let_def split: if_splits option.splits)

definition file_extends :: "bytes option \<Rightarrow> bytes option \<Rightarrow> bool" where
  "file_extends a b \<longleftrightarrow> (case a of None \<Rightarrow> b = None | Some f \<Rightarrow> \<exists>g. b = Some (f @ g))"

definition disk_extends :: "store_disk \<Rightarrow> store_disk \<Rightarrow> bool" where
  "disk_extends d d' \<longleftrightarrow> meta_json d' = meta_json d \<and> checkpoint_bin d' = checkpoint_bin d
     \<and> file_extends (filters_bin d) (filters_bin d') \<and> file_extends (index_bin d) (index_bin d')
     \<and> file_extends (chain_bin d) (chain_bin d')"

lemma file_extends_refl: "file_extends a a"
  by (cases a) (auto simp: file_extends_def)

lemma file_extends_trans: "file_extends a b \<Longrightarrow> file_extends b c \<Longrightarrow> file_extends a c"
  by (auto simp: file_extends_def split: option.splits)

lemma disk_extends_refl: "disk_extends d d"
  by (simp add: disk_extends_def file_extends_refl)

lemma disk_extends_trans: "disk_extends a b \<Longrightarrow> disk_extends b c \<Longrightarrow> disk_extends a c"
  unfolding disk_extends_def using file_extends_trans by metis

lemma apply_write_extends: "disk_extends d (apply_write w d)"
  by (cases w) (auto simp: disk_extends_def file_extends_def split: option.splits)

lemma fold_writes_extends: "disk_extends d (fold apply_write ws d)"
proof (induction ws arbitrary: d)
  case (Cons w ws)
  then show ?case using disk_extends_trans [OF apply_write_extends Cons.IH] by simp
qed (simp add: disk_extends_refl)

lemma crash_disk_extends: "disk_extends d (crash_disk ws k j d)"
  unfolding crash_disk_def Let_def
  using disk_extends_trans [OF fold_writes_extends apply_write_extends] fold_writes_extends by simp

lemma truncate_file_extends:
  "file_extends a b \<Longrightarrow> truncate_file a n = Inr f \<Longrightarrow> truncate_file b n = Inr f"
  by (auto simp: truncate_file_def file_extends_def split: option.splits if_splits)

lemma prepare_extends: "disk_extends d d' \<Longrightarrow> disk_extends (prepare_files m d) (prepare_files m d')"
  unfolding prepare_files_def Let_def set_aside_def disk_extends_def file_extends_def
  by (auto split: option.splits)

lemma load_store_files:
  assumes "read_checkpoint d = Inr (a, b, c)" and "truncate_file (filters_bin d) a = Inr f"
    and "truncate_file (index_bin d) b = Inr i" and "truncate_file (chain_bin d) c = Inr ch"
  shows "load_store m d = (d \<lparr> filters_bin := f, index_bin := i, chain_bin := ch \<rparr>,
     bindR (parse_index (the i)) (\<lambda>idx. bindR (parse_chain (the ch)) (\<lambda>chn.
       Inr \<lparr> fs_meta = m, by_hash = idx, fs_chain = chn, filters_len = a \<rparr>)))"
  using assms by (simp add: load_store_def Let_def)

lemma load_store_Inr:
  assumes "load_store m d = (d0, Inr st)"
  obtains a b c f i ch where "read_checkpoint d = Inr (a, b, c)" "truncate_file (filters_bin d) a = Inr f"
    "truncate_file (index_bin d) b = Inr i" "truncate_file (chain_bin d) c = Inr ch"
  using assms by (auto simp: load_store_def Let_def split: sum.splits)

lemma load_store_extends:
  assumes "disk_extends d d'" and "load_store m d = (d0, Inr st)"
  shows "load_store m d' = (d0, Inr st)"
proof -
  obtain a b c f i ch where r: "read_checkpoint d = Inr (a, b, c)" "truncate_file (filters_bin d) a = Inr f"
    "truncate_file (index_bin d) b = Inr i" "truncate_file (chain_bin d) c = Inr ch"
    using load_store_Inr [OF assms(2)] by blast
  have "read_checkpoint d' = Inr (a, b, c)" using r(1) assms(1) by (simp add: read_checkpoint_def disk_extends_def)
  moreover have "truncate_file (filters_bin d') a = Inr f" "truncate_file (index_bin d') b = Inr i"
    "truncate_file (chain_bin d') c = Inr ch"
    using assms(1) r truncate_file_extends unfolding disk_extends_def by blast+
  moreover have "d' \<lparr> filters_bin := f, index_bin := i, chain_bin := ch \<rparr>
      = d \<lparr> filters_bin := f, index_bin := i, chain_bin := ch \<rparr>"
    using assms(1) by (cases d, cases d') (simp add: disk_extends_def)
  ultimately show ?thesis
    using load_store_files [OF r, of m] load_store_files [of d' a b c f i ch m] assms(2) by simp
qed

section \<open>The store is an accepted chain\<close>

definition chain_fits :: "filter_store \<Rightarrow> bool" where
  "chain_fits st \<longleftrightarrow> unat (fs_start_height st) + length (fs_chain st) < 2 ^ 64"

lemma unat_start_plus:
  assumes "chain_fits st" and "i < length (fs_chain st)"
  shows "unat (fs_start_height st + of_nat i) = unat (fs_start_height st) + i"
proof -
  have "unat (of_nat i :: u64) = i" using assms by (simp add: chain_fits_def unat_of_nat_u64)
  then show ?thesis using assms unat_add_nowrap [of "fs_start_height st" "of_nat i"] by (simp add: chain_fits_def)
qed

lemma block_hash_at_offset:
  assumes "chain_fits st" and "i < length (fs_chain st)"
  shows "block_hash_at st (fs_start_height st + of_nat i) = Some (fs_chain st ! i)"
proof -
  note u = unat_start_plus [OF assms]
  have "fs_start_height st + of_nat i - fs_start_height st = of_nat i" by simp
  moreover have "unat (of_nat i :: u64) = i" using assms by (simp add: chain_fits_def unat_of_nat_u64)
  moreover have "\<not> fs_start_height st + of_nat i < fs_start_height st" using u by (simp add: word_less_nat_alt)
  ultimately show ?thesis using assms(2) by (simp add: block_hash_at_def Let_def)
qed

lemma block_hash_at_Some:
  assumes "block_hash_at st n = Some h"
  obtains i where "i < length (fs_chain st)" "fs_chain st ! i = h" "n = fs_start_height st + of_nat i"
  using assms by (auto simp: block_hash_at_def Let_def split: if_splits intro!: that)

lemma fs_height_of_Some:
  assumes "fs_height_of st h = Some n"
  obtains i where "i < length (fs_chain st)" "fs_chain st ! i = h" "n = fs_start_height st + of_nat i"
  using assms by (auto simp: fs_height_of_def find_Some_iff nth_enumerate_eq intro: that)

interpretation fs: accepted_chain chain_fits block_hash_at fs_height_of
proof
  fix c h n
  assume "chain_fits c" "fs_height_of c h = Some n"
  then show "block_hash_at c n = Some h" by (auto elim!: fs_height_of_Some simp: block_hash_at_offset)
next
  fix c n h
  assume "chain_fits c" "block_hash_at c n = Some h"
  then obtain i where "i < length (fs_chain c)" "fs_chain c ! i = h" by (auto elim: block_hash_at_Some)
  then show "fs_height_of c h \<noteq> None"
    by (auto simp: fs_height_of_def find_None_iff set_zip enumerate_eq_zip)
qed

section \<open>Properties\<close>

text \<open>
  C10. A crash anywhere inside \<open>append\<close>, in the middle of a write included, loses at most that append:
  opening the store on the disk it leaves gives exactly the disk and the store that opening it before the
  append would have given. No committed filter or height is lost and none is invented.
\<close>

theorem append_crash_safe:
  assumes "open_store p g n d = (d0, Inr st0)"
  shows "open_store p g n (crash_disk (append_writes sha256 h filt st) k j d) = (d0, Inr st0)"
  using load_store_extends [OF prepare_extends [OF crash_disk_extends]] assms
  unfolding open_store_eq by blast

text \<open>
  The store survives a restart: after \<open>commit\<close>, opening the directory with the same identity
  rebuilds exactly the in-memory store from the files, byte for byte the location of every filter and
  the hash at every covered height, and changes no file.
\<close>

lemma reopen_after_commit:
  assumes "store_ok sha256 (d, st)" and "sm_version (fs_meta st) = STORE_VERSION"
  shows "open_store (sm_profile (fs_meta st)) (sm_genesis_hash (fs_meta st)) (sm_start_height (fs_meta st))
           (fst (commit (d, st))) = (fst (commit (d, st)), Inr st)"
  by (rule open_committed [OF assms(1)]) (use assms(2) in \<open>simp add: wanted_meta_def\<close>)

text \<open>
  C12. \<open>append\<close> and \<open>rollback_to\<close> implement the abstract archive. Appending extends the coverage by the one
  block at the next height and makes its filter readable, keeps every other filter, keeps the content
  of a block that was already stored (which then has the same digest), and preserves the invariant;
  rolling back truncates the coverage and keeps every filter readable.
\<close>

theorem store_refines_archive:
  assumes "store_ok sha256 s" and "append sha256 height h filt s = Inr s'"
    and "\<And>x. length (sha256 x) = 32" and "hash_ok h" and "length filt < 2 ^ 32"
    and "unat (filters_len (snd s)) + length filt < 2 ^ 64"
    and "unat (fs_start_height (snd s)) + length (fs_chain (snd s)) + 1 < 2 ^ 64
         \<and> (length (fs_chain (snd s)) + 1) * CHAIN_RECORD_BYTES < 2 ^ 64"
    and "(length (by_hash (snd s)) + 1) * INDEX_RECORD_BYTES < 2 ^ 64"
  shows "store_ok sha256 s'
    \<and> unat height = unat (fs_start_height (snd s)) + length (coverage (store_abs s))
    \<and> coverage (store_abs s') = coverage (store_abs s) @ [h]
    \<and> contents (store_abs s') = (case contents (store_abs s) h of
         None \<Rightarrow> (contents (store_abs s))(h \<mapsto> filt) | Some c \<Rightarrow> contents (store_abs s))
    \<and> (\<exists>c. filter_by_hash s' h = Inr (Some \<lparr> sf_block_hash = h, sf_bytes = c, sf_digest = filter_hash sha256 c \<rparr>)
          \<and> filter_hash sha256 c = filter_hash sha256 filt \<and> (contents (store_abs s) h = None \<longrightarrow> c = filt))
    \<and> store_ok sha256 (rollback_to m s')
    \<and> contents (store_abs (rollback_to m s')) = contents (store_abs s')
    \<and> coverage (store_abs (rollback_to m s')) = take (rollback_keep m (snd s')) (coverage (store_abs s'))"
proof (intro conjI)
  show ok: "store_ok sha256 s'" by (rule append_ok [OF assms])
  show "coverage (store_abs s') = coverage (store_abs s) @ [h]" by (rule append_abs(1) [OF assms(1,2,5,6)])
  show cont: "contents (store_abs s') = (case contents (store_abs s) h of
         None \<Rightarrow> (contents (store_abs s))(h \<mapsto> filt) | Some c \<Rightarrow> contents (store_abs s))"
    by (rule append_abs(2) [OF assms(1,2,5,6)])
  obtain d st where s: "s = (d, st)" by (cases s)
  have "height = next_height st" using assms(2) s by (auto simp: append_def split: if_splits)
  then have "height = fs_start_height st + of_nat (length (fs_chain st))"
    using next_height_eq assms(7) s by simp
  moreover have "unat (of_nat (length (fs_chain st)) :: u64) = length (fs_chain st)"
    using assms(7) s by (simp add: unat_of_nat_u64)
  ultimately show "unat height = unat (fs_start_height (snd s)) + length (coverage (store_abs s))"
    using assms(7) s unat_add_nowrap [of "fs_start_height st" "of_nat (length (fs_chain st))"]
    by (simp add: store_abs_def)
  show "\<exists>c. filter_by_hash s' h = Inr (Some \<lparr> sf_block_hash = h, sf_bytes = c, sf_digest = filter_hash sha256 c \<rparr>)
          \<and> filter_hash sha256 c = filter_hash sha256 filt \<and> (contents (store_abs s) h = None \<longrightarrow> c = filt)"
    using filter_by_hash_contents [OF ok, of h] cont append_abs(3) [OF assms(1,2,5,6)]
    by (cases "contents (store_abs s) h") auto
qed (simp_all add: rollback_abs rollback_ok append_ok [OF assms])

text \<open>
  A crash inside \<open>rollback_to\<close> can leave a store that does not open: between the truncation of
  \<open>chain.bin\<close>, which is made durable first, and the new checkpoint, the file is shorter than the checkpoint
  on disk says, and \<open>open\<close> returns an error instead of recovering.
\<close>

lemma rollback_crash_unopenable:
  assumes ok: "store_ok sha256 (d, st)" and "sm_version (fs_meta st) = STORE_VERSION" and k: "k < length (fs_chain st)"
  shows "snd (open_store (sm_profile (fs_meta st)) (sm_genesis_hash (fs_meta st)) (sm_start_height (fs_meta st))
           (fst (truncate_chain k (commit (d, st))))) = Inl (Invariant ''file is shorter than its checkpoint'')"
proof -
  let ?d = "fst (truncate_chain k (commit (d, st)))"
  let ?m = "wanted_meta (sm_profile (fs_meta st)) (sm_genesis_hash (fs_meta st)) (sm_start_height (fs_meta st))"
  let ?c = "set_len (k * CHAIN_RECORD_BYTES) (concat (fs_chain st))"
  have m: "?m = fs_meta st" using assms(2) by (simp add: wanted_meta_def)
  obtain f where tr: "filters_bin d = Some f" "truncate_file (Some f) (filters_len st) = Inr (Some f)"
    "truncate_file (Some (index_bytes (by_hash st))) (of_nat (length (by_hash st) * INDEX_RECORD_BYTES)) = Inr (Some (index_bytes (by_hash st)))"
    using truncate_committed [OF ok] by blast
  have f: "index_bin d = Some (index_bytes (by_hash st))" "chain_bin d = Some (concat (fs_chain st))"
    "meta_json d = Meta_Found (fs_meta st)" "length (fs_chain st) * CHAIN_RECORD_BYTES < 2 ^ 64"
    using ok by (auto elim: store_okE)
  have files: "filters_bin ?d = Some f" "index_bin ?d = Some (index_bytes (by_hash st))"
    "chain_bin ?d = Some ?c" "meta_json ?d = Meta_Found ?m"
    using f tr(1) m by (simp_all add: commit_def truncate_chain_def)
  have "length (concat (fs_chain st)) = length (fs_chain st) * 32"
    using length_concat_const [OF chain_hashes_ok [OF ok]] by simp
  then have "length ?c = k * CHAIN_RECORD_BYTES"
    using k by (simp add: set_len_def CHAIN_RECORD_BYTES_def min_def del: length_concat)
  then have short: "truncate_file (Some ?c) (of_nat (length (fs_chain st) * CHAIN_RECORD_BYTES))
      = Inl (Invariant ''file is shorter than its checkpoint'')"
    using k unat_of_nat_u64 [OF f(4)] by (simp add: truncate_file_def CHAIN_RECORD_BYTES_def del: of_nat_mult)
  have "read_checkpoint ?d = read_checkpoint (fst (commit (d, st)))"
    by (simp add: read_checkpoint_def truncate_chain_def commit_def)
  then show ?thesis
    unfolding open_store_eq prepare_files_same [OF files(4,1,2,3)] load_store_def read_checkpoint_commit
    using files tr(2,3) short by (simp add: Let_def del: of_nat_mult)
qed

section \<open>Witnesses\<close>

definition sample_sha256 :: "bytes \<Rightarrow> bytes" where
  "sample_sha256 bs = take 32 (bs @ replicate 32 7)"

definition sample_meta :: store_meta where
  "sample_meta = \<lparr> sm_version = STORE_VERSION, sm_profile = PROFILE, sm_genesis_hash = ''00'', sm_start_height = 5 \<rparr>"

definition sample_empty :: "store_disk \<times> filter_store" where
  "sample_empty =
     (\<lparr> meta_json = Meta_Found sample_meta, filters_bin = Some [], index_bin = Some [], chain_bin = Some [],
        checkpoint_bin = None \<rparr>,
      \<lparr> fs_meta = sample_meta, by_hash = [], fs_chain = [], filters_len = 0 \<rparr>)"

definition sample_state :: "store_disk \<times> filter_store" where
  "sample_state = projr (append sample_sha256 5 (replicate 32 2) [0] sample_empty)"

lemma length_sample_sha256: "length (sample_sha256 x) = 32"
  by (simp add: sample_sha256_def)

lemma sample_empty_ok: "store_ok sample_sha256 sample_empty"
  by (simp add: store_ok_def sample_empty_def index_bytes_def fs_start_height_def sample_meta_def)

lemma sample_append: "append sample_sha256 5 (replicate 32 2) [0] sample_empty = Inr sample_state"
  by (simp add: sample_state_def append_def sample_empty_def next_height_def covered_through_def
      fs_start_height_def sample_meta_def Let_def)

lemma sample_state_ok: "store_ok sample_sha256 sample_state"
  by (rule append_ok [OF sample_empty_ok sample_append])
     (simp_all add: length_sample_sha256 hash_ok_def sample_empty_def fs_start_height_def sample_meta_def
       CHAIN_RECORD_BYTES_def INDEX_RECORD_BYTES_def)

lemma sample_state_parts:
  "fs_meta (snd sample_state) = sample_meta" "fs_chain (snd sample_state) = [replicate 32 2]"
  by code_simp+

lemma sample_state_ok': "store_ok sample_sha256 (fst sample_state, snd sample_state)"
  using sample_state_ok by simp

lemma sample_identity:
  "sm_profile (fs_meta (snd sample_state)) = PROFILE" "sm_genesis_hash (fs_meta (snd sample_state)) = ''00''"
  "sm_start_height (fs_meta (snd sample_state)) = 5"
  unfolding sample_state_parts by (simp_all add: sample_meta_def)

theorem append_crash_safe_witness:
  "open_store PROFILE ''00'' 5 (crash_disk (append_writes sample_sha256 (replicate 32 3) [1, 2] (snd sample_state)) 1 9
       (fst (commit sample_state))) = (fst (commit sample_state), Inr (snd sample_state))"
proof (rule append_crash_safe)
  have "fs_meta (snd sample_state) = wanted_meta PROFILE ''00'' 5"
    unfolding sample_state_parts by (simp add: sample_meta_def wanted_meta_def)
  from open_committed [OF sample_state_ok' this]
  show "open_store PROFILE ''00'' 5 (fst (commit sample_state)) = (fst (commit sample_state), Inr (snd sample_state))"
    by simp
qed

theorem store_refines_archive_witness:
  "coverage (store_abs sample_state) = [replicate 32 2]
   \<and> filter_by_hash sample_state (replicate 32 2) = Inr (Some \<lparr> sf_block_hash = replicate 32 2, sf_bytes = [0],
        sf_digest = filter_hash sample_sha256 [0] \<rparr>)
   \<and> coverage (store_abs (rollback_to None sample_state)) = []"
proof -
  have c: "coverage (store_abs sample_empty) = []" "contents (store_abs sample_empty) (replicate 32 2) = None"
    by (simp_all add: store_abs_def sample_empty_def)
  have k: "rollback_keep None (snd sample_state) = 0" by (simp add: rollback_keep_def)
  have fits: "hash_ok (replicate 32 (2 :: u8))" "length [0 :: u8] < 2 ^ 32"
    "unat (filters_len (snd sample_empty)) + length [0 :: u8] < 2 ^ 64"
    "unat (fs_start_height (snd sample_empty)) + length (fs_chain (snd sample_empty)) + 1 < 2 ^ 64
      \<and> (length (fs_chain (snd sample_empty)) + 1) * CHAIN_RECORD_BYTES < 2 ^ 64"
    "(length (by_hash (snd sample_empty)) + 1) * INDEX_RECORD_BYTES < 2 ^ 64"
    by (simp_all add: hash_ok_def sample_empty_def fs_start_height_def sample_meta_def CHAIN_RECORD_BYTES_def INDEX_RECORD_BYTES_def)
  show ?thesis
    using store_refines_archive [OF sample_empty_ok sample_append length_sample_sha256 fits, of None] c k by auto
qed

end
