(* ===== verification/Filter_Service.thy ===== *)
theory Filter_Service
  imports Filter_Store
begin

text \<open>
  The HTTP surface of the filter service, \<open>server/transparent-filter-server/src/service.rs\<close>: the shared
  state, and the range, chain, readiness, health and info handlers. A handler runs under the read lock,
  so it sees one state; a response is its status with its body. \<open>hex_decode\<close> and \<open>hex_encode\<close> stand for the
  \<open>hex\<close> crate, JSON bodies are their fields.
\<close>

section \<open>State\<close>

datatype phase = Syncing "u64 option" u64 | Serving | Failed string

fun phase_name :: "phase \<Rightarrow> string" where
  "phase_name (Syncing _ _) = ''syncing''"
| "phase_name Serving = ''serving''"
| "phase_name (Failed _) = ''failed''"

record service_state =
  sv_store :: "store_disk \<times> filter_store"
  sv_phase :: phase
  sv_tip_height :: "u64 option"

definition service_new :: "store_disk \<times> filter_store \<Rightarrow> service_state" where
  "service_new s = \<lparr> sv_store = s, sv_phase = Syncing None 0, sv_tip_height = None \<rparr>"

definition set_phase :: "phase \<Rightarrow> service_state \<Rightarrow> service_state" where
  "set_phase p sv = sv \<lparr> sv_phase := p \<rparr>"

definition set_tip :: "u64 \<Rightarrow> service_state \<Rightarrow> service_state" where
  "set_tip tip sv = sv \<lparr> sv_tip_height := Some tip \<rparr>"

datatype 'a response =
    Ok_Response 'a
  | Bad_Request string
  | Server_Error string
  | Unavailable string

section \<open>Handlers\<close>

record filter_service_health =
  hl_phase :: string
  hl_detail :: "string option"
  hl_covered_through :: "u64 option"
  hl_tip_height :: "u64 option"
  hl_filters_stored :: u64

definition health :: "service_state \<Rightarrow> filter_service_health response" where
  "health sv = Ok_Response \<lparr> hl_phase = phase_name (sv_phase sv),
     hl_detail = (case sv_phase sv of
        Failed reason \<Rightarrow> Some reason
      | Syncing current_height target_height \<Rightarrow>
          Some (''at '' @ (case current_height of None \<Rightarrow> ''nothing'' | Some h \<Rightarrow> decimal (unat h))
            @ '' of '' @ decimal (unat target_height))
      | Serving \<Rightarrow> None),
     hl_covered_through = covered_through (snd (sv_store sv)),
     hl_tip_height = sv_tip_height sv,
     hl_filters_stored = filters_stored (snd (sv_store sv)) \<rparr>"

record filter_service_info =
  in_genesis_hash :: string
  in_network :: string
  in_profile :: bytes
  in_envelope_version :: u16
  in_start_height :: u64
  in_covered_through :: "u64 option"
  in_covered_block_hash :: "string option"
  in_max_records_per_batch :: u64
  in_max_filter_bytes :: nat

definition info :: "(bytes \<Rightarrow> string) \<Rightarrow> service_state \<Rightarrow> filter_service_info response" where
  "info hex_encode sv = (let st = snd (sv_store sv) in
     Ok_Response \<lparr> in_genesis_hash = sm_genesis_hash (fs_meta st), in_network = NETWORK, in_profile = sm_profile (fs_meta st),
       in_envelope_version = ENVELOPE_VERSION, in_start_height = fs_start_height st,
       in_covered_through = covered_through st,
       in_covered_block_hash = map_option (to_display_hex hex_encode)
         (Option.bind (covered_through st) (block_hash_at st)),
       in_max_records_per_batch = MAX_RECORDS_PER_BATCH,
       in_max_filter_bytes = max_bytes ZCASH_MAINNET \<rparr>)"

text \<open>\<open>for height in start..end\<close>, stopping at the first height that is not covered.\<close>

fun chain_entries :: "filter_store \<Rightarrow> nat \<Rightarrow> u64 \<Rightarrow> (u64 \<times> block_hash) list" where
  "chain_entries st 0 height = []"
| "chain_entries st (Suc n) height =
     (case block_hash_at st height of
        Some h \<Rightarrow> (height, h) # chain_entries st n (height + 1)
      | None \<Rightarrow> [])"

definition chain_handler ::
  "(bytes \<Rightarrow> string) \<Rightarrow> service_state \<Rightarrow> u64 \<Rightarrow> u64 \<Rightarrow> (u64 \<times> string) list response" where
  "chain_handler hex_encode sv start_height n =
     (if n = 0 \<or> n > 10000 then Bad_Request ''count must be between 1 and 10000''
      else let stop = saturating_add start_height n in
        Ok_Response (map (\<lambda>(height, h). (height, to_display_hex hex_encode h))
          (chain_entries (snd (sv_store sv)) (unat (stop - start_height)) start_height)))"

definition range_record ::
  "store_disk \<times> filter_store \<Rightarrow> u64 \<Rightarrow> bytes response + filter_record" where
  "range_record s height =
     (case block_hash_at (snd s) height of
        None \<Rightarrow> Inl (Bad_Request ''coverage changed while the batch was being assembled'')
      | Some h \<Rightarrow>
        (case filter_by_hash s h of
           Inr (Some stored) \<Rightarrow> Inr \<lparr> fr_height = height, fr_block_hash = h, fr_filter = sf_bytes stored \<rparr>
         | Inr None \<Rightarrow> Inl (Server_Error ''no stored filter at height'')
         | Inl e \<Rightarrow> Inl (Server_Error ''store error'')))"

definition range_handler ::
  "(string \<Rightarrow> bytes option) \<Rightarrow> service_state \<Rightarrow> u64 \<Rightarrow> string \<Rightarrow> bytes response" where
  "range_handler hex_decode sv start_height stop_text =
     (let s = sv_store sv; st = snd s in
      case from_display_hex hex_decode stop_text of
        Inl e \<Rightarrow> Bad_Request ''block hash error''
      | Inr stop_block_hash \<Rightarrow>
        (case fs_height_of st stop_block_hash of
           None \<Rightarrow> Bad_Request ''stop_block_hash is not a covered block on the current branch''
         | Some stop_height \<Rightarrow>
           if start_height < fs_start_height st
           then Bad_Request ''start_height is below the start height of the service''
           else if start_height > stop_height
           then Bad_Request ''start_height is above the height of the stop block''
           else
             let n = min (stop_height - start_height + 1) MAX_RECORDS_PER_BATCH in
             (case mapR (\<lambda>i. range_record s (start_height + of_nat i)) [0..<unat n] of
                Inl r \<Rightarrow> r
              | Inr records \<Rightarrow>
                (case from_display_hex hex_decode (sm_genesis_hash (fs_meta st)) of
                   Inl e \<Rightarrow> Server_Error ''block hash error''
                 | Inr genesis \<Rightarrow>
                   let bs = encode \<lparr> fb_version = ENVELOPE_VERSION, fb_genesis = genesis,
                         fb_profile = sm_profile (fs_meta st), fb_start_height = start_height,
                         fb_stop_block_hash = stop_block_hash, fb_records = records \<rparr> in
                   if length bs > MAX_BATCH_BYTES
                   then Server_Error ''assembled batch is over the envelope limit''
                   else Ok_Response bs))))"

definition ready :: "service_state \<Rightarrow> u64 response" where
  "ready sv =
     (case (sv_phase sv, covered_through (snd (sv_store sv))) of
        (Failed reason, _) \<Rightarrow> Unavailable reason
      | (_, None) \<Rightarrow> Unavailable ''no coverage yet''
      | (_, Some height) \<Rightarrow> Ok_Response height)"

section \<open>Lemmas\<close>

lemma covered_has_content:
  assumes "store_ok sha256 s" and "block_hash_at (snd s) n = Some h"
  shows "hash_ok h" and "\<exists>c. contents (store_abs s) h = Some c"
proof -
  obtain d st where s: "s = (d, st)" by (cases s)
  have "h \<in> set (fs_chain st)" using assms(2) s by (auto elim: block_hash_at_Some)
  then have "h \<in> fst ` set (by_hash st)" "\<forall>e \<in> set (by_hash st). hash_ok (fst e)"
    using assms(1) s by (auto elim!: store_okE simp: entry_ok_def)
  then show "hash_ok h" "\<exists>c. contents (store_abs s) h = Some c"
    using s by (auto simp: store_abs_def weak_map_of_SomeI)
qed

lemma range_record_ok:
  assumes "store_ok sha256 s" and "block_hash_at (snd s) n = Some h"
  shows "range_record s n = Inr \<lparr> fr_height = n, fr_block_hash = h, fr_filter = the (contents (store_abs s) h) \<rparr>"
  using covered_has_content [OF assms] filter_by_hash_contents [OF assms(1), of h] assms(2)
  by (auto simp: range_record_def)

lemma range_covered:
  assumes ok: "store_ok sha256 s" and st: "chain_fits (snd s)"
    and stop: "fs_height_of (snd s) stop = Some stop_height"
    and le: "fs_start_height (snd s) \<le> start" "start \<le> stop_height"
    and i: "i < unat (min (stop_height - start + 1) MAX_RECORDS_PER_BATCH)"
  shows "\<exists>h. block_hash_at (snd s) (start + of_nat i) = Some h"
proof -
  let ?s0 = "fs_start_height (snd s)"
  obtain k where k: "k < length (fs_chain (snd s))" "stop_height = ?s0 + of_nat k"
    using stop by (auto elim: fs_height_of_Some)
  have us: "unat stop_height = unat ?s0 + k" using unat_start_plus [OF st k(1)] k(2) by simp
  then have "unat stop_height < 2 ^ 64 - 1" using st k(1) by (simp add: chain_fits_def)
  then have "unat (min (stop_height - start + 1) MAX_RECORDS_PER_BATCH) = min (unat stop_height - unat start + 1) 1000"
    using unat_wanted [OF le(2)] by (simp add: wanted_records_def)
  then have i': "i \<le> unat stop_height - unat start" using i by simp
  define j where "j = unat start - unat ?s0 + i"
  have ge: "unat ?s0 \<le> unat start" "unat start \<le> unat stop_height" using le by (simp_all add: word_le_nat_alt)
  then have j: "j < length (fs_chain (snd s))" using i' us k(1) by (simp add: j_def)
  have "start + of_nat i = ?s0 + of_nat j"
    using ge by (simp add: j_def word_unat_eq_iff of_nat_diff)
  then show ?thesis using block_hash_at_offset [OF st j] by auto
qed

lemma content_small:
  assumes "store_ok sha256 s" and "contents (store_abs s) h = Some c"
  shows "length c < 2 ^ 64"
proof -
  obtain d st where s: "s = (d, st)" by (cases s)
  obtain f where f: "filters_bin d = Some f" "length f = unat (filters_len st)"
    using assms(1) s by (auto elim: store_okE)
  obtain loc where "c = slice f loc" using assms(2) s f(1) by (auto simp: store_abs_def)
  then have "length c \<le> length f" by (simp add: slice_def)
  then show ?thesis using f(2) unat_u64_lt [of "filters_len st"] by simp
qed

definition range_batch :: "store_disk \<times> filter_store \<Rightarrow> block_hash \<Rightarrow> u64 \<Rightarrow> block_hash \<Rightarrow> nat \<Rightarrow> filter_batch" where
  "range_batch s genesis start stop n = \<lparr> fb_version = ENVELOPE_VERSION, fb_genesis = genesis,
     fb_profile = sm_profile (fs_meta (snd s)), fb_start_height = start, fb_stop_block_hash = stop,
     fb_records = map (\<lambda>i. let h = the (block_hash_at (snd s) (start + of_nat i)) in
       \<lparr> fr_height = start + of_nat i, fr_block_hash = h, fr_filter = the (contents (store_abs s) h) \<rparr>) [0..<n] \<rparr>"

lemma mapR_map: "(\<And>x. x \<in> set xs \<Longrightarrow> f x = Inr (g x)) \<Longrightarrow> mapR f xs = Inr (map g xs)"
  by (induction xs) auto

lemma profile_ok: "length PROFILE = 26" "valid_utf8 PROFILE"
  by code_simp+

lemma range_batch_ok:
  assumes ok: "store_ok sha256 s" and fits: "chain_fits (snd s)" and p: "sm_profile (fs_meta (snd s)) = PROFILE"
    and g: "hash_ok genesis" and stop: "fs_height_of (snd s) stop = Some stop_height"
    and le: "fs_start_height (snd s) \<le> start" "start \<le> stop_height"
  defines "n \<equiv> unat (min (stop_height - start + 1) MAX_RECORDS_PER_BATCH)"
  shows "batch_ok (range_batch s genesis start stop n)" and "n \<le> 1000"
proof -
  show n: "n \<le> 1000" by (auto simp: n_def min_def MAX_RECORDS_PER_BATCH_def word_le_nat_alt)
  have "hash_ok stop" using covered_has_content(1) [OF ok fs.height_of_sound [OF fits stop]] .
  moreover have "record_ok r" if r: "r \<in> set (fb_records (range_batch s genesis start stop n))" for r
  proof -
    obtain i where i: "i < n" "r = (let h = the (block_hash_at (snd s) (start + of_nat i)) in
       \<lparr> fr_height = start + of_nat i, fr_block_hash = h, fr_filter = the (contents (store_abs s) h) \<rparr>)"
      using r by (auto simp: range_batch_def)
    obtain h where h: "block_hash_at (snd s) (start + of_nat i) = Some h"
      using range_covered [OF ok fits stop le] i(1) n_def by blast
    then show ?thesis
      using covered_has_content [OF ok h] content_small [OF ok] i(2) by (auto simp: record_ok_def Let_def)
  qed
  ultimately show "batch_ok (range_batch s genesis start stop n)"
    using p g n profile_ok by (simp add: batch_ok_def range_batch_def)
qed

section \<open>Properties\<close>

text \<open>The records the handler assembles, and what the client's check makes of them.\<close>

lemma range_records_batch:
  assumes ok: "store_ok sha256 s" and fits: "chain_fits (snd s)" and stop: "fs_height_of (snd s) stop = Some stop_height"
    and le: "fs_start_height (snd s) \<le> start" "start \<le> stop_height" and n: "n = unat (min (stop_height - start + 1) MAX_RECORDS_PER_BATCH)"
  shows "mapR (\<lambda>i. range_record s (start + of_nat i)) [0..<n] = Inr (fb_records (range_batch s genesis start stop n))"
proof -
  let ?b = "range_batch s genesis start stop n"
  have rec: "range_record s (start + of_nat i) = Inr (fb_records ?b ! i)" if i: "i < n" for i
  proof -
    obtain h where h: "block_hash_at (snd s) (start + of_nat i) = Some h"
      using range_covered [OF ok fits stop le i [unfolded n]] by blast
    then show ?thesis using range_record_ok [OF ok h] i by (simp add: range_batch_def)
  qed
  have len: "length (fb_records ?b) = n" by (simp add: range_batch_def)
  have "mapR (\<lambda>i. range_record s (start + of_nat i)) [0..<n] = Inr (map (\<lambda>i. fb_records ?b ! i) [0..<n])"
    using rec by (intro mapR_map) auto
  also have "map (\<lambda>i. fb_records ?b ! i) [0..<n] = fb_records ?b" using len map_nth by metis
  finally show "mapR (\<lambda>i. range_record s (start + of_nat i)) [0..<n] = Inr (fb_records ?b)" .
qed

lemma range_batch_accepted:
  assumes ok: "store_ok sha256 s" and fits: "chain_fits (snd s)" and p: "sm_profile (fs_meta (snd s)) = PROFILE"
    and stop: "fs_height_of (snd s) stop = Some stop_height" and le: "fs_start_height (snd s) \<le> start" "start \<le> stop_height"
    and valid: "\<forall>h c. contents (store_abs s) h = Some c \<longrightarrow> (\<exists>f. validate_filter c L = Inr f)"
    and n: "n = unat (min (stop_height - start + 1) MAX_RECORDS_PER_BATCH)"
  shows "\<exists>cs. check_batch (block_hash_at (snd s)) (fs_height_of (snd s)) (range_batch s genesis start stop n)
      \<lparr> rq_genesis = genesis, rq_profile = PROFILE, rq_start_height = start, rq_stop_block_hash = stop \<rparr> L = Inr cs \<and> cs \<noteq> []"
proof -
  let ?b = "range_batch s genesis start stop n"
  have len: "length (fb_records ?b) = n" by (simp add: range_batch_def)
  define cs where "cs = map (\<lambda>r. \<lparr> cr_height = fr_height r, cr_block_hash = fr_block_hash r,
      cr_filter = projr (validate_filter (fr_filter r) L) \<rparr>) (fb_records ?b)"
  have rc: "record_checks (block_hash_at (snd s)) L (start + of_nat i) (fb_records ?b ! i) (cs ! i)" if i: "i < n" for i
  proof -
    obtain h where h: "block_hash_at (snd s) (start + of_nat i) = Some h"
      using range_covered [OF ok fits stop le i [unfolded n]] by blast
    obtain c where c: "contents (store_abs s) h = Some c" using covered_has_content [OF ok h] by blast
    obtain f where "validate_filter c L = Inr f" using valid c by blast
    then show ?thesis using i h c len by (simp add: record_checks_def cs_def range_batch_def)
  qed
  have "unat stop_height < 2 ^ 64 - 1"
    using stop fits unat_start_plus [OF fits] by (auto elim!: fs_height_of_Some simp: chain_fits_def)
  then have "n > 0" using unat_wanted [OF le(2)] by (simp add: wanted_records_def n)
  moreover have "of_nat (length (fb_records ?b)) = wanted_records start stop_height"
    using len by (simp add: wanted_records_def n)
  ultimately have "check_batch (block_hash_at (snd s)) (fs_height_of (snd s)) ?b
      \<lparr> rq_genesis = genesis, rq_profile = PROFILE, rq_start_height = start, rq_stop_block_hash = stop \<rparr> L = Inr cs \<and> cs \<noteq> []"
    unfolding check_batch_iff batch_matches_def using rc len stop le(2) p
    by (auto simp: cs_def) (simp_all add: range_batch_def)
  then show ?thesis by blast
qed

text \<open>
  C17. What the service serves, the wallet accepts. For every covered stop block and every start between
  the service's first height and it, the range handler answers with one envelope (or reports that it would
  exceed the envelope limit, and never any other error), the wallet's decoder returns the assembled
  batch, and \<open>check_batch\<close> against a wallet that accepts the same chain succeeds with all of the records,
  provided the stored filters pass validation.
\<close>

theorem range_served_is_accepted:
  assumes ok: "store_ok sha256 (sv_store sv)" and p: "sm_profile (fs_meta (snd (sv_store sv))) = PROFILE"
    and dec: "from_display_hex hex_decode stop_text = Inr stop"
      "from_display_hex hex_decode (sm_genesis_hash (fs_meta (snd (sv_store sv)))) = Inr genesis"
    and stop: "fs_height_of (snd (sv_store sv)) stop = Some stop_height"
    and le: "fs_start_height (snd (sv_store sv)) \<le> start" "start \<le> stop_height"
    and valid: "\<forall>h c. contents (store_abs (sv_store sv)) h = Some c \<longrightarrow> (\<exists>f. validate_filter c L = Inr f)"
  shows "\<exists>b. range_handler hex_decode sv start stop_text =
      (if length (encode b) \<le> MAX_BATCH_BYTES then Ok_Response (encode b)
       else Server_Error ''assembled batch is over the envelope limit'')
    \<and> (length (encode b) \<le> MAX_BATCH_BYTES \<longrightarrow> decode (encode b) = Inr b)
    \<and> (\<exists>cs. check_batch (block_hash_at (snd (sv_store sv))) (fs_height_of (snd (sv_store sv))) b
          \<lparr> rq_genesis = genesis, rq_profile = PROFILE, rq_start_height = start, rq_stop_block_hash = stop \<rparr> L = Inr cs
        \<and> cs \<noteq> [])"
proof -
  let ?s = "sv_store sv"
  let ?n = "unat (min (stop_height - start + 1) MAX_RECORDS_PER_BATCH)"
  let ?b = "range_batch ?s genesis start stop ?n"
  have fits: "chain_fits (snd ?s)" using ok by (cases ?s) (auto simp: chain_fits_def elim: store_okE)
  have g: "hash_ok genesis" using dec(2) from_display_hex_ok by blast
  note bok = range_batch_ok [OF ok fits p g stop le]
  note recs = range_records_batch [OF ok fits stop le refl, of genesis]
  have h1: "range_handler hex_decode sv start stop_text =
      (if length (encode ?b) \<le> MAX_BATCH_BYTES then Ok_Response (encode ?b)
       else Server_Error ''assembled batch is over the envelope limit'')"
    using dec stop le recs by (simp add: range_handler_def Let_def not_less range_batch_def)
  have h2: "length (encode ?b) \<le> MAX_BATCH_BYTES \<longrightarrow> decode (encode ?b) = Inr ?b"
    using bok(1) by (simp add: decode_iff)
  show ?thesis using h1 h2 range_batch_accepted [OF ok fits p stop le valid refl] by blast
qed

definition sample_hex :: "string \<Rightarrow> bytes option" where
  "sample_hex s = Some (replicate 32 (if s = ''00'' then 1 else 2))"

lemma sample_contents: "contents (store_abs sample_state) = [replicate 32 2 \<mapsto> [0]]"
proof -
  have "unat (filters_len (snd sample_empty)) + length [0 :: u8] < 2 ^ 64" by (simp add: sample_empty_def)
  then show ?thesis
    using append_abs(2) [OF sample_empty_ok sample_append] by (simp add: store_abs_def sample_empty_def)
qed

theorem range_served_is_accepted_witness:
  "\<exists>b cs. range_handler sample_hex (service_new sample_state) 5 ''22'' = Ok_Response (encode b)
     \<and> decode (encode b) = Inr b
     \<and> check_batch (block_hash_at (snd sample_state)) (fs_height_of (snd sample_state)) b
         \<lparr> rq_genesis = replicate 32 1, rq_profile = PROFILE, rq_start_height = 5,
           rq_stop_block_hash = replicate 32 2 \<rparr> ZCASH_MAINNET = Inr cs"
proof -
  let ?sv = "service_new sample_state"
  let ?run = "range_handler sample_hex ?sv 5 ''22''"
  have sv: "sv_store ?sv = sample_state" by (simp add: service_new_def)
  have ok: "store_ok sample_sha256 (sv_store ?sv)" "sm_profile (fs_meta (snd (sv_store ?sv))) = PROFILE"
    "from_display_hex sample_hex ''22'' = Inr (replicate 32 2)"
    "from_display_hex sample_hex (sm_genesis_hash (fs_meta (snd (sv_store ?sv)))) = Inr (replicate 32 1)"
    by (simp_all add: sv sample_state_ok sample_identity sample_hex_def from_display_hex_def)
  have h: "fs_height_of (snd (sv_store ?sv)) (replicate 32 2) = Some 5"
    unfolding sv by code_simp
  have le: "fs_start_height (snd (sv_store ?sv)) \<le> 5" "(5 :: u64) \<le> 5"
    by (simp_all add: sv fs_start_height_def sample_identity)
  have v0: "validate_filter [0] ZCASH_MAINNET = Inr \<lparr> vf_bytes = [0], vf_values = [] \<rparr>" by code_simp
  have valid: "\<forall>h c. contents (store_abs (sv_store ?sv)) h = Some c \<longrightarrow> (\<exists>f. validate_filter c ZCASH_MAINNET = Inr f)"
    using v0 by (simp add: sv sample_contents)
  obtain b cs where b: "?run = (if length (encode b) \<le> MAX_BATCH_BYTES then Ok_Response (encode b)
       else Server_Error ''assembled batch is over the envelope limit'')"
    "length (encode b) \<le> MAX_BATCH_BYTES \<longrightarrow> decode (encode b) = Inr b"
    "check_batch (block_hash_at (snd sample_state)) (fs_height_of (snd sample_state)) b
         \<lparr> rq_genesis = replicate 32 1, rq_profile = PROFILE, rq_start_height = 5,
           rq_stop_block_hash = replicate 32 2 \<rparr> ZCASH_MAINNET = Inr cs"
    using range_served_is_accepted [OF ok h le valid] unfolding sv by blast
  have "(case ?run of Server_Error _ \<Rightarrow> False | _ \<Rightarrow> True)" by code_simp
  then have "length (encode b) \<le> MAX_BATCH_BYTES" using b(1) by (auto split: if_splits)
  with b show ?thesis by auto
qed

end
