(* ===== verification/Filter_Extract.thy ===== *)
theory Filter_Extract
  imports Filter_Matching "HOL-Library.AList"
begin

text \<open>
  From an accepted block to its element set: \<open>extract.rs\<close>, the previous-output cache and resolver of
  \<open>prevout.rs\<close>, and the placement of JSON-RPC batch responses of \<open>zakura.rs\<close>, all of
  \<open>server/transparent-filter-server/src\<close>.

  Blocks are parsed by the third-party \<open>zakura_chain\<close>; a transaction is what this code reads of it: its
  id, the raw locking scripts of its outputs and its inputs. The node's answers are the parameters
  \<open>node\<close> (one transaction) and \<open>node_batch\<close> (several). The \<open>PreviousOutputs\<close> trait is the locale
  \<open>previous_outputs\<close>, over the true locking scripts \<open>truth\<close>; it is interpreted on
  \<open>ZakuraPreviousOutputs\<close> for an honest node, one whose transactions are those of the \<open>ledger\<close>.
\<close>

section \<open>Transactions\<close>

type_synonym tx_hash = bytes
type_synonym out_point = "tx_hash \<times> u32"

datatype tx_input = Coinbase | PrevOut out_point

record transaction =
  tx_id :: tx_hash
  tx_outputs :: "script_bytes list"
  tx_inputs :: "tx_input list"

datatype extract_error =
    Missing_Previous_Output out_point
  | Lookup out_point string

section \<open>Extraction\<close>

type_synonym 's resolver = "out_point \<Rightarrow> 's \<Rightarrow> (string + bytes option) \<times> 's"

definition created_outputs :: "transaction list \<Rightarrow> (out_point \<times> bytes) list" where
  "created_outputs txs =
     fold (\<lambda>tx created.
       fold (\<lambda>(index, script) created. AList.update (tx_id tx, of_nat index) script created)
         (List.enumerate 0 (tx_outputs tx)) created) txs []"

definition push_element :: "script_bytes \<Rightarrow> script_bytes list \<Rightarrow> script_bytes list" where
  "push_element script elements = (if is_filter_element script then elements @ [script] else elements)"

definition extract_input ::
  "(out_point \<times> bytes) list \<Rightarrow> 's resolver \<Rightarrow> tx_input \<Rightarrow> script_bytes list \<times> 's
     \<Rightarrow> (extract_error + script_bytes list) \<times> 's" where
  "extract_input created lock_script input = (\<lambda>(elements, s).
     (case input of
        Coinbase \<Rightarrow> (Inr elements, s)
      | PrevOut op \<Rightarrow>
        (case map_of created op of
           Some bs \<Rightarrow> (Inr (push_element bs elements), s)
         | None \<Rightarrow>
           (case lock_script op s of
              (Inl e, s) \<Rightarrow> (Inl (Lookup op e), s)
            | (Inr None, s) \<Rightarrow> (Inl (Missing_Previous_Output op), s)
            | (Inr (Some bs), s) \<Rightarrow> (Inr (push_element bs elements), s)))))"

fun extract_inputs ::
  "(out_point \<times> bytes) list \<Rightarrow> 's resolver \<Rightarrow> tx_input list \<Rightarrow> script_bytes list \<times> 's
     \<Rightarrow> (extract_error + script_bytes list) \<times> 's" where
  "extract_inputs created lock_script [] (elements, s) = (Inr elements, s)"
| "extract_inputs created lock_script (i # is) (elements, s) =
     (case extract_input created lock_script i (elements, s) of
        (Inl e, s) \<Rightarrow> (Inl e, s)
      | (Inr elements, s) \<Rightarrow> extract_inputs created lock_script is (elements, s))"

fun extract_transactions ::
  "(out_point \<times> bytes) list \<Rightarrow> 's resolver \<Rightarrow> transaction list \<Rightarrow> script_bytes list \<times> 's
     \<Rightarrow> (extract_error + script_bytes list) \<times> 's" where
  "extract_transactions created lock_script [] (elements, s) = (Inr elements, s)"
| "extract_transactions created lock_script (tx # txs) (elements, s) =
     (case extract_inputs created lock_script (tx_inputs tx) (fold push_element (tx_outputs tx) elements, s) of
        (Inl e, s) \<Rightarrow> (Inl e, s)
      | (Inr elements, s) \<Rightarrow> extract_transactions created lock_script txs (elements, s))"

definition extract_elements ::
  "transaction list \<Rightarrow> 's resolver \<Rightarrow> 's \<Rightarrow> (extract_error + script_bytes list) \<times> 's" where
  "extract_elements txs lock_script s =
     (case extract_transactions (created_outputs txs) lock_script txs ([], s) of
        (Inl e, s) \<Rightarrow> (Inl e, s)
      | (Inr elements, s) \<Rightarrow> (Inr (remdups_adj (sort elements)), s))"

section \<open>The output cache\<close>

record output_cache =
  oc_scripts :: "(out_point \<times> bytes) list"
  oc_order :: "(tx_hash \<times> u32) list"
  oc_capacity :: nat

definition cache_new :: "nat \<Rightarrow> output_cache" where
  "cache_new capacity = \<lparr> oc_scripts = [], oc_order = [], oc_capacity = max capacity 1 \<rparr>"

definition evict_transaction :: "tx_hash \<times> u32 \<Rightarrow> (out_point \<times> bytes) list \<Rightarrow> (out_point \<times> bytes) list" where
  "evict_transaction = (\<lambda>(evicted, n) scripts.
     fold (\<lambda>index scripts. AList.delete (evicted, of_nat index) scripts) [0..<unat n] scripts)"

fun evict :: "nat \<Rightarrow> (tx_hash \<times> u32) list \<Rightarrow> (out_point \<times> bytes) list
    \<Rightarrow> (tx_hash \<times> u32) list \<times> (out_point \<times> bytes) list" where
  "evict capacity [] scripts = ([], scripts)"
| "evict capacity (o1 # os) scripts =
     (if length (o1 # os) > capacity then evict capacity os (evict_transaction o1 scripts)
      else (o1 # os, scripts))"

definition insert_transaction :: "transaction \<Rightarrow> output_cache \<Rightarrow> output_cache" where
  "insert_transaction tx c =
     (let scripts = fold (\<lambda>(index, script) m. AList.update (tx_id tx, of_nat index) script m)
            (List.enumerate 0 (tx_outputs tx)) (oc_scripts c) in
      if tx_outputs tx \<noteq> [] then
        let (ord, scripts) = evict (oc_capacity c)
              (oc_order c @ [(tx_id tx, of_nat (length (tx_outputs tx)))]) scripts
        in c \<lparr> oc_scripts := scripts, oc_order := ord \<rparr>
      else c \<lparr> oc_scripts := scripts \<rparr>)"

definition cache_get :: "out_point \<Rightarrow> output_cache \<Rightarrow> bytes option" where
  "cache_get op c = map_of (oc_scripts c) op"

section \<open>The resolver\<close>

record zakura_previous_outputs =
  zp_cache :: output_cache
  zp_rpc_lookups :: u64
  zp_cache_hits :: u64

definition zakura_lock_script ::
  "(tx_hash \<Rightarrow> string + transaction option) \<Rightarrow> zakura_previous_outputs resolver" where
  "zakura_lock_script node op z =
     (case cache_get op (zp_cache z) of
        Some script \<Rightarrow> (Inr (Some script), z \<lparr> zp_cache_hits := zp_cache_hits z + 1 \<rparr>)
      | None \<Rightarrow>
        let z = z \<lparr> zp_rpc_lookups := zp_rpc_lookups z + 1 \<rparr> in
        (case node (fst op) of
           Inl e \<Rightarrow> (Inl e, z)
         | Inr None \<Rightarrow> (Inr None, z)
         | Inr (Some tx) \<Rightarrow>
           (Inr (if unat (snd op) < length (tx_outputs tx) then Some (tx_outputs tx ! unat (snd op)) else None),
            z \<lparr> zp_cache := insert_transaction tx (zp_cache z) \<rparr>)))"

definition PREVOUT_BATCH :: nat where "PREVOUT_BATCH = 16"

text \<open>The transaction ids the pre-pass asks for, in order, each once (\<open>seen\<close>).\<close>

fun wanted_inputs ::
  "output_cache \<Rightarrow> tx_input list \<Rightarrow> tx_hash list \<times> tx_hash list \<Rightarrow> tx_hash list \<times> tx_hash list" where
  "wanted_inputs c [] acc = acc"
| "wanted_inputs c (i # is) (wanted, seen) =
     (case i of
        Coinbase \<Rightarrow> wanted_inputs c is (wanted, seen)
      | PrevOut op \<Rightarrow>
        if cache_get op c \<noteq> None then wanted_inputs c is (wanted, seen)
        else if fst op \<in> set seen then wanted_inputs c is (wanted, seen)
        else wanted_inputs c is (wanted @ [fst op], fst op # seen))"

function prefetch_chunks ::
  "(tx_hash list \<Rightarrow> string + transaction option list) \<Rightarrow> tx_hash list \<Rightarrow> output_cache \<Rightarrow> nat
     \<Rightarrow> output_cache \<times> (string + nat)" where
  "prefetch_chunks node_batch wanted c fetched =
     (if wanted = [] then (c, Inr fetched)
      else case node_batch (take PREVOUT_BATCH wanted) of
        Inl e \<Rightarrow> (c, Inl e)
      | Inr txs \<Rightarrow>
        let found = map the (filter (\<lambda>t. t \<noteq> None) txs) in
        prefetch_chunks node_batch (drop PREVOUT_BATCH wanted) (fold insert_transaction found c)
          (fetched + length found))"
  by pat_completeness auto
termination by (relation "measure (\<lambda>(_, wanted, _). length wanted)") (auto simp: PREVOUT_BATCH_def)

declare prefetch_chunks.simps [simp del]

definition prefetch_previous_outputs ::
  "(tx_hash list \<Rightarrow> string + transaction option list) \<Rightarrow> output_cache \<Rightarrow> transaction list
     \<Rightarrow> output_cache \<times> (string + nat)" where
  "prefetch_previous_outputs node_batch c txs =
     (let (wanted, _) = wanted_inputs c (concat (map tx_inputs txs)) ([], []) in
      prefetch_chunks node_batch wanted c 0)"

section \<open>Batch responses\<close>

datatype zakura_error = Batch string | Rpc int string | Parse string

text \<open>The signed 64-bit identifier and error code of an entry are integers: they are compared and converted, never computed with.\<close>

record batch_entry =
  be_id :: "int option"
  be_error :: "(int \<times> string) option"
  be_result :: "string option"

fun place_entries ::
  "(string \<Rightarrow> zakura_error + transaction) \<Rightarrow> nat \<Rightarrow> batch_entry list
     \<Rightarrow> transaction option list \<times> bool list \<Rightarrow> zakura_error + (transaction option list \<times> bool list)" where
  "place_entries parse n [] acc = Inr acc"
| "place_entries parse n (e # es) (out, seen) =
     (case be_id e of
        None \<Rightarrow> Inl (Batch ''batch response entry has no id'')
      | Some index \<Rightarrow>
        let i = nat index in
        if index < 0 \<or> i \<ge> n then Inl (Batch ''batch id is out of range'')
        else if seen ! i then Inl (Batch ''batch id appeared twice'')
        else
          let seen = seen[i := True] in
          (case be_error e of
             Some (code, message) \<Rightarrow>
               if code = -5 then place_entries parse n es (out, seen) else Inl (Rpc code message)
           | None \<Rightarrow>
             (case be_result e of
                None \<Rightarrow> Inl (Batch ''batch entry has no result'')
              | Some raw \<Rightarrow> bindR (parse raw) (\<lambda>tx.
                  place_entries parse n es (out[i := Some tx], seen)))))"

definition zakura_transactions ::
  "(string \<Rightarrow> zakura_error + transaction) \<Rightarrow> (tx_hash list \<Rightarrow> zakura_error + batch_entry list) \<Rightarrow> tx_hash list
     \<Rightarrow> zakura_error + transaction option list" where
  "zakura_transactions parse post txids =
     (if txids = [] then Inr []
      else bindR (post txids) (\<lambda>entries.
        if length entries \<noteq> length txids then Inl (Batch ''asked for a different number of transactions'')
        else bindR (place_entries parse (length txids) entries
                      (replicate (length txids) None, replicate (length txids) False)) (\<lambda>(out, seen).
          if list_ex (\<lambda>s. \<not> s) seen then Inl (Batch ''batch response is missing an entry'')
          else Inr out)))"

section \<open>The ledger and what is true of it\<close>

type_synonym ledger = "tx_hash \<rightharpoonup> script_bytes list"

definition ledger_script :: "ledger \<Rightarrow> out_point \<Rightarrow> bytes option" where
  "ledger_script ledger op = (case ledger (fst op) of None \<Rightarrow> None
     | Some outs \<Rightarrow> if unat (snd op) < length outs then Some (outs ! unat (snd op)) else None)"

definition in_ledger :: "ledger \<Rightarrow> transaction \<Rightarrow> bool" where
  "in_ledger ledger tx \<longleftrightarrow> ledger (tx_id tx) = Some (tx_outputs tx) \<and> length (tx_outputs tx) < 2 ^ 32"

definition scripts_true :: "ledger \<Rightarrow> (out_point \<times> bytes) list \<Rightarrow> bool" where
  "scripts_true ledger m \<longleftrightarrow> (\<forall>op b. map_of m op = Some b \<longrightarrow> ledger_script ledger op = Some b)"

definition node_honest :: "ledger \<Rightarrow> (tx_hash \<Rightarrow> string + transaction option) \<Rightarrow> bool" where
  "node_honest ledger node \<longleftrightarrow>
     (\<forall>t tx. node t = Inr (Some tx) \<longrightarrow> tx_id tx = t \<and> in_ledger ledger tx)"

lemma scripts_true_update:
  "scripts_true ledger m \<Longrightarrow> ledger_script ledger op = Some b \<Longrightarrow> scripts_true ledger (AList.update op b m)"
  by (auto simp: scripts_true_def update_conv' split: if_splits)

lemma scripts_true_delete: "scripts_true ledger m \<Longrightarrow> scripts_true ledger (AList.delete op m)"
  by (auto simp: scripts_true_def delete_conv' split: if_splits)

lemma ledger_script_output:
  assumes "in_ledger ledger tx" and "(i, s) \<in> set (List.enumerate 0 (tx_outputs tx))"
  shows "ledger_script ledger (tx_id tx, of_nat i) = Some s"
proof -
  have i: "i < length (tx_outputs tx)" "s = tx_outputs tx ! i"
    using assms(2) by (auto simp: in_set_enumerate_eq)
  then have "unat (of_nat i :: u32) = i" using assms(1) by (simp add: in_ledger_def unat_of_nat_small)
  with i assms(1) show ?thesis by (simp add: ledger_script_def in_ledger_def)
qed

lemma scripts_true_outputs:
  assumes "in_ledger ledger tx" and "scripts_true ledger m"
  shows "scripts_true ledger (fold (\<lambda>(index, script) m. AList.update (tx_id tx, of_nat index) script m)
           (List.enumerate 0 (tx_outputs tx)) m)"
proof -
  have "scripts_true ledger (fold (\<lambda>(index, script) m. AList.update (tx_id tx, of_nat index) script m) xs m)"
    if "set xs \<subseteq> set (List.enumerate 0 (tx_outputs tx))" for xs
    using that assms(2)
  proof (induction xs arbitrary: m)
    case (Cons x xs)
    obtain i s where x: "x = (i, s)" by (cases x)
    then have "ledger_script ledger (tx_id tx, of_nat i) = Some s"
      using Cons.prems(1) by (intro ledger_script_output [OF assms(1)]) simp
    then have "scripts_true ledger (AList.update (tx_id tx, of_nat i) s m)"
      by (rule scripts_true_update [OF Cons.prems(2)])
    then show ?case using Cons.IH Cons.prems(1) x by simp
  qed simp
  then show ?thesis by blast
qed

lemma created_true:
  assumes "\<forall>tx \<in> set txs. in_ledger ledger tx"
  shows "scripts_true ledger (created_outputs txs)"
proof -
  have all: "scripts_true ledger (fold (\<lambda>tx created.
       fold (\<lambda>(index, script) created. AList.update (tx_id tx, of_nat index) script created)
         (List.enumerate 0 (tx_outputs tx)) created) txs m)" if "scripts_true ledger m" for m
    using assms that by (induction txs arbitrary: m) (simp_all add: scripts_true_outputs)
  have "scripts_true ledger []" by (simp add: scripts_true_def)
  from all [OF this] show ?thesis unfolding created_outputs_def .
qed

section \<open>The resolver interface\<close>

text \<open>The elements of a block, given the true locking scripts of the outputs it spends.\<close>

definition spends :: "transaction list \<Rightarrow> out_point set" where
  "spends txs = {op. \<exists>tx \<in> set txs. PrevOut op \<in> set (tx_inputs tx)}"

definition block_elements :: "(out_point \<Rightarrow> bytes option) \<Rightarrow> transaction list \<Rightarrow> script_bytes set" where
  "block_elements truth txs = {b. is_filter_element b \<and>
     ((\<exists>tx \<in> set txs. b \<in> set (tx_outputs tx)) \<or> (\<exists>op \<in> spends txs. truth op = Some b))}"

lemma set_fold_push: "set (fold push_element xs es) = set es \<union> {x \<in> set xs. is_filter_element x}"
  by (induction xs arbitrary: es) (auto simp: push_element_def)

lemma spends_Cons: "spends (tx # txs) = {op. PrevOut op \<in> set (tx_inputs tx)} \<union> spends txs"
  by (auto simp: spends_def)

lemma distinct_remdups_adj_sorted: "sorted xs \<Longrightarrow> distinct (remdups_adj xs)"
  by (induction xs rule: remdups_adj.induct) (auto simp: less_le dest: antisym)

locale previous_outputs =
  fixes good :: "'s \<Rightarrow> bool"
    and lookup :: "'s resolver"
    and truth :: "out_point \<Rightarrow> bytes option"
  assumes lookup_true: "good s \<Longrightarrow> lookup op s = (Inr (Some b), s') \<Longrightarrow> truth op = Some b"
    and lookup_good: "good s \<Longrightarrow> lookup op s = (r, s') \<Longrightarrow> good s'"
begin

lemma extract_input_spec:
  assumes "good s" and "\<forall>op b. map_of created op = Some b \<longrightarrow> truth op = Some b"
    and "extract_input created lookup i (es, s) = (r, s')"
  shows "good s' \<and> (\<forall>es'. r = Inr es' \<longrightarrow>
     (case i of Coinbase \<Rightarrow> es' = es | PrevOut op \<Rightarrow> \<exists>b. truth op = Some b \<and> es' = push_element b es))"
  using assms lookup_true [OF assms(1)] lookup_good [OF assms(1)]
  by (auto simp: extract_input_def split: tx_input.splits option.splits prod.splits sum.splits)

lemma extract_inputs_spec:
  assumes "good s" and "\<forall>op b. map_of created op = Some b \<longrightarrow> truth op = Some b"
    and "extract_inputs created lookup is (es, s) = (r, s')"
  shows "good s' \<and> (\<forall>es'. r = Inr es' \<longrightarrow>
     (\<forall>op. PrevOut op \<in> set is \<longrightarrow> truth op \<noteq> None)
     \<and> set es' = set es \<union> {b. is_filter_element b \<and> (\<exists>op. PrevOut op \<in> set is \<and> truth op = Some b)})"
  using assms(1,3)
proof (induction "is" arbitrary: es s)
  case Nil
  then show ?case by auto
next
  case (Cons i "is")
  obtain r1 s1 where step: "extract_input created lookup i (es, s) = (r1, s1)" by fastforce
  note spec = extract_input_spec [OF Cons.prems(1) assms(2) step]
  show ?case
  proof (cases r1)
    case (Inl e)
    then show ?thesis using Cons.prems(2) step spec by auto
  next
    case (Inr es1)
    then have rest: "extract_inputs created lookup is (es1, s1) = (r, s')" using Cons.prems(2) step by simp
    have IH: "good s' \<and> (\<forall>es'. r = Inr es' \<longrightarrow>
       (\<forall>op. PrevOut op \<in> set is \<longrightarrow> truth op \<noteq> None)
       \<and> set es' = set es1 \<union> {b. is_filter_element b \<and> (\<exists>op. PrevOut op \<in> set is \<and> truth op = Some b)})"
      using Cons.IH [OF _ rest] spec by blast
    show ?thesis
    proof (cases i)
      case Coinbase
      then show ?thesis using IH spec Inr by auto
    next
      case (PrevOut op)
      then obtain b where "truth op = Some b" "es1 = push_element b es" using spec Inr by auto
      then show ?thesis using IH PrevOut by (cases op) (auto simp: push_element_def)
    qed
  qed
qed

lemma extract_transactions_spec:
  assumes "good s" and "\<forall>op b. map_of created op = Some b \<longrightarrow> truth op = Some b"
    and "extract_transactions created lookup txs (es, s) = (r, s')"
  shows "good s' \<and> (\<forall>es'. r = Inr es' \<longrightarrow>
     (\<forall>op \<in> spends txs. truth op \<noteq> None) \<and> set es' = set es \<union> block_elements truth txs)"
  using assms(1,3)
proof (induction txs arbitrary: es s)
  case Nil
  then show ?case by (auto simp: block_elements_def spends_def)
next
  case (Cons tx txs)
  let ?es = "fold push_element (tx_outputs tx) es"
  obtain r1 s1 where step: "extract_inputs created lookup (tx_inputs tx) (?es, s) = (r1, s1)" by fastforce
  note spec = extract_inputs_spec [OF Cons.prems(1) assms(2) step]
  show ?case
  proof (cases r1)
    case (Inl e)
    then show ?thesis using Cons.prems(2) step spec by auto
  next
    case (Inr es1)
    then have "extract_transactions created lookup txs (es1, s1) = (r, s')" using Cons.prems(2) step by simp
    then show ?thesis
      using Cons.IH [of s1 es1] spec Inr
      by (auto simp: block_elements_def spends_Cons set_fold_push)
  qed
qed

lemma extract_elements_good:
  assumes "good s" and "\<forall>op b. map_of (created_outputs txs) op = Some b \<longrightarrow> truth op = Some b"
    and "extract_elements txs lookup s = (r, s')"
  shows "good s'"
proof -
  obtain x where "extract_transactions (created_outputs txs) lookup txs ([], s) = (x, s')"
    using assms(3) by (auto simp: extract_elements_def split: prod.splits sum.splits)
  then show ?thesis using extract_transactions_spec [OF assms(1,2)] by blast
qed

lemma extract_elements_spec:
  assumes "good s" and "\<forall>op b. map_of (created_outputs txs) op = Some b \<longrightarrow> truth op = Some b"
    and "extract_elements txs lookup s = (Inr es, s')"
  shows "good s' \<and> (\<forall>op \<in> spends txs. truth op \<noteq> None) \<and> set es = block_elements truth txs
     \<and> sorted es \<and> distinct es"
proof -
  obtain es1 where "extract_transactions (created_outputs txs) lookup txs ([], s) = (Inr es1, s')"
    "es = remdups_adj (sort es1)"
    using assms(3) by (auto simp: extract_elements_def split: prod.splits sum.splits)
  then show ?thesis
    using extract_transactions_spec [OF assms(1,2)] by (fastforce intro: distinct_remdups_adj_sorted)
qed

end

section \<open>The cache\<close>

definition cache_true :: "ledger \<Rightarrow> output_cache \<Rightarrow> bool" where
  "cache_true ledger c \<longleftrightarrow> scripts_true ledger (oc_scripts c)"

text \<open>Every cached output belongs to a transaction of the eviction queue, which is within capacity.\<close>

definition keys_covered :: "(out_point \<times> bytes) list \<Rightarrow> (tx_hash \<times> u32) list \<Rightarrow> bool" where
  "keys_covered m ord \<longleftrightarrow> (\<forall>h i b. map_of m (h, i) = Some b \<longrightarrow> (\<exists>n. (h, n) \<in> set ord \<and> i < n))"

definition cache_ok :: "output_cache \<Rightarrow> bool" where
  "cache_ok c \<longleftrightarrow> length (oc_order c) \<le> oc_capacity c \<and> keys_covered (oc_scripts c) (oc_order c)"

lemma map_of_evict_transaction:
  "map_of (evict_transaction (h, n) m) op = (if fst op = h \<and> snd op < n then None else map_of m op)"
proof -
  obtain k j where op: "op = (k, j)" by (cases op)
  have "map_of (fold (\<lambda>index m. AList.delete (h, of_nat index) m) xs m) (k, j)
      = (if k = h \<and> (\<exists>i \<in> set xs. j = of_nat i) then None else map_of m (k, j))" for xs
    by (induction xs arbitrary: m) (auto simp: delete_conv')
  moreover have "(\<exists>i \<in> {0..<unat n}. snd op = of_nat i) \<longleftrightarrow> snd op < n"
  proof
    assume "\<exists>i \<in> {0..<unat n}. snd op = of_nat i"
    then obtain i where i: "i < unat n" "snd op = of_nat i" by auto
    moreover have "unat (of_nat i :: u32) = i" using i unat_u32_lt [of n] by (simp add: unat_of_nat_small)
    ultimately show "snd op < n" by (simp add: word_less_nat_alt)
  next
    assume "snd op < n"
    then show "\<exists>i \<in> {0..<unat n}. snd op = of_nat i"
      by (intro bexI [of _ "unat (snd op)"]) (auto simp: word_less_nat_alt)
  qed
  ultimately show ?thesis by (simp add: evict_transaction_def op)
qed

lemma scripts_true_evict_transaction: "scripts_true ledger m \<Longrightarrow> scripts_true ledger (evict_transaction e m)"
  by (cases e) (auto simp: scripts_true_def map_of_evict_transaction split: if_splits)

lemma evict_spec:
  assumes "evict cap ord m = (ord', m')"
  shows "length ord' \<le> cap \<and> (scripts_true ledger m \<longrightarrow> scripts_true ledger m')
     \<and> (keys_covered m ord \<longrightarrow> keys_covered m' ord') \<and> (length ord \<le> cap \<longrightarrow> ord' = ord \<and> m' = m)"
  using assms
proof (induction ord arbitrary: m)
  case Nil
  then show ?case by auto
next
  case (Cons e ord)
  obtain h n where e: "e = (h, n)" by (cases e)
  show ?case
  proof (cases "length (e # ord) > cap")
    case True
    have "keys_covered (evict_transaction e m) ord" if "keys_covered m (e # ord)"
      unfolding keys_covered_def
    proof (intro allI impI)
      fix k i b
      assume "map_of (evict_transaction e m) (k, i) = Some b"
      then have "map_of m (k, i) = Some b" "\<not> (k = h \<and> i < n)"
        by (auto simp: e map_of_evict_transaction split: if_splits)
      then show "\<exists>n. (k, n) \<in> set ord \<and> i < n" using that e unfolding keys_covered_def by fastforce
    qed
    then show ?thesis
      using True Cons scripts_true_evict_transaction by (auto split: if_splits)
  next
    case False
    then show ?thesis using Cons.prems by auto
  qed
qed

lemma keys_covered_outputs:
  assumes "keys_covered m ord" and "length outs < 2 ^ 32"
  shows "keys_covered (fold (\<lambda>(index, script) m. AList.update (h, of_nat index) script m) (List.enumerate 0 outs) m)
           (if outs \<noteq> [] then ord @ [(h, of_nat (length outs))] else ord)"
proof -
  have upd: "map_of (fold (\<lambda>(index, script) m. AList.update (h, of_nat index) script m) xs m) (k, i) = Some b
      \<Longrightarrow> map_of m (k, i) = Some b \<or> (k = h \<and> (\<exists>j s. (j, s) \<in> set xs \<and> i = of_nat j))" for xs k i b m
    by (induction xs arbitrary: m) (fastforce simp: update_conv' split: if_splits prod.splits)+
  have less: "(of_nat j :: u32) < of_nat (length outs)" if "j < length outs" for j
    using that assms(2) by (simp add: word_less_nat_alt unat_of_nat_small)
  show ?thesis
    unfolding keys_covered_def
  proof (intro allI impI)
    fix k i b
    assume "map_of (fold (\<lambda>(index, script) m. AList.update (h, of_nat index) script m) (List.enumerate 0 outs) m) (k, i) = Some b"
    from upd [OF this] show "\<exists>n. (k, n) \<in> set (if outs \<noteq> [] then ord @ [(h, of_nat (length outs))] else ord) \<and> i < n"
    proof
      assume "map_of m (k, i) = Some b"
      then show ?thesis using assms(1) by (auto simp: keys_covered_def)
    next
      assume "k = h \<and> (\<exists>j s. (j, s) \<in> set (List.enumerate 0 outs) \<and> i = of_nat j)"
      then show ?thesis using less by (auto simp: in_set_enumerate_eq)
    qed
  qed
qed

lemma insert_transaction_ok:
  assumes "cache_ok c" and "length (tx_outputs tx) < 2 ^ 32"
  shows "cache_ok (insert_transaction tx c) \<and> oc_capacity (insert_transaction tx c) = oc_capacity c"
proof -
  let ?m = "fold (\<lambda>(index, script) m. AList.update (tx_id tx, of_nat index) script m)
            (List.enumerate 0 (tx_outputs tx)) (oc_scripts c)"
  let ?o = "oc_order c @ [(tx_id tx, of_nat (length (tx_outputs tx)))]"
  have cov: "keys_covered ?m (if tx_outputs tx \<noteq> [] then ?o else oc_order c)"
    using assms by (intro keys_covered_outputs) (simp_all add: cache_ok_def)
  obtain ord m where ev: "evict (oc_capacity c) ?o ?m = (ord, m)" by fastforce
  show ?thesis
    using cov evict_spec [OF ev] assms(1) ev
    by (cases "tx_outputs tx = []") (auto simp: insert_transaction_def cache_ok_def Let_def)
qed

lemma insert_transaction_true:
  assumes "in_ledger ledger tx" and "cache_true ledger c"
  shows "cache_true ledger (insert_transaction tx c)"
proof -
  let ?m = "fold (\<lambda>(index, script) m. AList.update (tx_id tx, of_nat index) script m)
            (List.enumerate 0 (tx_outputs tx)) (oc_scripts c)"
  let ?o = "oc_order c @ [(tx_id tx, of_nat (length (tx_outputs tx)))]"
  have m: "scripts_true ledger ?m" using assms by (intro scripts_true_outputs) (simp_all add: cache_true_def)
  obtain ord m where ev: "evict (oc_capacity c) ?o ?m = (ord, m)" by fastforce
  then show ?thesis
    using m evict_spec [OF ev, of ledger] assms(2) by (simp add: insert_transaction_def cache_true_def Let_def)
qed

lemma insert_transaction_get:
  assumes "tx_outputs tx \<noteq> []" and "length (oc_order c) < oc_capacity c"
    and "i < length (tx_outputs tx)" and "length (tx_outputs tx) < 2 ^ 32"
  shows "cache_get (tx_id tx, of_nat i) (insert_transaction tx c) = Some (tx_outputs tx ! i)"
proof -
  let ?upd = "\<lambda>xs m. fold (\<lambda>(index, script) m. AList.update (tx_id tx, of_nat index :: u32) script m) xs m"
  let ?m = "?upd (List.enumerate 0 (tx_outputs tx)) (oc_scripts c)"
  let ?o = "oc_order c @ [(tx_id tx, of_nat (length (tx_outputs tx)))]"
  have keep: "map_of (?upd xs m) (tx_id tx, of_nat i) = Some s" if "map_of m (tx_id tx, of_nat i) = Some s"
    "\<forall>j s'. (j, s') \<in> set xs \<longrightarrow> (of_nat j :: u32) = of_nat i \<longrightarrow> s' = s" for xs m s
    using that by (induction xs arbitrary: m) (auto simp: update_conv' split: prod.splits)
  have found: "map_of (?upd xs m) (tx_id tx, of_nat i) = Some s" if "(i, s) \<in> set xs"
    "\<forall>j s'. (j, s') \<in> set xs \<longrightarrow> (of_nat j :: u32) = of_nat i \<longrightarrow> s' = s" for xs m s
    using that
  proof (induction xs arbitrary: m)
    case (Cons x xs)
    show ?case
    proof (cases "x = (i, s)")
      case True
      have "map_of (AList.update (tx_id tx, of_nat i) s m) (tx_id tx, of_nat i) = Some s"
        by (simp add: update_conv')
      moreover have "\<forall>j s'. (j, s') \<in> set xs \<longrightarrow> (of_nat j :: u32) = of_nat i \<longrightarrow> s' = s"
        using Cons.prems(2) by (meson list.set_intros(2))
      ultimately have "map_of (?upd xs (AList.update (tx_id tx, of_nat i) s m)) (tx_id tx, of_nat i) = Some s"
        by (rule keep)
      then show ?thesis by (simp only: True fold_simps prod.case)
    next
      case False
      then have "(i, s) \<in> set xs" using Cons.prems(1) by auto
      moreover have "\<forall>j s'. (j, s') \<in> set xs \<longrightarrow> (of_nat j :: u32) = of_nat i \<longrightarrow> s' = s"
        using Cons.prems(2) by (meson list.set_intros(2))
      ultimately show ?thesis unfolding fold_simps by (rule Cons.IH)
    qed
  qed simp
  have "(of_nat j :: u32) = of_nat i \<longleftrightarrow> j = i" if "j < length (tx_outputs tx)" for j
    using that assms(3,4) by (auto simp: word_unat_eq_iff unat_of_nat_small)
  then have "map_of ?m (tx_id tx, of_nat i) = Some (tx_outputs tx ! i)"
    using assms(3) by (intro found) (auto simp: in_set_enumerate_eq)
  moreover obtain ord m where ev: "evict (oc_capacity c) ?o ?m = (ord, m)" by fastforce
  moreover have "m = ?m" using evict_spec [OF ev] assms(2) by simp
  ultimately show ?thesis using assms(1) by (simp add: insert_transaction_def cache_get_def Let_def)
qed

section \<open>The resolver implements the interface\<close>

definition zakura_good :: "ledger \<Rightarrow> (tx_hash \<Rightarrow> string + transaction option) \<Rightarrow> zakura_previous_outputs \<Rightarrow> bool" where
  "zakura_good ledger node z \<longleftrightarrow> node_honest ledger node \<and> cache_true ledger (zp_cache z)"

interpretation zk: previous_outputs "zakura_good ledger node" "zakura_lock_script node" "ledger_script ledger"
  for ledger node
proof
  fix s op b s'
  assume g: "zakura_good ledger node s" and l: "zakura_lock_script node op s = (Inr (Some b), s')"
  show "ledger_script ledger op = Some b"
  proof (cases "cache_get op (zp_cache s)")
    case None
    then obtain tx where "node (fst op) = Inr (Some tx)" "unat (snd op) < length (tx_outputs tx)"
      "b = tx_outputs tx ! unat (snd op)"
      using l by (auto simp: zakura_lock_script_def Let_def split: sum.splits option.splits if_splits)
    moreover from this g have "tx_id tx = fst op" "in_ledger ledger tx"
      by (auto simp: zakura_good_def node_honest_def)
    ultimately show ?thesis by (auto simp: in_ledger_def ledger_script_def)
  next
    case (Some c)
    then show ?thesis using g l
      by (cases op) (auto simp: zakura_lock_script_def zakura_good_def cache_true_def scripts_true_def cache_get_def)
  qed
next
  fix s op r s'
  assume "zakura_good ledger node s" and "zakura_lock_script node op s = (r, s')"
  then show "zakura_good ledger node s'"
    by (auto simp: zakura_lock_script_def zakura_good_def node_honest_def Let_def insert_transaction_true
        split: option.splits sum.splits)
qed

section \<open>Placing batch responses\<close>

definition entry_placed ::
  "(string \<Rightarrow> zakura_error + transaction) \<Rightarrow> transaction option list \<Rightarrow> nat \<Rightarrow> batch_entry \<Rightarrow> nat \<Rightarrow> bool" where
  "entry_placed parse out n e i \<longleftrightarrow> i < n \<and> be_id e = Some (int i)
     \<and> (case be_error e of
          Some (code, _) \<Rightarrow> code = -5 \<and> out ! i = None
        | None \<Rightarrow> \<exists>raw tx. be_result e = Some raw \<and> parse raw = Inr tx \<and> out ! i = Some tx)"

lemma place_entries_spec:
  assumes "place_entries parse n es (out, seen) = Inr (out', seen')"
    and "length out = n" "length seen = n" "\<forall>i < n. \<not> seen ! i \<longrightarrow> out ! i = None"
  shows "length out' = n \<and> length seen' = n
     \<and> (\<forall>i < n. seen ! i \<longrightarrow> out' ! i = out ! i)
     \<and> (\<forall>e \<in> set es. \<exists>i. \<not> seen ! i \<and> entry_placed parse out' n e i)
     \<and> (\<forall>i < n. seen' ! i \<longrightarrow> seen ! i \<or> (\<exists>e \<in> set es. entry_placed parse out' n e i))
     \<and> distinct (map be_id es)"
  using assms
proof (induction es arbitrary: out seen)
  case Nil
  then show ?case by simp
next
  case (Cons e es)
  from Cons.prems(1) obtain index where "be_id e = Some index" "0 \<le> index" "nat index < n" "\<not> seen ! nat index"
    by (auto simp: Let_def split: option.splits if_splits)
  then obtain i where id: "be_id e = Some (int i)" "i < n" "\<not> seen ! i" by (metis int_nat_eq)
  let ?seen = "seen[i := True]"
  obtain out1 where step: "place_entries parse n es (out1, ?seen) = Inr (out', seen')"
    and out1: "length out1 = n" "\<forall>j < n. j \<noteq> i \<longrightarrow> out1 ! j = out ! j"
    and placed: "case be_error e of Some (code, _) \<Rightarrow> code = -5 \<and> out1 ! i = None
        | None \<Rightarrow> \<exists>raw tx. be_result e = Some raw \<and> parse raw = Inr tx \<and> out1 ! i = Some tx"
  proof (cases "be_error e")
    case None
    then obtain raw tx where "be_result e = Some raw" "parse raw = Inr tx"
      "place_entries parse n es (out[i := Some tx], ?seen) = Inr (out', seen')"
      using Cons.prems(1) id by (auto simp: Let_def bindR_Inr_iff split: option.splits)
    then show thesis using that [of "out[i := Some tx]"] None id(2) Cons.prems(2) by auto
  next
    case (Some err)
    then have "fst err = -5" "place_entries parse n es (out, ?seen) = Inr (out', seen')"
      using Cons.prems(1) id by (auto simp: Let_def split: prod.splits if_splits)
    then show thesis using that [of out] Some id(2,3) Cons.prems(2,4) by (cases err) auto
  qed
  have "\<forall>i < n. \<not> ?seen ! i \<longrightarrow> out1 ! i = None"
    using out1(2) Cons.prems(3,4) id(2) by (auto simp: nth_list_update split: if_splits)
  note IH = Cons.IH [OF step out1(1) _ this]
  have keep: "out' ! i = out1 ! i" using IH Cons.prems(3) id(2) by simp
  have here: "entry_placed parse out' n e i" using placed keep id by (simp add: entry_placed_def split: option.splits prod.splits)
  have "be_id e \<notin> be_id ` set es"
    using IH Cons.prems(3) id by (force simp: entry_placed_def nth_list_update split: if_splits)
  then show ?case
    using IH Cons.prems(3) here id out1(2)
    by (auto simp: nth_list_update split: if_splits)
qed

section \<open>Properties\<close>

text \<open>
  C14. Extraction is complete and fails closed. With an honest node and a cache that holds only true
  scripts, whenever \<open>extract_elements\<close> returns a list, every output the block spends was resolved, and the
  list is exactly the set of included scripts: the block's output scripts and the true locking scripts of
  the outputs it spends, less the empty ones and those that begin with \<open>OP_RETURN\<close>; sorted, each once.
  So an unresolvable previous output never yields a shorter list. The cache stays true.
\<close>

theorem extract_complete:
  assumes "node_honest ledger node" and "cache_true ledger (zp_cache z)" and "\<forall>tx \<in> set txs. in_ledger ledger tx"
    and "extract_elements txs (zakura_lock_script node) z = (Inr es, z')"
  shows "(\<forall>op \<in> spends txs. ledger_script ledger op \<noteq> None)
    \<and> set es = {b. b \<noteq> [] \<and> b ! 0 \<noteq> OP_RETURN \<and>
         ((\<exists>tx \<in> set txs. b \<in> set (tx_outputs tx)) \<or> (\<exists>op \<in> spends txs. ledger_script ledger op = Some b))}
    \<and> sorted es \<and> distinct es \<and> cache_true ledger (zp_cache z')"
proof -
  have good: "zakura_good ledger node z" using assms(1,2) by (simp add: zakura_good_def)
  have created: "\<forall>op b. map_of (created_outputs txs) op = Some b \<longrightarrow> ledger_script ledger op = Some b"
    using created_true [OF assms(3)] unfolding scripts_true_def .
  have "is_filter_element b \<longleftrightarrow> b \<noteq> [] \<and> b ! 0 \<noteq> OP_RETURN" for b
    by (cases b) (auto simp: is_filter_element_def is_op_return_def)
  then show ?thesis
    using zk.extract_elements_spec [OF good created assms(4)] by (simp add: block_elements_def zakura_good_def)
qed

definition sample_ledger :: ledger where
  "sample_ledger = [[1] \<mapsto> [[0x51], [0x52]], [2] \<mapsto> [[0x76], [0x6a, 0x01], []]]"

definition sample_node :: "tx_hash \<Rightarrow> string + transaction option" where
  "sample_node t = (if t = [1] then Inr (Some \<lparr> tx_id = [1], tx_outputs = [[0x51], [0x52]], tx_inputs = [] \<rparr>)
     else Inr None)"

definition sample_block :: "transaction list" where
  "sample_block = [\<lparr> tx_id = [2], tx_outputs = [[0x76], [0x6a, 0x01], []],
     tx_inputs = [Coinbase, PrevOut ([1], 1), PrevOut ([2], 0)] \<rparr>]"

theorem extract_complete_witness:
  "\<exists>z'. extract_elements sample_block (zakura_lock_script sample_node)
       \<lparr> zp_cache = cache_new 2, zp_rpc_lookups = 0, zp_cache_hits = 0 \<rparr> = (Inr [[0x52], [0x76]], z')
     \<and> ([1], 1) \<in> spends sample_block \<and> ledger_script sample_ledger ([1], 1) = Some [0x52]"
proof -
  let ?z = "\<lparr> zp_cache = cache_new 2, zp_rpc_lookups = 0, zp_cache_hits = 0 \<rparr>"
  have r: "fst (extract_elements sample_block (zakura_lock_script sample_node) ?z) = Inr [[0x52], [0x76]]"
    by code_simp
  then obtain z' where run: "extract_elements sample_block (zakura_lock_script sample_node) ?z = (Inr [[0x52], [0x76]], z')"
    by (cases "extract_elements sample_block (zakura_lock_script sample_node) ?z") simp
  have h: "node_honest sample_ledger sample_node"
    by (simp add: node_honest_def sample_node_def in_ledger_def sample_ledger_def)
  have c: "cache_true sample_ledger (zp_cache ?z)" by (simp add: cache_true_def scripts_true_def cache_new_def)
  have l: "\<forall>tx \<in> set sample_block. in_ledger sample_ledger tx"
    by (simp add: sample_block_def in_ledger_def sample_ledger_def)
  have sp: "([1], 1) \<in> spends sample_block" by (simp add: spends_def sample_block_def)
  have "ledger_script sample_ledger ([1], 1) \<noteq> None"
    using extract_complete [OF h c l run] sp by blast
  then have "ledger_script sample_ledger ([1], 1) = Some [0x52]"
    by (simp add: ledger_script_def sample_ledger_def)
  with run sp show ?thesis by blast
qed

text \<open>
  The output cache is bounded and consistent: inserting a transaction keeps the eviction queue within
  the capacity, keeps every cached output owned by a queued transaction (so evicting the queue empties
  the cache), and never caches a script that is not the true one; and a transaction inserted
  below capacity can be read back output by output.
\<close>

lemma cache_insert_invariant:
  assumes "cache_ok c" and "cache_true ledger c" and "in_ledger ledger tx"
  shows "cache_ok (insert_transaction tx c) \<and> cache_true ledger (insert_transaction tx c)
    \<and> length (oc_order (insert_transaction tx c)) \<le> oc_capacity c
    \<and> (length (oc_order c) < oc_capacity c \<longrightarrow>
         (\<forall>i < length (tx_outputs tx).
            cache_get (tx_id tx, of_nat i) (insert_transaction tx c) = Some (tx_outputs tx ! i)))"
proof -
  have len: "length (tx_outputs tx) < 2 ^ 32" using assms(3) by (simp add: in_ledger_def)
  have "cache_get (tx_id tx, of_nat i) (insert_transaction tx c) = Some (tx_outputs tx ! i)"
    if "length (oc_order c) < oc_capacity c" "i < length (tx_outputs tx)" for i
    using that len by (intro insert_transaction_get) auto
  then show ?thesis
    using insert_transaction_ok [OF assms(1) len] insert_transaction_true [OF assms(3,2)]
    by (auto simp: cache_ok_def)
qed

text \<open>
  A JSON-RPC batch answer is placed by its echoed ids, whatever order it arrives in: when
  \<open>transactions\<close> succeeds there is exactly one entry for every requested position, and the result at that
  position is the transaction parsed from that entry, or \<open>None\<close> exactly when the node answered with
  error -5. A missing, duplicated or out-of-range entry is an error, never a silent \<open>None\<close>.
\<close>

lemma batch_placed:
  assumes "zakura_transactions parse post txids = Inr out" and "txids \<noteq> []"
  shows "\<exists>entries. post txids = Inr entries \<and> length entries = length txids \<and> length out = length txids
    \<and> distinct (map be_id entries)
    \<and> (\<forall>i < length txids. \<exists>e \<in> set entries. be_id e = Some (int i)
         \<and> (case be_error e of
              Some (code, _) \<Rightarrow> code = -5 \<and> out ! i = None
            | None \<Rightarrow> \<exists>raw tx. be_result e = Some raw \<and> parse raw = Inr tx \<and> out ! i = Some tx))"
proof -
  let ?n = "length txids"
  obtain entries seen where e: "post txids = Inr entries" "length entries = ?n"
    "place_entries parse ?n entries (replicate ?n None, replicate ?n False) = Inr (out, seen)"
    "\<not> list_ex (\<lambda>s. \<not> s) seen"
    using assms by (auto simp: zakura_transactions_def bindR_Inr_iff split: if_splits)
  have "\<forall>i < ?n. \<not> replicate ?n False ! i \<longrightarrow> (replicate ?n None :: transaction option list) ! i = None" by simp
  note spec = place_entries_spec [OF e(3) length_replicate length_replicate this]
  have len: "length seen = ?n" using spec by blast
  have all: "seen ! i" if "i < ?n" for i
  proof -
    have "seen ! i \<in> set seen" using that len by (intro nth_mem) simp
    then show ?thesis using e(4) unfolding list_ex_iff by blast
  qed
  have "\<exists>x \<in> set entries. entry_placed parse out ?n x i" if "i < ?n" for i
    using conjunct1 [OF conjunct2 [OF conjunct2 [OF conjunct2 [OF conjunct2 [OF spec]]]]] all [OF that] that by auto
  then have "\<forall>i < ?n. \<exists>x \<in> set entries. be_id x = Some (int i)
         \<and> (case be_error x of
              Some (code, _) \<Rightarrow> code = -5 \<and> out ! i = None
            | None \<Rightarrow> \<exists>raw tx. be_result x = Some raw \<and> parse raw = Inr tx \<and> out ! i = Some tx)"
    unfolding entry_placed_def by blast
  moreover have "length out = ?n" "distinct (map be_id entries)" using spec by blast+
  ultimately show ?thesis using e(1,2) by blast
qed

end
