(* ===== verification/Filter_Ingest.thy ===== *)
theory Filter_Ingest
  imports Filter_Service Filter_Extract
begin

text \<open>
  Following the best chain, \<open>server/transparent-filter-server/src/ingest.rs\<close>: \<open>reconcile\<close>, \<open>build_block_filter\<close>
  and the body of the endless loop of \<open>run\<close>.

  The archive node is outside the repository. Its answers depend on when it is asked: \<open>views t\<close> is the view it
  answers the \<open>t\<close>-th call from, and every call of this file moves the clock by one, so the best chain may
  change between any two calls; the transaction lookups of one prefetch or of one extraction are answered from one view. A result is paired with the state the code has mutated when it returns.
  \<open>reconcile\<close> terminates because each round shortens the chain; the catch-up loop has as fuel the number of
  heights it is to cover, and running out of it is the error \<open>Out_Of_Fuel\<close>.
\<close>

section \<open>The node\<close>

record node_view =
  nv_tip_height :: "string + u64"
  nv_block_hash :: "u64 \<Rightarrow> string + string"
  nv_block :: "u64 \<Rightarrow> string + (string \<times> transaction list)"
  nv_transaction :: "tx_hash \<Rightarrow> string + transaction option"
  nv_transactions :: "tx_hash list \<Rightarrow> string + transaction option list"

datatype ingest_error =
    Node_Error string
  | Hash_Error filter_error
  | Resolve_Error extract_error
  | Encode_Error filter_error
  | Ingest_Store store_error
  | Expect_Failed
  | Out_Of_Fuel

section \<open>Reconciliation\<close>

lemma rollback_one_shorter:
  assumes "covered_through (snd s) = Some height"
  shows "length (fs_chain (snd (rollback_to (checked_sub height 1) s))) < length (fs_chain (snd s))"
proof -
  obtain d st where s: "s = (d, st)" by (cases s)
  let ?n = "length (fs_chain st)"
  have ne: "fs_chain st \<noteq> []" and h: "height = fs_start_height st + of_nat ?n - 1"
    using assms s by (auto simp: covered_through_def split: if_splits)
  have "height - 1 - fs_start_height st + 1 = of_nat (?n - 1)"
    using ne h by (simp add: of_nat_diff Suc_leI)
  then have "unat (height - 1 - fs_start_height st + 1) \<le> ?n - 1"
    by (metis unat_of_nat mod_less_eq_dividend)
  then have "rollback_keep (Some (height - 1)) st < ?n"
    using ne by (cases "fs_chain st") (auto simp: rollback_keep_def)
  moreover have "rollback_keep None st < ?n" using ne by (simp add: rollback_keep_def)
  ultimately show ?thesis
    using s by (simp add: rollback_to_def truncate_chain_def commit_def rollback_keep_le checked_sub_def)
qed

function reconcile ::
  "(string \<Rightarrow> bytes option) \<Rightarrow> (nat \<Rightarrow> node_view) \<Rightarrow> u64 \<Rightarrow> store_disk \<times> filter_store \<Rightarrow> nat \<Rightarrow> u64
     \<Rightarrow> (ingest_error + u64) \<times> (store_disk \<times> filter_store) \<times> nat" where
  "reconcile hex_decode views tip s clock rolled_back =
     (case covered_through (snd s) of
        None \<Rightarrow> (Inr rolled_back, s, clock)
      | Some height \<Rightarrow>
        (case block_hash_at (snd s) height of
           None \<Rightarrow> (Inl Expect_Failed, s, clock)
         | Some stored \<Rightarrow>
           let roll = (\<lambda>clock. reconcile hex_decode views tip
                 (rollback_to (checked_sub height 1) s) clock (rolled_back + 1)) in
           if height \<le> tip then
             (case nv_block_hash (views clock) height of
                Inl e \<Rightarrow> (Inl (Node_Error e), s, clock + 1)
              | Inr text \<Rightarrow>
                (case from_display_hex hex_decode text of
                   Inl e \<Rightarrow> (Inl (Hash_Error e), s, clock + 1)
                 | Inr canonical \<Rightarrow>
                   if canonical = stored then (Inr rolled_back, s, clock + 1) else roll (clock + 1)))
           else roll clock))"
  by pat_completeness auto
termination
  by (relation "measure (\<lambda>(_, _, _, s, _). length (fs_chain (snd s)))") (simp_all add: rollback_one_shorter)

declare reconcile.simps [simp del]

section \<open>Building one filter\<close>

record built_filter =
  bf_block_hash :: block_hash
  bf_filter :: bytes
  bf_rpc_lookups :: u64
  bf_cache_hits :: u64

definition build_block_filter ::
  "(string \<Rightarrow> bytes option) \<Rightarrow> (u64 \<Rightarrow> u64 \<Rightarrow> u64 \<Rightarrow> nat \<Rightarrow> bytes list \<Rightarrow> string + bytes) \<Rightarrow> (nat \<Rightarrow> node_view) \<Rightarrow> u64
     \<Rightarrow> output_cache \<Rightarrow> nat \<Rightarrow> (ingest_error + built_filter) \<times> output_cache \<times> nat" where
  "build_block_filter hex_decode gcs_writer views height cache clock =
     (case nv_block (views clock) height of
        Inl e \<Rightarrow> (Inl (Node_Error e), cache, clock + 1)
      | Inr (hash_display, txs) \<Rightarrow>
        (case from_display_hex hex_decode hash_display of
           Inl e \<Rightarrow> (Inl (Hash_Error e), cache, clock + 1)
         | Inr h \<Rightarrow>
           let cache = fold insert_transaction txs cache in
           (case prefetch_previous_outputs (nv_transactions (views (clock + 1))) cache txs of
              (cache, Inl e) \<Rightarrow> (Inl (Node_Error e), cache, clock + 2)
            | (cache, Inr batched) \<Rightarrow>
              (case extract_elements txs (zakura_lock_script (nv_transaction (views (clock + 2))))
                      \<lparr> zp_cache = cache, zp_rpc_lookups = 0, zp_cache_hits = 0 \<rparr> of
                 (Inl e, z) \<Rightarrow> (Inl (Resolve_Error e), zp_cache z, clock + 3)
               | (Inr elements, z) \<Rightarrow>
                 (case build_filter gcs_writer h elements of
                    Inl e \<Rightarrow> (Inl (Encode_Error e), zp_cache z, clock + 3)
                  | Inr filt \<Rightarrow>
                    (Inr \<lparr> bf_block_hash = h, bf_filter = filt,
                           bf_rpc_lookups = zp_rpc_lookups z + of_nat batched,
                           bf_cache_hits = zp_cache_hits z \<rparr>, zp_cache z, clock + 3))))))"

section \<open>The ingest loop\<close>

record ingest_state =
  ig_service :: service_state
  ig_cache :: output_cache
  ig_clock :: nat

definition set_store :: "store_disk \<times> filter_store \<Rightarrow> ingest_state \<Rightarrow> ingest_state" where
  "set_store s ig = ig \<lparr> ig_service := (ig_service ig) \<lparr> sv_store := s \<rparr> \<rparr>"

abbreviation ig_store :: "ingest_state \<Rightarrow> store_disk \<times> filter_store" where
  "ig_store ig \<equiv> sv_store (ig_service ig)"

text \<open>The body of the catch-up loop: it returns an error, breaks, or goes on with the next height.\<close>

datatype loop_step =
    Return ingest_error ingest_state
  | Break ingest_state
  | Continue u64 ingest_state

definition ingest_block ::
  "(string \<Rightarrow> bytes option) \<Rightarrow> (u64 \<Rightarrow> u64 \<Rightarrow> u64 \<Rightarrow> nat \<Rightarrow> bytes list \<Rightarrow> string + bytes) \<Rightarrow> (bytes \<Rightarrow> bytes)
     \<Rightarrow> (nat \<Rightarrow> node_view) \<Rightarrow> u64 \<Rightarrow> u64 \<Rightarrow> u64 \<Rightarrow> ingest_state \<Rightarrow> loop_step" where
  "ingest_block hex_decode gcs_writer sha256 views commit_every next since_commit ig =
     (case build_block_filter hex_decode gcs_writer views next (ig_cache ig) (ig_clock ig) of
        (Inl e, cache, clock) \<Rightarrow> Return e (ig \<lparr> ig_cache := cache, ig_clock := clock \<rparr>)
      | (Inr built, cache, clock) \<Rightarrow>
        let ig = ig \<lparr> ig_cache := cache, ig_clock := clock \<rparr> in
        if next_height (snd (ig_store ig)) \<noteq> next then Break ig
        else
          (case append sha256 next (bf_block_hash built) (bf_filter built) (ig_store ig) of
             Inl e \<Rightarrow> Return (Ingest_Store e) ig
           | Inr s \<Rightarrow>
             if since_commit + 1 \<ge> commit_every then Continue 0 (set_store (commit s) ig)
             else Continue (since_commit + 1) (set_store s ig)))"

fun catch_up ::
  "nat \<Rightarrow> (string \<Rightarrow> bytes option) \<Rightarrow> (u64 \<Rightarrow> u64 \<Rightarrow> u64 \<Rightarrow> nat \<Rightarrow> bytes list \<Rightarrow> string + bytes) \<Rightarrow> (bytes \<Rightarrow> bytes)
     \<Rightarrow> (nat \<Rightarrow> node_view) \<Rightarrow> u64 \<Rightarrow> u64 \<Rightarrow> u64 \<Rightarrow> u64 \<Rightarrow> ingest_state \<Rightarrow> (ingest_error + unit) \<times> ingest_state" where
  "catch_up 0 hex_decode gcs_writer sha256 views commit_every tip next since_commit ig = (Inl Out_Of_Fuel, ig)"
| "catch_up (Suc fuel) hex_decode gcs_writer sha256 views commit_every tip next since_commit ig =
     (if next \<le> tip then
        (case ingest_block hex_decode gcs_writer sha256 views commit_every next since_commit ig of
           Return e ig \<Rightarrow> (Inl e, ig)
         | Break ig \<Rightarrow> (Inr (), ig)
         | Continue since_commit ig \<Rightarrow>
             catch_up fuel hex_decode gcs_writer sha256 views commit_every tip (next + 1) since_commit ig)
      else (Inr (), ig))"

text \<open>From the reconciled store to the tip.\<close>

definition ingest_forward ::
  "(string \<Rightarrow> bytes option) \<Rightarrow> (u64 \<Rightarrow> u64 \<Rightarrow> u64 \<Rightarrow> nat \<Rightarrow> bytes list \<Rightarrow> string + bytes) \<Rightarrow> (bytes \<Rightarrow> bytes)
     \<Rightarrow> (nat \<Rightarrow> node_view) \<Rightarrow> u64 \<Rightarrow> u64 \<Rightarrow> ingest_state \<Rightarrow> (ingest_error + unit) \<times> ingest_state" where
  "ingest_forward hex_decode gcs_writer sha256 views commit_every tip ig =
     (let next = next_height (snd (ig_store ig)) in
      if next > tip then (Inr (), ig \<lparr> ig_service := set_phase Serving (ig_service ig) \<rparr>)
      else
        let ig = ig \<lparr> ig_service := set_phase (Syncing (checked_sub next 1) tip) (ig_service ig) \<rparr> in
        (case catch_up (unat tip + 2 - unat next) hex_decode gcs_writer sha256 views commit_every tip next 0 ig of
           (Inl e, ig) \<Rightarrow> (Inl e, ig)
         | (Inr _, ig) \<Rightarrow>
           let ig = set_store (commit (ig_store ig)) ig in
           (Inr (), ig \<lparr> ig_service := set_phase Serving (ig_service ig) \<rparr>)))"

definition ingest_from_tip ::
  "(string \<Rightarrow> bytes option) \<Rightarrow> (u64 \<Rightarrow> u64 \<Rightarrow> u64 \<Rightarrow> nat \<Rightarrow> bytes list \<Rightarrow> string + bytes) \<Rightarrow> (bytes \<Rightarrow> bytes)
     \<Rightarrow> (nat \<Rightarrow> node_view) \<Rightarrow> u64 \<Rightarrow> u64 \<Rightarrow> ingest_state \<Rightarrow> (ingest_error + unit) \<times> ingest_state" where
  "ingest_from_tip hex_decode gcs_writer sha256 views commit_every tip ig =
     (case reconcile hex_decode views tip (ig_store ig) (ig_clock ig) 0 of
        (Inl e, s, clock) \<Rightarrow> (Inl e, (set_store s ig) \<lparr> ig_clock := clock \<rparr>)
      | (Inr rolled_back, s, clock) \<Rightarrow>
        ingest_forward hex_decode gcs_writer sha256 views commit_every tip
          ((set_store s ig) \<lparr> ig_clock := clock \<rparr>))"

definition ingest_round ::
  "(string \<Rightarrow> bytes option) \<Rightarrow> (u64 \<Rightarrow> u64 \<Rightarrow> u64 \<Rightarrow> nat \<Rightarrow> bytes list \<Rightarrow> string + bytes) \<Rightarrow> (bytes \<Rightarrow> bytes)
     \<Rightarrow> (nat \<Rightarrow> node_view) \<Rightarrow> u64 \<Rightarrow> ingest_state \<Rightarrow> (ingest_error + unit) \<times> ingest_state" where
  "ingest_round hex_decode gcs_writer sha256 views commit_every ig =
     (case nv_tip_height (views (ig_clock ig)) of
        Inl e \<Rightarrow> (Inl (Node_Error e), ig \<lparr> ig_clock := ig_clock ig + 1 \<rparr>)
      | Inr tip \<Rightarrow> ingest_from_tip hex_decode gcs_writer sha256 views commit_every tip
          (ig \<lparr> ig_service := set_tip tip (ig_service ig), ig_clock := ig_clock ig + 1 \<rparr>))"

text \<open>\<open>run\<close> repeats the round until one fails; \<open>n\<close> rounds of it.\<close>

fun run_rounds ::
  "nat \<Rightarrow> (string \<Rightarrow> bytes option) \<Rightarrow> (u64 \<Rightarrow> u64 \<Rightarrow> u64 \<Rightarrow> nat \<Rightarrow> bytes list \<Rightarrow> string + bytes) \<Rightarrow> (bytes \<Rightarrow> bytes)
     \<Rightarrow> (nat \<Rightarrow> node_view) \<Rightarrow> u64 \<Rightarrow> ingest_state \<Rightarrow> (ingest_error + unit) \<times> ingest_state" where
  "run_rounds 0 hex_decode gcs_writer sha256 views commit_every ig = (Inr (), ig)"
| "run_rounds (Suc n) hex_decode gcs_writer sha256 views commit_every ig =
     (case ingest_round hex_decode gcs_writer sha256 views commit_every ig of
        (Inl e, ig) \<Rightarrow> (Inl e, ig)
      | (Inr _, ig) \<Rightarrow> run_rounds n hex_decode gcs_writer sha256 views commit_every ig)"

section \<open>Reconciliation: lemmas\<close>

definition room :: "nat \<Rightarrow> store_disk \<times> filter_store \<Rightarrow> bool" where
  "room n s \<longleftrightarrow> unat (filters_len (snd s)) + n * 2 ^ 32 < 2 ^ 64
     \<and> unat (fs_start_height (snd s)) + length (fs_chain (snd s)) + n < 2 ^ 64
     \<and> (length (fs_chain (snd s)) + n) * CHAIN_RECORD_BYTES < 2 ^ 64
     \<and> (length (by_hash (snd s)) + n) * INDEX_RECORD_BYTES < 2 ^ 64"

definition committed :: "store_disk \<times> filter_store \<Rightarrow> bool" where
  "committed s \<longleftrightarrow> commit s = s"

lemma commit_idem: "commit (commit s) = commit s"
  by (cases s) (simp add: commit_def)

lemma committed_commit [simp]: "committed (commit s)" "committed (rollback_to m s)"
  by (simp_all add: committed_def commit_idem rollback_to_def)

lemma commit_snd [simp]: "snd (commit s) = snd s"
  by (cases s) (simp add: commit_def)

lemma commit_abs [simp]: "store_abs (commit s) = store_abs s"
  by (cases s) (simp add: commit_def store_abs_def)

lemma room_commit [simp]: "room n (commit s) = room n s"
  by (simp add: room_def)

lemma snd_rollback:
  "snd (rollback_to m s) = (snd s) \<lparr> fs_chain := take (rollback_keep m (snd s)) (fs_chain (snd s)) \<rparr>"
  by (cases s) (simp add: rollback_to_def truncate_chain_def)

lemma start_rollback [simp]: "fs_start_height (snd (rollback_to m s)) = fs_start_height (snd s)"
  by (simp add: snd_rollback fs_start_height_def)

lemma room_rollback: "room n s \<Longrightarrow> room n (rollback_to m s)"
  by (auto simp: room_def snd_rollback fs_start_height_def CHAIN_RECORD_BYTES_def)

lemma reconcile_inv:
  assumes "reconcile hex_decode views tip s clock rolled = (r, s', clock')" and "store_ok sha256 s"
  shows "store_ok sha256 s' \<and> contents (store_abs s') = contents (store_abs s)
     \<and> fs_meta (snd s') = fs_meta (snd s)
     \<and> (room n s \<longrightarrow> room n s') \<and> (committed s \<longrightarrow> committed s') \<and> r \<noteq> Inl Out_Of_Fuel"
  using assms
proof (induction hex_decode views tip s clock rolled rule: reconcile.induct)
  case (1 hex_decode views tip s clock rolled)
  let ?roll = "\<lambda>h. rollback_to (checked_sub h 1) s"
  have next_ok: "store_ok sha256 (?roll h) \<and> contents (store_abs (?roll h)) = contents (store_abs s)
    \<and> fs_meta (snd (?roll h)) = fs_meta (snd s) \<and> (room n s \<longrightarrow> room n (?roll h)) \<and> committed (?roll h)" for h
    using "1.prems"(2) by (simp add: rollback_ok rollback_abs room_rollback snd_rollback)
  show ?case
    using "1.prems" next_ok "1.IH"
    by (subst (asm) (1) reconcile.simps)
       (auto simp: Let_def split: option.splits if_splits sum.splits)
qed


text \<open>The node confirms the block at position \<open>i\<close> of the coverage.\<close>

definition agrees :: "(string \<Rightarrow> bytes option) \<Rightarrow> node_view \<Rightarrow> u64 \<Rightarrow> filter_store \<Rightarrow> nat \<Rightarrow> bool" where
  "agrees hex_decode v tip st i \<longleftrightarrow> fs_start_height st + of_nat i \<le> tip
     \<and> bindR (map_err Node_Error (nv_block_hash v (fs_start_height st + of_nat i)))
         (\<lambda>text. map_err Hash_Error (from_display_hex hex_decode text)) = Inr (fs_chain st ! i)"

definition answers :: "(string \<Rightarrow> bytes option) \<Rightarrow> node_view \<Rightarrow> u64 \<Rightarrow> bool" where
  "answers hex_decode v height \<longleftrightarrow>
     (\<exists>text h. nv_block_hash v height = Inr text \<and> from_display_hex hex_decode text = Inr h)"

lemma covered_top:
  assumes "chain_fits st" and "fs_chain st \<noteq> []"
  shows "covered_through st = Some (fs_start_height st + of_nat (length (fs_chain st) - 1))"
    and "block_hash_at st (fs_start_height st + of_nat (length (fs_chain st) - 1)) = Some (last (fs_chain st))"
    and "rollback_keep (checked_sub (fs_start_height st + of_nat (length (fs_chain st) - 1)) 1) st = length (fs_chain st) - 1"
proof -
  let ?n = "length (fs_chain st) - 1" and ?s = "fs_start_height st"
  let ?h = "?s + of_nat ?n :: u64"
  have n: "?n < length (fs_chain st)" using assms(2) by simp
  show "covered_through st = Some ?h" using assms(2) by (simp add: covered_through_def of_nat_diff Suc_leI)
  show "block_hash_at st ?h = Some (last (fs_chain st))"
    using block_hash_at_offset [OF assms(1) n] assms(2) by (simp add: last_conv_nth)
  have u: "unat ?h = unat ?s + ?n" by (rule unat_start_plus [OF assms(1) n])
  show "rollback_keep (checked_sub ?h 1) st = ?n"
  proof (cases "?n = 0")
    case True
    have "?h - 1 < ?s" if "1 \<le> ?h"
      using unat_minus_nowrap [OF that] that u True by (simp add: word_less_nat_alt word_le_nat_alt)
    then show ?thesis using True by (auto simp: rollback_keep_def checked_sub_def split: option.splits)
  next
    case False
    then have ge: "1 \<le> ?h" using u by (simp only: word_le_nat_alt) simp
    moreover have "unat (?h - 1) = unat ?s + ?n - 1"
      using unat_minus_nowrap [OF ge] u by (simp only: unat_1)
    then have "\<not> ?h - 1 < ?s" using False by (simp add: word_less_nat_alt)
    moreover have "?h - 1 - ?s + 1 = of_nat ?n" by simp
    then have "unat (?h - 1 - ?s + 1) = ?n" using assms n by (simp only:) (simp add: chain_fits_def unat_of_nat_u64)
    ultimately show ?thesis by (simp add: rollback_keep_def checked_sub_def)
  qed
qed

lemma chain_fits_rollback: "chain_fits (snd s) \<Longrightarrow> chain_fits (snd (rollback_to m s))"
  by (auto simp: chain_fits_def snd_rollback fs_start_height_def)

lemma reconcile_stable:
  assumes "chain_fits (snd s)" and "\<And>t. views t = v"
    and "\<And>i. i < length (fs_chain (snd s)) \<Longrightarrow> fs_start_height (snd s) + of_nat i \<le> tip
           \<Longrightarrow> answers hex_decode v (fs_start_height (snd s) + of_nat i)"
  shows "\<exists>k clock'. k \<le> length (fs_chain (snd s))
     \<and> (\<exists>s'. reconcile hex_decode views tip s clock rolled = (Inr (rolled + of_nat (length (fs_chain (snd s)) - k)), s', clock')
           \<and> fs_chain (snd s') = take k (fs_chain (snd s)))
     \<and> (0 < k \<longrightarrow> agrees hex_decode v tip (snd s) (k - 1))
     \<and> (\<forall>i. k \<le> i \<and> i < length (fs_chain (snd s)) \<longrightarrow> \<not> agrees hex_decode v tip (snd s) i)"
  using assms(1,3)
proof (induction "length (fs_chain (snd s))" arbitrary: s clock rolled)
  case 0
  then have "reconcile hex_decode views tip s clock rolled = (Inr rolled, s, clock)"
    by (subst reconcile.simps) (simp add: covered_through_def)
  then show ?case using 0 by - (rule exI [of _ 0], rule exI [of _ clock], auto)
next
  case (Suc n)
  let ?st = "snd s"
  let ?h = "fs_start_height ?st + of_nat n :: u64"
  let ?s1 = "rollback_to (checked_sub ?h 1) s"
  have ne: "fs_chain ?st \<noteq> []" and len: "length (fs_chain ?st) - 1 = n" using Suc.hyps(2) by auto
  note top = covered_top [OF Suc.prems(1) ne, unfolded len]
  have last_n: "last (fs_chain ?st) = fs_chain ?st ! n" using ne len by (simp add: last_conv_nth)
  have ch1: "fs_chain (snd ?s1) = take n (fs_chain ?st)" by (simp add: snd_rollback top(3))
  then have len1: "n = length (fs_chain (snd ?s1))" using Suc.hyps(2) by simp
  then have lt: "length (take n (fs_chain ?st)) = n" using ch1 by simp
  have agr1: "agrees hex_decode v tip (snd ?s1) i = agrees hex_decode v tip ?st i" if "i < n" for i
    using that ch1 by (simp add: agrees_def)
  show ?case
  proof (cases "agrees hex_decode v tip ?st n")
    case True
    then have "reconcile hex_decode views tip s clock rolled = (Inr rolled, s, clock + 1)"
      by (subst reconcile.simps)
         (auto simp: top(1,2) assms(2) last_n agrees_def bindR_Inr_iff map_err_def split: sum.splits)
    then show ?thesis using True Suc.hyps(2) len
      by - (rule exI [of _ "Suc n"], rule exI [of _ "clock + 1"], auto)
  next
    case False
    have ex: "\<exists>c. reconcile hex_decode views tip s clock rolled = reconcile hex_decode views tip ?s1 c (rolled + 1)"
    proof (cases "?h \<le> tip")
      case True
      then obtain disp h where "nv_block_hash v ?h = Inr disp" "from_display_hex hex_decode disp = Inr h"
        using Suc.prems(2) [of n] Suc.hyps(2) by (auto simp: answers_def)
      moreover from this have "h \<noteq> fs_chain ?st ! n" using False True by (simp add: agrees_def)
      ultimately have "reconcile hex_decode views tip s clock rolled = reconcile hex_decode views tip ?s1 (clock + 1) (rolled + 1)"
        using True by (subst reconcile.simps) (simp add: top(1,2) assms(2) last_n Let_def)
      then show ?thesis by blast
    next
      case False
      then have "reconcile hex_decode views tip s clock rolled = reconcile hex_decode views tip ?s1 clock (rolled + 1)"
        by (subst reconcile.simps) (simp add: top(1,2) Let_def)
      then show ?thesis by blast
    qed
    from ex obtain c where rest: "reconcile hex_decode views tip s clock rolled = reconcile hex_decode views tip ?s1 c (rolled + 1)" ..
    have ans: "answers hex_decode v (fs_start_height (snd ?s1) + of_nat i)"
      if "i < length (fs_chain (snd ?s1))" "fs_start_height (snd ?s1) + of_nat i \<le> tip" for i
      using Suc.prems(2) [of i] that len1 Suc.hyps(2) by simp
    obtain k c' s' where k: "k \<le> n" "reconcile hex_decode views tip ?s1 c (rolled + 1) = (Inr (rolled + 1 + of_nat (n - k)), s', c')"
      "fs_chain (snd s') = take k (take n (fs_chain ?st))" "0 < k \<longrightarrow> agrees hex_decode v tip (snd ?s1) (k - 1)"
      "\<forall>i. k \<le> i \<and> i < n \<longrightarrow> \<not> agrees hex_decode v tip (snd ?s1) i"
      using Suc.hyps(1) [OF len1 chain_fits_rollback [OF Suc.prems(1)] ans, where clock = c and rolled = "rolled + 1"] unfolding ch1 lt by blast
    have "\<not> agrees hex_decode v tip ?st i" if "k \<le> i" "i < Suc n" for i
      using that k(5) agr1 [of i] False by (cases "i = n") auto
    moreover have "rolled + 1 + of_nat (n - k) = rolled + of_nat (Suc n - k)" using k(1) by (simp add: Suc_diff_le)
    ultimately show ?thesis
      using k rest Suc.hyps(2) agr1 [of "k - 1"] by - (rule exI [of _ k], rule exI [of _ c'], (auto simp: min_def))
  qed
qed


section \<open>Building and catching up: lemmas\<close>

text \<open>
  What is true of the chain outside the service: a block hash determines its transactions, every
  transaction a view shows is one of the ledger, and a block has fewer than \<open>2 ^ 30\<close> distinct scripts (consensus caps a block at 2 MiB).
\<close>

definition views_honest ::
  "ledger \<Rightarrow> (block_hash \<Rightarrow> transaction list) \<Rightarrow> (string \<Rightarrow> bytes option) \<Rightarrow> (nat \<Rightarrow> node_view) \<Rightarrow> bool" where
  "views_honest ledger block_of hex_decode views \<longleftrightarrow> (\<forall>t.
     node_honest ledger (nv_transaction (views t))
     \<and> (\<forall>ids txs tx. nv_transactions (views t) ids = Inr txs \<and> Some tx \<in> set txs \<longrightarrow> in_ledger ledger tx)
     \<and> (\<forall>n disp txs h. nv_block (views t) n = Inr (disp, txs) \<and> from_display_hex hex_decode disp = Inr h
          \<longrightarrow> txs = block_of h \<and> (\<forall>tx \<in> set txs. in_ledger ledger tx)))"

definition true_filter ::
  "ledger \<Rightarrow> (block_hash \<Rightarrow> transaction list) \<Rightarrow> (u64 \<Rightarrow> u64 \<Rightarrow> u64 \<Rightarrow> nat \<Rightarrow> bytes list \<Rightarrow> string + bytes)
     \<Rightarrow> block_hash \<Rightarrow> bytes \<Rightarrow> bool" where
  "true_filter ledger block_of gcs_writer h c \<longleftrightarrow>
     (\<exists>es. set es = block_elements (ledger_script ledger) (block_of h) \<and> build_filter gcs_writer h es = Inr c)"

definition blocks_small :: "ledger \<Rightarrow> (block_hash \<Rightarrow> transaction list) \<Rightarrow> bool" where
  "blocks_small ledger block_of \<longleftrightarrow> (\<forall>h. card (block_elements (ledger_script ledger) (block_of h)) < 2 ^ 30)"

text \<open>The filters the service stores are below 4 GiB: what the length field of a record can hold.\<close>

lemma true_filter_small:
  assumes writer: "bip158_writer siphash gcs_writer" and small: "blocks_small ledger block_of"
    and c: "true_filter ledger block_of gcs_writer h c"
  shows "length c < 2 ^ 32"
proof -
  obtain es where es: "set es = block_elements (ledger_script ledger) (block_of h)" "build_filter gcs_writer h es = Inr c"
    using c by (auto simp: true_filter_def)
  have "element_count es \<le> card (set es)" unfolding element_count_card by (rule card_mono) auto
  then have n: "element_count es < 2 ^ 30" using small es(1) by (auto simp: blocks_small_def intro: le_less_trans)
  then have count: "element_count es * unat M < 2 ^ 64" by (simp add: M_def)
  let ?vs = "mapped_values (siphash (fst (filter_keys h)) (snd (filter_keys h))) (btree_elements es)"
  have "c = gcs_encode ?vs" using build_filter_bytes [OF writer count, of h] es(2) by simp
  moreover have "length (gcs_encode ?vs) < 2 ^ 32"
  proof (rule length_gcs_encode_le)
    show "sorted ?vs" by (simp add: mapped_values_def)
    show "\<forall>v \<in> set ?vs. v < length ?vs * unat M" using mapped_values_less count by (simp add: element_count_def)
    show "length ?vs < 2 ^ 30" using n by (simp add: element_count_def)
  qed
  ultimately show ?thesis by simp
qed

lemma cache_true_fold: "\<forall>tx \<in> set txs. in_ledger ledger tx \<Longrightarrow> cache_true ledger c
    \<Longrightarrow> cache_true ledger (fold insert_transaction txs c)"
  by (induction txs arbitrary: c) (simp_all add: insert_transaction_true)

lemma prefetch_chunks_true:
  assumes "\<And>ids txs tx. node_batch ids = Inr txs \<Longrightarrow> Some tx \<in> set txs \<Longrightarrow> in_ledger ledger tx"
    and "cache_true ledger c"
  shows "cache_true ledger (fst (prefetch_chunks node_batch wanted c n))"
  using assms
proof (induction node_batch wanted c n rule: prefetch_chunks.induct)
  case (1 node_batch wanted c n)
  show ?case
  proof (cases "wanted = []")
    case True
    then show ?thesis using "1.prems" by (simp add: prefetch_chunks.simps)
  next
    case False
    show ?thesis
    proof (cases "node_batch (take PREVOUT_BATCH wanted)")
      case (Inl e)
      then show ?thesis using "1.prems"(2) False by (simp add: prefetch_chunks.simps [of _ wanted])
    next
      case (Inr txs)
      let ?found = "map the (filter (\<lambda>t. t \<noteq> None) txs)"
      have "\<forall>tx \<in> set ?found. in_ledger ledger tx" using "1.prems"(1) [OF Inr] by auto
      from "1.IH" [OF False Inr refl "1.prems"(1) cache_true_fold [OF this "1.prems"(2)]]
      show ?thesis using Inr False by (simp add: prefetch_chunks.simps [of _ wanted] Let_def)
    qed
  qed
qed

lemma build_block_filter_true:
  assumes hon: "views_honest ledger block_of hex_decode views" and c: "cache_true ledger cache"
    and run: "build_block_filter hex_decode gcs_writer views n cache clock = (r, cache', clock')"
  shows "cache_true ledger cache' \<and> (\<forall>b. r = Inr b \<longrightarrow>
     hash_ok (bf_block_hash b) \<and> true_filter ledger block_of gcs_writer (bf_block_hash b) (bf_filter b))"
proof -
  note d = run [unfolded build_block_filter_def]
  show ?thesis
  proof (cases "nv_block (views clock) n")
    case (Inl e)
    then show ?thesis using d c by auto
  next
    case (Inr dt)
    obtain disp txs where dt: "dt = (disp, txs)" by (cases dt)
    show ?thesis
    proof (cases "from_display_hex hex_decode disp")
      case Inl
      then show ?thesis using d c Inr dt by auto
    next
      case h: (Inr h)
      have led: "txs = block_of h" "\<forall>tx \<in> set txs. in_ledger ledger tx"
        using hon Inr dt h by (auto simp: views_honest_def)
      let ?c1 = "fold insert_transaction txs cache"
      obtain c2 p where pre: "prefetch_previous_outputs (nv_transactions (views (clock + 1))) ?c1 txs = (c2, p)" by fastforce
      have "cache_true ledger ?c1" by (rule cache_true_fold [OF led(2) c])
      then have c2: "cache_true ledger c2"
        using pre prefetch_chunks_true [of "nv_transactions (views (clock + 1))" ledger ?c1] hon
        by (auto simp: prefetch_previous_outputs_def views_honest_def split: prod.splits) (metis fst_conv)
      let ?node = "nv_transaction (views (clock + 2))"
      let ?z = "\<lparr> zp_cache = c2, zp_rpc_lookups = 0, zp_cache_hits = 0 \<rparr>"
      obtain x z where ext: "extract_elements txs (zakura_lock_script ?node) ?z = (x, z)" by fastforce
      have good: "zakura_good ledger ?node ?z" using c2 hon by (auto simp: zakura_good_def views_honest_def)
      have created: "\<forall>op b. map_of (created_outputs txs) op = Some b \<longrightarrow> ledger_script ledger op = Some b"
        using created_true [OF led(2)] unfolding scripts_true_def .
      have z: "cache_true ledger (zp_cache z)"
        using zk.extract_elements_good [OF good created ext] by (simp add: zakura_good_def)
      show ?thesis
        using d Inr dt h pre c2 z ext led(1) from_display_hex_ok [OF h]
          zk.extract_elements_spec [OF good created]
        by (auto simp: Let_def true_filter_def split: sum.splits) blast
    qed
  qed
qed


lemma append_room:
  assumes "append sha256 n h filt s = Inr s'" and "room (Suc k) s" and "length filt < 2 ^ 32"
  shows "room k s'" and "fs_meta (snd s') = fs_meta (snd s)" and "fs_chain (snd s') = fs_chain (snd s) @ [h]"
    and "fs_start_height (snd s') = fs_start_height (snd s)"
proof -
  obtain d st where s: "s = (d, st)" by (cases s)
  let ?loc = "\<lparr> lc_offset = filters_len st, lc_length = of_nat (length filt), lc_digest = filter_hash sha256 filt \<rparr>"
  consider (old) "snd s' = st \<lparr> fs_chain := fs_chain st @ [h] \<rparr>"
    | (fresh) "snd s' = st \<lparr> filters_len := filters_len st + of_nat (length filt),
        by_hash := by_hash st @ [(h, ?loc)], fs_chain := fs_chain st @ [h] \<rparr>"
    using assms(1) s update_new [of "by_hash st" h]
    by (cases "map_of (by_hash st) h") (auto simp: append_def Let_def split: if_splits)
  note form = this
  have len: "unat (filters_len st + of_nat (length filt)) = unat (filters_len st) + length filt"
    using assms(2,3) s by (subst unat_add_nowrap) (simp_all add: room_def unat_of_nat_u64)
  show "room k s'" using form
    by cases (use assms(2,3) s len in \<open>simp_all add: room_def fs_start_height_def CHAIN_RECORD_BYTES_def INDEX_RECORD_BYTES_def\<close>)
  show "fs_meta (snd s') = fs_meta (snd s)" using form s by cases simp_all
  then show "fs_start_height (snd s') = fs_start_height (snd s)" by (simp add: fs_start_height_def)
  show "fs_chain (snd s') = fs_chain (snd s) @ [h]" using form s by cases simp_all
qed

definition ingest_good ::
  "ledger \<Rightarrow> (block_hash \<Rightarrow> transaction list) \<Rightarrow> (u64 \<Rightarrow> u64 \<Rightarrow> u64 \<Rightarrow> nat \<Rightarrow> bytes list \<Rightarrow> string + bytes)
     \<Rightarrow> (bytes \<Rightarrow> bytes) \<Rightarrow> ingest_state \<Rightarrow> bool" where
  "ingest_good ledger block_of gcs_writer sha256 ig \<longleftrightarrow> store_ok sha256 (ig_store ig) \<and> cache_true ledger (ig_cache ig)
     \<and> (\<forall>h c. contents (store_abs (ig_store ig)) h = Some c \<longrightarrow> true_filter ledger block_of gcs_writer h c)"

lemma set_store_simps [simp]:
  "ig_store (set_store s ig) = s" "ig_cache (set_store s ig) = ig_cache ig" "ig_clock (set_store s ig) = ig_clock ig"
  by (simp_all add: set_store_def)

lemma append_good:
  assumes good: "ingest_good ledger block_of gcs_writer sha256 ig"
    and sha: "\<And>x. length (sha256 x) = 32" and h: "hash_ok h"
    and filt: "true_filter ledger block_of gcs_writer h filt" "length filt < 2 ^ 32"
    and app: "append sha256 n h filt (ig_store ig) = Inr s'" and room: "room (Suc k) (ig_store ig)"
  shows "ingest_good ledger block_of gcs_writer sha256 (set_store s' ig)"
proof -
  have ok: "store_ok sha256 (ig_store ig)" using good by (simp add: ingest_good_def)
  have fits: "unat (filters_len (snd (ig_store ig))) + length filt < 2 ^ 64"
    "unat (fs_start_height (snd (ig_store ig))) + length (fs_chain (snd (ig_store ig))) + 1 < 2 ^ 64
         \<and> (length (fs_chain (snd (ig_store ig))) + 1) * CHAIN_RECORD_BYTES < 2 ^ 64"
    "(length (by_hash (snd (ig_store ig))) + 1) * INDEX_RECORD_BYTES < 2 ^ 64"
    using room filt(2) by (simp_all add: room_def CHAIN_RECORD_BYTES_def INDEX_RECORD_BYTES_def)
  have "store_ok sha256 s'" by (rule append_ok [OF ok app sha h filt(2) fits])
  moreover have "true_filter ledger block_of gcs_writer k c" if "contents (store_abs s') k = Some c" for k c
    using that append_abs(2) [OF ok app filt(2) fits(1)] good filt(1)
    by (auto simp: ingest_good_def split: option.splits if_splits)
  ultimately show ?thesis using good by (simp add: ingest_good_def)
qed

lemma commit_good:
  "ingest_good ledger block_of gcs_writer sha256 (set_store s ig)
     \<Longrightarrow> ingest_good ledger block_of gcs_writer sha256 (set_store (commit s) ig)"
  by (simp add: ingest_good_def commit_ok)

lemma ingest_block_good:
  assumes hon: "views_honest ledger block_of hex_decode views" and small: "bip158_writer siphash gcs_writer" "blocks_small ledger block_of"
    and sha: "\<And>x. length (sha256 x) = 32"
    and good: "ingest_good ledger block_of gcs_writer sha256 ig" and room: "room (Suc k) (ig_store ig)"
    and "next": "next = next_height (snd (ig_store ig))"
  shows "case ingest_block hex_decode gcs_writer sha256 views commit_every next since ig of
      Return e ig' \<Rightarrow> ingest_good ledger block_of gcs_writer sha256 ig' \<and> ig_store ig' = ig_store ig \<and> e \<noteq> Out_Of_Fuel
    | Break ig' \<Rightarrow> False
    | Continue since' ig' \<Rightarrow> ingest_good ledger block_of gcs_writer sha256 ig' \<and> room k (ig_store ig')
        \<and> fs_meta (snd (ig_store ig')) = fs_meta (snd (ig_store ig))
        \<and> (\<exists>h. fs_chain (snd (ig_store ig')) = fs_chain (snd (ig_store ig)) @ [h])
        \<and> next_height (snd (ig_store ig')) = next + 1"
proof -
  obtain x cache clock where b: "build_block_filter hex_decode gcs_writer views next (ig_cache ig) (ig_clock ig) = (x, cache, clock)"
    by (cases "build_block_filter hex_decode gcs_writer views next (ig_cache ig) (ig_clock ig)") auto
  let ?ig = "ig \<lparr> ig_cache := cache, ig_clock := clock \<rparr>"
  have "cache_true ledger (ig_cache ig)" using good by (simp add: ingest_good_def)
  note bt = build_block_filter_true [OF hon this b]
  then have g1: "ingest_good ledger block_of gcs_writer sha256 ?ig" using good by (simp add: ingest_good_def)
  show ?thesis
  proof (cases x)
    case (Inl e)
    moreover have "e \<noteq> Out_Of_Fuel" using b Inl
      by (auto simp: build_block_filter_def Let_def split: sum.splits prod.splits)
    ultimately show ?thesis using b g1 by (simp add: ingest_block_def)
  next
    case (Inr bf)
    show ?thesis
    proof (cases "append sha256 next (bf_block_hash bf) (bf_filter bf) (ig_store ig)")
      case (Inl e)
      then show ?thesis using \<open>x = Inr bf\<close> b "next" g1 by (simp add: ingest_block_def)
    next
      case app: (Inr s1)
      have lf: "length (bf_filter bf) < 2 ^ 32"
        using bt Inr true_filter_small [OF small] by auto
      have app': "append sha256 next (bf_block_hash bf) (bf_filter bf) (ig_store ?ig) = Inr s1" "room (Suc k) (ig_store ?ig)"
        using app room by simp_all
      note ar = append_room [OF app' lf]
      have g2: "ingest_good ledger block_of gcs_writer sha256 (set_store s1 ?ig)"
        using bt Inr lf by (intro append_good [OF g1 sha _ _ _ app']) auto
      have "next_height (snd s1) = next + 1"
        using ar(3,4) room "next" by (simp add: next_height_eq room_def)
      then show ?thesis
        using \<open>x = Inr bf\<close> b app "next" ar g2 commit_good [OF g2] by (simp add: ingest_block_def Let_def)
    qed
  qed
qed

lemma catch_up_good:
  assumes hon: "views_honest ledger block_of hex_decode views" and small: "bip158_writer siphash gcs_writer" "blocks_small ledger block_of"
    and sha: "\<And>x. length (sha256 x) = 32" and tip: "unat tip < 2 ^ 64 - 1"
    and run: "catch_up fuel hex_decode gcs_writer sha256 views commit_every tip next since ig = (r, ig')"
    and good: "ingest_good ledger block_of gcs_writer sha256 ig" and room: "room fuel (ig_store ig)"
    and "next": "next = next_height (snd (ig_store ig))" and fuel: "0 < fuel" "unat tip + 2 - unat next \<le> fuel"
  shows "ingest_good ledger block_of gcs_writer sha256 ig'
     \<and> fs_meta (snd (ig_store ig')) = fs_meta (snd (ig_store ig))
     \<and> (\<exists>bs. fs_chain (snd (ig_store ig')) = fs_chain (snd (ig_store ig)) @ bs)
     \<and> r \<noteq> Inl Out_Of_Fuel \<and> (\<forall>u. r = Inr u \<longrightarrow> tip < next_height (snd (ig_store ig')))"
  using run good room "next" fuel
proof (induction fuel arbitrary: "next" since ig)
  case 0
  then show ?case by simp
next
  case (Suc fuel)
  show ?case
  proof (cases "next \<le> tip")
    case False
    then show ?thesis using Suc.prems by auto
  next
    case True
    note step = ingest_block_good [OF hon small sha Suc.prems(2,3,4), of commit_every since]
    show ?thesis
    proof (cases "ingest_block hex_decode gcs_writer sha256 views commit_every next since ig")
      case (Continue since' ig1)
      then have rest: "catch_up fuel hex_decode gcs_writer sha256 views commit_every tip (next + 1) since' ig1 = (r, ig')"
        and c: "ingest_good ledger block_of gcs_writer sha256 ig1" "room fuel (ig_store ig1)" "next + 1 = next_height (snd (ig_store ig1))"
          "fs_meta (snd (ig_store ig1)) = fs_meta (snd (ig_store ig))"
          "\<exists>h. fs_chain (snd (ig_store ig1)) = fs_chain (snd (ig_store ig)) @ [h]"
        using Suc.prems(1) True step by auto
      have un: "unat (next + 1) = unat next + 1"
        using True tip by (subst unat_add_nowrap) (simp_all add: word_le_nat_alt)
      have f2: "0 < fuel" "unat tip + 2 - unat (next + 1) \<le> fuel"
        using Suc.prems(6) True un by (simp_all add: word_le_nat_alt)
      show ?thesis using Suc.IH [OF rest c(1,2,3) f2] c(4,5) by auto
    qed (use Suc.prems(1) True step in auto)
  qed
qed

lemma forward_good:
  assumes hon: "views_honest ledger block_of hex_decode views" and small: "bip158_writer siphash gcs_writer" "blocks_small ledger block_of"
    and sha: "\<And>x. length (sha256 x) = 32" and tip: "unat tip < 2 ^ 64 - 1"
    and good: "ingest_good ledger block_of gcs_writer sha256 ig" and room: "room (unat tip + 2) (ig_store ig)"
    and dur: "committed (ig_store ig)"
    and run: "ingest_forward hex_decode gcs_writer sha256 views commit_every tip ig = (r, ig')"
  shows "ingest_good ledger block_of gcs_writer sha256 ig' \<and> r \<noteq> Inl Out_Of_Fuel
     \<and> fs_meta (snd (ig_store ig')) = fs_meta (snd (ig_store ig))
     \<and> (\<forall>u. r = Inr u \<longrightarrow> tip < next_height (snd (ig_store ig')) \<and> sv_phase (ig_service ig') = Serving \<and> committed (ig_store ig'))"
proof (cases "tip < next_height (snd (ig_store ig))")
  case True
  then show ?thesis using run good dur by (auto simp: ingest_forward_def set_phase_def ingest_good_def)
next
  case False
  let ?next = "next_height (snd (ig_store ig))"
  let ?ig = "ig \<lparr> ig_service := set_phase (Syncing (checked_sub ?next 1) tip) (ig_service ig) \<rparr>"
  let ?fuel = "unat tip + 2 - unat ?next"
  have st: "ig_store ?ig = ig_store ig" by (simp add: set_phase_def)
  have g: "ingest_good ledger block_of gcs_writer sha256 ?ig" using good st by (simp add: ingest_good_def)
  have rm: "room ?fuel (ig_store ?ig)" using room st by (auto simp: room_def CHAIN_RECORD_BYTES_def INDEX_RECORD_BYTES_def)
  have fuel: "0 < ?fuel" using False by (simp add: word_less_nat_alt)
  obtain y ig2 where cu: "catch_up ?fuel hex_decode gcs_writer sha256 views commit_every tip ?next 0 ?ig = (y, ig2)"
    by fastforce
  have cg: "ingest_good ledger block_of gcs_writer sha256 ig2 \<and> fs_meta (snd (ig_store ig2)) = fs_meta (snd (ig_store ig))
      \<and> y \<noteq> Inl Out_Of_Fuel \<and> (\<forall>u. y = Inr u \<longrightarrow> tip < next_height (snd (ig_store ig2)))"
    using catch_up_good [OF hon small sha tip cu g rm _ fuel] st by auto
  show ?thesis
  proof (cases y)
    case (Inl e)
    then show ?thesis using run False cu cg by (auto simp: ingest_forward_def Let_def)
  next
    case (Inr u)
    let ?ig3 = "set_store (commit (ig_store ig2)) ig2"
    have "r = Inr () \<and> ig' = ?ig3 \<lparr> ig_service := set_phase Serving (ig_service ?ig3) \<rparr>"
      using run False cu Inr by (simp add: ingest_forward_def Let_def)
    then show ?thesis using cg Inr by (auto simp: ingest_good_def set_phase_def commit_ok)
  qed
qed

lemma open_durable:
  assumes "committed s" and "store_ok sha256 s" and "sm_version (fs_meta (snd s)) = STORE_VERSION"
  shows "let m = fs_meta (snd s) in
    open_store (sm_profile m) (sm_genesis_hash m) (sm_start_height m) (fst s) = (fst s, Inr (snd s))"
  using open_committed [of sha256 "fst s" "snd s"] assms
  by (cases "fs_meta (snd s)") (simp add: wanted_meta_def committed_def)

lemma round_top_agrees:
  assumes "\<And>t. t \<ge> ig_clock ig \<Longrightarrow> views t = v" and "nv_tip_height v = Inr tip"
    and "covered_through (snd (ig_store ig)) = Some tip" and "tip < tip + 1"
    and "block_hash_at (snd (ig_store ig)) tip = Some h"
    and "nv_block_hash v tip = Inr disp" and "from_display_hex hex_decode disp = Inr h"
  shows "\<exists>ig'. ingest_round hex_decode gcs_writer sha256 views commit_every ig = (Inr (), ig')
     \<and> ig_store ig' = ig_store ig \<and> sv_phase (ig_service ig') = Serving \<and> ig_clock ig' = ig_clock ig + 2"
proof -
  have v: "views (ig_clock ig) = v" "views (Suc (ig_clock ig)) = v" using assms(1) by auto
  have "reconcile hex_decode views tip (ig_store ig) (Suc (ig_clock ig)) 0 = (Inr 0, ig_store ig, Suc (Suc (ig_clock ig)))"
    using assms v by (subst reconcile.simps) simp
  moreover have "tip < next_height (snd (ig_store ig))" using assms(3,4) by (simp add: next_height_def)
  ultimately show ?thesis
    using v assms(2) by (simp add: ingest_round_def ingest_from_tip_def ingest_forward_def Let_def set_tip_def set_phase_def)
qed

lemma rounds_top_agree:
  assumes "\<And>t. t \<ge> ig_clock ig \<Longrightarrow> views t = v" and "nv_tip_height v = Inr tip"
    and "covered_through (snd (ig_store ig)) = Some tip" and "tip < tip + 1"
    and "block_hash_at (snd (ig_store ig)) tip = Some h"
    and "nv_block_hash v tip = Inr disp" and "from_display_hex hex_decode disp = Inr h"
  shows "\<exists>ig'. run_rounds n hex_decode gcs_writer sha256 views commit_every ig = (Inr (), ig') \<and> ig_store ig' = ig_store ig"
  using assms(1,3,5)
proof (induction n arbitrary: ig)
  case (Suc n)
  obtain ig1 where r: "ingest_round hex_decode gcs_writer sha256 views commit_every ig = (Inr (), ig1)"
    "ig_store ig1 = ig_store ig" "ig_clock ig1 = ig_clock ig + 2"
    using round_top_agrees [of ig views v tip h disp hex_decode gcs_writer sha256 commit_every] Suc.prems assms(2,4,6,7) by blast
  then show ?case using Suc.IH [of ig1] Suc.prems by simp
qed simp

section \<open>Properties\<close>

text \<open>
  C18. Reconciliation stops at the highest block the node still agrees with. Against a view that answers for the
  covered heights up to the tip it returns without error or panic, keeps every filter, and leaves as
  coverage exactly the longest prefix whose top block is at or below the tip and has the hash the node
  reports: the block at the top agrees and every block removed was above the tip or disagreed.
\<close>

theorem reconcile_highest_agreed:
  assumes ok: "store_ok sha256 s" and view: "\<And>t. views t = v"
    and ans: "\<And>i. i < length (fs_chain (snd s)) \<Longrightarrow> fs_start_height (snd s) + of_nat i \<le> tip
           \<Longrightarrow> answers hex_decode v (fs_start_height (snd s) + of_nat i)"
  shows "\<exists>k s' clock'. reconcile hex_decode views tip s clock 0 = (Inr (of_nat (length (fs_chain (snd s)) - k)), s', clock')
     \<and> k \<le> length (fs_chain (snd s)) \<and> store_ok sha256 s'
     \<and> contents (store_abs s') = contents (store_abs s)
     \<and> coverage (store_abs s') = take k (coverage (store_abs s))
     \<and> (0 < k \<longrightarrow> agrees hex_decode v tip (snd s) (k - 1))
     \<and> (\<forall>i. k \<le> i \<and> i < length (fs_chain (snd s)) \<longrightarrow> \<not> agrees hex_decode v tip (snd s) i)"
proof -
  have "chain_fits (snd s)" using ok by (cases s) (auto elim: store_okE simp: chain_fits_def)
  from reconcile_stable [where views = views and tip = tip and clock = clock and rolled = 0, OF this view ans]
  obtain k c s' where r: "reconcile hex_decode views tip s clock 0 = (Inr (of_nat (length (fs_chain (snd s)) - k)), s', c)"
    "k \<le> length (fs_chain (snd s))" "fs_chain (snd s') = take k (fs_chain (snd s))"
    "0 < k \<longrightarrow> agrees hex_decode v tip (snd s) (k - 1)"
    "\<forall>i. k \<le> i \<and> i < length (fs_chain (snd s)) \<longrightarrow> \<not> agrees hex_decode v tip (snd s) i"
    by auto
  have "coverage (store_abs s') = take k (coverage (store_abs s))"
    using r(3) by (cases s; cases s') (simp add: store_abs_def)
  with r reconcile_inv [OF r(1) ok] show ?thesis by blast
qed

text \<open>
  C19. However the best chain of an honest node changes between the calls, and whichever calls fail, a round of ingest
  keeps the store consistent and every stored filter the true filter of its block, even when the round
  fails half way. Honest means that the transactions shown for a block hash are those of the block; the writer is the
  BIP 158 encoder, and a block has fewer than \<open>2 ^ 30\<close> distinct scripts. When the round succeeds, coverage reaches past the tip it was told, and the files on disk reopen
  to exactly the served state: nothing served is lost by a restart. The catch-up loop never runs out
  of the fuel the model gives it.
\<close>

theorem ingest_round_safe:
  assumes "views_honest ledger block_of hex_decode views" and "bip158_writer siphash gcs_writer" and "blocks_small ledger block_of"
    and "\<And>x. length (sha256 x) = 32"
    and tip: "nv_tip_height (views (ig_clock ig)) = Inr tip" and "unat tip < 2 ^ 64 - 2"
    and good: "ingest_good ledger block_of gcs_writer sha256 ig" and dur: "committed (ig_store ig)"
    and room: "room (unat tip + 2) (ig_store ig)" and ver: "sm_version (fs_meta (snd (ig_store ig))) = STORE_VERSION"
    and run: "ingest_round hex_decode gcs_writer sha256 views commit_every ig = (r, ig')"
  shows "ingest_good ledger block_of gcs_writer sha256 ig' \<and> r \<noteq> Inl Out_Of_Fuel
     \<and> (\<forall>u. r = Inr u \<longrightarrow> tip < next_height (snd (ig_store ig')) \<and> sv_phase (ig_service ig') = Serving
         \<and> (let m = fs_meta (snd (ig_store ig')) in
              open_store (sm_profile m) (sm_genesis_hash m) (sm_start_height m) (fst (ig_store ig')) = (fst (ig_store ig'), Inr (snd (ig_store ig')))))"
proof -
  let ?ig1 = "ig \<lparr> ig_service := set_tip tip (ig_service ig), ig_clock := Suc (ig_clock ig) \<rparr>"
  have st1: "ig_store ?ig1 = ig_store ig" by (simp add: set_tip_def)
  have ok: "store_ok sha256 (ig_store ig)" using good by (simp add: ingest_good_def)
  obtain x s clock where rec: "reconcile hex_decode views tip (ig_store ig) (Suc (ig_clock ig)) 0 = (x, s, clock)"
    by (cases "reconcile hex_decode views tip (ig_store ig) (Suc (ig_clock ig)) 0") auto
  note ri = reconcile_inv [OF rec ok, of "unat tip + 2"]
  let ?ig2 = "(set_store s ?ig1) \<lparr> ig_clock := clock \<rparr>"
  have g2: "ingest_good ledger block_of gcs_writer sha256 ?ig2" and s2: "ig_store ?ig2 = s"
    using good ri by (simp_all add: ingest_good_def)
  show ?thesis
  proof (cases x)
    case (Inl e)
    then have "r = Inl e \<and> ig' = ?ig2"
      using run tip rec st1 by (simp add: ingest_round_def ingest_from_tip_def Let_def)
    then show ?thesis using g2 ri Inl by auto
  next
    case (Inr rb)
    then have fw: "ingest_forward hex_decode gcs_writer sha256 views commit_every tip ?ig2 = (r, ig')"
      using run tip rec st1 by (simp add: ingest_round_def ingest_from_tip_def Let_def)
    have "unat tip < 2 ^ 64 - 1" "room (unat tip + 2) (ig_store ?ig2)" "committed (ig_store ?ig2)"
      using assms(6) ri room dur s2 by auto
    from forward_good [OF assms(1,2,3,4) this(1) g2 this(2,3) fw] s2 ri ver
    show ?thesis using open_durable [of "ig_store ig'" sha256] by (auto simp: ingest_good_def)
  qed
qed


text \<open>
  Two branches that differ at heights 5 and 6, and a node that switches from the first to the second between the
  calls for the two blocks. Hashes are 32 copies of the display letter.
\<close>

definition fork_hex :: "string \<Rightarrow> bytes option" where
  "fork_hex s = Some (replicate 32 (if s = [] then 0 else of_char (hd s)))"

definition fork_view :: "bool \<Rightarrow> node_view" where
  "fork_view first = (let disp = (\<lambda>n. if first then (if n = 5 then ''A'' else ''C'') else (if n = 5 then ''B'' else ''D'')) in
     \<lparr> nv_tip_height = Inr 6, nv_block_hash = (\<lambda>n. Inr (disp n)), nv_block = (\<lambda>n. Inr (disp n, [])),
       nv_transaction = (\<lambda>_. Inr None), nv_transactions = (\<lambda>ids. Inr (map (\<lambda>_. None) ids)) \<rparr>)"

definition fork_views :: "nat \<Rightarrow> node_view" where
  "fork_views t = fork_view (t < 4)"

definition empty_writer :: "u64 \<Rightarrow> u64 \<Rightarrow> u64 \<Rightarrow> nat \<Rightarrow> bytes list \<Rightarrow> string + bytes" where
  "empty_writer k0 k1 m p es = Inr [0]"

definition fork_start :: ingest_state where
  "fork_start = \<lparr> ig_service = service_new (commit sample_empty), ig_cache = cache_new 4, ig_clock = 0 \<rparr>"

definition fork_after :: "(nat \<Rightarrow> node_view) \<Rightarrow> (ingest_error + unit) \<times> ingest_state" where
  "fork_after views = ingest_forward fork_hex empty_writer sample_sha256 views 1 6
     (fork_start \<lparr> ig_service := set_tip 6 (ig_service fork_start), ig_clock := 1 \<rparr>)"

lemma fork_round:
  assumes "nv_tip_height (views 0) = Inr 6"
  shows "ingest_round fork_hex writer sample_sha256 views 1 fork_start = ingest_forward fork_hex writer sample_sha256 views 1 6
     (fork_start \<lparr> ig_service := set_tip 6 (ig_service fork_start), ig_clock := 1 \<rparr>)"
proof -
  have "set_store (commit sample_empty) (fork_start \<lparr> ig_service := set_tip 6 (ig_service fork_start), ig_clock := 1 \<rparr>)
      = fork_start \<lparr> ig_service := set_tip 6 (ig_service fork_start), ig_clock := 1 \<rparr>"
    by (simp add: set_store_def fork_start_def service_new_def set_tip_def)
  moreover have "reconcile fork_hex views 6 (commit sample_empty) 1 0 = (Inr 0, commit sample_empty, 1)"
    by (subst reconcile.simps) (simp add: covered_through_def sample_empty_def)
  ultimately show ?thesis
    using assms
    by (simp add: ingest_round_def ingest_from_tip_def fork_after_def fork_start_def service_new_def set_tip_def)
qed

text \<open>
  C20. A reorganization in the middle of a catch-up is never noticed. When the node changes branch after the block at
  height 5 was appended and before height 6 is fetched, the block of the new branch is appended on top of the
  orphaned one (nothing compares it with its predecessor), the round succeeds and the service is serving; and since
  reconciliation compares only the highest covered block, which agrees, no later round repairs it: after any
  number of further rounds against the now stable node, height 5 still has the orphaned hash.
\<close>

theorem midsync_reorg_kept:
  "\<exists>ig'. run_rounds (Suc n) fork_hex empty_writer sample_sha256 fork_views 1 fork_start = (Inr (), ig')
     \<and> block_hash_at (snd (ig_store ig')) 5 = Some (replicate 32 65)
     \<and> from_display_hex fork_hex (projr (nv_block_hash (fork_views 7) 5)) = Inr (replicate 32 66)"
proof -
  have ev: "case fork_after fork_views of (r, ig) \<Rightarrow> r = Inr () \<and> ig_clock ig = 7
      \<and> fs_chain (snd (ig_store ig)) = [replicate 32 65, replicate 32 68] \<and> fs_start_height (snd (ig_store ig)) = 5"
    by code_simp
  have r: "fst (fork_after fork_views) = Inr ()"
    and st: "fs_chain (snd (ig_store (snd (fork_after fork_views)))) = [replicate 32 65, replicate 32 68]
      \<and> fs_start_height (snd (ig_store (snd (fork_after fork_views)))) = 5"
    and clock: "ig_clock (snd (fork_after fork_views)) = 7"
    using ev by (simp_all split: prod.splits)
  let ?after = "snd (fork_after fork_views)"
  have c: "covered_through (snd (ig_store ?after)) = Some 6"
    and b: "block_hash_at (snd (ig_store ?after)) 6 = Some (replicate 32 68)"
    and stale: "block_hash_at (snd (ig_store ?after)) 5 = Some (replicate 32 65)"
    using st by (simp_all add: covered_through_def block_hash_at_def Let_def)
  have views: "fork_views t = fork_view False" if "t \<ge> ig_clock ?after" for t
    using that clock by (simp add: fork_views_def)
  have v: "nv_tip_height (fork_view False) = Inr 6" "nv_block_hash (fork_view False) 6 = Inr ''D''"
    "nv_block_hash (fork_view False) 5 = Inr ''B''"
    by (simp_all add: fork_view_def)
  have d: "from_display_hex fork_hex ''D'' = Inr (replicate 32 68)" "from_display_hex fork_hex ''B'' = Inr (replicate 32 66)"
    by code_simp+
  have "nv_tip_height (fork_views 0) = Inr 6" by (simp add: fork_views_def fork_view_def)
  from fork_round [where views = fork_views and writer = empty_writer, OF this, folded fork_after_def]
  have first: "ingest_round fork_hex empty_writer sample_sha256 fork_views 1 fork_start = (Inr (), ?after)"
    using r by (metis prod.collapse)
  have "(6 :: u64) < 6 + 1" by simp
  from rounds_top_agree [where views = fork_views and n = n and gcs_writer = empty_writer and ?sha256.0 = sample_sha256
      and commit_every = 1, OF views v(1) c this b v(2) d(1)]
  obtain ig' where "run_rounds n fork_hex empty_writer sample_sha256 fork_views 1 ?after = (Inr (), ig')"
    "ig_store ig' = ig_store ?after" by blast
  then show ?thesis using first stale views [of 7] clock v(3) d(2) by simp
qed

section \<open>Witnesses\<close>

theorem reconcile_highest_agreed_witness:
  "\<exists>s' clock'. reconcile fork_hex (\<lambda>_. fork_view True) 6 sample_state 0 0 = (Inr 1, s', clock')
     \<and> coverage (store_abs s') = [] \<and> contents (store_abs s') = contents (store_abs sample_state)"
proof -
  have ans: "answers fork_hex (fork_view True) n" for n
    by (simp add: answers_def fork_view_def fork_hex_def from_display_hex_def Let_def)
  obtain k s' c where r: "reconcile fork_hex (\<lambda>_. fork_view True) 6 sample_state 0 0
      = (Inr (of_nat (length (fs_chain (snd sample_state)) - k)), s', c)"
    "k \<le> length (fs_chain (snd sample_state))" "contents (store_abs s') = contents (store_abs sample_state)"
    "coverage (store_abs s') = take k (coverage (store_abs sample_state))"
    "0 < k \<longrightarrow> agrees fork_hex (fork_view True) 6 (snd sample_state) (k - 1)"
    using reconcile_highest_agreed [OF sample_state_ok refl ans, where clock = 0] by blast
  have "\<not> agrees fork_hex (fork_view True) 6 (snd sample_state) 0" by code_simp
  then have "k = 0" using r(2,5) by (cases k) (auto simp: sample_state_parts)
  then show ?thesis using r by (auto simp: sample_state_parts)
qed

text \<open>A node whose blocks create and spend outputs, and the BIP 158 writer.\<close>

definition paid_view :: node_view where
  "paid_view = (let disp = (\<lambda>n. if n = 5 then ''A'' else ''C'') in
     \<lparr> nv_tip_height = Inr 6, nv_block_hash = (\<lambda>n. Inr (disp n)), nv_block = (\<lambda>n. Inr (disp n, sample_block)),
       nv_transaction = sample_node, nv_transactions = (\<lambda>ids. Inr (map (\<lambda>_. None) ids)) \<rparr>)"

definition paid_after :: "(ingest_error + unit) \<times> ingest_state" where
  "paid_after = ingest_forward fork_hex sample_writer sample_sha256 (\<lambda>_. paid_view) 1 6
     (fork_start \<lparr> ig_service := set_tip 6 (ig_service fork_start), ig_clock := 1 \<rparr>)"

lemma paid_blocks_small: "blocks_small sample_ledger (\<lambda>_. sample_block)"
proof -
  have sub: "block_elements (ledger_script sample_ledger) sample_block \<subseteq> {[0x76], [0x6a, 0x01], [], [0x52]}"
    by (auto simp: block_elements_def sample_block_def spends_def ledger_script_def sample_ledger_def)
  have "card (block_elements (ledger_script sample_ledger) sample_block) \<le> card {[0x76], [0x6a, 0x01], [], [0x52 :: u8]}"
    by (rule card_mono [OF _ sub]) simp
  also have "\<dots> \<le> 4" by (simp add: card_insert_if)
  finally show ?thesis by (simp add: blocks_small_def)
qed

theorem ingest_round_safe_witness:
  "\<exists>ig'. ingest_round fork_hex sample_writer sample_sha256 (\<lambda>_. paid_view) 1 fork_start = (Inr (), ig')
     \<and> 6 < next_height (snd (ig_store ig'))
     \<and> open_store PROFILE ''00'' 5 (fst (ig_store ig')) = (fst (ig_store ig'), Inr (snd (ig_store ig')))"
proof -
  let ?run = "ingest_round fork_hex sample_writer sample_sha256 (\<lambda>_. paid_view) 1 fork_start"
  have tip: "nv_tip_height paid_view = Inr 6" by (simp add: paid_view_def Let_def)
  have "case paid_after of (r, ig) \<Rightarrow> r = Inr () \<and> fs_meta (snd (ig_store ig)) = sample_meta"
    by code_simp
  then have r: "fst ?run = Inr ()" and m: "fs_meta (snd (ig_store (snd ?run))) = sample_meta"
    using fork_round [of "\<lambda>_. paid_view" sample_writer] tip by (simp_all add: paid_after_def split: prod.splits)
  from r obtain ig' where ig': "?run = (Inr (), ig')" "snd ?run = ig'" by (metis prod.collapse)
  have honest: "views_honest sample_ledger (\<lambda>_. sample_block) fork_hex (\<lambda>_. paid_view)"
    by (auto simp: views_honest_def node_honest_def paid_view_def Let_def sample_node_def in_ledger_def sample_ledger_def sample_block_def split: if_splits)
  have st: "ig_store fork_start = commit sample_empty" by (simp add: fork_start_def service_new_def)
  have "ingest_good sample_ledger (\<lambda>_. sample_block) sample_writer sample_sha256 fork_start"
    using sample_empty_ok unfolding ingest_good_def st
    by (simp add: commit_ok fork_start_def cache_new_def cache_true_def scripts_true_def)
       (simp add: store_abs_def sample_empty_def)
  moreover have "committed (ig_store fork_start)" using st by simp
  moreover have "room (unat (6 :: u64) + 2) (ig_store fork_start)" unfolding st
    by (simp add: room_def sample_empty_def fs_start_height_def sample_meta_def CHAIN_RECORD_BYTES_def INDEX_RECORD_BYTES_def)
  moreover have "sm_version (fs_meta (snd (ig_store fork_start))) = STORE_VERSION" unfolding st
    by (simp add: sample_empty_def sample_meta_def)
  ultimately show ?thesis
    using ingest_round_safe [OF honest sample_bip158 paid_blocks_small length_sample_sha256 _ _ _ _ _ _ ig'(1), of 6] ig' m tip
    by (simp add: sample_meta_def)
qed

end
