(* ===== verification/Pir_Types.thy ===== *)
theory Pir_Types
  imports Prelude
begin

text \<open>
  The data model of Enhance PIR: \<open>pir/enhance/src/types.rs\<close> (records, row geometry, the public
  generation) and \<open>server/enhance-pir-server/src/types.rs\<close> (databases, layouts, manifests).
  \<open>usize\<close> values are naturals; positions, rows and heights keep their 64 bits.
\<close>

section \<open>Constants\<close>

definition SCHEMA_VERSION :: u16 where "SCHEMA_VERSION = 6"
definition PROTOCOL_REVISION :: string where "PROTOCOL_REVISION = ''ironwood-enhance-pir-v1''"
definition PIR_NETWORK :: string where "PIR_NETWORK = ''main''"
definition POOL :: string where "POOL = ''ironwood''"
definition ACTIVATION_HEIGHT :: u64 where "ACTIVATION_HEIGHT = 3428143"

definition RECORD_BYTES :: nat where "RECORD_BYTES = 725"
definition RECORDS_PER_ROW :: nat where "RECORDS_PER_ROW = 9"
definition ROW_BYTES :: nat where "ROW_BYTES = RECORD_BYTES * RECORDS_PER_ROW"
definition SHARD_ROWS :: nat where "SHARD_ROWS = 8192"
definition SHARD_POSITIONS :: nat where "SHARD_POSITIONS = SHARD_ROWS * RECORDS_PER_ROW"
definition SHARDS_PER_GROUP :: u64 where "SHARDS_PER_GROUP = 6"

definition RECORD_EPHEMERAL_KEY_OFFSET :: nat where "RECORD_EPHEMERAL_KEY_OFFSET = 0"
definition RECORD_ENC_CIPHERTEXT_OFFSET :: nat where "RECORD_ENC_CIPHERTEXT_OFFSET = 32"
definition RECORD_CV_NET_OFFSET :: nat where "RECORD_CV_NET_OFFSET = 612"
definition RECORD_OUT_CIPHERTEXT_OFFSET :: nat where "RECORD_OUT_CIPHERTEXT_OFFSET = 644"
definition RECORD_FLAGS_OFFSET :: nat where "RECORD_FLAGS_OFFSET = 724"
definition FLAG_HAS_TRANSPARENT_INPUTS :: u8 where "FLAG_HAS_TRANSPARENT_INPUTS = push_bit 0 1"
definition FLAG_HAS_TRANSPARENT_OUTPUTS :: u8 where "FLAG_HAS_TRANSPARENT_OUTPUTS = push_bit 1 1"
definition KNOWN_FLAGS :: u8 where "KNOWN_FLAGS = FLAG_HAS_TRANSPARENT_INPUTS OR FLAG_HAS_TRANSPARENT_OUTPUTS"
definition ENHANCE_SETUP_SEED :: u64 where "ENHANCE_SETUP_SEED = 0x7dc0c1bea8ed2c29"

lemmas record_offsets =
  RECORD_BYTES_def RECORD_EPHEMERAL_KEY_OFFSET_def RECORD_ENC_CIPHERTEXT_OFFSET_def
  RECORD_CV_NET_OFFSET_def RECORD_OUT_CIPHERTEXT_OFFSET_def RECORD_FLAGS_OFFSET_def
lemmas record_flags = FLAG_HAS_TRANSPARENT_INPUTS_def FLAG_HAS_TRANSPARENT_OUTPUTS_def KNOWN_FLAGS_def
lemmas row_geometry = RECORDS_PER_ROW_def ROW_BYTES_def SHARD_ROWS_def SHARD_POSITIONS_def RECORD_BYTES_def

text \<open>A 32-byte seed is the 64-bit seed followed by zero bytes.\<close>

definition seed_bytes :: "u64 \<Rightarrow> bytes" where
  "seed_bytes seed = u64_le seed @ replicate 24 0"

section \<open>Records\<close>

text \<open>\<open>bytes[from..to].copy_from_slice(src)\<close>; the caller's lengths agree.\<close>

definition copy_from_slice :: "nat \<Rightarrow> bytes \<Rightarrow> bytes \<Rightarrow> bytes" where
  "copy_from_slice from src dst = take from dst @ src @ drop (from + length src) dst"

definition slice_range :: "nat \<Rightarrow> nat \<Rightarrow> bytes \<Rightarrow> bytes" where
  "slice_range from to bs = take (to - from) (drop from bs)"

record enhance_record_parts =
  ephemeral_key :: bytes
  enc_ciphertext :: bytes
  cv_net :: bytes
  out_ciphertext :: bytes
  has_transparent_inputs :: bool
  has_transparent_outputs :: bool

definition record_flag_byte :: "bool \<Rightarrow> bool \<Rightarrow> u8" where
  "record_flag_byte inputs outputs =
     (of_bool inputs * FLAG_HAS_TRANSPARENT_INPUTS) OR (of_bool outputs * FLAG_HAS_TRANSPARENT_OUTPUTS)"

definition from_parts :: "enhance_record_parts \<Rightarrow> bytes" where
  "from_parts parts =
     (let bytes = replicate RECORD_BYTES 0;
          bytes = copy_from_slice RECORD_EPHEMERAL_KEY_OFFSET (ephemeral_key parts) bytes;
          bytes = copy_from_slice RECORD_ENC_CIPHERTEXT_OFFSET (enc_ciphertext parts) bytes;
          bytes = copy_from_slice RECORD_CV_NET_OFFSET (cv_net parts) bytes;
          bytes = copy_from_slice RECORD_OUT_CIPHERTEXT_OFFSET (out_ciphertext parts) bytes
      in bytes[RECORD_FLAGS_OFFSET := record_flag_byte (has_transparent_inputs parts) (has_transparent_outputs parts)])"

definition rec_ephemeral_key :: "bytes \<Rightarrow> bytes" where
  "rec_ephemeral_key r = slice_range RECORD_EPHEMERAL_KEY_OFFSET RECORD_ENC_CIPHERTEXT_OFFSET r"

definition rec_enc_ciphertext :: "bytes \<Rightarrow> bytes" where
  "rec_enc_ciphertext r = slice_range RECORD_ENC_CIPHERTEXT_OFFSET RECORD_CV_NET_OFFSET r"

definition rec_cv_net :: "bytes \<Rightarrow> bytes" where
  "rec_cv_net r = slice_range RECORD_CV_NET_OFFSET RECORD_OUT_CIPHERTEXT_OFFSET r"

definition rec_out_ciphertext :: "bytes \<Rightarrow> bytes" where
  "rec_out_ciphertext r = slice_range RECORD_OUT_CIPHERTEXT_OFFSET RECORD_FLAGS_OFFSET r"

definition transparent_flags :: "bytes \<Rightarrow> u8 + u8" where
  "transparent_flags r =
     (let flags = r ! RECORD_FLAGS_OFFSET in
      if flags AND NOT KNOWN_FLAGS = 0 then Inr flags else Inl flags)"

definition rec_has_transparent_inputs :: "bytes \<Rightarrow> u8 + bool" where
  "rec_has_transparent_inputs r =
     bindR (transparent_flags r) (\<lambda>flags. Inr (flags AND FLAG_HAS_TRANSPARENT_INPUTS \<noteq> 0))"

definition rec_has_transparent_outputs :: "bytes \<Rightarrow> u8 + bool" where
  "rec_has_transparent_outputs r =
     bindR (transparent_flags r) (\<lambda>flags. Inr (flags AND FLAG_HAS_TRANSPARENT_OUTPUTS \<noteq> 0))"

section \<open>Generations\<close>

record shard_descriptor =
  sd_shard_id :: u64
  sd_global_row_start :: u64
  sd_populated_positions :: u64
  sd_rows_sha256 :: string
  sd_sealed :: bool
  sd_worker :: string

record enhance_generation =
  eg_schema_version :: u16
  eg_protocol_revision :: string
  eg_network :: string
  eg_pool :: string
  eg_anchor_height :: u64
  eg_anchor_block_hash :: string
  eg_ironwood_tree_size :: u64
  eg_generation :: u64
  eg_record_bytes :: u32
  eg_records_per_row :: u32
  eg_row_bytes :: u32
  eg_shard_rows :: u32
  eg_used_rows :: u64
  eg_logical_rows :: u64
  eg_parameter_id :: string
  eg_setup_seed :: u64
  eg_public_params_epoch :: string
  eg_public_params_sha256 :: string
  eg_shards :: "shard_descriptor list"

definition row_for_position :: "enhance_generation \<Rightarrow> u64 \<Rightarrow> (nat \<times> nat) option" where
  "row_for_position g position =
     (if position \<ge> eg_ironwood_tree_size g then None
      else let row = position div of_nat RECORDS_PER_ROW in
        if row < eg_logical_rows g then Some (unat row, unat position mod RECORDS_PER_ROW) else None)"

definition used_rows_for :: "u64 \<Rightarrow> u64" where
  "used_rows_for positions = div_ceil positions (of_nat RECORDS_PER_ROW)"

definition logical_rows_for :: "u64 \<Rightarrow> u64" where
  "logical_rows_for used_rows = next_power_of_two (max used_rows (of_nat SHARD_ROWS))"

definition group_index_for_shard :: "u64 \<Rightarrow> nat \<Rightarrow> nat option" where
  "group_index_for_shard shard_id group_count =
     (if group_count = 0 then None
      else if group_count = 1 then Some 0
      else let index = unat (shard_id div SHARDS_PER_GROUP) in
        if index < group_count then Some index else None)"

section \<open>Databases and layouts\<close>

datatype database_id = Enhance | Transparent_Spend_Cold | Transparent_Spend_Warm

text \<open>The derived order is the order of the constructors.\<close>

fun db_index :: "database_id \<Rightarrow> nat" where
  "db_index Enhance = 0"
| "db_index Transparent_Spend_Cold = 1"
| "db_index Transparent_Spend_Warm = 2"

instantiation database_id :: linorder
begin

definition less_eq_database_id :: "database_id \<Rightarrow> database_id \<Rightarrow> bool" where
  "less_eq_database_id a b \<longleftrightarrow> db_index a \<le> db_index b"

definition less_database_id :: "database_id \<Rightarrow> database_id \<Rightarrow> bool" where
  "less_database_id a b \<longleftrightarrow> db_index a < db_index b"

instance
proof
  fix x y z :: database_id
  show "x < y \<longleftrightarrow> x \<le> y \<and> \<not> y \<le> x" by (auto simp: less_eq_database_id_def less_database_id_def)
  show "x \<le> x" by (simp add: less_eq_database_id_def)
  show "x \<le> y \<Longrightarrow> y \<le> z \<Longrightarrow> x \<le> z" by (simp add: less_eq_database_id_def)
  show "x \<le> y \<Longrightarrow> y \<le> x \<Longrightarrow> x = y" by (cases x; cases y) (auto simp: less_eq_database_id_def)
  show "x \<le> y \<or> y \<le> x" by (auto simp: less_eq_database_id_def)
qed

end

fun db_as_str :: "database_id \<Rightarrow> string" where
  "db_as_str Enhance = ''enhance''"
| "db_as_str Transparent_Spend_Cold = ''transparent-spend-cold''"
| "db_as_str Transparent_Spend_Warm = ''transparent-spend-warm''"

definition db_from_str :: "string \<Rightarrow> string + database_id" where
  "db_from_str name =
     (if name = ''enhance'' then Inr Enhance
      else if name = ''transparent-spend-cold'' then Inr Transparent_Spend_Cold
      else if name = ''transparent-spend-warm'' then Inr Transparent_Spend_Warm
      else Inl ''unknown PIR database'')"

definition DB_ALL :: "database_id list" where "DB_ALL = [Enhance]"

record database_layout =
  dl_record_bytes :: nat
  dl_records_per_row :: nat
  dl_shard_rows :: nat

definition dl_row_bytes :: "database_layout \<Rightarrow> nat" where
  "dl_row_bytes l = dl_record_bytes l * dl_records_per_row l"

definition dl_shard_positions :: "database_layout \<Rightarrow> nat" where
  "dl_shard_positions l = dl_shard_rows l * dl_records_per_row l"

definition dl_item_size_bits :: "database_layout \<Rightarrow> u64" where
  "dl_item_size_bits l = of_nat (dl_row_bytes l * 8)"

definition dl_shard_bytes :: "database_layout \<Rightarrow> nat" where
  "dl_shard_bytes l = dl_shard_rows l * dl_row_bytes l"

definition dl_used_rows_for :: "database_layout \<Rightarrow> u64 \<Rightarrow> u64" where
  "dl_used_rows_for l positions = div_ceil positions (of_nat (dl_records_per_row l))"

definition dl_logical_rows_for :: "database_layout \<Rightarrow> u64 \<Rightarrow> u64" where
  "dl_logical_rows_for l used_rows = next_power_of_two (max used_rows (of_nat (dl_shard_rows l)))"

definition ENHANCE_LAYOUT :: database_layout where
  "ENHANCE_LAYOUT = \<lparr> dl_record_bytes = RECORD_BYTES, dl_records_per_row = RECORDS_PER_ROW, dl_shard_rows = SHARD_ROWS \<rparr>"

definition SPEND_ENTRY_BYTES :: nat where "SPEND_ENTRY_BYTES = 80"
definition BUCKET_CAPACITY :: nat where "BUCKET_CAPACITY = 88"
definition SPEND_ROW_BYTES :: nat where "SPEND_ROW_BYTES = SPEND_ENTRY_BYTES * BUCKET_CAPACITY"
definition SPEND_SHARD_ROWS :: nat where "SPEND_SHARD_ROWS = 8192"
definition COLD_SETUP_SEED :: u64 where "COLD_SETUP_SEED = 0x787370636f6c6431"
definition WARM_SETUP_SEED :: u64 where "WARM_SETUP_SEED = 0x7873707761726d31"

definition TRANSPARENT_SPEND_LAYOUT :: database_layout where
  "TRANSPARENT_SPEND_LAYOUT = \<lparr> dl_record_bytes = SPEND_ROW_BYTES, dl_records_per_row = 1, dl_shard_rows = SPEND_SHARD_ROWS \<rparr>"

fun db_layout :: "database_id \<Rightarrow> database_layout" where
  "db_layout Enhance = ENHANCE_LAYOUT"
| "db_layout Transparent_Spend_Cold = TRANSPARENT_SPEND_LAYOUT"
| "db_layout Transparent_Spend_Warm = TRANSPARENT_SPEND_LAYOUT"

fun db_setup_seed :: "database_id \<Rightarrow> u64" where
  "db_setup_seed Enhance = ENHANCE_SETUP_SEED"
| "db_setup_seed Transparent_Spend_Cold = COLD_SETUP_SEED"
| "db_setup_seed Transparent_Spend_Warm = WARM_SETUP_SEED"

record table_manifest =
  tm_record_bytes :: u32
  tm_records_per_row :: u32
  tm_row_bytes :: u32
  tm_shard_rows :: u32
  tm_positions :: u64
  tm_used_rows :: u64
  tm_logical_rows :: u64
  tm_parameter_id :: string
  tm_setup_seed :: u64
  tm_public_params_epoch :: string
  tm_public_params_sha256 :: string
  tm_shards :: "shard_descriptor list"

record generation_manifest =
  gm_anchor_height :: u64
  gm_anchor_block_hash :: string
  gm_ironwood_tree_size :: u64
  gm_generation :: u64
  gm_tables :: "database_id \<rightharpoonup> table_manifest"

definition gm_public :: "generation_manifest \<Rightarrow> enhance_generation option" where
  "gm_public g = map_option (\<lambda>table.
     \<lparr> eg_schema_version = SCHEMA_VERSION, eg_protocol_revision = PROTOCOL_REVISION, eg_network = PIR_NETWORK,
       eg_pool = POOL, eg_anchor_height = gm_anchor_height g, eg_anchor_block_hash = gm_anchor_block_hash g,
       eg_ironwood_tree_size = gm_ironwood_tree_size g, eg_generation = gm_generation g,
       eg_record_bytes = tm_record_bytes table, eg_records_per_row = tm_records_per_row table,
       eg_row_bytes = tm_row_bytes table, eg_shard_rows = tm_shard_rows table, eg_used_rows = tm_used_rows table,
       eg_logical_rows = tm_logical_rows table, eg_parameter_id = tm_parameter_id table,
       eg_setup_seed = tm_setup_seed table, eg_public_params_epoch = tm_public_params_epoch table,
       eg_public_params_sha256 = tm_public_params_sha256 table, eg_shards = tm_shards table \<rparr>) (gm_tables g Enhance)"


section \<open>Lemmas\<close>

lemma slice_range_append:
  "slice_range a b xs = ys" if "xs = us @ ys @ vs" "length us = a" "length us + length ys = b"
  using that by (auto simp: slice_range_def)

definition parts_ok :: "enhance_record_parts \<Rightarrow> bool" where
  "parts_ok p \<longleftrightarrow> length (ephemeral_key p) = 32 \<and> length (enc_ciphertext p) = 580
     \<and> length (cv_net p) = 32 \<and> length (out_ciphertext p) = 80"

lemma from_parts_concat:
  assumes "parts_ok p"
  shows "from_parts p = ephemeral_key p @ enc_ciphertext p @ cv_net p @ out_ciphertext p
     @ [record_flag_byte (has_transparent_inputs p) (has_transparent_outputs p)]"
  using assms by (simp add: from_parts_def parts_ok_def copy_from_slice_def record_offsets list_update_append
      drop_append)

lemma flag_byte_cases:
  "record_flag_byte a b AND NOT KNOWN_FLAGS = 0"
  "(record_flag_byte a b AND FLAG_HAS_TRANSPARENT_INPUTS \<noteq> 0) = a"
  "(record_flag_byte a b AND FLAG_HAS_TRANSPARENT_OUTPUTS \<noteq> 0) = b"
  by (cases a; cases b; simp add: record_flag_byte_def record_flags)+

lemma nat_div_ceil:
  fixes a b :: nat
  assumes "0 < b"
  shows "(a + b - 1) div b = (if a mod b = 0 then a div b else a div b + 1)"
proof -
  let ?q = "a div b" and ?r = "a mod b"
  have "a + b - 1 = b * ?q + (?r + b - 1)" using assms mult_div_mod_eq [of b a] by linarith
  then have "(a + b - 1) div b = (b * ?q + (?r + b - 1)) div b" by (rule arg_cong)
  also have "\<dots> = ?q + (?r + b - 1) div b" using assms by (metis add.commute div_mult_self2 less_not_refl2)
  also have "(?r + b - 1) div b = (if ?r = 0 then 0 else 1)"
  proof (cases "?r = 0")
    case False
    moreover have "?r < b" using assms by simp
    ultimately have "b \<le> ?r + b - 1" "?r + b - 1 < 2 * b" by linarith+
    then have "(?r + b - 1) div b = 1" by (intro div_nat_eqI) auto
    then show ?thesis using False by simp
  qed (use assms in simp)
  finally show ?thesis by simp
qed

lemma unat_div_ceil:
  fixes a b :: u64
  assumes "0 < b"
  shows "unat (div_ceil a b) = (unat a + unat b - 1) div unat b"
proof -
  have b: "0 < unat b" using assms by (simp add: word_less_nat_alt)
  have m: "(a mod b = 0) = (unat a mod unat b = 0)" by (simp add: word_unat_eq_iff unat_mod_distrib)
  show ?thesis
  proof (cases "unat a mod unat b = 0")
    case True
    then show ?thesis using m by (simp only: nat_div_ceil [OF b] div_ceil_def if_True unat_div_distrib refl)
  next
    case False
    then have "unat b \<noteq> 1" "unat a \<noteq> 0" by (auto intro: gr0I)
    then have "unat a div unat b < unat a" using b by (intro div_less_dividend) auto
    then have "unat a div unat b + 1 < 2 ^ 64" using unat_u64_lt [of a] by auto
    then have "unat (a div b + 1) = unat a div unat b + 1"
      by (subst unat_add_nowrap) (simp_all add: unat_div_distrib)
    then show ?thesis using False m by (simp only: nat_div_ceil [OF b] div_ceil_def if_False)
  qed
qed

lemma unat_used_rows: "unat (used_rows_for n) = (unat n + 8) div 9"
  by (simp add: used_rows_for_def RECORDS_PER_ROW_def unat_div_ceil word_less_nat_alt)

lemma logical_rows_spec:
  assumes "unat used \<le> 2 ^ 63"
  shows "unat used \<le> unat (logical_rows_for used)" and "8192 \<le> unat (logical_rows_for used)"
    and "\<exists>k. unat (logical_rows_for used) = 2 ^ k"
proof -
  let ?x = "max used (of_nat SHARD_ROWS)"
  have x: "unat ?x = max (unat used) 8192"
    by (simp add: max_def word_le_nat_alt SHARD_ROWS_def)
  then have "unat ?x \<le> 2 ^ 63" using assms by simp
  from next_power_of_two_spec [OF this] obtain k
    where "unat (logical_rows_for used) = 2 ^ k" "unat ?x \<le> 2 ^ k" by (auto simp: logical_rows_for_def)
  then show "unat used \<le> unat (logical_rows_for used)" "8192 \<le> unat (logical_rows_for used)"
    "\<exists>k. unat (logical_rows_for used) = 2 ^ k" using x by auto
qed

section \<open>Properties\<close>

text \<open>
  An Enhance record is a lossless packing of its parts: from parts of the fixed sizes \<open>from_parts\<close> makes
  exactly 725 bytes, every accessor returns the part that went in, the flag byte has no reserved bit
  set, and both transparent flags read back.
\<close>

lemma record_parts_roundtrip:
  assumes "length (ephemeral_key p) = 32" and "length (enc_ciphertext p) = 580"
    and "length (cv_net p) = 32" and "length (out_ciphertext p) = 80"
  shows "length (from_parts p) = RECORD_BYTES \<and> rec_ephemeral_key (from_parts p) = ephemeral_key p
    \<and> rec_enc_ciphertext (from_parts p) = enc_ciphertext p \<and> rec_cv_net (from_parts p) = cv_net p
    \<and> rec_out_ciphertext (from_parts p) = out_ciphertext p
    \<and> rec_has_transparent_inputs (from_parts p) = Inr (has_transparent_inputs p)
    \<and> rec_has_transparent_outputs (from_parts p) = Inr (has_transparent_outputs p)"
proof -
  have c: "from_parts p = ephemeral_key p @ enc_ciphertext p @ cv_net p @ out_ciphertext p
     @ [record_flag_byte (has_transparent_inputs p) (has_transparent_outputs p)]"
    using assms by (intro from_parts_concat) (simp add: parts_ok_def)
  have "transparent_flags (from_parts p) = Inr (record_flag_byte (has_transparent_inputs p) (has_transparent_outputs p))"
    using assms by (simp add: c transparent_flags_def nth_append record_offsets flag_byte_cases)
  then show ?thesis
    using assms by (simp add: c rec_ephemeral_key_def rec_enc_ciphertext_def rec_cv_net_def rec_out_ciphertext_def
      slice_range_def record_offsets rec_has_transparent_inputs_def rec_has_transparent_outputs_def flag_byte_cases)
qed

text \<open>
  C22. Every commitment-tree position below the tree size has exactly one slot and no other position has one: the row
  and the slot are quotient and remainder by 9, the row is one of the used rows, the used rows fit in the
  logical rows, and the logical row count is a power of two of at least one shard, for every tree of up to
  \<open>2 ^ 63\<close> positions, that is without wrap-around in the row arithmetic.
\<close>

theorem row_for_position_exact:
  assumes rows: "eg_logical_rows g = logical_rows_for (used_rows_for (eg_ironwood_tree_size g))"
    and size: "unat (eg_ironwood_tree_size g) \<le> 2 ^ 63"
  shows "row_for_position g p = (if p < eg_ironwood_tree_size g then Some (unat p div 9, unat p mod 9) else None)
    \<and> (p < eg_ironwood_tree_size g \<longrightarrow> unat p div 9 < unat (used_rows_for (eg_ironwood_tree_size g)))
    \<and> unat (used_rows_for (eg_ironwood_tree_size g)) \<le> unat (eg_logical_rows g)
    \<and> 8192 \<le> unat (eg_logical_rows g) \<and> (\<exists>k. unat (eg_logical_rows g) = 2 ^ k)"
proof -
  let ?n = "eg_ironwood_tree_size g"
  have u: "unat (used_rows_for ?n) = (unat ?n + 8) div 9" by (rule unat_used_rows)
  then have "unat (used_rows_for ?n) \<le> 2 ^ 63" using size by linarith
  note spec = logical_rows_spec [OF this, folded rows]
  have row: "unat p div 9 < unat (used_rows_for ?n)" if "p < ?n"
    using that u by (simp add: word_less_nat_alt)
  have "unat (p div of_nat RECORDS_PER_ROW) = unat p div 9" by (simp add: RECORDS_PER_ROW_def unat_div_distrib)
  then have "row_for_position g p = (if p < ?n then Some (unat p div 9, unat p mod 9) else None)"
    using row spec(1) by (auto simp: row_for_position_def Let_def word_less_nat_alt word_le_nat_alt RECORDS_PER_ROW_def)
  then show ?thesis using row spec by blast
qed

definition sample_generation :: enhance_generation where
  "sample_generation = \<lparr> eg_schema_version = SCHEMA_VERSION, eg_protocol_revision = PROTOCOL_REVISION,
     eg_network = PIR_NETWORK, eg_pool = POOL, eg_anchor_height = 3428200, eg_anchor_block_hash = ''00'',
     eg_ironwood_tree_size = 100000, eg_generation = 3, eg_record_bytes = 725, eg_records_per_row = 9,
     eg_row_bytes = 6525, eg_shard_rows = 8192, eg_used_rows = 11112, eg_logical_rows = 16384,
     eg_parameter_id = [], eg_setup_seed = ENHANCE_SETUP_SEED, eg_public_params_epoch = [],
     eg_public_params_sha256 = [], eg_shards = [] \<rparr>"

theorem row_for_position_exact_witness:
  "row_for_position sample_generation 99999 = Some (11111, 0) \<and> row_for_position sample_generation 100000 = None"
proof -
  have "eg_logical_rows sample_generation = logical_rows_for (used_rows_for (eg_ironwood_tree_size sample_generation))"
    "unat (eg_ironwood_tree_size sample_generation) \<le> 2 ^ 63"
    by code_simp+
  note e = row_for_position_exact [OF this]
  have n: "eg_ironwood_tree_size sample_generation = 100000" by (simp add: sample_generation_def)
  show ?thesis using e [of 99999] e [of 100000] by (simp add: n)
qed

end
