(* ===== verification/Spend_Types.thy ===== *)
theory Spend_Types
  imports Pir_Types
begin

text \<open>
  The data model of the transparent-spend lookup, \<open>pir/transparent-spend/src/types.rs\<close>: the 80-byte spend entry,
  the bucket of an outpoint, the number of buckets of a table, and the scan of a decoded bucket. SHA-256 is a
  parameter; a transaction id is a list of 32 bytes.
\<close>

section \<open>Constants\<close>

definition SPEND_SCHEMA_VERSION :: u16 where "SPEND_SCHEMA_VERSION = 1"
definition SPEND_PROTOCOL_REVISION :: string where "SPEND_PROTOCOL_REVISION = ''transparent-spend-pir-v1''"
definition SPEND_NETWORK :: string where "SPEND_NETWORK = ''main''"
definition WARM_BLOCKS :: u64 where "WARM_BLOCKS = 100000"
definition SPEND_ITEM_SIZE_BITS :: u64 where "SPEND_ITEM_SIZE_BITS = of_nat (SPEND_ROW_BYTES * 8)"
definition TARGET_LOAD_NUMERATOR :: u64 where "TARGET_LOAD_NUMERATOR = 55"
definition TARGET_LOAD_DENOMINATOR :: u64 where "TARGET_LOAD_DENOMINATOR = 100"

definition OCCUPIED :: u8 where "OCCUPIED = 1"
definition KEY_OFFSET :: nat where "KEY_OFFSET = 1"
definition INDEX_OFFSET :: nat where "INDEX_OFFSET = 33"
definition SPENDER_OFFSET :: nat where "SPENDER_OFFSET = 37"
definition HEIGHT_OFFSET :: nat where "HEIGHT_OFFSET = 69"
definition TX_INDEX_OFFSET :: nat where "TX_INDEX_OFFSET = 73"
definition RESERVED_OFFSET :: nat where "RESERVED_OFFSET = 75"

lemmas entry_offsets = SPEND_ENTRY_BYTES_def OCCUPIED_def KEY_OFFSET_def INDEX_OFFSET_def SPENDER_OFFSET_def
  HEIGHT_OFFSET_def TX_INDEX_OFFSET_def RESERVED_OFFSET_def

lemma bucket_bytes: "SPEND_ROW_BYTES = 88 * SPEND_ENTRY_BYTES"
  by (simp add: SPEND_ROW_BYTES_def BUCKET_CAPACITY_def)

section \<open>Entries\<close>

record spend_entry =
  se_outpoint_txid :: bytes
  se_outpoint_index :: u32
  se_spending_txid :: bytes
  se_spend_height :: u32
  se_transaction_index :: u16

definition se_to_bytes :: "spend_entry \<Rightarrow> bytes" where
  "se_to_bytes e =
     (let bytes = replicate SPEND_ENTRY_BYTES 0;
          bytes = bytes[0 := OCCUPIED];
          bytes = copy_from_slice KEY_OFFSET (se_outpoint_txid e) bytes;
          bytes = copy_from_slice INDEX_OFFSET (u32_le (se_outpoint_index e)) bytes;
          bytes = copy_from_slice SPENDER_OFFSET (se_spending_txid e) bytes;
          bytes = copy_from_slice HEIGHT_OFFSET (u32_le (se_spend_height e)) bytes
      in copy_from_slice TX_INDEX_OFFSET (u16_le (se_transaction_index e)) bytes)"

definition se_from_bytes :: "bytes \<Rightarrow> spend_entry option" where
  "se_from_bytes bytes =
     (if length bytes \<noteq> SPEND_ENTRY_BYTES \<or> bytes ! 0 \<noteq> OCCUPIED \<or> list_ex (\<lambda>b. b \<noteq> 0) (drop RESERVED_OFFSET bytes)
      then None
      else Some \<lparr> se_outpoint_txid = slice_range KEY_OFFSET INDEX_OFFSET bytes,
                  se_outpoint_index = of_nat (le_val (slice_range INDEX_OFFSET SPENDER_OFFSET bytes)),
                  se_spending_txid = slice_range SPENDER_OFFSET HEIGHT_OFFSET bytes,
                  se_spend_height = of_nat (le_val (slice_range HEIGHT_OFFSET TX_INDEX_OFFSET bytes)),
                  se_transaction_index = of_nat (le_val (slice_range TX_INDEX_OFFSET RESERVED_OFFSET bytes)) \<rparr>)"

section \<open>Buckets\<close>

text \<open>The digest is 32 bytes, so taking its first eight does not panic.\<close>

definition bucket_for_outpoint :: "(bytes \<Rightarrow> bytes) \<Rightarrow> bytes \<Rightarrow> u32 \<Rightarrow> nat \<Rightarrow> nat option" where
  "bucket_for_outpoint sha256 txid index buckets =
     (if buckets = 0 \<or> \<not> is_power_of_two buckets then None
      else let digest = sha256 (str_bytes ''transparent-spend-pir-v1/bucket'' @ txid @ u32_le index);
               prefix = (of_nat (le_val (take 8 digest)) :: u64)
           in Some (unat (prefix AND of_nat (buckets - 1))))"

text \<open>\<open>usize\<close> has 64 bits, so the conversion of \<open>needed\<close> does not fail.\<close>

definition bucket_count :: "u64 \<Rightarrow> nat" where
  "bucket_count entries =
     (let denominator = of_nat BUCKET_CAPACITY * TARGET_LOAD_NUMERATOR;
          needed = div_ceil (saturating_mul entries TARGET_LOAD_DENOMINATOR) denominator
      in unat (next_power_of_two (max needed (of_nat SPEND_SHARD_ROWS))))"

fun scan_entries :: "bytes list \<Rightarrow> bytes \<Rightarrow> u32 \<Rightarrow> spend_entry option \<Rightarrow> string + spend_entry option" where
  "scan_entries [] txid index found = Inr found"
| "scan_entries (bytes # rest) txid index found =
     (if list_all (\<lambda>b. b = 0) bytes then scan_entries rest txid index found
      else case se_from_bytes bytes of
        None \<Rightarrow> Inl ''malformed spend entry''
      | Some entry \<Rightarrow>
        if se_outpoint_txid entry = txid \<and> se_outpoint_index entry = index then
          if found \<noteq> None then Inl ''duplicate spend entry'' else scan_entries rest txid index (Some entry)
        else scan_entries rest txid index found)"

definition scan_bucket :: "bytes \<Rightarrow> bytes \<Rightarrow> u32 \<Rightarrow> string + spend_entry option" where
  "scan_bucket row txid index =
     (if length row < SPEND_ROW_BYTES then Inl ''decoded bucket is too short''
      else scan_entries (chunks_exact (SPEND_ROW_BYTES div SPEND_ENTRY_BYTES) SPEND_ENTRY_BYTES (take SPEND_ROW_BYTES row))
             txid index None)"

section \<open>Sessions\<close>

record spend_generation =
  sg_schema_version :: u16
  sg_protocol_revision :: string
  sg_network :: string
  sg_tip_height :: u64
  sg_tip_block_hash :: string
  sg_ironwood_tree_size :: u64
  sg_generation :: u64
  sg_cold_end_height :: u64
  sg_buckets :: u64
  sg_row_bytes :: u32
  sg_shard_rows :: u32
  sg_logical_rows :: u64
  sg_parameter_id :: string
  sg_setup_seed :: u64
  sg_public_params_epoch :: string
  sg_public_params_sha256 :: string
  sg_shards :: "shard_descriptor list"

record 'y spend_table_session =
  sts_generation :: spend_generation
  sts_params :: 'y
  sts_public_params_base64 :: string

record 'y spend_session =
  ss_tip_height :: u64
  ss_tip_block_hash :: string
  ss_ironwood_tree_size :: u64
  ss_generation :: u64
  ss_cold_end_height :: u64
  ss_cold :: "'y spend_table_session"
  ss_warm :: "'y spend_table_session"

datatype spend_lookup = Spent spend_entry | Unspent u64

section \<open>The entry codec\<close>

definition se_ok :: "spend_entry \<Rightarrow> bool" where
  "se_ok e \<longleftrightarrow> length (se_outpoint_txid e) = 32 \<and> length (se_spending_txid e) = 32"

abbreviation outpoint :: "spend_entry \<Rightarrow> bytes \<times> u32" where
  "outpoint e \<equiv> (se_outpoint_txid e, se_outpoint_index e)"

lemma se_to_bytes_eq:
  assumes "se_ok e"
  shows "se_to_bytes e = OCCUPIED # se_outpoint_txid e @ u32_le (se_outpoint_index e) @ se_spending_txid e
    @ u32_le (se_spend_height e) @ u16_le (se_transaction_index e) @ replicate 5 0"
proof -
  have step: "copy_from_slice (length a) src (a @ replicate (length src + n) 0) = (a @ src) @ replicate n 0" for a src n
    by (simp add: copy_from_slice_def replicate_add)
  note l = assms [unfolded se_ok_def]
  let ?a1 = "[OCCUPIED]"
  let ?a2 = "?a1 @ se_outpoint_txid e"
  let ?a3 = "?a2 @ u32_le (se_outpoint_index e)"
  let ?a4 = "?a3 @ se_spending_txid e"
  let ?a5 = "?a4 @ u32_le (se_spend_height e)"
  have 1: "(replicate SPEND_ENTRY_BYTES 0)[0 := OCCUPIED] = ?a1 @ replicate (32 + 47) (0 :: u8)"
    by (simp add: SPEND_ENTRY_BYTES_def numeral_eq_Suc)
  have 2: "copy_from_slice KEY_OFFSET (se_outpoint_txid e) (?a1 @ replicate (32 + 47) 0) = ?a2 @ replicate 47 0"
    using step [of ?a1 "se_outpoint_txid e" 47] l by (simp add: KEY_OFFSET_def)
  have 3: "copy_from_slice INDEX_OFFSET (u32_le (se_outpoint_index e)) (?a2 @ replicate 47 0) = ?a3 @ replicate 43 0"
    using step [of ?a2 "u32_le (se_outpoint_index e)" 43] l by (simp add: INDEX_OFFSET_def)
  have 4: "copy_from_slice SPENDER_OFFSET (se_spending_txid e) (?a3 @ replicate 43 0) = ?a4 @ replicate 11 0"
    using step [of ?a3 "se_spending_txid e" 11] l by (simp add: SPENDER_OFFSET_def)
  have 5: "copy_from_slice HEIGHT_OFFSET (u32_le (se_spend_height e)) (?a4 @ replicate 11 0) = ?a5 @ replicate 7 0"
    using step [of ?a4 "u32_le (se_spend_height e)" 7] l by (simp add: HEIGHT_OFFSET_def)
  have 6: "copy_from_slice TX_INDEX_OFFSET (u16_le (se_transaction_index e)) (?a5 @ replicate 7 0)
      = ?a5 @ u16_le (se_transaction_index e) @ replicate 5 0"
    using step [of ?a5 "u16_le (se_transaction_index e)" 5] l by (simp add: TX_INDEX_OFFSET_def)
  show ?thesis unfolding se_to_bytes_def Let_def 1 2 3 4 5 6 by simp
qed

lemma length_se_to_bytes: "se_ok e \<Longrightarrow> length (se_to_bytes e) = SPEND_ENTRY_BYTES"
  by (simp add: se_to_bytes_eq se_ok_def SPEND_ENTRY_BYTES_def)

lemma se_from_to_bytes: "se_ok e \<Longrightarrow> se_from_bytes (se_to_bytes e) = Some e"
  by (simp add: se_from_bytes_def se_to_bytes_eq se_ok_def entry_offsets slice_range_def list_ex_iff)

lemma se_from_bytes_Some:
  assumes "se_from_bytes bs = Some e"
  shows "se_ok e \<and> se_to_bytes e = bs"
proof -
  from assms have len: "length bs = 80" and first: "bs ! 0 = OCCUPIED" and rest: "\<not> list_ex (\<lambda>b. b \<noteq> 0) (drop 75 bs)"
    and e: "e = \<lparr> se_outpoint_txid = slice_range 1 33 bs, se_outpoint_index = of_nat (le_val (slice_range 33 37 bs)),
        se_spending_txid = slice_range 37 69 bs, se_spend_height = of_nat (le_val (slice_range 69 73 bs)),
        se_transaction_index = of_nat (le_val (slice_range 73 75 bs)) \<rparr>"
    by (auto simp: se_from_bytes_def entry_offsets split: if_splits)
  have ok: "se_ok e" by (simp add: e se_ok_def slice_range_def len)
  have z: "drop 75 bs = replicate 5 0"
    using rest len by (intro replicate_eqI) (auto simp: list_ex_iff)
  have cut: "drop a bs = slice_range a b bs @ drop b bs" if "a \<le> b" "b \<le> 80" for a b
  proof -
    have "drop (b - a) (drop a bs) = drop b bs" using that by simp
    then show ?thesis unfolding slice_range_def by (metis append_take_drop_id)
  qed
  have "bs = bs ! 0 # drop 1 bs" using len by (cases bs) auto
  also have "\<dots> = OCCUPIED # slice_range 1 33 bs @ slice_range 33 37 bs @ slice_range 37 69 bs @ slice_range 69 73 bs
      @ slice_range 73 75 bs @ replicate 5 0"
    using cut [of 1 33] cut [of 33 37] cut [of 37 69] cut [of 69 73] cut [of 73 75] first z by simp
  finally show ?thesis
    using ok by (simp add: se_to_bytes_eq e unat_of_le_val32 unat_of_le_val16 slice_range_def le_bytes_inverse len)
qed

lemma se_to_bytes_inject: "se_ok a \<Longrightarrow> se_ok b \<Longrightarrow> se_to_bytes a = se_to_bytes b \<longleftrightarrow> a = b"
  by (metis option.inject se_from_to_bytes)

lemma se_to_bytes_nonzero: "se_ok e \<Longrightarrow> \<not> list_all (\<lambda>b. b = 0) (se_to_bytes e)"
  by (simp add: se_to_bytes_eq OCCUPIED_def)

section \<open>Bucket numbers\<close>

lemma bucket_for_outpoint_Some:
  assumes "bucket_for_outpoint sha256 txid index buckets = Some b"
  shows "b < buckets"
proof -
  from assms have "buckets \<noteq> 0" "b \<le> unat (of_nat (buckets - 1) :: u64)"
    by (auto simp: bucket_for_outpoint_def Let_def word_and_le1 simp flip: word_le_nat_alt split: if_splits)
  moreover have "unat (of_nat (buckets - 1) :: u64) \<le> buckets - 1" by (simp add: unat_of_nat take_bit_eq_mod)
  ultimately show ?thesis by linarith
qed

lemma bucket_for_outpoint_total:
  "k \<le> 64 \<Longrightarrow> \<exists>b. bucket_for_outpoint sha256 txid index (2 ^ k) = Some b"
  using is_power_of_two_iff [of "2 ^ k"] power_increasing [of k 64 "2 :: nat"]
  by (auto simp: bucket_for_outpoint_def Let_def)

lemma bucket_count_power: "\<exists>k. 13 \<le> k \<and> k \<le> 52 \<and> bucket_count n = 2 ^ k"
proof -
  let ?needed = "div_ceil (saturating_mul n TARGET_LOAD_DENOMINATOR) (of_nat BUCKET_CAPACITY * TARGET_LOAD_NUMERATOR) :: u64"
  let ?m = "max ?needed (of_nat SPEND_SHARD_ROWS)"
  let ?s = "saturating_mul n TARGET_LOAD_DENOMINATOR"
  have den: "(of_nat BUCKET_CAPACITY * TARGET_LOAD_NUMERATOR :: u64) = 4840"
    by (simp add: BUCKET_CAPACITY_def TARGET_LOAD_NUMERATOR_def)
  have d: "unat (?s div 4840) = unat ?s div 4840" by (simp add: unat_div)
  have b: "unat ?s div 4840 \<le> 2 ^ 52 - 1" using unat_u64_lt [of ?s] by simp
  then have "unat (?s div 4840 + 1) \<le> 2 ^ 52" using d by (subst unat_add_nowrap) simp_all
  then have "unat ?needed \<le> 2 ^ 52" using d b by (simp add: div_ceil_def den)
  then have le: "unat ?m \<le> 2 ^ 52" by (simp add: max_def SPEND_SHARD_ROWS_def)
  have ge: "2 ^ 13 \<le> unat ?m" by (simp add: max_def SPEND_SHARD_ROWS_def word_le_nat_alt)
  obtain k where k: "unat (next_power_of_two ?m) = 2 ^ k" "unat ?m \<le> 2 ^ k" "\<forall>j. unat ?m \<le> 2 ^ j \<longrightarrow> k \<le> j"
    using next_power_of_two_spec [of ?m] le by auto
  have "(2 :: nat) ^ 13 \<le> 2 ^ k" using ge k(2) by linarith
  then have "13 \<le> k" by (rule power_le_imp_le_exp [rotated]) simp
  then show ?thesis using k le by (auto simp: bucket_count_def Let_def)
qed

section \<open>The scan of a bucket\<close>

text \<open>What a scan finds among the entries of a bucket.\<close>

definition find_spend :: "spend_entry list \<Rightarrow> bytes \<Rightarrow> u32 \<Rightarrow> string + spend_entry option" where
  "find_spend es txid index =
     (case filter (\<lambda>e. outpoint e = (txid, index)) es of
        [] \<Rightarrow> Inr None
      | [e] \<Rightarrow> Inr (Some e)
      | _ \<Rightarrow> Inl ''duplicate spend entry'')"

lemma scan_entries_zero: "\<forall>c \<in> set cs. list_all (\<lambda>b. b = 0) c \<Longrightarrow> scan_entries cs txid index found = Inr found"
  by (induction cs) auto

lemma scan_entries_append:
  "scan_entries (as @ bs) txid index found = bindR (scan_entries as txid index found) (scan_entries bs txid index)"
  by (induction as arbitrary: found) (auto split: option.splits)

lemma scan_entries_found:
  "\<forall>e \<in> set es. se_ok e \<Longrightarrow> scan_entries (map se_to_bytes es) txid index (Some f) =
    (if \<exists>e \<in> set es. outpoint e = (txid, index) then Inl ''duplicate spend entry'' else Inr (Some f))"
  by (induction es) (auto simp: se_to_bytes_nonzero se_from_to_bytes)

lemma scan_entries_find:
  "\<forall>e \<in> set es. se_ok e \<Longrightarrow> scan_entries (map se_to_bytes es) txid index None = find_spend es txid index"
proof (induction es)
  case Nil
  then show ?case by (simp add: find_spend_def)
next
  case (Cons e es)
  then have ok: "se_ok e" "\<forall>e \<in> set es. se_ok e" by auto
  show ?case
  proof (cases "outpoint e = (txid, index)")
    case True
    have "(\<exists>x \<in> set es. outpoint x = (txid, index)) \<longleftrightarrow> filter (\<lambda>e. outpoint e = (txid, index)) es \<noteq> []"
      by (auto simp: filter_empty_conv)
    then show ?thesis
      using True ok scan_entries_found [OF ok(2), of txid index e]
      by (auto simp: se_to_bytes_nonzero se_from_to_bytes find_spend_def split: list.splits)
  next
    case False
    then show ?thesis
      using Cons.IH ok by (auto simp: se_to_bytes_nonzero se_from_to_bytes find_spend_def)
  qed
qed

text \<open>A row as the server writes it: the entries of the bucket in its first slots, zero bytes after them.\<close>

definition bucket_row :: "spend_entry list \<Rightarrow> bytes" where
  "bucket_row es = concat (map se_to_bytes es) @ replicate (SPEND_ROW_BYTES - length es * SPEND_ENTRY_BYTES) 0"

lemma bucket_row_chunks:
  assumes "\<forall>e \<in> set es. se_ok e" and "length es \<le> BUCKET_CAPACITY"
  shows "length (bucket_row es) = SPEND_ROW_BYTES"
    and "bucket_row es = concat (map se_to_bytes es @ replicate (BUCKET_CAPACITY - length es) (replicate SPEND_ENTRY_BYTES 0))"
proof -
  have "length (concat (map se_to_bytes es)) = length es * SPEND_ENTRY_BYTES"
    using length_concat_const [of "map se_to_bytes es" SPEND_ENTRY_BYTES] assms(1) by (simp add: length_se_to_bytes del: length_concat)
  moreover have "length es * SPEND_ENTRY_BYTES \<le> SPEND_ROW_BYTES"
    using assms(2) by (simp add: SPEND_ROW_BYTES_def mult.commute)
  ultimately show "length (bucket_row es) = SPEND_ROW_BYTES" by (simp add: bucket_row_def del: length_concat)
  have "concat (replicate n (replicate m x)) = replicate (n * m) x" for n m :: nat and x :: u8
    by (induction n) (auto simp: replicate_add)
  moreover have "SPEND_ROW_BYTES - length es * SPEND_ENTRY_BYTES = (BUCKET_CAPACITY - length es) * SPEND_ENTRY_BYTES"
    by (simp add: SPEND_ROW_BYTES_def diff_mult_distrib mult.commute [of SPEND_ENTRY_BYTES])
  ultimately show "bucket_row es = concat (map se_to_bytes es @ replicate (BUCKET_CAPACITY - length es) (replicate SPEND_ENTRY_BYTES 0))"
    by (simp add: bucket_row_def)
qed

lemma scan_bucket_row:
  assumes "\<forall>e \<in> set es. se_ok e" and "length es \<le> BUCKET_CAPACITY"
  shows "scan_bucket (bucket_row es @ rest) txid index = find_spend es txid index"
proof -
  let ?cs = "map se_to_bytes es @ replicate (BUCKET_CAPACITY - length es) (replicate SPEND_ENTRY_BYTES 0)"
  have "\<forall>c \<in> set ?cs. length c = SPEND_ENTRY_BYTES" using assms(1) by (auto simp: length_se_to_bytes)
  moreover have "length ?cs = SPEND_ROW_BYTES div SPEND_ENTRY_BYTES"
    using assms(2) by (simp add: SPEND_ROW_BYTES_def SPEND_ENTRY_BYTES_def)
  ultimately have "chunks_exact (SPEND_ROW_BYTES div SPEND_ENTRY_BYTES) SPEND_ENTRY_BYTES (bucket_row es) = ?cs"
    using chunks_exact_concat [of ?cs SPEND_ENTRY_BYTES] by (simp add: bucket_row_chunks(2) [OF assms])
  then show ?thesis
    using bucket_row_chunks(1) [OF assms] scan_entries_find [OF assms(1), of txid index]
    by (simp add: scan_bucket_def scan_entries_append)
       (cases "find_spend es txid index"; simp add: scan_entries_zero list_all_iff)
qed

text \<open>With one spend per outpoint the scan is a lookup.\<close>

lemma find_spend_distinct:
  "distinct (map outpoint es) \<Longrightarrow> find_spend es txid index = Inr (find (\<lambda>e. outpoint e = (txid, index)) es)"
proof (induction es)
  case Nil
  then show ?case by (simp add: find_spend_def)
next
  case (Cons e es)
  show ?case
  proof (cases "outpoint e = (txid, index)")
    case True
    then have "filter (\<lambda>e. outpoint e = (txid, index)) es = []"
      using Cons.prems by (auto simp: filter_empty_conv image_iff)
    then show ?thesis using True by (simp add: find_spend_def)
  next
    case False
    then have "find_spend (e # es) txid index = find_spend es txid index" by (auto simp: find_spend_def)
    then show ?thesis using False Cons by auto
  qed
qed

end
