(* ===== verification/Spend_Journal.thy ===== *)
theory Spend_Journal
  imports Spend_Types
begin

text \<open>
  The spend log of the server, \<open>SpendJournal\<close> in \<open>server/enhance-pir-server/src/spend.rs\<close>: entries in
  \<open>entries.bin\<close>, one fixed-width index record per block in \<open>blocks.bin\<close>, and the number of committed blocks in
  \<open>checkpoint.bin\<close>. Opening cuts both files back to the checkpoint; a rewind shortens them and commits.

  The three files are the disk state; a missing file is \<open>None\<close>. Failing reads and writes of the file system are not
  modelled, apart from a read beyond the end of a file. \<open>hex_encode\<close> and \<open>hex_decode\<close> are the functions of the
  \<open>hex\<close> crate. The temporary checkpoint file is renamed over the old one, so the checkpoint changes in one step.
\<close>

section \<open>State\<close>

definition INDEX_MAGIC :: bytes where "INDEX_MAGIC = str_bytes ''TSPBLK01''"
definition BLOCK_BYTES :: nat where "BLOCK_BYTES = 56"

record spend_block =
  sb_height :: u64
  sb_hash :: string
  sb_first_position :: u64
  sb_entry_count :: u64

record spend_disk =
  entries_bin :: "bytes option"
  blocks_bin :: "bytes option"
  checkpoint_file :: "bytes option"

datatype spend_error = Invalid_Data string | Invalid_Input string | Unexpected_Eof | Not_Found | Spend_Panic

type_synonym spend_journal = "spend_disk \<times> spend_block list"

definition last_block :: "spend_block list \<Rightarrow> spend_block option" where
  "last_block blocks = (if blocks = [] then None else Some (last blocks))"

definition spend_committed_height :: "spend_block list \<Rightarrow> u64 option" where
  "spend_committed_height blocks = map_option sb_height (last_block blocks)"

text \<open>\<open>map_or(0, |block| block.first_position + block.entry_count)\<close> of the last block.\<close>

definition indexed_entries :: "spend_block list \<Rightarrow> u64" where
  "indexed_entries blocks = (case last_block blocks of None \<Rightarrow> 0 | Some b \<Rightarrow> sb_first_position b + sb_entry_count b)"

section \<open>Opening\<close>

definition create_files :: "spend_disk \<Rightarrow> spend_disk" where
  "create_files d =
     \<lparr> entries_bin = (case entries_bin d of None \<Rightarrow> Some [] | Some f \<Rightarrow> Some f),
       blocks_bin = (case blocks_bin d of None \<Rightarrow> Some INDEX_MAGIC | Some f \<Rightarrow> Some f),
       checkpoint_file = (case checkpoint_file d of None \<Rightarrow> Some (u64_le 0) | Some f \<Rightarrow> Some f) \<rparr>"

definition parse_block :: "(bytes \<Rightarrow> string) \<Rightarrow> bytes \<Rightarrow> spend_block" where
  "parse_block hex_encode rec =
     \<lparr> sb_height = of_nat (le_val (slice_range 0 8 rec)), sb_hash = hex_encode (slice_range 8 40 rec),
       sb_first_position = of_nat (le_val (slice_range 40 48 rec)), sb_entry_count = of_nat (le_val (slice_range 48 56 rec)) \<rparr>"

fun parse_blocks :: "(bytes \<Rightarrow> string) \<Rightarrow> bytes list \<Rightarrow> spend_block list \<Rightarrow> spend_error + spend_block list" where
  "parse_blocks hex_encode [] blocks = Inr blocks"
| "parse_blocks hex_encode (rec # recs) blocks =
     (let b = parse_block hex_encode rec in
      if (case last_block blocks of None \<Rightarrow> False
          | Some lst \<Rightarrow> sb_height lst + 1 \<noteq> sb_height b \<or> sb_first_position lst + sb_entry_count lst \<noteq> sb_first_position b)
      then Inl (Invalid_Data ''non-contiguous transparent-spend block index'')
      else parse_blocks hex_encode recs (blocks @ [b]))"

text \<open>The committed prefix of the index, the second cut to whole records included.\<close>

definition spend_open :: "(bytes \<Rightarrow> string) \<Rightarrow> spend_disk \<Rightarrow> spend_disk \<times> (spend_error + spend_block list)" where
  "spend_open hex_encode d =
     (let d = create_files d;
          encoded = the (blocks_bin d);
          checkpoint = the (checkpoint_file d);
          magic_len = length INDEX_MAGIC
      in if length encoded < magic_len \<or> take magic_len encoded \<noteq> INDEX_MAGIC
         then (d, Inl (Invalid_Data ''invalid transparent-spend block index''))
         else if length checkpoint < 8 then (d, Inl Unexpected_Eof)
         else
           let committed_blocks = unat (of_nat (le_val (take 8 checkpoint)) :: u64);
               complete_blocks = (length encoded - magic_len) div BLOCK_BYTES
           in if committed_blocks > complete_blocks
              then (d, Inl (Invalid_Data ''transparent-spend checkpoint exceeds block index''))
              else
                let encoded = take (magic_len + committed_blocks * BLOCK_BYTES) encoded;
                    d = d \<lparr> blocks_bin := map_option (set_len (length encoded)) (blocks_bin d) \<rparr>;
                    records = drop magic_len encoded;
                    complete = length records div BLOCK_BYTES;
                    (d, encoded) =
                      (if \<not> BLOCK_BYTES dvd length records
                       then (d \<lparr> blocks_bin := map_option (set_len (magic_len + complete * BLOCK_BYTES)) (blocks_bin d) \<rparr>,
                             take (magic_len + complete * BLOCK_BYTES) encoded)
                       else (d, encoded));
                    records = drop magic_len encoded
                in (case parse_blocks hex_encode (chunks_exact (length records div BLOCK_BYTES) BLOCK_BYTES records) [] of
                      Inl e \<Rightarrow> (d, Inl e)
                    | Inr blocks \<Rightarrow>
                      (d \<lparr> entries_bin := map_option (set_len (unat (indexed_entries blocks * of_nat SPEND_ENTRY_BYTES))) (entries_bin d) \<rparr>,
                       Inr blocks)))"

section \<open>Updates and reads\<close>

definition spend_index_record :: "u64 \<Rightarrow> bytes \<Rightarrow> u64 \<Rightarrow> u64 \<Rightarrow> bytes" where
  "spend_index_record height hash_bytes first_position entry_count =
     (let rec = replicate BLOCK_BYTES 0;
          rec = copy_from_slice 0 (u64_le height) rec;
          rec = copy_from_slice 8 hash_bytes rec;
          rec = copy_from_slice 40 (u64_le first_position) rec
      in copy_from_slice 48 (u64_le entry_count) rec)"

definition append_entries :: "spend_entry list \<Rightarrow> spend_disk \<Rightarrow> spend_disk" where
  "append_entries entries d = d \<lparr> entries_bin := map_option (\<lambda>f. f @ concat (map se_to_bytes entries)) (entries_bin d) \<rparr>"

definition append_index :: "bytes \<Rightarrow> spend_disk \<Rightarrow> spend_disk" where
  "append_index rec d = d \<lparr> blocks_bin := map_option (\<lambda>f. f @ rec) (blocks_bin d) \<rparr>"

definition spend_append_block ::
  "(string \<Rightarrow> bytes option) \<Rightarrow> u64 \<Rightarrow> string \<Rightarrow> spend_entry list \<Rightarrow> spend_journal \<Rightarrow> spend_journal \<times> (spend_error + unit)" where
  "spend_append_block hex_decode height hash entries = (\<lambda>(d, blocks).
     if (case last_block blocks of None \<Rightarrow> False | Some previous \<Rightarrow> sb_height previous + 1 \<noteq> height)
     then ((d, blocks), Inl (Invalid_Input ''transparent-spend blocks must be contiguous''))
     else (case hex_decode hash of
         None \<Rightarrow> ((d, blocks), Inl (Invalid_Input ''invalid block hash''))
       | Some hash_bytes \<Rightarrow>
         if length hash_bytes \<noteq> 32 then ((d, blocks), Inl (Invalid_Input ''invalid block hash''))
         else if entries_bin d = None then ((d, blocks), Inl Not_Found)
         else
           let first_position = indexed_entries blocks;
               d = append_entries entries d
           in if blocks_bin d = None then ((d, blocks), Inl Not_Found)
              else ((append_index (spend_index_record height hash_bytes first_position (of_nat (length entries))) d,
                     blocks @ [\<lparr> sb_height = height, sb_hash = hash, sb_first_position = first_position,
                                 sb_entry_count = of_nat (length entries) \<rparr>]), Inr ())))"

definition spend_sync :: "spend_journal \<Rightarrow> spend_journal" where
  "spend_sync = (\<lambda>(d, blocks). (d \<lparr> checkpoint_file := Some (u64_le (of_nat (length blocks))) \<rparr>, blocks))"

text \<open>
  The buffer of \<open>count * ENTRY_BYTES\<close> bytes panics above \<open>isize::MAX\<close>; the product and the offset wrap at 64 bits.
\<close>

definition read_entries :: "spend_journal \<Rightarrow> u64 \<Rightarrow> nat \<Rightarrow> spend_error + spend_entry list" where
  "read_entries = (\<lambda>(d, blocks) first count.
     case entries_bin d of None \<Rightarrow> Inl Not_Found
     | Some file \<Rightarrow>
       let offset = unat (first * of_nat SPEND_ENTRY_BYTES);
           size = (count * SPEND_ENTRY_BYTES) mod 2 ^ 64
       in if size \<ge> 2 ^ 63 then Inl Spend_Panic
          else if length file < offset + size \<and> 0 < size then Inl Unexpected_Eof
          else mapR (\<lambda>encoded. ok_or (Invalid_Data ''malformed transparent-spend entry'') (se_from_bytes encoded))
                 (chunks_exact (size div SPEND_ENTRY_BYTES) SPEND_ENTRY_BYTES (take size (drop offset file))))"

text \<open>\<open>partition_point\<close> on the blocks, which are in height order.\<close>

definition blocks_through :: "u64 \<Rightarrow> spend_block list \<Rightarrow> nat" where
  "blocks_through height blocks = length (takeWhile (\<lambda>b. sb_height b \<le> height) blocks)"

definition spend_rewind_keep :: "u64 option \<Rightarrow> spend_block list \<Rightarrow> nat" where
  "spend_rewind_keep height blocks = (case height of None \<Rightarrow> 0 | Some height \<Rightarrow> blocks_through height blocks)"

definition cut_entries :: "spend_block list \<Rightarrow> spend_disk \<Rightarrow> spend_disk" where
  "cut_entries blocks d =
     d \<lparr> entries_bin := map_option (set_len (unat (indexed_entries blocks * of_nat SPEND_ENTRY_BYTES))) (entries_bin d) \<rparr>"

definition cut_blocks :: "nat \<Rightarrow> spend_disk \<Rightarrow> spend_disk" where
  "cut_blocks keep d = d \<lparr> blocks_bin := map_option (set_len (length INDEX_MAGIC + keep * BLOCK_BYTES)) (blocks_bin d) \<rparr>"

definition spend_rewind_to_height :: "u64 option \<Rightarrow> spend_journal \<Rightarrow> spend_journal" where
  "spend_rewind_to_height height = (\<lambda>(d, blocks).
     let keep = spend_rewind_keep height blocks;
         blocks = take keep blocks;
         d = cut_entries blocks d;
         d = cut_blocks keep d
     in spend_sync (d, blocks))"

section \<open>What a journal holds\<close>

text \<open>
  The abstract content: the blocks with their entries, in order. \<open>view_blocks\<close> is the index such a content has and
  \<open>spend_journal_ok\<close> relates files, index and content; the checkpoint counts a prefix of the blocks.
\<close>

type_synonym spend_view = "(u64 \<times> string \<times> spend_entry list) list"

fun view_blocks :: "nat \<Rightarrow> spend_view \<Rightarrow> spend_block list" where
  "view_blocks pos [] = []"
| "view_blocks pos ((height, hash, es) # vs) =
     \<lparr> sb_height = height, sb_hash = hash, sb_first_position = of_nat pos, sb_entry_count = of_nat (length es) \<rparr>
     # view_blocks (pos + length es) vs"

definition view_entries :: "spend_view \<Rightarrow> spend_entry list" where
  "view_entries vs = concat (map (\<lambda>(height, hash, es). es) vs)"

definition hex_hash_ok :: "(bytes \<Rightarrow> string) \<Rightarrow> (string \<Rightarrow> bytes option) \<Rightarrow> string \<Rightarrow> bool" where
  "hex_hash_ok he hx hash \<longleftrightarrow> (case hx hash of None \<Rightarrow> False | Some b \<Rightarrow> length b = 32 \<and> he b = hash)"

definition linked :: "spend_block \<Rightarrow> spend_block \<Rightarrow> bool" where
  "linked a b \<longleftrightarrow> sb_height a + 1 = sb_height b \<and> sb_first_position a + sb_entry_count a = sb_first_position b"

definition view_ok :: "(bytes \<Rightarrow> string) \<Rightarrow> (string \<Rightarrow> bytes option) \<Rightarrow> spend_view \<Rightarrow> bool" where
  "view_ok he hx vs \<longleftrightarrow> (\<forall>(height, hash, es) \<in> set vs. hex_hash_ok he hx hash \<and> list_all se_ok es)
     \<and> successively (\<lambda>(a, _) (b, _). a + 1 = b) vs
     \<and> length (view_entries vs) * SPEND_ENTRY_BYTES < 2 ^ 63 \<and> length vs < 2 ^ 63"

definition block_record :: "(string \<Rightarrow> bytes option) \<Rightarrow> spend_block \<Rightarrow> bytes" where
  "block_record hx b = spend_index_record (sb_height b) (the (hx (sb_hash b))) (sb_first_position b) (sb_entry_count b)"

definition entry_bytes :: "spend_view \<Rightarrow> bytes" where
  "entry_bytes vs = concat (map se_to_bytes (view_entries vs))"

definition block_bytes :: "(string \<Rightarrow> bytes option) \<Rightarrow> spend_view \<Rightarrow> bytes" where
  "block_bytes hx vs = INDEX_MAGIC @ concat (map (block_record hx) (view_blocks 0 vs))"

definition spend_journal_ok :: "(bytes \<Rightarrow> string) \<Rightarrow> (string \<Rightarrow> bytes option) \<Rightarrow> spend_journal \<Rightarrow> spend_view \<Rightarrow> bool" where
  "spend_journal_ok he hx = (\<lambda>(d, blocks) vs.
     view_ok he hx vs \<and> blocks = view_blocks 0 vs \<and> entries_bin d = Some (entry_bytes vs)
     \<and> blocks_bin d = Some (block_bytes hx vs) \<and> (\<exists>c \<le> length vs. checkpoint_file d = Some (u64_le (of_nat c))))"

abbreviation synced :: "spend_journal \<Rightarrow> bool" where
  "synced s \<equiv> checkpoint_file (fst s) = Some (u64_le (of_nat (length (snd s))))"

lemma view_entries_simps [simp]:
  "view_entries [] = []" "view_entries (v # vs) = snd (snd v) @ view_entries vs" "view_entries (vs @ ws) = view_entries vs @ view_entries ws"
  by (auto simp: view_entries_def split: prod.splits)

lemma length_view_blocks [simp]: "length (view_blocks pos vs) = length vs"
  by (induction pos vs rule: view_blocks.induct) auto

lemma view_blocks_Nil_iff [simp]: "view_blocks pos vs = [] \<longleftrightarrow> vs = []"
  by (metis length_0_conv length_view_blocks)

lemma view_blocks_append: "view_blocks pos (vs @ ws) = view_blocks pos vs @ view_blocks (pos + length (view_entries vs)) ws"
  by (induction pos vs rule: view_blocks.induct) (auto simp: add.assoc)

lemma view_blocks_take: "view_blocks pos (take n vs) = take n (view_blocks pos vs)"
proof (induction pos vs arbitrary: n rule: view_blocks.induct)
  case (2 pos height hash es vs)
  then show ?case by (cases n) auto
qed simp

lemma last_view_blocks:
  "vs \<noteq> [] \<Longrightarrow> sb_first_position (last (view_blocks pos vs)) + sb_entry_count (last (view_blocks pos vs))
     = of_nat (pos + length (view_entries vs))"
proof (induction pos vs rule: view_blocks.induct)
  case (2 pos height hash es vs)
  then show ?case by (cases vs) (auto simp: add.assoc)
qed simp

lemma indexed_view [simp]: "indexed_entries (view_blocks 0 vs) = of_nat (length (view_entries vs))"
proof (cases "vs = []")
  case False
  then show ?thesis using last_view_blocks [OF False, of 0] by (simp add: indexed_entries_def last_block_def)
qed (simp add: indexed_entries_def last_block_def)

lemma view_blocks_linked:
  "successively (\<lambda>(a, _) (b, _). a + 1 = b) vs \<Longrightarrow> successively linked (view_blocks pos vs)"
proof (induction pos vs rule: view_blocks.induct)
  case (2 pos height hash es vs)
  then show ?case by (cases vs) (auto simp: linked_def)
qed simp

lemma view_ok_take: "view_ok he hx vs \<Longrightarrow> view_ok he hx (take n vs)"
proof -
  assume ok: "view_ok he hx vs"
  have "length (view_entries vs) = length (view_entries (take n vs)) + length (view_entries (drop n vs))"
    using arg_cong [OF view_entries_simps(3) [of "take n vs" "drop n vs"], of length] by simp
  then have "length (view_entries (take n vs)) * SPEND_ENTRY_BYTES \<le> length (view_entries vs) * SPEND_ENTRY_BYTES"
    by simp
  moreover have "successively (\<lambda>(a, _) (b, _). a + 1 = b) (take n vs)"
    using ok successively_append_iff [of "\<lambda>(a, _) (b, _). a + 1 = b" "take n vs" "drop n vs"] by (simp add: view_ok_def)
  moreover have "\<forall>v \<in> set (take n vs). v \<in> set vs" by (auto dest: in_set_takeD)
  moreover have "length (take n vs) \<le> length vs" by simp
  ultimately show ?thesis
    using ok unfolding view_ok_def by (meson order.strict_trans1)
qed

lemma length_index_record: "length h = 32 \<Longrightarrow> spend_index_record height h p n = u64_le height @ h @ u64_le p @ u64_le n"
proof -
  assume h: "length h = 32"
  have step: "copy_from_slice (length a) src (a @ replicate (length src + n) 0) = (a @ src) @ replicate n 0" for a src n
    by (simp add: copy_from_slice_def replicate_add)
  show ?thesis
    using step [of "[]" "u64_le height" 48] step [of "u64_le height" h 16] step [of "u64_le height @ h" "u64_le p" 8]
      step [of "(u64_le height @ h) @ u64_le p" "u64_le n" 0] h
    by (simp add: spend_index_record_def BLOCK_BYTES_def)
qed

lemma parse_block_record:
  assumes "hex_hash_ok he hx (sb_hash b)"
  shows "length (block_record hx b) = BLOCK_BYTES" and "parse_block he (block_record hx b) = b"
proof -
  from assms obtain h where h: "hx (sb_hash b) = Some h" "length h = 32" "he h = sb_hash b"
    by (auto simp: hex_hash_ok_def split: option.splits)
  show "length (block_record hx b) = BLOCK_BYTES" by (simp add: block_record_def h length_index_record BLOCK_BYTES_def)
  show "parse_block he (block_record hx b) = b"
    by (simp add: parse_block_def block_record_def h length_index_record slice_range_def)
qed

lemma view_hashes: "view_ok he hx vs \<Longrightarrow> b \<in> set (view_blocks pos vs) \<Longrightarrow> hex_hash_ok he hx (sb_hash b)"
proof -
  assume ok: "view_ok he hx vs" and "b \<in> set (view_blocks pos vs)"
  then have "sb_hash b \<in> set (map sb_hash (view_blocks pos vs))" by simp
  also have "map sb_hash (view_blocks pos vs) = map (\<lambda>v. fst (snd v)) vs"
    by (induction pos vs rule: view_blocks.induct) auto
  finally show ?thesis using ok by (auto simp: view_ok_def)
qed

lemma parse_blocks_linked:
  "\<forall>b \<in> set bs. parse_block he (f b) = b \<Longrightarrow> successively linked (acc @ bs) \<Longrightarrow> parse_blocks he (map f bs) acc = Inr (acc @ bs)"
proof (induction bs arbitrary: acc)
  case (Cons b bs)
  then have "acc \<noteq> [] \<Longrightarrow> linked (last acc) b" by (auto simp: successively_append_iff)
  then show ?case using Cons.IH [of "acc @ [b]"] Cons.prems by (auto simp: last_block_def linked_def Let_def)
qed simp

lemma length_block_bytes:
  "view_ok he hx vs \<Longrightarrow> length (concat (map (block_record hx) (view_blocks pos vs))) = length vs * BLOCK_BYTES"
  using length_concat_const [of "map (block_record hx) (view_blocks pos vs)" BLOCK_BYTES] parse_block_record(1) [OF view_hashes]
  by (auto simp del: length_concat)

lemma length_entry_bytes: "view_ok he hx vs \<Longrightarrow> length (entry_bytes vs) = length (view_entries vs) * SPEND_ENTRY_BYTES"
proof -
  assume "view_ok he hx vs"
  then have "\<forall>e \<in> set (view_entries vs). se_ok e" by (auto simp: view_ok_def view_entries_def list_all_iff)
  then show ?thesis
    using length_concat_const [of "map se_to_bytes (view_entries vs)" SPEND_ENTRY_BYTES]
    by (simp add: entry_bytes_def length_se_to_bytes del: length_concat)
qed

lemma set_len_append [simp]: "n = length as \<Longrightarrow> set_len n (as @ bs) = as"
  by (simp add: set_len_def)

lemma entries_len:
  "view_ok he hx vs \<Longrightarrow> unat (of_nat (length (view_entries vs)) * of_nat SPEND_ENTRY_BYTES :: u64) = length (entry_bytes vs)"
proof -
  assume ok: "view_ok he hx vs"
  then have "length (view_entries vs) * SPEND_ENTRY_BYTES < 2 ^ 64" by (simp add: view_ok_def)
  from unat_of_nat_u64 [OF this] show ?thesis by (simp add: length_entry_bytes [OF ok])
qed

text \<open>Opening cuts the index back to the committed blocks, whatever follows them, and resizes the entries to match.\<close>

lemma spend_open_resize:
  assumes ok: "view_ok he hx vs"
    and files: "entries_bin d = Some f" "blocks_bin d = Some (block_bytes hx vs @ y)"
      "checkpoint_file d = Some (u64_le (of_nat (length vs)))"
  shows "spend_open he d = (d \<lparr> entries_bin := Some (set_len (length (entry_bytes vs)) f), blocks_bin := Some (block_bytes hx vs) \<rparr>, Inr (view_blocks 0 vs))"
proof -
  let ?bs = "concat (map (block_record hx) (view_blocks 0 vs))"
  have d: "create_files d = d" by (cases d) (use files in \<open>simp add: create_files_def\<close>)
  have n: "unat (of_nat (le_val (take 8 (u64_le (of_nat (length vs))))) :: u64) = length vs"
    using ok by (simp add: view_ok_def le_val_le_bytes unat_of_nat_u64)
  have len: "length ?bs = length vs * BLOCK_BYTES" by (rule length_block_bytes [OF ok])
  have b0: "0 < BLOCK_BYTES" by (simp add: BLOCK_BYTES_def)
  have le: "length vs \<le> (length (block_bytes hx vs @ y) - length INDEX_MAGIC) div BLOCK_BYTES"
    using len b0 by (simp add: block_bytes_def del: length_concat)
  have cut: "take (length INDEX_MAGIC + length vs * BLOCK_BYTES) (block_bytes hx vs @ y) = block_bytes hx vs"
    using len by (simp add: block_bytes_def del: length_concat)
  have blen: "length (block_bytes hx vs) = length INDEX_MAGIC + length vs * BLOCK_BYTES"
    using len by (simp add: block_bytes_def del: length_concat)
  have recs: "drop (length INDEX_MAGIC) (block_bytes hx vs) = ?bs" by (simp add: block_bytes_def)
  have chunks: "chunks_exact (length vs) BLOCK_BYTES ?bs = map (block_record hx) (view_blocks 0 vs)"
    using chunks_exact_concat [of "map (block_record hx) (view_blocks 0 vs)" BLOCK_BYTES] parse_block_record(1) [OF view_hashes [OF ok]]
    by simp
  have parsed: "parse_blocks he (map (block_record hx) (view_blocks 0 vs)) [] = Inr (view_blocks 0 vs)"
    using parse_blocks_linked [of "view_blocks 0 vs" he "block_record hx" "[]"] ok
    by (simp add: parse_block_record view_hashes view_blocks_linked view_ok_def)
  have start: "take (length INDEX_MAGIC) (block_bytes hx vs @ y) = INDEX_MAGIC" "\<not> length (block_bytes hx vs @ y) < length INDEX_MAGIC"
    by (simp_all add: block_bytes_def)
  show ?thesis
    unfolding spend_open_def Let_def d files option.sel n
    using start le cut recs chunks parsed files blen len b0
    by (simp add: indexed_view entries_len [OF ok] del: length_concat length_append)
qed

section \<open>Operations against the content\<close>

lemma spend_append_ok:
  assumes ok: "spend_journal_ok he hx (d, blocks) vs" and hash: "hex_hash_ok he hx hash" and es: "list_all se_ok es"
    and next_height: "vs \<noteq> [] \<Longrightarrow> height = fst (last vs) + 1"
    and room: "(length (view_entries vs) + length es) * SPEND_ENTRY_BYTES < 2 ^ 63" "length vs + 1 < 2 ^ 63"
  shows "\<exists>s'. spend_append_block hx height hash es (d, blocks) = (s', Inr ()) \<and> spend_journal_ok he hx s' (vs @ [(height, hash, es)])
    \<and> checkpoint_file (fst s') = checkpoint_file d"
proof -
  let ?vs = "vs @ [(height, hash, es)]"
  from hash obtain h where h: "hx hash = Some h" "length h = 32" by (auto simp: hex_hash_ok_def split: option.splits)
  from ok have v: "view_ok he hx vs" and b: "blocks = view_blocks 0 vs" and e: "entries_bin d = Some (entry_bytes vs)"
    and i: "blocks_bin d = Some (block_bytes hx vs)" and c: "\<exists>c \<le> length vs. checkpoint_file d = Some (u64_le (of_nat c))"
    by (auto simp: spend_journal_ok_def)
  have heights: "sb_height (last (view_blocks pos vs)) = fst (last vs)" if "vs \<noteq> []" for pos
    using that
  proof (induction pos vs rule: view_blocks.induct)
    case (2 pos height hash es vs)
    then show ?case by (cases vs) auto
  qed simp
  have first: "\<not> (case last_block blocks of None \<Rightarrow> False | Some previous \<Rightarrow> sb_height previous + 1 \<noteq> height)"
    using next_height heights [of 0]
    by (auto simp: last_block_def b split: if_splits)
  have "successively (\<lambda>(a, _) (b, _). a + 1 = b) ?vs"
    using v next_height by (cases "vs = []") (simp_all add: view_ok_def successively_append_iff case_prod_beta)
  then have v': "view_ok he hx ?vs"
    using v hash es room by (auto simp: view_ok_def)
  let ?d = "append_index (spend_index_record height h (indexed_entries blocks) (of_nat (length es))) (append_entries es d)"
  have "spend_append_block hx height hash es (d, blocks) = ((?d, view_blocks 0 ?vs), Inr ())"
    using first by (simp add: spend_append_block_def h e i b append_entries_def Let_def view_blocks_append)
  moreover have "spend_journal_ok he hx (?d, view_blocks 0 ?vs) ?vs"
    using v' c e i h
    by (auto simp: spend_journal_ok_def append_index_def append_entries_def b entry_bytes_def block_bytes_def view_blocks_append block_record_def
        intro: le_SucI)
  moreover have "checkpoint_file ?d = checkpoint_file d" by (simp add: append_index_def append_entries_def)
  ultimately show ?thesis by auto
qed

lemma entry_bytes_append: "entry_bytes (vs @ ws) = entry_bytes vs @ entry_bytes ws"
  by (simp add: entry_bytes_def)

lemma block_bytes_take_drop:
  "block_bytes hx vs = block_bytes hx (take n vs) @ concat (map (block_record hx) (view_blocks (length (view_entries (take n vs))) (drop n vs)))"
  using view_blocks_append [of 0 "take n vs" "drop n vs"] by (simp add: block_bytes_def)

lemma blocks_through_view: "blocks_through height (view_blocks pos vs) = length (takeWhile (\<lambda>v. fst v \<le> height) vs)"
  by (induction pos vs rule: view_blocks.induct) (auto simp: blocks_through_def)

lemma cut_entries_view:
  assumes v: "view_ok he hx vs" and e: "entries_bin d = Some (entry_bytes vs)"
  shows "cut_entries (view_blocks 0 (take n vs)) d = d \<lparr> entries_bin := Some (entry_bytes (take n vs)) \<rparr>"
proof -
  have "entry_bytes vs = entry_bytes (take n vs) @ entry_bytes (drop n vs)" by (simp flip: entry_bytes_append)
  then show ?thesis using entries_len [OF view_ok_take [OF v, of n]] by (simp add: cut_entries_def e)
qed

lemma cut_blocks_view:
  assumes v: "view_ok he hx vs" and n: "n \<le> length vs" and i: "blocks_bin d = Some (block_bytes hx vs)"
  shows "cut_blocks n d = d \<lparr> blocks_bin := Some (block_bytes hx (take n vs)) \<rparr>"
proof -
  have "length (block_bytes hx (take n vs)) = length INDEX_MAGIC + n * BLOCK_BYTES"
    using length_block_bytes [OF view_ok_take [OF v, of n], of 0] n by (simp add: block_bytes_def min_def del: length_concat)
  then show ?thesis using block_bytes_take_drop [of hx vs n] by (simp add: cut_blocks_def i)
qed

lemma spend_rewind_ok:
  assumes ok: "spend_journal_ok he hx (d, blocks) vs"
  shows "spend_journal_ok he hx (spend_rewind_to_height height (d, blocks))
      (case height of None \<Rightarrow> [] | Some height \<Rightarrow> takeWhile (\<lambda>v. fst v \<le> height) vs)
    \<and> synced (spend_rewind_to_height height (d, blocks))"
proof -
  let ?n = "spend_rewind_keep height blocks"
  have s: "view_ok he hx vs" "blocks = view_blocks 0 vs" "entries_bin d = Some (entry_bytes vs)" "blocks_bin d = Some (block_bytes hx vs)"
    using ok by (auto simp: spend_journal_ok_def)
  have view: "(case height of None \<Rightarrow> [] | Some height \<Rightarrow> takeWhile (\<lambda>v. fst v \<le> height) vs) = take ?n vs" and n: "?n \<le> length vs"
    by (auto simp: spend_rewind_keep_def s(2) blocks_through_view takeWhile_eq_take [symmetric] length_takeWhile_le split: option.splits)
  have "spend_rewind_to_height height (d, blocks) =
      (d \<lparr> entries_bin := Some (entry_bytes (take ?n vs)), blocks_bin := Some (block_bytes hx (take ?n vs)),
           checkpoint_file := Some (u64_le (of_nat ?n)) \<rparr>, view_blocks 0 (take ?n vs))"
    using cut_entries_view [OF s(1,3), of ?n] cut_blocks_view [OF s(1) n, of "d \<lparr> entries_bin := Some (entry_bytes (take ?n vs)) \<rparr>"] n s(4)
    by (simp add: spend_rewind_to_height_def spend_sync_def Let_def s(2) min_def flip: view_blocks_take)
  then show ?thesis
    unfolding view using view_ok_take [OF s(1), of ?n] n by (auto simp: spend_journal_ok_def view_blocks_take [symmetric] min_def)
qed

section \<open>Reading\<close>

lemma read_entries_file:
  assumes "entries_bin d = Some f" and "length f < 2 ^ 63" and "(first + count) * SPEND_ENTRY_BYTES \<le> length f"
  shows "read_entries (d, blocks) (of_nat first) count =
    mapR (\<lambda>encoded. ok_or (Invalid_Data ''malformed transparent-spend entry'') (se_from_bytes encoded))
      (take count (drop first (chunks_exact (first + count) SPEND_ENTRY_BYTES f)))"
proof -
  let ?B = SPEND_ENTRY_BYTES
  have le: "first * ?B + count * ?B \<le> length f" using assms(3) by (simp add: add_mult_distrib)
  then have "first * ?B < 2 ^ 64" using assms(2) by simp
  then have off: "unat (of_nat first * of_nat ?B :: u64) = first * ?B" using unat_of_nat_u64 [of "first * ?B"] by simp
  have "count * ?B < 2 ^ 63" using le assms(2) by linarith
  then have size: "(count * ?B) mod 2 ^ 64 = count * ?B" "\<not> 2 ^ 63 \<le> count * ?B" by simp_all
  have B: "0 < ?B" by (simp add: SPEND_ENTRY_BYTES_def)
  have "chunks_exact count ?B (take (count * ?B) (drop (first * ?B) f)) = take count (drop first (chunks_exact (first + count) ?B f))"
  proof (rule nth_equalityI)
    fix i assume "i < length (chunks_exact count ?B (take (count * ?B) (drop (first * ?B) f)))"
    then have i: "i < count" by simp
    then have "Suc i * ?B \<le> count * ?B" by (intro mult_le_mono1) simp
    then have "min ?B (count * ?B - i * ?B) = ?B" by simp
    then show "chunks_exact count ?B (take (count * ?B) (drop (first * ?B) f)) ! i = take count (drop first (chunks_exact (first + count) ?B f)) ! i"
      using i by (simp add: nth_chunks_exact drop_take distrib_left ac_simps)
  qed simp
  then show ?thesis
    using le size off B by (simp add: read_entries_def assms(1) Let_def)
qed

lemma read_entries_view:
  assumes ok: "spend_journal_ok he hx s vs" and "first + count \<le> length (view_entries vs)"
  shows "read_entries s (of_nat first) count = Inr (take count (drop first (view_entries vs)))"
proof -
  obtain d blocks where s: "s = (d, blocks)" by (cases s)
  let ?es = "view_entries vs" and ?B = SPEND_ENTRY_BYTES
  have v: "view_ok he hx vs" and f: "entries_bin d = Some (entry_bytes vs)" using ok by (auto simp: s spend_journal_ok_def)
  have es: "\<forall>e \<in> set ?es. se_ok e" using v by (auto simp: view_ok_def view_entries_def list_all_iff)
  have "take count (drop first (chunks_exact (first + count) ?B (entry_bytes vs))) = take count (drop first (map se_to_bytes ?es))"
  proof -
    have all: "chunks_exact (length ?es) ?B (entry_bytes vs) = map se_to_bytes ?es"
      using chunks_exact_concat [of "map se_to_bytes ?es" ?B] es by (simp add: entry_bytes_def length_se_to_bytes)
    have "chunks_exact (first + count) ?B (entry_bytes vs) = take (first + count) (map se_to_bytes ?es)"
      unfolding all [symmetric] using assms(2) by (intro nth_equalityI) (simp_all add: nth_chunks_exact)
    then show ?thesis by (simp add: drop_take)
  qed
  moreover have "mapR (\<lambda>encoded. ok_or (Invalid_Data ''malformed transparent-spend entry'') (se_from_bytes encoded))
      (take count (drop first (map se_to_bytes ?es))) = Inr (take count (drop first ?es))"
    using es by (auto simp: mapR_Inr_iff list_all2_conv_all_nth se_from_to_bytes)
  moreover have "length (entry_bytes vs) < 2 ^ 63" "(first + count) * ?B \<le> length (entry_bytes vs)"
    using v assms(2) by (simp_all add: length_entry_bytes [OF v] view_ok_def)
  ultimately show ?thesis using read_entries_file [OF f] by (simp add: s)
qed

section \<open>Properties\<close>

definition spend_extends :: "spend_disk \<Rightarrow> spend_disk \<Rightarrow> bool" where
  "spend_extends d d' \<longleftrightarrow> (\<exists>x y. d' = d \<lparr> entries_bin := map_option (\<lambda>f. f @ x) (entries_bin d), blocks_bin := map_option (\<lambda>f. f @ y) (blocks_bin d) \<rparr>)"

lemma extends_entries: "spend_extends d d' \<Longrightarrow> spend_extends d (append_entries es d')"
proof -
  assume "spend_extends d d'"
  then obtain x y where "d' = d \<lparr> entries_bin := map_option (\<lambda>f. f @ x) (entries_bin d), blocks_bin := map_option (\<lambda>f. f @ y) (blocks_bin d) \<rparr>"
    by (auto simp: spend_extends_def)
  then have "append_entries es d' = d \<lparr> entries_bin := map_option (\<lambda>f. f @ (x @ concat (map se_to_bytes es))) (entries_bin d),
      blocks_bin := map_option (\<lambda>f. f @ y) (blocks_bin d) \<rparr>"
    by (cases d) (simp add: append_entries_def option.map_comp comp_def)
  then show ?thesis unfolding spend_extends_def by blast
qed

lemma extends_index: "spend_extends d d' \<Longrightarrow> spend_extends d (append_index rec d')"
proof -
  assume "spend_extends d d'"
  then obtain x y where "d' = d \<lparr> entries_bin := map_option (\<lambda>f. f @ x) (entries_bin d), blocks_bin := map_option (\<lambda>f. f @ y) (blocks_bin d) \<rparr>"
    by (auto simp: spend_extends_def)
  then have "append_index rec d' = d \<lparr> entries_bin := map_option (\<lambda>f. f @ x) (entries_bin d),
      blocks_bin := map_option (\<lambda>f. f @ (y @ rec)) (blocks_bin d) \<rparr>"
    by (cases d) (simp add: append_index_def option.map_comp comp_def)
  then show ?thesis unfolding spend_extends_def by blast
qed

lemma append_extends: "spend_extends d (fst s) \<Longrightarrow> spend_extends d (fst (fst (spend_append_block hx height hash es s)))"
  by (cases s) (auto simp: spend_append_block_def Let_def extends_entries extends_index split: option.split)

text \<open>
  C39. The spend log survives a restart. Appending, successful or refused, only adds bytes behind the files of the last
  \<open>sync\<close>; and whatever bytes follow the committed ones in the entries or the index, complete records of later blocks or torn
  writes, opening restores exactly the files and the index of that \<open>sync\<close>, from which every committed entry reads back.
\<close>

theorem spend_restart:
  assumes ok: "spend_journal_ok hex_encode hex_decode (d, blocks) vs" and sync: "synced (d, blocks)"
  shows "(\<forall>height hash entries s. spend_extends d (fst s) \<longrightarrow> spend_extends d (fst (fst (spend_append_block hex_decode height hash entries s))))
    \<and> (\<forall>d'. spend_extends d d' \<longrightarrow> spend_open hex_encode d' = (d, Inr blocks))
    \<and> read_entries (d, blocks) 0 (unat (indexed_entries blocks)) = Inr (view_entries vs)"
proof -
  from ok have s: "view_ok hex_encode hex_decode vs" "blocks = view_blocks 0 vs" "entries_bin d = Some (entry_bytes vs)"
      "blocks_bin d = Some (block_bytes hex_decode vs)"
    by (auto simp: spend_journal_ok_def)
  have "spend_open hex_encode d' = (d, Inr blocks)" if ext: "spend_extends d d'" for d'
  proof -
    obtain x y where d': "d' = d \<lparr> entries_bin := Some (entry_bytes vs @ x), blocks_bin := Some (block_bytes hex_decode vs @ y) \<rparr>"
      using ext s by (auto simp: spend_extends_def)
    have "spend_open hex_encode d' = (d' \<lparr> entries_bin := Some (entry_bytes vs), blocks_bin := Some (block_bytes hex_decode vs) \<rparr>, Inr blocks)"
      using spend_open_resize [OF s(1), of d' "entry_bytes vs @ x" y] sync s(2) by (simp add: d')
    then show ?thesis using s by (cases d) (simp add: d')
  qed
  moreover have "length (view_entries vs) < 2 ^ 64" using s(1) by (simp add: view_ok_def SPEND_ENTRY_BYTES_def)
  then have "read_entries (d, blocks) 0 (unat (indexed_entries blocks)) = Inr (view_entries vs)"
    using read_entries_view [OF ok, of 0 "length (view_entries vs)"] by (simp add: s(2) unat_of_nat_u64)
  ultimately show ?thesis using append_extends by blast
qed

lemma spend_rewind_crash_index:
  assumes ok: "spend_journal_ok hex_encode hex_decode (d, blocks) vs" and sync: "synced (d, blocks)" and less: "n < length vs"
  shows "snd (spend_open hex_encode (cut_blocks n (cut_entries (take n blocks) d))) = Inl (Invalid_Data ''transparent-spend checkpoint exceeds block index'')"
proof -
  from ok have s: "view_ok hex_encode hex_decode vs" "blocks = view_blocks 0 vs" "entries_bin d = Some (entry_bytes vs)"
      "blocks_bin d = Some (block_bytes hex_decode vs)"
    by (auto simp: spend_journal_ok_def)
  have cp: "checkpoint_file d = Some (u64_le (of_nat (length vs)))" using sync by (simp add: s(2))
  have vn: "view_ok hex_encode hex_decode (take n vs)" by (rule view_ok_take [OF s(1)])
  have cut: "cut_entries (take n blocks) d = d \<lparr> entries_bin := Some (entry_bytes (take n vs)) \<rparr>"
    using cut_entries_view [OF s(1,3), of n] by (simp add: s(2) view_blocks_take)
  let ?d2 = "d \<lparr> entries_bin := Some (entry_bytes (take n vs)), blocks_bin := Some (block_bytes hex_decode (take n vs)) \<rparr>"
  have d2: "cut_blocks n (cut_entries (take n blocks) d) = ?d2"
    using cut_blocks_view [OF s(1), of n "d \<lparr> entries_bin := Some (entry_bytes (take n vs)) \<rparr>"] less s(4) by (simp add: cut)
  have files: "create_files ?d2 = ?d2" by (simp add: create_files_def cp)
  have w: "unat (of_nat (length vs) :: u64) = length vs" "le_val (le_bytes 8 (length vs)) = length vs"
    using s(1) by (simp_all add: view_ok_def le_val_le_bytes unat_of_nat_u64)
  have "length (block_bytes hex_decode (take n vs)) - length INDEX_MAGIC = n * BLOCK_BYTES"
    using length_block_bytes [OF vn, of 0] less by (simp add: block_bytes_def min_def del: length_concat)
  moreover have "take (length INDEX_MAGIC) (block_bytes hex_decode (take n vs)) = INDEX_MAGIC"
    "\<not> length (block_bytes hex_decode (take n vs)) < length INDEX_MAGIC"
    by (simp_all add: block_bytes_def)
  ultimately show ?thesis
    using less cp by (simp add: d2 spend_open_def Let_def files w BLOCK_BYTES_def)
qed

text \<open>
  A crash inside a rewind damages the log. Between the cut of the entries and the cut of the index, a restart opens the
  log with every block still in it, and fills the lost entries with zero bytes, which no longer read back; between the cut of the
  index and the new checkpoint, the log does not open at all.
\<close>

lemma spend_rewind_crash:
  assumes ok: "spend_journal_ok hex_encode hex_decode (d, blocks) vs" and sync: "synced (d, blocks)"
    and n: "n = spend_rewind_keep height blocks" and lost: "view_entries (drop n vs) \<noteq> []"
  shows "\<exists>d1. spend_open hex_encode (cut_entries (take n blocks) d) = (d1, Inr blocks)
      \<and> read_entries (d1, blocks) 0 (unat (indexed_entries blocks)) = Inl (Invalid_Data ''malformed transparent-spend entry'')
      \<and> snd (spend_open hex_encode (cut_blocks n (cut_entries (take n blocks) d)))
          = Inl (Invalid_Data ''transparent-spend checkpoint exceeds block index'')"
proof -
  from ok have s: "view_ok hex_encode hex_decode vs" "blocks = view_blocks 0 vs" "entries_bin d = Some (entry_bytes vs)"
      "blocks_bin d = Some (block_bytes hex_decode vs)"
    by (auto simp: spend_journal_ok_def)
  have cp: "checkpoint_file d = Some (u64_le (of_nat (length vs)))" using sync by (simp add: s(2))
  have less: "n < length vs" using lost by (cases "n < length vs") auto
  let ?k = "length (view_entries (take n vs))" and ?m = "length (view_entries vs)" and ?B = SPEND_ENTRY_BYTES
  have km: "?k < ?m"
    using lost arg_cong [OF view_entries_simps(3) [of "take n vs" "drop n vs"], of length] by simp
  have vn: "view_ok hex_encode hex_decode (take n vs)" by (rule view_ok_take [OF s(1)])
  have cut: "cut_entries (take n blocks) d = d \<lparr> entries_bin := Some (entry_bytes (take n vs)) \<rparr>"
    using cut_entries_view [OF s(1,3), of n] by (simp add: s(2) view_blocks_take)
  let ?f = "set_len (length (entry_bytes vs)) (entry_bytes (take n vs))"
  let ?d1 = "d \<lparr> entries_bin := Some ?f, blocks_bin := Some (block_bytes hex_decode vs) \<rparr>"
  have open1: "spend_open hex_encode (cut_entries (take n blocks) d) = (?d1, Inr blocks)"
    using spend_open_resize [OF s(1), of "d \<lparr> entries_bin := Some (entry_bytes (take n vs)) \<rparr>" "entry_bytes (take n vs)" "[]"] s(4) cp
    unfolding cut by (simp add: s(2))
  have lens: "length (entry_bytes (take n vs)) = ?k * ?B" "length (entry_bytes vs) = ?m * ?B"
    using length_entry_bytes [OF vn] length_entry_bytes [OF s(1)] by simp_all
  then have f: "?f = entry_bytes (take n vs) @ replicate ((?m - ?k) * ?B) 0" "length ?f = ?m * ?B"
    using km by (simp_all add: set_len_def diff_mult_distrib)
  have zero: "chunks_exact ?m ?B ?f ! ?k = replicate ?B 0"
  proof -
    have "1 * ?B \<le> (?m - ?k) * ?B" using km by (intro mult_le_mono1) linarith
    then show ?thesis using km lens(1) by (simp add: nth_chunks_exact f(1) min_def)
  qed
  have "read_entries (?d1, blocks) 0 ?m = Inl (Invalid_Data ''malformed transparent-spend entry'')"
  proof -
    let ?g = "\<lambda>encoded. ok_or (Invalid_Data ''malformed transparent-spend entry'') (se_from_bytes encoded)"
    have "?m * ?B < 2 ^ 63" using s(1) by (simp add: view_ok_def)
    then have "read_entries (?d1, blocks) 0 ?m = mapR ?g (chunks_exact ?m ?B ?f)"
      using read_entries_file [of ?d1 ?f 0 ?m blocks] f(2) by simp
    moreover have "se_from_bytes (chunks_exact ?m ?B ?f ! ?k) = None"
      unfolding zero by (simp add: se_from_bytes_def entry_offsets)
    then have "mapR ?g (chunks_exact ?m ?B ?f) \<noteq> Inr es" for es
      using km by (auto simp: mapR_Inr_iff list_all2_conv_all_nth intro!: exI [of _ ?k])
    ultimately show ?thesis
      by (cases "mapR ?g (chunks_exact ?m ?B ?f)") (auto dest!: mapR_Inl simp: ok_or_def split: option.splits)
  qed
  moreover have "?m < 2 ^ 64" using s(1) by (simp add: view_ok_def SPEND_ENTRY_BYTES_def)
  then have "unat (indexed_entries blocks) = ?m" by (simp add: s(2) unat_of_nat_u64)
  ultimately show ?thesis using open1 spend_rewind_crash_index [OF ok sync less] by auto
qed

section \<open>Witnesses\<close>

definition sample_hex_encode :: "bytes \<Rightarrow> string" where "sample_hex_encode bs = map (\<lambda>b. if b = 0x61 then CHR ''a'' else CHR ''0'') bs"
definition sample_hex_decode :: "string \<Rightarrow> bytes option" where "sample_hex_decode s = Some (map of_char s)"

definition sample_hash :: string where "sample_hash = replicate 32 (CHR ''a'')"

definition sample_entry :: spend_entry where
  "sample_entry = \<lparr> se_outpoint_txid = replicate 32 1, se_outpoint_index = 3, se_spending_txid = replicate 32 2,
     se_spend_height = 42, se_transaction_index = 7 \<rparr>"

definition sample_view :: spend_view where "sample_view = [(42, sample_hash, [sample_entry])]"

definition sample_log :: spend_journal where
  "sample_log = spend_sync (fst (spend_append_block sample_hex_decode 42 sample_hash [sample_entry]
     (create_files \<lparr> entries_bin = None, blocks_bin = None, checkpoint_file = None \<rparr>, [])))"

lemma sample_log_ok: "spend_journal_ok sample_hex_encode sample_hex_decode sample_log sample_view" "synced sample_log"
proof -
  let ?s = "(create_files \<lparr> entries_bin = None, blocks_bin = None, checkpoint_file = None \<rparr>, [])"
  have 0: "spend_journal_ok sample_hex_encode sample_hex_decode ?s []"
    by (simp add: spend_journal_ok_def view_ok_def create_files_def entry_bytes_def block_bytes_def)
  have h: "hex_hash_ok sample_hex_encode sample_hex_decode sample_hash"
    by (simp add: hex_hash_ok_def sample_hex_encode_def sample_hex_decode_def sample_hash_def)
  have e: "list_all se_ok [sample_entry]" by (simp add: se_ok_def sample_entry_def)
  obtain s' where s': "spend_append_block sample_hex_decode 42 sample_hash [sample_entry] ?s = (s', Inr ())"
      "spend_journal_ok sample_hex_encode sample_hex_decode s' sample_view"
    using spend_append_ok [OF 0 h e, of 42] by (auto simp: SPEND_ENTRY_BYTES_def sample_view_def)
  then show "spend_journal_ok sample_hex_encode sample_hex_decode sample_log sample_view" "synced sample_log"
    by (cases s'; auto simp: sample_log_def spend_sync_def spend_journal_ok_def intro: exI [of _ "length sample_view"])+
qed

theorem spend_restart_witness:
  "spend_open sample_hex_encode ((fst sample_log) \<lparr> entries_bin := map_option (\<lambda>f. f @ [7, 7]) (entries_bin (fst sample_log)) \<rparr>)
     = (fst sample_log, Inr (snd sample_log))
   \<and> read_entries sample_log 0 1 = Inr [sample_entry]"
proof -
  obtain d blocks where s: "sample_log = (d, blocks)" by (cases sample_log)
  have ok: "spend_journal_ok sample_hex_encode sample_hex_decode (d, blocks) sample_view" "synced (d, blocks)"
    using sample_log_ok by (simp_all add: s)
  have ext: "spend_extends d (d \<lparr> entries_bin := map_option (\<lambda>f. f @ [7, 7]) (entries_bin d) \<rparr>)"
    unfolding spend_extends_def by (rule exI [of _ "[7, 7]"], rule exI [of _ "[]"]) (cases d; simp add: option.map_ident)
  have "unat (indexed_entries blocks) = 1"
    using ok(1) by (simp add: spend_journal_ok_def sample_view_def indexed_entries_def last_block_def)
  then show ?thesis
    using spend_restart [OF ok] ext by (simp add: s sample_view_def)
qed

end
