(* ===== verification/Pir_Wire.thy ===== *)
theory Pir_Wire
  imports Pir_Types
begin

text \<open>
  The binary messages between coordinator and workers, \<open>server/enhance-pir-server/src/wire.rs\<close>: evaluation
  requests and responses, and the blocks of the common reference string (\<open>CrsBlock\<close> of \<open>ipir_sp\<close> is
  its rows). The \<open>Input\<close> cursor is an instance of the byte-cursor interface, so each decoder is shown to
  accept exactly the encodings of well-formed messages.
\<close>

section \<open>Messages\<close>

definition EVAL_REQUEST_MAGIC :: bytes where "EVAL_REQUEST_MAGIC = str_bytes ''MPQ1''"
definition EVAL_RESPONSE_MAGIC :: bytes where "EVAL_RESPONSE_MAGIC = str_bytes ''MPR1''"
definition HINT_MAGIC :: bytes where "HINT_MAGIC = str_bytes ''MPH1''"
definition MAX_SHARDS_PER_WORKER :: nat where "MAX_SHARDS_PER_WORKER = 4096"

datatype wire_error = Malformed string

record shard_query =
  sq_shard_id :: u64
  sq_coefficients :: "u64 list"

record evaluate_request =
  er_generation :: u64
  er_shards :: "shard_query list"

type_synonym crs_block = "u64 list list"

definition encode_shard_query :: "shard_query \<Rightarrow> bytes" where
  "encode_shard_query q =
     u64_le (sq_shard_id q) @ u32_le (of_nat (length (sq_coefficients q))) @ concat (map u64_le (sq_coefficients q))"

definition encode_evaluate_request :: "evaluate_request \<Rightarrow> bytes" where
  "encode_evaluate_request r =
     EVAL_REQUEST_MAGIC @ u64_le (er_generation r) @ u32_le (of_nat (length (er_shards r)))
     @ concat (map encode_shard_query (er_shards r))"

definition encode_evaluate_response :: "u64 \<Rightarrow> u64 list \<Rightarrow> bytes" where
  "encode_evaluate_response generation coefficients =
     EVAL_RESPONSE_MAGIC @ u64_le generation @ u32_le (of_nat (length coefficients)) @ concat (map u64_le coefficients)"

definition encode_crs_row :: "u64 list \<Rightarrow> bytes" where
  "encode_crs_row row = u32_le (of_nat (length row)) @ concat (map u64_le row)"

definition encode_crs_block :: "crs_block \<Rightarrow> bytes" where
  "encode_crs_block rows = u32_le (of_nat (length rows)) @ concat (map encode_crs_row rows)"

definition encode_crs_blocks :: "crs_block list \<Rightarrow> bytes" where
  "encode_crs_blocks blocks =
     HINT_MAGIC @ u32_le (of_nat (length blocks)) @ concat (map encode_crs_block blocks)"

section \<open>The input cursor\<close>

record wire_input =
  wi_bytes :: bytes
  wi_position :: nat

definition wi_new :: "bytes \<Rightarrow> wire_input" where
  "wi_new bs = \<lparr> wi_bytes = bs, wi_position = 0 \<rparr>"

definition wi_take :: "nat \<Rightarrow> (wire_input, wire_error, bytes) step" where
  "wi_take count s =
     (let stop = wi_position s + count in
      if stop \<ge> 2 ^ 64 then Inl (Malformed ''offset overflow'')
      else if stop > length (wi_bytes s) then Inl (Malformed ''truncated message'')
      else Inr (take count (drop (wi_position s) (wi_bytes s)), s \<lparr> wi_position := stop \<rparr>))"

definition expect_magic :: "bytes \<Rightarrow> (wire_input, wire_error, unit) step" where
  "expect_magic expected = sbind (wi_take 4) (\<lambda>b. sguard (b = expected) (Malformed ''wrong message magic''))"

definition wi_u32 :: "(wire_input, wire_error, u32) step" where
  "wi_u32 = sbind (wi_take 4) (\<lambda>b. sreturn (of_nat (le_val b)))"

definition wi_u64 :: "(wire_input, wire_error, u64) step" where
  "wi_u64 = sbind (wi_take 8) (\<lambda>b. sreturn (of_nat (le_val b)))"

definition wi_finished :: "wire_input \<Rightarrow> bool" where
  "wi_finished s \<longleftrightarrow> wi_position s = length (wi_bytes s)"

definition wi_finish :: "'a \<Rightarrow> (wire_input, wire_error, 'a) step" where
  "wi_finish x = (\<lambda>s. if wi_finished s then sreturn x s else Inl (Malformed ''trailing message bytes''))"

section \<open>Decoding\<close>

text \<open>\<open>count.checked_mul(8)\<close> and then the bytes of \<open>count\<close> words.\<close>

definition wi_words :: "nat \<Rightarrow> string \<Rightarrow> (wire_input, wire_error, u64 list) step" where
  "wi_words count overflow =
     sbind (sguard (count * 8 < 2 ^ 64) (Malformed overflow)) (\<lambda>_.
     sbind (wi_take (count * 8)) (\<lambda>raw. sreturn (u64s_of raw)))"

definition decode_shard_query :: "(wire_input, wire_error, shard_query) step" where
  "decode_shard_query =
     sbind wi_u64 (\<lambda>shard_id.
     sbind wi_u32 (\<lambda>coefficient_count.
     sbind (wi_words (unat coefficient_count) ''coefficient length overflow'') (\<lambda>coefficients.
     sreturn \<lparr> sq_shard_id = shard_id, sq_coefficients = coefficients \<rparr>)))"

definition run_input :: "(wire_input, wire_error, 'a) step \<Rightarrow> bytes \<Rightarrow> wire_error + 'a" where
  "run_input p bs = bindR (p (wi_new bs)) (\<lambda>(x, _). Inr x)"

definition decode_evaluate_request :: "bytes \<Rightarrow> wire_error + evaluate_request" where
  "decode_evaluate_request = run_input
     (sbind (expect_magic EVAL_REQUEST_MAGIC) (\<lambda>_.
      sbind wi_u64 (\<lambda>generation.
      sbind wi_u32 (\<lambda>shard_count.
      sbind (sguard (\<not> (unat shard_count = 0 \<or> unat shard_count > MAX_SHARDS_PER_WORKER)) (Malformed ''invalid shard count'')) (\<lambda>_.
      sbind (srepeat (unat shard_count) decode_shard_query) (\<lambda>shards.
      wi_finish \<lparr> er_generation = generation, er_shards = shards \<rparr>))))))"

definition decode_evaluate_response :: "bytes \<Rightarrow> wire_error + (u64 \<times> u64 list)" where
  "decode_evaluate_response = run_input
     (sbind (expect_magic EVAL_RESPONSE_MAGIC) (\<lambda>_.
      sbind wi_u64 (\<lambda>generation.
      sbind wi_u32 (\<lambda>count.
      sbind (wi_words (unat count) ''response length overflow'') (\<lambda>coefficients.
      wi_finish (generation, coefficients))))))"

definition decode_crs_row :: "nat \<Rightarrow> (wire_input, wire_error, u64 list) step" where
  "decode_crs_row degree =
     sbind wi_u32 (\<lambda>n.
     sbind (sguard (unat n = degree) (Malformed ''unexpected CRS coefficient count'')) (\<lambda>_.
     wi_words degree ''CRS coefficient length overflow''))"

definition decode_crs_block :: "nat \<Rightarrow> (wire_input, wire_error, crs_block) step" where
  "decode_crs_block degree =
     sbind wi_u32 (\<lambda>n.
     sbind (sguard (unat n = degree) (Malformed ''unexpected CRS row count'')) (\<lambda>_.
     srepeat degree (decode_crs_row degree)))"

definition decode_crs_blocks :: "bytes \<Rightarrow> nat \<Rightarrow> nat \<Rightarrow> wire_error + crs_block list" where
  "decode_crs_blocks bs expected_blocks degree = run_input
     (sbind (expect_magic HINT_MAGIC) (\<lambda>_.
      sbind wi_u32 (\<lambda>blocks.
      sbind (sguard (unat blocks = expected_blocks) (Malformed ''unexpected CRS block count'')) (\<lambda>_.
      sbind (srepeat (unat blocks) (decode_crs_block degree)) (\<lambda>output.
      wi_finish output))))) bs"

section \<open>The cursor implements the byte-cursor interface\<close>

definition input_ok :: "wire_input \<Rightarrow> bool" where
  "input_ok s \<longleftrightarrow> wi_position s \<le> length (wi_bytes s) \<and> length (wi_bytes s) < 2 ^ 64"

definition wi_rest :: "wire_input \<Rightarrow> bytes" where
  "wi_rest s = drop (wi_position s) (wi_bytes s)"

lemma wi_finished_iff: "input_ok s \<Longrightarrow> wi_finished s \<longleftrightarrow> wi_rest s = []"
  by (auto simp: wi_finished_def wi_rest_def input_ok_def)

interpretation wi: byte_cursor input_ok wi_rest wi_take
proof
  fix s n bs s'
  assume "input_ok s" and t: "wi_take n s = Inr (bs, s')"
  then show "input_ok s' \<and> length bs = n \<and> wi_rest s = bs @ wi_rest s'"
    by (auto simp: wi_take_def input_ok_def wi_rest_def Let_def split: if_splits)
       (metis add.commute append_take_drop_id drop_drop)
next
  fix s bs r n
  assume s: "input_ok s" "wi_rest s = bs @ r" "length bs = n"
  have "length (wi_rest s) = n + length r" using s by simp
  then have "wi_position s + n \<le> length (wi_bytes s)"
    using s(1) unfolding wi_rest_def input_ok_def length_drop by linarith
  with s show "\<exists>s'. wi_take n s = Inr (bs, s') \<and> wi_rest s' = r \<and> input_ok s'"
    by (intro exI [of _ "s \<lparr> wi_position := wi_position s + n \<rparr>"])
       (auto simp: wi_take_def input_ok_def wi_rest_def Let_def add.commute simp flip: drop_drop)
qed

abbreviation wreads :: "(wire_input, wire_error, 'a) step \<Rightarrow> ('a \<Rightarrow> bytes \<Rightarrow> bool) \<Rightarrow> bool" where
  "wreads \<equiv> reads input_ok wi_rest"

abbreviation wreads_end :: "(wire_input, wire_error, 'a) step \<Rightarrow> ('a \<Rightarrow> bytes \<Rightarrow> bool) \<Rightarrow> bool" where
  "wreads_end \<equiv> reads_end input_ok wi_rest"

lemma wreads_u32: "wreads wi_u32 (\<lambda>v bs. bs = u32_le v)"
  unfolding wi_u32_def
  by (rule reads_cong [OF wi.reads_take_map]) (auto simp: unat_of_le_val32 le_bytes_inverse)

lemma wreads_u64: "wreads wi_u64 (\<lambda>v bs. bs = u64_le v)"
  unfolding wi_u64_def
  by (rule reads_cong [OF wi.reads_take_map]) (auto simp: unat_of_le_val64 le_bytes_inverse)

lemma wreads_magic: "length m = 4 \<Longrightarrow> wreads (expect_magic m) (\<lambda>_ bs. bs = m)"
  unfolding expect_magic_def
  by (rule reads_cong [OF reads_bind [OF wi.reads_take reads_guard]]) auto

lemma wreads_words: "wreads (wi_words n e) (\<lambda>v bs. n * 8 < 2 ^ 64 \<and> length v = n \<and> bs = u64s_le v)"
  unfolding wi_words_def
  by (rule reads_cong [OF reads_bind [OF reads_guard wi.reads_take_map]])
     (use u64s_of_iff [of _ n] in \<open>auto simp: mult.commute\<close>)

lemma wreads_finish: "wreads_end (wi_finish x) (\<lambda>v bs. v = x \<and> bs = [])"
  unfolding wi_finish_def by (rule reads_end_return) (rule wi_finished_iff)

lemma run_input_iff:
  assumes "wreads_end p R" and "length bs < 2 ^ 64"
  shows "run_input p bs = Inr v \<longleftrightarrow> R v bs"
proof -
  have ok: "input_ok (wi_new bs)" "wi_rest (wi_new bs) = bs"
    using assms(2) by (simp_all add: input_ok_def wi_rest_def wi_new_def)
  show ?thesis
    using reads_end_iff [OF assms(1) ok(1), of v] ok(2)
    by (auto simp: run_input_def bindR_Inr_iff)
qed

text \<open>
  A 32-bit count in front of what it counts: some count fits the length exactly when the length fits in
  32 bits, and then it is the length.
\<close>

lemma count_iff:
  "(\<exists>n :: u32. \<exists>as cs. as = u32_le n \<and> S (unat n) cs \<and> bs = as @ cs) \<longleftrightarrow> (\<exists>k cs. k < 2 ^ 32 \<and> S k cs \<and> bs = u32_le (of_nat k) @ cs)"
  (is "?l \<longleftrightarrow> ?r")
proof
  assume ?l
  then obtain n :: u32 and cs where "S (unat n) cs" "bs = u32_le n @ cs" by blast
  then show ?r by (intro exI [of _ "unat n"] exI [of _ cs]) (simp add: unat_u32_lt [simplified])
next
  assume ?r
  then obtain k cs where k: "k < 2 ^ 32" "S k cs" "bs = u32_le (of_nat k) @ cs" by blast
  then have "unat (of_nat k :: u32) = k" by (simp add: unat_of_nat_small)
  then show ?l using k by (intro exI [of _ "of_nat k"]) simp
qed

lemma wreads_count:
  assumes "\<And>k. wreads (p k) (S k)"
  shows "wreads (sbind wi_u32 (\<lambda>n. p (unat n))) (\<lambda>v bs. \<exists>k cs. k < 2 ^ 32 \<and> S k v cs \<and> bs = u32_le (of_nat k) @ cs)"
  by (rule reads_cong [OF reads_bind [OF wreads_u32 assms]]) (rule count_iff)

lemma wreads_end_count:
  assumes "\<And>k. wreads_end (p k) (S k)"
  shows "wreads_end (sbind wi_u32 (\<lambda>n. p (unat n))) (\<lambda>v bs. \<exists>k cs. k < 2 ^ 32 \<and> S k v cs \<and> bs = u32_le (of_nat k) @ cs)"
  by (rule reads_end_cong [OF reads_end_bind [OF wreads_u32 assms]]) (rule count_iff)

lemma magic_length [simp]: "length EVAL_REQUEST_MAGIC = 4" "length EVAL_RESPONSE_MAGIC = 4" "length HINT_MAGIC = 4"
  by (simp_all add: EVAL_REQUEST_MAGIC_def EVAL_RESPONSE_MAGIC_def HINT_MAGIC_def str_bytes_def)

lemmas encode_words = u64s_le_def [symmetric]

section \<open>Decoders accept exactly the encodings\<close>

definition query_ok :: "shard_query \<Rightarrow> bool" where
  "query_ok q \<longleftrightarrow> length (sq_coefficients q) < 2 ^ 32"

lemma wreads_query: "wreads decode_shard_query (\<lambda>q bs. query_ok q \<and> bs = encode_shard_query q)"
proof -
  have words: "wreads (sbind (wi_words k e) (\<lambda>cs. sreturn \<lparr> sq_shard_id = i, sq_coefficients = cs \<rparr>))
      (\<lambda>v bs. k * 8 < 2 ^ 64 \<and> length (sq_coefficients v) = k \<and> sq_shard_id v = i \<and> bs = u64s_le (sq_coefficients v))"
    for k e i by (rule reads_cong [OF reads_bind [OF wreads_words reads_return]]) auto
  show ?thesis
    unfolding decode_shard_query_def
    by (rule reads_cong [OF reads_bind [OF wreads_u64 wreads_count [OF words]]])
       (auto simp: query_ok_def encode_shard_query_def encode_words)
qed

definition request_ok :: "evaluate_request \<Rightarrow> bool" where
  "request_ok r \<longleftrightarrow> 0 < length (er_shards r) \<and> length (er_shards r) \<le> 4096 \<and> (\<forall>q \<in> set (er_shards r). query_ok q)"

lemma decode_request_iff:
  assumes "length bs < 2 ^ 64"
  shows "decode_evaluate_request bs = Inr r \<longleftrightarrow> request_ok r \<and> bs = encode_evaluate_request r"
proof -
  have tail: "wreads_end (sbind (sguard (\<not> (k = 0 \<or> k > MAX_SHARDS_PER_WORKER)) e) (\<lambda>_.
        sbind (srepeat k decode_shard_query) (\<lambda>shards. wi_finish \<lparr> er_generation = g, er_shards = shards \<rparr>)))
      (\<lambda>v bs. 0 < k \<and> k \<le> 4096 \<and> er_generation v = g \<and> length (er_shards v) = k \<and> (\<forall>q \<in> set (er_shards v). query_ok q)
         \<and> bs = concat (map encode_shard_query (er_shards v)))" for k e g
    by (rule reads_end_cong [OF reads_end_bind [OF reads_guard reads_end_bind [OF reads_repeat [OF wreads_query] wreads_finish]]])
       (auto simp: MAX_SHARDS_PER_WORKER_def)
  note end_reads = reads_end_bind [OF wreads_magic [OF magic_length(1)] reads_end_bind [OF wreads_u64 wreads_end_count [OF tail]]]
  show ?thesis
    unfolding decode_evaluate_request_def
    by (subst run_input_iff [OF end_reads assms]) (auto simp: request_ok_def encode_evaluate_request_def)
qed

lemma decode_response_iff:
  assumes "length bs < 2 ^ 64"
  shows "decode_evaluate_response bs = Inr (g, cs) \<longleftrightarrow> length cs < 2 ^ 32 \<and> bs = encode_evaluate_response g cs"
proof -
  have tail: "wreads_end (sbind (wi_words k e) (\<lambda>cs. wi_finish (g, cs)))
      (\<lambda>v bs. k * 8 < 2 ^ 64 \<and> length (snd v) = k \<and> fst v = g \<and> bs = u64s_le (snd v))" for k e g
    by (rule reads_end_cong [OF reads_end_bind [OF wreads_words wreads_finish]]) auto
  note end_reads = reads_end_bind [OF wreads_magic [OF magic_length(2)] reads_end_bind [OF wreads_u64 wreads_end_count [OF tail]]]
  show ?thesis
    unfolding decode_evaluate_response_def
    by (subst run_input_iff [OF end_reads assms]) (auto simp: encode_evaluate_response_def encode_words)
qed

lemma wreads_crs_row:
  "wreads (decode_crs_row d) (\<lambda>row bs. (length row = d \<and> d < 2 ^ 32) \<and> bs = encode_crs_row row)"
proof -
  have tail: "wreads (sbind (sguard (k = d) e) (\<lambda>_. wi_words d e'))
      (\<lambda>v bs. k = d \<and> d * 8 < 2 ^ 64 \<and> length v = d \<and> bs = u64s_le v)" for k e e'
    by (rule reads_cong [OF reads_bind [OF reads_guard wreads_words]]) auto
  show ?thesis
    unfolding decode_crs_row_def
    by (rule reads_cong [OF wreads_count [OF tail]]) (auto simp: encode_crs_row_def encode_words)
qed

definition block_ok :: "nat \<Rightarrow> crs_block \<Rightarrow> bool" where
  "block_ok d block \<longleftrightarrow> d < 2 ^ 32 \<and> length block = d \<and> (\<forall>row \<in> set block. length row = d)"

lemma wreads_crs_block: "wreads (decode_crs_block d) (\<lambda>block bs. block_ok d block \<and> bs = encode_crs_block block)"
proof -
  have tail: "wreads (sbind (sguard (k = d) e) (\<lambda>_. srepeat d (decode_crs_row d)))
      (\<lambda>v bs. k = d \<and> length v = d \<and> (\<forall>row \<in> set v. length row = d \<and> d < 2 ^ 32) \<and> bs = concat (map encode_crs_row v))" for k e
    by (rule reads_cong [OF reads_bind [OF reads_guard reads_repeat [OF wreads_crs_row]]]) auto
  show ?thesis
    unfolding decode_crs_block_def
    by (rule reads_cong [OF wreads_count [OF tail]]) (auto simp: encode_crs_block_def block_ok_def)
qed

lemma decode_crs_iff:
  assumes "length bs < 2 ^ 64"
  shows "decode_crs_blocks bs n d = Inr blocks
     \<longleftrightarrow> n < 2 ^ 32 \<and> length blocks = n \<and> (\<forall>b \<in> set blocks. block_ok d b) \<and> bs = encode_crs_blocks blocks"
proof -
  have tail: "wreads_end (sbind (sguard (k = n) e) (\<lambda>_. sbind (srepeat k (decode_crs_block d)) (\<lambda>output. wi_finish output)))
      (\<lambda>v bs. k = n \<and> length v = n \<and> (\<forall>b \<in> set v. block_ok d b) \<and> bs = concat (map encode_crs_block v))" for k e
    by (rule reads_end_cong [OF reads_end_bind [OF reads_guard reads_end_bind [OF reads_repeat [OF wreads_crs_block] wreads_finish]]]) auto
  note end_reads = reads_end_bind [OF wreads_magic [OF magic_length(3)] wreads_end_count [OF tail]]
  show ?thesis
    unfolding decode_crs_blocks_def
    by (subst run_input_iff [OF end_reads assms]) (auto simp: encode_crs_blocks_def)
qed

section \<open>Properties\<close>

text \<open>
  C23. The evaluation request a worker decodes is the one the coordinator encoded: on any message of less than \<open>2 ^ 64\<close>
  bytes \<open>decode_evaluate_request\<close> succeeds with a request exactly when the bytes are the encoding of that request,
  it names between 1 and 4096 shards and every shard has fewer than \<open>2 ^ 32\<close> coefficients. So a
  truncated, extended, empty or oversized request is rejected and the length checks never overflow.
\<close>

theorem evaluate_request_exact:
  assumes "length bs < 2 ^ 64"
  shows "decode_evaluate_request bs = Inr r \<longleftrightarrow>
     bs = encode_evaluate_request r \<and> er_shards r \<noteq> [] \<and> length (er_shards r) \<le> 4096
     \<and> (\<forall>q \<in> set (er_shards r). length (sq_coefficients q) < 2 ^ 32)"
  unfolding decode_request_iff [OF assms] by (auto simp: request_ok_def query_ok_def)

theorem evaluate_request_exact_witness:
  "decode_evaluate_request (encode_evaluate_request
      \<lparr> er_generation = 7, er_shards = [\<lparr> sq_shard_id = 3, sq_coefficients = [1, 2 ^ 63] \<rparr>] \<rparr>)
    = Inr \<lparr> er_generation = 7, er_shards = [\<lparr> sq_shard_id = 3, sq_coefficients = [1, 2 ^ 63] \<rparr>] \<rparr>"
proof -
  let ?r = "\<lparr> er_generation = 7, er_shards = [\<lparr> sq_shard_id = 3, sq_coefficients = [1, 2 ^ 63] \<rparr>] \<rparr>"
  have "length (encode_evaluate_request ?r) < 2 ^ 64"
    by (simp add: encode_evaluate_request_def encode_shard_query_def)
  from evaluate_request_exact [OF this, of ?r] show ?thesis by simp
qed

text \<open>
  The common-reference-string blocks a worker sends are received unchanged and in full or not at all: decoding
  succeeds exactly on the encoding of the expected number of square blocks of the expected degree, and returns
  those blocks.
\<close>

lemma crs_blocks_exact:
  assumes "length bs < 2 ^ 64"
  shows "decode_crs_blocks bs n d = Inr blocks \<longleftrightarrow>
     bs = encode_crs_blocks blocks \<and> length blocks = n \<and> n < 2 ^ 32
     \<and> (\<forall>block \<in> set blocks. d < 2 ^ 32 \<and> length block = d \<and> (\<forall>row \<in> set block. length row = d))"
  unfolding decode_crs_iff [OF assms] by (auto simp: block_ok_def)

end
