(* ===== verification/Pir_Journal.thy ===== *)
theory Pir_Journal
  imports Pir_Types
begin

text \<open>
  The append-only record journal, \<open>server/enhance-pir-server/src/store.rs\<close>, and the Enhance journal over it,
  \<open>ingest.rs\<close>. \<open>journal_disk\<close> is the directory: the content of \<open>records.bin\<close> and \<open>manifest.json\<close>, the
  latter missing, unreadable, or a parsed manifest. The manifest is replaced by an atomic rename, so a
  crash leaves the old one or the new one; the records file may keep any prefix of an interrupted write.
\<close>

section \<open>State\<close>

definition JOURNAL_VERSION :: u16 where "JOURNAL_VERSION = 5"

datatype journal_error = Journal_Io string | Journal_Manifest | Journal_Invariant string

record block_entry =
  bl_height :: u64
  bl_hash :: string
  bl_first_position :: u64
  bl_action_count :: u64

record store_manifest =
  mf_version :: u16
  mf_table :: string
  mf_tree_size :: u64
  mf_blocks :: "block_entry list"

record record_journal =
  rj_name :: string
  rj_table :: "database_id option"
  rj_layout :: database_layout
  rj_manifest :: store_manifest

datatype manifest_file = Manifest_Missing | Manifest_Unreadable | Manifest_Found store_manifest

record journal_disk =
  records_bin :: "bytes option"
  manifest_json :: manifest_file

type_synonym journal = "journal_disk \<times> record_journal"

abbreviation rj_tree_size :: "record_journal \<Rightarrow> u64" where
  "rj_tree_size j \<equiv> mf_tree_size (rj_manifest j)"

abbreviation rj_blocks :: "record_journal \<Rightarrow> block_entry list" where
  "rj_blocks j \<equiv> mf_blocks (rj_manifest j)"

definition persist_manifest :: "journal \<Rightarrow> journal" where
  "persist_manifest = (\<lambda>(d, j). (d \<lparr> manifest_json := Manifest_Found (rj_manifest j) \<rparr>, j))"

section \<open>Opening\<close>

definition fresh_manifest :: "string \<Rightarrow> store_manifest" where
  "fresh_manifest name = \<lparr> mf_version = JOURNAL_VERSION, mf_table = name, mf_tree_size = 0, mf_blocks = [] \<rparr>"

text \<open>An incompatible journal is moved to a directory nothing reads again.\<close>

definition load_manifest :: "string \<Rightarrow> journal_disk \<Rightarrow> journal_disk \<times> (journal_error + store_manifest)" where
  "load_manifest name d =
     (case manifest_json d of
        Manifest_Missing \<Rightarrow> (d, Inr (fresh_manifest name))
      | Manifest_Unreadable \<Rightarrow> (d, Inl Journal_Manifest)
      | Manifest_Found parsed \<Rightarrow>
        if mf_version parsed \<noteq> JOURNAL_VERSION \<or> mf_table parsed \<noteq> name then
          (if records_bin d = None then (d, Inl (Journal_Io ''no such file''))
           else (d \<lparr> records_bin := None, manifest_json := Manifest_Missing \<rparr>, Inr (fresh_manifest name)))
        else (d, Inr parsed))"

definition open_records ::
  "string \<Rightarrow> database_id option \<Rightarrow> database_layout \<Rightarrow> store_manifest \<Rightarrow> journal_disk \<Rightarrow> journal_disk \<times> (journal_error + record_journal)" where
  "open_records name table layout manifest d =
     (case checked_mul (mf_tree_size manifest) (of_nat (dl_record_bytes layout)) of
        None \<Rightarrow> (d, Inl (Journal_Invariant ''record length overflow''))
      | Some expected_len \<Rightarrow>
        let records = (case records_bin d of None \<Rightarrow> [] | Some bs \<Rightarrow> bs);
            d = d \<lparr> records_bin := Some records \<rparr> in
        if length records < unat expected_len
        then (d, Inl (Journal_Invariant ''records file is shorter than committed manifest''))
        else
          let d = d \<lparr> records_bin := Some (set_len (unat expected_len) records) \<rparr>;
              j = \<lparr> rj_name = name, rj_table = table, rj_layout = layout, rj_manifest = manifest \<rparr>;
              d = (if manifest_json d = Manifest_Missing then fst (persist_manifest (d, j)) else d)
          in (d, Inr j))"

definition open_inner ::
  "string \<Rightarrow> database_id option \<Rightarrow> database_layout \<Rightarrow> journal_disk \<Rightarrow> journal_disk \<times> (journal_error + record_journal)" where
  "open_inner name table layout d =
     (case load_manifest name d of
        (d, Inl e) \<Rightarrow> (d, Inl e)
      | (d, Inr manifest) \<Rightarrow> open_records name table layout manifest d)"

definition journal_open :: "database_id \<Rightarrow> database_layout \<Rightarrow> journal_disk \<Rightarrow> journal_disk \<times> (journal_error + record_journal)" where
  "journal_open table layout = open_inner (db_as_str table) (Some table) layout"

definition journal_open_log :: "string \<Rightarrow> database_layout \<Rightarrow> journal_disk \<Rightarrow> journal_disk \<times> (journal_error + record_journal)" where
  "journal_open_log name layout = open_inner name None layout"

section \<open>Updates\<close>

definition rj_last_block :: "record_journal \<Rightarrow> block_entry option" where
  "rj_last_block j = (if rj_blocks j = [] then None else Some (last (rj_blocks j)))"

text \<open>\<open>partition_point\<close> on the blocks, which are in height order.\<close>

definition rewind_keep :: "u64 option \<Rightarrow> record_journal \<Rightarrow> nat" where
  "rewind_keep height j =
     (case height of None \<Rightarrow> 0 | Some height \<Rightarrow> length (takeWhile (\<lambda>b. bl_height b \<le> height) (rj_blocks j)))"

definition rewind_tree_size :: "nat \<Rightarrow> record_journal \<Rightarrow> u64" where
  "rewind_tree_size keep j =
     (if keep < length (rj_blocks j) then bl_first_position (rj_blocks j ! keep)
      else case rj_last_block j of
        None \<Rightarrow> 0
      | Some b \<Rightarrow> if keep = length (rj_blocks j) then bl_first_position b + bl_action_count b else 0)"

definition truncate_records :: "u64 \<Rightarrow> journal \<Rightarrow> journal" where
  "truncate_records tree_size = (\<lambda>(d, j).
     (d \<lparr> records_bin := map_option (set_len (unat (tree_size * of_nat (dl_record_bytes (rj_layout j))))) (records_bin d) \<rparr>, j))"

definition rewind_to_height :: "u64 option \<Rightarrow> journal \<Rightarrow> journal" where
  "rewind_to_height height s =
     (let keep = rewind_keep height (snd s);
          tree_size = rewind_tree_size keep (snd s);
          (d, j) = truncate_records tree_size s;
          m = (rj_manifest j) \<lparr> mf_blocks := take keep (rj_blocks j), mf_tree_size := tree_size \<rparr>
      in persist_manifest (d, j \<lparr> rj_manifest := m \<rparr>))"

definition write_records :: "bytes list \<Rightarrow> journal_disk \<Rightarrow> journal_disk" where
  "write_records records d = d \<lparr> records_bin := map_option (\<lambda>f. f @ concat records) (records_bin d) \<rparr>"

definition append_block ::
  "u64 \<Rightarrow> string \<Rightarrow> bytes list \<Rightarrow> journal \<Rightarrow> journal \<times> (journal_error + unit)" where
  "append_block height hash records = (\<lambda>(d, j).
     if (case rj_last_block j of None \<Rightarrow> False | Some previous \<Rightarrow> height \<noteq> bl_height previous + 1)
     then ((d, j), Inl (Journal_Invariant ''block height does not follow''))
     else if list_ex (\<lambda>r. length r \<noteq> dl_record_bytes (rj_layout j)) records
     then ((d, j), Inl (Journal_Invariant ''record has a different number of bytes than the layout needs''))
     else
       let first_position = rj_tree_size j;
           d = write_records records d in
       (case checked_add first_position (of_nat (length records)) of
          None \<Rightarrow> ((d, j), Inl (Journal_Invariant ''tree size overflow''))
        | Some tree_size \<Rightarrow>
          let block = \<lparr> bl_height = height, bl_hash = hash, bl_first_position = first_position,
                        bl_action_count = of_nat (length records) \<rparr>;
              m = (rj_manifest j) \<lparr> mf_tree_size := tree_size, mf_blocks := rj_blocks j @ [block] \<rparr>
          in (persist_manifest (d, j \<lparr> rj_manifest := m \<rparr>), Inr ())))"

section \<open>Reading\<close>

definition shard_ids :: "record_journal \<Rightarrow> u64 list" where
  "shard_ids j =
     (let last_position = saturating_sub (rj_tree_size j) 1 in
      map of_nat [0..<unat (last_position div of_nat (dl_shard_positions (rj_layout j))) + 1])"

text \<open>\<open>seek\<close> and \<open>read_exact\<close>.\<close>

definition read_exact_at :: "nat \<Rightarrow> nat \<Rightarrow> journal_disk \<Rightarrow> journal_error + bytes" where
  "read_exact_at offset count d =
     (case records_bin d of
        None \<Rightarrow> Inl (Journal_Io ''no such file'')
      | Some f \<Rightarrow>
        if length f < offset + count then Inl (Journal_Io ''failed to fill whole buffer'')
        else Inr (take count (drop offset f)))"

definition read_shard_rows :: "u64 \<Rightarrow> journal \<Rightarrow> journal_error + bytes" where
  "read_shard_rows shard_id = (\<lambda>(d, j).
     let shard_positions = of_nat (dl_shard_positions (rj_layout j)) in
     (case checked_mul shard_id shard_positions of
        None \<Rightarrow> Inl (Journal_Invariant ''shard position overflow'')
      | Some shard_start \<Rightarrow>
        if shard_start \<ge> rj_tree_size j then Inl (Journal_Invariant ''shard is outside stored coverage'')
        else
          let available = unat (min (saturating_sub (rj_tree_size j) shard_start) shard_positions);
              record_bytes = dl_record_bytes (rj_layout j);
              rows = replicate (dl_shard_bytes (rj_layout j)) 0 in
          bindR (read_exact_at (unat (shard_start * of_nat record_bytes)) (available * record_bytes) d) (\<lambda>got.
          Inr (got @ drop (length got) rows))))"

definition read_records :: "u64 \<Rightarrow> nat \<Rightarrow> journal \<Rightarrow> journal_error + bytes" where
  "read_records start count = (\<lambda>(d, j).
     (case checked_add start (of_nat count) of
        None \<Rightarrow> Inl (Journal_Invariant ''record range overflow'')
      | Some stop \<Rightarrow>
        if stop > rj_tree_size j then Inl (Journal_Invariant ''records exceed the positions of the journal'')
        else
          let record_bytes = dl_record_bytes (rj_layout j) in
          read_exact_at (unat (start * of_nat record_bytes)) (count * record_bytes) d))"

definition populated_positions_in_shard :: "u64 \<Rightarrow> record_journal \<Rightarrow> u64" where
  "populated_positions_in_shard shard_id j =
     (let shard_positions = of_nat (dl_shard_positions (rj_layout j));
          start = saturating_mul shard_id shard_positions
      in min (saturating_sub (rj_tree_size j) start) shard_positions)"

definition rows_digest :: "(bytes \<Rightarrow> string) \<Rightarrow> (bytes \<Rightarrow> bytes) \<Rightarrow> bytes \<Rightarrow> string" where
  "rows_digest hex_encode sha256 rows = hex_encode (sha256 rows)"

section \<open>The Enhance journal\<close>

record canonical_block =
  cb_height :: u64
  cb_hash :: string
  cb_records :: "bytes list"
  cb_tree_size :: u64

datatype enhance_ingest_error = Ingest_Journal journal_error | Ingest_Invariant string

definition enhance_open :: "journal_disk \<Rightarrow> journal_disk \<times> (enhance_ingest_error + record_journal)" where
  "enhance_open d = (case journal_open Enhance ENHANCE_LAYOUT d of (d, r) \<Rightarrow> (d, map_err Ingest_Journal r))"

definition committed_height :: "record_journal \<Rightarrow> u64 option" where
  "committed_height j = map_option bl_height (rj_last_block j)"

definition highest_committed :: "record_journal \<Rightarrow> (u64 \<times> string) option" where
  "highest_committed j = map_option (\<lambda>b. (bl_height b, bl_hash b)) (rj_last_block j)"

definition enhance_append_block :: "canonical_block \<Rightarrow> journal \<Rightarrow> journal \<times> (enhance_ingest_error + unit)" where
  "enhance_append_block block s =
     (if (case rj_last_block (snd s) of None \<Rightarrow> False | Some b \<Rightarrow> bl_height b \<ge> cb_height block) then (s, Inr ())
      else case checked_sub (cb_tree_size block) (of_nat (length (cb_records block))) of
        None \<Rightarrow> (s, Inl (Ingest_Invariant ''block exceeds tree size''))
      | Some first_position \<Rightarrow>
        if rj_tree_size (snd s) < first_position \<or> rj_tree_size (snd s) > cb_tree_size block
        then (s, Inl (Ingest_Invariant ''journal continuity mismatch''))
        else
          let skip = unat (rj_tree_size (snd s) - first_position) in
          (case append_block (cb_height block) (cb_hash block) (drop skip (cb_records block)) s of
             (s, Inl e) \<Rightarrow> (s, Inl (Ingest_Journal e))
           | (s, Inr _) \<Rightarrow>
             if rj_tree_size (snd s) \<noteq> cb_tree_size block
             then (s, Inl (Ingest_Invariant ''Ironwood tree size mismatch''))
             else (s, Inr ())))"


section \<open>Invariant and abstraction\<close>

definition total_actions :: "block_entry list \<Rightarrow> nat" where
  "total_actions bs = sum_list (map (\<lambda>b. unat (bl_action_count b)) bs)"

fun positions_from :: "nat \<Rightarrow> block_entry list \<Rightarrow> bool" where
  "positions_from n [] \<longleftrightarrow> True"
| "positions_from n (b # bs) \<longleftrightarrow> unat (bl_first_position b) = n \<and> positions_from (n + unat (bl_action_count b)) bs"

abbreviation record_width :: "record_journal \<Rightarrow> nat" where
  "record_width j \<equiv> dl_record_bytes (rj_layout j)"

definition journal_ok :: "journal \<Rightarrow> bool" where
  "journal_ok = (\<lambda>(d, j).
     manifest_json d = Manifest_Found (rj_manifest j)
     \<and> mf_version (rj_manifest j) = JOURNAL_VERSION \<and> mf_table (rj_manifest j) = rj_name j
     \<and> 0 < record_width j \<and> record_width j < 2 ^ 64 \<and> unat (rj_tree_size j) * record_width j < 2 ^ 64
     \<and> positions_from 0 (rj_blocks j) \<and> total_actions (rj_blocks j) = unat (rj_tree_size j)
     \<and> sorted_wrt (\<lambda>a b. bl_height a < bl_height b) (rj_blocks j)
     \<and> (case records_bin d of None \<Rightarrow> False | Some f \<Rightarrow> length f = unat (rj_tree_size j) * record_width j))"

text \<open>What the journal promises: the records by position, and per block its height, hash and records.\<close>

definition journal_records :: "journal \<Rightarrow> bytes list" where
  "journal_records = (\<lambda>(d, j). chunks_exact (unat (rj_tree_size j)) (record_width j) (the (records_bin d)))"

definition journal_abs :: "journal \<Rightarrow> (u64 \<times> string \<times> bytes list) list" where
  "journal_abs s = map (\<lambda>b. (bl_height b, bl_hash b,
     take (unat (bl_action_count b)) (drop (unat (bl_first_position b)) (journal_records s)))) (rj_blocks (snd s))"

lemma journal_okE:
  assumes "journal_ok (d, j)"
  obtains f where "records_bin d = Some f" "length f = unat (rj_tree_size j) * record_width j"
    "manifest_json d = Manifest_Found (rj_manifest j)" "mf_version (rj_manifest j) = JOURNAL_VERSION"
    "mf_table (rj_manifest j) = rj_name j" "0 < record_width j" "record_width j < 2 ^ 64"
    "unat (rj_tree_size j) * record_width j < 2 ^ 64" "positions_from 0 (rj_blocks j)"
    "total_actions (rj_blocks j) = unat (rj_tree_size j)"
    "sorted_wrt (\<lambda>a b. bl_height a < bl_height b) (rj_blocks j)"
  using assms by (auto simp: journal_ok_def split: option.splits)

lemma total_actions_simps [simp]:
  "total_actions [] = 0" "total_actions (b # bs) = unat (bl_action_count b) + total_actions bs"
  "total_actions (bs @ cs) = total_actions bs + total_actions cs"
  by (simp_all add: total_actions_def)

lemma positions_from_append [simp]:
  "positions_from n (bs @ cs) \<longleftrightarrow> positions_from n bs \<and> positions_from (n + total_actions bs) cs"
  by (induction n bs rule: positions_from.induct) (auto simp: add.assoc)

lemma positions_from_take: "positions_from n bs \<Longrightarrow> positions_from n (take k bs)"
  by (metis append_take_drop_id positions_from_append)

lemma positions_from_nth:
  "positions_from n bs \<Longrightarrow> k < length bs \<Longrightarrow> unat (bl_first_position (bs ! k)) = n + total_actions (take k bs)"
proof -
  assume "positions_from n bs" "k < length bs"
  then have "positions_from n (take k bs @ bs ! k # drop (Suc k) bs)" by (simp add: id_take_nth_drop [symmetric])
  then show ?thesis unfolding positions_from_append by simp
qed

lemma total_take_le: "total_actions (take k bs) \<le> total_actions bs"
  by (metis append_take_drop_id le_add1 total_actions_simps(3))

lemma position_in_total:
  assumes "positions_from n bs" and "b \<in> set bs"
  shows "unat (bl_first_position b) + unat (bl_action_count b) \<le> n + total_actions bs"
proof -
  obtain us vs where "bs = us @ b # vs" using assms(2) by (auto simp: in_set_conv_decomp)
  then show ?thesis using assms(1) by simp
qed

lemma chunks_exact_append:
  "length bs = k * n \<Longrightarrow> length cs = m * n \<Longrightarrow> chunks_exact (k + m) n (bs @ cs) = chunks_exact k n bs @ chunks_exact m n cs"
  by (induction k arbitrary: bs) auto

lemma chunks_exact_take: "m \<le> k \<Longrightarrow> chunks_exact m n bs = take m (chunks_exact k n bs)"
proof (induction m arbitrary: k bs)
  case (Suc m)
  then show ?case by (cases k) auto
qed simp

lemma chunks_exact_take_bytes: "chunks_exact m n (take (m * n) bs) = chunks_exact m n bs"
proof (induction m arbitrary: bs)
  case (Suc m)
  have "drop n (take (n + m * n) bs) = take (m * n) (drop n bs)" by (simp add: drop_take)
  then show ?case using Suc.IH [of "drop n bs"] by simp
qed simp

lemma widths_total: "\<forall>r \<in> set rs. length r = n \<Longrightarrow> length (concat rs) = length rs * n"
  by (rule length_concat_const)

section \<open>Appending\<close>

definition follows :: "u64 \<Rightarrow> record_journal \<Rightarrow> bool" where
  "follows height j \<longleftrightarrow> (case rj_last_block j of None \<Rightarrow> True | Some b \<Rightarrow> height = bl_height b + 1)"

lemma follows_above:
  assumes "follows height j" and "height \<noteq> 0" and "sorted_wrt (\<lambda>a b. bl_height a < bl_height b) (rj_blocks j)"
  shows "\<forall>b \<in> set (rj_blocks j). bl_height b < height"
proof (cases "rj_blocks j = []")
  case False
  then obtain bs l where bl: "rj_blocks j = bs @ [l]" by (metis append_butlast_last_id)
  then have h: "height = bl_height l + 1" using assms(1) by (simp add: follows_def rj_last_block_def)
  then have "bl_height l < height" using assms(2) by (simp add: less_plus_one)
  moreover have "\<forall>b \<in> set bs. bl_height b < bl_height l" using assms(3) bl by (simp add: sorted_wrt_append)
  ultimately show ?thesis using bl by auto
qed simp

lemma append_block_ok:
  assumes ok: "journal_ok (d, j)" and fol: "follows height j" and top: "height \<noteq> 0"
    and widths: "\<forall>r \<in> set records. length r = record_width j"
    and fits: "(unat (rj_tree_size j) + length records) * record_width j < 2 ^ 64"
  shows "\<exists>s'. append_block height hash records (d, j) = (s', Inr ()) \<and> journal_ok s'
     \<and> journal_records s' = journal_records (d, j) @ records
     \<and> journal_abs s' = journal_abs (d, j) @ [(height, hash, records)]
     \<and> rj_layout (snd s') = rj_layout j \<and> rj_name (snd s') = rj_name j \<and> rj_table (snd s') = rj_table j"
proof -
  obtain f where f: "records_bin d = Some f" "length f = unat (rj_tree_size j) * record_width j"
    "manifest_json d = Manifest_Found (rj_manifest j)" "mf_version (rj_manifest j) = JOURNAL_VERSION"
    "mf_table (rj_manifest j) = rj_name j" "0 < record_width j" "record_width j < 2 ^ 64"
    "positions_from 0 (rj_blocks j)" "total_actions (rj_blocks j) = unat (rj_tree_size j)"
    "sorted_wrt (\<lambda>a b. bl_height a < bl_height b) (rj_blocks j)"
    using ok by (auto elim: journal_okE)
  let ?n = "unat (rj_tree_size j)" and ?k = "length records" and ?w = "record_width j"
  have "?n + ?k \<le> (?n + ?k) * ?w" using f(6) by (cases ?w) auto
  from this fits have small: "?n + ?k < 2 ^ 64" by (rule le_less_trans)
  then have uk: "unat (of_nat ?k :: u64) = ?k" by (simp add: unat_of_nat_u64)
  have ts: "checked_add (rj_tree_size j) (of_nat ?k) = Some (rj_tree_size j + of_nat ?k)"
    "unat (rj_tree_size j + of_nat ?k) = ?n + ?k"
    using small uk by (simp_all add: checked_add_def unat_add_nowrap)
  let ?b = "\<lparr> bl_height = height, bl_hash = hash, bl_first_position = rj_tree_size j, bl_action_count = of_nat ?k \<rparr>"
  let ?j = "j \<lparr> rj_manifest := (rj_manifest j) \<lparr> mf_tree_size := rj_tree_size j + of_nat ?k, mf_blocks := rj_blocks j @ [?b] \<rparr> \<rparr>"
  let ?d = "write_records records d \<lparr> manifest_json := Manifest_Found (rj_manifest ?j) \<rparr>"
  have run: "append_block height hash records (d, j) = ((?d, ?j), Inr ())"
    using fol widths ts(1)
    by (auto simp: append_block_def follows_def persist_manifest_def Let_def list_ex_iff split: option.splits)
  have total: "length (concat records) = ?k * ?w" by (rule widths_total [OF widths])
  have sorted: "sorted_wrt (\<lambda>a b. bl_height a < bl_height b) (rj_blocks j @ [?b])"
    using f(10) follows_above [OF fol top f(10)] by (simp add: sorted_wrt_append)
  have ok': "journal_ok (?d, ?j)"
    using f sorted total ts(2) fits uk
    by (simp add: journal_ok_def write_records_def add_mult_distrib)
  have recs: "journal_records (?d, ?j) = journal_records (d, j) @ records"
    using f(1,2) total ts(2) chunks_exact_append [OF f(2) total] chunks_exact_concat [OF widths]
    by (simp add: journal_records_def write_records_def)
  have len: "length (journal_records (d, j)) = ?n" by (simp add: journal_records_def)
  have old: "take (unat (bl_action_count b)) (drop (unat (bl_first_position b)) (journal_records (d, j) @ records))
      = take (unat (bl_action_count b)) (drop (unat (bl_first_position b)) (journal_records (d, j)))"
    if "b \<in> set (rj_blocks j)" for b
    using position_in_total [OF f(8) that] f(9) len by (intro take_drop_append) simp
  have new: "take ?k (drop ?n (journal_records (d, j) @ records)) = records" using len by simp
  have "journal_abs (?d, ?j) = journal_abs (d, j) @ [(height, hash, records)]"
    unfolding journal_abs_def recs using old new uk by (simp del: take_append drop_append)
  then show ?thesis using run ok' recs by auto
qed


section \<open>Opening\<close>

lemma open_extended:
  assumes ok: "journal_ok (d, j)"
  shows "open_inner (rj_name j) (rj_table j) (rj_layout j) (write_records [extra] d) = (d, Inr j)"
proof -
  obtain f where f: "records_bin d = Some f" "length f = unat (rj_tree_size j) * record_width j"
    "manifest_json d = Manifest_Found (rj_manifest j)" "mf_version (rj_manifest j) = JOURNAL_VERSION"
    "mf_table (rj_manifest j) = rj_name j" "record_width j < 2 ^ 64" "unat (rj_tree_size j) * record_width j < 2 ^ 64"
    using ok by (auto elim: journal_okE)
  have w: "unat (of_nat (record_width j) :: u64) = record_width j" using f(6) by (simp add: unat_of_nat_u64)
  have len: "checked_mul (rj_tree_size j) (of_nat (record_width j)) = Some (rj_tree_size j * of_nat (record_width j))"
    "unat (rj_tree_size j * of_nat (record_width j)) = length f"
    using f(2,7) w by (simp_all add: checked_mul_def unat_mult_nowrap)
  show ?thesis
    using f(1,3,4,5) len
    by (cases d; cases j) (simp add: open_inner_def load_manifest_def open_records_def write_records_def Let_def set_len_def)
qed

lemma write_records_nil: "records_bin d \<noteq> None \<Longrightarrow> write_records [[]] d = d"
  by (cases d) (auto simp: write_records_def)

lemma open_journal_ok: "journal_ok (d, j) \<Longrightarrow> open_inner (rj_name j) (rj_table j) (rj_layout j) d = (d, Inr j)"
  using open_extended [of d j "[]"] by (auto simp: write_records_nil elim: journal_okE)

section \<open>Rewinding\<close>

lemma rewind_tree_size_eq:
  assumes "positions_from 0 (rj_blocks j)" and "total_actions (rj_blocks j) = unat (rj_tree_size j)" and "k \<le> length (rj_blocks j)"
  shows "unat (rewind_tree_size k j) = total_actions (take k (rj_blocks j))"
proof (cases "k < length (rj_blocks j)")
  case True
  then show ?thesis using positions_from_nth [OF assms(1) True] by (simp add: rewind_tree_size_def)
next
  case False
  then have k: "k = length (rj_blocks j)" using assms(3) by simp
  show ?thesis
  proof (cases "rj_blocks j = []")
    case True
    then show ?thesis using k by (simp add: rewind_tree_size_def rj_last_block_def)
  next
    case ne: False
    then obtain bs l where bl: "rj_blocks j = bs @ [l]" by (metis append_butlast_last_id)
    have "unat (bl_first_position l) + unat (bl_action_count l) = unat (rj_tree_size j)"
      using assms(1,2) bl by simp
    then have "unat (bl_first_position l + bl_action_count l) = unat (rj_tree_size j)"
      using unat_u64_lt [of "rj_tree_size j"] by (subst unat_add_nowrap) simp_all
    then show ?thesis using k bl assms(2) by (simp add: rewind_tree_size_def rj_last_block_def)
  qed
qed

lemma takeWhile_sorted_filter:
  "sorted_wrt (\<lambda>a b. f a < f b) xs \<Longrightarrow> takeWhile (\<lambda>b. f b \<le> h) xs = filter (\<lambda>b. f b \<le> h) xs" for f :: "'a \<Rightarrow> u64"
proof (induction xs)
  case (Cons x xs)
  have "filter (\<lambda>b. f b \<le> h) xs = []" if "\<not> f x \<le> h"
    using Cons.prems that by (auto simp: filter_empty_conv)
  then show ?case using Cons by auto
qed simp

lemma take_length_takeWhile: "take (length (takeWhile P xs)) xs = takeWhile P xs"
  by (metis takeWhile_eq_take)

lemma rewind_blocks:
  assumes "sorted_wrt (\<lambda>a b. bl_height a < bl_height b) (rj_blocks j)"
  shows "take (rewind_keep height j) (rj_blocks j)
     = filter (\<lambda>b. case height of None \<Rightarrow> False | Some h \<Rightarrow> bl_height b \<le> h) (rj_blocks j)"
proof (cases height)
  case (Some h)
  then show ?thesis
    using takeWhile_sorted_filter [OF assms, of h] take_length_takeWhile [of "\<lambda>b. bl_height b \<le> h" "rj_blocks j"]
    by (simp add: rewind_keep_def)
qed (simp add: rewind_keep_def)

lemma rewind_keep_le: "rewind_keep height j \<le> length (rj_blocks j)"
  by (auto simp: rewind_keep_def length_takeWhile_le split: option.splits)

lemma rewind_ok:
  fixes height :: "u64 option"
  assumes ok: "journal_ok (d, j)"
  defines "k \<equiv> rewind_keep height j" and "s' \<equiv> rewind_to_height height (d, j)"
  shows "journal_ok s' \<and> rj_blocks (snd s') = take k (rj_blocks j)
     \<and> journal_records s' = take (total_actions (take k (rj_blocks j))) (journal_records (d, j))
     \<and> journal_abs s' = take k (journal_abs (d, j)) \<and> rj_layout (snd s') = rj_layout j"
proof -
  obtain f where f: "records_bin d = Some f" "length f = unat (rj_tree_size j) * record_width j"
    "mf_version (rj_manifest j) = JOURNAL_VERSION"
    "mf_table (rj_manifest j) = rj_name j" "0 < record_width j" "record_width j < 2 ^ 64" "unat (rj_tree_size j) * record_width j < 2 ^ 64"
    "positions_from 0 (rj_blocks j)" "total_actions (rj_blocks j) = unat (rj_tree_size j)"
    "sorted_wrt (\<lambda>a b. bl_height a < bl_height b) (rj_blocks j)"
    using ok by (auto elim: journal_okE)
  let ?t = "rewind_tree_size k j" and ?n = "total_actions (take k (rj_blocks j))"
  have t: "unat ?t = ?n" using rewind_tree_size_eq [OF f(8,9)] rewind_keep_le by (simp add: k_def)
  have le: "?n \<le> unat (rj_tree_size j)" using total_take_le [of k "rj_blocks j"] f(9) by simp
  then have le': "?n * record_width j \<le> unat (rj_tree_size j) * record_width j" by (rule mult_le_mono1)
  have lt: "?n * record_width j < 2 ^ 64" by (rule le_less_trans [OF le' f(7)])
  have w: "unat (of_nat (record_width j) :: u64) = record_width j" using f(6) by (simp add: unat_of_nat_u64)
  have len: "unat (?t * of_nat (record_width j)) = ?n * record_width j"
    using lt t w by (subst unat_mult_nowrap) simp_all
  let ?j = "j \<lparr> rj_manifest := (rj_manifest j) \<lparr> mf_blocks := take k (rj_blocks j), mf_tree_size := ?t \<rparr> \<rparr>"
  let ?d = "d \<lparr> records_bin := Some (take (?n * record_width j) f), manifest_json := Manifest_Found (rj_manifest ?j) \<rparr>"
  have s': "s' = (?d, ?j)"
    using f(1,2) le' len
    by (simp add: s'_def rewind_to_height_def truncate_records_def persist_manifest_def Let_def k_def set_len_def)
  have ok': "journal_ok s'"
    using f le' lt t positions_from_take [OF f(8)] sorted_wrt_take [OF f(10)] by (simp add: s' journal_ok_def min_def)
  have recs: "journal_records s' = take ?n (journal_records (d, j))"
    using f(1) t chunks_exact_take [OF le, of "record_width j" f]
    by (simp add: s' journal_records_def chunks_exact_take_bytes)
  have "take (unat (bl_action_count b)) (drop (unat (bl_first_position b)) (take ?n (journal_records (d, j))))
      = take (unat (bl_action_count b)) (drop (unat (bl_first_position b)) (journal_records (d, j)))"
    if "b \<in> set (take k (rj_blocks j))" for b
    using position_in_total [OF positions_from_take [OF f(8)] that] by (simp add: drop_take min_def)
  then have "journal_abs s' = take k (journal_abs (d, j))"
    unfolding journal_abs_def recs by (simp add: s' take_map)
  then show ?thesis using ok' recs by (simp add: s')
qed


section \<open>Shards\<close>

lemma shard_bytes_eq: "dl_shard_bytes l = dl_shard_positions l * dl_record_bytes l"
  by (simp add: dl_shard_bytes_def dl_shard_positions_def dl_row_bytes_def mult_ac)

lemma slot_offset:
  "(p mod dl_shard_positions l) * dl_record_bytes l
     = (p div dl_records_per_row l mod dl_shard_rows l) * dl_row_bytes l + (p mod dl_records_per_row l) * dl_record_bytes l"
proof -
  have "p mod (dl_records_per_row l * dl_shard_rows l)
      = dl_records_per_row l * (p div dl_records_per_row l mod dl_shard_rows l) + p mod dl_records_per_row l"
    by (rule mod_mult2_eq)
  then show ?thesis
    by (simp add: dl_shard_positions_def dl_row_bytes_def mult.commute [of "dl_shard_rows l"] add_mult_distrib2 add_mult_distrib mult_ac)
qed

definition shard_available :: "nat \<Rightarrow> record_journal \<Rightarrow> nat" where
  "shard_available shard j = min (unat (rj_tree_size j) - shard * dl_shard_positions (rj_layout j)) (dl_shard_positions (rj_layout j))"

lemma read_shard_rows_eq:
  assumes ok: "journal_ok (d, j)" and sp: "dl_shard_positions (rj_layout j) < 2 ^ 64"
    and covered: "shard * dl_shard_positions (rj_layout j) < unat (rj_tree_size j)" and small: "shard < 2 ^ 64"
  shows "read_shard_rows (of_nat shard) (d, j) = Inr (
     take (shard_available shard j * record_width j)
       (drop (shard * dl_shard_positions (rj_layout j) * record_width j) (the (records_bin d)))
     @ replicate ((dl_shard_positions (rj_layout j) - shard_available shard j) * record_width j) 0)"
proof -
  obtain f where f: "records_bin d = Some f" "length f = unat (rj_tree_size j) * record_width j"
    "record_width j < 2 ^ 64" "unat (rj_tree_size j) * record_width j < 2 ^ 64"
    using ok by (auto elim: journal_okE)
  let ?sp = "dl_shard_positions (rj_layout j)" and ?n = "unat (rj_tree_size j)" and ?w = "record_width j"
  let ?start = "of_nat shard * of_nat ?sp :: u64" and ?a = "shard_available shard j"
  have u: "unat (of_nat shard :: u64) = shard" "unat (of_nat ?sp :: u64) = ?sp" "unat (of_nat ?w :: u64) = ?w"
    using small sp f(3) by (simp_all add: unat_of_nat_u64)
  have lt: "shard * ?sp < 2 ^ 64" using covered unat_u64_lt [of "rj_tree_size j"] by (rule less_trans)
  then have start: "checked_mul (of_nat shard) (of_nat ?sp :: u64) = Some ?start" "unat ?start = shard * ?sp"
    using u by (simp_all add: checked_mul_def unat_mult_nowrap)
  have av: "unat (min (saturating_sub (rj_tree_size j) ?start) (of_nat ?sp)) = ?a"
    using start(2) u(2) by (simp add: shard_available_def min_def word_le_nat_alt unat_saturating_sub)
  have end_le: "shard * ?sp + ?a \<le> ?n" using covered by (simp add: shard_available_def)
  then have end_w: "shard * ?sp * ?w + ?a * ?w \<le> length f" unfolding f(2) by (simp flip: add_mult_distrib)
  then have "unat (?start * of_nat ?w) = shard * ?sp * ?w"
    using f(2,4) start(2) u(3) by (subst unat_mult_nowrap) simp_all
  then have read: "read_exact_at (unat (?start * of_nat ?w)) (?a * ?w) d = Inr (take (?a * ?w) (drop (shard * ?sp * ?w) f))"
    using f(1) end_w by (simp add: read_exact_at_def)
  have "\<not> rj_tree_size j \<le> ?start" using start(2) covered by (simp add: word_le_nat_alt)
  moreover have "dl_shard_bytes (rj_layout j) - ?a * ?w = (?sp - ?a) * ?w"
    by (simp add: shard_bytes_eq diff_mult_distrib)
  moreover have "length (take (?a * ?w) (drop (shard * ?sp * ?w) f)) = ?a * ?w" using end_w by simp
  ultimately show ?thesis
    using start(1) av read f(1) by (simp add: read_shard_rows_def Let_def del: of_nat_mult length_take)
qed

lemma nth_journal_records:
  "p < unat (rj_tree_size j) \<Longrightarrow> journal_records (d, j) ! p = take (record_width j) (drop (p * record_width j) (the (records_bin d)))"
  by (simp add: journal_records_def nth_chunks_exact)

lemma take_drop_block:
  assumes "q < a" and "a * w + m \<le> length f"
  shows "take w (drop (q * w) (take (a * w) (drop m f) @ r)) = take w (drop (m + q * w) f)"
proof -
  have "(q + 1) * w \<le> a * w" using assms(1) by (intro mult_le_mono1) simp
  then have qw: "q * w + w \<le> a * w" by simp
  have "take w (drop (q * w) (take (a * w) (drop m f) @ r)) = take w (drop (q * w) (take (a * w) (drop m f)))"
    using qw assms(2) by (intro take_drop_append) simp
  also have "\<dots> = take w (take (a * w - q * w) (drop (q * w) (drop m f)))" by (simp add: drop_take)
  also have "\<dots> = take w (drop (m + q * w) f)" using qw by (simp add: min_def add.commute)
  finally show ?thesis .
qed

section \<open>Properties\<close>

text \<open>
  C25. \<open>append_block\<close> refines appending one block to a sequence of blocks. On a consistent journal it succeeds exactly when the
  height follows the last one and every record has the width of the layout; then the journal stays consistent, the
  records are the old ones followed by the new ones, the sequence of blocks has the new one at its end and every
  earlier block unchanged. Otherwise it returns an error and neither the files nor the journal change.
\<close>

theorem journal_append_refines:
  assumes ok: "journal_ok (d, j)" and "height \<noteq> 0"
    and fits: "(unat (rj_tree_size j) + length records) * dl_record_bytes (rj_layout j) < 2 ^ 64"
  shows "if (case rj_last_block j of None \<Rightarrow> True | Some b \<Rightarrow> height = bl_height b + 1)
            \<and> (\<forall>r \<in> set records. length r = dl_record_bytes (rj_layout j))
     then (\<exists>s'. append_block height hash records (d, j) = (s', Inr ()) \<and> journal_ok s'
         \<and> journal_records s' = journal_records (d, j) @ records
         \<and> journal_abs s' = journal_abs (d, j) @ [(height, hash, records)])
     else (\<exists>e. append_block height hash records (d, j) = ((d, j), Inl e))"
proof (cases "follows height j \<and> (\<forall>r \<in> set records. length r = record_width j)")
  case True
  then show ?thesis using append_block_ok [OF ok _ assms(2) _ fits, of hash] by (auto simp: follows_def)
next
  case False
  then show ?thesis
    by (auto simp: follows_def append_block_def list_ex_iff split: option.splits)
qed

text \<open>
  C26. A crash while a block is appended loses that block and nothing else: with any prefix of the record bytes on
  disk and the old manifest still in place, opening the journal truncates the records file back to the committed length and gives
  exactly the journal before the append, on the same files; with no crash the journal reopens to itself.
\<close>

theorem journal_append_crash_safe:
  assumes "journal_ok (d, j)"
  shows "open_inner (rj_name j) (rj_table j) (rj_layout j) (write_records [take k (concat records)] d) = (d, Inr j)
    \<and> open_inner (rj_name j) (rj_table j) (rj_layout j) d = (d, Inr j)"
  using open_extended [OF assms] open_journal_ok [OF assms] by simp

text \<open>
  C27. Rewinding keeps exactly the blocks at or below the height, with their records: the journal stays consistent, the
  sequence of blocks is the old one restricted to those heights, and the records are a prefix of the old ones.
\<close>

theorem journal_rewind_refines:
  assumes ok: "journal_ok (d, j)"
  shows "journal_ok (rewind_to_height height (d, j))
    \<and> journal_abs (rewind_to_height height (d, j))
        = filter (\<lambda>(h, _). case height of None \<Rightarrow> False | Some limit \<Rightarrow> h \<le> limit) (journal_abs (d, j))
    \<and> journal_records (rewind_to_height height (d, j))
        = take (unat (rj_tree_size (snd (rewind_to_height height (d, j))))) (journal_records (d, j))"
proof -
  let ?s = "rewind_to_height height (d, j)"
  have sorted: "sorted_wrt (\<lambda>a b. bl_height a < bl_height b) (rj_blocks j)" using ok by (auto elim: journal_okE)
  note r = rewind_ok [OF ok, of height]
  have "unat (rj_tree_size (snd ?s)) = total_actions (rj_blocks (snd ?s))"
    using r by (cases ?s) (auto elim: journal_okE)
  moreover have "take (rewind_keep height j) (journal_abs (d, j))
      = filter (\<lambda>(h, _). case height of None \<Rightarrow> False | Some limit \<Rightarrow> h \<le> limit) (journal_abs (d, j))"
    using rewind_blocks [OF sorted, of height] by (simp add: journal_abs_def take_map filter_map comp_def)
  ultimately show ?thesis using r by simp
qed

text \<open>
  Rewinding is not crash safe: the records file is truncated before the manifest is replaced, so a crash between the
  two leaves a records file shorter than the committed manifest, and opening the journal returns an error
  instead of recovering, whenever the rewind removes at least one record.
\<close>

lemma journal_rewind_crash_unopenable:
  assumes ok: "journal_ok (d, j)"
    and removed: "unat (rewind_tree_size (rewind_keep height j) j) < unat (rj_tree_size j)"
  shows "snd (open_inner (rj_name j) (rj_table j) (rj_layout j)
      (fst (truncate_records (rewind_tree_size (rewind_keep height j) j) (d, j))))
    = Inl (Journal_Invariant ''records file is shorter than committed manifest'')"
proof -
  obtain f where f: "records_bin d = Some f" "length f = unat (rj_tree_size j) * record_width j"
    "manifest_json d = Manifest_Found (rj_manifest j)" "mf_version (rj_manifest j) = JOURNAL_VERSION"
    "mf_table (rj_manifest j) = rj_name j" "0 < record_width j" "record_width j < 2 ^ 64" "unat (rj_tree_size j) * record_width j < 2 ^ 64"
    using ok by (auto elim: journal_okE)
  let ?t = "rewind_tree_size (rewind_keep height j) j" and ?w = "record_width j"
  have w: "unat (of_nat ?w :: u64) = ?w" using f(7) by (simp add: unat_of_nat_u64)
  have lt: "unat ?t * ?w < unat (rj_tree_size j) * ?w" using removed f(6) by simp
  have len: "unat (?t * of_nat ?w) = unat ?t * ?w"
    using less_trans [OF lt f(8)] w by (subst unat_mult_nowrap) simp_all
  have exp: "checked_mul (rj_tree_size j) (of_nat ?w) = Some (rj_tree_size j * of_nat ?w)"
    "unat (rj_tree_size j * of_nat ?w) = unat (rj_tree_size j) * ?w"
    using f(8) w by (simp_all add: checked_mul_def unat_mult_nowrap)
  show ?thesis
    using f(1-5) len exp lt
    by (simp add: truncate_records_def open_inner_def load_manifest_def open_records_def set_len_def Let_def min_def del: mult_less_cancel2)
qed

lemma shard_rows_records:
  assumes ok: "journal_ok (d, j)" and "rj_layout j = l"
    and l: "0 < dl_shard_positions l" "dl_shard_positions l < 2 ^ 64"
    and p: "p < unat (rj_tree_size j)"
  shows "\<exists>rows. read_shard_rows (of_nat (p div dl_shard_positions l)) (d, j) = Inr rows
     \<and> length rows = dl_shard_bytes l
     \<and> take (dl_record_bytes l) (drop ((p div dl_records_per_row l mod dl_shard_rows l) * dl_row_bytes l
           + (p mod dl_records_per_row l) * dl_record_bytes l) rows) = journal_records (d, j) ! p
     \<and> drop (min (unat (rj_tree_size j) - p div dl_shard_positions l * dl_shard_positions l) (dl_shard_positions l)
           * dl_record_bytes l) rows
         = replicate (dl_shard_bytes l - min (unat (rj_tree_size j) - p div dl_shard_positions l * dl_shard_positions l)
             (dl_shard_positions l) * dl_record_bytes l) 0"
proof -
  obtain f where f: "records_bin d = Some f" "length f = unat (rj_tree_size j) * record_width j"
    using ok by (auto elim: journal_okE)
  let ?sp = "dl_shard_positions l" and ?w = "dl_record_bytes l" and ?i = "p div dl_shard_positions l"
  let ?a = "shard_available ?i j"
  have split: "p = ?i * ?sp + p mod ?sp" by simp
  have cov: "?i * ?sp < unat (rj_tree_size j)" using p split by linarith
  have small: "?i < 2 ^ 64" using p div_le_dividend [of p ?sp] unat_u64_lt [of "rj_tree_size j"] by linarith
  have "p mod ?sp < unat (rj_tree_size j) - ?i * ?sp" using p split by linarith
  then have q: "p mod ?sp < ?a" using l(1) by (simp add: shard_available_def assms(2))
  have "?a + ?i * ?sp \<le> unat (rj_tree_size j)" using cov by (simp add: shard_available_def assms(2))
  then have fit: "?a * ?w + ?i * ?sp * ?w \<le> length f"
    unfolding f(2) assms(2) using mult_le_mono1 [of "?a + ?i * ?sp"] by (simp only: add_mult_distrib)
  let ?rows = "take (?a * ?w) (drop (?i * ?sp * ?w) f) @ replicate ((?sp - ?a) * ?w) 0"
  have read: "read_shard_rows (of_nat ?i) (d, j) = Inr ?rows"
    using read_shard_rows_eq [OF ok _ _ small] l(2) cov f(1) by (simp add: assms(2))
  have av: "?a \<le> ?sp" by (simp add: shard_available_def assms(2))
  have la: "length (take (?a * ?w) (drop (?i * ?sp * ?w) f)) = ?a * ?w" using fit by simp
  have len: "length ?rows = dl_shard_bytes l"
    using la av by (simp add: shard_bytes_eq diff_mult_distrib mult_le_mono1)
  have "take ?w (drop ((p mod ?sp) * ?w) ?rows) = take ?w (drop (?i * ?sp * ?w + (p mod ?sp) * ?w) f)"
    by (rule take_drop_block [OF q fit])
  also have "?i * ?sp * ?w + (p mod ?sp) * ?w = p * ?w" using split by (metis add_mult_distrib)
  finally have at: "take ?w (drop ((p mod ?sp) * ?w) ?rows) = journal_records (d, j) ! p"
    using nth_journal_records [OF p, of d] f(1) assms(2) by simp
  have tail: "drop (?a * ?w) ?rows = replicate (dl_shard_bytes l - ?a * ?w) 0"
    using la by (simp add: shard_bytes_eq diff_mult_distrib)
  have a: "min (unat (rj_tree_size j) - ?i * ?sp) ?sp = ?a" by (simp add: shard_available_def assms(2))
  show ?thesis
    unfolding a slot_offset [of p l, symmetric]
    by (rule exI [of _ ?rows], intro conjI) (rule read, rule len, rule at, rule tail)
qed

text \<open>
  Sharding places every record where the row geometry says. For each populated position, the shard it belongs
  to can be read, has exactly the full shard size, holds the record of that position at its row within the shard
  and its slot within the row, and every slot beyond the populated ones is zero. So the digest of a sealed
  shard depends only on its records.
\<close>

lemma shard_rows_place_records:
  assumes ok: "journal_ok (d, j)" and "rj_layout j = l"
    and l: "0 < dl_shard_positions l" "dl_shard_positions l < 2 ^ 64"
    and p: "p < unat (rj_tree_size j)"
  shows "\<exists>rows. read_shard_rows (of_nat (p div dl_shard_positions l)) (d, j) = Inr rows
     \<and> length rows = dl_shard_bytes l
     \<and> take (dl_record_bytes l) (drop ((p div dl_records_per_row l mod dl_shard_rows l) * dl_row_bytes l
           + (p mod dl_records_per_row l) * dl_record_bytes l) rows) = journal_records (d, j) ! p
     \<and> drop (min (unat (rj_tree_size j) - p div dl_shard_positions l * dl_shard_positions l) (dl_shard_positions l)
           * dl_record_bytes l) rows
         = replicate (dl_shard_bytes l - min (unat (rj_tree_size j) - p div dl_shard_positions l * dl_shard_positions l)
             (dl_shard_positions l) * dl_record_bytes l) 0"
  using assms by (rule shard_rows_records)


text \<open>A block that continues the journal.\<close>

lemma enhance_append_next:
  assumes ok: "journal_ok (d, j)" and lay: "rj_layout j = ENHANCE_LAYOUT" and nz: "cb_height b \<noteq> 0" and fol: "follows (cb_height b) j"
    and widths: "\<forall>r \<in> set (cb_records b). length r = RECORD_BYTES" and size: "unat (cb_tree_size b) \<le> 2 ^ 54" and len: "length (cb_records b) < 2 ^ 64"
    and new: "\<not> (case rj_last_block j of None \<Rightarrow> False | Some lb \<Rightarrow> bl_height lb \<ge> cb_height b)"
    and fit: "length (cb_records b) \<le> unat (cb_tree_size b) \<and> unat (cb_tree_size b) - length (cb_records b) \<le> unat (rj_tree_size j)
      \<and> unat (rj_tree_size j) \<le> unat (cb_tree_size b)"
  shows "\<exists>s'. enhance_append_block b (d, j) = (s', Inr ()) \<and> journal_ok s' \<and> rj_tree_size (snd s') = cb_tree_size b
    \<and> journal_records s' = journal_records (d, j) @ drop (unat (rj_tree_size j) - (unat (cb_tree_size b) - length (cb_records b))) (cb_records b)
    \<and> journal_abs s' = journal_abs (d, j)
        @ [(cb_height b, cb_hash b, drop (unat (rj_tree_size j) - (unat (cb_tree_size b) - length (cb_records b))) (cb_records b))]
    \<and> rj_layout (snd s') = rj_layout j \<and> rj_table (snd s') = rj_table j"
proof -
  let ?t = "cb_tree_size b" and ?k = "length (cb_records b)"
  have uk: "unat (of_nat ?k :: u64) = ?k" using len by (simp add: unat_of_nat_u64)
  let ?first = "?t - of_nat ?k" and ?skip = "unat (rj_tree_size j) - (unat ?t - ?k)"
  have le: "of_nat ?k \<le> ?t" using fit uk by (simp add: word_le_nat_alt)
  have uf: "unat ?first = unat ?t - ?k" using unat_minus_nowrap [OF le] uk by simp
  have "?first \<le> rj_tree_size j" using fit uf by (simp only: word_le_nat_alt)
  from unat_minus_nowrap [OF this] have sk: "unat (rj_tree_size j - ?first) = ?skip" by (simp only: uf)
  have n: "unat (rj_tree_size j) + length (drop ?skip (cb_records b)) = unat ?t" using fit unfolding length_drop by linarith
  have w: "record_width j = 725" by (simp add: lay ENHANCE_LAYOUT_def RECORD_BYTES_def)
  have fits: "(unat (rj_tree_size j) + length (drop ?skip (cb_records b))) * record_width j < 2 ^ 64"
    unfolding n w using size by simp
  have wd: "\<forall>r \<in> set (drop ?skip (cb_records b)). length r = record_width j"
    using widths by (auto simp: w RECORD_BYTES_def dest: in_set_dropD)
  obtain s' where s': "append_block (cb_height b) (cb_hash b) (drop ?skip (cb_records b)) (d, j) = (s', Inr ())"
    "journal_ok s'" "journal_records s' = journal_records (d, j) @ drop ?skip (cb_records b)"
    "journal_abs s' = journal_abs (d, j) @ [(cb_height b, cb_hash b, drop ?skip (cb_records b))]"
    "rj_layout (snd s') = rj_layout j" "rj_table (snd s') = rj_table j"
    using append_block_ok [OF ok fol nz wd fits, of "cb_hash b"] by blast
  have "length (journal_records s') = unat (rj_tree_size (snd s'))" by (cases s') (simp add: journal_records_def)
  moreover have "length (journal_records (d, j)) = unat (rj_tree_size j)" by (simp add: journal_records_def)
  ultimately have "unat (rj_tree_size (snd s')) = unat ?t" using s'(3) n by simp
  then have ts: "rj_tree_size (snd s') = ?t" by (simp add: word_unat_eq_iff)
  have "enhance_append_block b (d, j) = (s', Inr ())"
    using new le fit uf sk s'(1) ts
    by (simp add: enhance_append_block_def checked_sub_def word_less_nat_alt word_le_nat_alt)
  then show ?thesis using s'(2-) ts by blast
qed

text \<open>
  Ingesting a canonical block keeps the Enhance journal in step with the chain. On a consistent journal a block at or
  below the last height changes nothing. A block at the next height, with records of the fixed width and a tree size of
  at most \<open>2 ^ 54\<close>, is accepted exactly when the journal ends between the first position of the block and its
  tree size; then the journal holds exactly that many records, the old ones followed by the records of the block at the
  positions it did not have yet, and the size check at the end never fails. Otherwise nothing changes.
\<close>

lemma enhance_append_in_step:
  assumes ok: "journal_ok (d, j)" and lay: "rj_layout j = ENHANCE_LAYOUT" and nz: "cb_height b \<noteq> 0"
    and widths: "\<forall>r \<in> set (cb_records b). length r = RECORD_BYTES" and size: "unat (cb_tree_size b) \<le> 2 ^ 54"
    and len: "length (cb_records b) < 2 ^ 64"
  shows "((case rj_last_block j of Some lb \<Rightarrow> cb_height b \<le> bl_height lb | None \<Rightarrow> False)
       \<longrightarrow> enhance_append_block b (d, j) = ((d, j), Inr ()))
   \<and> ((case rj_last_block j of Some lb \<Rightarrow> cb_height b = bl_height lb + 1 | None \<Rightarrow> True) \<longrightarrow>
       (if length (cb_records b) \<le> unat (cb_tree_size b) \<and> unat (cb_tree_size b) - length (cb_records b) \<le> unat (rj_tree_size j)
           \<and> unat (rj_tree_size j) \<le> unat (cb_tree_size b)
        then \<exists>s'. enhance_append_block b (d, j) = (s', Inr ()) \<and> journal_ok s' \<and> rj_tree_size (snd s') = cb_tree_size b
           \<and> journal_records s' = journal_records (d, j)
               @ drop (unat (rj_tree_size j) - (unat (cb_tree_size b) - length (cb_records b))) (cb_records b)
        else \<exists>e. enhance_append_block b (d, j) = ((d, j), Inl e)))"
proof (intro conjI impI)
  assume "case rj_last_block j of Some lb \<Rightarrow> cb_height b \<le> bl_height lb | None \<Rightarrow> False"
  then show "enhance_append_block b (d, j) = ((d, j), Inr ())"
    by (simp add: enhance_append_block_def split: option.splits)
next
  assume "case rj_last_block j of Some lb \<Rightarrow> cb_height b = bl_height lb + 1 | None \<Rightarrow> True"
  then have fol: "follows (cb_height b) j" by (simp add: follows_def split: option.splits)
  let ?t = "cb_tree_size b" and ?k = "length (cb_records b)"
  have uk: "unat (of_nat ?k :: u64) = ?k" using len by (simp add: unat_of_nat_u64)
  have new: "\<not> (case rj_last_block j of None \<Rightarrow> False | Some lb \<Rightarrow> bl_height lb \<ge> cb_height b)"
    using fol nz by (auto simp: follows_def not_le less_plus_one split: option.splits)
  show "if ?k \<le> unat ?t \<and> unat ?t - ?k \<le> unat (rj_tree_size j) \<and> unat (rj_tree_size j) \<le> unat ?t
        then \<exists>s'. enhance_append_block b (d, j) = (s', Inr ()) \<and> journal_ok s' \<and> rj_tree_size (snd s') = ?t
           \<and> journal_records s' = journal_records (d, j) @ drop (unat (rj_tree_size j) - (unat ?t - ?k)) (cb_records b)
        else \<exists>e. enhance_append_block b (d, j) = ((d, j), Inl e)"
  proof (cases "?k \<le> unat ?t \<and> unat ?t - ?k \<le> unat (rj_tree_size j) \<and> unat (rj_tree_size j) \<le> unat ?t")
    case False
    then have "\<exists>e. enhance_append_block b (d, j) = ((d, j), Inl e)"
      using new uk by (auto simp: enhance_append_block_def checked_sub_def word_le_nat_alt word_less_nat_alt unat_minus_nowrap)
    then show ?thesis unfolding if_not_P [OF False] .
  next
    case True
    show ?thesis unfolding if_P [OF True] using enhance_append_next [OF ok lay nz fol widths size len new True] by blast
  qed
qed

section \<open>Witnesses\<close>

definition sample_layout :: database_layout where
  "sample_layout = \<lparr> dl_record_bytes = 2, dl_records_per_row = 3, dl_shard_rows = 1 \<rparr>"

definition sample_journal :: journal where
  "sample_journal =
     (let m = \<lparr> mf_version = JOURNAL_VERSION, mf_table = ''log'', mf_tree_size = 4, mf_blocks =
        [\<lparr> bl_height = 10, bl_hash = ''a'', bl_first_position = 0, bl_action_count = 3 \<rparr>,
         \<lparr> bl_height = 11, bl_hash = ''b'', bl_first_position = 3, bl_action_count = 1 \<rparr>] \<rparr>
      in (\<lparr> records_bin = Some [1, 1, 2, 2, 3, 3, 4, 4], manifest_json = Manifest_Found m \<rparr>,
          \<lparr> rj_name = ''log'', rj_table = None, rj_layout = sample_layout, rj_manifest = m \<rparr>))"

lemma sample_journal_ok: "journal_ok (fst sample_journal, snd sample_journal)"
  by (simp add: journal_ok_def sample_journal_def sample_layout_def Let_def)

theorem journal_append_refines_witness:
  "(\<exists>s'. append_block 12 ''c'' [[5, 5], [6, 6]] sample_journal = (s', Inr ())
      \<and> journal_records s' = [[1, 1], [2, 2], [3, 3], [4, 4], [5, 5], [6, 6]])
   \<and> (\<exists>e. append_block 13 ''c'' [[5, 5]] sample_journal = (sample_journal, Inl e))"
proof -
  have l: "rj_last_block (snd sample_journal) = Some \<lparr> bl_height = 11, bl_hash = ''b'', bl_first_position = 3, bl_action_count = 1 \<rparr>"
    "dl_record_bytes (rj_layout (snd sample_journal)) = 2" "unat (rj_tree_size (snd sample_journal)) = 4"
    "journal_records sample_journal = [[1, 1], [2, 2], [3, 3], [4, 4]]"
    by code_simp+
  show ?thesis
    using journal_append_refines [OF sample_journal_ok, of 12 "[[5, 5], [6, 6]]" "''c''"]
      journal_append_refines [OF sample_journal_ok, of 13 "[[5, 5]]" "''c''"] l
    by auto
qed

theorem journal_append_crash_safe_witness:
  "open_inner ''log'' None sample_layout (write_records [take 3 (concat [[5, 5], [6, 6]])] (fst sample_journal))
     = (fst sample_journal, Inr (snd sample_journal))"
  using journal_append_crash_safe [OF sample_journal_ok, of 3 "[[5, 5], [6, 6]]"] by (simp add: sample_journal_def Let_def)

theorem journal_rewind_refines_witness:
  "journal_abs (rewind_to_height (Some 10) sample_journal) = [(10, ''a'', [[1, 1], [2, 2], [3, 3]])]"
proof -
  have "journal_abs sample_journal = [(10, ''a'', [[1, 1], [2, 2], [3, 3]]), (11, ''b'', [[4, 4]])]" by code_simp
  then show ?thesis using journal_rewind_refines [OF sample_journal_ok, of "Some 10"] by simp
qed

end
