(* ===== verification/Pir_Ipir.thy ===== *)
theory Pir_Ipir
  imports Pir_Wire Pir_Journal
begin

text \<open>
  Sharded evaluation, \<open>server/enhance-pir-server/src/ipir.rs\<close>: adding the intermediates and the common reference
  strings of row shards, building, persisting and reloading a shard, and evaluating a query on it.

  The cryptographic crates \<open>ipir_sp\<close> and \<open>inspiring\<close> are outside the repository. Their functions are the fields
  of the record \<open>ipir_sp\<close>, an argument of every definition that calls them; \<open>'s\<close> is the type of their
  server. What the code relies on is stated as predicates on that record and assumed where it is needed.
\<close>

section \<open>The interface of the cryptographic crates\<close>

text \<open>The fields of \<open>RlweParams\<close> and \<open>YpirSchemeParams\<close> that the code reads.\<close>

record rlwe_params =
  rlwe_d :: nat
  rlwe_q :: u64

record scheme_params =
  sp_db_rows :: nat
  sp_db_cols :: nat
  sp_p :: u64
  sp_query_bits :: nat
  sp_q_prime_1 :: u64

datatype ipir_error =
    Lwe_Shape string
  | Preprocess_Mismatch string
  | Ipir_Other string

record 's ipir_sp =
  params_for_simplepir :: "u64 \<Rightarrow> u64 \<Rightarrow> ipir_error + (rlwe_params \<times> scheme_params)"
  new_auto_kernel :: "scheme_params \<Rightarrow> u16 list \<Rightarrow> bool \<Rightarrow> bool \<Rightarrow> 's"
  server_params :: "'s \<Rightarrow> scheme_params"
  server_db :: "'s \<Rightarrow> u16 list"
  multiply_query :: "'s \<Rightarrow> rlwe_params \<Rightarrow> u64 list \<Rightarrow> u64 list"
  offline_crs_blocks :: "'s \<Rightarrow> rlwe_params \<Rightarrow> u64 list list \<Rightarrow> crs_block list"
  query_from_switched_bytes :: "bytes \<Rightarrow> nat \<Rightarrow> u64 \<Rightarrow> nat \<Rightarrow> ipir_error + u64 list"
  public_query_setup :: "rlwe_params \<Rightarrow> scheme_params \<Rightarrow> bytes \<Rightarrow> u64 list list"
  read_bits :: "bytes \<Rightarrow> nat \<Rightarrow> nat \<Rightarrow> u64"

section \<open>Shard composition\<close>

definition deserialize_first_dim_query ::
  "'s ipir_sp \<Rightarrow> rlwe_params \<Rightarrow> scheme_params \<Rightarrow> bytes \<Rightarrow> ipir_error + u64 list" where
  "deserialize_first_dim_query ip rlwe ypir query =
     bindR (query_from_switched_bytes ip query (sp_db_rows ypir) (rlwe_q rlwe) (sp_query_bits ypir)) (\<lambda>first_dim_query.
     if length first_dim_query \<noteq> sp_db_rows ypir then Inl (Lwe_Shape ''first-dimension query values'')
     else Inr first_dim_query)"

text \<open>
  The accumulator is a local vector of every caller, dropped when an error is returned, so the updated
  accumulator is the \<open>Ok\<close> value. The sum is taken in 128 bits and reduced before it is narrowed.
\<close>

definition add_mod :: "u64 \<Rightarrow> u64 \<Rightarrow> u64 \<Rightarrow> u64" where
  "add_mod modulus left right =
     (let sum = (ucast left :: 128 word) + ucast right in ucast (sum mod ucast modulus))"

fun add_coefficients :: "u64 \<Rightarrow> u64 list \<Rightarrow> u64 list \<Rightarrow> ipir_error + u64 list" where
  "add_coefficients modulus (left # ls) (right # rs) =
     (if left \<ge> modulus \<or> right \<ge> modulus
      then Inl (Preprocess_Mismatch ''intermediate coefficient is not reduced modulo q'')
      else bindR (add_coefficients modulus ls rs) (\<lambda>xs. Inr (add_mod modulus left right # xs)))"
| "add_coefficients modulus ls rs = Inr ls"

definition add_intermediate_assign_mod :: "u64 list \<Rightarrow> u64 list \<Rightarrow> u64 \<Rightarrow> ipir_error + u64 list" where
  "add_intermediate_assign_mod accumulator contribution modulus =
     (if modulus < 2 then Inl (Preprocess_Mismatch ''intermediate modulus must be at least two'')
      else if length accumulator \<noteq> length contribution then Inl (Lwe_Shape ''intermediate widths differ'')
      else add_coefficients modulus accumulator contribution)"

definition crs_square :: "rlwe_params \<Rightarrow> crs_block \<Rightarrow> bool" where
  "crs_square params block \<longleftrightarrow> length block = rlwe_d params \<and> \<not> (\<exists>row \<in> set block. length row \<noteq> rlwe_d params)"

fun add_crs_rows :: "u64 \<Rightarrow> crs_block \<Rightarrow> crs_block \<Rightarrow> ipir_error + crs_block" where
  "add_crs_rows q (l # ls) (r # rs) =
     bindR (add_intermediate_assign_mod l r q) (\<lambda>x. bindR (add_crs_rows q ls rs) (\<lambda>xs. Inr (x # xs)))"
| "add_crs_rows q ls rs = Inr ls"

fun add_crs_loop :: "rlwe_params \<Rightarrow> crs_block list \<Rightarrow> crs_block list \<Rightarrow> ipir_error + crs_block list" where
  "add_crs_loop params (l # ls) (r # rs) =
     (if \<not> crs_square params l \<or> \<not> crs_square params r then Inl (Preprocess_Mismatch ''CRS block must be square'')
      else bindR (add_crs_rows (rlwe_q params) l r) (\<lambda>x. bindR (add_crs_loop params ls rs) (\<lambda>xs. Inr (x # xs))))"
| "add_crs_loop params ls rs = Inr ls"

definition add_crs_blocks_assign_mod ::
  "crs_block list \<Rightarrow> crs_block list \<Rightarrow> rlwe_params \<Rightarrow> ipir_error + crs_block list" where
  "add_crs_blocks_assign_mod accumulator contribution params =
     (if length accumulator \<noteq> length contribution then Inl (Preprocess_Mismatch ''CRS block counts differ'')
      else add_crs_loop params accumulator contribution)"

section \<open>Parameters and plaintexts\<close>

definition global_parameters ::
  "'s ipir_sp \<Rightarrow> u64 \<Rightarrow> database_layout \<Rightarrow> ipir_error + (rlwe_params \<times> scheme_params)" where
  "global_parameters ip logical_rows layout = params_for_simplepir ip logical_rows (dl_item_size_bits layout)"

definition shard_parameters :: "'s ipir_sp \<Rightarrow> database_layout \<Rightarrow> ipir_error + (rlwe_params \<times> scheme_params)" where
  "shard_parameters ip layout = params_for_simplepir ip (of_nat (dl_shard_rows layout)) (dl_item_size_bits layout)"

definition trailing_zeros :: "u64 \<Rightarrow> nat" where
  "trailing_zeros w = length (takeWhile (\<lambda>i. \<not> bit w i) [0..<64])"

text \<open>\<open>RowPlaintextIter\<close>: the item at one position, and all items in order.\<close>

definition row_plaintext :: "'s ipir_sp \<Rightarrow> bytes \<Rightarrow> nat \<Rightarrow> nat \<Rightarrow> nat \<Rightarrow> nat \<Rightarrow> u16" where
  "row_plaintext ip data row_bytes db_cols plaintext_bits position =
     (let row = position div db_cols;
          column = position mod db_cols;
          start = row * row_bytes;
          stop = min (start + row_bytes) (length data);
          bs = (if start \<le> stop then slice_range start stop data else [])
      in ucast (read_bits ip bs (column * plaintext_bits) plaintext_bits))"

definition row_plaintexts :: "'s ipir_sp \<Rightarrow> bytes \<Rightarrow> nat \<Rightarrow> nat \<Rightarrow> nat \<Rightarrow> nat \<Rightarrow> u16 list" where
  "row_plaintexts ip data row_bytes db_rows db_cols plaintext_bits =
     map (row_plaintext ip data row_bytes db_cols plaintext_bits) [0..<db_rows * db_cols]"

section \<open>Shard runtimes\<close>

definition ARTIFACT_VERSION :: u16 where "ARTIFACT_VERSION = 6"

record artifact_metadata =
  am_version :: u16
  am_table :: string
  am_rlwe_degree :: nat
  am_rlwe_modulus :: u64
  am_db_rows :: nat
  am_db_cols :: nat
  am_plaintext_modulus :: u64
  am_shard_id :: u64
  am_query_row_start :: nat
  am_rows_sha256 :: string
  am_database_sha256 :: string
  am_crs_sha256 :: string

record 's shard_runtime =
  sr_shard_id :: u64
  sr_query_row_start :: nat
  sr_rows_sha256 :: string
  sr_server :: 's
  sr_crs_blocks :: "crs_block list"
  sr_prepared_at :: u64

text \<open>
  The process-wide counter of \<open>next_prepared_at\<close> is passed in and returned. A directory is what its three files
  hold; a metadata file is missing, not parseable, or parsed.
\<close>

definition next_prepared_at :: "u64 \<Rightarrow> u64 \<times> u64" where
  "next_prepared_at counter = (counter, counter + 1)"

datatype metadata_file = Metadata_Missing | Metadata_Unreadable | Metadata_Found artifact_metadata

record artifact_dir =
  ad_metadata :: metadata_file
  ad_database :: "bytes option"
  ad_crs :: "bytes option"

type_synonym artifact_root = "string list \<Rightarrow> artifact_dir"

definition empty_artifact_dir :: artifact_dir where
  "empty_artifact_dir = \<lparr> ad_metadata = Metadata_Missing, ad_database = None, ad_crs = None \<rparr>"

definition pad8 :: "string \<Rightarrow> string" where
  "pad8 s = replicate (8 - length s) CHR ''0'' @ s"

definition shard_artifact_dir :: "database_id \<Rightarrow> u64 \<Rightarrow> string list" where
  "shard_artifact_dir table shard_id = [db_as_str table, ''shard-'' @ pad8 (decimal (unat shard_id))]"

text \<open>\<open>sha_hex\<close> is \<open>hex::encode(Sha256::digest(..))\<close>. The ring degree of every parameter set of the crates is
  positive, so the divisions by it do not panic.\<close>

definition build ::
  "'s ipir_sp \<Rightarrow> database_layout \<Rightarrow> u64 \<Rightarrow> nat \<Rightarrow> string \<Rightarrow> bytes \<Rightarrow> rlwe_params \<Rightarrow> u64 list list \<Rightarrow> u64
     \<Rightarrow> ipir_error + ('s shard_runtime \<times> u64)" where
  "build ip layout shard_id query_row_start rows_sha256 rows rlwe global_setup counter =
     (if length rows \<noteq> dl_shard_bytes layout then Inl (Preprocess_Mismatch ''shard has the wrong size'')
      else if \<not> rlwe_d rlwe dvd query_row_start then Inl (Preprocess_Mismatch ''shard query row is not polynomial aligned'')
      else bindR (shard_parameters ip layout) (\<lambda>(_, local_params).
        let coefficients = row_plaintexts ip rows (dl_row_bytes layout) (sp_db_rows local_params) (sp_db_cols local_params)
                             (trailing_zeros (sp_p local_params));
            server = new_auto_kernel ip local_params coefficients False True;
            first_poly = query_row_start div rlwe_d rlwe;
            poly_count = dl_shard_rows layout div rlwe_d rlwe
        in if first_poly + poly_count \<le> length global_setup then
             let setup = take poly_count (drop first_poly global_setup);
                 (prepared_at, counter') = next_prepared_at counter
             in Inr (\<lparr> sr_shard_id = shard_id, sr_query_row_start = query_row_start, sr_rows_sha256 = rows_sha256,
                       sr_server = server, sr_crs_blocks = offline_crs_blocks ip server rlwe setup,
                       sr_prepared_at = prepared_at \<rparr>, counter')
           else Inl (Preprocess_Mismatch ''global setup does not cover shard'')))"

definition evaluate :: "'s ipir_sp \<Rightarrow> 's shard_runtime \<Rightarrow> rlwe_params \<Rightarrow> u64 list \<Rightarrow> ipir_error + u64 list" where
  "evaluate ip rt rlwe query =
     (if length query \<noteq> sp_db_rows (server_params ip (sr_server rt)) then Inl (Lwe_Shape ''shard query coefficients'')
      else if \<exists>coefficient \<in> set query. coefficient \<ge> rlwe_q rlwe
      then Inl (Preprocess_Mismatch ''query coefficient is not reduced modulo q'')
      else Inr (multiply_query ip (sr_server rt) rlwe query))"

definition u16s_of :: "bytes \<Rightarrow> u16 list" where
  "u16s_of raw = map (\<lambda>chunk. of_nat (le_val chunk)) (chunks_exact (length raw div 2) 2 raw)"

definition load ::
  "'s ipir_sp \<Rightarrow> (bytes \<Rightarrow> string) \<Rightarrow> artifact_dir \<Rightarrow> database_id \<Rightarrow> database_layout \<Rightarrow> u64 \<Rightarrow> nat \<Rightarrow> string
     \<Rightarrow> rlwe_params \<Rightarrow> u64 \<Rightarrow> string + ('s shard_runtime \<times> u64)" where
  "load ip sha_hex dir table layout shard_id query_row_start rows_sha256 rlwe counter =
     (case ad_metadata dir of
        Metadata_Missing \<Rightarrow> Inl ''no such file''
      | Metadata_Unreadable \<Rightarrow> Inl ''metadata''
      | Metadata_Found metadata \<Rightarrow>
        if am_version metadata \<noteq> ARTIFACT_VERSION \<or> am_table metadata \<noteq> db_as_str table
           \<or> am_rlwe_degree metadata \<noteq> rlwe_d rlwe \<or> am_rlwe_modulus metadata \<noteq> rlwe_q rlwe
           \<or> am_shard_id metadata \<noteq> shard_id \<or> am_query_row_start metadata \<noteq> query_row_start
           \<or> am_rows_sha256 metadata \<noteq> rows_sha256
        then Inl ''artifact metadata mismatch''
        else bindR (map_err (\<lambda>_. ''parameters'') (shard_parameters ip layout)) (\<lambda>(_, local_params).
          if am_db_rows metadata \<noteq> sp_db_rows local_params \<or> am_db_cols metadata \<noteq> sp_db_cols local_params
             \<or> am_plaintext_modulus metadata \<noteq> sp_p local_params
          then Inl ''persisted artifact parameter mismatch''
          else bindR (ok_or ''no such file'' (ad_database dir)) (\<lambda>raw_db.
            if sha_hex raw_db \<noteq> am_database_sha256 metadata then Inl ''persisted database digest mismatch''
            else if length raw_db \<noteq> sp_db_rows local_params * sp_db_cols local_params * 2
            then Inl ''persisted database has the wrong size''
            else let server = new_auto_kernel ip local_params (u16s_of raw_db) True True in
              bindR (ok_or ''no such file'' (ad_crs dir)) (\<lambda>hint.
                if sha_hex hint \<noteq> am_crs_sha256 metadata then Inl ''persisted CRS digest mismatch''
                else bindR (map_err (\<lambda>_. ''malformed CRS'') (decode_crs_blocks hint (sp_db_cols local_params div rlwe_d rlwe) (rlwe_d rlwe))) (\<lambda>crs_blocks.
                  let (prepared_at, counter') = next_prepared_at counter in
                  Inr (\<lparr> sr_shard_id = shard_id, sr_query_row_start = query_row_start, sr_rows_sha256 = rows_sha256,
                         sr_server = server, sr_crs_blocks = crs_blocks, sr_prepared_at = prepared_at \<rparr>, counter'))))))"

text \<open>
  \<open>persist\<close> replaces the three files one after the other, each atomically (\<open>write_atomic\<close>): \<open>persist_steps\<close> is the
  directory after each of them, the states a crash can leave.
\<close>

definition persist_metadata ::
  "'s ipir_sp \<Rightarrow> (bytes \<Rightarrow> string) \<Rightarrow> database_id \<Rightarrow> rlwe_params \<Rightarrow> 's shard_runtime \<Rightarrow> bytes \<Rightarrow> bytes \<Rightarrow> artifact_metadata" where
  "persist_metadata ip sha_hex table rlwe rt database hint =
     \<lparr> am_version = ARTIFACT_VERSION, am_table = db_as_str table, am_rlwe_degree = rlwe_d rlwe,
       am_rlwe_modulus = rlwe_q rlwe, am_db_rows = sp_db_rows (server_params ip (sr_server rt)),
       am_db_cols = sp_db_cols (server_params ip (sr_server rt)),
       am_plaintext_modulus = sp_p (server_params ip (sr_server rt)), am_shard_id = sr_shard_id rt,
       am_query_row_start = sr_query_row_start rt, am_rows_sha256 = sr_rows_sha256 rt,
       am_database_sha256 = sha_hex database, am_crs_sha256 = sha_hex hint \<rparr>"

definition persist_steps ::
  "'s ipir_sp \<Rightarrow> (bytes \<Rightarrow> string) \<Rightarrow> 's shard_runtime \<Rightarrow> database_id \<Rightarrow> rlwe_params \<Rightarrow> artifact_dir \<Rightarrow> artifact_dir list" where
  "persist_steps ip sha_hex rt table rlwe dir =
     (let database = concat (map u16_le (server_db ip (sr_server rt)));
          hint = encode_crs_blocks (sr_crs_blocks rt);
          dir1 = dir \<lparr> ad_database := Some database \<rparr>;
          dir2 = dir1 \<lparr> ad_crs := Some hint \<rparr>;
          dir3 = dir2 \<lparr> ad_metadata := Metadata_Found (persist_metadata ip sha_hex table rlwe rt database hint) \<rparr>
      in [dir1, dir2, dir3])"

definition persist ::
  "'s ipir_sp \<Rightarrow> (bytes \<Rightarrow> string) \<Rightarrow> 's shard_runtime \<Rightarrow> database_id \<Rightarrow> rlwe_params \<Rightarrow> artifact_dir \<Rightarrow> artifact_dir" where
  "persist ip sha_hex rt table rlwe dir = last (persist_steps ip sha_hex rt table rlwe dir)"

definition load_cached ::
  "'s ipir_sp \<Rightarrow> (bytes \<Rightarrow> string) \<Rightarrow> artifact_root \<Rightarrow> database_id \<Rightarrow> database_layout \<Rightarrow> u64 \<Rightarrow> nat \<Rightarrow> string
     \<Rightarrow> rlwe_params \<Rightarrow> u64 \<Rightarrow> string + ('s shard_runtime \<times> u64)" where
  "load_cached ip sha_hex root table layout shard_id query_row_start rows_sha256 rlwe counter =
     load ip sha_hex (root (shard_artifact_dir table shard_id)) table layout shard_id query_row_start rows_sha256 rlwe counter"

definition load_or_build ::
  "'s ipir_sp \<Rightarrow> (bytes \<Rightarrow> string) \<Rightarrow> artifact_root \<Rightarrow> database_id \<Rightarrow> database_layout \<Rightarrow> u64 \<Rightarrow> nat \<Rightarrow> string \<Rightarrow> bytes
     \<Rightarrow> rlwe_params \<Rightarrow> u64 list list \<Rightarrow> u64 \<Rightarrow> ipir_error + ('s shard_runtime \<times> bool \<times> artifact_root \<times> u64)" where
  "load_or_build ip sha_hex root table layout shard_id query_row_start rows_sha256 rows rlwe global_setup counter =
     (let directory = shard_artifact_dir table shard_id in
      case load ip sha_hex (root directory) table layout shard_id query_row_start rows_sha256 rlwe counter of
        Inr (runtime, counter') \<Rightarrow> Inr (runtime, False, root, counter')
      | Inl _ \<Rightarrow>
        bindR (build ip layout shard_id query_row_start rows_sha256 rows rlwe global_setup counter) (\<lambda>(runtime, counter').
          Inr (runtime, True, root(directory := persist ip sha_hex runtime table rlwe (root directory)), counter')))"

section \<open>Adding intermediates\<close>

lemma unat_add_mod:
  assumes "0 < m"
  shows "unat (add_mod m l r) = (unat l + unat r) mod unat m"
proof -
  have m: "0 < unat m" using assms by (simp add: word_less_nat_alt)
  have u: "unat (ucast w :: 128 word) = unat w" for w :: u64
    using unat_u64_lt [of w] by (simp add: unsigned_ucast_eq take_bit_nat_eq_self)
  have "unat ((ucast l :: 128 word) + ucast r) = unat l + unat r"
    using unat_u64_lt [of l] unat_u64_lt [of r] by (subst unat_add_nowrap) (simp_all add: u)
  then have s: "unat (((ucast l :: 128 word) + ucast r) mod ucast m) = (unat l + unat r) mod unat m"
    by (simp add: unat_mod_distrib u)
  have "(unat l + unat r) mod unat m < 2 ^ 64" using m unat_u64_lt [of m] by (meson mod_less_divisor less_trans)
  then show ?thesis
    by (simp add: add_mod_def Let_def unsigned_ucast_eq s take_bit_nat_eq_self)
qed

definition reduced :: "u64 \<Rightarrow> u64 list \<Rightarrow> bool" where
  "reduced q xs \<longleftrightarrow> (\<forall>x \<in> set xs. x < q)"

lemma add_mod_less: "0 < q \<Longrightarrow> add_mod q l r < q"
  by (simp add: word_less_nat_alt unat_add_mod)

lemma add_coefficients_iff:
  assumes "length xs = length ys"
  shows "add_coefficients q xs ys = Inr zs \<longleftrightarrow> reduced q xs \<and> reduced q ys \<and> zs = map2 (add_mod q) xs ys"
  using assms
proof (induction xs ys arbitrary: zs rule: list_induct2)
  case Nil
  then show ?case by (auto simp: reduced_def)
next
  case (Cons x xs y ys)
  then show ?case by (auto simp: reduced_def bindR_Inr_iff not_le)
qed

lemma add_intermediate_iff:
  "add_intermediate_assign_mod xs ys q = Inr zs \<longleftrightarrow>
     2 \<le> q \<and> length xs = length ys \<and> reduced q xs \<and> reduced q ys \<and> zs = map2 (add_mod q) xs ys"
  by (auto simp: add_intermediate_assign_mod_def add_coefficients_iff not_less)

lemma reduced_map2_add_mod: "2 \<le> q \<Longrightarrow> reduced q (map2 (add_mod q) xs ys)"
proof -
  assume "2 \<le> q"
  then have "0 < unat q" by (simp add: word_le_nat_alt)
  then have "0 < q" by (simp add: word_less_nat_alt)
  then show ?thesis by (auto simp: reduced_def add_mod_less)
qed

lemma reduced_zeros: "2 \<le> q \<Longrightarrow> reduced q (replicate n 0)"
  by (auto simp: reduced_def word_le_nat_alt word_less_nat_alt)

text \<open>
  Accumulating parts: the coordinate-wise sum modulo \<open>q\<close>, whatever the order of the additions. The step may be any function
  that adds the part of its item.
\<close>

lemma fold_parts:
  assumes q: "2 \<le> q"
    and step: "\<And>i acc. i \<in> set is \<Longrightarrow> length acc = w \<Longrightarrow> reduced q acc \<Longrightarrow> step i acc = Inr (map2 (add_mod q) acc (part i))"
    and parts: "\<And>i. i \<in> set is \<Longrightarrow> length (part i) = w"
    and acc: "length acc = w" "reduced q acc"
  shows "\<exists>acc'. foldR step is acc = Inr acc' \<and> length acc' = w \<and> reduced q acc'
     \<and> (\<forall>c < w. unat (acc' ! c) = (unat (acc ! c) + (\<Sum>i\<leftarrow>is. unat (part i ! c))) mod unat q)"
  using step parts acc
proof (induction "is" arbitrary: acc)
  case Nil
  then have "\<forall>c < w. unat (acc ! c) < unat q"
    by (auto simp: reduced_def word_less_nat_alt)
  with Nil show ?case by simp
next
  case (Cons i "is")
  let ?acc = "map2 (add_mod q) acc (part i)"
  have i: "step i acc = Inr ?acc" "length (part i) = w" using Cons.prems by auto
  have q0: "0 < q" using q by (auto simp: word_le_nat_alt word_less_nat_alt)
  have len: "length ?acc = w" using i Cons.prems by simp
  have "\<exists>acc'. foldR step is ?acc = Inr acc' \<and> length acc' = w \<and> reduced q acc'
     \<and> (\<forall>c < w. unat (acc' ! c) = (unat (?acc ! c) + (\<Sum>i\<leftarrow>is. unat (part i ! c))) mod unat q)"
    by (rule Cons.IH) (use Cons.prems len reduced_map2_add_mod [OF q] in auto)
  then obtain acc' where acc': "foldR step is ?acc = Inr acc'" "length acc' = w" "reduced q acc'"
    "\<And>c. c < w \<Longrightarrow> unat (acc' ! c) = (unat (?acc ! c) + (\<Sum>i\<leftarrow>is. unat (part i ! c))) mod unat q"
    by blast
  have "unat (acc' ! c) = (unat (acc ! c) + (\<Sum>i\<leftarrow>i # is. unat (part i ! c))) mod unat q" if "c < w" for c
    using acc'(4) [OF that] that i(2) Cons.prems(3) by (simp add: unat_add_mod [OF q0] mod_simps add.assoc)
  with acc' i(1) show ?case by (intro exI [of _ acc']) simp
qed

lemma fold_intermediates:
  assumes q: "2 \<le> q"
    and parts: "\<And>i. i \<in> set is \<Longrightarrow> f i = Inr (part i) \<and> length (part i) = w \<and> reduced q (part i)"
    and acc: "length acc = w" "reduced q acc"
  shows "\<exists>acc'. foldR (\<lambda>i acc. bindR (f i) (\<lambda>p. add_intermediate_assign_mod acc p q)) is acc = Inr acc'
     \<and> length acc' = w \<and> reduced q acc'
     \<and> (\<forall>c < w. unat (acc' ! c) = (unat (acc ! c) + (\<Sum>i\<leftarrow>is. unat (part i ! c))) mod unat q)"
  by (rule fold_parts [OF q _ _ acc]) (use parts q in \<open>simp_all add: add_intermediate_iff\<close>)

section \<open>Row shards and the whole database\<close>

definition mat_vec :: "nat \<Rightarrow> nat \<Rightarrow> (nat \<Rightarrow> nat \<Rightarrow> nat) \<Rightarrow> u64 list \<Rightarrow> nat list" where
  "mat_vec q cols M v = map (\<lambda>c. (\<Sum>r<length v. unat (v ! r) * M r c) mod q) [0..<cols]"

text \<open>
  What the sharding relies on: a server reports the parameters it was made with, and multiplying a query is the matrix-vector
  product modulo \<open>q\<close> of the coefficients it was given row by row.
\<close>

definition linear_kernel :: "'s ipir_sp \<Rightarrow> bool" where
  "linear_kernel ip \<longleftrightarrow> (\<forall>params cs rlwe query.
     server_params ip (new_auto_kernel ip params cs False True) = params \<and>
     (2 \<le> rlwe_q rlwe \<and> length cs = sp_db_rows params * sp_db_cols params \<and> length query = sp_db_rows params
        \<and> reduced (rlwe_q rlwe) query \<longrightarrow>
      map unat (multiply_query ip (new_auto_kernel ip params cs False True) rlwe query) =
        mat_vec (unat (rlwe_q rlwe)) (sp_db_cols params) (\<lambda>r c. unat (cs ! (r * sp_db_cols params + c))) query))"

lemma kernel_product:
  assumes "linear_kernel ip" and "2 \<le> rlwe_q rlwe" and "length cs = sp_db_rows params * sp_db_cols params"
    and "length query = sp_db_rows params" and "reduced (rlwe_q rlwe) query"
  defines "s \<equiv> new_auto_kernel ip params cs False True"
  shows "length (multiply_query ip s rlwe query) = sp_db_cols params"
    and "reduced (rlwe_q rlwe) (multiply_query ip s rlwe query)"
    and "c < sp_db_cols params \<Longrightarrow> unat (multiply_query ip s rlwe query ! c) =
       (\<Sum>r \<in> {..<sp_db_rows params}. unat (query ! r) * unat (cs ! (r * sp_db_cols params + c))) mod unat (rlwe_q rlwe)"
proof -
  have e: "map unat (multiply_query ip s rlwe query) =
      mat_vec (unat (rlwe_q rlwe)) (sp_db_cols params) (\<lambda>r c. unat (cs ! (r * sp_db_cols params + c))) query"
    using assms unfolding linear_kernel_def by blast
  from arg_cong [OF this, where f = length] show len: "length (multiply_query ip s rlwe query) = sp_db_cols params"
    by (simp add: mat_vec_def)
  show at: "unat (multiply_query ip s rlwe query ! c) =
       (\<Sum>r \<in> {..<sp_db_rows params}. unat (query ! r) * unat (cs ! (r * sp_db_cols params + c))) mod unat (rlwe_q rlwe)"
    if "c < sp_db_cols params" for c
    using arg_cong [OF e, where f = "\<lambda>xs. xs ! c"] that len assms(4) by (simp add: mat_vec_def)
  have "0 < unat (rlwe_q rlwe)" using assms(2) by (simp add: word_le_nat_alt)
  then show "reduced (rlwe_q rlwe) (multiply_query ip s rlwe query)"
    by (auto simp: reduced_def in_set_conv_nth len at word_less_nat_alt)
qed

lemma row_plaintext_eq:
  "row_plaintext ip data rb cols bits position =
     ucast (read_bits ip (take rb (drop (position div cols * rb) data)) (position mod cols * bits) bits)"
  by (auto simp: row_plaintext_def Let_def slice_range_def min_def)

lemma row_position_less:
  fixes r c cols R :: nat
  assumes "r < R" and "c < cols"
  shows "r * cols + c < R * cols"
proof -
  have "r * cols + c < (r + 1) * cols" using assms(2) by simp
  also have "\<dots> \<le> R * cols" using assms(1) by (intro mult_le_mono1) simp
  finally show ?thesis .
qed

lemma nth_row_plaintexts:
  assumes "r < R" and "c < cols"
  shows "row_plaintexts ip data rb R cols bits ! (r * cols + c)
     = ucast (read_bits ip (take rb (drop (r * rb) data)) (c * bits) bits)"
  using row_position_less [OF assms] assms(2) by (simp add: row_plaintexts_def row_plaintext_eq)

text \<open>Coefficient \<open>c\<close> of row \<open>r\<close> of shard \<open>i\<close> is coefficient \<open>c\<close> of row \<open>i * R + r\<close> of the whole database.\<close>

lemma shard_plaintext:
  assumes shards: "\<forall>x \<in> set xs. length x = R * rb" and "i < length xs" and "r < R" and "c < cols"
  shows "row_plaintexts ip (concat xs) rb (length xs * R) cols bits ! ((i * R + r) * cols + c)
     = row_plaintexts ip (xs ! i) rb R cols bits ! (r * cols + c)"
proof -
  have "r * rb + rb \<le> R * rb" using assms(3) by (metis Suc_leI add.commute mult_Suc mult_le_mono1)
  then have "take rb (drop (i * (R * rb) + r * rb) (concat xs)) = take rb (drop (r * rb) (xs ! i))"
    using concat_slice [OF shards assms(2), of "r * rb" rb] by simp
  then have bytes: "take rb (drop ((i * R + r) * rb) (concat xs)) = take rb (drop (r * rb) (xs ! i))"
    by (simp add: add_mult_distrib mult.assoc)
  then show ?thesis using row_position_less [OF assms(2,3)] by (simp only: nth_row_plaintexts assms)
qed

lemma sum_row_shards:
  fixes f :: "nat \<Rightarrow> nat"
  assumes "n * R \<le> L" and "\<And>r. n * R \<le> r \<Longrightarrow> r < L \<Longrightarrow> f r = 0"
  shows "(\<Sum>r<L. f r) = (\<Sum>i<n. \<Sum>r<R. f (i * R + r))"
proof -
  have "(\<Sum>r<L. f r) = (\<Sum>r<n * R. f r)"
    using assms by (intro sum.mono_neutral_right) auto
  also have "\<dots> = (\<Sum>i<n. sum f {i * R..<i * R + R})" by (simp add: sum.nat_group)
  also have "\<dots> = (\<Sum>i<n. \<Sum>r<R. f (i * R + r))"
    using sum.shift_bounds_nat_ivl [of f 0 "_ * R" R] by (simp add: atLeast0LessThan add.commute)
  finally show ?thesis .
qed

text \<open>The coefficients of \<open>n\<close> shards followed by zero rows up to the \<open>L\<close> rows of the global database.\<close>

definition padded_plaintexts :: "'s ipir_sp \<Rightarrow> bytes list \<Rightarrow> nat \<Rightarrow> nat \<Rightarrow> nat \<Rightarrow> nat \<Rightarrow> nat \<Rightarrow> u16 list" where
  "padded_plaintexts ip shards rb R L cols bits =
     row_plaintexts ip (concat shards) rb (length shards * R) cols bits @ replicate ((L - length shards * R) * cols) 0"

lemma length_row_plaintexts [simp]: "length (row_plaintexts ip data rb R cols bits) = R * cols"
  by (simp add: row_plaintexts_def)

lemma length_padded: "length shards * R \<le> L \<Longrightarrow> length (padded_plaintexts ip shards rb R L cols bits) = L * cols"
  by (simp add: padded_plaintexts_def flip: add_mult_distrib)

lemma padded_plaintexts_nth:
  assumes "\<forall>x \<in> set xs. length x = R * rb" and "c < cols"
  shows "i < length xs \<Longrightarrow> r < R \<Longrightarrow> padded_plaintexts ip xs rb R L cols bits ! ((i * R + r) * cols + c)
        = row_plaintexts ip (xs ! i) rb R cols bits ! (r * cols + c)"
    and "length xs * R \<le> k \<Longrightarrow> k < L \<Longrightarrow> padded_plaintexts ip xs rb R L cols bits ! (k * cols + c) = 0"
proof -
  assume i: "i < length xs" "r < R"
  from row_position_less [OF row_position_less [OF i] assms(2)]
  show "padded_plaintexts ip xs rb R L cols bits ! ((i * R + r) * cols + c)
        = row_plaintexts ip (xs ! i) rb R cols bits ! (r * cols + c)"
    by (simp only: padded_plaintexts_def nth_append length_row_plaintexts if_True shard_plaintext [OF assms(1) i assms(2)])
next
  assume k: "length xs * R \<le> k" "k < L"
  then have "length xs * R * cols \<le> k * cols + c" by (simp add: trans_le_add1)
  moreover have "k * cols + c - length xs * R * cols < (L - length xs * R) * cols"
    using row_position_less [OF k(2) assms(2)] calculation by (simp add: diff_mult_distrib)
  ultimately show "padded_plaintexts ip xs rb R L cols bits ! (k * cols + c) = 0"
    by (simp add: padded_plaintexts_def nth_append)
qed

lemma build_iff:
  assumes "shard_parameters ip layout = Inr (rlwe0, lp)"
  shows "build ip layout shard_id start digest rows rlwe gsetup counter = Inr (rt, counter') \<longleftrightarrow>
     length rows = dl_shard_bytes layout \<and> rlwe_d rlwe dvd start
     \<and> start div rlwe_d rlwe + dl_shard_rows layout div rlwe_d rlwe \<le> length gsetup \<and> counter' = counter + 1
     \<and> rt = \<lparr> sr_shard_id = shard_id, sr_query_row_start = start, sr_rows_sha256 = digest,
          sr_server = new_auto_kernel ip lp (row_plaintexts ip rows (dl_row_bytes layout) (sp_db_rows lp) (sp_db_cols lp)
            (trailing_zeros (sp_p lp))) False True,
          sr_crs_blocks = offline_crs_blocks ip (new_auto_kernel ip lp (row_plaintexts ip rows (dl_row_bytes layout)
            (sp_db_rows lp) (sp_db_cols lp) (trailing_zeros (sp_p lp))) False True) rlwe
            (take (dl_shard_rows layout div rlwe_d rlwe) (drop (start div rlwe_d rlwe) gsetup)),
          sr_prepared_at = counter \<rparr>"
  by (auto simp: build_def assms Let_def next_prepared_at_def)

text \<open>One shard's answer: the matrix-vector product of its rows with its slice of the query.\<close>

lemma evaluate_server:
  assumes kernel: "linear_kernel ip" and q: "2 \<le> rlwe_q rlwe"
    and server: "sr_server rt = new_auto_kernel ip lp cs False True" "length cs = sp_db_rows lp * sp_db_cols lp"
    and query: "length query = sp_db_rows lp" "reduced (rlwe_q rlwe) query"
  shows "\<exists>part. evaluate ip rt rlwe query = Inr part \<and> length part = sp_db_cols lp \<and> reduced (rlwe_q rlwe) part
     \<and> (\<forall>c < sp_db_cols lp. unat (part ! c) =
          (\<Sum>r \<in> {..<sp_db_rows lp}. unat (query ! r) * unat (cs ! (r * sp_db_cols lp + c))) mod unat (rlwe_q rlwe))"
proof -
  have "server_params ip (sr_server rt) = lp" using kernel by (simp add: server linear_kernel_def)
  then have "evaluate ip rt rlwe query = Inr (multiply_query ip (sr_server rt) rlwe query)"
    using query by (auto simp: evaluate_def reduced_def not_le)
  with kernel_product [OF kernel q server(2) query] show ?thesis
    by (intro exI [of _ "multiply_query ip (sr_server rt) rlwe query"]) (simp add: server)
qed

lemma evaluate_built:
  assumes "linear_kernel ip" and "2 \<le> rlwe_q rlwe"
    and params: "shard_parameters ip layout = Inr (rlwe0, lp)"
    and built: "build ip layout shard_id start digest rows rlwe gsetup counter = Inr (rt, counter')"
    and "length query = sp_db_rows lp" and "reduced (rlwe_q rlwe) query"
  shows "\<exists>part. evaluate ip rt rlwe query = Inr part \<and> length part = sp_db_cols lp \<and> reduced (rlwe_q rlwe) part
     \<and> (\<forall>c < sp_db_cols lp. unat (part ! c) = (\<Sum>r \<in> {..<sp_db_rows lp}. unat (query ! r)
          * unat (row_plaintexts ip rows (dl_row_bytes layout) (sp_db_rows lp) (sp_db_cols lp) (trailing_zeros (sp_p lp))
               ! (r * sp_db_cols lp + c))) mod unat (rlwe_q rlwe))"
  by (rule evaluate_server) (use assms in \<open>simp_all add: build_iff [OF params]\<close>)

text \<open>The answer of one server holding all shards and zero rows: the sum over the shards of the products of their rows.\<close>

lemma whole_product:
  fixes bits :: nat
  assumes kernel: "linear_kernel ip" and q: "2 \<le> rlwe_q rlwe" and shards: "\<forall>x \<in> set shards. length x = R * rb"
    and gp: "length shards * R \<le> sp_db_rows gp" "sp_db_cols gp = w"
    and query: "length query = sp_db_rows gp" "reduced (rlwe_q rlwe) query"
  defines "whole \<equiv> multiply_query ip (new_auto_kernel ip gp (padded_plaintexts ip shards rb R (sp_db_rows gp) w bits) False True) rlwe query"
  shows "length whole = w"
    and "c < w \<Longrightarrow> unat (whole ! c) = (\<Sum>i<length shards. \<Sum>r<R. unat (query ! (i * R + r))
          * unat (row_plaintexts ip (shards ! i) rb R w bits ! (r * w + c))) mod unat (rlwe_q rlwe)"
proof -
  have len: "length (padded_plaintexts ip shards rb R (sp_db_rows gp) w bits) = sp_db_rows gp * sp_db_cols gp"
    using length_padded [OF gp(1)] gp(2) by simp
  note product = kernel_product [OF kernel q len query]
  show "length whole = w" using product(1) gp(2) by (simp add: whole_def)
  assume c: "c < w"
  have "(\<Sum>r \<in> {..<sp_db_rows gp}. unat (query ! r) * unat (padded_plaintexts ip shards rb R (sp_db_rows gp) w bits ! (r * w + c)))
      = (\<Sum>i<length shards. \<Sum>r<R. unat (query ! (i * R + r)) * unat (row_plaintexts ip (shards ! i) rb R w bits ! (r * w + c)))"
    by (subst sum_row_shards [OF gp(1)]) (auto intro!: sum.cong simp: padded_plaintexts_nth [OF shards c])
  then show "unat (whole ! c) = (\<Sum>i<length shards. \<Sum>r<R. unat (query ! (i * R + r))
          * unat (row_plaintexts ip (shards ! i) rb R w bits ! (r * w + c))) mod unat (rlwe_q rlwe)"
    using product(3) [of c] c gp(2) by (simp add: whole_def)
qed

section \<open>Persisted artifacts\<close>

lemma u16s_of_le: "u16s_of (concat (map u16_le xs)) = xs" and length_u16s_le: "length (concat (map u16_le xs)) = length xs * 2"
proof -
  show len: "length (concat (map u16_le xs)) = length xs * 2" using length_concat_const [of "map u16_le xs" 2] by simp
  have "chunks_exact (length xs) 2 (concat (map u16_le xs)) = map u16_le xs"
    using chunks_exact_concat [of "map u16_le xs" 2] by simp
  then show "u16s_of (concat (map u16_le xs)) = xs" by (simp add: u16s_of_def len comp_def)
qed

text \<open>
  What the artifact cache relies on: a server can be made again from its own coefficients, as many as it was
  given, and the offline phase returns one square block per \<open>d\<close> columns.
\<close>

definition persistent_kernel :: "'s ipir_sp \<Rightarrow> bool" where
  "persistent_kernel ip \<longleftrightarrow> (\<forall>params cs.
     server_params ip (new_auto_kernel ip params cs False True) = params
     \<and> length (server_db ip (new_auto_kernel ip params cs False True)) = length cs
     \<and> new_auto_kernel ip params (server_db ip (new_auto_kernel ip params cs False True)) True True
         = new_auto_kernel ip params cs False True)"

definition square_crs :: "'s ipir_sp \<Rightarrow> bool" where
  "square_crs ip \<longleftrightarrow> (\<forall>s rlwe gsetup.
     length (offline_crs_blocks ip s rlwe gsetup) = sp_db_cols (server_params ip s) div rlwe_d rlwe
     \<and> (\<forall>block \<in> set (offline_crs_blocks ip s rlwe gsetup). crs_square rlwe block))"

lemma decode_square_crs:
  assumes "length (encode_crs_blocks blocks) < 2 ^ 64" and "length blocks < 2 ^ 32" and "rlwe_d rlwe < 2 ^ 32"
    and "\<forall>block \<in> set blocks. crs_square rlwe block"
  shows "decode_crs_blocks (encode_crs_blocks blocks) (length blocks) (rlwe_d rlwe) = Inr blocks"
  using assms by (auto simp: decode_crs_iff [OF assms(1)] block_ok_def crs_square_def)

lemma load_other:
  assumes "ad_metadata dir = Metadata_Found m"
    and "am_table m \<noteq> db_as_str table \<or> am_shard_id m \<noteq> shard_id \<or> am_query_row_start m \<noteq> start \<or> am_rows_sha256 m \<noteq> digest"
  shows "load ip sha_hex dir table layout shard_id start digest rlwe k = Inl ''artifact metadata mismatch''"
  using assms by (auto simp: load_def)

lemma load_needs_digest:
  assumes "load ip sha_hex dir table layout shard_id start digest rlwe k = Inr r"
  shows "\<exists>m raw. ad_metadata dir = Metadata_Found m \<and> ad_database dir = Some raw \<and> sha_hex raw = am_database_sha256 m"
  using assms by (auto simp: load_def bindR_Inr_iff Let_def split: metadata_file.splits if_splits)

lemma persist_unfold:
  "persist ip sha_hex rt table rlwe dir = dir \<lparr> ad_database := Some (concat (map u16_le (server_db ip (sr_server rt)))),
      ad_crs := Some (encode_crs_blocks (sr_crs_blocks rt)),
      ad_metadata := Metadata_Found (persist_metadata ip sha_hex table rlwe rt
        (concat (map u16_le (server_db ip (sr_server rt)))) (encode_crs_blocks (sr_crs_blocks rt))) \<rparr>"
  by (simp add: persist_def persist_steps_def Let_def)

lemma load_persisted:
  assumes kernel: "persistent_kernel ip" and crs: "square_crs ip"
    and params: "shard_parameters ip layout = Inr (rlwe0, lp)"
    and built: "build ip layout shard_id start digest rows rlwe gsetup counter = Inr (rt, counter')"
    and small: "length (encode_crs_blocks (sr_crs_blocks rt)) < 2 ^ 64" "length (sr_crs_blocks rt) < 2 ^ 32" "rlwe_d rlwe < 2 ^ 32"
  shows "load ip sha_hex (persist ip sha_hex rt table rlwe dir) table layout shard_id start digest rlwe k
     = Inr (rt \<lparr> sr_prepared_at := k \<rparr>, k + 1)"
proof -
  note rt = built [unfolded build_iff [OF params]]
  let ?cs = "row_plaintexts ip rows (dl_row_bytes layout) (sp_db_rows lp) (sp_db_cols lp) (trailing_zeros (sp_p lp))"
  have s: "sr_server rt = new_auto_kernel ip lp ?cs False True" using rt by simp
  have lp: "server_params ip (sr_server rt) = lp" and db: "length (server_db ip (sr_server rt)) = sp_db_rows lp * sp_db_cols lp"
    and again: "new_auto_kernel ip lp (server_db ip (sr_server rt)) True True = sr_server rt"
    using kernel by (auto simp: s persistent_kernel_def)
  have "length (sr_crs_blocks rt) = sp_db_cols lp div rlwe_d rlwe" "\<forall>block \<in> set (sr_crs_blocks rt). crs_square rlwe block"
    using crs rt lp by (auto simp: square_crs_def)
  with decode_square_crs [OF small] have decode:
    "decode_crs_blocks (encode_crs_blocks (sr_crs_blocks rt)) (sp_db_cols lp div rlwe_d rlwe) (rlwe_d rlwe) = Inr (sr_crs_blocks rt)"
    by simp
  have ids: "sr_shard_id rt = shard_id" "sr_query_row_start rt = start" "sr_rows_sha256 rt = digest" using rt by auto
  show ?thesis
    by (simp add: load_def persist_unfold persist_metadata_def params lp ids length_u16s_le u16s_of_le db again decode
        next_prepared_at_def flip: ids)
qed

lemma add_crs_rows_iff:
  assumes "length xs = length ys"
  shows "add_crs_rows q xs ys = Inr zs \<longleftrightarrow> list_all2 (\<lambda>(x, y) z. add_intermediate_assign_mod x y q = Inr z) (zip xs ys) zs"
  using assms
proof (induction xs ys arbitrary: zs rule: list_induct2)
  case (Cons x xs y ys)
  then show ?case by (cases zs) (auto simp: bindR_Inr_iff)
qed auto

section \<open>Properties\<close>

text \<open>
  C31. Row sharding is exact: when every shard of a database has been built from its rows, evaluating each shard
  on its slice of the query and adding the answers with \<open>add_intermediate_assign_mod\<close> never fails and gives, coefficient
  by coefficient, the answer of one server holding the whole database, padded with zero rows up to the number of
  rows of the query. The hypothesis on the cryptographic crate is that multiplying a query is the matrix-vector
  product modulo \<open>q\<close>.
\<close>

theorem sharded_product:
  assumes kernel: "linear_kernel ip" and q: "2 \<le> rlwe_q rlwe"
    and params: "shard_parameters ip layout = Inr (rlwe0, lp)" "sp_db_rows lp = dl_shard_rows layout"
    and built: "\<forall>i < length shards. build ip layout (of_nat i) (i * dl_shard_rows layout) (digest i) (shards ! i) rlwe gsetup
        (counter i) = Inr (rt i, counter' i)"
    and gp: "sp_db_cols gp = sp_db_cols lp" "length shards * dl_shard_rows layout \<le> sp_db_rows gp"
    and query: "length query = sp_db_rows gp" "reduced (rlwe_q rlwe) query"
  shows "foldR (\<lambda>i acc. bindR (evaluate ip (rt i) rlwe (take (dl_shard_rows layout) (drop (i * dl_shard_rows layout) query)))
             (\<lambda>part. add_intermediate_assign_mod acc part (rlwe_q rlwe))) [0..<length shards] (replicate (sp_db_cols lp) 0)
     = Inr (multiply_query ip (new_auto_kernel ip gp (padded_plaintexts ip shards (dl_row_bytes layout) (dl_shard_rows layout)
             (sp_db_rows gp) (sp_db_cols lp) (trailing_zeros (sp_p lp))) False True) rlwe query)"
    (is "foldR ?step _ _ = Inr ?whole")
proof -
  let ?R = "dl_shard_rows layout" and ?n = "length shards" and ?q = "rlwe_q rlwe" and ?w = "sp_db_cols lp"
  let ?rb = "dl_row_bytes layout" and ?bits = "trailing_zeros (sp_p lp)"
  let ?slice = "\<lambda>i. take ?R (drop (i * ?R) query)"
  let ?cell = "\<lambda>i r c. unat (query ! (i * ?R + r)) * unat (row_plaintexts ip (shards ! i) ?rb ?R ?w ?bits ! (r * ?w + c))"
  have fits: "i * ?R + ?R \<le> length query" if "i < ?n" for i
    using that gp(2) query(1) by (metis Suc_leI add.commute mult_Suc mult_le_mono1 order_trans)
  have slice: "length (?slice i) = sp_db_rows lp" "reduced ?q (?slice i)" "\<And>r. r < ?R \<Longrightarrow> ?slice i ! r = query ! (i * ?R + r)"
    if "i < ?n" for i
    using fits [OF that] query(2) params(2) by (auto simp: reduced_def dest: in_set_takeD in_set_dropD)
  define part where "part i = projr (evaluate ip (rt i) rlwe (?slice i))" for i
  have part: "evaluate ip (rt i) rlwe (?slice i) = Inr (part i) \<and> length (part i) = ?w \<and> reduced ?q (part i)"
    "\<And>c. c < ?w \<Longrightarrow> unat (part i ! c) = (\<Sum>r<?R. ?cell i r c) mod unat ?q" if "i < ?n" for i
    using evaluate_built [OF kernel q params(1) built [rule_format, OF that] slice(1,2) [OF that]] slice(3) [OF that] params(2)
    by (auto simp: part_def)
  obtain acc where acc: "foldR ?step [0..<?n] (replicate ?w 0) = Inr acc" "length acc = ?w"
      "\<And>c. c < ?w \<Longrightarrow> unat (acc ! c) = (\<Sum>i<?n. unat (part i ! c)) mod unat ?q"
    using fold_intermediates [OF q, of "[0..<?n]" "\<lambda>i. evaluate ip (rt i) rlwe (?slice i)" part ?w "replicate ?w 0"] part(1)
      reduced_zeros [OF q] by (auto simp: interv_sum_list_conv_sum_set_nat atLeast0LessThan)
  have shards: "\<forall>x \<in> set shards. length x = ?R * ?rb"
    using built by (auto simp: in_set_conv_nth build_iff [OF params(1)] dl_shard_bytes_def)
  note whole = whole_product [OF kernel q shards gp(2,1) query, where bits = ?bits]
  have "unat (acc ! c) = unat (?whole ! c)" if "c < ?w" for c
  proof -
    have "unat (acc ! c) = (\<Sum>i<?n. (\<Sum>r<?R. ?cell i r c) mod unat ?q) mod unat ?q"
      using part(2) that by (simp add: acc(3))
    then show ?thesis using whole(2) [OF that] by (simp add: mod_sum_eq)
  qed
  then have "acc = ?whole"
    using whole(1) acc(2) by (intro nth_equalityI) (auto simp: word_unat_eq_iff)
  then show ?thesis using acc(1) by simp
qed

text \<open>
  A concrete library for the witnesses: a server that keeps its coefficients, one column per byte of a row and
  the ring of degree one.
\<close>

definition table_ipir :: "(scheme_params \<times> u16 list) ipir_sp" where
  "table_ipir = \<lparr>
     params_for_simplepir = (\<lambda>rows bits. Inr (\<lparr> rlwe_d = 1, rlwe_q = 65537 \<rparr>,
        \<lparr> sp_db_rows = unat rows, sp_db_cols = unat bits div 8, sp_p = 256, sp_query_bits = 17, sp_q_prime_1 = 256 \<rparr>)),
     new_auto_kernel = (\<lambda>params cs _ _. (params, cs)),
     server_params = fst,
     server_db = snd,
     multiply_query = (\<lambda>(params, cs) rlwe v. map of_nat (mat_vec (unat (rlwe_q rlwe)) (sp_db_cols params)
        (\<lambda>r c. unat (cs ! (r * sp_db_cols params + c))) v)),
     offline_crs_blocks = (\<lambda>(params, cs) rlwe gsetup.
        replicate (sp_db_cols params div rlwe_d rlwe) (replicate (rlwe_d rlwe) (replicate (rlwe_d rlwe) 0))),
     query_from_switched_bytes = (\<lambda>bs n q bits. Inr (map ucast bs)),
     public_query_setup = (\<lambda>rlwe params seed. replicate (sp_db_rows params div rlwe_d rlwe) []),
     read_bits = (\<lambda>bs offset n. if offset div 8 < length bs then ucast (bs ! (offset div 8)) else 0) \<rparr>"

lemma table_ipir_laws: "linear_kernel table_ipir" "persistent_kernel table_ipir" "square_crs table_ipir"
proof -
  have "unat (of_nat (x mod unat q) :: u64) = x mod unat q" if "2 \<le> q" for x :: nat and q :: u64
  proof (rule unat_of_nat_u64)
    have "0 < unat q" using that by (simp add: word_le_nat_alt)
    then show "x mod unat q < 2 ^ 64" using unat_u64_lt [of q] by (meson mod_less_divisor less_trans)
  qed
  then show "linear_kernel table_ipir" by (simp add: linear_kernel_def table_ipir_def mat_vec_def)
  show "persistent_kernel table_ipir" by (simp add: persistent_kernel_def table_ipir_def)
  show "square_crs table_ipir" by (auto simp: square_crs_def table_ipir_def crs_square_def)
qed

definition sample_layout :: database_layout where
  "sample_layout = \<lparr> dl_record_bytes = 1, dl_records_per_row = 2, dl_shard_rows = 2 \<rparr>"

definition sample_rlwe :: rlwe_params where
  "sample_rlwe = \<lparr> rlwe_d = 1, rlwe_q = 65537 \<rparr>"

definition sample_scheme :: "nat \<Rightarrow> scheme_params" where
  "sample_scheme rows = \<lparr> sp_db_rows = rows, sp_db_cols = 2, sp_p = 256, sp_query_bits = 17, sp_q_prime_1 = 256 \<rparr>"

definition sample_runtime :: "nat \<Rightarrow> bytes \<Rightarrow> (scheme_params \<times> u16 list) shard_runtime" where
  "sample_runtime i rows = \<lparr> sr_shard_id = of_nat i, sr_query_row_start = i * 2, sr_rows_sha256 = [],
     sr_server = (sample_scheme 2, map ucast rows), sr_crs_blocks = [[[0]], [[0]]], sr_prepared_at = 0 \<rparr>"

lemma sample_parameters: "shard_parameters table_ipir sample_layout = Inr (sample_rlwe, sample_scheme 2)"
  by (simp add: shard_parameters_def table_ipir_def sample_layout_def sample_rlwe_def sample_scheme_def
      dl_item_size_bits_def dl_row_bytes_def)

lemma sample_build:
  "build table_ipir sample_layout 0 0 [] [1, 2, 3, 4] sample_rlwe (replicate 4 []) 0 = Inr (sample_runtime 0 [1, 2, 3, 4], 1)"
  "build table_ipir sample_layout 1 2 [] [5, 6, 7, 8] sample_rlwe (replicate 4 []) 0 = Inr (sample_runtime 1 [5, 6, 7, 8], 1)"
  by code_simp+

theorem sharded_product_witness:
  "foldR (\<lambda>i acc. bindR (evaluate table_ipir (sample_runtime i ([[1, 2, 3, 4], [5, 6, 7, 8]] ! i)) sample_rlwe
        (take (dl_shard_rows sample_layout) (drop (i * dl_shard_rows sample_layout) [10, 20, 30, 40])))
        (\<lambda>part. add_intermediate_assign_mod acc part (rlwe_q sample_rlwe)))
      [0..<length [[1, 2, 3, 4], [5, 6, 7, 8 :: u8]]] (replicate (sp_db_cols (sample_scheme 2)) 0)
   = Inr (multiply_query table_ipir (new_auto_kernel table_ipir (sample_scheme 4)
        (padded_plaintexts table_ipir [[1, 2, 3, 4], [5, 6, 7, 8]] (dl_row_bytes sample_layout) (dl_shard_rows sample_layout)
          (sp_db_rows (sample_scheme 4)) (sp_db_cols (sample_scheme 2)) (trailing_zeros (sp_p (sample_scheme 2)))) False True)
        sample_rlwe [10, 20, 30, 40])"
proof (rule sharded_product [where gsetup = "replicate 4 []" and digest = "\<lambda>_. []" and counter = "\<lambda>_. 0" and counter' = "\<lambda>_. 1"])
  show "linear_kernel table_ipir" by (rule table_ipir_laws)
  show "shard_parameters table_ipir sample_layout = Inr (sample_rlwe, sample_scheme 2)" by (rule sample_parameters)
  show "\<forall>i < length [[1, 2, 3, 4], [5, 6, 7, 8]]. build table_ipir sample_layout (of_nat i) (i * dl_shard_rows sample_layout) []
      ([[1, 2, 3, 4], [5, 6, 7, 8]] ! i) sample_rlwe (replicate 4 []) 0
      = Inr (sample_runtime i ([[1, 2, 3, 4], [5, 6, 7, 8]] ! i), 1)"
    using sample_build by (auto simp: less_Suc_eq sample_layout_def)
qed (simp_all add: sample_rlwe_def sample_scheme_def sample_layout_def reduced_def)

text \<open>
  C32. The artifact cache is transparent and never mixes shards. Loading what was persisted for a built
  shard gives the same shard back, up to its place in the load order; loading it for another table, shard, first row
  or row digest is refused; and a directory left by a crash before the metadata was replaced is refused, for
  every request, unless the old metadata happens to have the digest of the new coefficients.
\<close>

theorem artifact_roundtrip:
  assumes "persistent_kernel ip" and "square_crs ip" and "shard_parameters ip layout = Inr (rlwe0, lp)"
    and "build ip layout shard_id start digest rows rlwe gsetup counter = Inr (rt, counter')"
    and "length (encode_crs_blocks (sr_crs_blocks rt)) < 2 ^ 64" and "length (sr_crs_blocks rt) < 2 ^ 32" and "rlwe_d rlwe < 2 ^ 32"
  shows "load ip sha_hex (persist ip sha_hex rt table rlwe dir) table layout shard_id start digest rlwe k
        = Inr (rt \<lparr> sr_prepared_at := k \<rparr>, k + 1)
     \<and> ((table', shard_id', start', digest') \<noteq> (table, shard_id, start, digest) \<longrightarrow>
        load ip sha_hex (persist ip sha_hex rt table rlwe dir) table' layout shard_id' start' digest' rlwe k
          = Inl ''artifact metadata mismatch'')
     \<and> (\<forall>torn \<in> set (butlast (persist_steps ip sha_hex rt table rlwe dir)).
        (\<forall>m. ad_metadata dir = Metadata_Found m \<longrightarrow>
           am_database_sha256 m \<noteq> sha_hex (concat (map u16_le (server_db ip (sr_server rt))))) \<longrightarrow>
        (\<exists>e. load ip sha_hex torn table' layout shard_id' start' digest' rlwe k = Inl e))"
proof (intro conjI impI ballI)
  show "load ip sha_hex (persist ip sha_hex rt table rlwe dir) table layout shard_id start digest rlwe k
        = Inr (rt \<lparr> sr_prepared_at := k \<rparr>, k + 1)"
    by (rule load_persisted [OF assms])
next
  assume ne: "(table', shard_id', start', digest') \<noteq> (table, shard_id, start, digest)"
  have "db_as_str table = db_as_str table' \<longleftrightarrow> table = table'" by (cases table; cases table') auto
  moreover have "sr_shard_id rt = shard_id \<and> sr_query_row_start rt = start \<and> sr_rows_sha256 rt = digest"
    using assms(4) by (simp add: build_iff [OF assms(3)])
  ultimately show "load ip sha_hex (persist ip sha_hex rt table rlwe dir) table' layout shard_id' start' digest' rlwe k
      = Inl ''artifact metadata mismatch''"
    using ne by (intro load_other) (auto simp: persist_unfold persist_metadata_def)
next
  fix torn
  assume torn: "torn \<in> set (butlast (persist_steps ip sha_hex rt table rlwe dir))"
    and differ: "\<forall>m. ad_metadata dir = Metadata_Found m \<longrightarrow>
           am_database_sha256 m \<noteq> sha_hex (concat (map u16_le (server_db ip (sr_server rt))))"
  have files: "ad_metadata torn = ad_metadata dir" "ad_database torn = Some (concat (map u16_le (server_db ip (sr_server rt))))"
    using torn by (auto simp: persist_steps_def Let_def)
  show "\<exists>e. load ip sha_hex torn table' layout shard_id' start' digest' rlwe k = Inl e"
  proof (cases "load ip sha_hex torn table' layout shard_id' start' digest' rlwe k")
    case (Inr r)
    from load_needs_digest [OF this] show ?thesis using differ files by auto
  qed simp
qed

theorem artifact_roundtrip_witness:
  "load table_ipir (\<lambda>bs. map (char_of \<circ> unat) bs) (persist table_ipir (\<lambda>bs. map (char_of \<circ> unat) bs) (sample_runtime 0 [1, 2, 3, 4]) Enhance sample_rlwe
      empty_artifact_dir) Enhance sample_layout 0 0 [] sample_rlwe 7
    = Inr (sample_runtime 0 [1, 2, 3, 4] \<lparr> sr_prepared_at := 7 \<rparr>, 8)"
proof -
  have small: "length (encode_crs_blocks (sr_crs_blocks (sample_runtime 0 [1, 2, 3, 4]))) < 2 ^ 64" by code_simp
  from artifact_roundtrip [OF table_ipir_laws(2,3) sample_parameters sample_build(1) this,
      where sha_hex = "\<lambda>bs. map (char_of \<circ> unat) bs" and table = Enhance and dir = empty_artifact_dir and k = 7]
  show ?thesis by (simp add: sample_runtime_def sample_rlwe_def)
qed

end
