(* ===== verification/Pir_Worker.thy ===== *)
theory Pir_Worker
  imports Pir_Ipir "HOL-Library.Multiset"
begin

text \<open>
  A worker process, \<open>server/enhance-pir-server/src/worker.rs\<close>: the shard runtimes it caches, the generations it keeps
  answerable, and its request handlers.

  A \<open>HashMap\<close> is the list of its entries with distinct keys; the order in which one is iterated is not
  specified by Rust and no statement depends on it. The free permits of the evaluation semaphore are a number. Each
  operation returns the new state and its result; an \<open>expect\<close> that fails is \<open>Worker_Panic\<close>.

  The operations \<open>prepare_local\<close>, \<open>ensure_local\<close>, \<open>activate_local\<close> and \<open>evaluate_local\<close> are the runs that nothing interrupts. The source
  takes its locks one after another and releases each before the next: the section on interleaved requests splits the
  operations at these points and lets the parts of different requests alternate.
\<close>

section \<open>State\<close>

definition RETAINED_GENERATIONS :: nat where "RETAINED_GENERATIONS = 8"
definition DEFAULT_EVALUATION_SLOTS :: nat where "DEFAULT_EVALUATION_SLOTS = 2"

datatype worker_error = Worker_Err string | Worker_Panic string

record shard_key =
  sk_table :: database_id
  sk_shard_id :: u64
  sk_rows_sha256 :: string

record activate_shard =
  as_shard_id :: u64
  as_rows_sha256 :: string

record activate_request =
  ar_generation :: u64
  ar_tables :: "(database_id, activate_shard list) btree"

record active_generation =
  ag_generation :: u64
  ag_tables :: "(database_id, activate_shard list) btree"

record 's worker_state =
  ws_rlwe :: "(database_id, rlwe_params) btree"
  ws_shards :: "(shard_key \<times> 's shard_runtime) list"
  ws_active :: "(u64, active_generation) btree"
  ws_artifacts :: artifact_root
  ws_free_slots :: nat
  ws_counter :: u64

definition ag_shard_ids :: "active_generation \<Rightarrow> database_id \<Rightarrow> u64 list option" where
  "ag_shard_ids ag table = map_option (map as_shard_id) (map_of (ag_tables ag) table)"

definition hm_insert :: "'k \<Rightarrow> 'v \<Rightarrow> ('k \<times> 'v) list \<Rightarrow> ('k \<times> 'v) list" where
  "hm_insert k v m = (k, v) # filter (\<lambda>e. fst e \<noteq> k) m"

fun worker_rlwe_tables :: "'s ipir_sp \<Rightarrow> database_id list \<Rightarrow> (database_id, rlwe_params) btree \<Rightarrow> ipir_error + (database_id, rlwe_params) btree" where
  "worker_rlwe_tables ip [] m = Inr m"
| "worker_rlwe_tables ip (table # ts) m =
     bindR (shard_parameters ip (db_layout table)) (\<lambda>(params, _). worker_rlwe_tables ip ts (bt_insert table params m))"

definition with_evaluation_slots :: "'s ipir_sp \<Rightarrow> artifact_root \<Rightarrow> nat \<Rightarrow> ipir_error + 's worker_state" where
  "with_evaluation_slots ip artifact_dir evaluation_slots =
     bindR (worker_rlwe_tables ip DB_ALL []) (\<lambda>rlwe.
       Inr \<lparr> ws_rlwe = rlwe, ws_shards = [], ws_active = [], ws_artifacts = artifact_dir,
             ws_free_slots = max evaluation_slots 1, ws_counter = 0 \<rparr>)"

definition worker_rlwe :: "'s worker_state \<Rightarrow> database_id \<Rightarrow> worker_error + rlwe_params" where
  "worker_rlwe ws table = ok_or (Worker_Panic ''every table has parameters'') (map_of (ws_rlwe ws) table)"

section \<open>Preparing shards\<close>

definition cached_at :: "'s worker_state \<Rightarrow> shard_key \<Rightarrow> nat \<Rightarrow> bool" where
  "cached_at ws key query_row_start =
     (case map_of (ws_shards ws) key of Some existing \<Rightarrow> sr_query_row_start existing = query_row_start | None \<Rightarrow> False)"

text \<open>The arguments of \<open>load_or_build\<close>, computed before the blocking task is started.\<close>

definition prepare_inputs ::
  "'s ipir_sp \<Rightarrow> 's worker_state \<Rightarrow> database_id \<Rightarrow> u64 \<Rightarrow> worker_error + (rlwe_params \<times> u64 list list)" where
  "prepare_inputs ip ws table logical_rows =
     bindR (worker_rlwe ws table) (\<lambda>rlwe.
     bindR (map_err (\<lambda>_. Worker_Err ''parameters'') (global_parameters ip logical_rows (db_layout table))) (\<lambda>(global_rlwe, global_params).
     if rlwe_d global_rlwe \<noteq> rlwe_d rlwe \<or> rlwe_q global_rlwe \<noteq> rlwe_q rlwe
     then Inl (Worker_Err ''global and worker RLWE parameters differ'')
     else Inr (rlwe, public_query_setup ip global_rlwe global_params (seed_bytes (db_setup_seed table)))))"

definition prepare_local ::
  "'s ipir_sp \<Rightarrow> (bytes \<Rightarrow> string) \<Rightarrow> 's worker_state \<Rightarrow> database_id \<Rightarrow> u64 \<Rightarrow> nat \<Rightarrow> u64 \<Rightarrow> string \<Rightarrow> bytes
     \<Rightarrow> 's worker_state \<times> (worker_error + bool)" where
  "prepare_local ip sha_hex ws table shard_id query_row_start logical_rows rows_sha256 rows =
     (if sha_hex rows \<noteq> rows_sha256 then (ws, Inl (Worker_Err ''row digest mismatch''))
      else let key = \<lparr> sk_table = table, sk_shard_id = shard_id, sk_rows_sha256 = rows_sha256 \<rparr> in
        if cached_at ws key query_row_start then (ws, Inr False)
        else case prepare_inputs ip ws table logical_rows of
            Inl e \<Rightarrow> (ws, Inl e)
          | Inr (rlwe, setup) \<Rightarrow>
            (case load_or_build ip sha_hex (ws_artifacts ws) table (db_layout table) shard_id query_row_start rows_sha256 rows
                    rlwe setup (ws_counter ws) of
               Inl e \<Rightarrow> (ws, Inl (Worker_Err ''build''))
             | Inr (runtime, built, artifacts, counter) \<Rightarrow>
               (ws \<lparr> ws_shards := hm_insert key runtime (ws_shards ws), ws_artifacts := artifacts, ws_counter := counter \<rparr>,
                Inr built)))"

definition ensure_local ::
  "'s ipir_sp \<Rightarrow> (bytes \<Rightarrow> string) \<Rightarrow> 's worker_state \<Rightarrow> database_id \<Rightarrow> u64 \<Rightarrow> nat \<Rightarrow> string
     \<Rightarrow> 's worker_state \<times> (worker_error + unit)" where
  "ensure_local ip sha_hex ws table shard_id query_row_start rows_sha256 =
     (let key = \<lparr> sk_table = table, sk_shard_id = shard_id, sk_rows_sha256 = rows_sha256 \<rparr> in
      if cached_at ws key query_row_start then (ws, Inr ())
      else case worker_rlwe ws table of
          Inl e \<Rightarrow> (ws, Inl e)
        | Inr rlwe \<Rightarrow>
          (case load_cached ip sha_hex (ws_artifacts ws) table (db_layout table) shard_id query_row_start rows_sha256 rlwe (ws_counter ws) of
             Inl e \<Rightarrow> (ws, Inl (Worker_Err e))
           | Inr (runtime, counter) \<Rightarrow>
             (ws \<lparr> ws_shards := hm_insert key runtime (ws_shards ws), ws_counter := counter \<rparr>, Inr ())))"

text \<open>
  The blocking task of a preparation or a load, which runs without a lock after the look into the cache, and the insertion under
  the lock of the shards.
\<close>

definition prepare_build ::
  "'s ipir_sp \<Rightarrow> (bytes \<Rightarrow> string) \<Rightarrow> 's worker_state \<Rightarrow> database_id \<Rightarrow> u64 \<Rightarrow> nat \<Rightarrow> u64 \<Rightarrow> string \<Rightarrow> bytes
     \<Rightarrow> worker_error + ('s shard_runtime \<times> bool \<times> artifact_root \<times> u64)" where
  "prepare_build ip sha_hex ws table shard_id query_row_start logical_rows rows_sha256 rows =
     bindR (prepare_inputs ip ws table logical_rows) (\<lambda>(rlwe, setup).
       map_err (\<lambda>_. Worker_Err ''build'')
         (load_or_build ip sha_hex (ws_artifacts ws) table (db_layout table) shard_id query_row_start rows_sha256 rows rlwe setup (ws_counter ws)))"

definition ensure_load ::
  "'s ipir_sp \<Rightarrow> (bytes \<Rightarrow> string) \<Rightarrow> 's worker_state \<Rightarrow> database_id \<Rightarrow> u64 \<Rightarrow> nat \<Rightarrow> string \<Rightarrow> worker_error + ('s shard_runtime \<times> u64)" where
  "ensure_load ip sha_hex ws table shard_id query_row_start rows_sha256 =
     bindR (worker_rlwe ws table) (\<lambda>rlwe.
       map_err Worker_Err
         (load_cached ip sha_hex (ws_artifacts ws) table (db_layout table) shard_id query_row_start rows_sha256 rlwe (ws_counter ws)))"

definition insert_runtime :: "shard_key \<Rightarrow> 's shard_runtime \<Rightarrow> 's worker_state \<Rightarrow> 's worker_state" where
  "insert_runtime key runtime ws = ws \<lparr> ws_shards := hm_insert key runtime (ws_shards ws) \<rparr>"

section \<open>Activation\<close>

definition adjacent_equal :: "u64 list \<Rightarrow> bool" where
  "adjacent_equal ids \<longleftrightarrow> list_ex (\<lambda>(a, b). a = b) (zip ids (tl ids))"

definition key_of :: "database_id \<Rightarrow> activate_shard \<Rightarrow> shard_key" where
  "key_of table s = \<lparr> sk_table = table, sk_shard_id = as_shard_id s, sk_rows_sha256 = as_rows_sha256 s \<rparr>"

fun activate_tables ::
  "(shard_key \<times> 's shard_runtime) list \<Rightarrow> (database_id \<times> activate_shard list) list \<Rightarrow> (database_id, activate_shard list) btree
     \<Rightarrow> worker_error + (database_id, activate_shard list) btree" where
  "activate_tables cached [] tables = Inr tables"
| "activate_tables cached ((table, requested) # rest) tables =
     (let shards = sort_key as_shard_id requested in
      if adjacent_equal (map as_shard_id shards) then Inl (Worker_Err ''duplicate active shard'')
      else if list_ex (\<lambda>s. map_of cached (key_of table s) = None) shards then Inl (Worker_Err ''shard is not prepared'')
      else activate_tables cached rest (if shards \<noteq> [] then bt_insert table shards tables else tables))"

definition activate_check :: "'s worker_state \<Rightarrow> activate_request \<Rightarrow> worker_error + (database_id, activate_shard list) btree" where
  "activate_check ws request =
     (if list_all (\<lambda>(_, shards). shards = []) (ar_tables request)
      then Inl (Worker_Err ''an active generation needs at least one shard'')
      else activate_tables (ws_shards ws) (ar_tables request) [])"

fun evict_generations :: "(u64, active_generation) btree \<Rightarrow> (u64, active_generation) btree" where
  "evict_generations [] = []"
| "evict_generations (e # active) =
     (if length (e # active) > RETAINED_GENERATIONS then evict_generations active else e # active)"

definition extend_tables ::
  "(database_id, activate_shard list) btree \<Rightarrow> (database_id, activate_shard list) btree \<Rightarrow> (database_id, activate_shard list) btree" where
  "extend_tables new tables = fold (\<lambda>(table, shards). bt_insert table shards) new tables"

definition activate_commit ::
  "u64 \<Rightarrow> (database_id, activate_shard list) btree \<Rightarrow> (u64, active_generation) btree \<Rightarrow> (u64, active_generation) btree" where
  "activate_commit generation tables active =
     evict_generations (case map_of active generation of
        Some existing \<Rightarrow> bt_insert generation (existing \<lparr> ag_tables := extend_tables tables (ag_tables existing) \<rparr>) active
      | None \<Rightarrow> bt_insert generation \<lparr> ag_generation = generation, ag_tables = tables \<rparr> active)"

definition referenced :: "(u64, active_generation) btree \<Rightarrow> shard_key list" where
  "referenced active =
     concat (map (\<lambda>(_, ag). concat (map (\<lambda>(table, shards). map (key_of table) shards) (ag_tables ag))) active)"

definition retain_shards :: "shard_key list \<Rightarrow> 's worker_state \<Rightarrow> 's worker_state" where
  "retain_shards keys ws = ws \<lparr> ws_shards := filter (\<lambda>(key, _). key \<in> set keys) (ws_shards ws) \<rparr>"

definition activate_local :: "'s worker_state \<Rightarrow> activate_request \<Rightarrow> 's worker_state \<times> (worker_error + unit)" where
  "activate_local ws request =
     (case activate_check ws request of
        Inl e \<Rightarrow> (ws, Inl e)
      | Inr tables \<Rightarrow>
        let active = activate_commit (ar_generation request) tables (ws_active ws) in
        (retain_shards (referenced active) (ws \<lparr> ws_active := active \<rparr>), Inr ()))"

section \<open>Evaluation\<close>

definition evaluate_shard ::
  "'s ipir_sp \<Rightarrow> 's worker_state \<Rightarrow> database_id \<Rightarrow> activate_shard list \<Rightarrow> rlwe_params \<Rightarrow> shard_query \<Rightarrow> u64 list
     \<Rightarrow> worker_error + u64 list" where
  "evaluate_shard ip ws table assignment rlwe shard_query combined =
     bindR (ok_or (Worker_Panic ''assignment covers requested ids'')
              (find (\<lambda>s. as_shard_id s = sq_shard_id shard_query) assignment)) (\<lambda>s.
     bindR (ok_or (Worker_Err ''active shard disappeared'')
              (map_of (ws_shards ws) \<lparr> sk_table = table, sk_shard_id = sq_shard_id shard_query, sk_rows_sha256 = as_rows_sha256 s \<rparr>)) (\<lambda>runtime.
     bindR (map_err (\<lambda>_. Worker_Err ''evaluate'') (evaluate ip runtime rlwe (sq_coefficients shard_query))) (\<lambda>partial.
     map_err (\<lambda>_. Worker_Err ''add'') (add_intermediate_assign_mod combined partial (rlwe_q rlwe)))))"

definition evaluate_local ::
  "'s ipir_sp \<Rightarrow> 's worker_state \<Rightarrow> database_id \<Rightarrow> evaluate_request \<Rightarrow> worker_error + u64 list" where
  "evaluate_local ip ws table request =
     (if ws_free_slots ws = 0 then Inl (Worker_Err ''worker is at its evaluation limit'')
      else bindR (ok_or (Worker_Err ''generation mismatch'') (map_of (ws_active ws) (er_generation request))) (\<lambda>active.
       bindR (ok_or (Worker_Err ''generation has no shards on this worker'') (map_of (ag_tables active) table)) (\<lambda>assignment.
       if Some (sort (map sq_shard_id (er_shards request))) \<noteq> ag_shard_ids active table
       then Inl (Worker_Err ''request does not cover the complete active shard assignment'')
       else bindR (worker_rlwe ws table) (\<lambda>rlwe.
         bindR (map_err (\<lambda>_. Worker_Err ''parameters'') (shard_parameters ip (db_layout table))) (\<lambda>(_, params).
         foldR (evaluate_shard ip ws table assignment rlwe) (er_shards request) (replicate (sp_db_cols params) 0))))))"

text \<open>
  The same evaluation in the two parts between which no lock is held: what is read with the permit and the lock of the
  active generations, and the loop under the lock of the shards.
\<close>

definition evaluate_begin ::
  "'s ipir_sp \<Rightarrow> 's worker_state \<Rightarrow> database_id \<Rightarrow> evaluate_request \<Rightarrow> worker_error + (activate_shard list \<times> rlwe_params \<times> scheme_params)" where
  "evaluate_begin ip ws table request =
     (if ws_free_slots ws = 0 then Inl (Worker_Err ''worker is at its evaluation limit'')
      else bindR (ok_or (Worker_Err ''generation mismatch'') (map_of (ws_active ws) (er_generation request))) (\<lambda>active.
       bindR (ok_or (Worker_Err ''generation has no shards on this worker'') (map_of (ag_tables active) table)) (\<lambda>assignment.
       if Some (sort (map sq_shard_id (er_shards request))) \<noteq> ag_shard_ids active table
       then Inl (Worker_Err ''request does not cover the complete active shard assignment'')
       else bindR (worker_rlwe ws table) (\<lambda>rlwe.
         bindR (map_err (\<lambda>_. Worker_Err ''parameters'') (shard_parameters ip (db_layout table))) (\<lambda>(_, params).
         Inr (assignment, rlwe, params))))))"

definition evaluate_held ::
  "'s ipir_sp \<Rightarrow> 's worker_state \<Rightarrow> database_id \<Rightarrow> evaluate_request \<Rightarrow> activate_shard list \<Rightarrow> rlwe_params \<Rightarrow> scheme_params
     \<Rightarrow> worker_error + u64 list" where
  "evaluate_held ip ws table request assignment rlwe params =
     foldR (evaluate_shard ip ws table assignment rlwe) (er_shards request) (replicate (sp_db_cols params) 0)"

fun max_by_key :: "('a \<Rightarrow> 'k::linorder) \<Rightarrow> 'a list \<Rightarrow> 'a option" where
  "max_by_key f [] = None"
| "max_by_key f (x # xs) = (case max_by_key f xs of None \<Rightarrow> Some x | Some y \<Rightarrow> if f x \<le> f y then Some y else Some x)"

definition crs_local :: "'s worker_state \<Rightarrow> database_id \<Rightarrow> u64 \<Rightarrow> worker_error + bytes" where
  "crs_local ws table shard_id =
     bindR (ok_or (Worker_Err ''shard is not prepared'')
        (max_by_key sr_prepared_at (map snd (filter (\<lambda>(key, _). sk_table key = table \<and> sk_shard_id key = shard_id) (ws_shards ws)))))
       (\<lambda>runtime. Inr (encode_crs_blocks (sr_crs_blocks runtime)))"

section \<open>Handlers\<close>

text \<open>\<open>Dropped\<close> is a connection whose handler panicked.\<close>

datatype 'a reply = Reply 'a | Status nat | Dropped

definition parse_table :: "string \<Rightarrow> nat + database_id" where
  "parse_table name = map_err (\<lambda>_. 404) (db_from_str name)"

definition reply_of :: "nat \<Rightarrow> worker_error + 'a \<Rightarrow> 'a reply" where
  "reply_of status r = (case r of Inr x \<Rightarrow> Reply x | Inl (Worker_Err _) \<Rightarrow> Status status | Inl (Worker_Panic _) \<Rightarrow> Dropped)"

definition prepare_handler ::
  "'s ipir_sp \<Rightarrow> (bytes \<Rightarrow> string) \<Rightarrow> 's worker_state \<Rightarrow> string \<Rightarrow> u64 \<Rightarrow> nat \<Rightarrow> u64 \<Rightarrow> string \<Rightarrow> bytes
     \<Rightarrow> 's worker_state \<times> (string \<times> database_id \<times> u64 \<times> string) reply" where
  "prepare_handler ip sha_hex ws name shard_id query_row_start logical_rows rows_sha256 body =
     (case parse_table name of
        Inl status \<Rightarrow> (ws, Status status)
      | Inr table \<Rightarrow>
        let (ws', result) = prepare_local ip sha_hex ws table shard_id query_row_start logical_rows rows_sha256 body in
        (ws', reply_of 400 (bindR result (\<lambda>built. Inr (if built then ''built'' else ''cached'', table, shard_id, rows_sha256)))))"

text \<open>A success without a body is the status 204.\<close>

definition no_content :: "nat \<Rightarrow> worker_error + unit \<Rightarrow> unit reply" where
  "no_content status r = (case reply_of status r of Reply _ \<Rightarrow> Status 204 | x \<Rightarrow> x)"

definition load_handler ::
  "'s ipir_sp \<Rightarrow> (bytes \<Rightarrow> string) \<Rightarrow> 's worker_state \<Rightarrow> string \<Rightarrow> u64 \<Rightarrow> nat \<Rightarrow> string \<Rightarrow> 's worker_state \<times> unit reply" where
  "load_handler ip sha_hex ws name shard_id query_row_start rows_sha256 =
     (case parse_table name of
        Inl status \<Rightarrow> (ws, Status status)
      | Inr table \<Rightarrow>
        let (ws', result) = ensure_local ip sha_hex ws table shard_id query_row_start rows_sha256 in (ws', no_content 409 result))"

definition activate_handler :: "'s worker_state \<Rightarrow> activate_request \<Rightarrow> 's worker_state \<times> unit reply" where
  "activate_handler ws request = (let (ws', result) = activate_local ws request in (ws', no_content 409 result))"

definition hint_handler :: "'s worker_state \<Rightarrow> string \<Rightarrow> u64 \<Rightarrow> bytes reply" where
  "hint_handler ws name shard_id =
     (case parse_table name of Inl status \<Rightarrow> Status status | Inr table \<Rightarrow> reply_of 404 (crs_local ws table shard_id))"

definition evaluate_handler :: "'s ipir_sp \<Rightarrow> 's worker_state \<Rightarrow> string \<Rightarrow> bytes \<Rightarrow> bytes reply" where
  "evaluate_handler ip ws name body =
     (case parse_table name of
        Inl status \<Rightarrow> Status status
      | Inr table \<Rightarrow>
        (case decode_evaluate_request body of
           Inl _ \<Rightarrow> Status 400
         | Inr request \<Rightarrow>
           reply_of 503 (bindR (evaluate_local ip ws table request) (\<lambda>coefficients.
             Inr (encode_evaluate_response (er_generation request) coefficients)))))"

record worker_health =
  wh_status :: string
  wh_generation :: "u64 option"
  wh_active_shards :: "(database_id, nat) btree"
  wh_cached_shards :: nat
  wh_memory :: "u64 \<times> u64 \<times> u64"

definition last_key_value :: "('k, 'v) btree \<Rightarrow> ('k \<times> 'v) option" where
  "last_key_value m = (if m = [] then None else Some (last m))"

definition health_handler :: "u64 \<times> u64 \<times> u64 \<Rightarrow> 's worker_state \<Rightarrow> worker_health" where
  "health_handler host_memory ws =
     (let newest = map_option snd (last_key_value (ws_active ws)) in
      \<lparr> wh_status = ''ok'', wh_generation = map_option ag_generation newest,
        wh_active_shards = (case newest of None \<Rightarrow> [] | Some ag \<Rightarrow> map (\<lambda>(table, shards). (table, length shards)) (ag_tables ag)),
        wh_cached_shards = length (ws_shards ws), wh_memory = host_memory \<rparr>)"

section \<open>Invariant\<close>

definition tables_ok :: "(shard_key \<times> 's shard_runtime) list \<Rightarrow> (database_id, activate_shard list) btree \<Rightarrow> bool" where
  "tables_ok cached tables \<longleftrightarrow> bt_ok tables \<and> (\<forall>(table, shards) \<in> set tables.
     shards \<noteq> [] \<and> sorted_wrt (<) (map as_shard_id shards) \<and> (\<forall>s \<in> set shards. map_of cached (key_of table s) \<noteq> None))"

definition worker_ok :: "'s worker_state \<Rightarrow> bool" where
  "worker_ok ws \<longleftrightarrow> bt_ok (ws_active ws) \<and> length (ws_active ws) \<le> RETAINED_GENERATIONS
     \<and> distinct (map fst (ws_shards ws))
     \<and> (\<forall>(key, rt) \<in> set (ws_shards ws). map_of (ws_rlwe ws) (sk_table key) \<noteq> None
          \<and> sr_shard_id rt = sk_shard_id key \<and> sr_rows_sha256 rt = sk_rows_sha256 key)
     \<and> (\<forall>(g, ag) \<in> set (ws_active ws). ag_generation ag = g \<and> ag_tables ag \<noteq> [] \<and> tables_ok (ws_shards ws) (ag_tables ag))"

lemma adjacent_equal_Cons: "adjacent_equal (a # b # xs) \<longleftrightarrow> a = b \<or> adjacent_equal (b # xs)"
  by (auto simp: adjacent_equal_def)

lemma strict_sorted_ids: "sorted ids \<Longrightarrow> \<not> adjacent_equal ids \<Longrightarrow> sorted_wrt (<) ids"
proof (induction ids rule: induct_list012)
  case (3 a b xs)
  then have "sorted_wrt (<) (b # xs)" "a < b" by (auto simp: adjacent_equal_Cons)
  then show ?case by auto
qed (simp_all)

lemma map_of_hm_insert: "map_of (hm_insert k v m) k' = (if k' = k then Some v else map_of m k')"
  by (induction m) (auto simp: hm_insert_def)

lemma set_hm_insert: "set (hm_insert k v m) = insert (k, v) {e \<in> set m. fst e \<noteq> k}"
  by (auto simp: hm_insert_def)

lemma distinct_hm_insert: "distinct (map fst m) \<Longrightarrow> distinct (map fst (hm_insert k v m))"
  by (induction m) (auto simp: hm_insert_def)

lemma tables_ok_mono:
  assumes "tables_ok cached tables" and "\<And>k. map_of cached k \<noteq> None \<Longrightarrow> map_of cached' k \<noteq> None"
  shows "tables_ok cached' tables"
  using assms unfolding tables_ok_def by fast

lemma tables_ok_insert:
  assumes "tables_ok cached tables" and "shards \<noteq> []" and "sorted_wrt (<) (map as_shard_id shards)"
    and "\<forall>s \<in> set shards. map_of cached (key_of table s) \<noteq> None"
  shows "tables_ok cached (bt_insert table shards tables)"
  using assms by (auto simp: tables_ok_def set_bt_insert)

lemma bt_insert_not_Nil [simp]: "bt_insert k v m \<noteq> []"
  by (cases m) (auto split: prod.splits if_splits)

lemma activate_tables_ok:
  assumes "activate_tables cached requested tables = Inr result" and "tables_ok cached tables"
  shows "tables_ok cached result"
    and "tables \<noteq> [] \<or> (\<exists>(_, shards) \<in> set requested. shards \<noteq> []) \<Longrightarrow> result \<noteq> []"
proof -
  have "tables_ok cached result \<and> (tables \<noteq> [] \<or> (\<exists>(_, shards) \<in> set requested. shards \<noteq> []) \<longrightarrow> result \<noteq> [])"
    using assms
  proof (induction cached requested tables rule: activate_tables.induct)
    case (2 cached table requested rest tables)
    let ?shards = "sort_key as_shard_id requested"
    have ok: "\<not> adjacent_equal (map as_shard_id ?shards)" "\<forall>s \<in> set ?shards. map_of cached (key_of table s) \<noteq> None"
      using "2.prems"(1) by (auto simp: Let_def list_ex_iff split: if_splits)
    have "sorted_wrt (<) (map as_shard_id ?shards)" by (rule strict_sorted_ids) (use ok in simp_all)
    then have "tables_ok cached (if ?shards \<noteq> [] then bt_insert table ?shards tables else tables)"
      using ok(2) "2.prems"(2) by (auto intro: tables_ok_insert)
    moreover have "activate_tables cached rest (if ?shards \<noteq> [] then bt_insert table ?shards tables else tables) = Inr result"
      using "2.prems"(1) by (simp add: Let_def split: if_splits)
    moreover have "(?shards \<noteq> []) = (requested \<noteq> [])" by (simp flip: length_greater_0_conv)
    ultimately show ?case using "2.IH" [OF refl] ok by (auto simp: Let_def list_ex_iff split: if_splits)
  qed simp
  then show "tables_ok cached result"
    and "tables \<noteq> [] \<or> (\<exists>(_, shards) \<in> set requested. shards \<noteq> []) \<Longrightarrow> result \<noteq> []" by auto
qed

lemma activate_check_ok:
  assumes "activate_check ws request = Inr tables"
  shows "tables_ok (ws_shards ws) tables" and "tables \<noteq> []"
proof -
  have empty: "tables_ok (ws_shards ws) []" by (simp add: tables_ok_def)
  from assms have run: "activate_tables (ws_shards ws) (ar_tables request) [] = Inr tables"
    and "\<not> list_all (\<lambda>(_, shards). shards = []) (ar_tables request)"
    by (auto simp: activate_check_def split: if_splits)
  then show "tables_ok (ws_shards ws) tables" "tables \<noteq> []"
    using activate_tables_ok [OF run empty] by (auto simp: list_all_iff)
qed

lemma tables_ok_extend:
  assumes "tables_ok cached new" and "tables_ok cached tables"
  shows "tables_ok cached (extend_tables new tables)"
proof -
  have "tables_ok cached (fold (\<lambda>(table, shards). bt_insert table shards) es tables)" if "set es \<subseteq> set new" for es
    using that assms(2)
  proof (induction es arbitrary: tables)
    case (Cons e es)
    obtain table shards where e: "e = (table, shards)" by (cases e)
    have "tables_ok cached (bt_insert table shards tables)"
      using assms(1) Cons.prems by (intro tables_ok_insert) (auto simp: e tables_ok_def)
    then show ?case using Cons by (simp add: e)
  qed simp
  then show ?thesis by (simp add: extend_tables_def)
qed

lemma extend_tables_not_Nil:
  assumes "new \<noteq> []"
  shows "extend_tables new tables \<noteq> []"
proof -
  have keep: "fold (\<lambda>(table, shards). bt_insert table shards) es m \<noteq> []" if "m \<noteq> []"
    for es and m :: "(database_id, activate_shard list) btree"
    using that
  proof (induction es arbitrary: m)
    case (Cons e es)
    obtain table shards where e: "e = (table, shards)" by (cases e)
    show ?case using Cons.IH [of "bt_insert table shards m"] by (simp add: e)
  qed simp
  obtain table shards es where new: "new = (table, shards) # es" using assms by (cases new) auto
  show ?thesis using keep [of "bt_insert table shards tables" es] by (simp add: new extend_tables_def)
qed

lemma evict_generations_drop: "evict_generations m = drop (length m - RETAINED_GENERATIONS) m"
  by (induction m) (auto simp: Suc_diff_le)

lemma bt_ok_drop: "bt_ok m \<Longrightarrow> bt_ok (drop n m)"
  by (simp add: bt_ok_def sorted_wrt_drop flip: drop_map)

lemma worker_ok_insert:
  assumes ok: "worker_ok ws" and rlwe: "map_of (ws_rlwe ws) (sk_table key) \<noteq> None"
    and rt: "sr_shard_id rt = sk_shard_id key" "sr_rows_sha256 rt = sk_rows_sha256 key"
  shows "worker_ok (ws \<lparr> ws_shards := hm_insert key rt (ws_shards ws), ws_artifacts := artifacts, ws_counter := counter \<rparr>)"
proof -
  have "tables_ok (hm_insert key rt (ws_shards ws)) tables" if "tables_ok (ws_shards ws) tables" for tables
    by (rule tables_ok_mono [OF that]) (simp add: map_of_hm_insert)
  then show ?thesis
    using ok rlwe rt by (auto simp: worker_ok_def distinct_hm_insert set_hm_insert)
qed

lemma worker_ok_insert_only:
  "worker_ok ws \<Longrightarrow> map_of (ws_rlwe ws) (sk_table key) \<noteq> None \<Longrightarrow> sr_shard_id rt = sk_shard_id key \<Longrightarrow> sr_rows_sha256 rt = sk_rows_sha256 key
     \<Longrightarrow> worker_ok (ws \<lparr> ws_shards := hm_insert key rt (ws_shards ws) \<rparr>)"
  using worker_ok_insert [of ws key rt, where artifacts = "ws_artifacts ws" and counter = "ws_counter ws"] by simp

lemmas worker_ok_load = worker_ok_insert [where artifacts = "ws_artifacts ws" and ws = ws for ws, simplified]

lemma load_runtime:
  assumes "load ip sha_hex dir table layout shard_id start digest rlwe k = Inr (rt, k')"
  shows "sr_shard_id rt = shard_id \<and> sr_rows_sha256 rt = digest \<and> sr_query_row_start rt = start \<and> sr_prepared_at rt = k \<and> k' = k + 1"
  using assms
  by (auto simp: load_def next_prepared_at_def bindR_Inr_iff Let_def split: metadata_file.splits if_splits)

lemma build_runtime:
  assumes "build ip layout shard_id start digest rows rlwe gsetup k = Inr (rt, k')"
  shows "sr_shard_id rt = shard_id \<and> sr_rows_sha256 rt = digest \<and> sr_query_row_start rt = start \<and> sr_prepared_at rt = k \<and> k' = k + 1"
  using assms by (auto simp: build_def next_prepared_at_def bindR_Inr_iff Let_def split: if_splits)

lemma load_or_build_runtime:
  assumes "load_or_build ip sha_hex root table layout shard_id start digest rows rlwe gsetup k = Inr (rt, built, root', k')"
  shows "sr_shard_id rt = shard_id \<and> sr_rows_sha256 rt = digest \<and> sr_query_row_start rt = start \<and> sr_prepared_at rt = k \<and> k' = k + 1"
  using assms by (auto simp: load_or_build_def Let_def bindR_Inr_iff split: sum.splits dest: load_runtime build_runtime)

lemma prepare_local_ok:
  assumes "worker_ok ws"
  shows "worker_ok (fst (prepare_local ip sha_hex ws table shard_id start logical_rows digest rows))"
proof -
  have "map_of (ws_rlwe ws) table \<noteq> None" if "prepare_inputs ip ws table logical_rows = Inr r" for r
    using that by (auto simp: prepare_inputs_def worker_rlwe_def bindR_Inr_iff)
  then show ?thesis
    using assms by (auto simp: prepare_local_def Let_def split: sum.splits dest!: load_or_build_runtime intro!: worker_ok_insert)
qed

lemma ensure_local_ok:
  assumes "worker_ok ws"
  shows "worker_ok (fst (ensure_local ip sha_hex ws table shard_id start digest))"
proof -
  have "map_of (ws_rlwe ws) table \<noteq> None" if "worker_rlwe ws table = Inr r" for r
    using that by (auto simp: worker_rlwe_def)
  then show ?thesis
    using assms by (auto simp: ensure_local_def load_cached_def Let_def split: sum.splits dest!: load_runtime intro!: worker_ok_load)
qed

lemma activate_commit_ok:
  assumes active: "bt_ok active" "\<forall>(g, ag) \<in> set active. ag_generation ag = g \<and> ag_tables ag \<noteq> [] \<and> tables_ok cached (ag_tables ag)"
    and tables: "tables_ok cached tables" "tables \<noteq> []"
  shows "bt_ok (activate_commit g tables active)" and "length (activate_commit g tables active) \<le> RETAINED_GENERATIONS"
    and "\<forall>(g, ag) \<in> set (activate_commit g tables active). ag_generation ag = g \<and> ag_tables ag \<noteq> [] \<and> tables_ok cached (ag_tables ag)"
proof -
  define ag where "ag = (case map_of active g of
      Some existing \<Rightarrow> existing \<lparr> ag_tables := extend_tables tables (ag_tables existing) \<rparr>
    | None \<Rightarrow> \<lparr> ag_generation = g, ag_tables = tables \<rparr>)"
  have commit: "activate_commit g tables active = drop (length (bt_insert g ag active) - RETAINED_GENERATIONS) (bt_insert g ag active)"
    by (simp add: activate_commit_def ag_def evict_generations_drop split: option.splits)
  have new: "ag_generation ag = g \<and> ag_tables ag \<noteq> [] \<and> tables_ok cached (ag_tables ag)"
  proof (cases "map_of active g")
    case None
    then show ?thesis using tables by (simp add: ag_def)
  next
    case (Some existing)
    then have "(g, existing) \<in> set active" by (rule map_of_SomeD)
    then have "ag_generation existing = g" "tables_ok cached (ag_tables existing)" using active(2) by auto
    then show ?thesis using tables by (simp add: ag_def Some tables_ok_extend extend_tables_not_Nil)
  qed
  show "bt_ok (activate_commit g tables active)" using active(1) by (simp add: commit bt_ok_drop)
  show "length (activate_commit g tables active) \<le> RETAINED_GENERATIONS" by (simp add: commit)
  show "\<forall>(g, ag) \<in> set (activate_commit g tables active). ag_generation ag = g \<and> ag_tables ag \<noteq> [] \<and> tables_ok cached (ag_tables ag)"
    using active new by (auto simp: commit set_bt_insert dest!: in_set_dropD)
qed

lemma map_of_retain: "map_of (filter (\<lambda>(key, _). key \<in> K) m) k = (if k \<in> K then map_of m k else None)"
  by (induction m) auto

lemma referenced_iff:
  "key \<in> set (referenced active) \<longleftrightarrow>
     (\<exists>g ag table shards s. (g, ag) \<in> set active \<and> (table, shards) \<in> set (ag_tables ag) \<and> s \<in> set shards \<and> key = key_of table s)"
  by (force simp: referenced_def)

lemma distinct_map_fst_filter: "distinct (map fst m) \<Longrightarrow> distinct (map fst (filter P m))"
  by (induction m) auto

lemma commit_worker_ok:
  assumes "worker_ok ws" and "tables_ok (ws_shards ws) tables" and "tables \<noteq> []"
  shows "worker_ok (ws \<lparr> ws_active := activate_commit g tables (ws_active ws) \<rparr>)"
  using assms activate_commit_ok [of "ws_active ws" "ws_shards ws" tables g] by (auto simp: worker_ok_def)

lemma retain_worker_ok:
  assumes "worker_ok ws"
  shows "worker_ok (retain_shards (referenced (ws_active ws)) ws)"
proof -
  have "tables_ok (filter (\<lambda>(key, _). key \<in> set (referenced (ws_active ws))) (ws_shards ws)) (ag_tables ag)" if "(g, ag) \<in> set (ws_active ws)" for g ag
  proof -
    have ok: "tables_ok (ws_shards ws) (ag_tables ag)" using assms that by (auto simp: worker_ok_def)
    have "key_of table s \<in> set (referenced (ws_active ws))" if "(table, shards) \<in> set (ag_tables ag)" "s \<in> set shards" for table shards s
      using \<open>(g, ag) \<in> set (ws_active ws)\<close> that by (fastforce simp: referenced_iff)
    then show ?thesis using ok unfolding tables_ok_def map_of_retain by fastforce
  qed
  with assms show ?thesis by (auto simp: retain_shards_def worker_ok_def distinct_map_fst_filter)
qed

lemma activate_local_ok:
  assumes "worker_ok ws"
  shows "worker_ok (fst (activate_local ws request))"
proof (cases "activate_check ws request")
  case (Inr tables)
  let ?ws = "ws \<lparr> ws_active := activate_commit (ar_generation request) tables (ws_active ws) \<rparr>"
  have "worker_ok ?ws" by (rule commit_worker_ok [OF assms activate_check_ok [OF Inr]])
  from retain_worker_ok [OF this] show ?thesis by (simp add: activate_local_def Inr Let_def)
qed (simp add: activate_local_def assms)

lemma worker_rlwe_tables_ok: "worker_rlwe_tables ip ts m = Inr rlwe \<Longrightarrow> bt_ok m \<Longrightarrow> bt_ok rlwe"
  by (induction ip ts m rule: worker_rlwe_tables.induct) (auto simp: bindR_Inr_iff)

lemma with_evaluation_slots_ok: "with_evaluation_slots ip artifacts n = Inr ws \<Longrightarrow> worker_ok ws"
  by (auto simp: with_evaluation_slots_def bindR_Inr_iff worker_ok_def)

text \<open>
  What can happen to a worker that handles one request at a time: a shard is prepared or loaded, a generation activated,
  successfully or not, or the number of free evaluation slots changes because evaluations start and end.
\<close>

inductive worker_run :: "'s ipir_sp \<Rightarrow> (bytes \<Rightarrow> string) \<Rightarrow> 's worker_state \<Rightarrow> bool" for ip sha_hex where
  start: "with_evaluation_slots ip artifacts n = Inr ws \<Longrightarrow> worker_run ip sha_hex ws"
| prepare: "worker_run ip sha_hex ws
    \<Longrightarrow> worker_run ip sha_hex (fst (prepare_local ip sha_hex ws table shard_id first_row logical_rows digest rows))"
| ensure: "worker_run ip sha_hex ws \<Longrightarrow> worker_run ip sha_hex (fst (ensure_local ip sha_hex ws table shard_id first_row digest))"
| activate: "worker_run ip sha_hex ws \<Longrightarrow> worker_run ip sha_hex (fst (activate_local ws request))"
| slots: "worker_run ip sha_hex ws \<Longrightarrow> worker_run ip sha_hex (ws \<lparr> ws_free_slots := n \<rparr>)"

lemma worker_run_ok: "worker_run ip sha_hex ws \<Longrightarrow> worker_ok ws"
proof (induction rule: worker_run.induct)
  case (slots ws n)
  then show ?case by (simp add: worker_ok_def)
qed (auto intro: with_evaluation_slots_ok prepare_local_ok ensure_local_ok activate_local_ok)

text \<open>
  The worker parses the names of the transparent-spend tables but has parameters only for the tables it serves, so a
  request to prepare one of their shards with a matching digest panics instead of being refused.
\<close>

lemma spend_prepare_panics:
  assumes "with_evaluation_slots ip artifacts n = Inr ws"
  shows "prepare_handler ip sha_hex ws ''transparent-spend-cold'' shard_id start logical_rows (sha_hex rows) rows = (ws, Dropped)"
  using assms
  by (auto simp: with_evaluation_slots_def bindR_Inr_iff DB_ALL_def prepare_handler_def parse_table_def db_from_str_def prepare_local_def
      cached_at_def prepare_inputs_def worker_rlwe_def reply_of_def)

section \<open>Interleaved requests\<close>

text \<open>
  A request in flight, between two of the points where its handler takes a lock: a preparation or a load that has not found its
  runtime in the cache, one that has its runtime and has yet to insert it, an activation that has checked its shards, one that has
  recorded its generation and has yet to drop the unreferenced runtimes, and an evaluation that has read its assignment.
\<close>

datatype 's worker_task =
    Preparing database_id u64 nat u64 string bytes
  | Ensuring database_id u64 nat string
  | Inserting shard_key "'s shard_runtime"
  | Activating u64 "(database_id, activate_shard list) btree"
  | Retaining "shard_key list"
  | Evaluating database_id evaluate_request "activate_shard list" rlwe_params scheme_params

fun activation :: "'s worker_task \<Rightarrow> bool" where
  "activation (Activating _ _) = True"
| "activation (Retaining _) = True"
| "activation _ = False"

fun evaluation :: "'s worker_task \<Rightarrow> bool" where
  "evaluation (Evaluating _ _ _ _ _) = True"
| "evaluation _ = False"

text \<open>
  The states a worker reaches with any number of preparations, loads and evaluations in flight and at most one activation: the
  coordinator sends an activation after the answer to the one before it. A handler can also be dropped between two of its steps, as
  when the connection closes. One blocking task and one loop under the lock of the shards are single steps; a request refused by its
  first check changes nothing.
\<close>

inductive worker_reach :: "'s ipir_sp \<Rightarrow> (bytes \<Rightarrow> string) \<Rightarrow> 's worker_state \<Rightarrow> 's worker_task multiset \<Rightarrow> bool" for ip sha_hex where
  boot: "with_evaluation_slots ip artifacts n = Inr ws \<Longrightarrow> worker_reach ip sha_hex ws {#}"
| prepare_found_none: "worker_reach ip sha_hex ws ts \<Longrightarrow> sha_hex rows = digest
    \<Longrightarrow> \<not> cached_at ws \<lparr> sk_table = table, sk_shard_id = shard_id, sk_rows_sha256 = digest \<rparr> first_row
    \<Longrightarrow> worker_reach ip sha_hex ws (add_mset (Preparing table shard_id first_row logical_rows digest rows) ts)"
| prepare_built: "worker_reach ip sha_hex ws (add_mset (Preparing table shard_id first_row logical_rows digest rows) ts)
    \<Longrightarrow> prepare_build ip sha_hex ws table shard_id first_row logical_rows digest rows = Inr (rt, built, artifacts, counter)
    \<Longrightarrow> worker_reach ip sha_hex (ws \<lparr> ws_artifacts := artifacts, ws_counter := counter \<rparr>)
          (add_mset (Inserting \<lparr> sk_table = table, sk_shard_id = shard_id, sk_rows_sha256 = digest \<rparr> rt) ts)"
| ensure_found_none: "worker_reach ip sha_hex ws ts
    \<Longrightarrow> \<not> cached_at ws \<lparr> sk_table = table, sk_shard_id = shard_id, sk_rows_sha256 = digest \<rparr> first_row
    \<Longrightarrow> worker_reach ip sha_hex ws (add_mset (Ensuring table shard_id first_row digest) ts)"
| ensure_loaded: "worker_reach ip sha_hex ws (add_mset (Ensuring table shard_id first_row digest) ts)
    \<Longrightarrow> ensure_load ip sha_hex ws table shard_id first_row digest = Inr (rt, counter)
    \<Longrightarrow> worker_reach ip sha_hex (ws \<lparr> ws_counter := counter \<rparr>)
          (add_mset (Inserting \<lparr> sk_table = table, sk_shard_id = shard_id, sk_rows_sha256 = digest \<rparr> rt) ts)"
| inserted: "worker_reach ip sha_hex ws (add_mset (Inserting key rt) ts) \<Longrightarrow> worker_reach ip sha_hex (insert_runtime key rt ws) ts"
| activate_checked: "worker_reach ip sha_hex ws ts \<Longrightarrow> filter_mset activation ts = {#} \<Longrightarrow> activate_check ws request = Inr tables
    \<Longrightarrow> worker_reach ip sha_hex ws (add_mset (Activating (ar_generation request) tables) ts)"
| activate_committed: "worker_reach ip sha_hex ws (add_mset (Activating g tables) ts)
    \<Longrightarrow> active = activate_commit g tables (ws_active ws)
    \<Longrightarrow> worker_reach ip sha_hex (ws \<lparr> ws_active := active \<rparr>) (add_mset (Retaining (referenced active)) ts)"
| activate_retained: "worker_reach ip sha_hex ws (add_mset (Retaining keys) ts) \<Longrightarrow> worker_reach ip sha_hex (retain_shards keys ws) ts"
| evaluate_begun: "worker_reach ip sha_hex ws ts \<Longrightarrow> evaluate_begin ip ws table request = Inr (assignment, rlwe, params)
    \<Longrightarrow> worker_reach ip sha_hex (ws \<lparr> ws_free_slots := ws_free_slots ws - 1 \<rparr>) (add_mset (Evaluating table request assignment rlwe params) ts)"
| evaluate_ended: "worker_reach ip sha_hex ws (add_mset (Evaluating table request assignment rlwe params) ts)
    \<Longrightarrow> worker_reach ip sha_hex (ws \<lparr> ws_free_slots := ws_free_slots ws + 1 \<rparr>) ts"
| dropped: "worker_reach ip sha_hex ws (add_mset t ts) \<Longrightarrow> \<not> evaluation t \<Longrightarrow> worker_reach ip sha_hex ws ts"

text \<open>What each request in flight relies on.\<close>

fun task_ok :: "'s worker_state \<Rightarrow> 's worker_task \<Rightarrow> bool" where
  "task_ok ws (Inserting key rt) \<longleftrightarrow> map_of (ws_rlwe ws) (sk_table key) \<noteq> None
     \<and> sr_shard_id rt = sk_shard_id key \<and> sr_rows_sha256 rt = sk_rows_sha256 key"
| "task_ok ws (Activating g tables) \<longleftrightarrow> tables_ok (ws_shards ws) tables \<and> tables \<noteq> []"
| "task_ok ws (Retaining keys) \<longleftrightarrow> keys = referenced (ws_active ws)"
| "task_ok ws (Evaluating table request assignment rlwe params) \<longleftrightarrow> sort (map sq_shard_id (er_shards request)) = map as_shard_id assignment"
| "task_ok ws _ \<longleftrightarrow> True"

definition interleaving_ok :: "'s worker_state \<Rightarrow> 's worker_task multiset \<Rightarrow> bool" where
  "interleaving_ok ws ts \<longleftrightarrow> worker_ok ws \<and> size (filter_mset activation ts) \<le> 1 \<and> (\<forall>t \<in># ts. task_ok ws t)"

lemma task_ok_activation:
  assumes "task_ok ws t" and "\<not> activation t" and "ws_rlwe ws' = ws_rlwe ws"
  shows "task_ok ws' t"
  using assms by (cases t) auto

lemma task_ok_grows:
  assumes "task_ok ws t" and "ws_rlwe ws' = ws_rlwe ws" and "ws_active ws' = ws_active ws"
    and "\<And>k. map_of (ws_shards ws) k \<noteq> None \<Longrightarrow> map_of (ws_shards ws') k \<noteq> None"
  shows "task_ok ws' t"
  using assms by (cases t) (auto elim: tables_ok_mono)

lemma only_activation:
  assumes "interleaving_ok ws (add_mset t ts)" and "activation t" and "worker_ok ws'" and "ws_rlwe ws' = ws_rlwe ws"
  shows "interleaving_ok ws' ts \<and> filter_mset activation ts = {#}"
proof -
  have none: "filter_mset activation ts = {#}" using assms(1, 2) by (simp add: interleaving_ok_def)
  then have "task_ok ws' t'" if "t' \<in># ts" for t'
    using that assms by (auto simp: interleaving_ok_def intro: task_ok_activation)
  moreover have "size (filter_mset activation ts) \<le> 1" by (simp only: none size_empty)
  ultimately show ?thesis using assms(3) none by (simp only: interleaving_ok_def simp_thms) blast
qed

lemma interleaving_grows:
  assumes "interleaving_ok ws ts" and "worker_ok ws'" and "ws_rlwe ws' = ws_rlwe ws" and "ws_active ws' = ws_active ws"
    and "\<And>k. map_of (ws_shards ws) k \<noteq> None \<Longrightarrow> map_of (ws_shards ws') k \<noteq> None"
  shows "interleaving_ok ws' ts"
  using assms task_ok_grows [of ws _ ws'] by (auto simp: interleaving_ok_def)

lemma interleaving_ok_add:
  "interleaving_ok ws (add_mset t ts) \<longleftrightarrow>
     interleaving_ok ws ts \<and> task_ok ws t \<and> (activation t \<longrightarrow> filter_mset activation ts = {#})"
  by (auto simp: interleaving_ok_def simp del: filter_mset_eq_mempty_iff)

lemma prepare_build_runtime:
  assumes "prepare_build ip sha_hex ws table shard_id start logical_rows digest rows = Inr (rt, built, artifacts, counter)"
  shows "map_of (ws_rlwe ws) table \<noteq> None \<and> sr_shard_id rt = shard_id \<and> sr_rows_sha256 rt = digest"
  using assms
  by (auto simp: prepare_build_def prepare_inputs_def worker_rlwe_def bindR_Inr_iff split: if_splits dest!: load_or_build_runtime)

lemma ensure_load_runtime:
  assumes "ensure_load ip sha_hex ws table shard_id start digest = Inr (rt, counter)"
  shows "map_of (ws_rlwe ws) table \<noteq> None \<and> sr_shard_id rt = shard_id \<and> sr_rows_sha256 rt = digest"
  using assms
  by (auto simp: ensure_load_def load_cached_def worker_rlwe_def bindR_Inr_iff dest!: load_runtime)

lemma evaluate_begin_Inr:
  assumes "evaluate_begin ip ws table request = Inr (assignment, rlwe, params)"
  shows "sort (map sq_shard_id (er_shards request)) = map as_shard_id assignment"
    and "\<exists>ag. map_of (ws_active ws) (er_generation request) = Some ag \<and> map_of (ag_tables ag) table = Some assignment"
  using assms by (auto simp: evaluate_begin_def bindR_Inr_iff ag_shard_ids_def split: if_splits)

lemma worker_reach_ok: "worker_reach ip sha_hex ws ts \<Longrightarrow> interleaving_ok ws ts"
proof (induction rule: worker_reach.induct)
  case (boot artifacts n ws)
  then show ?case by (simp add: interleaving_ok_def with_evaluation_slots_ok)
next
  case (prepare_built ws table shard_id first_row logical_rows digest rows ts rt built artifacts counter)
  let ?ws = "ws \<lparr> ws_artifacts := artifacts, ws_counter := counter \<rparr>"
  have "interleaving_ok ?ws ts"
    by (rule interleaving_grows [of ws]) (use prepare_built.IH in \<open>auto simp: interleaving_ok_def worker_ok_def\<close>)
  then show ?case using prepare_build_runtime [OF prepare_built.hyps(2)] by (simp add: interleaving_ok_add)
next
  case (ensure_loaded ws table shard_id first_row digest ts rt counter)
  let ?ws = "ws \<lparr> ws_counter := counter \<rparr>"
  have "interleaving_ok ?ws ts"
    by (rule interleaving_grows [of ws]) (use ensure_loaded.IH in \<open>auto simp: interleaving_ok_def worker_ok_def\<close>)
  then show ?case using ensure_load_runtime [OF ensure_loaded.hyps(2)] by (simp add: interleaving_ok_add)
next
  case (inserted ws key rt ts)
  then have ok: "worker_ok (insert_runtime key rt ws)"
    by (auto simp: interleaving_ok_def insert_runtime_def intro!: worker_ok_insert_only)
  show ?case
    by (rule interleaving_grows [of ws]) (use ok inserted.IH in \<open>auto simp: interleaving_ok_add insert_runtime_def map_of_hm_insert\<close>)
next
  case (activate_checked ws ts request tables)
  then show ?case using activate_check_ok [OF activate_checked.hyps(3)] by (simp add: interleaving_ok_add)
next
  case (activate_committed ws g tables ts active)
  let ?ws = "ws \<lparr> ws_active := active \<rparr>"
  have "worker_ok ?ws" using activate_committed by (auto simp: interleaving_ok_def intro: commit_worker_ok)
  then have "interleaving_ok ?ws ts \<and> filter_mset activation ts = {#}" by (rule only_activation [OF activate_committed.IH, rotated]) simp_all
  then show ?case by (simp add: interleaving_ok_add)
next
  case (activate_retained ws keys ts)
  have "worker_ok (retain_shards keys ws)"
    using activate_retained.IH retain_worker_ok by (auto simp: interleaving_ok_def)
  then show ?case
    using only_activation [OF activate_retained.IH, of "retain_shards keys ws"] by (simp add: retain_shards_def)
next
  case (evaluate_begun ws ts table request assignment rlwe params)
  let ?ws = "ws \<lparr> ws_free_slots := ws_free_slots ws - 1 \<rparr>"
  have "interleaving_ok ?ws ts"
    by (rule interleaving_grows [of ws]) (use evaluate_begun.IH in \<open>auto simp: interleaving_ok_def worker_ok_def\<close>)
  then show ?case using evaluate_begin_Inr(1) [OF evaluate_begun.hyps(2)] by (simp add: interleaving_ok_add)
next
  case (evaluate_ended ws table request assignment rlwe params ts)
  show ?case by (rule interleaving_grows [of ws]) (use evaluate_ended.IH in \<open>auto simp: interleaving_ok_add interleaving_ok_def worker_ok_def\<close>)
qed (auto simp: interleaving_ok_add)

text \<open>An operation that nothing interrupts is the sequence of its steps.\<close>

lemma prepare_local_steps:
  "prepare_local ip sha_hex ws table shard_id first_row logical_rows digest rows =
     (let key = \<lparr> sk_table = table, sk_shard_id = shard_id, sk_rows_sha256 = digest \<rparr> in
      if sha_hex rows \<noteq> digest then (ws, Inl (Worker_Err ''row digest mismatch''))
      else if cached_at ws key first_row then (ws, Inr False)
      else case prepare_build ip sha_hex ws table shard_id first_row logical_rows digest rows of
          Inl e \<Rightarrow> (ws, Inl e)
        | Inr (rt, built, artifacts, counter) \<Rightarrow> (insert_runtime key rt (ws \<lparr> ws_artifacts := artifacts, ws_counter := counter \<rparr>), Inr built))"
  by (auto simp: prepare_local_def prepare_build_def insert_runtime_def Let_def map_err_def bindR_def split: sum.splits)

lemma ensure_local_steps:
  "ensure_local ip sha_hex ws table shard_id first_row digest =
     (let key = \<lparr> sk_table = table, sk_shard_id = shard_id, sk_rows_sha256 = digest \<rparr> in
      if cached_at ws key first_row then (ws, Inr ())
      else case ensure_load ip sha_hex ws table shard_id first_row digest of
          Inl e \<Rightarrow> (ws, Inl e)
        | Inr (rt, counter) \<Rightarrow> (insert_runtime key rt (ws \<lparr> ws_counter := counter \<rparr>), Inr ()))"
  by (auto simp: ensure_local_def ensure_load_def insert_runtime_def Let_def map_err_def bindR_def split: sum.splits)

lemma evaluate_local_steps:
  "evaluate_local ip ws table request =
     bindR (evaluate_begin ip ws table request) (\<lambda>(assignment, rlwe, params). evaluate_held ip ws table request assignment rlwe params)"
  by (auto simp: evaluate_local_def evaluate_begin_def evaluate_held_def bindR_def split: sum.splits)

lemma reach_prepare:
  assumes "worker_reach ip sha_hex ws ts"
  shows "worker_reach ip sha_hex (fst (prepare_local ip sha_hex ws table shard_id first_row logical_rows digest rows)) ts"
  using assms unfolding prepare_local_steps Let_def
  by (auto split: sum.splits intro: worker_reach.inserted worker_reach.prepare_built worker_reach.prepare_found_none)

lemma reach_ensure:
  assumes "worker_reach ip sha_hex ws ts"
  shows "worker_reach ip sha_hex (fst (ensure_local ip sha_hex ws table shard_id first_row digest)) ts"
  using assms unfolding ensure_local_steps Let_def
  by (auto split: sum.splits intro: worker_reach.inserted worker_reach.ensure_loaded worker_reach.ensure_found_none)

lemma reach_activate:
  assumes "worker_reach ip sha_hex ws ts" and "filter_mset activation ts = {#}"
  shows "worker_reach ip sha_hex (fst (activate_local ws request)) ts"
  using assms
  by (auto simp: activate_local_def Let_def split: sum.splits
      intro!: worker_reach.activate_retained worker_reach.activate_committed [OF _ refl] intro: worker_reach.activate_checked)

section \<open>Evaluating an active generation\<close>

text \<open>In a well-formed state every shard of an assignment has its runtime.\<close>

lemma assigned_runtime:
  assumes ok: "worker_ok ws" and gen: "map_of (ws_active ws) g = Some ag" and ss: "map_of (ag_tables ag) table = Some ss"
    and i: "i \<in> as_shard_id ` set ss"
  shows "\<exists>s rt. find (\<lambda>s. as_shard_id s = i) ss = Some s \<and> s \<in> set ss \<and> as_shard_id s = i
     \<and> map_of (ws_shards ws) \<lparr> sk_table = table, sk_shard_id = i, sk_rows_sha256 = as_rows_sha256 s \<rparr> = Some rt
     \<and> map_of (ws_rlwe ws) table \<noteq> None"
proof -
  have "find (\<lambda>s. as_shard_id s = i) ss \<noteq> None" using i by (auto simp: find_None_iff)
  then obtain s where f: "find (\<lambda>s. as_shard_id s = i) ss = Some s" by blast
  then have s: "find (\<lambda>s. as_shard_id s = i) ss = Some s" "s \<in> set ss" "as_shard_id s = i"
    by (auto simp: find_Some_iff)
  have "tables_ok (ws_shards ws) (ag_tables ag)" using ok gen by (auto simp: worker_ok_def dest: map_of_SomeD)
  then have "map_of (ws_shards ws) (key_of table s) \<noteq> None"
    using map_of_SomeD [OF ss] s(2) by (auto simp: tables_ok_def)
  then obtain rt where rt: "map_of (ws_shards ws) (key_of table s) = Some rt" by blast
  then have "map_of (ws_rlwe ws) (sk_table (key_of table s)) \<noteq> None"
    using ok map_of_SomeD [OF rt] by (auto simp: worker_ok_def)
  then show ?thesis using s rt by (auto simp: key_of_def)
qed

lemma covered_ids: "sort (map sq_shard_id qs) = map as_shard_id ss \<Longrightarrow> q \<in> set qs \<Longrightarrow> sq_shard_id q \<in> as_shard_id ` set ss"
  by (metis image_eqI list.set_map set_sort)

lemma foldR_never:
  assumes "\<And>x s. x \<in> set xs \<Longrightarrow> f x s \<noteq> Inl e"
  shows "foldR f xs s \<noteq> Inl e"
  using assms by (induction xs arbitrary: s) (auto simp: bindR_Inl_iff)

lemma evaluate_shard_no_abort:
  assumes "worker_ok ws" and "map_of (ws_active ws) g = Some ag" and "map_of (ag_tables ag) table = Some ss"
    and "sq_shard_id q \<in> as_shard_id ` set ss"
  shows "evaluate_shard ip ws table ss rlwe q acc \<noteq> Inl (Worker_Err ''active shard disappeared'')"
    and "evaluate_shard ip ws table ss rlwe q acc \<noteq> Inl (Worker_Panic m)"
  using assigned_runtime [OF assms] by (auto simp: evaluate_shard_def bindR_def map_err_def split: sum.splits)

lemma evaluate_local_no_abort:
  assumes ok: "worker_ok ws"
  shows "evaluate_local ip ws table request \<noteq> Inl (Worker_Err ''active shard disappeared'')"
    and "evaluate_local ip ws table request \<noteq> Inl (Worker_Panic m)"
proof -
  have loop: "foldR (evaluate_shard ip ws table ss rlwe) (er_shards request) acc \<noteq> Inl (Worker_Err ''active shard disappeared'')
      \<and> foldR (evaluate_shard ip ws table ss rlwe) (er_shards request) acc \<noteq> Inl (Worker_Panic m)
      \<and> map_of (ws_rlwe ws) table \<noteq> None"
    if active: "map_of (ws_active ws) g = Some ag" "map_of (ag_tables ag) table = Some ss"
      and cover: "sort (map sq_shard_id (er_shards request)) = map as_shard_id ss" for g ag ss rlwe acc
  proof -
    have "(table, ss) \<in> set (ag_tables ag)" "(g, ag) \<in> set (ws_active ws)" using active by (auto dest: map_of_SomeD)
    then have "ss \<noteq> []" using ok by (auto simp: worker_ok_def tables_ok_def)
    then have "hd ss \<in> set ss" by simp
    then show ?thesis
      using assigned_runtime [OF ok active imageI] covered_ids [OF cover] evaluate_shard_no_abort [OF ok active]
      by (auto intro!: foldR_never)
  qed
  have "evaluate_local ip ws table request \<noteq> Inl e"
    if e: "e = Worker_Err ''active shard disappeared'' \<or> e = Worker_Panic m" for e
  proof (cases "map_of (ws_active ws) (er_generation request)")
    case (Some ag)
    note gen = this
    show ?thesis
    proof (cases "map_of (ag_tables ag) table")
      case (Some ss)
      show ?thesis
      proof (cases "sort (map sq_shard_id (er_shards request)) = map as_shard_id ss")
        case True
        from loop [OF gen Some True] obtain rl where "map_of (ws_rlwe ws) table = Some rl" by blast
        with loop [OF gen Some True, of rl] e show ?thesis
          by (auto simp: evaluate_local_def gen Some True ag_shard_ids_def worker_rlwe_def bindR_Inl_iff map_err_def split: sum.splits)
      qed (use e in \<open>auto simp: evaluate_local_def gen Some ag_shard_ids_def\<close>)
    qed (use e in \<open>auto simp: evaluate_local_def gen\<close>)
  qed (use e in \<open>auto simp: evaluate_local_def\<close>)
  then show "evaluate_local ip ws table request \<noteq> Inl (Worker_Err ''active shard disappeared'')"
    "evaluate_local ip ws table request \<noteq> Inl (Worker_Panic m)" by auto
qed

lemma evaluate_local_sum:
  assumes ok: "worker_ok ws" and slots: "ws_free_slots ws \<noteq> 0"
    and gen: "map_of (ws_active ws) (er_generation request) = Some ag" and ss: "map_of (ag_tables ag) table = Some ss"
    and cover: "sort (map sq_shard_id (er_shards request)) = map as_shard_id ss"
    and rlwe: "map_of (ws_rlwe ws) table = Some rlwe" "2 \<le> rlwe_q rlwe"
    and params: "shard_parameters ip (db_layout table) = Inr (rlwe0, lp)"
    and parts: "\<And>q s rt. q \<in> set (er_shards request) \<Longrightarrow> s \<in> set ss \<Longrightarrow> as_shard_id s = sq_shard_id q
        \<Longrightarrow> map_of (ws_shards ws) (key_of table s) = Some rt
        \<Longrightarrow> evaluate ip rt rlwe (sq_coefficients q) = Inr (part q) \<and> length (part q) = sp_db_cols lp \<and> reduced (rlwe_q rlwe) (part q)"
  shows "\<exists>v. evaluate_local ip ws table request = Inr v \<and> length v = sp_db_cols lp \<and> reduced (rlwe_q rlwe) v
     \<and> (\<forall>c < sp_db_cols lp. unat (v ! c) = (\<Sum>q\<leftarrow>er_shards request. unat (part q ! c)) mod unat (rlwe_q rlwe))"
proof -
  let ?w = "sp_db_cols lp" and ?q = "rlwe_q rlwe"
  have step: "evaluate_shard ip ws table ss rlwe q acc = Inr (map2 (add_mod ?q) acc (part q)) \<and> length (part q) = ?w"
    if q: "q \<in> set (er_shards request)" and acc: "length acc = ?w" "reduced ?q acc" for q acc
  proof -
    obtain s rt where s: "find (\<lambda>s. as_shard_id s = sq_shard_id q) ss = Some s" "s \<in> set ss" "as_shard_id s = sq_shard_id q"
      "map_of (ws_shards ws) \<lparr> sk_table = table, sk_shard_id = sq_shard_id q, sk_rows_sha256 = as_rows_sha256 s \<rparr> = Some rt"
      using assigned_runtime [OF ok gen ss covered_ids [OF cover q]] by blast
    then have "map_of (ws_shards ws) (key_of table s) = Some rt" by (simp add: key_of_def)
    from parts [OF q s(2,3) this] show ?thesis
      using s acc rlwe(2) add_intermediate_iff [of acc "part q" ?q] by (simp add: evaluate_shard_def)
  qed
  have len: "length (part q) = ?w" if "q \<in> set (er_shards request)" for q
    using step [OF that, of "replicate ?w 0"] reduced_zeros [OF rlwe(2)] by simp
  obtain v where "foldR (evaluate_shard ip ws table ss rlwe) (er_shards request) (replicate ?w 0) = Inr v" "length v = ?w" "reduced ?q v"
      "\<forall>c < ?w. unat (v ! c) = (\<Sum>q\<leftarrow>er_shards request. unat (part q ! c)) mod unat ?q"
    using fold_parts [OF rlwe(2), of "er_shards request" ?w "evaluate_shard ip ws table ss rlwe" part "replicate ?w 0"]
      step len reduced_zeros [OF rlwe(2)] by auto
  then show ?thesis
    using slots by (simp add: evaluate_local_def gen ss cover ag_shard_ids_def worker_rlwe_def rlwe(1) params)
qed

lemma sum_list_mod: "(\<Sum>x\<leftarrow>xs. f x mod q) mod q = (\<Sum>x\<leftarrow>xs. f x) mod (q :: nat)"
proof (induction xs)
  case (Cons x xs)
  have "(f x mod q + (\<Sum>x\<leftarrow>xs. f x mod q)) mod q = (f x mod q + (\<Sum>x\<leftarrow>xs. f x mod q) mod q) mod q"
    by (simp only: mod_add_right_eq)
  then show ?case by (simp add: Cons.IH mod_add_eq)
qed simp

lemma evaluate_local_incomplete:
  assumes "ws_free_slots ws \<noteq> 0" and "map_of (ws_active ws) (er_generation request) = Some ag"
    and "map_of (ag_tables ag) table = Some ss" and "sort (map sq_shard_id (er_shards request)) \<noteq> map as_shard_id ss"
  shows "evaluate_local ip ws table request = Inl (Worker_Err ''request does not cover the complete active shard assignment'')"
  using assms by (simp add: evaluate_local_def ag_shard_ids_def)

lemma prepare_uncached:
  assumes "prepare_local ip sha_hex ws table shard_id start logical_rows digest rows = (ws', Inr built)"
    and "map_of (ws_shards ws) \<lparr> sk_table = table, sk_shard_id = shard_id, sk_rows_sha256 = digest \<rparr> = None"
  shows "\<exists>rt artifacts. ws' = ws \<lparr> ws_shards := hm_insert \<lparr> sk_table = table, sk_shard_id = shard_id, sk_rows_sha256 = digest \<rparr> rt (ws_shards ws),
        ws_artifacts := artifacts, ws_counter := ws_counter ws + 1 \<rparr>
     \<and> sr_query_row_start rt = start \<and> sr_prepared_at rt = ws_counter ws \<and> sha_hex rows = digest"
  using assms
  by (auto simp: prepare_local_def cached_at_def Let_def split: if_splits sum.splits dest!: load_or_build_runtime) blast

lemma evaluate_local_product:
  assumes ok: "worker_ok ws" and kernel: "linear_kernel ip" and slots: "ws_free_slots ws \<noteq> 0"
    and gen: "map_of (ws_active ws) (er_generation request) = Some ag" and ss: "map_of (ag_tables ag) table = Some ss"
    and rlwe: "map_of (ws_rlwe ws) table = Some rlwe" "2 \<le> rlwe_q rlwe"
    and params: "shard_parameters ip (db_layout table) = Inr (rlwe0, lp)"
    and servers: "\<forall>s \<in> set ss. \<forall>rt. map_of (ws_shards ws) (key_of table s) = Some rt
        \<longrightarrow> sr_server rt = new_auto_kernel ip lp (cs (as_shard_id s)) False True"
      "\<forall>s \<in> set ss. length (cs (as_shard_id s)) = sp_db_rows lp * sp_db_cols lp"
    and queries: "\<forall>q \<in> set (er_shards request). length (sq_coefficients q) = sp_db_rows lp \<and> reduced (rlwe_q rlwe) (sq_coefficients q)"
    and cover: "sort (map sq_shard_id (er_shards request)) = map as_shard_id ss"
  shows "\<exists>v. evaluate_local ip ws table request = Inr v \<and> length v = sp_db_cols lp \<and> reduced (rlwe_q rlwe) v
      \<and> (\<forall>c < sp_db_cols lp. unat (v ! c) = (\<Sum>q\<leftarrow>er_shards request. \<Sum>r \<in> {..<sp_db_rows lp}.
            unat (sq_coefficients q ! r) * unat (cs (sq_shard_id q) ! (r * sp_db_cols lp + c))) mod unat (rlwe_q rlwe))"
proof -
  let ?w = "sp_db_cols lp"
  define part where "part q = multiply_query ip (new_auto_kernel ip lp (cs (sq_shard_id q)) False True) rlwe (sq_coefficients q)"
    for q :: shard_query
  have len: "length (cs (sq_shard_id q)) = sp_db_rows lp * ?w" if "q \<in> set (er_shards request)" for q
    using covered_ids [OF cover that] servers(2) by auto
  have part: "evaluate ip rt rlwe (sq_coefficients q) = Inr (part q) \<and> length (part q) = ?w \<and> reduced (rlwe_q rlwe) (part q)"
    if "q \<in> set (er_shards request)" "sr_server rt = new_auto_kernel ip lp (cs (sq_shard_id q)) False True" for q rt
  proof -
    have q: "length (sq_coefficients q) = sp_db_rows lp" "reduced (rlwe_q rlwe) (sq_coefficients q)" using queries that(1) by auto
    have "server_params ip (sr_server rt) = lp" using kernel that(2) by (simp add: linear_kernel_def)
    then have "evaluate ip rt rlwe (sq_coefficients q) = Inr (part q)"
      using q that(2) by (auto simp: evaluate_def part_def reduced_def not_le)
    then show ?thesis using kernel_product(1,2) [OF kernel rlwe(2) len [OF that(1)] q] by (simp add: part_def)
  qed
  have "\<exists>v. evaluate_local ip ws table request = Inr v \<and> length v = ?w \<and> reduced (rlwe_q rlwe) v
      \<and> (\<forall>c < ?w. unat (v ! c) = (\<Sum>q\<leftarrow>er_shards request. unat (part q ! c)) mod unat (rlwe_q rlwe))"
    by (rule evaluate_local_sum [OF ok slots gen ss cover rlwe params]) (use part servers(1) in auto)
  then obtain v where v: "evaluate_local ip ws table request = Inr v" "length v = ?w" "reduced (rlwe_q rlwe) v"
      "\<And>c. c < ?w \<Longrightarrow> unat (v ! c) = (\<Sum>q\<leftarrow>er_shards request. unat (part q ! c)) mod unat (rlwe_q rlwe)" by blast
  have "unat (v ! c) = (\<Sum>q\<leftarrow>er_shards request. \<Sum>r \<in> {..<sp_db_rows lp}.
            unat (sq_coefficients q ! r) * unat (cs (sq_shard_id q) ! (r * ?w + c))) mod unat (rlwe_q rlwe)" if "c < ?w" for c
  proof -
    have "map (\<lambda>q. unat (part q ! c)) (er_shards request) = map (\<lambda>q. (\<Sum>r \<in> {..<sp_db_rows lp}. unat (sq_coefficients q ! r)
          * unat (cs (sq_shard_id q) ! (r * ?w + c))) mod unat (rlwe_q rlwe)) (er_shards request)"
      using kernel_product(3) [OF kernel rlwe(2) len, of _ _ c] queries that by (auto simp: part_def)
    then show ?thesis by (simp only: v(4) [OF that] sum_list_mod)
  qed
  with v(1,2,3) show ?thesis by auto
qed

section \<open>Properties\<close>

lemma held_runtime:
  assumes "worker_ok ws" and "(g, ag) \<in> set (ws_active ws)" and "(table, shards) \<in> set (ag_tables ag)" and "s \<in> set shards"
  shows "\<exists>rt. map_of (ws_shards ws) (key_of table s) = Some rt \<and> sr_shard_id rt = as_shard_id s \<and> sr_rows_sha256 rt = as_rows_sha256 s"
proof -
  have "map_of (ws_shards ws) (key_of table s) \<noteq> None" using assms by (force simp: worker_ok_def tables_ok_def)
  then obtain rt where "map_of (ws_shards ws) (key_of table s) = Some rt" by blast
  moreover from map_of_SomeD [OF this] assms(1)
  have "sr_shard_id rt = as_shard_id s" "sr_rows_sha256 rt = as_rows_sha256 s" by (auto simp: worker_ok_def key_of_def)
  ultimately show ?thesis by blast
qed

lemma retained_memory:
  assumes "worker_ok ws"
  shows "fst ` set (ws_shards (retain_shards (referenced (ws_active ws)) ws)) = set (referenced (ws_active ws))"
proof -
  have "key \<in> fst ` set (ws_shards ws)" if "key \<in> set (referenced (ws_active ws))" for key
    using that held_runtime [OF assms] by (force simp: referenced_iff dest: map_of_SomeD)
  then show ?thesis by (force simp: retain_shards_def)
qed

lemma activate_local_memory:
  assumes "worker_ok ws" and "activate_local ws request = (ws', Inr ())"
  shows "fst ` set (ws_shards ws') = set (referenced (ws_active ws'))"
proof (cases "activate_check ws request")
  case (Inr tables)
  let ?ws = "ws \<lparr> ws_active := activate_commit (ar_generation request) tables (ws_active ws) \<rparr>"
  have "worker_ok ?ws" by (rule commit_worker_ok [OF assms(1) activate_check_ok [OF Inr]])
  from retained_memory [OF this] show ?thesis
    using assms(2) by (auto simp: activate_local_def Inr Let_def retain_shards_def)
qed (use assms(2) in \<open>simp add: activate_local_def\<close>)

lemma evaluate_held_no_panic:
  assumes "sort (map sq_shard_id (er_shards request)) = map as_shard_id ss"
  shows "evaluate_held ip ws table request ss rlwe params \<noteq> Inl (Worker_Panic m)"
  unfolding evaluate_held_def
proof (rule foldR_never)
  fix q acc
  assume "q \<in> set (er_shards request)"
  from covered_ids [OF assms this] have "find (\<lambda>s. as_shard_id s = sq_shard_id q) ss \<noteq> None" by (auto simp: find_None_iff)
  then show "evaluate_shard ip ws table ss rlwe q acc \<noteq> Inl (Worker_Panic m)"
    by (auto simp: evaluate_shard_def bindR_def map_err_def ok_or_def split: sum.splits option.splits)
qed

lemma evaluate_held_present:
  assumes "worker_ok ws" and "map_of (ws_active ws) g = Some ag" and "map_of (ag_tables ag) table = Some ss"
    and "sort (map sq_shard_id (er_shards request)) = map as_shard_id ss"
  shows "evaluate_held ip ws table request ss rlwe params \<noteq> Inl (Worker_Err ''active shard disappeared'')"
  unfolding evaluate_held_def
  by (rule foldR_never) (rule evaluate_shard_no_abort(1) [OF assms(1-3) covered_ids [OF assms(4)]])

text \<open>
  C33. However preparations, loads, evaluations and activations interleave between the points where they take locks, with one activation at
  a time, a worker keeps at most eight generations, in ascending order, and every shard of every retained generation has its
  runtime in memory, with the identifier and the row digest it was activated with. An evaluation that nothing interrupts neither panics nor
  finds a shard missing. One that has read its assignment and has yet to look up the shards never panics either, and finds a shard missing
  only if its generation no longer has that assignment for the table, because an activation in between replaced it or evicted
  the generation. When an activation drops the unreferenced runtimes, exactly those a retained generation references stay in memory.
\<close>

theorem worker_invariant:
  assumes "worker_reach ip sha_hex ws ts"
  shows "length (ws_active ws) \<le> 8 \<and> sorted_wrt (<) (map fst (ws_active ws))
    \<and> (\<forall>(g, ag) \<in> set (ws_active ws). \<forall>(table, shards) \<in> set (ag_tables ag). \<forall>s \<in> set shards.
        \<exists>rt. map_of (ws_shards ws) (key_of table s) = Some rt \<and> sr_shard_id rt = as_shard_id s \<and> sr_rows_sha256 rt = as_rows_sha256 s)
    \<and> (\<forall>table request m. evaluate_local ip ws table request \<noteq> Inl (Worker_Err ''active shard disappeared'')
        \<and> evaluate_local ip ws table request \<noteq> Inl (Worker_Panic m))
    \<and> (\<forall>table request ss rlwe params. Evaluating table request ss rlwe params \<in># ts \<longrightarrow>
        (\<forall>m. evaluate_held ip ws table request ss rlwe params \<noteq> Inl (Worker_Panic m))
        \<and> (evaluate_held ip ws table request ss rlwe params = Inl (Worker_Err ''active shard disappeared'')
            \<longrightarrow> \<not> (\<exists>ag. map_of (ws_active ws) (er_generation request) = Some ag \<and> map_of (ag_tables ag) table = Some ss)))
    \<and> (\<forall>keys. Retaining keys \<in># ts \<longrightarrow> fst ` set (ws_shards (retain_shards keys ws)) = set (referenced (ws_active ws)))
    \<and> (\<forall>request ws'. activate_local ws request = (ws', Inr ()) \<longrightarrow> fst ` set (ws_shards ws') = set (referenced (ws_active ws')))"
proof (intro conjI)
  have all: "interleaving_ok ws ts" using assms by (rule worker_reach_ok)
  then have ok: "worker_ok ws" by (simp add: interleaving_ok_def)
  then show "length (ws_active ws) \<le> 8" "sorted_wrt (<) (map fst (ws_active ws))"
    by (auto simp: worker_ok_def bt_ok_def RETAINED_GENERATIONS_def)
  show "\<forall>(g, ag) \<in> set (ws_active ws). \<forall>(table, shards) \<in> set (ag_tables ag). \<forall>s \<in> set shards.
        \<exists>rt. map_of (ws_shards ws) (key_of table s) = Some rt \<and> sr_shard_id rt = as_shard_id s \<and> sr_rows_sha256 rt = as_rows_sha256 s"
    using held_runtime [OF ok] by blast
  show "\<forall>table request m. evaluate_local ip ws table request \<noteq> Inl (Worker_Err ''active shard disappeared'')
        \<and> evaluate_local ip ws table request \<noteq> Inl (Worker_Panic m)"
    using evaluate_local_no_abort [OF ok] by blast
  have cover: "sort (map sq_shard_id (er_shards request)) = map as_shard_id ss"
    if "Evaluating table request ss rlwe params \<in># ts" for table request ss rlwe params
    using all that by (auto simp: interleaving_ok_def)
  have "(\<forall>m. evaluate_held ip ws table request ss rlwe params \<noteq> Inl (Worker_Panic m))
      \<and> (evaluate_held ip ws table request ss rlwe params = Inl (Worker_Err ''active shard disappeared'')
          \<longrightarrow> \<not> (\<exists>ag. map_of (ws_active ws) (er_generation request) = Some ag \<and> map_of (ag_tables ag) table = Some ss))"
    if "Evaluating table request ss rlwe params \<in># ts" for table request ss rlwe params
    using evaluate_held_no_panic [OF cover [OF that]] evaluate_held_present [OF ok _ _ cover [OF that]] by blast
  then show "\<forall>table request ss rlwe params. Evaluating table request ss rlwe params \<in># ts \<longrightarrow>
        (\<forall>m. evaluate_held ip ws table request ss rlwe params \<noteq> Inl (Worker_Panic m))
        \<and> (evaluate_held ip ws table request ss rlwe params = Inl (Worker_Err ''active shard disappeared'')
            \<longrightarrow> \<not> (\<exists>ag. map_of (ws_active ws) (er_generation request) = Some ag \<and> map_of (ag_tables ag) table = Some ss))"
    by blast
  show "\<forall>keys. Retaining keys \<in># ts \<longrightarrow> fst ` set (ws_shards (retain_shards keys ws)) = set (referenced (ws_active ws))"
  proof (intro allI impI)
    fix keys
    assume "Retaining keys \<in># ts"
    then have "task_ok ws (Retaining keys)" using all by (simp only: interleaving_ok_def)
    then show "fst ` set (ws_shards (retain_shards keys ws)) = set (referenced (ws_active ws))" using retained_memory [OF ok] by simp
  qed
  show "\<forall>request ws'. activate_local ws request = (ws', Inr ()) \<longrightarrow> fst ` set (ws_shards ws') = set (referenced (ws_active ws'))"
    using activate_local_memory [OF ok] by blast
qed

text \<open>
  A concrete worker for the witnesses: a library with one row and one column per shard, whose reference string is the
  first coefficient, and the full-size shard that holds one byte everywhere.
\<close>

definition tiny_rlwe :: rlwe_params where
  "tiny_rlwe = \<lparr> rlwe_d = 1, rlwe_q = 65537 \<rparr>"

lemma tiny_rlwe_fields [simp]: "rlwe_d tiny_rlwe = 1" "rlwe_q tiny_rlwe = 65537"
  by (simp_all add: tiny_rlwe_def)

definition many_polys :: "u64 list list" where
  "many_polys = replicate 8192 []"

lemma length_many_polys [simp]: "length many_polys = 8192"
  unfolding many_polys_def by (rule length_replicate)

definition tiny_ipir :: "(scheme_params \<times> u16 list) ipir_sp" where
  "tiny_ipir = table_ipir \<lparr>
     params_for_simplepir := (\<lambda>_ _. Inr (tiny_rlwe,
        \<lparr> sp_db_rows = 1, sp_db_cols = 1, sp_p = 256, sp_query_bits = 17, sp_q_prime_1 = 256 \<rparr>)),
     offline_crs_blocks := (\<lambda>(params, cs) rlwe gsetup. [[[ucast (hd cs)]]]),
     public_query_setup := (\<lambda>_ _ _. many_polys) \<rparr>"

definition full_shard :: "u8 \<Rightarrow> bytes" where
  "full_shard x = replicate (dl_shard_bytes ENHANCE_LAYOUT) x"

definition first_byte :: "bytes \<Rightarrow> string" where
  "first_byte bs = (if bs = [] then [] else [char_of (unat (hd bs))])"

definition tiny_worker :: "(scheme_params \<times> u16 list) worker_state" where
  "tiny_worker = \<lparr> ws_rlwe = [(Enhance, tiny_rlwe)], ws_shards = [], ws_active = [],
     ws_artifacts = (\<lambda>_. empty_artifact_dir), ws_free_slots = 2, ws_counter = 0 \<rparr>"

definition tiny_runtime :: "u8 \<Rightarrow> u64 \<Rightarrow> (scheme_params \<times> u16 list) shard_runtime" where
  "tiny_runtime x k = \<lparr> sr_shard_id = 0, sr_query_row_start = 0, sr_rows_sha256 = [char_of (unat x)],
     sr_server = (\<lparr> sp_db_rows = 1, sp_db_cols = 1, sp_p = 256, sp_query_bits = 17, sp_q_prime_1 = 256 \<rparr>, [ucast x]),
     sr_crs_blocks = [[[ucast x]]], sr_prepared_at = k \<rparr>"

definition tiny_key :: "u8 \<Rightarrow> shard_key" where
  "tiny_key x = \<lparr> sk_table = Enhance, sk_shard_id = 0, sk_rows_sha256 = [char_of (unat x)] \<rparr>"

lemma full_shard_Cons: "\<exists>n. full_shard x = x # replicate n x"
  by (rule exI [of _ "dl_shard_bytes ENHANCE_LAYOUT - 1"])
     (simp add: full_shard_def ENHANCE_LAYOUT_def dl_shard_bytes_def dl_row_bytes_def row_geometry flip: replicate_Suc)

lemma tiny_start: "with_evaluation_slots tiny_ipir (\<lambda>_. empty_artifact_dir) 2 = Inr tiny_worker"
  by (simp add: with_evaluation_slots_def DB_ALL_def shard_parameters_def tiny_ipir_def tiny_worker_def)

lemma byte_coefficient:
  "(ucast (ucast (x :: u8) :: u64) :: u16) = ucast x" "(ucast (ucast (x :: u8) :: u16) :: u64) = ucast x"
  by (rule bit_word_eqI; auto simp: bit_simps dest: bit_imp_le_length)+

lemma tiny_build:
  "build tiny_ipir ENHANCE_LAYOUT 0 0 [char_of (unat x)] (full_shard x) tiny_rlwe many_polys k
     = Inr (tiny_runtime x k, k + 1)"
proof -
  have p: "shard_parameters tiny_ipir ENHANCE_LAYOUT = Inr (tiny_rlwe,
      \<lparr> sp_db_rows = 1, sp_db_cols = 1, sp_p = 256, sp_query_bits = 17, sp_q_prime_1 = 256 \<rparr>)"
    by (simp add: shard_parameters_def tiny_ipir_def)
  have len: "length (full_shard x) = dl_shard_bytes ENHANCE_LAYOUT" by (simp add: full_shard_def)
  have "row_plaintexts tiny_ipir (full_shard x) (dl_row_bytes ENHANCE_LAYOUT) 1 1 (trailing_zeros 256) = [ucast x]"
    using full_shard_Cons [of x]
    by (auto simp: row_plaintexts_def row_plaintext_eq tiny_ipir_def table_ipir_def ENHANCE_LAYOUT_def dl_row_bytes_def row_geometry
        byte_coefficient)
  then show ?thesis
    by (simp add: build_iff [OF p] len tiny_runtime_def)
       (simp add: tiny_ipir_def table_ipir_def ENHANCE_LAYOUT_def row_geometry byte_coefficient)
qed

definition tiny_loaded :: "(scheme_params \<times> u16 list) worker_state" where
  "tiny_loaded = fst (prepare_local tiny_ipir first_byte tiny_worker Enhance 0 0 8192 [char_of (unat (7 :: u8))] (full_shard 7))"

definition tiny_request :: "u64 \<Rightarrow> activate_request" where
  "tiny_request g = \<lparr> ar_generation = g, ar_tables = [(Enhance, [\<lparr> as_shard_id = 0, as_rows_sha256 = [char_of (unat (7 :: u8))] \<rparr>])] \<rparr>"

lemma tiny_prepare:
  assumes "map_of (ws_shards ws) (tiny_key x) = None" and "ws_rlwe ws = ws_rlwe tiny_worker"
    and "\<forall>m. ad_metadata (ws_artifacts ws (shard_artifact_dir Enhance 0)) = Metadata_Found m \<longrightarrow> am_rows_sha256 m \<noteq> [char_of (unat x)]"
  shows "prepare_local tiny_ipir first_byte ws Enhance 0 0 8192 [char_of (unat x)] (full_shard x)
    = (ws \<lparr> ws_shards := hm_insert (tiny_key x) (tiny_runtime x (ws_counter ws)) (ws_shards ws),
         ws_artifacts := (ws_artifacts ws)(shard_artifact_dir Enhance 0 := persist tiny_ipir first_byte (tiny_runtime x (ws_counter ws)) Enhance
            tiny_rlwe (ws_artifacts ws (shard_artifact_dir Enhance 0))),
         ws_counter := ws_counter ws + 1 \<rparr>, Inr True)"
proof -
  have sha: "first_byte (full_shard x) = [char_of (unat x)]" using full_shard_Cons [of x] by (auto simp: first_byte_def)
  have inputs: "prepare_inputs tiny_ipir ws Enhance 8192 = Inr (tiny_rlwe, many_polys)"
    by (simp add: prepare_inputs_def worker_rlwe_def assms(2) tiny_worker_def global_parameters_def tiny_ipir_def)
  have "\<exists>e. load tiny_ipir first_byte (ws_artifacts ws (shard_artifact_dir Enhance 0)) Enhance ENHANCE_LAYOUT 0 0 [char_of (unat x)]
      tiny_rlwe (ws_counter ws) = Inl e"
    using assms(3) by (auto simp: load_def split: metadata_file.splits)
  then show ?thesis
    using assms(1) inputs sha
    by (auto simp: prepare_local_def Let_def cached_at_def tiny_key_def load_or_build_def tiny_build)
qed

lemma tiny_loaded_shards: "ws_shards tiny_loaded = [(tiny_key 7, tiny_runtime 7 0)]" "ws_active tiny_loaded = []"
  unfolding tiny_loaded_def
  by (subst tiny_prepare; simp add: tiny_worker_def empty_artifact_dir_def hm_insert_def)+

lemma tiny_loaded_fresh:
  "map_of (ws_shards tiny_loaded) (tiny_key 9) = None" "ws_rlwe tiny_loaded = ws_rlwe tiny_worker"
  "\<forall>m. ad_metadata (ws_artifacts tiny_loaded (shard_artifact_dir Enhance 0)) = Metadata_Found m \<longrightarrow> am_rows_sha256 m \<noteq> [char_of (unat (9 :: u8))]"
proof -
  have "map_of (ws_shards tiny_worker) (tiny_key 7) = None"
      "\<forall>m. ad_metadata (ws_artifacts tiny_worker (shard_artifact_dir Enhance 0)) = Metadata_Found m \<longrightarrow> am_rows_sha256 m \<noteq> [char_of (unat (7 :: u8))]"
    by (simp_all add: tiny_worker_def empty_artifact_dir_def)
  note seven = tiny_prepare [OF this(1) refl this(2)]
  show "map_of (ws_shards tiny_loaded) (tiny_key 9) = None" "ws_rlwe tiny_loaded = ws_rlwe tiny_worker"
    "\<forall>m. ad_metadata (ws_artifacts tiny_loaded (shard_artifact_dir Enhance 0)) = Metadata_Found m \<longrightarrow> am_rows_sha256 m \<noteq> [char_of (unat (9 :: u8))]"
    unfolding tiny_loaded_def seven
    by (auto simp: persist_unfold persist_metadata_def tiny_runtime_def hm_insert_def tiny_key_def tiny_worker_def)
qed

lemma tiny_active:
  "activate_local tiny_loaded (tiny_request 5) = (tiny_loaded \<lparr> ws_active := [(5, \<lparr> ag_generation = 5, ag_tables = ar_tables (tiny_request 5) \<rparr>)] \<rparr>, Inr ())"
  by (simp add: activate_local_def activate_check_def tiny_request_def tiny_loaded_shards adjacent_equal_def key_of_def tiny_key_def
      activate_commit_def evict_generations_drop RETAINED_GENERATIONS_def Let_def retain_shards_def referenced_def)

lemma tiny_run: "worker_run tiny_ipir first_byte (fst (activate_local tiny_loaded (tiny_request 5)))"
  unfolding tiny_loaded_def by (intro worker_run.activate worker_run.prepare worker_run.start [OF tiny_start])

definition tiny_evaluate :: evaluate_request where
  "tiny_evaluate = \<lparr> er_generation = 5, er_shards = [\<lparr> sq_shard_id = 0, sq_coefficients = [3] \<rparr>] \<rparr>"

definition tiny_shards :: "u8 \<Rightarrow> activate_shard list" where
  "tiny_shards x = [\<lparr> as_shard_id = 0, as_rows_sha256 = [char_of (unat x)] \<rparr>]"

definition tiny_params :: scheme_params where
  "tiny_params = \<lparr> sp_db_rows = 1, sp_db_cols = 1, sp_p = 256, sp_query_bits = 17, sp_q_prime_1 = 256 \<rparr>"

text \<open>An evaluation of generation 5 has read its assignment, and the worker is then asked to prepare other rows for the same shard.\<close>

definition tiny_begun :: "(scheme_params \<times> u16 list) worker_state" where
  "tiny_begun = (let ws = fst (activate_local tiny_loaded (tiny_request 5)) in ws \<lparr> ws_free_slots := ws_free_slots ws - 1 \<rparr>)"

lemma tiny_begun_fields:
  "ws_shards tiny_begun = [(tiny_key 7, tiny_runtime 7 0)]" "ws_rlwe tiny_begun = ws_rlwe tiny_worker"
  "ws_artifacts tiny_begun = ws_artifacts tiny_loaded"
  "ws_active tiny_begun = [(5, \<lparr> ag_generation = 5, ag_tables = [(Enhance, tiny_shards 7)] \<rparr>)]"
  unfolding tiny_begun_def tiny_active Let_def
  by (simp_all add: tiny_loaded_shards tiny_loaded_fresh(2) tiny_request_def tiny_shards_def)

lemma tiny_begin:
  "evaluate_begin tiny_ipir (fst (activate_local tiny_loaded (tiny_request 5))) Enhance tiny_evaluate = Inr (tiny_shards 7, tiny_rlwe, tiny_params)"
proof -
  have "ws_free_slots tiny_loaded = 2" "ws_rlwe tiny_loaded = [(Enhance, tiny_rlwe)]"
    unfolding tiny_loaded_def by (subst tiny_prepare; simp add: tiny_worker_def empty_artifact_dir_def)+
  then show ?thesis
    unfolding tiny_active
    by (simp add: evaluate_begin_def tiny_evaluate_def tiny_request_def tiny_shards_def tiny_params_def ag_shard_ids_def
        worker_rlwe_def shard_parameters_def tiny_ipir_def)
qed

lemma tiny_reach: "worker_reach tiny_ipir first_byte tiny_begun {# Evaluating Enhance tiny_evaluate (tiny_shards 7) tiny_rlwe tiny_params #}"
proof -
  have "worker_reach tiny_ipir first_byte (fst (activate_local tiny_loaded (tiny_request 5))) {#}"
    unfolding tiny_loaded_def by (intro reach_activate reach_prepare worker_reach.boot [OF tiny_start]) simp
  from worker_reach.evaluate_begun [OF this tiny_begin] show ?thesis by (simp add: tiny_begun_def Let_def)
qed

theorem worker_invariant_witness:
  "ws_active tiny_begun \<noteq> []
   \<and> (\<exists>ag. map_of (ws_active tiny_begun) 5 = Some ag \<and> map_of (ag_tables ag) Enhance = Some (tiny_shards 7))
   \<and> evaluate_held tiny_ipir tiny_begun Enhance tiny_evaluate (tiny_shards 7) tiny_rlwe tiny_params \<noteq> Inl (Worker_Err ''active shard disappeared'')"
proof -
  have "ws_active tiny_begun \<noteq> []"
    "\<exists>ag. map_of (ws_active tiny_begun) (er_generation tiny_evaluate) = Some ag \<and> map_of (ag_tables ag) Enhance = Some (tiny_shards 7)"
    by (simp_all add: tiny_begun_fields tiny_evaluate_def)
  then show ?thesis using worker_invariant [OF tiny_reach] by (auto simp: tiny_evaluate_def)
qed

text \<open>
  The condition on the assignment is needed: an activation that replaces it between the two parts of an evaluation removes the runtime the
  evaluation is about to look up. The coordinator takes the error that follows for one to retry.
\<close>

definition tiny_replaced :: "(scheme_params \<times> u16 list) worker_state" where
  "tiny_replaced = fst (activate_local (fst (prepare_local tiny_ipir first_byte tiny_begun Enhance 0 0 8192 [char_of (unat (9 :: u8))] (full_shard 9)))
     \<lparr> ar_generation = 5, ar_tables = [(Enhance, tiny_shards 9)] \<rparr>)"

lemma interrupted_evaluation_misses:
  "worker_reach tiny_ipir first_byte tiny_replaced {# Evaluating Enhance tiny_evaluate (tiny_shards 7) tiny_rlwe tiny_params #}"
  "evaluate_held tiny_ipir tiny_replaced Enhance tiny_evaluate (tiny_shards 7) tiny_rlwe tiny_params = Inl (Worker_Err ''active shard disappeared'')"
proof -
  show "worker_reach tiny_ipir first_byte tiny_replaced {# Evaluating Enhance tiny_evaluate (tiny_shards 7) tiny_rlwe tiny_params #}"
    unfolding tiny_replaced_def by (intro reach_activate reach_prepare tiny_reach) simp
  note begun = tiny_begun_fields
  have "map_of (ws_shards tiny_begun) (tiny_key 9) = None"
      "\<forall>m. ad_metadata (ws_artifacts tiny_begun (shard_artifact_dir Enhance 0)) = Metadata_Found m \<longrightarrow> am_rows_sha256 m \<noteq> [char_of (unat (9 :: u8))]"
    using tiny_loaded_fresh by (simp_all add: begun tiny_key_def)
  note nine = tiny_prepare [OF this(1) begun(2) this(2)]
  have "map fst (ws_shards tiny_replaced) = [tiny_key 9]"
    unfolding tiny_replaced_def nine
    by (simp add: activate_local_def activate_check_def begun tiny_shards_def adjacent_equal_def key_of_def tiny_key_def hm_insert_def
        activate_commit_def extend_tables_def evict_generations_drop RETAINED_GENERATIONS_def Let_def retain_shards_def referenced_def)
  then have "map_of (ws_shards tiny_replaced) (tiny_key 7) = None" by (auto simp: map_of_eq_None_iff tiny_key_def)
  then show "evaluate_held tiny_ipir tiny_replaced Enhance tiny_evaluate (tiny_shards 7) tiny_rlwe tiny_params = Inl (Worker_Err ''active shard disappeared'')"
    by (simp add: evaluate_held_def tiny_evaluate_def evaluate_shard_def tiny_shards_def tiny_key_def)
qed

text \<open>
  C34. A worker answers a request for the complete assignment of an active generation with the product of its part of
  the database and its part of the query: coefficient \<open>c\<close> is the sum, modulo \<open>q\<close>, over the requested shards and
  their rows of query coefficient times database coefficient, in whatever order the shards are listed. A request for other
  shards than the complete assignment is refused.
\<close>

theorem evaluate_local_exact:
  assumes run: "worker_run ip sha_hex ws" and kernel: "linear_kernel ip" and slots: "ws_free_slots ws \<noteq> 0"
    and gen: "map_of (ws_active ws) (er_generation request) = Some ag" and ss: "map_of (ag_tables ag) table = Some ss"
    and rlwe: "map_of (ws_rlwe ws) table = Some rlwe" "2 \<le> rlwe_q rlwe"
    and params: "shard_parameters ip (db_layout table) = Inr (rlwe0, lp)"
    and servers: "\<forall>s \<in> set ss. \<forall>rt. map_of (ws_shards ws) (key_of table s) = Some rt
        \<longrightarrow> sr_server rt = new_auto_kernel ip lp (cs (as_shard_id s)) False True"
      "\<forall>s \<in> set ss. length (cs (as_shard_id s)) = sp_db_rows lp * sp_db_cols lp"
    and queries: "\<forall>q \<in> set (er_shards request). length (sq_coefficients q) = sp_db_rows lp \<and> reduced (rlwe_q rlwe) (sq_coefficients q)"
  shows "if sort (map sq_shard_id (er_shards request)) = map as_shard_id ss
    then \<exists>v. evaluate_local ip ws table request = Inr v \<and> length v = sp_db_cols lp
      \<and> (\<forall>c < sp_db_cols lp. unat (v ! c) = (\<Sum>q\<leftarrow>er_shards request. \<Sum>r \<in> {..<sp_db_rows lp}.
            unat (sq_coefficients q ! r) * unat (cs (sq_shard_id q) ! (r * sp_db_cols lp + c))) mod unat (rlwe_q rlwe))
    else evaluate_local ip ws table request = Inl (Worker_Err ''request does not cover the complete active shard assignment'')"
proof (cases "sort (map sq_shard_id (er_shards request)) = map as_shard_id ss")
  case True
  from evaluate_local_product [OF worker_run_ok [OF run] kernel slots gen ss rlwe params servers queries True] True
  show ?thesis by auto
next
  case False
  then show ?thesis using evaluate_local_incomplete [OF slots gen ss False] by simp
qed

theorem evaluate_local_exact_witness:
  "\<exists>v. evaluate_local tiny_ipir (fst (activate_local tiny_loaded (tiny_request 5))) Enhance
       \<lparr> er_generation = 5, er_shards = [\<lparr> sq_shard_id = 0, sq_coefficients = [3] \<rparr>] \<rparr> = Inr v \<and> unat (v ! 0) = 21"
proof -
  let ?lp = "\<lparr> sp_db_rows = 1, sp_db_cols = 1, sp_p = 256, sp_query_bits = 17, sp_q_prime_1 = 256 \<rparr>" and ?rlwe = tiny_rlwe
  let ?ws = "fst (activate_local tiny_loaded (tiny_request 5))" and ?q = "\<lparr> sq_shard_id = 0, sq_coefficients = [3] \<rparr>"
  let ?ag = "\<lparr> ag_generation = 5, ag_tables = ar_tables (tiny_request 5) \<rparr>"
  let ?ss = "[\<lparr> as_shard_id = 0, as_rows_sha256 = [char_of (unat (7 :: u8))] \<rparr>]"
  have kernel: "linear_kernel tiny_ipir"
    using table_ipir_laws(1) by (simp add: linear_kernel_def tiny_ipir_def)
  have p: "shard_parameters tiny_ipir (db_layout Enhance) = Inr (?rlwe, ?lp)"
    by (simp add: shard_parameters_def tiny_ipir_def)
  have tables: "ar_tables (tiny_request 5) = [(Enhance, ?ss)]" by (simp add: tiny_request_def)
  have tiny: "ws_free_slots tiny_loaded = 2" "ws_rlwe tiny_loaded = [(Enhance, ?rlwe)]"
    unfolding tiny_loaded_def by (subst tiny_prepare; simp add: tiny_worker_def empty_artifact_dir_def)+
  have "if sort (map sq_shard_id (er_shards \<lparr> er_generation = 5, er_shards = [?q] \<rparr>)) = map as_shard_id ?ss
    then \<exists>v. evaluate_local tiny_ipir ?ws Enhance \<lparr> er_generation = 5, er_shards = [?q] \<rparr> = Inr v \<and> length v = sp_db_cols ?lp
      \<and> (\<forall>c < sp_db_cols ?lp. unat (v ! c) = (\<Sum>q\<leftarrow>er_shards \<lparr> er_generation = 5, er_shards = [?q] \<rparr>. \<Sum>r \<in> {..<sp_db_rows ?lp}.
            unat (sq_coefficients q ! r) * unat ((\<lambda>_. [7 :: u16]) (sq_shard_id q) ! (r * sp_db_cols ?lp + c))) mod unat (rlwe_q ?rlwe))
    else evaluate_local tiny_ipir ?ws Enhance \<lparr> er_generation = 5, er_shards = [?q] \<rparr>
      = Inl (Worker_Err ''request does not cover the complete active shard assignment'')"
  proof (rule evaluate_local_exact [OF tiny_run kernel, where ag = ?ag])
    show "shard_parameters tiny_ipir (db_layout Enhance) = Inr (?rlwe, ?lp)" by (rule p)
    show "\<forall>s \<in> set ?ss. \<forall>rt. map_of (ws_shards ?ws) (key_of Enhance s) = Some rt
        \<longrightarrow> sr_server rt = new_auto_kernel tiny_ipir ?lp [7] False True"
      by (simp add: tiny_active tiny_loaded_shards key_of_def tiny_key_def tiny_runtime_def tiny_ipir_def table_ipir_def)
  qed (simp_all add: tiny_active tiny tables reduced_def)
  then show ?thesis by auto
qed

text \<open>
  C35. A worker asked to prepare a row digest it still holds can hand out the reference string of another digest of the same
  shard: after preparing a shard with the rows A and then with the rows B, preparing A again succeeds from memory without
  becoming the newest preparation, and \<open>crs_local\<close>, which the coordinator reads as the hint of A, returns the hint of B.
  (This is the sequence of a reorganization that brings the last shard back to earlier contents.)
\<close>

theorem stale_crs_hint:
  assumes fresh: "\<forall>(key, rt) \<in> set (ws_shards ws). \<not> (sk_table key = table \<and> sk_shard_id key = shard_id)"
    and nowrap: "ws_counter ws + 1 \<noteq> 0" and ne: "digest_A \<noteq> digest_B"
    and A: "prepare_local ip sha_hex ws table shard_id start logical_rows digest_A rows_A = (ws1, Inr built_A)"
    and B: "prepare_local ip sha_hex ws1 table shard_id start logical_rows digest_B rows_B = (ws2, Inr built_B)"
  shows "prepare_local ip sha_hex ws2 table shard_id start logical_rows digest_A rows_A = (ws2, Inr False)
    \<and> (\<exists>rt. map_of (ws_shards ws2) \<lparr> sk_table = table, sk_shard_id = shard_id, sk_rows_sha256 = digest_B \<rparr> = Some rt
        \<and> crs_local ws2 table shard_id = Inr (encode_crs_blocks (sr_crs_blocks rt)))"
proof -
  let ?key = "\<lambda>d. \<lparr> sk_table = table, sk_shard_id = shard_id, sk_rows_sha256 = d \<rparr>"
  have none: "map_of (ws_shards ws) (?key d) = None" for d using fresh by (fastforce simp: map_of_eq_None_iff)
  obtain rt_A art where A': "ws1 = ws \<lparr> ws_shards := hm_insert (?key digest_A) rt_A (ws_shards ws), ws_artifacts := art, ws_counter := ws_counter ws + 1 \<rparr>"
      "sr_query_row_start rt_A = start" "sr_prepared_at rt_A = ws_counter ws" "sha_hex rows_A = digest_A"
    using prepare_uncached [OF A none] by blast
  have "map_of (ws_shards ws1) (?key digest_B) = None" using none ne by (simp add: A'(1) map_of_hm_insert)
  then obtain rt_B art' where B': "ws2 = ws1 \<lparr> ws_shards := hm_insert (?key digest_B) rt_B (ws_shards ws1), ws_artifacts := art', ws_counter := ws_counter ws1 + 1 \<rparr>"
      "sr_prepared_at rt_B = ws_counter ws1"
    using prepare_uncached [OF B] by blast
  have again: "prepare_local ip sha_hex ws2 table shard_id start logical_rows digest_A rows_A = (ws2, Inr False)"
    using ne A' by (simp add: prepare_local_def cached_at_def B'(1) map_of_hm_insert)
  have B_kept: "map_of (ws_shards ws2) (?key digest_B) = Some rt_B" by (simp add: B'(1) map_of_hm_insert)
  have "\<not> sr_prepared_at rt_B \<le> sr_prepared_at rt_A" using less_plus_one [OF nowrap] by (simp add: A' B'(2) not_le)
  moreover have "filter (\<lambda>(key, _). sk_table key = table \<and> sk_shard_id key = shard_id) (ws_shards ws2) = [(?key digest_B, rt_B), (?key digest_A, rt_A)]"
    using ne fresh by (auto simp: B'(1) A'(1) hm_insert_def filter_empty_conv)
  ultimately have "crs_local ws2 table shard_id = Inr (encode_crs_blocks (sr_crs_blocks rt_B))"
    by (simp add: crs_local_def)
  with again B_kept show ?thesis by blast
qed

theorem stale_crs_hint_witness:
  "crs_local (fst (prepare_local tiny_ipir first_byte (fst (prepare_local tiny_ipir first_byte tiny_loaded Enhance 0 0 8192
       [char_of (unat (9 :: u8))] (full_shard 9))) Enhance 0 0 8192 [char_of (unat (7 :: u8))] (full_shard 7))) Enhance 0
   = Inr (encode_crs_blocks [[[9]]])"
proof -
  have fresh: "map_of (ws_shards tiny_worker) (tiny_key 7) = None"
      "\<forall>m. ad_metadata (ws_artifacts tiny_worker (shard_artifact_dir Enhance 0)) = Metadata_Found m \<longrightarrow> am_rows_sha256 m \<noteq> [char_of (unat (7 :: u8))]"
    by (simp_all add: tiny_worker_def empty_artifact_dir_def)
  note seven = tiny_prepare [OF fresh(1) refl fresh(2)]
  have loaded: "prepare_local tiny_ipir first_byte tiny_worker Enhance 0 0 8192 [char_of (unat (7 :: u8))] (full_shard 7) = (tiny_loaded, Inr True)"
    unfolding tiny_loaded_def by (simp only: seven fst_conv)
  let ?ws = "fst (prepare_local tiny_ipir first_byte tiny_loaded Enhance 0 0 8192 [char_of (unat (9 :: u8))] (full_shard 9))"
  note second = tiny_prepare [OF tiny_loaded_fresh]
  have nine: "prepare_local tiny_ipir first_byte tiny_loaded Enhance 0 0 8192 [char_of (unat (9 :: u8))] (full_shard 9) = (?ws, Inr True)"
    and shards: "map_of (ws_shards ?ws) (tiny_key 9) = Some (tiny_runtime 9 (ws_counter tiny_loaded))"
    unfolding second by (simp_all add: map_of_hm_insert)
  have "\<forall>(key, rt) \<in> set (ws_shards tiny_worker). \<not> (sk_table key = Enhance \<and> sk_shard_id key = 0)" "ws_counter tiny_worker + 1 \<noteq> 0"
    "[char_of (unat (7 :: u8))] \<noteq> [char_of (unat (9 :: u8)) :: char]"
    by (simp_all add: tiny_worker_def)
  from stale_crs_hint [OF this loaded nine] shards show ?thesis
    by (auto simp: tiny_key_def tiny_runtime_def)
qed

end
