(* ===== verification/Pir_Coordinator.thy ===== *)
theory Pir_Coordinator
  imports Pir_Worker "HOL-Library.List_Lexorder" "HOL-Library.Char_ord"
begin

text \<open>
  The coordinator, \<open>server/enhance-pir-server/src/coordinator.rs\<close>: it prepares the shards of a table on the replicas of
  its worker groups, sums their reference strings, activates and publishes a generation, and answers queries by
  splitting them over the groups and adding the answers.

  The worker processes it talks to are part of the state (\<open>fleet\<close>): a \<open>Remote\<close> target is the process at its
  base URL, reached through its HTTP handlers and the wire format when it is up; an \<open>Embedded\<close> target is the process of
  its own name, called directly. Tasks the code runs concurrently are run in the order of the map or list
  they are started from; their results are joined by sums, sets and first-success rules. A task that panics is a
  failed task. The packing functions of the cryptographic crates are the record \<open>pack_sp\<close> (the key images are
  a function of the ring parameters and are computed inside \<open>pack_intermediate\<close>); metrics are left out.
\<close>

section \<open>Targets, groups and sources\<close>

definition DEFAULT_QUERY_SLOTS :: nat where "DEFAULT_QUERY_SLOTS = 2"

definition next_generation :: "u64 option \<Rightarrow> u64 \<Rightarrow> u64" where
  "next_generation previous tip_height =
     (case previous of None \<Rightarrow> tip_height | Some generation \<Rightarrow> max tip_height (saturating_add generation 1))"

datatype worker_target = Remote string string | Embedded string

fun wt_name :: "worker_target \<Rightarrow> string" where
  "wt_name (Remote name base_url) = name"
| "wt_name (Embedded name) = name"

record worker_group =
  wg_name :: string
  wg_replicas :: "worker_target list"

record table_setup =
  ts_table :: database_id
  ts_groups :: "worker_group list"

record table_source =
  so_table :: database_id
  so_layout :: database_layout
  so_positions :: u64
  so_shard_ids :: "u64 list"
  so_read_shard_rows :: "u64 \<Rightarrow> string + bytes"
  so_populated :: "u64 \<Rightarrow> u64"

definition table_journal :: "database_id \<Rightarrow> journal \<Rightarrow> string + table_source" where
  "table_journal table journal =
     (if rj_table (snd journal) \<noteq> Some table then Inl ''journal does not back the table''
      else Inr \<lparr> so_table = table, so_layout = rj_layout (snd journal), so_positions = rj_tree_size (snd journal),
                 so_shard_ids = shard_ids (snd journal),
                 so_read_shard_rows = (\<lambda>shard_id. map_err (\<lambda>_. ''read'') (read_shard_rows shard_id journal)),
                 so_populated = (\<lambda>shard_id. populated_positions_in_shard shard_id (snd journal)) \<rparr>)"

section \<open>State\<close>

record 's fleet =
  fl_process :: "string \<Rightarrow> 's worker_state"
  fl_up :: "string \<Rightarrow> bool"

record ('k, 'p, 'r) pack_sp =
  packing_keys_len :: "rlwe_params \<Rightarrow> nat"
  read_packing_keys :: "rlwe_params \<Rightarrow> bytes \<Rightarrow> string + 'k"
  build_preprocessed :: "rlwe_params \<Rightarrow> crs_block list \<Rightarrow> string + 'p"
  published_c1_rows :: "'p \<Rightarrow> u64 \<Rightarrow> bytes"
  pack_intermediate :: "rlwe_params \<Rightarrow> u64 list \<Rightarrow> 'k \<Rightarrow> 'p \<Rightarrow> string + 'r"
  response_bodies :: "'r \<Rightarrow> scheme_params \<Rightarrow> bytes"

record ready_group =
  rg_replicas :: "worker_target list"
  rg_next :: u64

record 'p table_snapshot =
  tn_manifest :: table_manifest
  tn_ypir :: scheme_params
  tn_preprocessed :: 'p
  tn_public_params :: bytes
  tn_public_params_epoch :: bytes
  tn_ready_groups :: "(string, ready_group) btree"

record 'p generation_snapshot =
  gs_manifest :: generation_manifest
  gs_tables :: "(database_id, 'p table_snapshot) btree"

record table_state =
  st_setup :: table_setup
  st_rlwe :: rlwe_params
  st_hint_cache :: "(string \<times> crs_block list) list"
  st_query_slots :: nat

datatype coordinator_phase =
    Syncing u64 u64
  | Building u64
  | Serving
  | Failed string

record 'p coordinator_state =
  co_tables :: "(database_id, table_state) btree"
  co_live :: "'p generation_snapshot list"
  co_phase :: coordinator_phase
  co_non_serving_since :: "nat option"

section \<open>Configuration and status\<close>

definition has_duplicate :: "string list \<Rightarrow> bool" where
  "has_duplicate names \<longleftrightarrow> list_ex (\<lambda>(a, b). a = b) (zip (sort names) (tl (sort names)))"

fun check_replicas :: "worker_target list \<Rightarrow> string list \<Rightarrow> string + string list" where
  "check_replicas [] seen = Inr seen"
| "check_replicas (r # rs) seen =
     (if wt_name r \<in> set seen then Inl ''worker replica names must be unique'' else check_replicas rs (wt_name r # seen))"

fun check_groups :: "worker_group list \<Rightarrow> string list \<Rightarrow> string + string list" where
  "check_groups [] seen = Inr seen"
| "check_groups (g # gs) seen =
     (if wg_name g = [] then Inl ''worker group name must not be empty''
      else if wg_replicas g = [] then Inl ''worker group needs at least one replica''
      else bindR (check_replicas (wg_replicas g) seen) (check_groups gs))"

fun configure_tables ::
  "'s ipir_sp \<Rightarrow> nat \<Rightarrow> table_setup list \<Rightarrow> (database_id, table_state) btree \<Rightarrow> string + (database_id, table_state) btree" where
  "configure_tables ip query_slots [] tables = Inr tables"
| "configure_tables ip query_slots (s # ss) tables =
     (if ts_groups s = [] then Inl ''table needs at least one worker group''
      else if has_duplicate (map wg_name (ts_groups s)) then Inl ''worker group names must be unique''
      else bindR (check_groups (ts_groups s) []) (\<lambda>_.
        if map_of tables (ts_table s) \<noteq> None then Inl ''table is configured twice''
        else bindR (map_err (\<lambda>_. ''parameters'') (shard_parameters ip (db_layout (ts_table s)))) (\<lambda>(rlwe, _).
          configure_tables ip query_slots ss (bt_insert (ts_table s)
            \<lparr> st_setup = s, st_rlwe = rlwe, st_hint_cache = [], st_query_slots = max query_slots 1 \<rparr> tables))))"

definition with_query_slots :: "'s ipir_sp \<Rightarrow> nat \<Rightarrow> table_setup list \<Rightarrow> nat \<Rightarrow> string + 'p coordinator_state" where
  "with_query_slots ip now setups query_slots =
     (if setups = [] then Inl ''at least one PIR table is required''
      else bindR (configure_tables ip query_slots setups []) (\<lambda>tables.
        Inr \<lparr> co_tables = tables, co_live = [], co_phase = Syncing 0 0, co_non_serving_since = Some now \<rparr>))"

definition set_phase :: "nat \<Rightarrow> coordinator_phase \<Rightarrow> 'p coordinator_state \<Rightarrow> 'p coordinator_state" where
  "set_phase now phase co =
     (let since = (case phase of Serving \<Rightarrow> None
                   | _ \<Rightarrow> if co_non_serving_since co = None then Some now else co_non_serving_since co)
      in co \<lparr> co_non_serving_since := since, co_phase := phase \<rparr>)"

definition newest :: "'p coordinator_state \<Rightarrow> 'p generation_snapshot option" where
  "newest co = (case co_live co of [] \<Rightarrow> None | s # _ \<Rightarrow> Some s)"

definition find_generation :: "'p coordinator_state \<Rightarrow> u64 \<Rightarrow> 'p generation_snapshot option" where
  "find_generation co generation = find (\<lambda>s. gm_generation (gs_manifest s) = generation) (co_live co)"

definition co_table :: "'p coordinator_state \<Rightarrow> database_id \<Rightarrow> string + table_state" where
  "co_table co table = ok_or ''table is not served'' (map_of (co_tables co) table)"

definition session :: "(bytes \<Rightarrow> string) \<Rightarrow> 'p coordinator_state \<Rightarrow> (enhance_generation \<times> scheme_params \<times> string) option" where
  "session base64 co =
     (case newest co of None \<Rightarrow> None
      | Some snapshot \<Rightarrow>
        (case map_of (gs_tables snapshot) Enhance of None \<Rightarrow> None
         | Some table \<Rightarrow>
           (case gm_public (gs_manifest snapshot) of None \<Rightarrow> None
            | Some generation \<Rightarrow> Some (generation, tn_ypir table, base64 (tn_public_params table)))))"

definition is_ready :: "coordinator_phase \<Rightarrow> bool \<Rightarrow> bool" where
  "is_ready phase has_live_snapshot \<longleftrightarrow>
     has_live_snapshot \<and> (case phase of Serving \<Rightarrow> True | Building _ \<Rightarrow> True | _ \<Rightarrow> False)"

text \<open>Instants and durations are nanoseconds.\<close>

definition HEALTH_PHASE_GRACE_PERIOD :: nat where "HEALTH_PHASE_GRACE_PERIOD = 30 * 10 ^ 9"

definition health_status :: "coordinator_phase \<Rightarrow> nat \<Rightarrow> nat" where
  "health_status phase non_serving_for =
     (case phase of
        Serving \<Rightarrow> 200
      | Failed _ \<Rightarrow> 503
      | _ \<Rightarrow> if non_serving_for > HEALTH_PHASE_GRACE_PERIOD then 503 else 200)"

section \<open>Calling a worker\<close>

definition status_success :: "nat \<Rightarrow> bool" where
  "status_success s \<longleftrightarrow> 200 \<le> s \<and> s < 300"

text \<open>A response of a remote process; the body of a bare status is not read.\<close>

definition remote_reply :: "'a reply \<Rightarrow> 'a \<Rightarrow> string + 'a" where
  "remote_reply reply bare =
     (case reply of Reply x \<Rightarrow> Inr x
      | Status s \<Rightarrow> if status_success s then Inr bare else Inl ''worker returned an error status''
      | Dropped \<Rightarrow> Inl ''send'')"

definition local_result :: "worker_error + 'a \<Rightarrow> string + 'a" where
  "local_result r = map_err (\<lambda>e. case e of Worker_Err m \<Rightarrow> m | Worker_Panic m \<Rightarrow> ''task failed'') r"

definition fleet_put :: "string \<Rightarrow> 's worker_state \<Rightarrow> 's fleet \<Rightarrow> 's fleet" where
  "fleet_put name ws fl = fl \<lparr> fl_process := (fl_process fl)(name := ws) \<rparr>"

fun prepare_worker ::
  "'s ipir_sp \<Rightarrow> (bytes \<Rightarrow> string) \<Rightarrow> 's fleet \<Rightarrow> worker_target \<Rightarrow> database_id \<Rightarrow> u64 \<Rightarrow> nat \<Rightarrow> u64 \<Rightarrow> string \<Rightarrow> bytes
     \<Rightarrow> 's fleet \<times> (string + unit)" where
  "prepare_worker ip sha_hex fl (Embedded name) table shard_id query_row_start logical_rows rows_sha256 rows =
     (let (ws, r) = prepare_local ip sha_hex (fl_process fl name) table shard_id query_row_start logical_rows rows_sha256 rows in
      (fleet_put name ws fl, bindR (local_result r) (\<lambda>_. Inr ())))"
| "prepare_worker ip sha_hex fl (Remote name base_url) table shard_id query_row_start logical_rows rows_sha256 rows =
     (if \<not> fl_up fl base_url then (fl, Inl ''send'')
      else let (ws, reply) = prepare_handler ip sha_hex (fl_process fl base_url) (db_as_str table) shard_id query_row_start logical_rows rows_sha256 rows in
        (fleet_put base_url ws fl, bindR (remote_reply reply ([], table, shard_id, rows_sha256)) (\<lambda>_. Inr ())))"

fun ensure_worker ::
  "'s ipir_sp \<Rightarrow> (bytes \<Rightarrow> string) \<Rightarrow> 's fleet \<Rightarrow> worker_target \<Rightarrow> database_id \<Rightarrow> u64 \<Rightarrow> nat \<Rightarrow> string \<Rightarrow> 's fleet \<times> (string + unit)" where
  "ensure_worker ip sha_hex fl (Embedded name) table shard_id query_row_start rows_sha256 =
     (let (ws, r) = ensure_local ip sha_hex (fl_process fl name) table shard_id query_row_start rows_sha256 in
      (fleet_put name ws fl, local_result r))"
| "ensure_worker ip sha_hex fl (Remote name base_url) table shard_id query_row_start rows_sha256 =
     (if \<not> fl_up fl base_url then (fl, Inl ''send'')
      else let (ws, reply) = load_handler ip sha_hex (fl_process fl base_url) (db_as_str table) shard_id query_row_start rows_sha256 in
        (fleet_put base_url ws fl, remote_reply reply ()))"

definition worker_hint_limit :: nat where
  "worker_hint_limit = Max (set (map (\<lambda>table. dl_shard_bytes (db_layout table)) DB_ALL)) * 4"

definition read_worker_body :: "bytes \<Rightarrow> nat \<Rightarrow> string + bytes" where
  "read_worker_body body limit = (if length body > limit then Inl ''worker response exceeds limit'' else Inr body)"

fun fetch_hint :: "'s fleet \<Rightarrow> worker_target \<Rightarrow> database_id \<Rightarrow> u64 \<Rightarrow> string + bytes" where
  "fetch_hint fl (Embedded name) table shard_id = local_result (crs_local (fl_process fl name) table shard_id)"
| "fetch_hint fl (Remote name base_url) table shard_id =
     (if \<not> fl_up fl base_url then Inl ''send''
      else bindR (remote_reply (hint_handler (fl_process fl base_url) (db_as_str table) shard_id) []) (\<lambda>body.
        read_worker_body body worker_hint_limit))"

fun activate_worker :: "'s fleet \<Rightarrow> worker_target \<Rightarrow> activate_request \<Rightarrow> 's fleet \<times> (string + unit)" where
  "activate_worker fl (Embedded name) request =
     (let (ws, r) = activate_local (fl_process fl name) request in (fleet_put name ws fl, local_result r))"
| "activate_worker fl (Remote name base_url) request =
     (if \<not> fl_up fl base_url then (fl, Inl ''send'')
      else let (ws, reply) = activate_handler (fl_process fl base_url) request in
        (fleet_put base_url ws fl, remote_reply reply ()))"

text \<open>An error of an evaluation, with its \<open>retryable\<close> flag; \<open>contains\<close> on the worker's own messages.\<close>

definition retryable_message :: "string \<Rightarrow> bool" where
  "retryable_message m \<longleftrightarrow> m \<in> {''worker is at its evaluation limit'', ''generation mismatch'', ''active shard disappeared''}"

fun evaluate_worker ::
  "'s ipir_sp \<Rightarrow> 's fleet \<Rightarrow> worker_target \<Rightarrow> database_id \<Rightarrow> evaluate_request \<Rightarrow> (string \<times> bool) + u64 list" where
  "evaluate_worker ip fl (Embedded name) table request =
     map_err (\<lambda>m. (m, retryable_message m)) (local_result (evaluate_local ip (fl_process fl name) table request))"
| "evaluate_worker ip fl (Remote name base_url) table request =
     (if \<not> fl_up fl base_url then Inl (''send'', True)
      else case evaluate_handler ip (fl_process fl base_url) (db_as_str table) (encode_evaluate_request request) of
          Dropped \<Rightarrow> Inl (''send'', True)
        | Status s \<Rightarrow> Inl (''worker evaluation returned an error status'', s = 429 \<or> 500 \<le> s \<and> s < 600)
        | Reply body \<Rightarrow>
          bindR (map_err (\<lambda>m. (m, False)) (read_worker_body body (1024 * 1024))) (\<lambda>bs.
          bindR (map_err (\<lambda>_. (''malformed'', False)) (decode_evaluate_response bs)) (\<lambda>(response_generation, coefficients).
          if response_generation \<noteq> er_generation request then Inl (''worker response generation mismatch'', True)
          else Inr coefficients)))"

section \<open>Building a table\<close>

definition cache_prefix :: "worker_target \<Rightarrow> u64 \<Rightarrow> string" where
  "cache_prefix replica shard_id = wt_name replica @ '':'' @ decimal (unat shard_id) @ '':''"

definition cache_key :: "worker_target \<Rightarrow> u64 \<Rightarrow> nat \<Rightarrow> string \<Rightarrow> string" where
  "cache_key replica shard_id query_row_start rows_sha256 =
     cache_prefix replica shard_id @ decimal query_row_start @ '':'' @ rows_sha256"

definition starts_with :: "string \<Rightarrow> string \<Rightarrow> bool" where
  "starts_with s prefix \<longleftrightarrow> take (length prefix) s = prefix"

definition prepare_and_fetch ::
  "'s ipir_sp \<Rightarrow> (bytes \<Rightarrow> string) \<Rightarrow> (string \<times> crs_block list) list \<Rightarrow> 's fleet \<Rightarrow> worker_target \<Rightarrow> database_id \<Rightarrow> u64 \<Rightarrow> nat \<Rightarrow> u64
     \<Rightarrow> string \<Rightarrow> bytes \<Rightarrow> nat \<Rightarrow> nat \<Rightarrow> (string \<times> crs_block list) list \<times> 's fleet \<times> (string + crs_block list)" where
  "prepare_and_fetch ip sha_hex cache fl replica table shard_id query_row_start logical_rows rows_sha256 rows expected_blocks degree =
     (case prepare_worker ip sha_hex fl replica table shard_id query_row_start logical_rows rows_sha256 rows of
        (fl, Inl e) \<Rightarrow> (cache, fl, Inl e)
      | (fl, Inr _) \<Rightarrow>
        (case bindR (fetch_hint fl replica table shard_id) (\<lambda>encoded.
              map_err (\<lambda>_. ''malformed hint'') (decode_crs_blocks encoded expected_blocks degree)) of
           Inl e \<Rightarrow> (cache, fl, Inl e)
         | Inr hint \<Rightarrow>
           (hm_insert (cache_key replica shard_id query_row_start rows_sha256) hint
              (filter (\<lambda>(key, _). \<not> starts_with key (cache_prefix replica shard_id)) cache), fl, Inr hint)))"

definition prepare_replica_shard ::
  "'s ipir_sp \<Rightarrow> (bytes \<Rightarrow> string) \<Rightarrow> (string \<times> crs_block list) list \<Rightarrow> 's fleet \<Rightarrow> worker_target \<Rightarrow> database_id \<Rightarrow> u64 \<Rightarrow> nat \<Rightarrow> u64
     \<Rightarrow> string \<Rightarrow> bytes \<Rightarrow> nat \<Rightarrow> nat \<Rightarrow> (string \<times> crs_block list) list \<times> 's fleet \<times> (string + crs_block list)" where
  "prepare_replica_shard ip sha_hex cache fl replica table shard_id query_row_start logical_rows rows_sha256 rows expected_blocks degree =
     (case map_of cache (cache_key replica shard_id query_row_start rows_sha256) of
        Some hint \<Rightarrow>
        (case ensure_worker ip sha_hex fl replica table shard_id query_row_start rows_sha256 of
           (fl, Inr _) \<Rightarrow> (cache, fl, Inr hint)
         | (fl, Inl _) \<Rightarrow> prepare_and_fetch ip sha_hex cache fl replica table shard_id query_row_start logical_rows rows_sha256 rows expected_blocks degree)
      | None \<Rightarrow> prepare_and_fetch ip sha_hex cache fl replica table shard_id query_row_start logical_rows rows_sha256 rows expected_blocks degree)"

type_synonym assignments = "(string, worker_target \<times> activate_shard list) btree"

text \<open>One shard on every replica still in the running: the names and hints of those that succeeded.\<close>

fun prepare_replicas ::
  "(('c \<times> 'f) \<Rightarrow> worker_target \<Rightarrow> 'c \<times> 'f \<times> (string + crs_block list)) \<Rightarrow> worker_target list \<Rightarrow> 'c \<times> 'f
     \<Rightarrow> ('c \<times> 'f) \<times> (string \<times> crs_block list) list" where
  "prepare_replicas prep [] s = (s, [])"
| "prepare_replicas prep (r # rs) s =
     (let (c, f, result) = prep s r;
          (s', successful) = prepare_replicas prep rs (c, f)
      in (s', (case result of Inr hint \<Rightarrow> [(wt_name r, hint)] | Inl _ \<Rightarrow> []) @ successful))"

record build_progress =
  bp_candidates :: "(string, assignments) btree"
  bp_descriptors :: "shard_descriptor list"
  bp_combined :: "crs_block list option"

definition accept_replicas :: "u64 \<Rightarrow> string \<Rightarrow> string list \<Rightarrow> assignments \<Rightarrow> assignments" where
  "accept_replicas shard_id digest accepted candidates =
     map (\<lambda>(name, replica, shards). (name, replica, shards @ [\<lparr> as_shard_id = shard_id, as_rows_sha256 = digest \<rparr>]))
       (filter (\<lambda>(name, _). name \<in> set accepted) candidates)"

definition combine_hint :: "rlwe_params \<Rightarrow> crs_block list \<Rightarrow> crs_block list option \<Rightarrow> string + crs_block list" where
  "combine_hint rlwe hint combined =
     (case combined of
        Some accumulator \<Rightarrow> map_err (\<lambda>_. ''CRS'') (add_crs_blocks_assign_mod accumulator hint rlwe)
      | None \<Rightarrow> Inr hint)"

definition describe_shard :: "table_source \<Rightarrow> u64 \<Rightarrow> string \<Rightarrow> string \<Rightarrow> shard_descriptor" where
  "describe_shard source shard_id digest group_name =
     \<lparr> sd_shard_id = shard_id, sd_global_row_start = shard_id * of_nat (dl_shard_rows (so_layout source)),
       sd_populated_positions = so_populated source shard_id, sd_rows_sha256 = digest,
       sd_sealed = (so_populated source shard_id = of_nat (dl_shard_positions (so_layout source))), sd_worker = group_name \<rparr>"

definition build_shard ::
  "'s ipir_sp \<Rightarrow> (bytes \<Rightarrow> string) \<Rightarrow> table_source \<Rightarrow> worker_group list \<Rightarrow> rlwe_params \<Rightarrow> nat \<Rightarrow> u64 \<Rightarrow> u64
     \<Rightarrow> ((string \<times> crs_block list) list \<times> 's fleet) \<Rightarrow> build_progress
     \<Rightarrow> ((string \<times> crs_block list) list \<times> 's fleet) \<times> (string + build_progress)" where
  "build_shard ip sha_hex source groups rlwe expected_blocks logical_rows shard_id s bp =
     (case group_index_for_shard shard_id (length groups) of
        None \<Rightarrow> (s, Inl ''shard exceeds the capacity of the worker groups'')
      | Some group_index \<Rightarrow>
        let group = groups ! group_index in
        (case so_read_shard_rows source shard_id of
           Inl e \<Rightarrow> (s, Inl e)
         | Inr rows \<Rightarrow>
           let digest = sha_hex rows;
               query_row_start = unat shard_id * dl_shard_rows (so_layout source);
               candidates = the (map_of (bp_candidates bp) (wg_name group))
           in if candidates = [] then (s, Inl ''worker group has no replica with a complete assignment'')
              else
                let (s, successful) = prepare_replicas (\<lambda>(cache, fl) replica.
                        prepare_replica_shard ip sha_hex cache fl replica (so_table source) shard_id query_row_start logical_rows digest rows
                          expected_blocks (rlwe_d rlwe)) (map (\<lambda>(_, replica, _). replica) candidates) s
                in (case successful of
                      [] \<Rightarrow> (s, Inl ''worker group has no ready replica'')
                    | (_, hint) # _ \<Rightarrow>
                      let accepted = map fst (filter (\<lambda>(_, h). h = hint) successful);
                          kept = accept_replicas shard_id digest accepted candidates
                      in if kept = [] then (s, Inl ''worker group has no replica with a complete matching assignment'')
                         else (s, bindR (combine_hint rlwe hint (bp_combined bp)) (\<lambda>combined.
                           Inr (bp \<lparr> bp_candidates := bt_insert (wg_name group) kept (bp_candidates bp),
                                     bp_descriptors := bp_descriptors bp @ [describe_shard source shard_id digest (wg_name group)],
                                     bp_combined := Some combined \<rparr>))))))"

fun build_shards ::
  "(u64 \<Rightarrow> 'x \<Rightarrow> build_progress \<Rightarrow> 'x \<times> (string + build_progress)) \<Rightarrow> u64 list \<Rightarrow> 'x \<Rightarrow> build_progress
     \<Rightarrow> 'x \<times> (string + build_progress)" where
  "build_shards step [] s bp = (s, Inr bp)"
| "build_shards step (i # is) s bp =
     (case step i s bp of (s, Inl e) \<Rightarrow> (s, Inl e) | (s, Inr bp) \<Rightarrow> build_shards step is s bp)"

fun activate_replicas ::
  "u64 \<Rightarrow> database_id \<Rightarrow> assignments \<Rightarrow> 's fleet \<Rightarrow> 's fleet \<times> worker_target list" where
  "activate_replicas generation table [] fl = (fl, [])"
| "activate_replicas generation table ((_, replica, shards) # rs) fl =
     (let (fl, result) = activate_worker fl replica \<lparr> ar_generation = generation, ar_tables = [(table, shards)] \<rparr>;
          (fl, ready) = activate_replicas generation table rs fl
      in (fl, (case result of Inr _ \<Rightarrow> [replica] | Inl _ \<Rightarrow> []) @ ready))"

fun activate_groups ::
  "u64 \<Rightarrow> database_id \<Rightarrow> string list \<Rightarrow> (string \<times> assignments) list \<Rightarrow> 's fleet \<Rightarrow> (string, ready_group) btree
     \<Rightarrow> 's fleet \<times> (string + (string, ready_group) btree)" where
  "activate_groups generation table used [] fl ready_groups = (fl, Inr ready_groups)"
| "activate_groups generation table used ((name, replicas) # gs) fl ready_groups =
     (if name \<notin> set used then activate_groups generation table used gs fl ready_groups
      else let (fl, ready) = activate_replicas generation table replicas fl in
        if ready = [] then (fl, Inl ''worker group did not activate any replica'')
        else activate_groups generation table used gs fl (bt_insert name \<lparr> rg_replicas = ready, rg_next = 0 \<rparr> ready_groups))"

definition initial_candidates :: "worker_group list \<Rightarrow> (string, assignments) btree" where
  "initial_candidates groups =
     fold (\<lambda>g. bt_insert (wg_name g) (fold (\<lambda>r. bt_insert (wt_name r) (r, [])) (wg_replicas g) [])) groups []"

definition parameter_id :: "database_id \<Rightarrow> rlwe_params \<Rightarrow> scheme_params \<Rightarrow> string" where
  "parameter_id table rlwe ypir =
     PROTOCOL_REVISION @ ''-'' @ db_as_str table @ ''-d'' @ decimal (rlwe_d rlwe) @ ''-p'' @ decimal (unat (sp_p ypir))
     @ ''-rows'' @ decimal (sp_db_rows ypir) @ ''-cols'' @ decimal (sp_db_cols ypir)"

definition table_manifest_of ::
  "(bytes \<Rightarrow> bytes) \<Rightarrow> (bytes \<Rightarrow> string) \<Rightarrow> table_source \<Rightarrow> rlwe_params \<Rightarrow> scheme_params \<Rightarrow> u64 \<Rightarrow> u64 \<Rightarrow> bytes \<Rightarrow> shard_descriptor list
     \<Rightarrow> table_manifest" where
  "table_manifest_of sha256 hex_encode source rlwe ypir used_rows logical_rows public_params descriptors =
     (let layout = so_layout source; digest = sha256 public_params in
      \<lparr> tm_record_bytes = of_nat (dl_record_bytes layout), tm_records_per_row = of_nat (dl_records_per_row layout),
        tm_row_bytes = of_nat (dl_row_bytes layout), tm_shard_rows = of_nat (dl_shard_rows layout),
        tm_positions = so_positions source, tm_used_rows = used_rows, tm_logical_rows = logical_rows,
        tm_parameter_id = parameter_id (so_table source) rlwe ypir, tm_setup_seed = db_setup_seed (so_table source),
        tm_public_params_epoch = hex_encode (take 8 digest), tm_public_params_sha256 = hex_encode digest,
        tm_shards = descriptors \<rparr>)"

text \<open>The parameters of a table to be published, or why it cannot be.\<close>

definition table_parameters ::
  "'s ipir_sp \<Rightarrow> table_state \<Rightarrow> table_source \<Rightarrow> string + (u64 \<times> u64 \<times> scheme_params)" where
  "table_parameters ip state source =
     (if so_layout source \<noteq> db_layout (so_table source) then Inl ''source layout does not match the protocol''
      else if so_positions source = 0 then Inl ''cannot publish an empty table''
      else let used_rows = dl_used_rows_for (so_layout source) (so_positions source);
               logical_rows = dl_logical_rows_for (so_layout source) used_rows
        in bindR (map_err (\<lambda>_. ''parameters'') (global_parameters ip logical_rows (so_layout source))) (\<lambda>(global_rlwe, ypir).
           if rlwe_d global_rlwe \<noteq> rlwe_d (st_rlwe state) \<or> rlwe_q global_rlwe \<noteq> rlwe_q (st_rlwe state)
           then Inl ''global RLWE parameters changed unexpectedly''
           else Inr (used_rows, logical_rows, ypir)))"

definition finish_table ::
  "('k, 'p, 'r) pack_sp \<Rightarrow> (bytes \<Rightarrow> bytes) \<Rightarrow> (bytes \<Rightarrow> string) \<Rightarrow> table_source \<Rightarrow> rlwe_params \<Rightarrow> u64 \<times> u64 \<times> scheme_params
     \<Rightarrow> build_progress \<Rightarrow> (string, ready_group) btree \<Rightarrow> string + 'p table_snapshot" where
  "finish_table pk sha256 hex_encode source rlwe = (\<lambda>(used_rows, logical_rows, ypir) bp ready_groups.
     bindR (ok_or ''no CRS contributions'' (bp_combined bp)) (\<lambda>combined_crs.
     bindR (build_preprocessed pk rlwe combined_crs) (\<lambda>preprocessed.
     let public_params = published_c1_rows pk preprocessed (rlwe_q rlwe) in
     Inr \<lparr> tn_manifest = table_manifest_of sha256 hex_encode source rlwe ypir used_rows logical_rows public_params (bp_descriptors bp),
           tn_ypir = ypir, tn_preprocessed = preprocessed, tn_public_params = public_params,
           tn_public_params_epoch = take 8 (sha256 public_params), tn_ready_groups = ready_groups \<rparr>)))"

definition build_table ::
  "'s ipir_sp \<Rightarrow> ('k, 'p, 'r) pack_sp \<Rightarrow> (bytes \<Rightarrow> bytes) \<Rightarrow> (bytes \<Rightarrow> string) \<Rightarrow> table_source \<Rightarrow> u64
     \<Rightarrow> 's fleet \<times> 'p coordinator_state \<Rightarrow> ('s fleet \<times> 'p coordinator_state) \<times> (string + 'p table_snapshot)" where
  "build_table ip pk sha256 hex_encode source generation = (\<lambda>(fl, co).
     case bindR (co_table co (so_table source)) (\<lambda>state. bindR (table_parameters ip state source) (\<lambda>ps. Inr (state, ps))) of
       Inl e \<Rightarrow> ((fl, co), Inl e)
     | Inr (state, used_rows, logical_rows, ypir) \<Rightarrow>
       let rlwe = st_rlwe state;
           groups = ts_groups (st_setup state);
           ((cache, fl), built) = build_shards
             (build_shard ip (hex_encode \<circ> sha256) source groups rlwe (sp_db_cols ypir div rlwe_d rlwe) logical_rows)
             (so_shard_ids source) (st_hint_cache state, fl)
             \<lparr> bp_candidates = initial_candidates groups, bp_descriptors = [], bp_combined = None \<rparr>;
           co = co \<lparr> co_tables := bt_insert (so_table source) (state \<lparr> st_hint_cache := cache \<rparr>) (co_tables co) \<rparr>
       in (case built of
             Inl e \<Rightarrow> ((fl, co), Inl e)
           | Inr bp \<Rightarrow>
             (case activate_groups generation (so_table source) (map sd_worker (bp_descriptors bp)) (bp_candidates bp) fl [] of
                (fl, Inl e) \<Rightarrow> ((fl, co), Inl e)
              | (fl, Inr ready_groups) \<Rightarrow>
                ((fl, co), finish_table pk sha256 hex_encode source rlwe (used_rows, logical_rows, ypir) bp ready_groups))))"

section \<open>Publishing\<close>

fun build_tables ::
  "(table_source \<Rightarrow> 'x \<Rightarrow> 'x \<times> (string + 'p table_snapshot)) \<Rightarrow> table_source list \<Rightarrow> 'x \<Rightarrow> (database_id, 'p table_snapshot) btree
     \<Rightarrow> 'x \<times> (string + (database_id, 'p table_snapshot) btree)" where
  "build_tables step [] s snapshots = (s, Inr snapshots)"
| "build_tables step (source # sources) s snapshots =
     (case step source s of
        (s, Inl e) \<Rightarrow> (s, Inl e)
      | (s, Inr snapshot) \<Rightarrow> build_tables step sources s (bt_insert (so_table source) snapshot snapshots))"

text \<open>The new snapshot in front of those retained, at most eight of them.\<close>

fun retain_generations :: "u64 \<Rightarrow> 'p generation_snapshot list \<Rightarrow> 'p generation_snapshot list \<Rightarrow> 'p generation_snapshot list" where
  "retain_generations generation [] retained = retained"
| "retain_generations generation (previous # rest) retained =
     (if length retained \<ge> RETAINED_GENERATIONS then retained
      else retain_generations generation rest
        (if gm_generation (gs_manifest previous) \<noteq> generation then retained @ [previous] else retained))"

definition published_tree_size :: "table_source list \<Rightarrow> 'p coordinator_state \<Rightarrow> u64" where
  "published_tree_size sources co =
     (case find (\<lambda>source. so_table source = Enhance) sources of
        Some source \<Rightarrow> so_positions source
      | None \<Rightarrow> (case newest co of Some snapshot \<Rightarrow> gm_ironwood_tree_size (gs_manifest snapshot) | None \<Rightarrow> 0))"

definition publish ::
  "'s ipir_sp \<Rightarrow> ('k, 'p, 'r) pack_sp \<Rightarrow> (bytes \<Rightarrow> bytes) \<Rightarrow> (bytes \<Rightarrow> string) \<Rightarrow> nat \<Rightarrow> table_source list \<Rightarrow> u64 \<Rightarrow> string
     \<Rightarrow> 's fleet \<times> 'p coordinator_state \<Rightarrow> ('s fleet \<times> 'p coordinator_state) \<times> (string + unit)" where
  "publish ip pk sha256 hex_encode now sources anchor_height anchor_hash = (\<lambda>(fl, co).
     let sources = filter (\<lambda>source. map_of (co_tables co) (so_table source) \<noteq> None) sources in
     if sources = [] then ((fl, co), Inl ''nothing to publish'')
     else
       let co = set_phase now (Building anchor_height) co;
           generation = next_generation (map_option (\<lambda>s. gm_generation (gs_manifest s)) (newest co)) anchor_height;
           ironwood_tree_size = published_tree_size sources co
       in (case build_tables (\<lambda>source. build_table ip pk sha256 hex_encode source generation) sources (fl, co) [] of
             (s, Inl e) \<Rightarrow> (s, Inl e)
           | ((fl, co), Inr snapshots) \<Rightarrow>
             let manifest = \<lparr> gm_anchor_height = anchor_height, gm_anchor_block_hash = anchor_hash,
                              gm_ironwood_tree_size = ironwood_tree_size, gm_generation = generation,
                              gm_tables = map_of (map (\<lambda>(table, s). (table, tn_manifest s)) snapshots) \<rparr>;
                 snapshot = \<lparr> gs_manifest = manifest, gs_tables = snapshots \<rparr>;
                 co = co \<lparr> co_live := retain_generations generation (co_live co) [snapshot] \<rparr>
             in ((fl, set_phase now Serving co), Inr ())))"

definition publish_from_store ::
  "'s ipir_sp \<Rightarrow> ('k, 'p, 'r) pack_sp \<Rightarrow> (bytes \<Rightarrow> bytes) \<Rightarrow> (bytes \<Rightarrow> string) \<Rightarrow> nat \<Rightarrow> journal \<Rightarrow> u64 \<Rightarrow> string
     \<Rightarrow> 's fleet \<times> 'p coordinator_state \<Rightarrow> ('s fleet \<times> 'p coordinator_state) \<times> (string + unit)" where
  "publish_from_store ip pk sha256 hex_encode now store anchor_height anchor_hash s =
     (case table_journal Enhance store of
        Inl e \<Rightarrow> (s, Inl e)
      | Inr enhance \<Rightarrow> publish ip pk sha256 hex_encode now [enhance] anchor_height anchor_hash s)"

section \<open>Answering a query\<close>

definition replicas_for_request :: "ready_group \<Rightarrow> worker_target list \<times> ready_group" where
  "replicas_for_request g =
     (let n = length (rg_replicas g);
          start = unat (rg_next g) mod n
      in (map (\<lambda>offset. rg_replicas g ! ((start + offset) mod n)) [0..<n], g \<lparr> rg_next := rg_next g + 1 \<rparr>))"

text \<open>One group: its replicas in turn, until one answers or fails for good.\<close>

fun evaluate_replicas ::
  "'s ipir_sp \<Rightarrow> 's fleet \<Rightarrow> database_id \<Rightarrow> evaluate_request \<Rightarrow> worker_target list \<Rightarrow> string option \<Rightarrow> string + u64 list" where
  "evaluate_replicas ip fl table request [] last_error =
     Inl (case last_error of Some e \<Rightarrow> e | None \<Rightarrow> ''worker group has no ready replica'')"
| "evaluate_replicas ip fl table request (r # rs) last_error =
     (case evaluate_worker ip fl r table request of
        Inr v \<Rightarrow> Inr v
      | Inl (message, retryable) \<Rightarrow>
        if \<not> retryable then Inl message else evaluate_replicas ip fl table request rs (Some message))"

fun split_query ::
  "nat \<Rightarrow> u64 list \<Rightarrow> shard_descriptor list \<Rightarrow> (string, shard_query list) btree \<Rightarrow> string + (string, shard_query list) btree" where
  "split_query shard_rows global_query [] by_group = Inr by_group"
| "split_query shard_rows global_query (shard # shards) by_group =
     (let start = unat (sd_global_row_start shard) in
      if start + shard_rows \<le> length global_query then
        let q = \<lparr> sq_shard_id = sd_shard_id shard, sq_coefficients = take shard_rows (drop start global_query) \<rparr>;
            entry = (case map_of by_group (sd_worker shard) of None \<Rightarrow> [] | Some qs \<Rightarrow> qs)
        in split_query shard_rows global_query shards (bt_insert (sd_worker shard) (entry @ [q]) by_group)
      else Inl ''query does not cover a published shard'')"

text \<open>The groups a task is started for, with their round-robin counters advanced, and the queries left over.\<close>

fun start_groups ::
  "(string \<times> ready_group) list \<Rightarrow> (string, shard_query list) btree
     \<Rightarrow> (string \<times> ready_group) list \<times> (worker_target list \<times> shard_query list) list \<times> (string, shard_query list) btree" where
  "start_groups [] by_group = ([], [], by_group)"
| "start_groups ((name, g) # gs) by_group =
     (case map_of by_group name of
        None \<Rightarrow> (case start_groups gs by_group of (gs', tasks, left) \<Rightarrow> ((name, g) # gs', tasks, left))
      | Some shards \<Rightarrow>
        (case replicas_for_request g of (replicas, g') \<Rightarrow>
           (case start_groups gs (bt_remove name by_group) of (gs', tasks, left) \<Rightarrow> ((name, g') # gs', (replicas, shards) # tasks, left))))"

definition combine_partial ::
  "'s ipir_sp \<Rightarrow> 's fleet \<Rightarrow> database_id \<Rightarrow> u64 \<Rightarrow> u64 \<Rightarrow> worker_target list \<times> shard_query list \<Rightarrow> u64 list \<Rightarrow> string + u64 list" where
  "combine_partial ip fl table generation q task combined =
     bindR (evaluate_replicas ip fl table \<lparr> er_generation = generation, er_shards = snd task \<rparr> (fst task) None) (\<lambda>partial.
     map_err (\<lambda>_. ''add'') (add_intermediate_assign_mod combined partial q))"

definition evaluate_query ::
  "'s ipir_sp \<Rightarrow> 's fleet \<Rightarrow> database_id \<Rightarrow> u64 \<Rightarrow> rlwe_params \<Rightarrow> 'p table_snapshot \<Rightarrow> u64 list
     \<Rightarrow> 'p table_snapshot \<times> (string + u64 list)" where
  "evaluate_query ip fl table generation rlwe live global_query =
     (case split_query (dl_shard_rows (db_layout table)) global_query (tm_shards (tn_manifest live)) [] of
        Inl e \<Rightarrow> (live, Inl e)
      | Inr by_group \<Rightarrow>
        (case start_groups (tn_ready_groups live) by_group of (groups, tasks, left) \<Rightarrow>
           (live \<lparr> tn_ready_groups := groups \<rparr>,
            if left \<noteq> [] then Inl ''snapshot references an unavailable worker group''
            else bindR (foldR (combine_partial ip fl table generation (rlwe_q rlwe)) tasks (replicate (sp_db_cols (tn_ypir live)) 0)) (\<lambda>combined.
              if tasks = [] then Inl ''no worker evaluated the query'' else Inr combined))))"

definition decode_query ::
  "'s ipir_sp \<Rightarrow> ('k, 'p, 'r) pack_sp \<Rightarrow> rlwe_params \<Rightarrow> scheme_params \<Rightarrow> bytes \<Rightarrow> string + ('k \<times> u64 list)" where
  "decode_query ip pk rlwe ypir body =
     (let packing_len = packing_keys_len pk rlwe;
          switched_len = (sp_db_rows ypir * sp_query_bits ypir + 7) div 8
      in if length body \<noteq> 8 + packing_len + switched_len then Inl ''query has the wrong fixed length''
         else bindR (read_packing_keys pk rlwe (take packing_len (drop 8 body))) (\<lambda>packing_keys.
           bindR (map_err (\<lambda>_. ''query'') (deserialize_first_dim_query ip rlwe ypir (drop (8 + packing_len) body))) (\<lambda>global_query.
           Inr (packing_keys, global_query))))"

definition put_table :: "u64 \<Rightarrow> database_id \<Rightarrow> 'p table_snapshot \<Rightarrow> 'p generation_snapshot list \<Rightarrow> 'p generation_snapshot list" where
  "put_table generation table live snapshots =
     map (\<lambda>s. if gm_generation (gs_manifest s) = generation then s \<lparr> gs_tables := bt_insert table live (gs_tables s) \<rparr> else s) snapshots"

definition answer_query ::
  "'s ipir_sp \<Rightarrow> ('k, 'p, 'r) pack_sp \<Rightarrow> 's fleet \<Rightarrow> database_id \<Rightarrow> bytes \<Rightarrow> 'p coordinator_state
     \<Rightarrow> 'p coordinator_state \<times> (string + bytes)" where
  "answer_query ip pk fl table body co =
     (case co_table co table of
        Inl e \<Rightarrow> (co, Inl e)
      | Inr state \<Rightarrow>
        if length body < 8 then (co, Inl ''query is truncated'')
        else
          let rlwe = st_rlwe state; generation = of_nat (le_val (take 8 body)) in
          (case find_generation co generation of
             None \<Rightarrow> (co, Inl ''query generation is not retained'')
           | Some snapshot \<Rightarrow>
             (case map_of (gs_tables snapshot) table of
                None \<Rightarrow> (co, Inl ''generation has no table'')
              | Some live \<Rightarrow>
                (case decode_query ip pk rlwe (tn_ypir live) body of
                   Inl e \<Rightarrow> (co, Inl e)
                 | Inr (packing_keys, global_query) \<Rightarrow>
                   (case evaluate_query ip fl table generation rlwe live global_query of (live, result) \<Rightarrow>
                      (co \<lparr> co_live := put_table generation table live (co_live co) \<rparr>,
                       bindR result (\<lambda>combined.
                       bindR (pack_intermediate pk rlwe combined packing_keys (tn_preprocessed live)) (\<lambda>packed.
                       Inr (u64_le generation @ tn_public_params_epoch live @ response_bodies pk packed (tn_ypir live))))))))))"

text \<open>The query handler: 404 for a table that is not served, 503 when no slot becomes free in time or the query fails.\<close>

definition answer_handler ::
  "'s ipir_sp \<Rightarrow> ('k, 'p, 'r) pack_sp \<Rightarrow> 's fleet \<Rightarrow> bool \<Rightarrow> database_id \<Rightarrow> bytes \<Rightarrow> 'p coordinator_state
     \<Rightarrow> 'p coordinator_state \<times> bytes reply" where
  "answer_handler ip pk fl slot_free table body co =
     (if map_of (co_tables co) table = None then (co, Status 404)
      else if \<not> slot_free then (co, Status 503)
      else case answer_query ip pk fl table body co of
          (co, Inr response) \<Rightarrow> (co, Reply response)
        | (co, Inl _) \<Rightarrow> (co, Status 503))"

definition ready_handler :: "'p coordinator_state \<Rightarrow> nat" where
  "ready_handler co = (if is_ready (co_phase co) (newest co \<noteq> None) then 200 else 503)"

definition health_table :: "'p coordinator_state \<Rightarrow> database_id \<times> table_state \<Rightarrow> database_id \<times> nat \<times> nat" where
  "health_table co = (\<lambda>(table, state).
     (table, (case newest co of None \<Rightarrow> 0
              | Some s \<Rightarrow> (case gm_tables (gs_manifest s) table of None \<Rightarrow> 0 | Some m \<Rightarrow> length (tm_shards m))),
      sum_list (map (\<lambda>g. length (wg_replicas g)) (ts_groups (st_setup state)))))"

record coordinator_health =
  ch_phase :: coordinator_phase
  ch_generation :: "u64 option"
  ch_retained_generations :: nat
  ch_anchor_height :: "u64 option"
  ch_ironwood_tree_size :: "u64 option"
  ch_tables :: "(database_id \<times> nat \<times> nat) list"

definition co_health_handler :: "nat \<Rightarrow> 'p coordinator_state \<Rightarrow> nat \<times> coordinator_health" where
  "co_health_handler now co =
     (let non_serving_for = (case co_non_serving_since co of None \<Rightarrow> 0 | Some since \<Rightarrow> now - since);
          manifest = map_option gs_manifest (newest co)
      in (health_status (co_phase co) non_serving_for,
          \<lparr> ch_phase = co_phase co, ch_generation = map_option gm_generation manifest,
            ch_retained_generations = length (co_live co), ch_anchor_height = map_option gm_anchor_height manifest,
            ch_ironwood_tree_size = map_option gm_ironwood_tree_size manifest,
            ch_tables = map (health_table co) (co_tables co) \<rparr>))"

section \<open>Publishing keeps the retained generations\<close>

abbreviation generation_of :: "'p generation_snapshot \<Rightarrow> u64" where
  "generation_of s \<equiv> gm_generation (gs_manifest s)"

definition live_ok :: "'p coordinator_state \<Rightarrow> bool" where
  "live_ok co \<longleftrightarrow> length (co_live co) \<le> RETAINED_GENERATIONS \<and> sorted_wrt (\<lambda>a b. generation_of b < generation_of a) (co_live co)"

lemma co_live_set_phase [simp]: "co_live (set_phase now phase co) = co_live co"
  by (simp add: set_phase_def Let_def)

lemma co_tables_set_phase [simp]: "co_tables (set_phase now phase co) = co_tables co"
  by (simp add: set_phase_def Let_def)

lemma co_phase_set_phase [simp]: "co_phase (set_phase now phase co) = phase"
  by (simp add: set_phase_def Let_def)

lemma newest_set_phase [simp]: "newest (set_phase now phase co) = newest co"
  by (simp add: newest_def)

lemma build_table_live:
  "build_table ip pk sha256 hex_encode source generation (fl, co) = ((fl', co'), r) \<Longrightarrow> co_live co' = co_live co"
  by (auto simp: build_table_def Let_def split: sum.splits prod.splits)

lemma build_tables_live:
  "build_tables (\<lambda>source. build_table ip pk sha256 hex_encode source generation) sources (fl, co) snapshots = ((fl', co'), r)
     \<Longrightarrow> co_live co' = co_live co"
proof (induction sources arbitrary: fl co snapshots)
  case (Cons source sources)
  then show ?case
    by (auto split: prod.splits sum.splits dest!: build_table_live)
qed simp

lemma next_generation_above:
  assumes "g \<noteq> - 1"
  shows "g < next_generation (Some g) tip"
proof -
  have small: "unat g + 1 < 2 ^ 64"
  proof (rule ccontr)
    assume "\<not> unat g + 1 < 2 ^ 64"
    then have "unat g = unat (- 1 :: u64)" using unat_u64_lt [of g] by (simp add: unat_max)
    then show False using assms by (simp add: word_unat_eq_iff)
  qed
  then have "g < g + 1" by (simp add: unat_add_nowrap word_less_nat_alt)
  then show ?thesis
    using small by (simp add: next_generation_def saturating_add_def less_max_iff_disj)
qed

lemma next_generation_tip: "tip \<le> next_generation previous tip"
  by (simp add: next_generation_def split: option.splits)

lemma retain_generations_take:
  assumes "\<forall>s \<in> set live. generation_of s \<noteq> g" and "length retained \<le> RETAINED_GENERATIONS"
  shows "retain_generations g live retained = take RETAINED_GENERATIONS (retained @ live)"
  using assms by (induction g live retained rule: retain_generations.induct) auto

lemma find_sorted:
  assumes "sorted_wrt (\<lambda>a b. generation_of b < generation_of a) live" and "s \<in> set live"
  shows "find (\<lambda>x. generation_of x = generation_of s) live = Some s"
  using assms by (induction live) auto

lemma publish_live:
  assumes ok: "live_ok co" and top: "\<forall>s \<in> set (co_live co). generation_of s \<noteq> - 1"
    and run: "publish ip pk sha256 hex_encode now sources anchor_height anchor_hash (fl, co) = ((fl', co'), Inr ())"
  shows "\<exists>s. co_live co' = take RETAINED_GENERATIONS (s # co_live co) \<and> co_phase co' = Serving
     \<and> gm_anchor_height (gs_manifest s) = anchor_height \<and> gm_anchor_block_hash (gs_manifest s) = anchor_hash
     \<and> anchor_height \<le> generation_of s \<and> (\<forall>p \<in> set (co_live co). generation_of p < generation_of s)"
proof -
  let ?g = "next_generation (map_option (\<lambda>s. generation_of s) (newest co)) anchor_height"
  have above: "generation_of p < ?g" if p: "p \<in> set (co_live co)" for p
  proof (cases "co_live co")
    case (Cons s rest)
    have "generation_of p \<le> generation_of s" using ok p Cons by (auto simp: live_ok_def)
    also have "generation_of s < ?g" using top Cons by (simp add: newest_def next_generation_above)
    finally show ?thesis .
  qed (use p in simp)
  let ?sources = "filter (\<lambda>source. map_of (co_tables co) (so_table source) \<noteq> None) sources"
  obtain fl1 co1 res where built: "build_tables (\<lambda>source. build_table ip pk sha256 hex_encode source ?g) ?sources
      (fl, set_phase now (Building anchor_height) co) [] = ((fl1, co1), res)"
    by (metis prod.exhaust)
  have "?sources \<noteq> []" using run by (auto simp: publish_def Let_def split: if_splits)
  then have "publish ip pk sha256 hex_encode now sources anchor_height anchor_hash (fl, co) = (case res of
      Inl e \<Rightarrow> ((fl1, co1), Inl e)
    | Inr snapshots \<Rightarrow> ((fl1, set_phase now Serving (co1 \<lparr> co_live := retain_generations ?g (co_live co1)
        [\<lparr> gs_manifest = \<lparr> gm_anchor_height = anchor_height, gm_anchor_block_hash = anchor_hash,
             gm_ironwood_tree_size = published_tree_size ?sources (set_phase now (Building anchor_height) co), gm_generation = ?g,
             gm_tables = map_of (map (\<lambda>(table, s). (table, tn_manifest s)) snapshots) \<rparr>, gs_tables = snapshots \<rparr>] \<rparr>)), Inr ()))"
    using built by (simp add: publish_def Let_def split: sum.splits)
  then have co': "\<exists>s. co_live co' = retain_generations ?g (co_live co1) [s] \<and> gm_anchor_height (gs_manifest s) = anchor_height
      \<and> gm_anchor_block_hash (gs_manifest s) = anchor_hash \<and> generation_of s = ?g" "co_phase co' = Serving"
    using run by (auto split: sum.splits)
  have live: "co_live co1 = co_live co" using build_tables_live [OF built] by simp
  have "\<forall>p \<in> set (co_live co). generation_of p \<noteq> ?g" using above by force
  from retain_generations_take [OF this, of "[_]"] co'
  show ?thesis using above next_generation_tip [of anchor_height] by (auto simp: live RETAINED_GENERATIONS_def)
qed

lemma publish_error_live:
  assumes "publish ip pk sha256 hex_encode now sources anchor_height anchor_hash (fl, co) = ((fl', co'), Inl e)"
  shows "co_live co' = co_live co"
  using assms by (auto simp: publish_def Let_def split: if_splits prod.splits sum.splits dest!: build_tables_live)

lemma live_ok_push:
  assumes "live_ok co" and "co_live co' = take RETAINED_GENERATIONS (s # co_live co)" and "\<forall>p \<in> set (co_live co). generation_of p < generation_of s"
  shows "live_ok co'"
  using assms sorted_wrt_take [of _ "s # co_live co" RETAINED_GENERATIONS] by (simp add: live_ok_def)

section \<open>Properties\<close>

text \<open>
  C36. Publishing replaces the answerable generations atomically and in order. The retained list starts empty
  and stays at most eight long with strictly descending generation numbers. A publication that fails leaves it as it was;
  one that succeeds puts exactly one new generation in front, with the anchor asked for, a number at least the anchor height
  and above every earlier one, drops at most the oldest, and every generation still in the list is found by its number,
  unchanged.
\<close>

theorem publish_retains:
  assumes ok: "length (co_live co) \<le> 8" "sorted_wrt (\<lambda>a b. generation_of b < generation_of a) (co_live co)"
    and top: "\<forall>s \<in> set (co_live co). generation_of s \<noteq> - 1"
    and run: "publish ip pk sha256 hex_encode now sources anchor_height anchor_hash (fl, co) = ((fl', co'), r)"
  shows "length (co_live co') \<le> 8 \<and> sorted_wrt (\<lambda>a b. generation_of b < generation_of a) (co_live co')
    \<and> (case r of
         Inl e \<Rightarrow> co_live co' = co_live co
       | Inr _ \<Rightarrow> \<exists>s. newest co' = Some s \<and> co_live co' = s # take 7 (co_live co) \<and> co_phase co' = Serving
           \<and> gm_anchor_height (gs_manifest s) = anchor_height \<and> gm_anchor_block_hash (gs_manifest s) = anchor_hash
           \<and> anchor_height \<le> generation_of s \<and> (\<forall>p \<in> set (co_live co). generation_of p < generation_of s))
    \<and> (\<forall>p \<in> set (co_live co'). find_generation co' (generation_of p) = Some p)"
proof -
  have live: "live_ok co" using ok by (simp add: live_ok_def RETAINED_GENERATIONS_def)
  have "live_ok co' \<and> (case r of
         Inl e \<Rightarrow> co_live co' = co_live co
       | Inr _ \<Rightarrow> \<exists>s. newest co' = Some s \<and> co_live co' = s # take 7 (co_live co) \<and> co_phase co' = Serving
           \<and> gm_anchor_height (gs_manifest s) = anchor_height \<and> gm_anchor_block_hash (gs_manifest s) = anchor_hash
           \<and> anchor_height \<le> generation_of s \<and> (\<forall>p \<in> set (co_live co). generation_of p < generation_of s))"
  proof (cases r)
    case (Inl e)
    then have "co_live co' = co_live co" using publish_error_live run by blast
    then show ?thesis using live Inl by (simp add: live_ok_def)
  next
    case (Inr u)
    then have "publish ip pk sha256 hex_encode now sources anchor_height anchor_hash (fl, co) = ((fl', co'), Inr ())"
      using run by simp
    from publish_live [OF live top this] obtain s where s: "co_live co' = take RETAINED_GENERATIONS (s # co_live co)" "co_phase co' = Serving"
        "gm_anchor_height (gs_manifest s) = anchor_height" "gm_anchor_block_hash (gs_manifest s) = anchor_hash"
        "anchor_height \<le> generation_of s" "\<forall>p \<in> set (co_live co). generation_of p < generation_of s" by blast
    have "co_live co' = s # take 7 (co_live co)" by (simp add: s(1) RETAINED_GENERATIONS_def)
    then show ?thesis using Inr s live_ok_push [OF live s(1,6)] by (auto simp: newest_def)
  qed
  then show ?thesis
    using find_sorted [of "co_live co'"] by (auto simp: live_ok_def RETAINED_GENERATIONS_def find_generation_def)
qed

text \<open>A coordinator with one group of one embedded worker for the witnesses.\<close>

definition tiny_pack :: "(unit, crs_block list, u64 list) pack_sp" where
  "tiny_pack = \<lparr> packing_keys_len = (\<lambda>_. 0), read_packing_keys = (\<lambda>_ _. Inr ()), build_preprocessed = (\<lambda>_ crs. Inr crs),
     published_c1_rows = (\<lambda>crs q. u64s_le (concat (concat crs))), pack_intermediate = (\<lambda>_ v _ _. Inr v),
     response_bodies = (\<lambda>v _. u64s_le v) \<rparr>"

definition tiny_group :: worker_group where
  "tiny_group = \<lparr> wg_name = ''g'', wg_replicas = [Embedded ''a''] \<rparr>"

definition tiny_co :: "crs_block list coordinator_state" where
  "tiny_co = \<lparr> co_tables = [(Enhance, \<lparr> st_setup = \<lparr> ts_table = Enhance, ts_groups = [tiny_group] \<rparr>, st_rlwe = tiny_rlwe,
     st_hint_cache = [], st_query_slots = 2 \<rparr>)], co_live = [], co_phase = Syncing 0 0, co_non_serving_since = Some 0 \<rparr>"

definition tiny_fleet :: "(scheme_params \<times> u16 list) fleet" where
  "tiny_fleet = \<lparr> fl_process = (\<lambda>_. tiny_worker), fl_up = (\<lambda>_. True) \<rparr>"

definition tiny_source :: table_source where
  "tiny_source = \<lparr> so_table = Enhance, so_layout = ENHANCE_LAYOUT, so_positions = 5, so_shard_ids = [0],
     so_read_shard_rows = (\<lambda>_. Inr (full_shard 7)), so_populated = (\<lambda>_. 5) \<rparr>"

lemma tiny_configured: "with_query_slots tiny_ipir 0 [\<lparr> ts_table = Enhance, ts_groups = [tiny_group] \<rparr>] 2 = Inr tiny_co"
  by (simp add: with_query_slots_def has_duplicate_def tiny_group_def shard_parameters_def tiny_ipir_def tiny_co_def)

lemma tiny_digest: "first_byte (full_shard 7) = [char_of (unat (7 :: u8))]"
  using full_shard_Cons [of 7] by (auto simp: first_byte_def)

lemma tiny_prepare_first:
  "prepare_local tiny_ipir first_byte tiny_worker Enhance 0 0 8192 (first_byte (full_shard 7)) (full_shard 7) = (tiny_loaded, Inr True)"
  unfolding tiny_digest tiny_loaded_def
  by (subst (1 2) tiny_prepare) (simp_all add: tiny_worker_def empty_artifact_dir_def)

lemma tiny_hint: "crs_local tiny_loaded Enhance 0 = Inr (encode_crs_blocks [[[7]]])"
  by (simp add: crs_local_def tiny_loaded_shards tiny_key_def tiny_runtime_def)

lemma tiny_hint_decoded: "decode_crs_blocks (encode_crs_blocks [[[7]]]) 1 1 = Inr [[[7]]]"
  by code_simp

lemma tiny_rows: "dl_used_rows_for ENHANCE_LAYOUT 5 = 1" "dl_logical_rows_for ENHANCE_LAYOUT 1 = 8192"
  by code_simp+

definition tiny_progress :: build_progress where
  "tiny_progress = \<lparr> bp_candidates = [(''g'', [(''a'', Embedded ''a'', [\<lparr> as_shard_id = 0, as_rows_sha256 = first_byte (full_shard 7) \<rparr>])])],
     bp_descriptors = [describe_shard tiny_source 0 (first_byte (full_shard 7)) ''g''], bp_combined = Some [[[7]]] \<rparr>"

lemma tiny_build_shard:
  "\<exists>cache. build_shard tiny_ipir first_byte tiny_source [tiny_group] tiny_rlwe 1 8192 0 ([], tiny_fleet)
     \<lparr> bp_candidates = initial_candidates [tiny_group], bp_descriptors = [], bp_combined = None \<rparr>
   = ((cache, fleet_put ''a'' tiny_loaded tiny_fleet), Inr tiny_progress)"
  by (simp add: build_shard_def tiny_source_def group_index_for_shard_def initial_candidates_def tiny_group_def Let_def tiny_fleet_def
      prepare_replica_shard_def prepare_and_fetch_def tiny_prepare_first local_result_def fleet_put_def tiny_hint
      tiny_hint_decoded [unfolded One_nat_def] accept_replicas_def combine_hint_def tiny_progress_def)

lemma tiny_activate:
  "\<exists>fl. activate_groups g Enhance [''g''] (bp_candidates tiny_progress) (fleet_put ''a'' tiny_loaded tiny_fleet) []
     = (fl, Inr [(''g'', \<lparr> rg_replicas = [Embedded ''a''], rg_next = 0 \<rparr>)])"
  by (simp add: tiny_progress_def fleet_put_def activate_local_def activate_check_def tiny_loaded_shards adjacent_equal_def key_of_def
      tiny_key_def tiny_digest Let_def local_result_def split: sum.splits)

lemma tiny_build_table:
  "\<exists>s live. build_table tiny_ipir tiny_pack id first_byte tiny_source g (tiny_fleet, set_phase 0 phase tiny_co) = (s, Inr live)"
proof -
  obtain cache where shard: "build_shard tiny_ipir first_byte tiny_source [tiny_group] tiny_rlwe 1 8192 0 ([], tiny_fleet)
     \<lparr> bp_candidates = initial_candidates [tiny_group], bp_descriptors = [], bp_combined = None \<rparr>
     = ((cache, fleet_put ''a'' tiny_loaded tiny_fleet), Inr tiny_progress)"
    using tiny_build_shard by blast
  obtain fl where act: "activate_groups g Enhance [''g''] (bp_candidates tiny_progress) (fleet_put ''a'' tiny_loaded tiny_fleet) []
     = (fl, Inr [(''g'', \<lparr> rg_replicas = [Embedded ''a''], rg_next = 0 \<rparr>)])"
    using tiny_activate by blast
  have source: "so_table tiny_source = Enhance" "so_layout tiny_source = ENHANCE_LAYOUT" "so_positions tiny_source = 5"
    "so_shard_ids tiny_source = [0]" by (simp_all add: tiny_source_def)
  have used: "map sd_worker (bp_descriptors tiny_progress) = [''g'']" by (simp add: tiny_progress_def describe_shard_def)
  have "map_of (co_tables tiny_co) Enhance = Some \<lparr> st_setup = \<lparr> ts_table = Enhance, ts_groups = [tiny_group] \<rparr>, st_rlwe = tiny_rlwe,
     st_hint_cache = [], st_query_slots = 2 \<rparr>" by (simp add: tiny_co_def)
  moreover have "global_parameters tiny_ipir 8192 ENHANCE_LAYOUT = Inr (tiny_rlwe, \<lparr> sp_db_rows = 1, sp_db_cols = 1, sp_p = 256, sp_query_bits = 17, sp_q_prime_1 = 256 \<rparr>)"
    by (simp add: global_parameters_def tiny_ipir_def)
  ultimately show ?thesis
    using shard act
    by (simp add: build_table_def co_table_def table_parameters_def source Let_def tiny_rows used finish_table_def tiny_pack_def)
       (simp add: tiny_progress_def)
qed

theorem publish_retains_witness:
  "\<exists>fl co s. publish tiny_ipir tiny_pack id first_byte 0 [tiny_source] 3428200 ''00'' (tiny_fleet, tiny_co) = ((fl, co), Inr ())
     \<and> co_live co = [s] \<and> gm_anchor_height (gs_manifest s) = 3428200 \<and> find_generation co (generation_of s) = Some s"
proof -
  obtain fl co r where run: "publish tiny_ipir tiny_pack id first_byte 0 [tiny_source] 3428200 ''00'' (tiny_fleet, tiny_co) = ((fl, co), r)"
    by (metis prod.exhaust)
  have co: "co_live tiny_co = []" "map_of (co_tables tiny_co) (so_table tiny_source) \<noteq> None" by (simp_all add: tiny_co_def tiny_source_def)
  have "r = Inr ()"
    using run tiny_build_table [of "next_generation (map_option (\<lambda>s. generation_of s) (newest tiny_co)) 3428200" "Building 3428200"] co
    by (auto simp: publish_def Let_def split: sum.splits)
  with publish_retains [OF _ _ _ run] run co(1) show ?thesis by auto
qed

end
