(* ===== verification/Spend_Tables.thy ===== *)
theory Spend_Tables
  imports Spend_Journal Pir_Coordinator
begin

text \<open>
  The spend tables of the server, \<open>BucketTable\<close> and \<open>TransparentSpendTables\<close> in
  \<open>server/enhance-pir-server/src/spend.rs\<close>: the entries of the log hashed into buckets of 88 slots, one bucket per row, in
  a cold table for the old blocks and a warm one for the last 100,000.

  A build that overflows a bucket starts over with twice the buckets. The row buffer panics when it needs more than
  \<open>isize::MAX\<close> bytes, which is the only way the loop ends without a table; running out of memory is not modelled.
\<close>

section \<open>Bucket tables\<close>

record bucket_table =
  bt_table :: database_id
  bt_buckets :: nat
  bt_rows :: bytes

datatype table_error = Table_Err string | Table_Panic
datatype placement = Placed bytes | Overflowed | Placement_Panic

definition ISIZE_MAX :: nat where "ISIZE_MAX = 2 ^ 63 - 1"

text \<open>One pass over the entries; \<open>fill\<close> counts the used slots of each bucket.\<close>

fun place_spends :: "(bytes \<Rightarrow> bytes) \<Rightarrow> nat \<Rightarrow> spend_entry list \<Rightarrow> bytes \<Rightarrow> u8 list \<Rightarrow> placement" where
  "place_spends sha256 buckets [] rows fill = Placed rows"
| "place_spends sha256 buckets (entry # entries) rows fill =
     (case bucket_for_outpoint sha256 (se_outpoint_txid entry) (se_outpoint_index entry) buckets of
        None \<Rightarrow> Placement_Panic
      | Some bucket \<Rightarrow>
        let slot = unat (fill ! bucket) in
        if slot = BUCKET_CAPACITY then Overflowed
        else let start = bucket * SPEND_ROW_BYTES + slot * SPEND_ENTRY_BYTES in
          place_spends sha256 buckets entries (copy_from_slice start (se_to_bytes entry) rows) (fill[bucket := fill ! bucket + 1]))"

lemma place_spends_zero [simp]: "place_spends sha256 0 es rows fill \<noteq> Overflowed"
  by (cases es) (auto simp: bucket_for_outpoint_def)

function build_loop :: "(bytes \<Rightarrow> bytes) \<Rightarrow> database_id \<Rightarrow> spend_entry list \<Rightarrow> nat \<Rightarrow> table_error + bucket_table" where
  "build_loop sha256 table entries buckets =
     (if buckets * SPEND_ROW_BYTES > ISIZE_MAX then Inl Table_Panic
      else case place_spends sha256 buckets entries (replicate (buckets * SPEND_ROW_BYTES) 0) (replicate buckets 0) of
        Placed rows \<Rightarrow> Inr \<lparr> bt_table = table, bt_buckets = buckets, bt_rows = rows \<rparr>
      | Placement_Panic \<Rightarrow> Inl Table_Panic
      | Overflowed \<Rightarrow>
        if buckets * 2 < 2 ^ 64 then build_loop sha256 table entries (buckets * 2)
        else Inl (Table_Err ''transparent spend table size overflow''))"
  by pat_completeness auto
termination
proof (relation "measure (\<lambda>(_, _, _, buckets). 2 ^ 63 - buckets)")
  fix sha256 :: "bytes \<Rightarrow> bytes" and table :: database_id and entries :: "spend_entry list" and buckets :: nat
  assume size: "\<not> ISIZE_MAX < buckets * SPEND_ROW_BYTES"
    and over: "place_spends sha256 buckets entries (replicate (buckets * SPEND_ROW_BYTES) 0) (replicate buckets 0) = Overflowed"
  have "0 < buckets" using over by (cases "buckets = 0") auto
  moreover have "buckets < 2 ^ 63" using size by (simp add: ISIZE_MAX_def SPEND_ROW_BYTES_def SPEND_ENTRY_BYTES_def BUCKET_CAPACITY_def)
  ultimately show "((sha256, table, entries, buckets * 2), (sha256, table, entries, buckets)) \<in> measure (\<lambda>(_, _, _, buckets). 2 ^ 63 - buckets)"
    by (simp add: diff_less_mono2)
qed simp

declare build_loop.simps [simp del]

definition bucket_build :: "(bytes \<Rightarrow> bytes) \<Rightarrow> database_id \<Rightarrow> spend_entry list \<Rightarrow> table_error + bucket_table" where
  "bucket_build sha256 table entries =
     (if table \<noteq> Transparent_Spend_Cold \<and> table \<noteq> Transparent_Spend_Warm then Inl (Table_Err ''not a transparent spend table'')
      else build_loop sha256 table entries (bucket_count (of_nat (length entries))))"

section \<open>The table as a source of shards\<close>

definition bucket_shard_ids :: "bucket_table \<Rightarrow> u64 list" where
  "bucket_shard_ids t = map of_nat [0..<Suc ((bt_buckets t - 1) div dl_shard_rows TRANSPARENT_SPEND_LAYOUT)]"

definition bucket_read_shard_rows :: "bucket_table \<Rightarrow> u64 \<Rightarrow> string + bytes" where
  "bucket_read_shard_rows t shard_id =
     (let start = (unat shard_id * dl_shard_rows TRANSPARENT_SPEND_LAYOUT) mod 2 ^ 64 in
      if start \<ge> bt_buckets t then Inl ''shard is outside the table''
      else let stop = min (start + dl_shard_rows TRANSPARENT_SPEND_LAYOUT) (bt_buckets t);
               source = slice_range (start * SPEND_ROW_BYTES) (stop * SPEND_ROW_BYTES) (bt_rows t)
           in Inr (copy_from_slice 0 source (replicate (dl_shard_bytes TRANSPARENT_SPEND_LAYOUT) 0)))"

definition bucket_populated :: "bucket_table \<Rightarrow> u64 \<Rightarrow> u64" where
  "bucket_populated t shard_id =
     (let start = (unat shard_id * dl_shard_rows TRANSPARENT_SPEND_LAYOUT) mod 2 ^ 64 in
      of_nat (min (bt_buckets t - start) (dl_shard_rows TRANSPARENT_SPEND_LAYOUT)))"

definition bucket_source :: "bucket_table \<Rightarrow> table_source" where
  "bucket_source t = \<lparr> so_table = bt_table t, so_layout = TRANSPARENT_SPEND_LAYOUT, so_positions = of_nat (bt_buckets t),
     so_shard_ids = bucket_shard_ids t, so_read_shard_rows = bucket_read_shard_rows t, so_populated = bucket_populated t \<rparr>"

section \<open>Cold and warm tables\<close>

record spend_tables =
  tt_cold_end_height :: u64
  tt_cold :: bucket_table
  tt_warm :: bucket_table

definition cold_count :: "u64 \<Rightarrow> spend_block list \<Rightarrow> u64" where
  "cold_count cold_end_height blocks =
     (let cold_blocks = blocks_through cold_end_height blocks in
      if cold_blocks < length blocks then sb_first_position (blocks ! cold_blocks) else indexed_entries blocks)"

text \<open>An I/O error of the log is reported as text; its panic and those of the tables stay panics.\<close>

definition of_spend_error :: "spend_error \<Rightarrow> table_error" where
  "of_spend_error e = (case e of Spend_Panic \<Rightarrow> Table_Panic | _ \<Rightarrow> Table_Err ''transparent-spend log'')"

definition tables_build :: "(bytes \<Rightarrow> bytes) \<Rightarrow> spend_journal \<Rightarrow> u64 \<Rightarrow> table_error + spend_tables" where
  "tables_build sha256 log tip_height =
     (let cold_end_height = saturating_sub tip_height WARM_BLOCKS;
          cold_count = cold_count cold_end_height (snd log);
          total_count = indexed_entries (snd log)
      in bindR (map_err of_spend_error (read_entries log 0 (unat cold_count))) (\<lambda>cold.
         bindR (map_err of_spend_error (read_entries log cold_count (unat (total_count - cold_count)))) (\<lambda>warm.
         bindR (bucket_build sha256 Transparent_Spend_Cold cold) (\<lambda>cold_table.
         bindR (bucket_build sha256 Transparent_Spend_Warm warm) (\<lambda>warm_table.
         Inr \<lparr> tt_cold_end_height = cold_end_height, tt_cold = cold_table, tt_warm = warm_table \<rparr>)))))"

section \<open>What a pass over the entries does\<close>

definition in_bucket :: "(bytes \<Rightarrow> bytes) \<Rightarrow> nat \<Rightarrow> nat \<Rightarrow> spend_entry list \<Rightarrow> spend_entry list" where
  "in_bucket sha256 n b es = filter (\<lambda>e. bucket_for_outpoint sha256 (se_outpoint_txid e) (se_outpoint_index e) n = Some b) es"

definition fits :: "(bytes \<Rightarrow> bytes) \<Rightarrow> spend_entry list \<Rightarrow> nat \<Rightarrow> bool" where
  "fits sha256 es n \<longleftrightarrow> list_all (\<lambda>b. length (in_bucket sha256 n b es) \<le> BUCKET_CAPACITY) [0..<n]"

definition table_rows :: "(bytes \<Rightarrow> bytes) \<Rightarrow> nat \<Rightarrow> spend_entry list \<Rightarrow> bytes" where
  "table_rows sha256 n es = concat (map (\<lambda>b. bucket_row (in_bucket sha256 n b es)) [0..<n])"

lemma in_bucket_append [simp]: "in_bucket sha256 n b (es @ es') = in_bucket sha256 n b es @ in_bucket sha256 n b es'"
  by (simp add: in_bucket_def)

lemma fits_append: "fits sha256 (es @ es') n \<Longrightarrow> fits sha256 es n"
  by (fastforce simp: fits_def list_all_iff)

lemma copy_into: "i + length src \<le> length bs \<Longrightarrow> copy_from_slice (length as + i) src (as @ bs @ cs) = as @ copy_from_slice i src bs @ cs"
  by (simp add: copy_from_slice_def)

lemma bucket_row_snoc:
  assumes ok: "\<forall>e \<in> set (es @ [e]). se_ok e" and cap: "length es < BUCKET_CAPACITY"
  shows "bucket_row (es @ [e]) = copy_from_slice (length es * SPEND_ENTRY_BYTES) (se_to_bytes e) (bucket_row es)"
proof -
  let ?B = SPEND_ENTRY_BYTES
  have len: "length (concat (map se_to_bytes es)) = length es * ?B" "length (se_to_bytes e) = ?B"
    using length_concat_const [of "map se_to_bytes es" ?B] ok by (simp_all add: length_se_to_bytes del: length_concat)
  have "Suc (length es) * ?B \<le> BUCKET_CAPACITY * ?B" using cap by (intro mult_le_mono1) simp
  then have "?B + length es * ?B \<le> SPEND_ROW_BYTES" by (simp add: SPEND_ROW_BYTES_def mult.commute [of ?B])
  then show ?thesis
    using len by (simp add: bucket_row_def copy_from_slice_def drop_append del: length_concat)
qed

lemma length_table_rows:
  assumes "\<forall>e \<in> set es. se_ok e" and "\<forall>b \<in> set bs. length (in_bucket sha256 n b es) \<le> BUCKET_CAPACITY"
  shows "length (concat (map (\<lambda>b. bucket_row (in_bucket sha256 n b es)) bs)) = length bs * SPEND_ROW_BYTES"
proof -
  have "\<forall>r \<in> set (map (\<lambda>b. bucket_row (in_bucket sha256 n b es)) bs). length r = SPEND_ROW_BYTES"
    using assms by (auto simp: in_bucket_def intro: bucket_row_chunks(1))
  from length_concat_const [OF this] show ?thesis by simp
qed

lemma table_rows_snoc:
  assumes ok: "\<forall>x \<in> set (es @ [e]). se_ok x" and fit: "fits sha256 es n"
    and b: "bucket_for_outpoint sha256 (se_outpoint_txid e) (se_outpoint_index e) n = Some b"
    and cap: "length (in_bucket sha256 n b es) < BUCKET_CAPACITY"
  shows "table_rows sha256 n (es @ [e]) =
    copy_from_slice (b * SPEND_ROW_BYTES + length (in_bucket sha256 n b es) * SPEND_ENTRY_BYTES) (se_to_bytes e) (table_rows sha256 n es)"
proof -
  let ?row = "\<lambda>es b. bucket_row (in_bucket sha256 n b es)"
  have bn: "b < n" using bucket_for_outpoint_Some [OF b] .
  then have "[0..<n] = [0..<b] @ b # [Suc b..<n]" using upt_add_eq_append [of 0 b "n - b"] by (simp add: upt_conv_Cons)
  then have split: "table_rows sha256 n xs = concat (map (?row xs) [0..<b]) @ ?row xs b @ concat (map (?row xs) [Suc b..<n])" for xs
    by (simp add: table_rows_def)
  have other: "in_bucket sha256 n c (es @ [e]) = in_bucket sha256 n c es" if "c \<noteq> b" for c using that b by (simp add: in_bucket_def)
  have same: "in_bucket sha256 n b (es @ [e]) = in_bucket sha256 n b es @ [e]" using b by (simp add: in_bucket_def)
  have oks: "\<forall>x \<in> set (in_bucket sha256 n b es @ [e]). se_ok x" using ok by (auto simp: in_bucket_def)
  have "length (concat (map (?row es) [0..<b])) = b * SPEND_ROW_BYTES"
    using length_table_rows [of es "[0..<b]" sha256 n] ok fit bn by (simp add: fits_def list_all_iff)
  moreover have "length (?row es b) = SPEND_ROW_BYTES" using oks cap by (intro bucket_row_chunks(1)) auto
  moreover have "length (in_bucket sha256 n b es) * SPEND_ENTRY_BYTES + length (se_to_bytes e) \<le> SPEND_ROW_BYTES"
  proof -
    have "Suc (length (in_bucket sha256 n b es)) * SPEND_ENTRY_BYTES \<le> BUCKET_CAPACITY * SPEND_ENTRY_BYTES"
      using cap by (intro mult_le_mono1) simp
    then show ?thesis using ok by (simp add: length_se_to_bytes SPEND_ROW_BYTES_def mult.commute [of SPEND_ENTRY_BYTES])
  qed
  ultimately have "copy_from_slice (b * SPEND_ROW_BYTES + length (in_bucket sha256 n b es) * SPEND_ENTRY_BYTES) (se_to_bytes e) (table_rows sha256 n es)
      = concat (map (?row es) [0..<b]) @ bucket_row (in_bucket sha256 n b es @ [e]) @ concat (map (?row es) [Suc b..<n])"
    using copy_into [of "length (in_bucket sha256 n b es) * SPEND_ENTRY_BYTES" "se_to_bytes e" "?row es b" "concat (map (?row es) [0..<b])"]
    by (simp only: split bucket_row_snoc [OF oks cap])
  moreover have "concat (map (?row (es @ [e])) [0..<b]) = concat (map (?row es) [0..<b])"
    "concat (map (?row (es @ [e])) [Suc b..<n]) = concat (map (?row es) [Suc b..<n])"
    by (intro arg_cong [where f = concat] map_cong refl arg_cong [where f = bucket_row] other; simp)+
  ultimately show ?thesis by (simp only: split same)
qed

definition fill_counts :: "(bytes \<Rightarrow> bytes) \<Rightarrow> nat \<Rightarrow> spend_entry list \<Rightarrow> u8 list" where
  "fill_counts sha256 n es = map (\<lambda>b. of_nat (length (in_bucket sha256 n b es))) [0..<n]"

lemma fill_counts_snoc:
  assumes b: "bucket_for_outpoint sha256 (se_outpoint_txid e) (se_outpoint_index e) n = Some b"
  shows "fill_counts sha256 n (es @ [e]) = (fill_counts sha256 n es)[b := fill_counts sha256 n es ! b + 1]"
proof (rule nth_equalityI)
  have bn: "b < n" using bucket_for_outpoint_Some [OF b] .
  fix i assume "i < length (fill_counts sha256 n (es @ [e]))"
  then show "fill_counts sha256 n (es @ [e]) ! i = (fill_counts sha256 n es)[b := fill_counts sha256 n es ! b + 1] ! i"
    using b bn by (cases "i = b") (auto simp: fill_counts_def in_bucket_def nth_list_update)
qed (simp add: fill_counts_def)

lemma place_spends_exact:
  assumes "n = 2 ^ k" "k \<le> 64" and "\<forall>e \<in> set (placed @ es). se_ok e" and "fits sha256 placed n"
  shows "place_spends sha256 n es (table_rows sha256 n placed) (fill_counts sha256 n placed) =
    (if fits sha256 (placed @ es) n then Placed (table_rows sha256 n (placed @ es)) else Overflowed)"
  using assms
proof (induction es arbitrary: placed)
  case Nil
  then show ?case by simp
next
  case (Cons e es)
  obtain b where b: "bucket_for_outpoint sha256 (se_outpoint_txid e) (se_outpoint_index e) n = Some b"
    using bucket_for_outpoint_total [OF Cons.prems(2)] Cons.prems(1) by blast
  have bn: "b < n" using bucket_for_outpoint_Some [OF b] .
  let ?c = "length (in_bucket sha256 n b placed)"
  have "?c \<le> BUCKET_CAPACITY" using Cons.prems(4) bn by (simp add: fits_def list_all_iff)
  then have slot: "unat (fill_counts sha256 n placed ! b) = ?c"
    using bn by (simp add: fill_counts_def BUCKET_CAPACITY_def unat_of_nat_small)
  show ?case
  proof (cases "?c = BUCKET_CAPACITY")
    case True
    then have "\<not> length (in_bucket sha256 n b (placed @ e # es)) \<le> BUCKET_CAPACITY" using b by (simp add: in_bucket_def)
    then have "\<not> fits sha256 (placed @ e # es) n" using bn by (auto simp: fits_def list_all_iff)
    then show ?thesis using True slot b by simp
  next
    case False
    then have cap: "?c < BUCKET_CAPACITY" using \<open>?c \<le> BUCKET_CAPACITY\<close> by simp
    have "length (in_bucket sha256 n c (placed @ [e])) \<le> BUCKET_CAPACITY" if "c < n" for c
      using that cap b Cons.prems(4) by (cases "c = b") (auto simp: in_bucket_def fits_def list_all_iff)
    then have fit: "fits sha256 (placed @ [e]) n" by (simp add: fits_def list_all_iff)
    have ok: "\<forall>x \<in> set (placed @ [e]). se_ok x" "\<forall>x \<in> set ((placed @ [e]) @ es). se_ok x" using Cons.prems(3) by auto
    show ?thesis
      using Cons.IH [OF Cons.prems(1,2) ok(2) fit] False slot b
      by (simp add: table_rows_snoc [OF ok(1) Cons.prems(4) b cap] fill_counts_snoc [OF b] Let_def)
  qed
qed

section \<open>What a build returns\<close>

lemma table_rows_Nil: "table_rows sha256 n [] = replicate (n * SPEND_ROW_BYTES) 0"
proof -
  have "concat (map (\<lambda>_. replicate m x) xs) = replicate (length xs * m) x" for m :: nat and x :: u8 and xs :: "nat list"
    by (induction xs) (auto simp: replicate_add)
  then show ?thesis by (simp add: table_rows_def in_bucket_def bucket_row_def)
qed

lemma fill_counts_Nil: "fill_counts sha256 n [] = replicate n 0"
  by (simp add: fill_counts_def in_bucket_def map_replicate_const)

lemma first_pass:
  assumes "n = 2 ^ k" "k \<le> 64" and "\<forall>e \<in> set es. se_ok e"
  shows "place_spends sha256 n es (replicate (n * SPEND_ROW_BYTES) 0) (replicate n 0) =
    (if fits sha256 es n then Placed (table_rows sha256 n es) else Overflowed)"
  using place_spends_exact [OF assms(1,2), of "[]" es sha256] assms(3)
  by (simp add: table_rows_Nil fill_counts_Nil fits_def in_bucket_def list_all_iff)

lemma small_tables: "n * SPEND_ROW_BYTES \<le> ISIZE_MAX \<Longrightarrow> n < 2 ^ 63"
  by (simp add: ISIZE_MAX_def SPEND_ROW_BYTES_def SPEND_ENTRY_BYTES_def BUCKET_CAPACITY_def)

lemma small_power: "(2 :: nat) ^ k * SPEND_ROW_BYTES \<le> ISIZE_MAX \<Longrightarrow> k \<le> 64"
proof -
  assume "(2 :: nat) ^ k * SPEND_ROW_BYTES \<le> ISIZE_MAX"
  then have "(2 :: nat) ^ k < 2 ^ 63" by (rule small_tables)
  then show "k \<le> 64" using power_less_imp_less_exp [of "2 :: nat" k 63] by simp
qed

text \<open>
  The loop returns the first size of the doubling sequence at which no bucket overflows, and panics when the sequence
  leaves the address space first.
\<close>

lemma build_loop_first:
  assumes ok: "\<forall>e \<in> set es. se_ok e"
  shows "fits sha256 es (2 ^ (k + j)) \<Longrightarrow> \<forall>i < j. \<not> fits sha256 es (2 ^ (k + i)) \<Longrightarrow> 2 ^ (k + j) * SPEND_ROW_BYTES \<le> ISIZE_MAX \<Longrightarrow>
    build_loop sha256 table es (2 ^ k) = Inr \<lparr> bt_table = table, bt_buckets = 2 ^ (k + j), bt_rows = table_rows sha256 (2 ^ (k + j)) es \<rparr>"
proof (induction j arbitrary: k)
  case 0
  then show ?case
    using first_pass [OF refl small_power ok, of k sha256] by (subst build_loop.simps) simp
next
  case (Suc j)
  have "(2 :: nat) ^ k * SPEND_ROW_BYTES \<le> 2 ^ (k + Suc j) * SPEND_ROW_BYTES"
    by (intro mult_le_mono1 power_increasing) simp_all
  then have size: "2 ^ k * SPEND_ROW_BYTES \<le> ISIZE_MAX" using Suc.prems(3) by (rule order_trans)
  have "\<not> fits sha256 es (2 ^ k)" using Suc.prems(2) by (metis add_0_right zero_less_Suc)
  then have "build_loop sha256 table es (2 ^ k) = build_loop sha256 table es (2 ^ Suc k)"
    using first_pass [OF refl small_power [OF size] ok, of sha256] size small_tables [OF size]
    by (subst build_loop.simps) (simp add: mult.commute)
  moreover have "\<forall>i < j. \<not> fits sha256 es (2 ^ (Suc k + i))" using Suc.prems(2) by auto
  ultimately show ?case using Suc.IH [of "Suc k"] Suc.prems(1,3) by simp
qed

lemma build_loop_panics:
  assumes ok: "\<forall>e \<in> set es. se_ok e" and none: "\<forall>j. 2 ^ (k + j) * SPEND_ROW_BYTES \<le> ISIZE_MAX \<longrightarrow> \<not> fits sha256 es (2 ^ (k + j))"
  shows "build_loop sha256 table es (2 ^ k) = Inl Table_Panic"
  using none
proof (induction "64 - k" arbitrary: k rule: less_induct)
  case less
  show ?case
  proof (cases "2 ^ k * SPEND_ROW_BYTES \<le> ISIZE_MAX")
    case True
    have "k < 64" using power_less_imp_less_exp [OF _ small_tables [OF True]] by simp
    have "\<not> fits sha256 es (2 ^ k)" using less.prems True by (metis add_0_right)
    then have "build_loop sha256 table es (2 ^ k) = build_loop sha256 table es (2 ^ Suc k)"
      using first_pass [OF refl small_power [OF True] ok, of sha256] True small_tables [OF True]
      by (subst build_loop.simps) (simp add: mult.commute)
    moreover have "\<forall>j. 2 ^ (Suc k + j) * SPEND_ROW_BYTES \<le> ISIZE_MAX \<longrightarrow> \<not> fits sha256 es (2 ^ (Suc k + j))"
      using less.prems by (metis add_Suc add_Suc_right)
    ultimately show ?thesis using less.hyps [of "Suc k"] \<open>k < 64\<close> by simp
  next
    case False
    then show ?thesis by (subst build_loop.simps) simp
  qed
qed

lemma bucket_build_first:
  assumes ok: "\<forall>e \<in> set es. se_ok e" and table: "table = Transparent_Spend_Cold \<or> table = Transparent_Spend_Warm"
    and k: "bucket_count (of_nat (length es)) = 2 ^ k"
    and fit: "fits sha256 es (2 ^ (k + j))" "2 ^ (k + j) * SPEND_ROW_BYTES \<le> ISIZE_MAX"
  shows "\<exists>i \<le> j. bucket_build sha256 table es
     = Inr \<lparr> bt_table = table, bt_buckets = 2 ^ (k + i), bt_rows = table_rows sha256 (2 ^ (k + i)) es \<rparr> \<and> fits sha256 es (2 ^ (k + i))"
proof -
  let ?i = "LEAST i. fits sha256 es (2 ^ (k + i))"
  have i: "fits sha256 es (2 ^ (k + ?i))" "?i \<le> j" "\<forall>l < ?i. \<not> fits sha256 es (2 ^ (k + l))"
    using LeastI [of "\<lambda>i. fits sha256 es (2 ^ (k + i))" j] Least_le [of "\<lambda>i. fits sha256 es (2 ^ (k + i))" j] fit(1)
      not_less_Least by auto
  have "(2 :: nat) ^ (k + ?i) * SPEND_ROW_BYTES \<le> 2 ^ (k + j) * SPEND_ROW_BYTES"
    using i(2) by (intro mult_le_mono1 power_increasing) simp_all
  then have "2 ^ (k + ?i) * SPEND_ROW_BYTES \<le> ISIZE_MAX" using fit(2) by linarith
  then show ?thesis using build_loop_first [OF ok i(1,3)] i table k by (auto simp: bucket_build_def)
qed

text \<open>Row \<open>r\<close> of a table as it lies in the shard the coordinator reads.\<close>

definition source_row :: "table_source \<Rightarrow> nat \<Rightarrow> string + bytes" where
  "source_row source r =
     (let R = dl_shard_rows (so_layout source); B = dl_row_bytes (so_layout source) in
      bindR (so_read_shard_rows source (of_nat (r div R))) (\<lambda>rows. Inr (take B (drop (r mod R * B) rows))))"

definition built_from :: "(bytes \<Rightarrow> bytes) \<Rightarrow> spend_entry list \<Rightarrow> bucket_table \<Rightarrow> bool" where
  "built_from sha256 es t \<longleftrightarrow> (\<exists>k. 13 \<le> k \<and> k \<le> 63 \<and> bt_buckets t = 2 ^ k) \<and> (\<forall>e \<in> set es. se_ok e)
     \<and> fits sha256 es (bt_buckets t) \<and> bt_rows t = table_rows sha256 (bt_buckets t) es"

lemma table_rows_slice:
  assumes ok: "\<forall>e \<in> set es. se_ok e" "fits sha256 es n" and r: "r < n"
  shows "take SPEND_ROW_BYTES (drop (r * SPEND_ROW_BYTES) (table_rows sha256 n es)) = bucket_row (in_bucket sha256 n r es)"
    and "length (table_rows sha256 n es) = n * SPEND_ROW_BYTES"
proof -
  let ?rows = "map (\<lambda>b. bucket_row (in_bucket sha256 n b es)) [0..<n]"
  have len: "\<forall>x \<in> set ?rows. length x = SPEND_ROW_BYTES"
    using ok by (auto simp: in_bucket_def fits_def list_all_iff intro!: bucket_row_chunks(1))
  then have "chunks_exact n SPEND_ROW_BYTES (table_rows sha256 n es) = ?rows"
    using chunks_exact_concat [OF len] by (simp add: table_rows_def)
  then show "take SPEND_ROW_BYTES (drop (r * SPEND_ROW_BYTES) (table_rows sha256 n es)) = bucket_row (in_bucket sha256 n r es)"
    using nth_chunks_exact [OF r, of SPEND_ROW_BYTES "table_rows sha256 n es"] r by simp
  show "length (table_rows sha256 n es) = n * SPEND_ROW_BYTES"
    using length_concat_const [OF len] by (simp add: table_rows_def)
qed

lemma bucket_source_row:
  assumes built: "built_from sha256 es t" and r: "r < bt_buckets t"
  shows "source_row (bucket_source t) r = Inr (bucket_row (in_bucket sha256 (bt_buckets t) r es))"
proof -
  let ?R = SPEND_SHARD_ROWS and ?B = SPEND_ROW_BYTES and ?n = "bt_buckets t"
  obtain k where k: "13 \<le> k" "k \<le> 63" "?n = 2 ^ k" using built by (auto simp: built_from_def)
  have ok: "\<forall>e \<in> set es. se_ok e" "fits sha256 es ?n" and rows: "bt_rows t = table_rows sha256 ?n es"
    using built by (auto simp: built_from_def)
  have R: "?R = 2 ^ 13" by (simp add: SPEND_SHARD_ROWS_def)
  have "(2 :: nat) ^ k = 2 ^ 13 * 2 ^ (k - 13)" using k(1) power_add [of "2 :: nat" 13 "k - 13"] by simp
  then obtain m where m: "?n = m * ?R" by (metis R k(3) mult.commute)
  have n64: "?n < 2 ^ 64" using k power_strict_increasing [of k 64 "2 :: nat"] by simp
  let ?s = "r div ?R"
  have s: "?s < m" using r m R by (simp add: less_mult_imp_div_less)
  have "Suc ?s * ?R \<le> m * ?R" using s by (intro mult_le_mono1) simp
  then have stop: "?s * ?R + ?R \<le> ?n" using m by simp
  have id: "unat (of_nat ?s :: u64) = ?s" using n64 r by (intro unat_of_nat_u64) (meson div_le_dividend le_less_trans less_trans)
  have start: "(?s * ?R) mod 2 ^ 64 = ?s * ?R" "\<not> ?s * ?R \<ge> ?n" using stop n64 R by simp_all
  have lay: "dl_shard_rows TRANSPARENT_SPEND_LAYOUT = ?R" "dl_row_bytes TRANSPARENT_SPEND_LAYOUT = ?B"
      "dl_shard_bytes TRANSPARENT_SPEND_LAYOUT = ?R * ?B"
    by (simp_all add: TRANSPARENT_SPEND_LAYOUT_def dl_row_bytes_def dl_shard_bytes_def)
  let ?src = "slice_range (?s * ?R * ?B) ((?s * ?R + ?R) * ?B) (bt_rows t)"
  have "(?s * ?R + ?R) * ?B \<le> ?n * ?B" using stop by (rule mult_le_mono1)
  then have len: "length ?src = ?R * ?B"
    using table_rows_slice(2) [OF ok r] by (simp add: slice_range_def rows add_mult_distrib)
  have "source_row (bucket_source t) r = Inr (take ?B (drop (r mod ?R * ?B) ?src))"
    using start stop len
    by (simp add: source_row_def bucket_source_def lay bucket_read_shard_rows_def Let_def id min_def copy_from_slice_def)
  moreover have "take ?B (drop (r mod ?R * ?B) ?src) = take ?B (drop (r * ?B) (bt_rows t))"
  proof -
    have "r mod ?R < ?R" using R by simp
    then have "Suc (r mod ?R) * ?B \<le> ?R * ?B" by (intro mult_le_mono1) simp
    then have "min ?B (?R * ?B - r mod ?R * ?B) = ?B" by simp
    moreover have "?s * ?R * ?B + r mod ?R * ?B = r * ?B" by (simp flip: add_mult_distrib)
    ultimately show ?thesis by (simp add: slice_range_def drop_take add_mult_distrib add.commute [of "r mod ?R * ?B"])
  qed
  ultimately show ?thesis using table_rows_slice(1) [OF ok r] by (simp add: rows)
qed

text \<open>Scanning the row of an outpoint's bucket finds its spend.\<close>

lemma bucket_lookup:
  assumes built: "built_from sha256 es t" and dist: "distinct (map outpoint es)"
  shows "\<exists>b row. bucket_for_outpoint sha256 txid index (bt_buckets t) = Some b \<and> source_row (bucket_source t) b = Inr row
    \<and> length row = SPEND_ROW_BYTES \<and> scan_bucket row txid index = Inr (find (\<lambda>e. outpoint e = (txid, index)) es)"
proof -
  obtain k where k: "k \<le> 64" "bt_buckets t = 2 ^ k" using built by (auto simp: built_from_def)
  then obtain b where b: "bucket_for_outpoint sha256 txid index (bt_buckets t) = Some b"
    using bucket_for_outpoint_total by metis
  have bn: "b < bt_buckets t" using bucket_for_outpoint_Some [OF b] .
  let ?es = "in_bucket sha256 (bt_buckets t) b es"
  have ok: "\<forall>e \<in> set ?es. se_ok e" "length ?es \<le> BUCKET_CAPACITY"
    using built bn by (auto simp: built_from_def in_bucket_def fits_def list_all_iff)
  have "find (\<lambda>e. outpoint e = (txid, index)) ?es = find (\<lambda>e. outpoint e = (txid, index)) es"
    unfolding in_bucket_def using b by (induction es) auto
  moreover have "distinct (map outpoint ?es)" unfolding in_bucket_def using dist by (rule distinct_map_filter)
  ultimately have "scan_bucket (bucket_row ?es) txid index = Inr (find (\<lambda>e. outpoint e = (txid, index)) es)"
    using scan_bucket_row [OF ok, of "[]" txid index] find_spend_distinct [of ?es txid index] by simp
  then show ?thesis using b bucket_source_row [OF built bn] bucket_row_chunks(1) [OF ok] by blast
qed

section \<open>The two tables\<close>

abbreviation old_blocks :: "u64 \<Rightarrow> spend_view \<Rightarrow> spend_view" where
  "old_blocks height vs \<equiv> takeWhile (\<lambda>v. fst v \<le> height) vs"

abbreviation new_blocks :: "u64 \<Rightarrow> spend_view \<Rightarrow> spend_view" where
  "new_blocks height vs \<equiv> dropWhile (\<lambda>v. fst v \<le> height) vs"

lemma nth_view_blocks:
  "i < length vs \<Longrightarrow> sb_first_position (view_blocks pos vs ! i) = of_nat (pos + length (view_entries (take i vs)))"
proof (induction pos vs arbitrary: i rule: view_blocks.induct)
  case (2 pos height hash es vs)
  then show ?case by (cases i) (auto simp: add.assoc)
qed simp

lemma cold_count_view: "cold_count height (view_blocks 0 vs) = of_nat (length (view_entries (old_blocks height vs)))"
proof -
  let ?n = "length (old_blocks height vs)"
  have "old_blocks height vs = take ?n vs" by (rule takeWhile_eq_take)
  then show ?thesis
    using nth_view_blocks [of ?n vs 0] length_takeWhile_le [of "\<lambda>v. fst v \<le> height" vs]
    by (cases "?n < length vs") (auto simp: cold_count_def blocks_through_view Let_def takeWhile_eq_all_conv [THEN iffD2])
qed

lemma tables_build_view:
  assumes ok: "spend_journal_ok he hx log vs" and height: "height = saturating_sub tip WARM_BLOCKS"
  shows "tables_build sha256 log tip =
    bindR (bucket_build sha256 Transparent_Spend_Cold (view_entries (old_blocks height vs))) (\<lambda>cold.
    bindR (bucket_build sha256 Transparent_Spend_Warm (view_entries (new_blocks height vs))) (\<lambda>warm.
    Inr \<lparr> tt_cold_end_height = height, tt_cold = cold, tt_warm = warm \<rparr>))"
proof -
  let ?c = "length (view_entries (old_blocks height vs))" and ?w = "length (view_entries (new_blocks height vs))"
  have all: "view_entries vs = view_entries (old_blocks height vs) @ view_entries (new_blocks height vs)"
    by (simp flip: view_entries_simps(3))
  have blocks: "snd log = view_blocks 0 vs" and v: "view_ok he hx vs" using ok by (auto simp: spend_journal_ok_def split: prod.splits)
  have small: "?c + ?w < 2 ^ 64" using v all by (simp add: view_ok_def SPEND_ENTRY_BYTES_def)
  have w: "(of_nat (length (view_entries vs)) - of_nat ?c :: u64) = of_nat ?w" by (simp add: all)
  have "read_entries log 0 ?c = Inr (view_entries (old_blocks height vs))"
    using read_entries_view [OF ok, of 0 ?c] by (simp add: all)
  moreover have "read_entries log (of_nat ?c) ?w = Inr (view_entries (new_blocks height vs))"
    using read_entries_view [OF ok, of ?c ?w] by (simp add: all)
  moreover have "unat (of_nat ?c :: u64) = ?c" "unat (of_nat ?w :: u64) = ?w" using small by (simp_all add: unat_of_nat_u64)
  ultimately show ?thesis
    by (simp add: tables_build_def Let_def blocks height [symmetric] cold_count_view w)
qed

end
