(* ===== verification/Pir_Answer.thy ===== *)
theory Pir_Answer
  imports Pir_Coordinator
begin

text \<open>
  Answering a query over all worker groups: what splitting a query, asking the replicas of each group and adding
  their answers computes, for embedded and remote workers, with replicas that are down.
\<close>

section \<open>Splitting a query over the groups\<close>

definition shard_query_of :: "nat \<Rightarrow> u64 list \<Rightarrow> shard_descriptor \<Rightarrow> shard_query" where
  "shard_query_of R query d =
     \<lparr> sq_shard_id = sd_shard_id d, sq_coefficients = take R (drop (unat (sd_global_row_start d)) query) \<rparr>"

definition entry_of :: "(string, shard_query list) btree \<Rightarrow> string \<Rightarrow> shard_query list" where
  "entry_of m g = (case map_of m g of None \<Rightarrow> [] | Some qs \<Rightarrow> qs)"

lemma split_query_ok:
  assumes "\<forall>d \<in> set ds. unat (sd_global_row_start d) + R \<le> length query" and "bt_ok m"
  shows "\<exists>m'. split_query R query ds m = Inr m' \<and> bt_ok m'
     \<and> (\<forall>g. entry_of m' g = entry_of m g @ map (shard_query_of R query) (filter (\<lambda>d. sd_worker d = g) ds))
     \<and> fst ` set m' = fst ` set m \<union> sd_worker ` set ds"
  using assms
proof (induction ds arbitrary: m)
  case (Cons d ds)
  let ?m = "bt_insert (sd_worker d) (entry_of m (sd_worker d) @ [shard_query_of R query d]) m"
  have ok: "bt_ok ?m" using Cons.prems(2) by simp
  have "entry_of ?m g = (if g = sd_worker d then entry_of m g @ [shard_query_of R query d] else entry_of m g)" for g
    using Cons.prems(2) by (simp add: entry_of_def)
  moreover have "fst ` set ?m = insert (sd_worker d) (fst ` set m)" using Cons.prems(2) by (force simp: set_bt_insert)
  moreover have "split_query R query (d # ds) m = split_query R query ds ?m"
    using Cons.prems(1) by (simp add: Let_def entry_of_def shard_query_of_def)
  ultimately show ?case using Cons.IH [OF _ ok] Cons.prems(1) by auto
qed simp

lemma start_groups_ok:
  assumes "distinct (map fst gs)"
  shows "snd (start_groups gs m) = (
     concat (map (\<lambda>(name, g). case map_of m name of None \<Rightarrow> [] | Some qs \<Rightarrow> [(fst (replicas_for_request g), qs)]) gs),
     filter (\<lambda>e. fst e \<notin> fst ` set gs) m)"
  using assms
proof (induction gs arbitrary: m)
  case (Cons e gs)
  obtain name g where e: "e = (name, g)" by (cases e)
  have name: "name \<notin> fst ` set gs" and dist: "distinct (map fst gs)" using Cons.prems by (auto simp: e)
  show ?case
  proof (cases "map_of m name")
    case None
    then have "\<forall>x \<in> set m. fst x \<noteq> name" by (auto simp: map_of_eq_None_iff)
    then have "filter (\<lambda>e. fst e \<notin> fst ` set gs) m = filter (\<lambda>e'. fst e' \<notin> fst ` set (e # gs)) m"
      by (auto intro!: filter_cong simp: e)
    then show ?thesis using Cons.IH [OF dist, of m] None by (auto simp: e split: prod.splits)
  next
    case (Some qs)
    have tasks: "map (\<lambda>(n, g). case map_of (bt_remove name m) n of None \<Rightarrow> [] | Some qs \<Rightarrow> [(fst (replicas_for_request g), qs)]) gs
        = map (\<lambda>(n, g). case map_of m n of None \<Rightarrow> [] | Some qs \<Rightarrow> [(fst (replicas_for_request g), qs)]) gs"
      using name by (intro map_cong refl) (force simp: map_of_bt_remove)
    have left: "filter (\<lambda>e. fst e \<notin> fst ` set gs) (bt_remove name m) = filter (\<lambda>e'. fst e' \<notin> fst ` set (e # gs)) m"
      by (auto intro!: filter_cong simp: e bt_remove_def)
    show ?thesis
      using Cons.IH [OF dist, of "bt_remove name m", unfolded tasks left] Some by (auto simp: e split: prod.splits)
  qed
qed simp

lemma sum_list_partition:
  fixes f :: "'a \<Rightarrow> nat"
  assumes "distinct names" and "\<forall>d \<in> set ds. w d \<in> set names"
  shows "(\<Sum>n\<leftarrow>names. \<Sum>d\<leftarrow>filter (\<lambda>d. w d = n) ds. f d) = (\<Sum>d\<leftarrow>ds. f d)"
  using assms(2)
proof (induction ds)
  case (Cons d ds)
  have "(\<Sum>n\<leftarrow>names. \<Sum>d\<leftarrow>filter (\<lambda>d. w d = n) (d # ds). f d)
      = (\<Sum>n\<leftarrow>names. (if n = w d then f d else 0) + (\<Sum>d\<leftarrow>filter (\<lambda>d. w d = n) ds. f d))"
    by (intro arg_cong [where f = sum_list] map_cong) auto
  also have "\<dots> = (\<Sum>n\<leftarrow>names. if n = w d then f d else 0) + (\<Sum>n\<leftarrow>names. \<Sum>d\<leftarrow>filter (\<lambda>d. w d = n) ds. f d)"
    by (simp add: sum_list_addf)
  also have "(\<Sum>n\<leftarrow>names. if n = w d then f d else 0) = f d"
    using Cons.prems assms(1) by (simp add: sum_list_distinct_conv_sum_set)
  finally show ?case using Cons by simp
qed simp

section \<open>One group's answer\<close>

lemma evaluate_replicas_ok:
  assumes "\<exists>r \<in> set rs. evaluate_worker ip fl r table request = Inr v"
    and "\<forall>r \<in> set rs. evaluate_worker ip fl r table request = Inr v \<or> (\<exists>m. evaluate_worker ip fl r table request = Inl (m, True))"
  shows "evaluate_replicas ip fl table request rs e = Inr v"
  using assms
proof (induction rs arbitrary: e)
  case (Cons r rs)
  then show ?case by (cases "evaluate_worker ip fl r table request") auto
qed simp

lemma set_replicas_for_request: "set (fst (replicas_for_request g)) = set (rg_replicas g)"
proof (cases "rg_replicas g = []")
  case False
  let ?n = "length (rg_replicas g)" and ?s = "unat (rg_next g) mod length (rg_replicas g)"
  have n: "0 < ?n" using False by simp
  have "\<exists>o' < ?n. (?s + o') mod ?n = i" if "i < ?n" for i
  proof (rule exI [of _ "(i + (?n - ?s)) mod ?n"], intro conjI)
    show "(i + (?n - ?s)) mod ?n < ?n" using n by simp
    have "(?s + (i + (?n - ?s)) mod ?n) mod ?n = (?s + (i + (?n - ?s))) mod ?n" by (simp add: mod_add_right_eq)
    also have "?s + (i + (?n - ?s)) = i + ?n" using mod_less_divisor [OF n, of "unat (rg_next g)"] by linarith
    finally show "(?s + (i + (?n - ?s)) mod ?n) mod ?n = i" using that by simp
  qed
  then have "r \<in> set (fst (replicas_for_request g))" if "r \<in> set (rg_replicas g)" for r
    using that by (force simp: replicas_for_request_def Let_def in_set_conv_nth)
  moreover have "set (fst (replicas_for_request g)) \<subseteq> set (rg_replicas g)"
    using n by (auto simp: replicas_for_request_def Let_def)
  ultimately show ?thesis by blast
qed (simp add: replicas_for_request_def)

text \<open>
  A replica that serves shards \<open>ids\<close> of a generation: its process is well-formed, has a free evaluation slot and the
  ring parameters of the table, has the generation active with exactly these shards, and the runtimes of these shards hold
  the coefficients \<open>cs\<close>. A remote process is also up.
\<close>

fun process_of :: "worker_target \<Rightarrow> string" where
  "process_of (Remote name base_url) = base_url"
| "process_of (Embedded name) = name"

fun unreachable :: "'s fleet \<Rightarrow> worker_target \<Rightarrow> bool" where
  "unreachable fl (Remote name base_url) \<longleftrightarrow> \<not> fl_up fl base_url"
| "unreachable fl (Embedded name) \<longleftrightarrow> False"

definition serves ::
  "'s ipir_sp \<Rightarrow> 's fleet \<Rightarrow> database_id \<Rightarrow> u64 \<Rightarrow> rlwe_params \<Rightarrow> scheme_params \<Rightarrow> (u64 \<Rightarrow> u16 list) \<Rightarrow> u64 list \<Rightarrow> worker_target \<Rightarrow> bool" where
  "serves ip fl table generation rlwe lp cs ids r \<longleftrightarrow> \<not> unreachable fl r \<and>
     (let ws = fl_process fl (process_of r) in
      worker_ok ws \<and> ws_free_slots ws \<noteq> 0 \<and> map_of (ws_rlwe ws) table = Some rlwe
      \<and> (\<exists>ag ss. map_of (ws_active ws) generation = Some ag \<and> map_of (ag_tables ag) table = Some ss \<and> map as_shard_id ss = ids
          \<and> (\<forall>s \<in> set ss. \<forall>rt. map_of (ws_shards ws) (key_of table s) = Some rt
               \<longrightarrow> sr_server rt = new_auto_kernel ip lp (cs (as_shard_id s)) False True)))"

text \<open>The coefficients a complete answer has.\<close>

definition product_answer :: "u64 \<Rightarrow> nat \<Rightarrow> nat \<Rightarrow> (u64 \<Rightarrow> u16 list) \<Rightarrow> shard_query list \<Rightarrow> u64 list" where
  "product_answer q w R cs qs = map (\<lambda>c. of_nat ((\<Sum>sq\<leftarrow>qs. \<Sum>r<R. unat (sq_coefficients sq ! r)
     * unat (cs (sq_shard_id sq) ! (r * w + c))) mod unat q)) [0..<w]"

lemma unat_product_answer:
  assumes "2 \<le> q" and "c < w"
  shows "unat (product_answer q w R cs qs ! c) = (\<Sum>sq\<leftarrow>qs. \<Sum>r<R. unat (sq_coefficients sq ! r)
     * unat (cs (sq_shard_id sq) ! (r * w + c))) mod unat q"
proof -
  have "0 < unat q" using assms(1) by (simp add: word_le_nat_alt)
  then have "x mod unat q < 2 ^ 64" for x using unat_u64_lt [of q] by (meson mod_less_divisor less_trans)
  then show ?thesis using assms(2) by (simp add: product_answer_def unat_of_nat_u64)
qed

lemma reduced_product_answer: "2 \<le> q \<Longrightarrow> reduced q (product_answer q w R cs qs)"
proof -
  assume q: "2 \<le> q"
  then have "0 < unat q" by (simp add: word_le_nat_alt)
  then have "unat (product_answer q w R cs qs ! c) < unat q" if "c < w" for c
    using unat_product_answer [OF q that] by simp
  then show ?thesis by (auto simp: reduced_def in_set_conv_nth word_less_nat_alt product_answer_def)
qed

lemma length_product_answer [simp]: "length (product_answer q w R cs qs) = w"
  by (simp add: product_answer_def)

lemma serves_evaluates_locally:
  assumes kernel: "linear_kernel ip" and q: "2 \<le> rlwe_q rlwe" and params: "shard_parameters ip (db_layout table) = Inr (rlwe0, lp)"
    and serves: "serves ip fl table generation rlwe lp cs (sort (map sq_shard_id qs)) r"
    and cs: "\<forall>i \<in> set (map sq_shard_id qs). length (cs i) = sp_db_rows lp * sp_db_cols lp"
    and queries: "\<forall>sq \<in> set qs. length (sq_coefficients sq) = sp_db_rows lp \<and> reduced (rlwe_q rlwe) (sq_coefficients sq)"
  shows "evaluate_local ip (fl_process fl (process_of r)) table \<lparr> er_generation = generation, er_shards = qs \<rparr>
     = Inr (product_answer (rlwe_q rlwe) (sp_db_cols lp) (sp_db_rows lp) cs qs)"
proof -
  let ?ws = "fl_process fl (process_of r)" and ?req = "\<lparr> er_generation = generation, er_shards = qs \<rparr>"
  obtain ag ss where ws: "worker_ok ?ws" "ws_free_slots ?ws \<noteq> 0" "map_of (ws_rlwe ?ws) table = Some rlwe"
    "map_of (ws_active ?ws) generation = Some ag" "map_of (ag_tables ag) table = Some ss" "map as_shard_id ss = sort (map sq_shard_id qs)"
    "\<forall>s \<in> set ss. \<forall>rt. map_of (ws_shards ?ws) (key_of table s) = Some rt
       \<longrightarrow> sr_server rt = new_auto_kernel ip lp (cs (as_shard_id s)) False True"
    using serves by (auto simp: serves_def Let_def)
  have "as_shard_id ` set ss = set (map sq_shard_id qs)" using arg_cong [OF ws(6), of set] by simp
  then have len: "\<forall>s \<in> set ss. length (cs (as_shard_id s)) = sp_db_rows lp * sp_db_cols lp" using cs by blast
  have "\<exists>v. evaluate_local ip ?ws table ?req = Inr v \<and> length v = sp_db_cols lp \<and> reduced (rlwe_q rlwe) v
      \<and> (\<forall>c < sp_db_cols lp. unat (v ! c) = (\<Sum>q\<leftarrow>er_shards ?req. \<Sum>r \<in> {..<sp_db_rows lp}.
            unat (sq_coefficients q ! r) * unat (cs (sq_shard_id q) ! (r * sp_db_cols lp + c))) mod unat (rlwe_q rlwe))"
    by (rule evaluate_local_product [OF ws(1) kernel ws(2) _ ws(5,3) q params ws(7) len]) (use ws queries in simp_all)
  then obtain v where v: "evaluate_local ip ?ws table ?req = Inr v" "length v = sp_db_cols lp"
    "\<And>c. c < sp_db_cols lp \<Longrightarrow> unat (v ! c) = (\<Sum>sq\<leftarrow>qs. \<Sum>r \<in> {..<sp_db_rows lp}. unat (sq_coefficients sq ! r)
       * unat (cs (sq_shard_id sq) ! (r * sp_db_cols lp + c))) mod unat (rlwe_q rlwe)"
    by auto
  have "v = product_answer (rlwe_q rlwe) (sp_db_cols lp) (sp_db_rows lp) cs qs"
    using v(2,3) by (intro nth_equalityI) (simp_all add: word_unat_eq_iff unat_product_answer [OF q])
  then show ?thesis using v(1) by simp
qed

lemma request_length:
  assumes "\<forall>sq \<in> set qs. length (sq_coefficients sq) = R" and "length qs \<le> 4096" and "R < 2 ^ 32"
  shows "length (encode_evaluate_request \<lparr> er_generation = g, er_shards = qs \<rparr>) < 2 ^ 64"
proof -
  have word: "length (concat (map u64_le xs)) = length xs * 8" for xs using length_concat_const [of "map u64_le xs" 8] by simp
  have "\<forall>b \<in> set (map encode_shard_query qs). length b = 12 + R * 8"
    using assms(1) by (auto simp: encode_shard_query_def word)
  from length_concat_const [OF this]
  have "length (encode_evaluate_request \<lparr> er_generation = g, er_shards = qs \<rparr>) = 16 + length qs * (12 + R * 8)"
    by (simp add: encode_evaluate_request_def)
  also have "\<dots> \<le> 16 + 4096 * (12 + 2 ^ 32 * 8)" using assms(2,3) by (intro add_left_mono mult_le_mono) auto
  finally show ?thesis by simp
qed

lemma response_length: "length (encode_evaluate_response g v) = 16 + 8 * length v"
  using length_concat_const [of "map u64_le v" 8] by (simp add: encode_evaluate_response_def)

lemma parse_table_as_str: "parse_table (db_as_str table) = Inr table"
  by (cases table) (simp_all add: parse_table_def db_from_str_def)

lemma serves_answers:
  assumes kernel: "linear_kernel ip" and q: "2 \<le> rlwe_q rlwe" and params: "shard_parameters ip (db_layout table) = Inr (rlwe0, lp)"
    and serves: "serves ip fl table generation rlwe lp cs (sort (map sq_shard_id qs)) r"
    and cs: "\<forall>i \<in> set (map sq_shard_id qs). length (cs i) = sp_db_rows lp * sp_db_cols lp"
    and queries: "\<forall>sq \<in> set qs. length (sq_coefficients sq) = sp_db_rows lp \<and> reduced (rlwe_q rlwe) (sq_coefficients sq)"
    and sizes: "qs \<noteq> []" "length qs \<le> 4096" "sp_db_rows lp < 2 ^ 32" "16 + 8 * sp_db_cols lp \<le> 1024 * 1024"
  shows "evaluate_worker ip fl r table \<lparr> er_generation = generation, er_shards = qs \<rparr>
     = Inr (product_answer (rlwe_q rlwe) (sp_db_cols lp) (sp_db_rows lp) cs qs)"
proof -
  let ?req = "\<lparr> er_generation = generation, er_shards = qs \<rparr>"
  let ?v = "product_answer (rlwe_q rlwe) (sp_db_cols lp) (sp_db_rows lp) cs qs"
  note local = serves_evaluates_locally [OF kernel q params serves cs queries]
  show ?thesis
  proof (cases r)
    case (Embedded name)
    then show ?thesis using local by (simp add: local_result_def)
  next
    case (Remote name base_url)
    have up: "fl_up fl base_url" using serves by (simp add: Remote serves_def)
    have "length (encode_evaluate_request ?req) < 2 ^ 64" using queries sizes by (intro request_length) auto
    from decode_request_iff [OF this, of ?req] have decoded: "decode_evaluate_request (encode_evaluate_request ?req) = Inr ?req"
      using queries sizes by (auto simp: request_ok_def query_ok_def)
    have len: "length (encode_evaluate_response generation ?v) \<le> 1024 * 1024" using sizes(4) by (simp add: response_length)
    then have "length (encode_evaluate_response generation ?v) < 2 ^ 64" by simp
    from decode_response_iff [OF this, of generation ?v]
    have "decode_evaluate_response (encode_evaluate_response generation ?v) = Inr (generation, ?v)" using sizes(4) by simp
    then show ?thesis
      using up local decoded len
      by (simp add: Remote evaluate_handler_def parse_table_as_str reply_of_def read_worker_body_def)
  qed
qed

lemma unreachable_retries: "unreachable fl r \<Longrightarrow> evaluate_worker ip fl r table request = Inl (''send'', True)"
  by (cases r) auto

section \<open>All groups together\<close>

text \<open>
  A published table over the shards \<open>shards\<close>: the manifest lists them in order with their first rows; every shard's
  group is ready; and of the replicas of a group that holds shards, at least one serves all its shards and each
  other one serves them too or is unreachable.
\<close>

definition published_ok ::
  "'s ipir_sp \<Rightarrow> 's fleet \<Rightarrow> database_id \<Rightarrow> u64 \<Rightarrow> rlwe_params \<Rightarrow> scheme_params \<Rightarrow> (u64 \<Rightarrow> u16 list) \<Rightarrow> nat \<Rightarrow> 'p table_snapshot \<Rightarrow> bool" where
  "published_ok ip fl table generation rlwe lp cs n live \<longleftrightarrow>
     (let ds = tm_shards (tn_manifest live); R = dl_shard_rows (db_layout table) in
      length ds = n \<and> (\<forall>i < n. sd_shard_id (ds ! i) = of_nat i \<and> sd_global_row_start (ds ! i) = of_nat (i * R))
      \<and> distinct (map fst (tn_ready_groups live)) \<and> (\<forall>d \<in> set ds. sd_worker d \<in> fst ` set (tn_ready_groups live))
      \<and> (\<forall>(name, g) \<in> set (tn_ready_groups live). \<forall>ids. ids = map sd_shard_id (filter (\<lambda>d. sd_worker d = name) ds) \<and> ids \<noteq> [] \<longrightarrow>
           (\<exists>r \<in> set (rg_replicas g). serves ip fl table generation rlwe lp cs ids r)
           \<and> (\<forall>r \<in> set (rg_replicas g). serves ip fl table generation rlwe lp cs ids r \<or> unreachable fl r)))"

lemma sorted_descriptor_ids:
  assumes "\<forall>i < length ds. sd_shard_id (ds ! i) = of_nat i" and "length ds \<le> 4096"
  shows "sorted (map sd_shard_id (filter P ds))"
proof -
  have "map sd_shard_id ds = map of_nat [0..<length ds]"
    by (rule nth_equalityI) (simp_all add: assms(1))
  moreover have "sorted (map (of_nat :: nat \<Rightarrow> u64) [0..<length ds])"
    using assms(2) by (auto simp: sorted_iff_nth_mono_less word_le_nat_alt unat_of_nat_u64)
  ultimately have "sorted (map sd_shard_id ds)" by simp
  then show ?thesis by (rule sorted_filter)
qed

lemma sum_list_tasks:
  fixes F :: "shard_query list \<Rightarrow> nat"
  assumes "F [] = 0"
  shows "(\<Sum>task\<leftarrow>concat (map (\<lambda>(name, g). case map_of m name of None \<Rightarrow> [] | Some qs \<Rightarrow> [(rep g, qs)]) gs). F (snd task))
     = (\<Sum>name\<leftarrow>map fst gs. F (entry_of m name))"
  using assms by (induction gs) (auto simp: entry_of_def split: option.splits)

lemma sum_list_descriptors: "(\<Sum>d\<leftarrow>ds. f d) = (\<Sum>i<length ds. f (ds ! i))" for f :: "'a \<Rightarrow> nat"
  by (simp add: sum_list_sum_nth atLeast0LessThan)

text \<open>The tasks of a query: every group that holds shards, asked for exactly those.\<close>

lemma query_tasks:
  assumes fits: "\<forall>d \<in> set ds. unat (sd_global_row_start d) + R \<le> length query"
    and gs: "distinct (map fst gs)" "\<forall>d \<in> set ds. sd_worker d \<in> fst ` set gs"
  obtains m tasks where "split_query R query ds [] = Inr m" and "snd (start_groups gs m) = (tasks, [])"
    and "\<And>task. task \<in> set tasks \<Longrightarrow> \<exists>name g. (name, g) \<in> set gs \<and> fst task = fst (replicas_for_request g)
        \<and> snd task = map (shard_query_of R query) (filter (\<lambda>d. sd_worker d = name) ds) \<and> snd task \<noteq> []"
    and "\<And>f :: shard_query \<Rightarrow> nat. (\<Sum>task\<leftarrow>tasks. \<Sum>sq\<leftarrow>snd task. f sq) = (\<Sum>d\<leftarrow>ds. f (shard_query_of R query d))"
    and "ds \<noteq> [] \<Longrightarrow> tasks \<noteq> []"
proof -
  obtain m where m: "split_query R query ds [] = Inr m" "bt_ok m" "fst ` set m = sd_worker ` set ds"
    "\<And>g. entry_of m g = map (shard_query_of R query) (filter (\<lambda>d. sd_worker d = g) ds)"
    using split_query_ok [OF fits, of "[]"] by (auto simp: entry_of_def)
  define tasks where "tasks = concat (map (\<lambda>(name, g). case map_of m name of None \<Rightarrow> [] | Some qs \<Rightarrow> [(fst (replicas_for_request g), qs)]) gs)"
  have "fst ` set m \<subseteq> fst ` set gs" using m(3) gs(2) by auto
  then have "filter (\<lambda>e. fst e \<notin> fst ` set gs) m = []" by (auto simp: filter_empty_conv)
  then have start: "snd (start_groups gs m) = (tasks, [])" using start_groups_ok [OF gs(1), of m] by (simp add: tasks_def)
  have each: "\<exists>name g. (name, g) \<in> set gs \<and> fst task = fst (replicas_for_request g)
        \<and> snd task = map (shard_query_of R query) (filter (\<lambda>d. sd_worker d = name) ds) \<and> snd task \<noteq> []" if t: "task \<in> set tasks" for task
  proof -
    obtain name g where g: "(name, g) \<in> set gs" "map_of m name = Some (snd task)" "fst task = fst (replicas_for_request g)"
    proof -
      from t obtain e where e: "e \<in> set gs"
        "task \<in> set ((\<lambda>(name, g). case map_of m name of None \<Rightarrow> [] | Some qs \<Rightarrow> [(fst (replicas_for_request g), qs)]) e)"
        by (auto simp: tasks_def)
      then show thesis using that [of "fst e" "snd e"] by (cases e) (auto split: option.splits)
    qed
    have "snd task = map (shard_query_of R query) (filter (\<lambda>d. sd_worker d = name) ds)" using m(4) [of name] g(2) by (simp add: entry_of_def)
    moreover have "name \<in> sd_worker ` set ds" using map_of_SomeD [OF g(2)] m(3) by force
    ultimately show ?thesis using g by (auto simp: filter_empty_conv)
  qed
  have sum: "(\<Sum>task\<leftarrow>tasks. \<Sum>sq\<leftarrow>snd task. f sq) = (\<Sum>d\<leftarrow>ds. f (shard_query_of R query d))" for f :: "shard_query \<Rightarrow> nat"
  proof -
    have "(\<Sum>task\<leftarrow>tasks. \<Sum>sq\<leftarrow>snd task. f sq) = (\<Sum>name\<leftarrow>map fst gs. \<Sum>sq\<leftarrow>entry_of m name. f sq)"
      unfolding tasks_def by (rule sum_list_tasks) simp
    also have "\<dots> = (\<Sum>name\<leftarrow>map fst gs. \<Sum>d\<leftarrow>filter (\<lambda>d. sd_worker d = name) ds. f (shard_query_of R query d))"
      by (simp add: m(4) comp_def)
    also have "\<dots> = (\<Sum>d\<leftarrow>ds. f (shard_query_of R query d))" using gs by (intro sum_list_partition) auto
    finally show ?thesis .
  qed
  have "ds \<noteq> [] \<Longrightarrow> tasks \<noteq> []" using sum [of "\<lambda>_. 1"] by (cases ds) auto
  with m(1) start each sum show thesis by (intro that)
qed

lemma task_answers:
  assumes kernel: "linear_kernel ip" and q: "2 \<le> rlwe_q rlwe" and params: "shard_parameters ip (db_layout table) = Inr (rlwe0, lp)"
    and group: "(name, g) \<in> set (tn_ready_groups live)" and live: "published_ok ip fl table generation rlwe lp cs n live"
    and task: "fst task = fst (replicas_for_request g)" "snd task \<noteq> []"
      "snd task = map (shard_query_of R query) (filter (\<lambda>d. sd_worker d = name) (tm_shards (tn_manifest live)))"
    and cs: "\<forall>d \<in> set (tm_shards (tn_manifest live)). length (cs (sd_shard_id d)) = sp_db_rows lp * sp_db_cols lp"
    and query: "\<forall>d \<in> set (tm_shards (tn_manifest live)). unat (sd_global_row_start d) + R \<le> length query" "reduced (rlwe_q rlwe) query"
    and sizes: "n \<le> 4096" "R = sp_db_rows lp" "R < 2 ^ 32" "16 + 8 * sp_db_cols lp \<le> 1024 * 1024"
  shows "evaluate_replicas ip fl table \<lparr> er_generation = generation, er_shards = snd task \<rparr> (fst task) e
     = Inr (product_answer (rlwe_q rlwe) (sp_db_cols lp) R cs (snd task))"
proof -
  let ?ds = "tm_shards (tn_manifest live)" and ?qs = "snd task"
  have ids: "map sq_shard_id ?qs = map sd_shard_id (filter (\<lambda>d. sd_worker d = name) ?ds)"
    by (simp add: task(3) shard_query_of_def)
  have "length ?ds \<le> 4096" "\<forall>i < length ?ds. sd_shard_id (?ds ! i) = of_nat i" using live sizes(1) by (auto simp: published_ok_def Let_def)
  then have sorted: "sort (map sq_shard_id ?qs) = map sd_shard_id (filter (\<lambda>d. sd_worker d = name) ?ds)"
    unfolding ids by (intro sort_key_id_if_sorted [where f = "\<lambda>x. x", simplified] sorted_descriptor_ids)
  have reps: "\<exists>r \<in> set (fst task). serves ip fl table generation rlwe lp cs (sort (map sq_shard_id ?qs)) r"
    "\<forall>r \<in> set (fst task). serves ip fl table generation rlwe lp cs (sort (map sq_shard_id ?qs)) r \<or> unreachable fl r"
  proof -
    have "map sd_shard_id (filter (\<lambda>d. sd_worker d = name) ?ds) \<noteq> []" using task(2,3) by simp
    then show "\<exists>r \<in> set (fst task). serves ip fl table generation rlwe lp cs (sort (map sq_shard_id ?qs)) r"
      "\<forall>r \<in> set (fst task). serves ip fl table generation rlwe lp cs (sort (map sq_shard_id ?qs)) r \<or> unreachable fl r"
      using live group unfolding sorted task(1) set_replicas_for_request published_ok_def Let_def by blast+
  qed
  have "\<forall>sq \<in> set ?qs. length (sq_coefficients sq) = sp_db_rows lp \<and> reduced (rlwe_q rlwe) (sq_coefficients sq)"
    using query sizes(2) by (auto simp: task(3) shard_query_of_def reduced_def dest!: in_set_takeD in_set_dropD)
  moreover have "\<forall>i \<in> set (map sq_shard_id ?qs). length (cs i) = sp_db_rows lp * sp_db_cols lp" using cs unfolding ids by auto
  moreover have "length ?qs \<le> 4096"
    using order_trans [OF length_filter_le \<open>length ?ds \<le> 4096\<close>] by (simp add: task(3))
  ultimately have "serves ip fl table generation rlwe lp cs (sort (map sq_shard_id ?qs)) r \<Longrightarrow>
      evaluate_worker ip fl r table \<lparr> er_generation = generation, er_shards = ?qs \<rparr> = Inr (product_answer (rlwe_q rlwe) (sp_db_cols lp) R cs ?qs)" for r
    using serves_answers [OF kernel q params] sizes task(2) by simp
  then show ?thesis using reps unreachable_retries by (intro evaluate_replicas_ok) blast+
qed

lemma evaluate_query_sum:
  assumes kernel: "linear_kernel ip" and q: "2 \<le> rlwe_q rlwe" and params: "shard_parameters ip (db_layout table) = Inr (rlwe0, lp)"
    and live: "published_ok ip fl table generation rlwe lp cs n live" and n: "0 < n" "n \<le> 4096"
    and R: "dl_shard_rows (db_layout table) = sp_db_rows lp" "sp_db_rows lp < 2 ^ 32"
    and cols: "sp_db_cols (tn_ypir live) = sp_db_cols lp" "16 + 8 * sp_db_cols lp \<le> 1024 * 1024"
    and cs: "\<forall>i < n. length (cs (of_nat i)) = sp_db_rows lp * sp_db_cols lp"
    and query: "n * sp_db_rows lp \<le> length query" "reduced (rlwe_q rlwe) query"
  shows "\<exists>v. snd (evaluate_query ip fl table generation rlwe live query) = Inr v \<and> length v = sp_db_cols lp
     \<and> (\<forall>c < sp_db_cols lp. unat (v ! c) = (\<Sum>i<n. \<Sum>r \<in> {..<sp_db_rows lp}. unat (query ! (i * sp_db_rows lp + r))
           * unat (cs (of_nat i) ! (r * sp_db_cols lp + c))) mod unat (rlwe_q rlwe))"
proof -
  let ?ds = "tm_shards (tn_manifest live)" and ?R = "sp_db_rows lp" and ?w = "sp_db_cols lp" and ?gs = "tn_ready_groups live"
  have ds: "length ?ds = n" "\<And>i. i < n \<Longrightarrow> sd_shard_id (?ds ! i) = of_nat i" "\<And>i. i < n \<Longrightarrow> sd_global_row_start (?ds ! i) = of_nat (i * ?R)"
    and gs: "distinct (map fst ?gs)" "\<forall>d \<in> set ?ds. sd_worker d \<in> fst ` set ?gs"
    using live R(1) by (auto simp: published_ok_def Let_def)
  have start: "unat (sd_global_row_start (?ds ! i)) = i * ?R" if "i < n" for i
  proof -
    have "i * ?R \<le> 4096 * 2 ^ 32" using that n R(2) by (intro mult_le_mono) auto
    then have "i * ?R < 2 ^ 64" by (rule le_less_trans) simp
    then show ?thesis using ds(3) [OF that] by (simp add: unat_of_nat_u64 del: of_nat_mult)
  qed
  have slice: "i * ?R + ?R \<le> length query" if "i < n" for i
    using that query(1) by (metis Suc_leI add.commute mult_Suc mult_le_mono1 order_trans)
  have fits: "\<forall>d \<in> set ?ds. unat (sd_global_row_start d) + ?R \<le> length query"
    using ds(1) start slice by (auto simp: in_set_conv_nth)
  obtain m tasks where split: "split_query ?R query ?ds [] = Inr m" and tasks: "snd (start_groups ?gs m) = (tasks, [])"
    and each: "\<And>task. task \<in> set tasks \<Longrightarrow> \<exists>name g. (name, g) \<in> set ?gs \<and> fst task = fst (replicas_for_request g)
        \<and> snd task = map (shard_query_of ?R query) (filter (\<lambda>d. sd_worker d = name) ?ds) \<and> snd task \<noteq> []"
    and sum: "\<And>f :: shard_query \<Rightarrow> nat. (\<Sum>task\<leftarrow>tasks. \<Sum>sq\<leftarrow>snd task. f sq) = (\<Sum>d\<leftarrow>?ds. f (shard_query_of ?R query d))"
    and nonempty: "?ds \<noteq> [] \<Longrightarrow> tasks \<noteq> []"
    using query_tasks [OF fits gs] by blast
  have cs': "\<forall>d \<in> set ?ds. length (cs (sd_shard_id d)) = ?R * ?w" using cs ds(1,2) by (auto simp: in_set_conv_nth)
  define part where "part task = product_answer (rlwe_q rlwe) ?w ?R cs (snd task)" for task :: "worker_target list \<times> shard_query list"
  have step: "combine_partial ip fl table generation (rlwe_q rlwe) task acc = Inr (map2 (add_mod (rlwe_q rlwe)) acc (part task))"
    if t: "task \<in> set tasks" "length acc = ?w" "reduced (rlwe_q rlwe) acc" for task acc
  proof -
    obtain name g where g: "(name, g) \<in> set ?gs" "fst task = fst (replicas_for_request g)"
        "snd task = map (shard_query_of ?R query) (filter (\<lambda>d. sd_worker d = name) ?ds)" "snd task \<noteq> []"
      using each [OF t(1)] by blast
    have "evaluate_replicas ip fl table \<lparr> er_generation = generation, er_shards = snd task \<rparr> (fst task) None = Inr (part task)"
      unfolding part_def
      by (rule task_answers [OF kernel q params g(1) live g(2,4,3) cs' fits query(2) n(2) refl R(2) cols(2)])
    then show ?thesis
      using t q add_intermediate_iff [of acc "part task" "rlwe_q rlwe"] reduced_product_answer [OF q]
      by (simp add: combine_partial_def part_def)
  qed
  obtain v where v: "foldR (combine_partial ip fl table generation (rlwe_q rlwe)) tasks (replicate ?w 0) = Inr v" "length v = ?w"
      "\<And>c. c < ?w \<Longrightarrow> unat (v ! c) = (\<Sum>task\<leftarrow>tasks. unat (part task ! c)) mod unat (rlwe_q rlwe)"
    using fold_parts [OF q, of tasks ?w "combine_partial ip fl table generation (rlwe_q rlwe)" part "replicate ?w 0"]
      step reduced_zeros [OF q] by (auto simp: part_def)
  have "tasks \<noteq> []" using nonempty ds(1) n(1) by auto
  then have run: "snd (evaluate_query ip fl table generation rlwe live query) = Inr v"
    using v(1) tasks cols(1) by (auto simp: evaluate_query_def R(1) split split: prod.splits)
  have "unat (v ! c) = (\<Sum>i<n. \<Sum>r \<in> {..<?R}. unat (query ! (i * ?R + r)) * unat (cs (of_nat i) ! (r * ?w + c))) mod unat (rlwe_q rlwe)"
    if c: "c < ?w" for c
  proof -
    let ?f = "\<lambda>sq. \<Sum>r<?R. unat (sq_coefficients sq ! r) * unat (cs (sq_shard_id sq) ! (r * ?w + c))"
    have "unat (v ! c) = (\<Sum>task\<leftarrow>tasks. (\<Sum>sq\<leftarrow>snd task. ?f sq) mod unat (rlwe_q rlwe)) mod unat (rlwe_q rlwe)"
      using v(3) [OF c] by (simp add: part_def unat_product_answer [OF q c])
    also have "\<dots> = (\<Sum>d\<leftarrow>?ds. ?f (shard_query_of ?R query d)) mod unat (rlwe_q rlwe)" by (simp only: sum_list_mod sum)
    also have "(\<Sum>d\<leftarrow>?ds. ?f (shard_query_of ?R query d)) = (\<Sum>i<n. ?f (shard_query_of ?R query (?ds ! i)))"
      by (simp only: sum_list_descriptors ds(1))
    also have "\<dots> = (\<Sum>i<n. \<Sum>r \<in> {..<?R}. unat (query ! (i * ?R + r)) * unat (cs (of_nat i) ! (r * ?w + c)))"
    proof (intro sum.cong refl)
      fix i r assume "i \<in> {..<n}" "r \<in> {..<?R}"
      then show "unat (sq_coefficients (shard_query_of ?R query (?ds ! i)) ! r) * unat (cs (sq_shard_id (shard_query_of ?R query (?ds ! i))) ! (r * ?w + c))
          = unat (query ! (i * ?R + r)) * unat (cs (of_nat i) ! (r * ?w + c))"
        using start [of i] slice [of i] ds(2) [of i] by (simp add: shard_query_of_def)
    qed
    finally show ?thesis .
  qed
  with run v(2) show ?thesis by blast
qed

text \<open>A table that is served: its shards are built and active on replicas that answer, under one published generation.\<close>

definition served_table ::
  "'s ipir_sp \<Rightarrow> 's fleet \<Rightarrow> 'p coordinator_state \<Rightarrow> database_id \<Rightarrow> u64 \<Rightarrow> rlwe_params \<Rightarrow> scheme_params \<Rightarrow> bytes list \<Rightarrow> 'p table_snapshot \<Rightarrow> bool" where
  "served_table ip fl co table generation rlwe lp shards live \<longleftrightarrow>
     linear_kernel ip \<and> 2 \<le> rlwe_q rlwe \<and> (\<exists>rlwe0. shard_parameters ip (db_layout table) = Inr (rlwe0, lp))
     \<and> sp_db_rows lp = dl_shard_rows (db_layout table)
     \<and> (\<exists>state. map_of (co_tables co) table = Some state \<and> st_rlwe state = rlwe)
     \<and> (\<exists>snapshot. find_generation co generation = Some snapshot \<and> map_of (gs_tables snapshot) table = Some live)
     \<and> (\<forall>rows \<in> set shards. length rows = dl_shard_bytes (db_layout table)) \<and> shards \<noteq> [] \<and> length shards \<le> 4096
     \<and> published_ok ip fl table generation rlwe lp (\<lambda>i. row_plaintexts ip (shards ! unat i) (dl_row_bytes (db_layout table))
          (sp_db_rows lp) (sp_db_cols lp) (trailing_zeros (sp_p lp))) (length shards) live
     \<and> sp_db_cols (tn_ypir live) = sp_db_cols lp \<and> length shards * sp_db_rows lp \<le> sp_db_rows (tn_ypir live)
     \<and> sp_db_rows lp < 2 ^ 32 \<and> 16 + 8 * sp_db_cols lp \<le> 1024 * 1024"

text \<open>The whole table as one database, zero-padded to the published rows.\<close>

definition whole_table :: "'s ipir_sp \<Rightarrow> database_id \<Rightarrow> scheme_params \<Rightarrow> bytes list \<Rightarrow> scheme_params \<Rightarrow> u16 list" where
  "whole_table ip table lp shards ypir = padded_plaintexts ip shards (dl_row_bytes (db_layout table)) (sp_db_rows lp) (sp_db_rows ypir)
     (sp_db_cols lp) (trailing_zeros (sp_p lp))"

lemma answer_query_served:
  assumes served: "served_table ip fl co table generation rlwe lp shards live"
    and body: "take 8 body = u64_le generation" "decode_query ip pk rlwe (tn_ypir live) body = Inr (packing_keys, query)"
    and query: "reduced (rlwe_q rlwe) query"
  shows "snd (answer_query ip pk fl table body co) =
    bindR (pack_intermediate pk rlwe (multiply_query ip (new_auto_kernel ip (tn_ypir live) (whole_table ip table lp shards (tn_ypir live)) False True)
        rlwe query) packing_keys (tn_preprocessed live))
      (\<lambda>packed. Inr (u64_le generation @ tn_public_params_epoch live @ response_bodies pk packed (tn_ypir live)))"
    (is "_ = bindR (pack_intermediate pk rlwe ?whole packing_keys _) _")
proof -
  from served obtain rlwe0 state snapshot where kernel: "linear_kernel ip" and q: "2 \<le> rlwe_q rlwe"
    and params: "shard_parameters ip (db_layout table) = Inr (rlwe0, lp)" "sp_db_rows lp = dl_shard_rows (db_layout table)"
    and state: "map_of (co_tables co) table = Some state" "st_rlwe state = rlwe"
    and generation: "find_generation co generation = Some snapshot" "map_of (gs_tables snapshot) table = Some live"
    and shards: "\<forall>rows \<in> set shards. length rows = dl_shard_bytes (db_layout table)" "shards \<noteq> []" "length shards \<le> 4096"
    and live: "published_ok ip fl table generation rlwe lp (\<lambda>i. row_plaintexts ip (shards ! unat i) (dl_row_bytes (db_layout table))
        (sp_db_rows lp) (sp_db_cols lp) (trailing_zeros (sp_p lp))) (length shards) live"
    and geometry: "sp_db_cols (tn_ypir live) = sp_db_cols lp" "length shards * sp_db_rows lp \<le> sp_db_rows (tn_ypir live)"
      "sp_db_rows lp < 2 ^ 32" "16 + 8 * sp_db_cols lp \<le> 1024 * 1024"
    unfolding served_table_def by blast
  let ?n = "length shards" and ?R = "sp_db_rows lp" and ?w = "sp_db_cols lp" and ?rb = "dl_row_bytes (db_layout table)"
    and ?bits = "trailing_zeros (sp_p lp)"
  let ?cs = "\<lambda>i :: u64. row_plaintexts ip (shards ! unat i) ?rb ?R ?w ?bits"
  have len: "length query = sp_db_rows (tn_ypir live)"
    using body(2) by (auto simp: decode_query_def deserialize_first_dim_query_def Let_def bindR_Inr_iff split: if_splits)
  have "0 < ?n" "\<forall>i < ?n. length (?cs (of_nat i)) = ?R * ?w" "?n * ?R \<le> length query"
    using shards(2) geometry(2) len by auto
  with evaluate_query_sum [OF kernel q params(1) live _ shards(3) params(2) [symmetric] geometry(3,1,4) _ _ query]
  obtain v where v: "snd (evaluate_query ip fl table generation rlwe live query) = Inr v" "length v = ?w"
      "\<And>c. c < ?w \<Longrightarrow> unat (v ! c) = (\<Sum>i<?n. \<Sum>r \<in> {..<?R}. unat (query ! (i * ?R + r)) * unat (?cs (of_nat i) ! (r * ?w + c))) mod unat (rlwe_q rlwe)"
    by blast
  have "\<forall>x \<in> set shards. length x = ?R * ?rb" using shards(1) params(2) by (simp add: dl_shard_bytes_def)
  note whole = whole_product [OF kernel q this geometry(2,1) len query, where bits = ?bits, folded whole_table_def]
  have "unat (v ! c) = unat (?whole ! c)" if "c < ?w" for c
  proof -
    have "?cs (of_nat i) = row_plaintexts ip (shards ! i) ?rb ?R ?w ?bits" if "i < ?n" for i
      using that shards(3) by (simp add: unat_of_nat_u64)
    then show ?thesis using v(3) [OF that] whole(2) [OF that] by simp
  qed
  then have "v = ?whole" using v(2) whole(1) by (intro nth_equalityI) (auto simp: word_unat_eq_iff)
  moreover have "\<not> length body < 8" using arg_cong [OF body(1), of length] by simp
  moreover have "of_nat (le_val (take 8 body)) = generation" by (simp add: body(1))
  ultimately show ?thesis
    using v(1) state generation body(2)
    by (cases "evaluate_query ip fl table generation rlwe live query")
       (auto simp: answer_query_def co_table_def Let_def evaluate_query_def split: sum.splits prod.splits)
qed

section \<open>Properties\<close>

text \<open>
  C37. A query is answered as if one server held the whole table, also while replicas are down. When a retained
  generation is published over its shards, with at least one replica per group serving and the others serving or unreachable,
  \<open>answer_query\<close> never fails to evaluate: it packs exactly the product of the query with the whole database, zero-padded to
  the published number of rows, and returns it behind the generation and the epoch of the public parameters. Splitting by group,
  the wire format of remote workers, the round-robin order of replicas and the order of the additions do not show.
\<close>

theorem answer_query_exact:
  assumes kernel: "linear_kernel ip" and q: "2 \<le> rlwe_q rlwe"
    and params: "shard_parameters ip (db_layout table) = Inr (rlwe0, lp)" "sp_db_rows lp = dl_shard_rows (db_layout table)"
    and state: "map_of (co_tables co) table = Some state" "st_rlwe state = rlwe"
    and generation: "find_generation co generation = Some snapshot" "map_of (gs_tables snapshot) table = Some live"
    and body: "take 8 body = u64_le generation" "decode_query ip pk rlwe (tn_ypir live) body = Inr (packing_keys, query)"
    and query: "reduced (rlwe_q rlwe) query"
    and shards: "\<forall>rows \<in> set shards. length rows = dl_shard_bytes (db_layout table)" "shards \<noteq> []" "length shards \<le> 4096"
    and live: "published_ok ip fl table generation rlwe lp (\<lambda>i. row_plaintexts ip (shards ! unat i) (dl_row_bytes (db_layout table))
        (sp_db_rows lp) (sp_db_cols lp) (trailing_zeros (sp_p lp))) (length shards) live"
    and geometry: "sp_db_cols (tn_ypir live) = sp_db_cols lp" "length shards * sp_db_rows lp \<le> sp_db_rows (tn_ypir live)"
      "sp_db_rows lp < 2 ^ 32" "16 + 8 * sp_db_cols lp \<le> 1024 * 1024"
  shows "snd (answer_query ip pk fl table body co) =
    bindR (pack_intermediate pk rlwe
        (multiply_query ip (new_auto_kernel ip (tn_ypir live) (padded_plaintexts ip shards (dl_row_bytes (db_layout table)) (sp_db_rows lp)
           (sp_db_rows (tn_ypir live)) (sp_db_cols lp) (trailing_zeros (sp_p lp))) False True) rlwe query)
        packing_keys (tn_preprocessed live))
      (\<lambda>packed. Inr (u64_le generation @ tn_public_params_epoch live @ response_bodies pk packed (tn_ypir live)))"
proof -
  have "served_table ip fl co table generation rlwe lp shards live"
    using kernel q params state generation shards live geometry unfolding served_table_def by blast
  from answer_query_served [OF this body query] show ?thesis by (simp only: whole_table_def)
qed

text \<open>A full-size shard served by an embedded replica whose remote peer is down.\<close>

definition full_scheme :: scheme_params where
  "full_scheme = \<lparr> sp_db_rows = 8192, sp_db_cols = 1, sp_p = 256, sp_query_bits = 0, sp_q_prime_1 = 256 \<rparr>"

definition unit_query :: "nat \<Rightarrow> u64 list" where
  "unit_query n = map (\<lambda>i. of_bool (i = 0)) [0..<n]"

definition full_ipir :: "(scheme_params \<times> u16 list) ipir_sp" where
  "full_ipir = tiny_ipir \<lparr> params_for_simplepir := (\<lambda>_ _. Inr (tiny_rlwe, full_scheme)),
     query_from_switched_bytes := (\<lambda>_ n _ _. Inr (unit_query n)) \<rparr>"

definition full_coefficients :: "u16 list" where
  "full_coefficients = row_plaintexts full_ipir (full_shard 7) (dl_row_bytes ENHANCE_LAYOUT) 8192 1 (trailing_zeros 256)"

definition full_worker :: "(scheme_params \<times> u16 list) worker_state" where
  "full_worker = \<lparr> ws_rlwe = [(Enhance, tiny_rlwe)],
     ws_shards = [(\<lparr> sk_table = Enhance, sk_shard_id = 0, sk_rows_sha256 = ''7'' \<rparr>,
        \<lparr> sr_shard_id = 0, sr_query_row_start = 0, sr_rows_sha256 = ''7'', sr_server = (full_scheme, full_coefficients),
          sr_crs_blocks = [[[7]]], sr_prepared_at = 0 \<rparr>)],
     ws_active = [(5, \<lparr> ag_generation = 5, ag_tables = [(Enhance, [\<lparr> as_shard_id = 0, as_rows_sha256 = ''7'' \<rparr>])] \<rparr>)],
     ws_artifacts = (\<lambda>_. empty_artifact_dir), ws_free_slots = 2, ws_counter = 1 \<rparr>"

definition full_live :: "crs_block list table_snapshot" where
  "full_live = \<lparr> tn_manifest = table_manifest_of id first_byte tiny_source tiny_rlwe full_scheme 1 8192 [] [describe_shard tiny_source 0 ''7'' ''g''],
     tn_ypir = full_scheme, tn_preprocessed = [[[7]]], tn_public_params = [], tn_public_params_epoch = replicate 8 0,
     tn_ready_groups = [(''g'', \<lparr> rg_replicas = [Remote ''b'' ''http://b'', Embedded ''a''], rg_next = 0 \<rparr>)] \<rparr>"

definition full_co :: "crs_block list coordinator_state" where
  "full_co = tiny_co \<lparr> co_live := [\<lparr> gs_manifest = \<lparr> gm_anchor_height = 5, gm_anchor_block_hash = [], gm_ironwood_tree_size = 5,
     gm_generation = 5, gm_tables = (\<lambda>_. None) \<rparr>, gs_tables = [(Enhance, full_live)] \<rparr>] \<rparr>"

definition full_fleet :: "(scheme_params \<times> u16 list) fleet" where
  "full_fleet = \<lparr> fl_process = (\<lambda>_. full_worker), fl_up = (\<lambda>_. False) \<rparr>"

lemma full_published:
  "published_ok full_ipir full_fleet Enhance 5 tiny_rlwe full_scheme
     (\<lambda>i. row_plaintexts full_ipir ([full_shard 7] ! unat i) (dl_row_bytes (db_layout Enhance)) (sp_db_rows full_scheme)
        (sp_db_cols full_scheme) (trailing_zeros (sp_p full_scheme))) (length [full_shard 7]) full_live"
proof -
  have ds: "tm_shards (tn_manifest full_live) = [describe_shard tiny_source 0 ''7'' ''g'']"
    by (simp add: full_live_def table_manifest_of_def Let_def)
  have ok: "worker_ok full_worker"
    by (simp add: worker_ok_def full_worker_def RETAINED_GENERATIONS_def tables_ok_def key_of_def)
  have "serves full_ipir full_fleet Enhance 5 tiny_rlwe full_scheme
     (\<lambda>i. row_plaintexts full_ipir ([full_shard 7] ! unat i) (dl_row_bytes (db_layout Enhance)) (sp_db_rows full_scheme)
        (sp_db_cols full_scheme) (trailing_zeros (sp_p full_scheme))) [0] (Embedded ''a'')"
    using ok by (simp add: serves_def full_fleet_def Let_def)
       (simp add: full_worker_def key_of_def full_ipir_def tiny_ipir_def table_ipir_def full_coefficients_def full_scheme_def)
  then show ?thesis
    unfolding published_ok_def Let_def ds
    by (simp add: full_live_def describe_shard_def full_fleet_def)
qed

theorem answer_query_exact_witness:
  "snd (answer_query full_ipir tiny_pack full_fleet Enhance (u64_le 5) full_co) =
     Inr (u64_le 5 @ tn_public_params_epoch full_live @ response_bodies tiny_pack (multiply_query full_ipir (new_auto_kernel full_ipir
        (tn_ypir full_live) (padded_plaintexts full_ipir [full_shard 7] (dl_row_bytes (db_layout Enhance)) (sp_db_rows full_scheme)
           (sp_db_rows (tn_ypir full_live)) (sp_db_cols full_scheme) (trailing_zeros (sp_p full_scheme))) False True) tiny_rlwe (unit_query 8192))
        (tn_ypir full_live))"
proof -
  have kernel: "linear_kernel full_ipir"
    using table_ipir_laws(1) by (simp add: linear_kernel_def full_ipir_def tiny_ipir_def)
  have params: "shard_parameters full_ipir (db_layout Enhance) = Inr (tiny_rlwe, full_scheme)" "sp_db_rows full_scheme = dl_shard_rows (db_layout Enhance)"
    by (simp_all add: shard_parameters_def full_ipir_def full_scheme_def ENHANCE_LAYOUT_def row_geometry)
  have unit: "length (unit_query n) = n" "reduced 65537 (unit_query n)" for n
    by (simp_all add: unit_query_def reduced_def)
  have co: "map_of (co_tables full_co) Enhance = Some \<lparr> st_setup = \<lparr> ts_table = Enhance, ts_groups = [tiny_group] \<rparr>, st_rlwe = tiny_rlwe,
      st_hint_cache = [], st_query_slots = 2 \<rparr>" by (simp add: full_co_def tiny_co_def)
  have live: "tn_ypir full_live = full_scheme" by (simp add: full_live_def)
  have decode: "decode_query full_ipir tiny_pack tiny_rlwe (tn_ypir full_live) (u64_le 5) = Inr ((), unit_query 8192)"
    by (simp add: decode_query_def live tiny_pack_def deserialize_first_dim_query_def full_ipir_def full_scheme_def unit)
  have "snd (answer_query full_ipir tiny_pack full_fleet Enhance (u64_le 5) full_co) =
    bindR (pack_intermediate tiny_pack tiny_rlwe
        (multiply_query full_ipir (new_auto_kernel full_ipir (tn_ypir full_live) (padded_plaintexts full_ipir [full_shard 7]
           (dl_row_bytes (db_layout Enhance)) (sp_db_rows full_scheme) (sp_db_rows (tn_ypir full_live)) (sp_db_cols full_scheme)
           (trailing_zeros (sp_p full_scheme))) False True) tiny_rlwe (unit_query 8192)) () (tn_preprocessed full_live))
      (\<lambda>packed. Inr (u64_le 5 @ tn_public_params_epoch full_live @ response_bodies tiny_pack packed (tn_ypir full_live)))"
  proof (rule answer_query_exact [OF kernel _ params co _ _ _ _ decode _ _ _ _ full_published])
    show "find_generation full_co 5 = Some (hd (co_live full_co))" by (simp add: full_co_def find_generation_def)
    show "map_of (gs_tables (hd (co_live full_co))) Enhance = Some full_live" by (simp add: full_co_def)
    show "\<forall>rows \<in> set [full_shard 7]. length rows = dl_shard_bytes (db_layout Enhance)" by (simp add: full_shard_def)
  qed (simp_all add: live full_scheme_def unit)
  also have "\<dots> = Inr (u64_le 5 @ tn_public_params_epoch full_live @ response_bodies tiny_pack (multiply_query full_ipir (new_auto_kernel full_ipir
        (tn_ypir full_live) (padded_plaintexts full_ipir [full_shard 7] (dl_row_bytes (db_layout Enhance)) (sp_db_rows full_scheme)
           (sp_db_rows (tn_ypir full_live)) (sp_db_cols full_scheme) (trailing_zeros (sp_p full_scheme))) False True) tiny_rlwe (unit_query 8192))
        (tn_ypir full_live))"
    by (simp add: tiny_pack_def)
  finally show ?thesis .
qed

end
