(* ===== verification/Pir_Client.thy ===== *)
theory Pir_Client
  imports Pir_Answer
begin

text \<open>
  The wallet side of Enhance PIR, \<open>pir/enhance/src/client.rs\<close>: the session built from what the server advertises, preparing
  and decoding one query, and the client that sends it.

  The client functions of the cryptographic crates are the record \<open>client_sp\<close>; the randomness a fresh query draws is
  passed in. SHA-256, hexadecimal and base64 coding, JSON parsing and the HTTP library are parameters, the last as a function
  from a request to a response whose body arrives in chunks. The ring degree is positive, so the divisions by it do not panic.
\<close>

section \<open>Parameters\<close>

record ('k, 'q, 'd) client_sp =
  published_c1_len :: "nat \<Rightarrow> u64 \<Rightarrow> nat"
  recover_published_c1 :: "bytes \<Rightarrow> nat \<Rightarrow> nat \<Rightarrow> u64 \<Rightarrow> u64 list list"
  generate_fresh_query :: "rlwe_params \<Rightarrow> scheme_params \<Rightarrow> nat \<Rightarrow> u64 list list \<Rightarrow> nat \<Rightarrow> 'q \<times> 'k \<times> 'd"
  serialize_packing_keys :: "rlwe_params \<Rightarrow> 'k \<Rightarrow> ipir_error + bytes"
  to_switched_bytes :: "'q \<Rightarrow> u64 \<Rightarrow> nat \<Rightarrow> bytes"
  response_body_len :: "nat \<Rightarrow> u64 \<Rightarrow> nat"
  decode_response :: "rlwe_params \<Rightarrow> scheme_params \<Rightarrow> 'd \<Rightarrow> u64 list list \<Rightarrow> bytes \<Rightarrow> bytes"

text \<open>A response: its status, its announced length and the chunks of its body, any of which may fail to arrive.\<close>

record http_response =
  hr_status :: nat
  hr_content_length :: "nat option"
  hr_chunks :: "(string + bytes) list"

datatype client_error =
    Http string
  | HttpStatus nat
  | Json
  | PublicParamsBase64
  | Bad_Generation string
  | OutsideCoverage u64
  | Pir string
  | Bad_Response string
  | Client_Panic

section \<open>Sessions\<close>

record enhance_session =
  es_generation :: enhance_generation
  es_params :: scheme_params
  es_public_params_base64 :: string

record query_session =
  qs_generation :: enhance_generation
  qs_ypir :: scheme_params
  qs_rlwe :: rlwe_params
  qs_setup :: "u64 list list"
  qs_published_c1 :: "u64 list list"
  qs_epoch :: bytes

record 'd prepared_query =
  pq_row :: nat
  pq_body :: bytes
  pq_seed :: 'd

definition ITEM_SIZE_BITS :: u64 where "ITEM_SIZE_BITS = of_nat (ROW_BYTES * 8)"

definition session_new ::
  "'s ipir_sp \<Rightarrow> ('k, 'q, 'd) client_sp \<Rightarrow> (bytes \<Rightarrow> bytes) \<Rightarrow> (bytes \<Rightarrow> string) \<Rightarrow> enhance_generation \<Rightarrow> scheme_params \<Rightarrow> bytes
     \<Rightarrow> client_error + query_session" where
  "session_new ip cl sha256 hex_encode generation ypir public_params =
     (if eg_schema_version generation \<noteq> SCHEMA_VERSION \<or> eg_protocol_revision generation \<noteq> PROTOCOL_REVISION
         \<or> eg_network generation \<noteq> PIR_NETWORK \<or> eg_pool generation \<noteq> POOL
      then Inl (Bad_Generation ''wrong schema, protocol, network, or pool'')
      else if eg_setup_seed generation \<noteq> ENHANCE_SETUP_SEED then Inl (Bad_Generation ''setup seed does not match Enhance PIR'')
      else if unat (eg_record_bytes generation) \<noteq> RECORD_BYTES \<or> unat (eg_records_per_row generation) \<noteq> RECORDS_PER_ROW
         \<or> unat (eg_row_bytes generation) \<noteq> ROW_BYTES \<or> unat (eg_shard_rows generation) \<noteq> SHARD_ROWS
         \<or> eg_logical_rows generation < eg_used_rows generation \<or> \<not> is_power_of_two (unat (eg_logical_rows generation))
         \<or> eg_logical_rows generation < of_nat SHARD_ROWS
         \<or> eg_used_rows generation \<noteq> div_ceil (eg_ironwood_tree_size generation) (of_nat RECORDS_PER_ROW)
      then Inl (Bad_Generation ''invalid database geometry'')
      else bindR (map_err (\<lambda>_. Pir ''parameters'') (params_for_simplepir ip (eg_logical_rows generation) ITEM_SIZE_BITS))
        (\<lambda>(rlwe, expected).
        if ypir \<noteq> expected then Inl (Bad_Generation ''parameters do not match the pinned generator'')
        else let digest = sha256 public_params in
          if hex_encode digest \<noteq> eg_public_params_sha256 generation then Inl (Bad_Generation ''public parameter digest mismatch'')
          else let epoch = take 8 digest in
            if hex_encode epoch \<noteq> eg_public_params_epoch generation then Inl (Bad_Generation ''public parameter epoch mismatch'')
            else let blocks = sp_db_cols ypir div rlwe_d rlwe;
                     expected_len = blocks * published_c1_len cl (rlwe_d rlwe) (rlwe_q rlwe)
              in if length public_params \<noteq> expected_len then Inl (Bad_Generation ''public parameters have the wrong length'')
                 else Inr \<lparr> qs_generation = generation, qs_ypir = ypir, qs_rlwe = rlwe,
                            qs_setup = public_query_setup ip rlwe ypir (seed_bytes ENHANCE_SETUP_SEED),
                            qs_published_c1 = recover_published_c1 cl public_params (rlwe_d rlwe) blocks (rlwe_q rlwe),
                            qs_epoch = epoch \<rparr>))"

definition from_session ::
  "'s ipir_sp \<Rightarrow> ('k, 'q, 'd) client_sp \<Rightarrow> (bytes \<Rightarrow> bytes) \<Rightarrow> (bytes \<Rightarrow> string) \<Rightarrow> (string \<Rightarrow> bytes option) \<Rightarrow> enhance_session
     \<Rightarrow> client_error + query_session" where
  "from_session ip cl sha256 hex_encode base64_decode ses =
     bindR (ok_or PublicParamsBase64 (base64_decode (es_public_params_base64 ses))) (\<lambda>public_params.
     session_new ip cl sha256 hex_encode (es_generation ses) (es_params ses) public_params)"

section \<open>One query\<close>

definition prepare_row :: "('k, 'q, 'd) client_sp \<Rightarrow> nat \<Rightarrow> query_session \<Rightarrow> nat \<Rightarrow> client_error + 'd prepared_query" where
  "prepare_row cl rnd qs row =
     (if row \<ge> sp_db_rows (qs_ypir qs) then Inl (OutsideCoverage (of_nat row))
      else case generate_fresh_query cl (qs_rlwe qs) (qs_ypir qs) rnd (qs_setup qs) row of (query, packing_keys, seed) \<Rightarrow>
        bindR (map_err (\<lambda>_. Pir ''packing keys'') (serialize_packing_keys cl (qs_rlwe qs) packing_keys)) (\<lambda>keys.
        Inr \<lparr> pq_row = row,
              pq_body = u64_le (eg_generation (qs_generation qs)) @ keys
                @ to_switched_bytes cl query (rlwe_q (qs_rlwe qs)) (sp_query_bits (qs_ypir qs)),
              pq_seed = seed \<rparr>))"

definition prepare_position ::
  "('k, 'q, 'd) client_sp \<Rightarrow> nat \<Rightarrow> query_session \<Rightarrow> u64 \<Rightarrow> client_error + ('d prepared_query \<times> nat)" where
  "prepare_position cl rnd qs position =
     bindR (ok_or (OutsideCoverage position) (row_for_position (qs_generation qs) position)) (\<lambda>(row, slot).
     bindR (prepare_row cl rnd qs row) (\<lambda>query. Inr (query, slot)))"

text \<open>\<open>gen_range\<close> draws a row below the bound, and panics on an empty range.\<close>

definition prepare_dummy :: "('k, 'q, 'd) client_sp \<Rightarrow> nat \<Rightarrow> nat \<Rightarrow> query_session \<Rightarrow> client_error + 'd prepared_query" where
  "prepare_dummy cl rnd draw qs =
     (if sp_db_rows (qs_ypir qs) = 0 then Inl Client_Panic else prepare_row cl rnd qs (draw mod sp_db_rows (qs_ypir qs)))"

definition session_decode ::
  "('k, 'q, 'd) client_sp \<Rightarrow> query_session \<Rightarrow> 'd prepared_query \<Rightarrow> bytes \<Rightarrow> client_error + bytes" where
  "session_decode cl qs query response =
     (if length response < 8 \<or> take 8 response \<noteq> u64_le (eg_generation (qs_generation qs))
      then Inl (Bad_Response ''generation mismatch'')
      else if length response < 16 \<or> take 8 (drop 8 response) \<noteq> qs_epoch qs
      then Inl (Bad_Response ''public parameter epoch mismatch'')
      else let expected_body_len = (sp_db_cols (qs_ypir qs) div rlwe_d (qs_rlwe qs))
                 * response_body_len cl (rlwe_d (qs_rlwe qs)) (sp_q_prime_1 (qs_ypir qs))
        in if length response \<noteq> 16 + expected_body_len then Inl (Bad_Response ''response has the wrong length'')
           else let decoded = decode_response cl (qs_rlwe qs) (qs_ypir qs) (pq_seed query) (qs_published_c1 qs) (drop 16 response)
             in if length decoded < ROW_BYTES then Inl (Bad_Response ''decoded row is too short'') else Inr (take ROW_BYTES decoded))"

definition record_in_row :: "bytes \<Rightarrow> nat \<Rightarrow> client_error + bytes" where
  "record_in_row row slot =
     (let start = slot * RECORD_BYTES in
      if length row < start + RECORD_BYTES then Inl Client_Panic else Inr (slice_range start (start + RECORD_BYTES) row))"

section \<open>The client\<close>

text \<open>\<open>error_for_status\<close> refuses the client and server errors; \<open>is_success\<close> accepts the 200s.\<close>

fun read_chunks :: "nat \<Rightarrow> bytes \<Rightarrow> (string + bytes) list \<Rightarrow> client_error + bytes" where
  "read_chunks limit body [] = Inr body"
| "read_chunks limit body (Inl e # rest) = Inl (Http e)"
| "read_chunks limit body (Inr chunk # rest) =
     (if length body + length chunk > limit then Inl (Bad_Response ''HTTP body exceeds limit'')
      else read_chunks limit (body @ chunk) rest)"

definition read_limited :: "http_response \<Rightarrow> nat \<Rightarrow> client_error + bytes" where
  "read_limited response limit =
     (if 400 \<le> hr_status response \<and> hr_status response \<le> 599 then Inl (Http ''status'')
      else if (case hr_content_length response of None \<Rightarrow> False | Some n \<Rightarrow> n > limit)
      then Inl (Bad_Response ''HTTP body exceeds limit'')
      else read_chunks limit [] (hr_chunks response))"

record enhance_client =
  ec_base_url :: string
  ec_session :: query_session

definition trim_end_slash :: "string \<Rightarrow> string" where
  "trim_end_slash s = rev (dropWhile (\<lambda>c. c = CHR ''/'') (rev s))"

definition client_connect ::
  "'s ipir_sp \<Rightarrow> ('k, 'q, 'd) client_sp \<Rightarrow> (bytes \<Rightarrow> bytes) \<Rightarrow> (bytes \<Rightarrow> string) \<Rightarrow> (string \<Rightarrow> bytes option)
     \<Rightarrow> (bytes \<Rightarrow> enhance_session option) \<Rightarrow> (string \<Rightarrow> string + http_response) \<Rightarrow> string \<Rightarrow> client_error + enhance_client" where
  "client_connect ip cl sha256 hex_encode base64_decode parse_session http_get base_url =
     (let base_url = trim_end_slash base_url in
      bindR (map_err Http (http_get (base_url @ ''/v1/enhance/init''))) (\<lambda>response.
      bindR (read_limited response (1024 * 1024)) (\<lambda>body.
      bindR (ok_or Json (parse_session body)) (\<lambda>ses.
      bindR (from_session ip cl sha256 hex_encode base64_decode ses) (\<lambda>qs.
      Inr \<lparr> ec_base_url = base_url, ec_session = qs \<rparr>)))))"

definition client_request ::
  "(string \<Rightarrow> bytes \<Rightarrow> string + http_response) \<Rightarrow> enhance_client \<Rightarrow> 'd prepared_query \<Rightarrow> client_error + bytes" where
  "client_request http_post c query =
     bindR (map_err Http (http_post (ec_base_url c @ ''/v1/enhance/query'') (pq_body query))) (\<lambda>response.
     if \<not> (200 \<le> hr_status response \<and> hr_status response \<le> 299) then Inl (HttpStatus (hr_status response))
     else read_limited response (16 * 1024 * 1024))"

definition client_send ::
  "('k, 'q, 'd) client_sp \<Rightarrow> (string \<Rightarrow> bytes \<Rightarrow> string + http_response) \<Rightarrow> enhance_client \<Rightarrow> 'd prepared_query \<Rightarrow> client_error + bytes" where
  "client_send cl http_post c query =
     bindR (client_request http_post c query) (\<lambda>response. session_decode cl (ec_session c) query response)"

definition query_position ::
  "('k, 'q, 'd) client_sp \<Rightarrow> nat \<Rightarrow> (string \<Rightarrow> bytes \<Rightarrow> string + http_response) \<Rightarrow> enhance_client \<Rightarrow> u64 \<Rightarrow> client_error + bytes" where
  "query_position cl rnd http_post c position =
     bindR (prepare_position cl rnd (ec_session c) position) (\<lambda>(query, slot).
     bindR (client_send cl http_post c query) (\<lambda>row. record_in_row row slot))"

text \<open>The durations it measures are left out.\<close>

definition query_position_with_timing ::
  "('k, 'q, 'd) client_sp \<Rightarrow> nat \<Rightarrow> (string \<Rightarrow> bytes \<Rightarrow> string + http_response) \<Rightarrow> enhance_client \<Rightarrow> u64 \<Rightarrow> client_error + bytes" where
  "query_position_with_timing cl rnd http_post c position =
     bindR (prepare_position cl rnd (ec_session c) position) (\<lambda>(query, slot).
     bindR (client_request http_post c query) (\<lambda>response.
     bindR (session_decode cl (ec_session c) query response) (\<lambda>row. record_in_row row slot)))"

definition query_dummy ::
  "('k, 'q, 'd) client_sp \<Rightarrow> nat \<Rightarrow> nat \<Rightarrow> (string \<Rightarrow> bytes \<Rightarrow> string + http_response) \<Rightarrow> enhance_client \<Rightarrow> client_error + unit" where
  "query_dummy cl rnd draw http_post c =
     bindR (prepare_dummy cl rnd draw (ec_session c)) (\<lambda>query. bindR (client_send cl http_post c query) (\<lambda>_. Inr ()))"

section \<open>An exchange with a serving coordinator\<close>

text \<open>
  What the client relies on of the crates. \<open>query_codec\<close>: the keys and the query of a fresh query are read back by the server.
  \<open>row_decoding\<close>: the packed product of a fresh query for a row and the database of some bytes decodes to that row of bytes.
\<close>

abbreviation switched_len :: "scheme_params \<Rightarrow> nat" where
  "switched_len ypir \<equiv> (sp_db_rows ypir * sp_query_bits ypir + 7) div 8"

definition query_codec :: "'s ipir_sp \<Rightarrow> ('k, 'p, 'r) pack_sp \<Rightarrow> ('k, 'q, 'd) client_sp \<Rightarrow> rlwe_params \<Rightarrow> scheme_params \<Rightarrow> ('q \<Rightarrow> u64 list) \<Rightarrow> bool" where
  "query_codec ip pk cl rlwe ypir coefficients \<longleftrightarrow> (\<forall>rnd st row query keys seed.
     generate_fresh_query cl rlwe ypir rnd st row = (query, keys, seed) \<longrightarrow>
     (\<exists>kb. serialize_packing_keys cl rlwe keys = Inr kb \<and> length kb = packing_keys_len pk rlwe \<and> read_packing_keys pk rlwe kb = Inr keys)
     \<and> length (to_switched_bytes cl query (rlwe_q rlwe) (sp_query_bits ypir)) = switched_len ypir
     \<and> query_from_switched_bytes ip (to_switched_bytes cl query (rlwe_q rlwe) (sp_query_bits ypir)) (sp_db_rows ypir) (rlwe_q rlwe) (sp_query_bits ypir)
         = Inr (coefficients query)
     \<and> length (coefficients query) = sp_db_rows ypir \<and> reduced (rlwe_q rlwe) (coefficients query))"

definition row_decoding ::
  "'s ipir_sp \<Rightarrow> ('k, 'p, 'r) pack_sp \<Rightarrow> ('k, 'q, 'd) client_sp \<Rightarrow> rlwe_params \<Rightarrow> scheme_params \<Rightarrow> ('q \<Rightarrow> u64 list) \<Rightarrow> u64 list list
     \<Rightarrow> u64 list list \<Rightarrow> 'p \<Rightarrow> u16 list \<Rightarrow> nat \<Rightarrow> bytes \<Rightarrow> bool" where
  "row_decoding ip pk cl rlwe ypir coefficients st c1 pre db row_bytes data \<longleftrightarrow> (\<forall>rnd row query keys seed.
     generate_fresh_query cl rlwe ypir rnd st row = (query, keys, seed) \<and> row < sp_db_rows ypir \<longrightarrow>
     (\<exists>packed. pack_intermediate pk rlwe (multiply_query ip (new_auto_kernel ip ypir db False True) rlwe (coefficients query)) keys pre = Inr packed
       \<and> (let body = response_bodies pk packed ypir; decoded = decode_response cl rlwe ypir seed c1 body in
          length body = (sp_db_cols ypir div rlwe_d rlwe) * response_body_len cl (rlwe_d rlwe) (sp_q_prime_1 ypir)
          \<and> (Suc row * row_bytes \<le> length data \<longrightarrow>
               row_bytes \<le> length decoded \<and> take row_bytes decoded = take row_bytes (drop (row * row_bytes) data)))))"

text \<open>A response that carries the reply of a handler, in any number of chunks.\<close>

definition delivers :: "http_response \<Rightarrow> bytes reply \<Rightarrow> bool" where
  "delivers response reply \<longleftrightarrow> (case reply of
       Reply r \<Rightarrow> hr_status response = 200 \<and> (\<forall>n. hr_content_length response = Some n \<longrightarrow> n = length r)
         \<and> (\<exists>cs. hr_chunks response = map Inr cs \<and> concat cs = r)
     | Status s \<Rightarrow> hr_status response = s
     | Dropped \<Rightarrow> False)"

lemma read_chunks_all: "length body + length (concat cs) \<le> limit \<Longrightarrow> read_chunks limit body (map Inr cs) = Inr (body @ concat cs)"
  by (induction cs arbitrary: body) auto

lemma read_limited_delivered: "delivers response (Reply r) \<Longrightarrow> length r \<le> limit \<Longrightarrow> read_limited response limit = Inr r"
  using read_chunks_all [of "[]"] by (auto simp: delivers_def read_limited_def split: option.splits)

lemma read_chunks_limit: "read_chunks limit body cs = Inr r \<Longrightarrow> length body \<le> limit \<Longrightarrow> length r \<le> limit"
  by (induction limit body cs rule: read_chunks.induct) (auto split: if_splits)

lemma read_limited_limit: "read_limited response limit = Inr r \<Longrightarrow> length r \<le> limit"
  by (auto simp: read_limited_def dest: read_chunks_limit split: if_splits)

text \<open>One row, fetched through the coordinator.\<close>

lemma row_exchange:
  assumes served: "served_table ip fl co Enhance generation rlwe lp shards live"
    and codec: "query_codec ip pk cl rlwe (tn_ypir live) coefficients"
    and decoding: "row_decoding ip pk cl rlwe (tn_ypir live) coefficients (qs_setup qs) (qs_published_c1 qs) (tn_preprocessed live)
        (whole_table ip Enhance lp shards (tn_ypir live)) ROW_BYTES (concat shards)"
    and qs: "qs_ypir qs = tn_ypir live" "qs_rlwe qs = rlwe" "qs_epoch qs = tn_public_params_epoch live" "length (qs_epoch qs) = 8"
      "eg_generation (qs_generation qs) = generation"
    and row: "row < length shards * SHARD_ROWS"
  shows "\<exists>query answer. prepare_row cl rnd qs row = Inr query \<and> snd (answer_query ip pk fl Enhance (pq_body query) co) = Inr answer
    \<and> length answer = 16 + (sp_db_cols (tn_ypir live) div rlwe_d rlwe) * response_body_len cl (rlwe_d rlwe) (sp_q_prime_1 (tn_ypir live))
    \<and> session_decode cl qs query answer = Inr (take ROW_BYTES (drop (row * ROW_BYTES) (concat shards)))"
proof -
  let ?y = "tn_ypir live"
  have lay: "dl_shard_rows (db_layout Enhance) = SHARD_ROWS" "dl_shard_bytes (db_layout Enhance) = SHARD_ROWS * ROW_BYTES"
    by (simp_all add: ENHANCE_LAYOUT_def dl_shard_bytes_def dl_row_bytes_def ROW_BYTES_def)
  have R: "sp_db_rows lp = SHARD_ROWS" and rows: "length shards * sp_db_rows lp \<le> sp_db_rows ?y"
    and len: "\<forall>x \<in> set shards. length x = SHARD_ROWS * ROW_BYTES"
    using served unfolding served_table_def lay by blast+
  have small: "row < sp_db_rows ?y" using row R rows by simp
  obtain query keys seed where fresh: "generate_fresh_query cl rlwe ?y rnd (qs_setup qs) row = (query, keys, seed)"
    by (cases "generate_fresh_query cl rlwe ?y rnd (qs_setup qs) row")
  let ?sw = "to_switched_bytes cl query (rlwe_q rlwe) (sp_query_bits ?y)"
  obtain kb where kb: "serialize_packing_keys cl rlwe keys = Inr kb" "length kb = packing_keys_len pk rlwe" "read_packing_keys pk rlwe kb = Inr keys"
    and sw: "length ?sw = switched_len ?y" "query_from_switched_bytes ip ?sw (sp_db_rows ?y) (rlwe_q rlwe) (sp_query_bits ?y) = Inr (coefficients query)"
      "length (coefficients query) = sp_db_rows ?y" "reduced (rlwe_q rlwe) (coefficients query)"
    using codec fresh unfolding query_codec_def by blast
  let ?pq = "\<lparr> pq_row = row, pq_body = u64_le generation @ kb @ ?sw, pq_seed = seed \<rparr>"
  have prep: "prepare_row cl rnd qs row = Inr ?pq"
    using small fresh kb(1) by (simp add: prepare_row_def qs)
  have decode: "decode_query ip pk rlwe ?y (pq_body ?pq) = Inr (keys, coefficients query)"
    using kb sw by (simp add: decode_query_def Let_def deserialize_first_dim_query_def)
  obtain packed where packed: "pack_intermediate pk rlwe (multiply_query ip (new_auto_kernel ip ?y (whole_table ip Enhance lp shards ?y) False True) rlwe
        (coefficients query)) keys (tn_preprocessed live) = Inr packed"
    and body: "length (response_bodies pk packed ?y) = (sp_db_cols ?y div rlwe_d rlwe) * response_body_len cl (rlwe_d rlwe) (sp_q_prime_1 ?y)"
    and decoded: "Suc row * ROW_BYTES \<le> length (concat shards) \<longrightarrow>
        ROW_BYTES \<le> length (decode_response cl rlwe ?y seed (qs_published_c1 qs) (response_bodies pk packed ?y))
        \<and> take ROW_BYTES (decode_response cl rlwe ?y seed (qs_published_c1 qs) (response_bodies pk packed ?y))
          = take ROW_BYTES (drop (row * ROW_BYTES) (concat shards))"
    using decoding fresh small unfolding row_decoding_def Let_def by blast
  let ?answer = "u64_le generation @ tn_public_params_epoch live @ response_bodies pk packed ?y"
  have answer: "snd (answer_query ip pk fl Enhance (pq_body ?pq) co) = Inr ?answer"
    using answer_query_served [OF served _ decode sw(4)] packed by simp
  have "Suc row * ROW_BYTES \<le> length shards * SHARD_ROWS * ROW_BYTES" using row by (intro mult_le_mono1) simp
  then have "Suc row * ROW_BYTES \<le> length (concat shards)" using length_concat_const [OF len] by (simp add: mult.assoc)
  then have "session_decode cl qs ?pq ?answer = Inr (take ROW_BYTES (drop (row * ROW_BYTES) (concat shards)))"
    using decoded body qs by (simp add: session_decode_def Let_def)
  then show ?thesis using prep answer body qs(3,4) by auto
qed

text \<open>Rows of the concatenated shards are rows of one shard, and a record is a slice of its row.\<close>

lemma enhance_geometry:
  "dl_shard_positions ENHANCE_LAYOUT = SHARD_POSITIONS" "dl_records_per_row ENHANCE_LAYOUT = RECORDS_PER_ROW"
  "dl_shard_rows ENHANCE_LAYOUT = SHARD_ROWS" "dl_row_bytes ENHANCE_LAYOUT = ROW_BYTES" "dl_record_bytes ENHANCE_LAYOUT = RECORD_BYTES"
  "dl_shard_bytes ENHANCE_LAYOUT = SHARD_ROWS * ROW_BYTES"
  by (simp_all add: ENHANCE_LAYOUT_def dl_shard_positions_def SHARD_POSITIONS_def dl_row_bytes_def ROW_BYTES_def dl_shard_bytes_def)

lemma record_of_shards:
  assumes ok: "journal_ok (d, j)" "rj_layout j = ENHANCE_LAYOUT" and p: "p < unat (rj_tree_size j)"
    and shards: "\<forall>i < length shards. read_shard_rows (of_nat i) (d, j) = Inr (shards ! i)" "p < length shards * SHARD_POSITIONS"
    and lens: "\<forall>x \<in> set shards. length x = SHARD_ROWS * ROW_BYTES"
  shows "record_in_row (take ROW_BYTES (drop (p div RECORDS_PER_ROW * ROW_BYTES) (concat shards))) (p mod RECORDS_PER_ROW)
      = Inr (journal_records (d, j) ! p)"
proof -
  have pos: "0 < SHARD_POSITIONS" "SHARD_POSITIONS < 2 ^ 64" "0 < SHARD_ROWS" "0 < RECORDS_PER_ROW"
    by (simp_all add: row_geometry)
  let ?row = "p div RECORDS_PER_ROW" and ?i = "p div SHARD_POSITIONS" and ?slot = "p mod RECORDS_PER_ROW"
  have i: "?i < length shards" using shards(2) by (simp add: less_mult_imp_div_less)
  have rec: "take RECORD_BYTES (drop (?row mod SHARD_ROWS * ROW_BYTES + ?slot * RECORD_BYTES) (shards ! ?i)) = journal_records (d, j) ! p"
    using shard_rows_records [OF ok, of p] pos p shards(1) i by (auto simp: enhance_geometry)
  have "?i = ?row div SHARD_ROWS" by (simp add: SHARD_POSITIONS_def div_mult2_eq mult.commute)
  then have "?row * ROW_BYTES = ?i * (SHARD_ROWS * ROW_BYTES) + ?row mod SHARD_ROWS * ROW_BYTES"
    by (metis add_mult_distrib div_mult_mod_eq mult.assoc)
  moreover have "?row mod SHARD_ROWS * ROW_BYTES + ROW_BYTES \<le> SHARD_ROWS * ROW_BYTES"
  proof -
    have "Suc (?row mod SHARD_ROWS) * ROW_BYTES \<le> SHARD_ROWS * ROW_BYTES" using pos(3) by (intro mult_le_mono1) (simp add: Suc_leI)
    then show ?thesis by simp
  qed
  ultimately have row: "take ROW_BYTES (drop (?row * ROW_BYTES) (concat shards)) = take ROW_BYTES (drop (?row mod SHARD_ROWS * ROW_BYTES) (shards ! ?i))"
    and full: "?row mod SHARD_ROWS * ROW_BYTES + ROW_BYTES \<le> length (shards ! ?i)"
    using concat_slice [OF lens i] lens i by simp_all
  have slot: "?slot * RECORD_BYTES + RECORD_BYTES \<le> ROW_BYTES"
  proof -
    have "Suc ?slot * RECORD_BYTES \<le> RECORDS_PER_ROW * RECORD_BYTES" using pos(4) by (intro mult_le_mono1) (simp add: Suc_leI)
    then show ?thesis by (simp add: ROW_BYTES_def mult.commute)
  qed
  have "length (take ROW_BYTES (drop (?row mod SHARD_ROWS * ROW_BYTES) (shards ! ?i))) = ROW_BYTES" using full by simp
  moreover have "take RECORD_BYTES (drop (?slot * RECORD_BYTES) (take ROW_BYTES xs)) = take RECORD_BYTES (drop (?slot * RECORD_BYTES) xs)" for xs :: bytes
    using slot by (simp add: drop_take)
  ultimately show ?thesis
    using rec slot by (simp add: row record_in_row_def Let_def slice_range_def add.commute [of "?slot * RECORD_BYTES"])
qed

text \<open>What an accepted session says of the coverage it was built for.\<close>

lemma session_new_Inr:
  assumes "session_new ip cl sha256 hex_encode g ypir pp = Inr qs"
  shows "qs_generation qs = g" "qs_ypir qs = ypir" "qs_epoch qs = take 8 (sha256 pp)"
    "params_for_simplepir ip (eg_logical_rows g) ITEM_SIZE_BITS = Inr (qs_rlwe qs, ypir)"
    "eg_used_rows g = div_ceil (eg_ironwood_tree_size g) (of_nat RECORDS_PER_ROW)" "eg_used_rows g \<le> eg_logical_rows g"
  using assms by (auto simp: session_new_def Let_def bindR_Inr_iff split: if_splits)

lemma covered_position:
  assumes rows: "eg_used_rows g = div_ceil (eg_ironwood_tree_size g) (of_nat RECORDS_PER_ROW)" "eg_used_rows g \<le> eg_logical_rows g"
    and p: "p < eg_ironwood_tree_size g"
  shows "row_for_position g p = Some (unat p div RECORDS_PER_ROW, unat p mod RECORDS_PER_ROW)"
proof -
  let ?t = "eg_ironwood_tree_size g"
  have nine: "(of_nat RECORDS_PER_ROW :: u64) = 9" "RECORDS_PER_ROW = 9" by (simp_all add: RECORDS_PER_ROW_def)
  have d: "unat (x div 9) = unat x div 9" for x :: u64 by (simp add: unat_div)
  have m: "unat (x mod 9) = unat x mod 9" for x :: u64 by (simp add: unat_mod)
  have "unat p div 9 < unat (div_ceil ?t 9)"
  proof (cases "?t mod 9 = 0")
    case True
    then have "unat ?t mod 9 = 0" using m [of ?t] by simp
    moreover have "unat p < unat ?t" using p by (simp add: word_less_nat_alt)
    ultimately have "unat p div 9 < unat ?t div 9" by (metis dvd_imp_mod_0 dvd_mult_div_cancel less_mult_imp_div_less mod_0_imp_dvd mult.commute)
    then show ?thesis using True by (simp add: div_ceil_def d)
  next
    case False
    have "unat (?t div 9 + 1) = unat ?t div 9 + 1" using unat_u64_lt [of ?t] by (subst unat_add_nowrap) (simp_all add: d)
    moreover have "unat p div 9 \<le> unat ?t div 9" using p by (intro div_le_mono) (simp add: word_less_nat_alt)
    ultimately show ?thesis using False by (simp add: div_ceil_def)
  qed
  then have "p div 9 < eg_logical_rows g"
    using rows by (simp add: nine word_less_nat_alt word_le_nat_alt d)
  then show ?thesis using p by (simp add: row_for_position_def nine Let_def d)
qed

section \<open>Properties\<close>

text \<open>
  C5. A wallet reads its record. A client whose session was accepted from a coordinator that serves the shards of a journal, and
  whose requests reach that coordinator, gets for every position below the advertised tree size exactly the record the journal
  holds there: the session checks, the row and slot of the position, the fixed layout of the query body, the distributed
  evaluation with its replicas, the response header and length checks and the cut of the row fit together, so no error branch
  is taken. The cryptographic crates enter by \<open>query_codec\<close> and \<open>row_decoding\<close> alone.
\<close>

theorem query_position_exact:
  assumes served: "served_table ip fl co Enhance generation rlwe lp shards live"
    and journal: "journal_ok (d, j)" "rj_layout j = ENHANCE_LAYOUT"
      "\<forall>i < length shards. read_shard_rows (of_nat i) (d, j) = Inr (shards ! i)" "unat (rj_tree_size j) \<le> length shards * SHARD_POSITIONS"
    and snapshot: "newest co = Some snapshot" "map_of (gs_tables snapshot) Enhance = Some live"
      "gm_generation (gs_manifest snapshot) = generation" "gm_ironwood_tree_size (gs_manifest snapshot) = rj_tree_size j"
      "tn_public_params_epoch live = take 8 (sha256 (tn_public_params live))"
    and coding: "\<forall>x. length (sha256 x) = 32" "\<forall>x. base64_decode (base64_encode x) = Some x"
    and ses: "session base64_encode co = Some (g, ypir, b64)"
      "from_session ip cl sha256 hex_encode base64_decode \<lparr> es_generation = g, es_params = ypir, es_public_params_base64 = b64 \<rparr> = Inr (ec_session c)"
      "params_for_simplepir ip (eg_logical_rows g) ITEM_SIZE_BITS = Inr (rlwe, ypir)"
    and codec: "query_codec ip pk cl rlwe ypir coefficients"
    and decoding: "row_decoding ip pk cl rlwe ypir coefficients (qs_setup (ec_session c)) (qs_published_c1 (ec_session c)) (tn_preprocessed live)
        (whole_table ip Enhance lp shards ypir) ROW_BYTES (concat shards)"
    and http: "\<forall>body. \<exists>response. http_post (ec_base_url c @ ''/v1/enhance/query'') body = Inr response
        \<and> delivers response (snd (answer_handler ip pk fl True Enhance body co))"
    and limit: "16 + (sp_db_cols ypir div rlwe_d rlwe) * response_body_len cl (rlwe_d rlwe) (sp_q_prime_1 ypir) \<le> 16 * 1024 * 1024"
    and p: "position < rj_tree_size j"
  shows "query_position cl rnd http_post c position = Inr (journal_records (d, j) ! unat position)"
proof -
  let ?qs = "ec_session c" and ?row = "unat position div RECORDS_PER_ROW" and ?slot = "unat position mod RECORDS_PER_ROW"
  have g: "gm_public (gs_manifest snapshot) = Some g" "ypir = tn_ypir live" "b64 = base64_encode (tn_public_params live)"
    using ses(1) snapshot(1,2) by (auto simp: session_def split: option.splits)
  then have gf: "eg_generation g = generation" "eg_ironwood_tree_size g = rj_tree_size j"
    using snapshot(3,4) by (auto simp: gm_public_def)
  have new: "session_new ip cl sha256 hex_encode g ypir (tn_public_params live) = Inr ?qs"
    using ses(2) coding(2) g(3) by (simp add: from_session_def)
  note qs = session_new_Inr [OF new]
  have epoch: "qs_epoch ?qs = tn_public_params_epoch live" "length (qs_epoch ?qs) = 8"
    using qs(3) snapshot(5) coding(1) by simp_all
  have lens: "\<forall>x \<in> set shards. length x = SHARD_ROWS * ROW_BYTES"
    using served by (simp add: served_table_def enhance_geometry)
  have pu: "unat position < unat (rj_tree_size j)" using p by (simp add: word_less_nat_alt)
  then have cover: "unat position < length shards * SHARD_POSITIONS" using journal(4) by linarith
  then have row: "?row < length shards * SHARD_ROWS"
    by (intro less_mult_imp_div_less) (simp add: SHARD_POSITIONS_def mult.assoc)
  have rl: "qs_rlwe ?qs = rlwe" using qs(4) ses(3) by simp
  obtain query answer where q: "prepare_row cl rnd ?qs ?row = Inr query" "snd (answer_query ip pk fl Enhance (pq_body query) co) = Inr answer"
      "length answer = 16 + (sp_db_cols ypir div rlwe_d rlwe) * response_body_len cl (rlwe_d rlwe) (sp_q_prime_1 ypir)"
      "session_decode cl ?qs query answer = Inr (take ROW_BYTES (drop (?row * ROW_BYTES) (concat shards)))"
    using row_exchange [OF served codec [unfolded g(2)] decoding [unfolded g(2)] _ rl epoch _ row, of rnd] qs(1,2) gf(1) g(2) by auto
  have "snd (answer_handler ip pk fl True Enhance (pq_body query) co) = Reply answer"
    using q(2) served by (cases "answer_query ip pk fl Enhance (pq_body query) co") (auto simp: answer_handler_def served_table_def)
  then obtain response where response: "http_post (ec_base_url c @ ''/v1/enhance/query'') (pq_body query) = Inr response" "delivers response (Reply answer)"
    using http by metis
  have "client_send cl http_post c query = Inr (take ROW_BYTES (drop (?row * ROW_BYTES) (concat shards)))"
    using response read_limited_delivered [OF response(2), of "16 * 1024 * 1024"] limit q(3,4)
    by (auto simp: client_send_def client_request_def delivers_def)
  moreover have "prepare_position cl rnd ?qs position = Inr (query, ?slot)"
    using covered_position [OF qs(5,6), of position] p gf(2) q(1) qs(1) by (simp add: prepare_position_def)
  ultimately show ?thesis
    using record_of_shards [OF journal(1,2) pu journal(3) cover lens] by (simp add: query_position_def)
qed

text \<open>
  A concrete deployment: one full shard of a journal whose bytes are all 7, served by the worker of the previous section, and a
  crate whose packed answer is the product itself, decoded by repeating its first byte.
\<close>

definition sample_digest :: "bytes \<Rightarrow> bytes" where "sample_digest x = replicate 32 0"
definition sample_hex :: "bytes \<Rightarrow> string" where "sample_hex x = ''00''"
definition sample_base64 :: "bytes \<Rightarrow> string" where "sample_base64 bs = map (\<lambda>b. char_of (unat b)) bs"
definition sample_unbase64 :: "string \<Rightarrow> bytes option" where "sample_unbase64 s = Some (map (\<lambda>c. of_nat (of_char c)) s)"

definition tiny_client :: "(unit, unit, unit) client_sp" where
  "tiny_client = \<lparr> published_c1_len = (\<lambda>_ _. 0), recover_published_c1 = (\<lambda>_ _ _ _. []), generate_fresh_query = (\<lambda>_ _ _ _ _. ((), (), ())),
     serialize_packing_keys = (\<lambda>_ _. Inr []), to_switched_bytes = (\<lambda>_ _ _. []), response_body_len = (\<lambda>_ _. 8),
     decode_response = (\<lambda>_ _ _ _ body. replicate ROW_BYTES (hd body)) \<rparr>"

definition wallet_live :: "crs_block list table_snapshot" where
  "wallet_live = full_live \<lparr> tn_manifest := table_manifest_of sample_digest sample_hex tiny_source tiny_rlwe full_scheme 8192 8192 []
     [describe_shard tiny_source 0 ''7'' ''g''] \<rparr>"

definition wallet_snapshot :: "crs_block list generation_snapshot" where
  "wallet_snapshot = \<lparr> gs_manifest = \<lparr> gm_anchor_height = 5, gm_anchor_block_hash = [], gm_ironwood_tree_size = 73728, gm_generation = 5,
     gm_tables = (\<lambda>_. Some (tn_manifest wallet_live)) \<rparr>, gs_tables = [(Enhance, wallet_live)] \<rparr>"

definition wallet_co :: "crs_block list coordinator_state" where
  "wallet_co = full_co \<lparr> co_live := [wallet_snapshot] \<rparr>"

definition wallet_manifest :: store_manifest where
  "wallet_manifest = \<lparr> mf_version = JOURNAL_VERSION, mf_table = ''enhance'', mf_tree_size = 73728,
     mf_blocks = [\<lparr> bl_height = 1, bl_hash = [], bl_first_position = 0, bl_action_count = 73728 \<rparr>] \<rparr>"

definition wallet_journal :: journal where
  "wallet_journal = (\<lparr> records_bin = Some (full_shard 7), manifest_json = Manifest_Found wallet_manifest \<rparr>,
     \<lparr> rj_name = ''enhance'', rj_table = Some Enhance, rj_layout = ENHANCE_LAYOUT, rj_manifest = wallet_manifest \<rparr>)"

definition wallet_post :: "string \<Rightarrow> bytes \<Rightarrow> string + http_response" where
  "wallet_post url body = (case snd (answer_handler full_ipir tiny_pack full_fleet True Enhance body wallet_co) of
     Reply r \<Rightarrow> Inr \<lparr> hr_status = 200, hr_content_length = None, hr_chunks = [Inr r] \<rparr>
   | Status s \<Rightarrow> Inr \<lparr> hr_status = s, hr_content_length = None, hr_chunks = [] \<rparr>
   | Dropped \<Rightarrow> Inl ''connection closed'')"

lemma sample_base64_decodes: "sample_unbase64 (sample_base64 x) = Some x"
proof -
  have "of_nat (of_char (char_of (unat b))) = b" for b :: u8 using unat_u8_lt [of b] by simp
  then show ?thesis by (simp add: sample_unbase64_def sample_base64_def comp_def)
qed

lemma wallet_journal_ok: "journal_ok wallet_journal" "read_shard_rows 0 wallet_journal = Inr (full_shard 7)"
proof -
  have len: "length (full_shard 7) = 73728 * 725" by (simp add: full_shard_def enhance_geometry row_geometry)
  show ok: "journal_ok wallet_journal"
    using len by (simp add: journal_ok_def wallet_journal_def wallet_manifest_def total_actions_def enhance_geometry RECORD_BYTES_def)
  have sp: "dl_shard_positions (rj_layout (snd wallet_journal)) = 73728" "record_width (snd wallet_journal) = 725"
      "rj_tree_size (snd wallet_journal) = 73728" "records_bin (fst wallet_journal) = Some (full_shard 7)"
    by (simp_all add: wallet_journal_def enhance_geometry row_geometry wallet_manifest_def)
  then show "read_shard_rows 0 wallet_journal = Inr (full_shard 7)"
    using read_shard_rows_eq [of "fst wallet_journal" "snd wallet_journal" 0] ok len by (simp add: shard_available_def)
qed

lemma wallet_served: "served_table full_ipir full_fleet wallet_co Enhance 5 tiny_rlwe full_scheme [full_shard 7] wallet_live"
proof -
  have same: "tm_shards (tn_manifest wallet_live) = tm_shards (tn_manifest full_live)" "tn_ready_groups wallet_live = tn_ready_groups full_live"
      "tn_ypir wallet_live = full_scheme"
    by (simp_all add: wallet_live_def full_live_def table_manifest_of_def Let_def)
  have "linear_kernel full_ipir"
    using table_ipir_laws(1) by (simp add: linear_kernel_def full_ipir_def tiny_ipir_def)
  moreover have "shard_parameters full_ipir (db_layout Enhance) = Inr (tiny_rlwe, full_scheme)" "sp_db_rows full_scheme = dl_shard_rows (db_layout Enhance)"
    by (simp_all add: shard_parameters_def full_ipir_def full_scheme_def ENHANCE_LAYOUT_def row_geometry)
  moreover have "map_of (co_tables wallet_co) Enhance = Some \<lparr> st_setup = \<lparr> ts_table = Enhance, ts_groups = [tiny_group] \<rparr>, st_rlwe = tiny_rlwe,
      st_hint_cache = [], st_query_slots = 2 \<rparr>" by (simp add: wallet_co_def full_co_def tiny_co_def)
  moreover have "find_generation wallet_co 5 = Some wallet_snapshot" "map_of (gs_tables wallet_snapshot) Enhance = Some wallet_live"
    by (simp_all add: wallet_co_def find_generation_def wallet_snapshot_def)
  moreover have "published_ok full_ipir full_fleet Enhance 5 tiny_rlwe full_scheme
     (\<lambda>i. row_plaintexts full_ipir ([full_shard 7] ! unat i) (dl_row_bytes (db_layout Enhance)) (sp_db_rows full_scheme)
        (sp_db_cols full_scheme) (trailing_zeros (sp_p full_scheme))) (length [full_shard 7]) wallet_live"
    using full_published unfolding published_ok_def same by blast
  ultimately show ?thesis
    by (simp add: served_table_def same(3)) (simp add: full_scheme_def full_shard_def)
qed

lemma wallet_decoding:
  "row_decoding full_ipir tiny_pack tiny_client tiny_rlwe full_scheme (\<lambda>_. unit_query 8192) st c1 pre
     (whole_table full_ipir Enhance full_scheme [full_shard 7] full_scheme) ROW_BYTES (concat [full_shard 7])"
proof -
  let ?db = "whole_table full_ipir Enhance full_scheme [full_shard 7] full_scheme"
  let ?v = "multiply_query full_ipir (new_auto_kernel full_ipir full_scheme ?db False True) tiny_rlwe (unit_query 8192)"
  have cols: "sp_db_cols full_scheme = 1" "sp_db_rows full_scheme = 8192" by (simp_all add: full_scheme_def)
  have bits: "trailing_zeros (sp_p full_scheme) = 8" by (simp add: full_scheme_def) code_simp
  have "?db ! 0 = row_plaintext full_ipir (full_shard 7) ROW_BYTES 1 8 0"
    by (simp add: whole_table_def padded_plaintexts_def cols bits row_plaintexts_def nth_append enhance_geometry)
  also have "\<dots> = 7"
  proof -
    have "0 < ROW_BYTES" "0 < length (full_shard 7)" by (simp_all add: row_geometry full_shard_def enhance_geometry)
    then show ?thesis
      by (simp add: row_plaintext_def Let_def full_ipir_def tiny_ipir_def table_ipir_def slice_range_def full_shard_def min_def)
  qed
  finally have db0: "?db ! 0 = 7" .
  have "(\<Sum>r \<in> {..<8192}. unat (unit_query 8192 ! r) * unat (?db ! r)) = (\<Sum>r \<in> {..<8192 :: nat}. if r = 0 then 7 else 0)"
    by (rule sum.cong) (auto simp: unit_query_def db0)
  then have "?v = [7]"
    by (simp add: full_ipir_def tiny_ipir_def table_ipir_def mat_vec_def cols unit_query_def atLeast0LessThan)
  moreover have "take ROW_BYTES (drop (row * ROW_BYTES) (full_shard 7)) = replicate ROW_BYTES 7" if "Suc row * ROW_BYTES \<le> length (full_shard 7)" for row
    using that by (simp add: full_shard_def min_def)
  moreover have "hd (le_bytes 8 7) = 7" by code_simp
  ultimately show ?thesis
    by (auto simp: row_decoding_def tiny_client_def tiny_pack_def Let_def cols u64s_le_def)
qed

definition wallet_generation :: enhance_generation where
  "wallet_generation = the (gm_public (gs_manifest wallet_snapshot))"

definition wallet_session :: query_session where
  "wallet_session = \<lparr> qs_generation = wallet_generation, qs_ypir = full_scheme, qs_rlwe = tiny_rlwe, qs_setup = many_polys,
     qs_published_c1 = [], qs_epoch = take 8 (sample_digest []) \<rparr>"

lemma wallet_connects:
  "session sample_base64 wallet_co = Some (wallet_generation, full_scheme, [])"
  "from_session full_ipir tiny_client sample_digest sample_hex sample_unbase64
     \<lparr> es_generation = wallet_generation, es_params = full_scheme, es_public_params_base64 = [] \<rparr> = Inr wallet_session"
proof -
  show "session sample_base64 wallet_co = Some (wallet_generation, full_scheme, [])"
    by (simp add: session_def newest_def wallet_co_def wallet_snapshot_def wallet_generation_def gm_public_def wallet_live_def full_live_def
        sample_base64_def)
  have g: "wallet_generation = \<lparr> eg_schema_version = SCHEMA_VERSION, eg_protocol_revision = PROTOCOL_REVISION, eg_network = PIR_NETWORK,
      eg_pool = POOL, eg_anchor_height = 5, eg_anchor_block_hash = [], eg_ironwood_tree_size = 73728, eg_generation = 5,
      eg_record_bytes = 725, eg_records_per_row = 9, eg_row_bytes = 6525, eg_shard_rows = 8192, eg_used_rows = 8192,
      eg_logical_rows = 8192, eg_parameter_id = parameter_id Enhance tiny_rlwe full_scheme, eg_setup_seed = ENHANCE_SETUP_SEED,
      eg_public_params_epoch = ''00'', eg_public_params_sha256 = ''00'', eg_shards = [describe_shard tiny_source 0 ''7'' ''g''] \<rparr>"
    by (simp add: wallet_generation_def wallet_snapshot_def gm_public_def wallet_live_def table_manifest_of_def Let_def sample_hex_def
        tiny_source_def enhance_geometry row_geometry)
  have "div_ceil (73728 :: u64) 9 = 8192" by (simp add: div_ceil_def)
  moreover have "is_power_of_two 8192" using is_power_of_two_iff [of 8192] by (auto intro: exI [of _ 13])
  ultimately show "from_session full_ipir tiny_client sample_digest sample_hex sample_unbase64
     \<lparr> es_generation = wallet_generation, es_params = full_scheme, es_public_params_base64 = [] \<rparr> = Inr wallet_session"
    unfolding from_session_def session_new_def wallet_session_def
    by (simp add: g sample_unbase64_def row_geometry full_ipir_def tiny_ipir_def table_ipir_def sample_hex_def tiny_client_def Let_def)
qed

theorem query_position_exact_witness:
  "query_position tiny_client 0 wallet_post \<lparr> ec_base_url = ''http://a'', ec_session = wallet_session \<rparr> 70000
     = Inr (journal_records wallet_journal ! 70000)"
proof -
  let ?c = "\<lparr> ec_base_url = ''http://a'', ec_session = wallet_session \<rparr>"
  obtain d j where dj: "wallet_journal = (d, j)" by (cases wallet_journal)
  have j: "rj_layout j = ENHANCE_LAYOUT" "rj_tree_size j = 73728"
    using arg_cong [OF dj, of snd] by (auto simp: wallet_journal_def wallet_manifest_def)
  have journal: "journal_ok (d, j)" "\<forall>i < length [full_shard 7]. read_shard_rows (of_nat i) (d, j) = Inr ([full_shard 7] ! i)"
      "unat (rj_tree_size j) \<le> length [full_shard 7] * SHARD_POSITIONS"
    using wallet_journal_ok j(2) by (simp_all add: dj row_geometry)
  have snap: "newest wallet_co = Some wallet_snapshot" "map_of (gs_tables wallet_snapshot) Enhance = Some wallet_live"
      "gm_generation (gs_manifest wallet_snapshot) = 5" "gm_ironwood_tree_size (gs_manifest wallet_snapshot) = rj_tree_size j"
      "tn_public_params_epoch wallet_live = take 8 (sample_digest (tn_public_params wallet_live))"
    by (simp_all add: newest_def wallet_co_def wallet_snapshot_def wallet_live_def full_live_def sample_digest_def j(2))
  have coding: "\<forall>x. length (sample_digest x) = 32" "\<forall>x. sample_unbase64 (sample_base64 x) = Some x"
    by (simp_all add: sample_digest_def sample_base64_decodes)
  have ses: "from_session full_ipir tiny_client sample_digest sample_hex sample_unbase64
      \<lparr> es_generation = wallet_generation, es_params = full_scheme, es_public_params_base64 = [] \<rparr> = Inr (ec_session ?c)"
    by (simp add: wallet_connects(2))
  have params: "params_for_simplepir full_ipir (eg_logical_rows wallet_generation) ITEM_SIZE_BITS = Inr (tiny_rlwe, full_scheme)"
    by (simp add: full_ipir_def)
  have codec: "query_codec full_ipir tiny_pack tiny_client tiny_rlwe full_scheme (\<lambda>_. unit_query 8192)"
    by (simp add: query_codec_def tiny_client_def tiny_pack_def full_ipir_def full_scheme_def unit_query_def reduced_def)
  have http: "\<forall>body. \<exists>response. wallet_post (ec_base_url ?c @ ''/v1/enhance/query'') body = Inr response
      \<and> delivers response (snd (answer_handler full_ipir tiny_pack full_fleet True Enhance body wallet_co))"
    by (auto simp: wallet_post_def answer_handler_def delivers_def split: prod.splits sum.splits intro!: exI [of _ "[_]"])
  have limit: "16 + (sp_db_cols full_scheme div rlwe_d tiny_rlwe) * response_body_len tiny_client (rlwe_d tiny_rlwe) (sp_q_prime_1 full_scheme)
      \<le> 16 * 1024 * 1024"
    by (simp add: full_scheme_def tiny_client_def)
  have "(70000 :: u64) < rj_tree_size j" by (simp add: j(2))
  from query_position_exact [where ?sha256.0 = sample_digest and base64_decode = sample_unbase64 and base64_encode = sample_base64
      and http_post = wallet_post and coefficients = "\<lambda>_. unit_query 8192", OF wallet_served journal(1) j(1) journal(2,3) snap coding wallet_connects(1) ses params codec wallet_decoding http limit this, of 0]
  show ?thesis by (simp add: dj)
qed

end
