(* ===== verification/Spend_Client.thy ===== *)
theory Spend_Client
  imports Spend_Tables Pir_Client
begin

text \<open>
  The wallet side of the transparent-spend lookup, \<open>pir/transparent-spend/src/client.rs\<close>, and the session the coordinator
  advertises for it (\<open>transparent_spend_session\<close> in \<open>coordinator.rs\<close>): two tables of one snapshot, a query to each, and the
  scan of both buckets.

  The crates and the HTTP library are parameters as in \<open>Pir_Client\<close>. The two requests of a lookup run concurrently;
  \<open>try_join\<close> fails when either fails, with the first error to arrive, which the model takes to be the cold one.
\<close>

section \<open>One table\<close>

datatype spend_client_error =
    Spend_Http string
  | Spend_Json
  | Spend_Base64
  | Spend_Session string
  | Spend_Pir string
  | Spend_Response string
  | Spend_Client_Panic

record table_client =
  tc_generation :: spend_generation
  tc_params :: scheme_params
  tc_rlwe :: rlwe_params
  tc_setup :: "u64 list list"
  tc_published_c1 :: "u64 list list"
  tc_epoch :: bytes

record 'd spend_query =
  pr_body :: bytes
  pr_seed :: 'd

definition table_client_new ::
  "'s ipir_sp \<Rightarrow> ('k, 'q, 'd) client_sp \<Rightarrow> (bytes \<Rightarrow> bytes) \<Rightarrow> (bytes \<Rightarrow> string) \<Rightarrow> (string \<Rightarrow> bytes option)
     \<Rightarrow> scheme_params spend_table_session \<Rightarrow> u64 \<Rightarrow> spend_client_error + table_client" where
  "table_client_new ip cl sha256 hex_encode base64_decode sess expected_seed =
     (let generation = sts_generation sess; params = sts_params sess in
      if sg_schema_version generation \<noteq> SPEND_SCHEMA_VERSION \<or> sg_protocol_revision generation \<noteq> SPEND_PROTOCOL_REVISION
         \<or> sg_network generation \<noteq> SPEND_NETWORK \<or> unat (sg_row_bytes generation) \<noteq> SPEND_ROW_BYTES
         \<or> unat (sg_shard_rows generation) \<noteq> SPEND_SHARD_ROWS \<or> sg_buckets generation \<noteq> sg_logical_rows generation
         \<or> \<not> is_power_of_two (unat (sg_logical_rows generation)) \<or> sg_logical_rows generation < of_nat SPEND_SHARD_ROWS
         \<or> sg_setup_seed generation \<noteq> expected_seed
      then Inl (Spend_Session ''invalid table metadata'')
      else bindR (map_err (\<lambda>_. Spend_Pir ''parameters'') (params_for_simplepir ip (sg_logical_rows generation) SPEND_ITEM_SIZE_BITS))
        (\<lambda>(rlwe, expected_params).
        if params \<noteq> expected_params then Inl (Spend_Session ''unexpected PIR parameters'')
        else bindR (ok_or Spend_Base64 (base64_decode (sts_public_params_base64 sess))) (\<lambda>public_params.
          let digest = sha256 public_params in
          if hex_encode digest \<noteq> sg_public_params_sha256 generation then Inl (Spend_Session ''public parameter digest mismatch'')
          else let epoch = take 8 digest in
            if hex_encode epoch \<noteq> sg_public_params_epoch generation then Inl (Spend_Session ''public parameter epoch mismatch'')
            else let blocks = sp_db_cols params div rlwe_d rlwe in
              if length public_params \<noteq> blocks * published_c1_len cl (rlwe_d rlwe) (rlwe_q rlwe)
              then Inl (Spend_Session ''public parameter length mismatch'')
              else Inr \<lparr> tc_generation = generation, tc_params = params, tc_rlwe = rlwe,
                         tc_setup = public_query_setup ip rlwe params (seed_bytes expected_seed),
                         tc_published_c1 = recover_published_c1 cl public_params (rlwe_d rlwe) blocks (rlwe_q rlwe),
                         tc_epoch = epoch \<rparr>)))"

definition tc_prepare :: "('k, 'q, 'd) client_sp \<Rightarrow> nat \<Rightarrow> table_client \<Rightarrow> nat \<Rightarrow> spend_client_error + 'd spend_query" where
  "tc_prepare cl rnd tc row =
     (if row \<ge> sp_db_rows (tc_params tc) then Inl (Spend_Session ''bucket outside table'')
      else case generate_fresh_query cl (tc_rlwe tc) (tc_params tc) rnd (tc_setup tc) row of (query, packing_keys, seed) \<Rightarrow>
        bindR (map_err (\<lambda>_. Spend_Pir ''packing keys'') (serialize_packing_keys cl (tc_rlwe tc) packing_keys)) (\<lambda>keys.
        Inr \<lparr> pr_body = u64_le (sg_generation (tc_generation tc)) @ keys
                @ to_switched_bytes cl query (rlwe_q (tc_rlwe tc)) (sp_query_bits (tc_params tc)),
              pr_seed = seed \<rparr>))"

definition tc_prepare_dummy :: "('k, 'q, 'd) client_sp \<Rightarrow> nat \<Rightarrow> nat \<Rightarrow> table_client \<Rightarrow> spend_client_error + 'd spend_query" where
  "tc_prepare_dummy cl rnd draw tc =
     (if sp_db_rows (tc_params tc) = 0 then Inl Spend_Client_Panic else tc_prepare cl rnd tc (draw mod sp_db_rows (tc_params tc)))"

definition tc_decode :: "('k, 'q, 'd) client_sp \<Rightarrow> table_client \<Rightarrow> 'd spend_query \<Rightarrow> bytes \<Rightarrow> spend_client_error + bytes" where
  "tc_decode cl tc query response =
     (if length response < 8 \<or> take 8 response \<noteq> u64_le (sg_generation (tc_generation tc))
      then Inl (Spend_Response ''generation mismatch'')
      else if length response < 16 \<or> take 8 (drop 8 response) \<noteq> tc_epoch tc then Inl (Spend_Response ''parameter epoch mismatch'')
      else let expected = (sp_db_cols (tc_params tc) div rlwe_d (tc_rlwe tc)) * response_body_len cl (rlwe_d (tc_rlwe tc)) (sp_q_prime_1 (tc_params tc))
        in if length response \<noteq> 16 + expected then Inl (Spend_Response ''response length mismatch'')
           else let decoded = decode_response cl (tc_rlwe tc) (tc_params tc) (pr_seed query) (tc_published_c1 tc) (drop 16 response)
             in if length decoded < SPEND_ROW_BYTES then Inl (Spend_Response ''decoded row is too short'') else Inr (take SPEND_ROW_BYTES decoded))"

section \<open>The client\<close>

record spend_client =
  sc_base_url :: string
  sc_session :: "scheme_params spend_session"
  sc_cold :: table_client
  sc_warm :: table_client

text \<open>A body read whole, as \<open>bytes()\<close> does, and then compared with the limit.\<close>

fun whole_body :: "(string + bytes) list \<Rightarrow> string + bytes" where
  "whole_body [] = Inr []"
| "whole_body (Inl e # rest) = Inl e"
| "whole_body (Inr chunk # rest) = bindR (whole_body rest) (\<lambda>body. Inr (chunk @ body))"

definition read_body :: "nat \<Rightarrow> string \<Rightarrow> http_response \<Rightarrow> spend_client_error + bytes" where
  "read_body limit message response =
     (if 400 \<le> hr_status response \<and> hr_status response \<le> 599 then Inl (Spend_Http ''status'')
      else bindR (map_err Spend_Http (whole_body (hr_chunks response))) (\<lambda>bytes.
      if length bytes > limit then Inl (Spend_Response message) else Inr bytes))"

definition same_snapshot :: "'y spend_session \<Rightarrow> spend_generation \<Rightarrow> bool" where
  "same_snapshot sess table \<longleftrightarrow> \<not> (sg_tip_height table \<noteq> ss_tip_height sess \<or> sg_tip_block_hash table \<noteq> ss_tip_block_hash sess
     \<or> sg_generation table \<noteq> ss_generation sess \<or> sg_cold_end_height table \<noteq> ss_cold_end_height sess
     \<or> sg_ironwood_tree_size table \<noteq> ss_ironwood_tree_size sess)"

definition spend_connect ::
  "'s ipir_sp \<Rightarrow> ('k, 'q, 'd) client_sp \<Rightarrow> (bytes \<Rightarrow> bytes) \<Rightarrow> (bytes \<Rightarrow> string) \<Rightarrow> (string \<Rightarrow> bytes option)
     \<Rightarrow> (bytes \<Rightarrow> scheme_params spend_session option) \<Rightarrow> (string \<Rightarrow> string + http_response) \<Rightarrow> string \<Rightarrow> spend_client_error + spend_client" where
  "spend_connect ip cl sha256 hex_encode base64_decode parse_session http_get base_url =
     (let base_url = trim_end_slash base_url in
      bindR (map_err Spend_Http (http_get (base_url @ ''/v1/transparent-spend/init''))) (\<lambda>response.
      bindR (read_body (2 * 1024 * 1024) ''session body is too large'' response) (\<lambda>bytes.
      bindR (ok_or Spend_Json (parse_session bytes)) (\<lambda>sess.
      if \<not> same_snapshot sess (sts_generation (ss_cold sess)) \<or> \<not> same_snapshot sess (sts_generation (ss_warm sess))
      then Inl (Spend_Session ''table/session identity mismatch'')
      else bindR (table_client_new ip cl sha256 hex_encode base64_decode (ss_cold sess) COLD_SETUP_SEED) (\<lambda>cold.
           bindR (table_client_new ip cl sha256 hex_encode base64_decode (ss_warm sess) WARM_SETUP_SEED) (\<lambda>warm.
           Inr \<lparr> sc_base_url = base_url, sc_session = sess, sc_cold = cold, sc_warm = warm \<rparr>))))))"

definition spend_request ::
  "(string \<Rightarrow> bytes \<Rightarrow> string + http_response) \<Rightarrow> spend_client \<Rightarrow> string \<Rightarrow> bytes \<Rightarrow> spend_client_error + bytes" where
  "spend_request http_post c tier body =
     bindR (map_err Spend_Http (http_post (sc_base_url c @ ''/v1/transparent-spend/'' @ tier @ ''/query'') body)) (\<lambda>response.
     read_body (16 * 1024 * 1024) ''response body is too large'' response)"

definition combine_tiers :: "u64 \<Rightarrow> spend_entry option \<Rightarrow> spend_entry option \<Rightarrow> spend_client_error + spend_lookup" where
  "combine_tiers tip_height cold warm =
     (case (cold, warm) of
        (Some _, Some _) \<Rightarrow> Inl (Spend_Response ''spend appears in both tiers'')
      | (Some entry, None) \<Rightarrow> Inr (Spent entry)
      | (None, Some entry) \<Rightarrow> Inr (Spent entry)
      | (None, None) \<Rightarrow> Inr (Unspent tip_height))"

definition spend_lookup_outpoint ::
  "('k, 'q, 'd) client_sp \<Rightarrow> (bytes \<Rightarrow> bytes) \<Rightarrow> nat \<times> nat \<Rightarrow> (string \<Rightarrow> bytes \<Rightarrow> string + http_response) \<Rightarrow> spend_client \<Rightarrow> bytes \<Rightarrow> u32
     \<Rightarrow> spend_client_error + spend_lookup" where
  "spend_lookup_outpoint cl sha256 rnd http_post c txid index =
     bindR (ok_or (Spend_Session ''invalid cold bucket count'') (bucket_for_outpoint sha256 txid index (sp_db_rows (tc_params (sc_cold c))))) (\<lambda>cold_bucket.
     bindR (ok_or (Spend_Session ''invalid warm bucket count'') (bucket_for_outpoint sha256 txid index (sp_db_rows (tc_params (sc_warm c))))) (\<lambda>warm_bucket.
     bindR (tc_prepare cl (fst rnd) (sc_cold c) cold_bucket) (\<lambda>cold_query.
     bindR (tc_prepare cl (snd rnd) (sc_warm c) warm_bucket) (\<lambda>warm_query.
     bindR (spend_request http_post c ''cold'' (pr_body cold_query)) (\<lambda>cold_response.
     bindR (spend_request http_post c ''warm'' (pr_body warm_query)) (\<lambda>warm_response.
     bindR (tc_decode cl (sc_cold c) cold_query cold_response) (\<lambda>cold_row.
     bindR (tc_decode cl (sc_warm c) warm_query warm_response) (\<lambda>warm_row.
     bindR (map_err Spend_Response (scan_bucket cold_row txid index)) (\<lambda>cold.
     bindR (map_err Spend_Response (scan_bucket warm_row txid index)) (\<lambda>warm.
     combine_tiers (ss_tip_height (sc_session c)) cold warm))))))))))"

definition spend_query_dummy ::
  "('k, 'q, 'd) client_sp \<Rightarrow> nat \<times> nat \<Rightarrow> nat \<times> nat \<Rightarrow> (string \<Rightarrow> bytes \<Rightarrow> string + http_response) \<Rightarrow> spend_client \<Rightarrow> spend_client_error + unit" where
  "spend_query_dummy cl rnd draw http_post c =
     bindR (tc_prepare_dummy cl (fst rnd) (fst draw) (sc_cold c)) (\<lambda>cold.
     bindR (tc_prepare_dummy cl (snd rnd) (snd draw) (sc_warm c)) (\<lambda>warm.
     bindR (spend_request http_post c ''cold'' (pr_body cold)) (\<lambda>cold_response.
     bindR (spend_request http_post c ''warm'' (pr_body warm)) (\<lambda>warm_response.
     bindR (tc_decode cl (sc_cold c) cold cold_response) (\<lambda>_.
     bindR (tc_decode cl (sc_warm c) warm warm_response) (\<lambda>_. Inr ()))))))"

section \<open>The advertised session\<close>

definition spend_table_session_of ::
  "(bytes \<Rightarrow> string) \<Rightarrow> 'p generation_snapshot \<Rightarrow> u64 \<Rightarrow> database_id \<Rightarrow> scheme_params spend_table_session option" where
  "spend_table_session_of base64 snapshot cold_end_height database =
     (case map_of (gs_tables snapshot) database of None \<Rightarrow> None
      | Some table \<Rightarrow>
        let manifest = tn_manifest table; gm = gs_manifest snapshot in
        Some \<lparr> sts_generation = \<lparr> sg_schema_version = SPEND_SCHEMA_VERSION, sg_protocol_revision = SPEND_PROTOCOL_REVISION,
                 sg_network = SPEND_NETWORK, sg_tip_height = gm_anchor_height gm, sg_tip_block_hash = gm_anchor_block_hash gm,
                 sg_ironwood_tree_size = gm_ironwood_tree_size gm, sg_generation = gm_generation gm, sg_cold_end_height = cold_end_height,
                 sg_buckets = tm_positions manifest, sg_row_bytes = tm_row_bytes manifest, sg_shard_rows = tm_shard_rows manifest,
                 sg_logical_rows = tm_logical_rows manifest, sg_parameter_id = tm_parameter_id manifest, sg_setup_seed = tm_setup_seed manifest,
                 sg_public_params_epoch = tm_public_params_epoch manifest, sg_public_params_sha256 = tm_public_params_sha256 manifest,
                 sg_shards = tm_shards manifest \<rparr>,
               sts_params = tn_ypir table, sts_public_params_base64 = base64 (tn_public_params table) \<rparr>)"

definition transparent_spend_session :: "(bytes \<Rightarrow> string) \<Rightarrow> 'p coordinator_state \<Rightarrow> scheme_params spend_session option" where
  "transparent_spend_session base64 co =
     (case newest co of None \<Rightarrow> None
      | Some snapshot \<Rightarrow>
        let gm = gs_manifest snapshot; cold_end_height = saturating_sub (gm_anchor_height gm) WARM_BLOCKS in
        (case spend_table_session_of base64 snapshot cold_end_height Transparent_Spend_Cold of None \<Rightarrow> None
         | Some cold \<Rightarrow>
           (case spend_table_session_of base64 snapshot cold_end_height Transparent_Spend_Warm of None \<Rightarrow> None
            | Some warm \<Rightarrow>
              Some \<lparr> ss_tip_height = gm_anchor_height gm, ss_tip_block_hash = gm_anchor_block_hash gm,
                     ss_ironwood_tree_size = gm_ironwood_tree_size gm, ss_generation = gm_generation gm,
                     ss_cold_end_height = cold_end_height, ss_cold = cold, ss_warm = warm \<rparr>)))"

section \<open>A lookup over built tables\<close>

text \<open>
  The entries fit: some size of the doubling sequence, within the address space, overflows no bucket.
  \<open>tier_answers\<close>: the exchange for a bucket, server and crates together, returns that row of the table.
\<close>

definition fits_somewhere :: "(bytes \<Rightarrow> bytes) \<Rightarrow> spend_entry list \<Rightarrow> bool" where
  "fits_somewhere sha256 es \<longleftrightarrow> (\<exists>j. fits sha256 es (bucket_count (of_nat (length es)) * 2 ^ j)
     \<and> bucket_count (of_nat (length es)) * 2 ^ j * SPEND_ROW_BYTES \<le> ISIZE_MAX)"

definition tier_answers ::
  "('k, 'q, 'd) client_sp \<Rightarrow> nat \<Rightarrow> (string \<Rightarrow> bytes \<Rightarrow> string + http_response) \<Rightarrow> spend_client \<Rightarrow> string \<Rightarrow> table_client \<Rightarrow> bucket_table \<Rightarrow> bool" where
  "tier_answers cl rnd http_post c tier tc t \<longleftrightarrow> sp_db_rows (tc_params tc) = bt_buckets t
     \<and> (\<forall>b < bt_buckets t. \<exists>query response. tc_prepare cl rnd tc b = Inr query \<and> spend_request http_post c tier (pr_body query) = Inr response
          \<and> (\<forall>row. source_row (bucket_source t) b = Inr row \<longrightarrow> tc_decode cl tc query response = Inr row))"

lemma bucket_build_fits:
  assumes ok: "\<forall>e \<in> set es. se_ok e" and table: "table = Transparent_Spend_Cold \<or> table = Transparent_Spend_Warm"
    and fit: "fits_somewhere sha256 es"
  shows "\<exists>t. bucket_build sha256 table es = Inr t \<and> bt_table t = table \<and> built_from sha256 es t"
proof -
  obtain k where k: "13 \<le> k" "k \<le> 52" "bucket_count (of_nat (length es)) = 2 ^ k" using bucket_count_power by blast
  then obtain j where j: "fits sha256 es (2 ^ (k + j))" "2 ^ (k + j) * SPEND_ROW_BYTES \<le> ISIZE_MAX"
    using fit by (auto simp: fits_somewhere_def power_add)
  obtain i where i: "i \<le> j" "fits sha256 es (2 ^ (k + i))"
      "bucket_build sha256 table es = Inr \<lparr> bt_table = table, bt_buckets = 2 ^ (k + i), bt_rows = table_rows sha256 (2 ^ (k + i)) es \<rparr>"
    using bucket_build_first [OF ok table k(3) j] by blast
  have "k + j < 63" using power_less_imp_less_exp [OF _ small_tables [OF j(2)]] by simp
  then have "13 \<le> k + i \<and> k + i \<le> 63" using i(1) k(1) by simp
  then show ?thesis using i ok unfolding built_from_def by auto
qed

lemma tables_build_fits:
  assumes log: "spend_journal_ok he hx log vs" and height: "height = saturating_sub tip WARM_BLOCKS"
    and fit: "fits_somewhere sha256 (view_entries (old_blocks height vs))" "fits_somewhere sha256 (view_entries (new_blocks height vs))"
  shows "\<exists>cold warm. tables_build sha256 log tip = Inr \<lparr> tt_cold_end_height = height, tt_cold = cold, tt_warm = warm \<rparr>
    \<and> built_from sha256 (view_entries (old_blocks height vs)) cold \<and> built_from sha256 (view_entries (new_blocks height vs)) warm"
proof -
  let ?old = "view_entries (old_blocks height vs)" and ?new = "view_entries (new_blocks height vs)"
  have "view_ok he hx vs" using log by (auto simp: spend_journal_ok_def split: prod.splits)
  then have ok: "\<forall>e \<in> set ?old. se_ok e" "\<forall>e \<in> set ?new. se_ok e"
    by (auto simp: view_ok_def view_entries_def list_all_iff dest!: set_takeWhileD set_dropWhileD)
  obtain cold warm where "bucket_build sha256 Transparent_Spend_Cold ?old = Inr cold" "built_from sha256 ?old cold"
    and "bucket_build sha256 Transparent_Spend_Warm ?new = Inr warm" "built_from sha256 ?new warm"
    using bucket_build_fits [OF ok(1) _ fit(1)] bucket_build_fits [OF ok(2) _ fit(2)] by blast
  then show ?thesis using tables_build_view [OF log height] by simp
qed

lemma tier_lookup:
  assumes built: "built_from sha256 es t" and dist: "distinct (map outpoint es)" and tier: "tier_answers cl rnd http_post c tier tc t"
  shows "\<exists>b query response row. bucket_for_outpoint sha256 txid index (sp_db_rows (tc_params tc)) = Some b \<and> tc_prepare cl rnd tc b = Inr query
    \<and> spend_request http_post c tier (pr_body query) = Inr response \<and> tc_decode cl tc query response = Inr row
    \<and> scan_bucket row txid index = Inr (find (\<lambda>e. outpoint e = (txid, index)) es)"
proof -
  obtain b row where b: "bucket_for_outpoint sha256 txid index (bt_buckets t) = Some b" "source_row (bucket_source t) b = Inr row"
      "scan_bucket row txid index = Inr (find (\<lambda>e. outpoint e = (txid, index)) es)"
    using bucket_lookup [OF built dist, of txid index] by blast
  have rows: "sp_db_rows (tc_params tc) = bt_buckets t" using tier by (simp add: tier_answers_def)
  obtain query response where q: "tc_prepare cl rnd tc b = Inr query" "spend_request http_post c tier (pr_body query) = Inr response"
      "tc_decode cl tc query response = Inr row"
    using tier bucket_for_outpoint_Some [OF b(1)] b(2) unfolding tier_answers_def by blast
  show ?thesis unfolding rows by (intro exI conjI) (fact b(1), fact q(1), fact q(2), fact q(3), fact b(3))
qed

lemma find_append: "find P (xs @ ys) = (case find P xs of None \<Rightarrow> find P ys | Some x \<Rightarrow> Some x)"
  by (induction xs) auto

lemma find_outpoint: "find (\<lambda>e. outpoint e = (txid, index)) es = Some e \<Longrightarrow> e \<in> set es \<and> outpoint e = (txid, index)"
  by (auto simp: find_Some_iff)

text \<open>
  C38. A spend is found if and only if it is in the log. When the outpoints of the log are distinct and its entries fit a table,
  building the two tables for a tip succeeds, and a client whose exchanges return the rows of those tables learns, for every
  outpoint, the entry of the log that spends it, or that it is unspent as of the session's height: the split at the cold end
  height, the bucket of the outpoint, the growth of a table that overflowed and the layout of rows and shards lose nothing and
  never report a malformed, duplicate or double entry.
\<close>

theorem spend_lookup_exact:
  assumes log: "spend_journal_ok hex_encode hex_decode log vs" and dist: "distinct (map outpoint (view_entries vs))"
    and height: "height = saturating_sub tip WARM_BLOCKS"
    and fit: "fits_somewhere sha256 (view_entries (old_blocks height vs))" "fits_somewhere sha256 (view_entries (new_blocks height vs))"
  shows "\<exists>tables. tables_build sha256 log tip = Inr tables \<and> tt_cold_end_height tables = height
    \<and> (tier_answers cl (fst rnd) http_post c ''cold'' (sc_cold c) (tt_cold tables)
        \<and> tier_answers cl (snd rnd) http_post c ''warm'' (sc_warm c) (tt_warm tables) \<longrightarrow>
       spend_lookup_outpoint cl sha256 rnd http_post c txid index =
         Inr (case find (\<lambda>e. outpoint e = (txid, index)) (view_entries vs) of
                None \<Rightarrow> Unspent (ss_tip_height (sc_session c)) | Some e \<Rightarrow> Spent e))"
proof -
  let ?old = "view_entries (old_blocks height vs)" and ?new = "view_entries (new_blocks height vs)"
  have all: "view_entries vs = ?old @ ?new" by (simp flip: view_entries_simps(3))
  obtain cold warm where build: "tables_build sha256 log tip = Inr \<lparr> tt_cold_end_height = height, tt_cold = cold, tt_warm = warm \<rparr>"
    and built: "built_from sha256 ?old cold" "built_from sha256 ?new warm"
    using tables_build_fits [OF log height fit] by blast
  have d: "distinct (map outpoint ?old)" "distinct (map outpoint ?new)" and apart: "outpoint ` set ?old \<inter> outpoint ` set ?new = {}"
    using dist unfolding all by auto
  have "spend_lookup_outpoint cl sha256 rnd http_post c txid index = Inr (case find (\<lambda>e. outpoint e = (txid, index)) (view_entries vs) of
      None \<Rightarrow> Unspent (ss_tip_height (sc_session c)) | Some e \<Rightarrow> Spent e)"
    if tiers: "tier_answers cl (fst rnd) http_post c ''cold'' (sc_cold c) cold" "tier_answers cl (snd rnd) http_post c ''warm'' (sc_warm c) warm"
  proof -
    let ?fc = "find (\<lambda>e. outpoint e = (txid, index)) ?old" and ?fw = "find (\<lambda>e. outpoint e = (txid, index)) ?new"
    have "\<not> (\<exists>a b. ?fc = Some a \<and> ?fw = Some b)"
    proof (intro notI, elim exE conjE)
      fix a b assume "?fc = Some a" "?fw = Some b"
      note f = find_outpoint [OF this(1)] find_outpoint [OF this(2)]
      have "outpoint a \<in> outpoint ` set ?old" using f(1) by (intro imageI) simp
      moreover have "outpoint b \<in> outpoint ` set ?new" using f(2) by (intro imageI) simp
      moreover have "outpoint a = outpoint b" using f by simp
      ultimately have "outpoint a \<in> outpoint ` set ?old \<inter> outpoint ` set ?new" by (simp only: Int_iff simp_thms)
      then show False unfolding apart by (rule emptyE)
    qed
    then have "combine_tiers (ss_tip_height (sc_session c)) ?fc ?fw = Inr (case find (\<lambda>e. outpoint e = (txid, index)) (view_entries vs) of
        None \<Rightarrow> Unspent (ss_tip_height (sc_session c)) | Some e \<Rightarrow> Spent e)"
      unfolding all find_append by (auto simp: combine_tiers_def split: option.splits)
    then show ?thesis
      using tier_lookup [OF built(1) d(1) tiers(1), of txid index] tier_lookup [OF built(2) d(2) tiers(2), of txid index]
      by (auto simp: spend_lookup_outpoint_def)
  qed
  then show ?thesis using build by auto
qed

text \<open>A concrete deployment: the log of one spend, and an exchange that sends the bucket number and returns the row.\<close>

definition row_client :: "(unit, nat, unit) client_sp" where
  "row_client = \<lparr> published_c1_len = (\<lambda>_ _. 0), recover_published_c1 = (\<lambda>_ _ _ _. []), generate_fresh_query = (\<lambda>_ _ _ _ row. (row, (), ())),
     serialize_packing_keys = (\<lambda>_ _. Inr []), to_switched_bytes = (\<lambda>row _ _. le_bytes 8 row), response_body_len = (\<lambda>_ _. SPEND_ROW_BYTES),
     decode_response = (\<lambda>_ _ _ _ body. body) \<rparr>"

definition sample_tables :: spend_tables where
  "sample_tables = projr (tables_build sample_digest sample_log 100042)"

definition sample_generation :: spend_generation where
  "sample_generation = \<lparr> sg_schema_version = 1, sg_protocol_revision = SPEND_PROTOCOL_REVISION, sg_network = SPEND_NETWORK, sg_tip_height = 100042,
     sg_tip_block_hash = [], sg_ironwood_tree_size = 0, sg_generation = 9, sg_cold_end_height = 42, sg_buckets = 8192, sg_row_bytes = 7040,
     sg_shard_rows = 8192, sg_logical_rows = 8192, sg_parameter_id = [], sg_setup_seed = 0, sg_public_params_epoch = [],
     sg_public_params_sha256 = [], sg_shards = [] \<rparr>"

definition sample_table_client :: "bucket_table \<Rightarrow> table_client" where
  "sample_table_client t = \<lparr> tc_generation = sample_generation, tc_params = full_scheme \<lparr> sp_db_rows := bt_buckets t \<rparr>, tc_rlwe = tiny_rlwe,
     tc_setup = [], tc_published_c1 = [], tc_epoch = replicate 8 0 \<rparr>"

definition sample_table_session :: "scheme_params spend_table_session" where
  "sample_table_session = \<lparr> sts_generation = sample_generation, sts_params = full_scheme, sts_public_params_base64 = [] \<rparr>"

definition sample_spend_client :: spend_client where
  "sample_spend_client = \<lparr> sc_base_url = [], sc_session = \<lparr> ss_tip_height = 100042, ss_tip_block_hash = [], ss_ironwood_tree_size = 0,
       ss_generation = 9, ss_cold_end_height = 42, ss_cold = sample_table_session, ss_warm = sample_table_session \<rparr>,
     sc_cold = sample_table_client (tt_cold sample_tables), sc_warm = sample_table_client (tt_warm sample_tables) \<rparr>"

definition sample_spend_post :: "string \<Rightarrow> bytes \<Rightarrow> string + http_response" where
  "sample_spend_post url body =
     (let t = (if url = ''/v1/transparent-spend/cold/query'' then tt_cold sample_tables else tt_warm sample_tables) in
      bindR (source_row (bucket_source t) (le_val (drop 8 body))) (\<lambda>row.
      Inr \<lparr> hr_status = 200, hr_content_length = None, hr_chunks = [Inr (u64_le 9 @ replicate 8 0 @ row)] \<rparr>))"

lemma sample_tier:
  assumes built: "built_from sample_digest es t"
    and t: "\<And>body. sample_spend_post (''/v1/transparent-spend/'' @ tier @ ''/query'') body
      = bindR (source_row (bucket_source t) (le_val (drop 8 body))) (\<lambda>row.
        Inr \<lparr> hr_status = 200, hr_content_length = None, hr_chunks = [Inr (u64_le 9 @ replicate 8 0 @ row)] \<rparr>)"
  shows "tier_answers row_client 0 sample_spend_post sample_spend_client tier (sample_table_client t) t"
proof -
  have small: "bt_buckets t < 2 ^ 64"
  proof -
    obtain k where "bt_buckets t = 2 ^ k" "k \<le> 63" using built by (auto simp: built_from_def)
    then show ?thesis using power_strict_increasing [of k 64 "2 :: nat"] by simp
  qed
  have "\<exists>query response. tc_prepare row_client 0 (sample_table_client t) b = Inr query
      \<and> spend_request sample_spend_post sample_spend_client tier (pr_body query) = Inr response
      \<and> (\<forall>row. source_row (bucket_source t) b = Inr row \<longrightarrow> tc_decode row_client (sample_table_client t) query response = Inr row)"
    if b: "b < bt_buckets t" for b
  proof -
    let ?es = "in_bucket sample_digest (bt_buckets t) b es"
    let ?q = "\<lparr> pr_body = u64_le 9 @ le_bytes 8 b, pr_seed = () \<rparr>"
    have row: "source_row (bucket_source t) b = Inr (bucket_row ?es)" by (rule bucket_source_row [OF built b])
    have len: "length (bucket_row ?es) = SPEND_ROW_BYTES"
      using built b by (intro bucket_row_chunks(1)) (auto simp: built_from_def in_bucket_def fits_def list_all_iff)
    have le: "le_val (le_bytes 8 b) = b" using b small by (simp add: le_val_le_bytes)
    have "tc_prepare row_client 0 (sample_table_client t) b = Inr ?q"
      using b by (simp add: tc_prepare_def row_client_def sample_table_client_def sample_generation_def)
    moreover have "spend_request sample_spend_post sample_spend_client tier (pr_body ?q) = Inr (u64_le 9 @ replicate 8 0 @ bucket_row ?es)"
      using t [of "pr_body ?q"] row le len
      by (simp add: spend_request_def sample_spend_client_def read_body_def SPEND_ROW_BYTES_def SPEND_ENTRY_BYTES_def BUCKET_CAPACITY_def)
    moreover have "tc_decode row_client (sample_table_client t) ?q (u64_le 9 @ replicate 8 0 @ bucket_row ?es) = Inr (bucket_row ?es)"
      using len by (simp add: tc_decode_def row_client_def sample_table_client_def sample_generation_def full_scheme_def)
    ultimately show ?thesis using row by auto
  qed
  then show ?thesis by (simp add: tier_answers_def) (simp add: sample_table_client_def)
qed

theorem spend_lookup_exact_witness:
  "spend_lookup_outpoint row_client sample_digest (0, 0) sample_spend_post sample_spend_client (replicate 32 1) 3 = Inr (Spent sample_entry)
   \<and> spend_lookup_outpoint row_client sample_digest (0, 0) sample_spend_post sample_spend_client (replicate 32 1) 4 = Inr (Unspent 100042)"
proof -
  have height: "42 = saturating_sub (100042 :: u64) WARM_BLOCKS" by (simp add: saturating_sub_def WARM_BLOCKS_def)
  have views: "view_entries (old_blocks 42 sample_view) = [sample_entry]" "view_entries (new_blocks 42 sample_view) = []"
      "view_entries sample_view = [sample_entry]"
    by (simp_all add: sample_view_def)
  have one: "fits_somewhere sample_digest es" if "length es \<le> 1" for es
  proof -
    have "length (in_bucket sample_digest n b es) \<le> BUCKET_CAPACITY" for n b
      unfolding in_bucket_def BUCKET_CAPACITY_def using that by (intro order_trans [OF length_filter_le]) simp
    moreover have "bucket_count (of_nat (length es)) = 8192"
    proof -
      have "length es = 0 \<or> length es = 1" using that by linarith
      moreover have "bucket_count 0 = 8192" "bucket_count 1 = 8192" by code_simp+
      ultimately show ?thesis by auto
    qed
    ultimately show ?thesis
      unfolding fits_somewhere_def by (intro exI [of _ 0]) (simp add: fits_def list_all_iff ISIZE_MAX_def SPEND_ROW_BYTES_def SPEND_ENTRY_BYTES_def BUCKET_CAPACITY_def)
  qed
  have fit: "fits_somewhere sample_digest (view_entries (old_blocks 42 sample_view))" "fits_somewhere sample_digest (view_entries (new_blocks 42 sample_view))"
    unfolding views by (rule one, simp)+
  obtain cold warm where build: "tables_build sample_digest sample_log 100042 = Inr \<lparr> tt_cold_end_height = 42, tt_cold = cold, tt_warm = warm \<rparr>"
    and built: "built_from sample_digest [sample_entry] cold" "built_from sample_digest [] warm"
    using tables_build_fits [OF sample_log_ok(1) height fit] by (auto simp: views)
  have tables: "sample_tables = \<lparr> tt_cold_end_height = 42, tt_cold = cold, tt_warm = warm \<rparr>" by (simp add: sample_tables_def build)
  have "tier_answers row_client 0 sample_spend_post sample_spend_client ''cold'' (sc_cold sample_spend_client) cold"
    using sample_tier [OF built(1), of "''cold''"] by (simp add: sample_spend_post_def tables sample_spend_client_def)
  moreover have "tier_answers row_client 0 sample_spend_post sample_spend_client ''warm'' (sc_warm sample_spend_client) warm"
    using sample_tier [OF built(2), of "''warm''"] by (simp add: sample_spend_post_def tables sample_spend_client_def)
  moreover have "distinct (map outpoint (view_entries sample_view))" by (simp add: views)
  ultimately have "spend_lookup_outpoint row_client sample_digest (0, 0) sample_spend_post sample_spend_client txid index
      = Inr (case find (\<lambda>e. outpoint e = (txid, index)) [sample_entry] of None \<Rightarrow> Unspent 100042 | Some e \<Rightarrow> Spent e)" for txid index
    using spend_lookup_exact [OF sample_log_ok(1) _ height fit, of row_client "(0, 0)" sample_spend_post sample_spend_client txid index] build
    by (simp add: views) (simp add: sample_spend_client_def)
  then show ?thesis by (simp add: sample_entry_def)
qed

end
