(* ===== verification/Witness_Tree.thy ===== *)
theory Witness_Tree
  imports Prelude
begin

text \<open>
  The note commitment tree of the legacy spendability demo, \<open>witness/commitment-tree-db/src/lib.rs\<close> with the
  geometry of \<open>witness/witness-types/src/lib.rs\<close>: leaves appended block by block, rolled back on a reorganization, roots
  of sub-shards of 256 leaves and shards of 65536 computed from them with a cache of sub-shard roots, and the rows and the
  broadcast the server publishes.

  \<open>MerkleHashOrchard\<close> is outside the repository: its functions are the record \<open>merkle_hash\<close>. A hash that is not a valid
  encoding makes the source panic; the model leaves the value of that case open, and the properties need no such case. The
  tree has at most \<open>2 ^ 32\<close> leaves, so positions and shard numbers are naturals and no conversion truncates.
\<close>

section \<open>Geometry\<close>

definition TREE_DEPTH :: nat where "TREE_DEPTH = 32"
definition SHARD_HEIGHT :: nat where "SHARD_HEIGHT = 16"
definition SUBSHARD_HEIGHT :: nat where "SUBSHARD_HEIGHT = 8"
definition SUBSHARD_LEAVES :: nat where "SUBSHARD_LEAVES = 2 ^ SUBSHARD_HEIGHT"
definition SUBSHARDS_PER_SHARD :: nat where "SUBSHARDS_PER_SHARD = 2 ^ SUBSHARD_HEIGHT"
definition SHARD_LEAVES :: nat where "SHARD_LEAVES = 2 ^ SHARD_HEIGHT"
definition SUBSHARD_ROW_BYTES :: nat where "SUBSHARD_ROW_BYTES = SUBSHARD_LEAVES * 32"
definition L0_DB_ROWS :: nat where "L0_DB_ROWS = 8192"
definition L0_DB_BYTES :: nat where "L0_DB_BYTES = L0_DB_ROWS * SUBSHARD_ROW_BYTES"
definition L0_MAX_SHARDS :: nat where "L0_MAX_SHARDS = 32"

type_synonym node_hash = bytes

definition decompose_position :: "nat \<Rightarrow> nat \<times> nat \<times> nat" where
  "decompose_position position =
     (position div 2 ^ SHARD_HEIGHT mod 2 ^ 32, position div 2 ^ SUBSHARD_HEIGHT mod 256, position mod 256)"

definition physical_row_index :: "nat \<Rightarrow> nat \<Rightarrow> nat \<Rightarrow> nat" where
  "physical_row_index shard_index subshard_index window_start_shard =
     (shard_index - window_start_shard) * SUBSHARDS_PER_SHARD + subshard_index"

record broadcast_data =
  bd_shard_roots :: "node_hash list"
  bd_subshard_roots :: "node_hash list list"
  bd_window_start_shard :: nat
  bd_window_shard_count :: nat
  bd_anchor_height :: u64

section \<open>Hashing\<close>

record 'm merkle_hash =
  mho_from_bytes :: "bytes \<Rightarrow> 'm option"
  mho_to_bytes :: "'m \<Rightarrow> bytes"
  mho_combine :: "nat \<Rightarrow> 'm \<Rightarrow> 'm \<Rightarrow> 'm"
  mho_empty_leaf :: 'm
  mho_empty_root :: "nat \<Rightarrow> 'm"

definition hash_combine :: "'m merkle_hash \<Rightarrow> nat \<Rightarrow> node_hash \<Rightarrow> node_hash \<Rightarrow> node_hash" where
  "hash_combine mh level left right =
     mho_to_bytes mh (mho_combine mh level (the (mho_from_bytes mh left)) (the (mho_from_bytes mh right)))"

fun empty_roots_from :: "'m merkle_hash \<Rightarrow> nat \<Rightarrow> nat \<Rightarrow> 'm \<Rightarrow> node_hash list" where
  "empty_roots_from mh level 0 current = []"
| "empty_roots_from mh level (Suc n) current =
     (let current = mho_combine mh level current current in mho_to_bytes mh current # empty_roots_from mh (Suc level) n current)"

definition precompute_empty_roots :: "'m merkle_hash \<Rightarrow> node_hash list" where
  "precompute_empty_roots mh = mho_to_bytes mh (mho_empty_leaf mh) # empty_roots_from mh 0 TREE_DEPTH (mho_empty_leaf mh)"

text \<open>One level of the pairwise loop: \<open>chunks_exact(2)\<close>.\<close>

fun pair_up :: "'m merkle_hash \<Rightarrow> nat \<Rightarrow> node_hash list \<Rightarrow> node_hash list" where
  "pair_up mh level (a # b # rest) = hash_combine mh level a b # pair_up mh level rest"
| "pair_up mh level _ = []"

lemma length_pair_up [simp]: "length (pair_up mh level xs) = length xs div 2"
  by (induction mh level xs rule: pair_up.induct) auto

function complete_subtree_root :: "'m merkle_hash \<Rightarrow> node_hash list \<Rightarrow> nat \<Rightarrow> node_hash" where
  "complete_subtree_root mh current level =
     (if length current > 1 then complete_subtree_root mh (pair_up mh level current) (level + 1) else current ! 0)"
  by pat_completeness auto
termination by (relation "measure (\<lambda>(_, current, _). length current)") auto

declare complete_subtree_root.simps [simp del]

text \<open>\<open>usize::trailing_zeros\<close>.\<close>

fun trailing_zeros :: "nat \<Rightarrow> nat" where
  "trailing_zeros n = (if n = 0 then 64 else if odd n then 0 else Suc (trailing_zeros (n div 2)))"

declare trailing_zeros.simps [simp del]

text \<open>The capacity of a sparse subtree is a power of two, so the recursion ends at width one.\<close>

function sparse_root_rec :: "'m merkle_hash \<Rightarrow> node_hash list \<Rightarrow> nat \<Rightarrow> nat \<Rightarrow> nat \<Rightarrow> node_hash list \<Rightarrow> node_hash" where
  "sparse_root_rec mh leaves offset width base_level empty_roots =
     (if width \<le> 1 then if offset < length leaves then leaves ! offset else empty_roots ! base_level
      else let half = width div 2;
               combine_level = base_level + trailing_zeros half;
               left = sparse_root_rec mh leaves offset half base_level empty_roots;
               right = (if offset + half \<ge> length leaves then empty_roots ! combine_level
                        else sparse_root_rec mh leaves (offset + half) half base_level empty_roots)
           in hash_combine mh combine_level left right)"
  by pat_completeness auto
termination by (relation "measure (\<lambda>(_, _, _, width, _, _). width)") auto

declare sparse_root_rec.simps [simp del]

definition sparse_subtree_root :: "'m merkle_hash \<Rightarrow> node_hash list \<Rightarrow> nat \<Rightarrow> nat \<Rightarrow> node_hash list \<Rightarrow> node_hash" where
  "sparse_subtree_root mh populated capacity base_level empty_roots = sparse_root_rec mh populated 0 capacity base_level empty_roots"

section \<open>The tree\<close>

record tree_block =
  tb_height :: u64
  tb_hash :: bytes
  tb_num_commitments :: u32

record tree_db =
  tr_leaves :: "node_hash list"
  tr_blocks :: "tree_block list"
  tr_empty_roots :: "node_hash list"
  tr_leaf_offset :: nat
  tr_prefetched :: "node_hash list"
  tr_ss_root_cache :: "node_hash option list"

definition with_offset :: "'m merkle_hash \<Rightarrow> nat \<Rightarrow> node_hash list \<Rightarrow> tree_db" where
  "with_offset mh leaf_offset prefetched =
     \<lparr> tr_leaves = [], tr_blocks = [], tr_empty_roots = precompute_empty_roots mh, tr_leaf_offset = leaf_offset,
       tr_prefetched = prefetched, tr_ss_root_cache = replicate L0_DB_ROWS None \<rparr>"

definition tree_new :: "'m merkle_hash \<Rightarrow> tree_db" where
  "tree_new mh = with_offset mh 0 []"

definition tree_size :: "tree_db \<Rightarrow> nat" where
  "tree_size t = tr_leaf_offset t + length (tr_leaves t)"

definition tree_latest_height :: "tree_db \<Rightarrow> u64 option" where
  "tree_latest_height t = (if tr_blocks t = [] then None else Some (tb_height (last (tr_blocks t))))"

definition tree_latest_block_hash :: "tree_db \<Rightarrow> bytes option" where
  "tree_latest_block_hash t = (if tr_blocks t = [] then None else Some (tb_hash (last (tr_blocks t))))"

definition populated_shards :: "tree_db \<Rightarrow> nat" where
  "populated_shards t = (if tree_size t = 0 then 0 else (tree_size t - 1) div SHARD_LEAVES + 1)"

definition window_start_shard :: "tree_db \<Rightarrow> nat" where
  "window_start_shard t = tr_leaf_offset t div SHARD_LEAVES"

definition local_shard_count :: "tree_db \<Rightarrow> nat" where
  "local_shard_count t =
     (if tr_leaves t = [] then 0 else (tree_size t - 1) div SHARD_LEAVES - window_start_shard t + 1)"

definition window_shard_count :: "tree_db \<Rightarrow> nat" where
  "window_shard_count t = min (local_shard_count t) L0_MAX_SHARDS"

text \<open>\<open>for slot in from..=to { cache[slot] = None }\<close>.\<close>

definition invalidate :: "nat \<Rightarrow> nat \<Rightarrow> node_hash option list \<Rightarrow> node_hash option list" where
  "invalidate from to cache = map (\<lambda>(i, c). if from \<le> i \<and> i \<le> to then None else c) (List.enumerate 0 cache)"

definition append_commitments :: "u64 \<Rightarrow> bytes \<Rightarrow> node_hash list \<Rightarrow> tree_db \<Rightarrow> tree_db" where
  "append_commitments height hash commitments t =
     (let t = (if commitments \<noteq> [] then
                 let old_local_len = length (tr_leaves t);
                     leaves = tr_leaves t @ commitments;
                     first_dirty = old_local_len div SUBSHARD_LEAVES;
                     last_dirty = (length leaves - 1) div SUBSHARD_LEAVES
                 in t \<lparr> tr_leaves := leaves,
                        tr_ss_root_cache := invalidate first_dirty (min last_dirty (L0_DB_ROWS - 1)) (tr_ss_root_cache t) \<rparr>
               else t)
      in t \<lparr> tr_blocks := tr_blocks t @ [\<lparr> tb_height = height, tb_hash = hash, tb_num_commitments = of_nat (length commitments) \<rparr>] \<rparr>)"

text \<open>The blocks above the target are popped from the end; the argument is the reversed list.\<close>

fun pop_blocks :: "u64 \<Rightarrow> tree_block list \<Rightarrow> nat \<Rightarrow> tree_block list \<times> nat" where
  "pop_blocks target_height [] to_remove = ([], to_remove)"
| "pop_blocks target_height (b # bs) to_remove =
     (if tb_height b > target_height then pop_blocks target_height bs (to_remove + unat (tb_num_commitments b)) else (b # bs, to_remove))"

definition tree_rollback_to :: "u64 \<Rightarrow> tree_db \<Rightarrow> tree_db" where
  "tree_rollback_to target_height t =
     (let (kept, to_remove) = pop_blocks target_height (rev (tr_blocks t)) 0;
          new_len = length (tr_leaves t) - to_remove;
          frontier_slot = (if new_len = 0 then 0 else (new_len - 1) div SUBSHARD_LEAVES)
      in t \<lparr> tr_blocks := rev kept, tr_leaves := take new_len (tr_leaves t),
             tr_ss_root_cache := invalidate frontier_slot (L0_DB_ROWS - 1) (tr_ss_root_cache t) \<rparr>)"

definition subshard_leaves :: "tree_db \<Rightarrow> nat \<Rightarrow> nat \<Rightarrow> node_hash list" where
  "subshard_leaves t shard_idx subshard_idx =
     (let global_start = shard_idx * SHARD_LEAVES + subshard_idx * SUBSHARD_LEAVES;
          empty_leaf = tr_empty_roots t ! 0
      in map (\<lambda>i. let global_pos = global_start + i in
                 if global_pos \<ge> tr_leaf_offset t \<and> global_pos - tr_leaf_offset t < length (tr_leaves t)
                 then tr_leaves t ! (global_pos - tr_leaf_offset t) else empty_leaf) [0..<SUBSHARD_LEAVES])"

definition subshard_roots :: "'m merkle_hash \<Rightarrow> tree_db \<Rightarrow> nat \<Rightarrow> node_hash list" where
  "subshard_roots mh t shard_idx =
     (let shard_global_start = shard_idx * SHARD_LEAVES; empty_ss_root = tr_empty_roots t ! SUBSHARD_HEIGHT; total = tree_size t
      in map (\<lambda>ss. if shard_global_start + ss * SUBSHARD_LEAVES \<ge> total then empty_ss_root
                  else complete_subtree_root mh (subshard_leaves t shard_idx ss) 0) [0..<SUBSHARDS_PER_SHARD])"

definition prefetched_root :: "tree_db \<Rightarrow> nat \<Rightarrow> node_hash" where
  "prefetched_root t i = (if i < length (tr_prefetched t) then tr_prefetched t ! i else tr_empty_roots t ! SHARD_HEIGHT)"

definition shard_roots :: "'m merkle_hash \<Rightarrow> tree_db \<Rightarrow> (nat \<times> node_hash) list" where
  "shard_roots mh t =
     map (\<lambda>i. if i < window_start_shard t then (i, prefetched_root t i)
              else (i, complete_subtree_root mh (subshard_roots mh t i) SUBSHARD_HEIGHT)) [0..<populated_shards t]"

definition tree_root :: "'m merkle_hash \<Rightarrow> tree_db \<Rightarrow> node_hash" where
  "tree_root mh t =
     (if tree_size t = 0 then tr_empty_roots t ! TREE_DEPTH
      else sparse_subtree_root mh (map snd (shard_roots mh t)) (2 ^ SHARD_HEIGHT) SHARD_HEIGHT (tr_empty_roots t))"

section \<open>Rows and broadcast\<close>

text \<open>One sub-shard of the pass: its leaves go to the database, its root comes from the cache or is computed and cached.\<close>

definition build_subshard ::
  "'m merkle_hash \<Rightarrow> tree_db \<Rightarrow> nat \<Rightarrow> nat \<Rightarrow> node_hash option list \<times> bytes \<times> node_hash list \<Rightarrow> node_hash option list \<times> bytes \<times> node_hash list" where
  "build_subshard mh t i ss = (\<lambda>(cache, db, ss_roots).
     let shard_idx = window_start_shard t + i;
         cache_slot = i * SUBSHARDS_PER_SHARD + ss;
         leaves = subshard_leaves t shard_idx ss;
         db = db @ concat leaves;
         ss_global_start = shard_idx * SHARD_LEAVES + ss * SUBSHARD_LEAVES
     in if ss_global_start \<ge> tree_size t then (cache, db, ss_roots @ [tr_empty_roots t ! SUBSHARD_HEIGHT])
        else case cache ! cache_slot of
            Some cached \<Rightarrow> (cache, db, ss_roots @ [cached])
          | None \<Rightarrow> let root = complete_subtree_root mh leaves 0 in (cache[cache_slot := Some root], db, ss_roots @ [root]))"

definition build_shard ::
  "'m merkle_hash \<Rightarrow> tree_db \<Rightarrow> nat \<Rightarrow> node_hash option list \<times> bytes \<times> node_hash list \<times> node_hash list list
     \<Rightarrow> node_hash option list \<times> bytes \<times> node_hash list \<times> node_hash list list" where
  "build_shard mh t i = (\<lambda>(cache, db, cap_roots, broadcast_ss).
     case fold (build_subshard mh t i) [0..<SUBSHARDS_PER_SHARD] (cache, db, []) of (cache, db, ss_roots) \<Rightarrow>
       (cache, db, cap_roots @ [complete_subtree_root mh ss_roots SUBSHARD_HEIGHT], broadcast_ss @ [ss_roots]))"

definition build_pir_db_and_broadcast :: "'m merkle_hash \<Rightarrow> u64 \<Rightarrow> tree_db \<Rightarrow> tree_db \<times> bytes \<times> broadcast_data" where
  "build_pir_db_and_broadcast mh anchor_height t =
     (let prefetched = map (prefetched_root t) [0..<window_start_shard t] in
      case fold (build_shard mh t) [0..<window_shard_count t] (tr_ss_root_cache t, [], prefetched, []) of (cache, db, cap_roots, broadcast_ss) \<Rightarrow>
        (t \<lparr> tr_ss_root_cache := cache \<rparr>, set_len L0_DB_BYTES db,
         \<lparr> bd_shard_roots = cap_roots, bd_subshard_roots = broadcast_ss, bd_window_start_shard = window_start_shard t,
           bd_window_shard_count = window_shard_count t, bd_anchor_height = anchor_height \<rparr>))"

definition broadcast_data_of :: "'m merkle_hash \<Rightarrow> u64 \<Rightarrow> tree_db \<Rightarrow> tree_db \<times> broadcast_data" where
  "broadcast_data_of mh anchor_height t = (case build_pir_db_and_broadcast mh anchor_height t of (t, db, b) \<Rightarrow> (t, b))"

definition build_pir_db :: "'m merkle_hash \<Rightarrow> tree_db \<Rightarrow> tree_db \<times> bytes" where
  "build_pir_db mh t = (case build_pir_db_and_broadcast mh 0 t of (t, db, b) \<Rightarrow> (t, db))"

section \<open>The reference tree\<close>

text \<open>The node of height \<open>h\<close> and index \<open>i\<close> of the complete tree over the leaves \<open>leaf\<close>.\<close>

fun node :: "'m merkle_hash \<Rightarrow> (nat \<Rightarrow> node_hash) \<Rightarrow> nat \<Rightarrow> nat \<Rightarrow> node_hash" where
  "node mh leaf 0 i = leaf i"
| "node mh leaf (Suc h) i = hash_combine mh h (node mh leaf h (2 * i)) (node mh leaf h (2 * i + 1))"

definition leaf_at :: "'m merkle_hash \<Rightarrow> node_hash list \<Rightarrow> nat \<Rightarrow> node_hash" where
  "leaf_at mh leaves i = (if i < length leaves then leaves ! i else mho_to_bytes mh (mho_empty_leaf mh))"

text \<open>
  What the code relies on in \<open>MerkleHashOrchard\<close>: an encoding has 32 bytes and reads back, and \<open>empty_root\<close> is the root of an
  empty subtree.
\<close>

definition mh_ok :: "'m merkle_hash \<Rightarrow> bool" where
  "mh_ok mh \<longleftrightarrow> (\<forall>m. mho_from_bytes mh (mho_to_bytes mh m) = Some m) \<and> (\<forall>m. length (mho_to_bytes mh m) = 32)
     \<and> mho_empty_root mh 0 = mho_empty_leaf mh
     \<and> (\<forall>level. mho_empty_root mh (Suc level) = mho_combine mh level (mho_empty_root mh level) (mho_empty_root mh level))"

definition valid_hash :: "'m merkle_hash \<Rightarrow> node_hash \<Rightarrow> bool" where
  "valid_hash mh h \<longleftrightarrow> mho_from_bytes mh h \<noteq> None"

lemma valid_to_bytes [simp]: "mh_ok mh \<Longrightarrow> valid_hash mh (mho_to_bytes mh m)"
  by (simp add: mh_ok_def valid_hash_def)

lemma valid_combine [simp]: "mh_ok mh \<Longrightarrow> valid_hash mh (hash_combine mh l a b)"
  by (simp add: hash_combine_def)

text \<open>Over valid leaves every hash the tree combines is a valid encoding: no \<open>expect\<close> of \<open>bytes_to_mho\<close> fires.\<close>

lemma valid_node: "mh_ok mh \<Longrightarrow> (\<And>i. valid_hash mh (leaf i)) \<Longrightarrow> valid_hash mh (node mh leaf h i)"
  by (cases h) auto

lemma node_cong:
  assumes "\<And>j. i * 2 ^ h \<le> j \<Longrightarrow> j < (i + 1) * 2 ^ h \<Longrightarrow> f j = g j"
  shows "node mh f h i = node mh g h i"
  using assms
proof (induction h arbitrary: i)
  case (Suc h)
  have "node mh f h (2 * i) = node mh g h (2 * i)"
    by (rule Suc.IH, rule Suc.prems) (simp_all add: algebra_simps)
  moreover have "node mh f h (2 * i + 1) = node mh g h (2 * i + 1)"
    by (rule Suc.IH, rule Suc.prems) (simp_all add: algebra_simps)
  ultimately show ?case by simp
qed simp

lemma empty_roots_from_nth:
  assumes "mh_ok mh" and "j < n" and "mho_to_bytes mh current = e"
  shows "(e # empty_roots_from mh level n current) ! Suc j
           = hash_combine mh (level + j) ((e # empty_roots_from mh level n current) ! j) ((e # empty_roots_from mh level n current) ! j)"
  using assms
proof (induction n arbitrary: level j e current)
  case (Suc n)
  note IH = Suc.IH and prems = Suc.prems
  have dec: "\<And>m. mho_from_bytes mh (mho_to_bytes mh m) = Some m" using \<open>mh_ok mh\<close> by (simp add: mh_ok_def)
  show ?case
  proof (cases j)
    case 0
    then show ?thesis using prems(3) dec by (auto simp: hash_combine_def Let_def)
  next
    case (Suc k)
    with prems(2) have "k < n" by simp
    from IH [OF \<open>mh_ok mh\<close> this refl, where level = "Suc level" and current = "mho_combine mh level current current"]
    show ?thesis by (simp add: Suc Let_def)
  qed
qed simp

lemma length_empty_roots_from [simp]: "length (empty_roots_from mh level n current) = n"
  by (induction n arbitrary: level current) (auto simp: Let_def)

lemma empty_root_Suc:
  assumes "mh_ok mh" and "h < TREE_DEPTH"
  shows "precompute_empty_roots mh ! Suc h = hash_combine mh h (precompute_empty_roots mh ! h) (precompute_empty_roots mh ! h)"
  using empty_roots_from_nth [OF assms refl, of _ 0] by (simp add: precompute_empty_roots_def)

lemma empty_root_0: "precompute_empty_roots mh ! 0 = mho_to_bytes mh (mho_empty_leaf mh)"
  by (simp add: precompute_empty_roots_def)

text \<open>An empty node is the precomputed root of its height.\<close>

lemma node_empty:
  assumes "mh_ok mh" and "h \<le> TREE_DEPTH" and "length leaves \<le> i * 2 ^ h"
  shows "node mh (leaf_at mh leaves) h i = precompute_empty_roots mh ! h"
  using assms
proof (induction h arbitrary: i)
  case 0 then show ?case by (simp add: leaf_at_def empty_root_0)
next
  case (Suc h)
  have "node mh (leaf_at mh leaves) h (2 * i) = precompute_empty_roots mh ! h"
    using Suc.prems by (intro Suc.IH) (auto simp: algebra_simps)
  moreover have "node mh (leaf_at mh leaves) h (2 * i + 1) = precompute_empty_roots mh ! h"
    using Suc.prems by (intro Suc.IH) (auto simp: algebra_simps)
  ultimately show ?case using Suc.prems by (simp add: empty_root_Suc)
qed

lemma upt_shift: "map (\<lambda>i. f (i + k)) [0..<n] = map f [k..<n + k]"
  by (subst map_add_upt [symmetric]) (simp add: comp_def)

lemma pair_up_map: "pair_up mh l (map f [0..<2 * n]) = map (\<lambda>i. hash_combine mh l (f (2 * i)) (f (2 * i + 1))) [0..<n]"
proof (induction n arbitrary: f)
  case (Suc n)
  have 1: "map f [0..<2 * Suc n] = f 0 # f 1 # map (\<lambda>i. f (i + 2)) [0..<2 * n]"
    unfolding upt_shift by (simp add: upt_conv_Cons numeral_2_eq_2 del: upt_Suc)
  have 2: "map g [0..<Suc n] = g 0 # map (\<lambda>i. g (i + 1)) [0..<n]" for g :: "nat \<Rightarrow> node_hash"
    unfolding upt_shift by (simp add: upt_conv_Cons del: upt_Suc)
  show ?case unfolding 1 2 using Suc.IH [of "\<lambda>i. f (i + 2)"] by (simp add: algebra_simps)
qed simp

lemma complete_subtree_node:
  "complete_subtree_root mh (map (\<lambda>j. node mh leaf l (i * 2 ^ h + j)) [0..<2 ^ h]) l = node mh leaf (l + h) i"
proof (induction h arbitrary: l)
  case 0
  then show ?case by (simp add: complete_subtree_root.simps)
next
  case (Suc h)
  let ?xs = "map (\<lambda>j. node mh leaf l (i * 2 ^ Suc h + j)) [0..<2 ^ Suc h]"
  have "pair_up mh l ?xs = map (\<lambda>j. node mh leaf (Suc l) (i * 2 ^ h + j)) [0..<2 ^ h]"
    using pair_up_map [of mh l "\<lambda>j. node mh leaf l (i * 2 ^ Suc h + j)" "2 ^ h"] by (simp add: algebra_simps)
  moreover have "length ?xs > 1" using one_less_power [of "2::nat" "Suc h"] by simp
  ultimately have "complete_subtree_root mh ?xs l = complete_subtree_root mh (map (\<lambda>j. node mh leaf (Suc l) (i * 2 ^ h + j)) [0..<2 ^ h]) (Suc l)"
    by (subst complete_subtree_root.simps) simp
  then show ?case using Suc.IH [of "Suc l"] by simp
qed

lemma trailing_zeros_power: "trailing_zeros (2 ^ h) = h"
  by (induction h) (simp_all add: trailing_zeros.simps)

text \<open>The sparse routine agrees with the complete one: the nodes it does not visit are empty.\<close>

lemma sparse_root_node:
  assumes "mh_ok mh" and "base + h \<le> TREE_DEPTH" and "length leaves \<le> n * 2 ^ base"
    and "xs = map (node mh (leaf_at mh leaves) base) [0..<n]"
  shows "sparse_root_rec mh xs (i * 2 ^ h) (2 ^ h) base (precompute_empty_roots mh) = node mh (leaf_at mh leaves) (base + h) i"
  using assms(2)
proof (induction h arbitrary: i)
  case 0
  have "n \<le> i \<Longrightarrow> length leaves \<le> i * 2 ^ base" using assms(3) by (meson le_trans mult_le_mono1)
  then show ?case using 0 assms(1) node_empty [of mh base leaves i] by (simp add: sparse_root_rec.simps assms(4))
next
  case (Suc h)
  have le: "base + h \<le> TREE_DEPTH" using Suc.prems by simp
  have left: "sparse_root_rec mh xs (i * 2 ^ Suc h) (2 ^ h) base (precompute_empty_roots mh) = node mh (leaf_at mh leaves) (base + h) (2 * i)"
    using Suc.IH [OF le, of "2 * i"] by (simp add: algebra_simps)
  have right: "sparse_root_rec mh xs (i * 2 ^ Suc h + 2 ^ h) (2 ^ h) base (precompute_empty_roots mh) = node mh (leaf_at mh leaves) (base + h) (2 * i + 1)"
    using Suc.IH [OF le, of "2 * i + 1"] by (simp add: algebra_simps)
  have emp: "node mh (leaf_at mh leaves) (base + h) (2 * i + 1) = precompute_empty_roots mh ! (base + h)"
    if "length xs \<le> i * 2 ^ Suc h + 2 ^ h"
  proof (rule node_empty [OF assms(1) le])
    have "n * 2 ^ base \<le> (i * 2 ^ Suc h + 2 ^ h) * 2 ^ base" using that assms(4) by simp
    then show "length leaves \<le> (2 * i + 1) * 2 ^ (base + h)" using assms(3) by (simp add: power_add algebra_simps)
  qed
  have "\<not> 2 ^ Suc h \<le> (1 :: nat)" using one_less_power [of "2::nat" "Suc h"] by simp
  then show ?case using left right emp by (subst sparse_root_rec.simps) (simp add: Let_def trailing_zeros_power)
qed

section \<open>The tree holds its leaves\<close>

text \<open>
  \<open>tree_holds mh leaves t\<close>: the tree \<open>t\<close> is the windowed store of the global list \<open>leaves\<close>. The window starts at a shard
  boundary, the shard roots before it are those of the reference tree, and every cached sub-shard root is the one of the
  reference tree and belongs to a sub-shard that has a leaf.
\<close>

definition tree_holds :: "'m merkle_hash \<Rightarrow> node_hash list \<Rightarrow> tree_db \<Rightarrow> bool" where
  "tree_holds mh leaves t \<longleftrightarrow>
     tr_empty_roots t = precompute_empty_roots mh \<and> tr_leaf_offset t mod SHARD_LEAVES = 0 \<and>
     tr_leaf_offset t \<le> length leaves \<and> tr_leaves t = drop (tr_leaf_offset t) leaves \<and>
     window_start_shard t \<le> length (tr_prefetched t) \<and>
     (\<forall>i < window_start_shard t. tr_prefetched t ! i = node mh (leaf_at mh leaves) SHARD_HEIGHT i) \<and>
     length (tr_ss_root_cache t) = L0_DB_ROWS \<and>
     (\<forall>slot < L0_DB_ROWS. \<forall>r. tr_ss_root_cache t ! slot = Some r \<longrightarrow>
        slot * SUBSHARD_LEAVES < length (tr_leaves t) \<and>
        r = node mh (leaf_at mh leaves) SUBSHARD_HEIGHT (window_start_shard t * SUBSHARDS_PER_SHARD + slot))"

lemmas geometry = SHARD_HEIGHT_def SUBSHARD_HEIGHT_def SHARD_LEAVES_def SUBSHARD_LEAVES_def SUBSHARDS_PER_SHARD_def
  L0_DB_ROWS_def L0_MAX_SHARDS_def

lemma tree_holds_size: "tree_holds mh leaves t \<Longrightarrow> tree_size t = length leaves"
  by (simp add: tree_holds_def tree_size_def)

lemma tree_holds_offset: "tree_holds mh leaves t \<Longrightarrow> tr_leaf_offset t = window_start_shard t * SHARD_LEAVES"
  by (auto simp: tree_holds_def window_start_shard_def)

lemma upt_width: "[0..<SUBSHARD_LEAVES] = [0..<2 ^ SUBSHARD_HEIGHT]" "[0..<SUBSHARDS_PER_SHARD] = [0..<2 ^ SUBSHARD_HEIGHT]"
  by (simp_all add: SUBSHARD_LEAVES_def SUBSHARDS_PER_SHARD_def)

lemma subshard_leaves_node:
  assumes h: "tree_holds mh leaves t" and "window_start_shard t \<le> sh"
  shows "subshard_leaves t sh ss
           = map (\<lambda>i. node mh (leaf_at mh leaves) 0 ((sh * SUBSHARDS_PER_SHARD + ss) * 2 ^ SUBSHARD_HEIGHT + i)) [0..<2 ^ SUBSHARD_HEIGHT]"
proof -
  have "tr_leaf_offset t \<le> sh * SHARD_LEAVES" unfolding tree_holds_offset [OF h] using assms(2) by simp
  then show ?thesis using h unfolding subshard_leaves_def upt_width Let_def
    by (auto simp: tree_holds_def leaf_at_def empty_root_0 geometry algebra_simps)
qed

lemma subshard_root_node:
  assumes "tree_holds mh leaves t" and "window_start_shard t \<le> sh"
  shows "complete_subtree_root mh (subshard_leaves t sh ss) 0
           = node mh (leaf_at mh leaves) SUBSHARD_HEIGHT (sh * SUBSHARDS_PER_SHARD + ss)"
  unfolding subshard_leaves_node [OF assms] complete_subtree_node by simp

lemma beyond_frontier:
  assumes "mh_ok mh" and "tree_holds mh leaves t" and "sh * SHARD_LEAVES + ss * SUBSHARD_LEAVES \<ge> tree_size t"
  shows "node mh (leaf_at mh leaves) SUBSHARD_HEIGHT (sh * SUBSHARDS_PER_SHARD + ss) = tr_empty_roots t ! SUBSHARD_HEIGHT"
proof -
  have "length leaves \<le> (sh * SUBSHARDS_PER_SHARD + ss) * 2 ^ SUBSHARD_HEIGHT"
    using assms(3) tree_holds_size [OF assms(2)] by (simp add: geometry algebra_simps)
  from node_empty [OF assms(1) _ this] show ?thesis
    using assms(2) by (simp add: tree_holds_def SUBSHARD_HEIGHT_def TREE_DEPTH_def)
qed

lemma subshard_roots_node:
  assumes "mh_ok mh" and "tree_holds mh leaves t" and "window_start_shard t \<le> sh"
  shows "subshard_roots mh t sh
           = map (\<lambda>ss. node mh (leaf_at mh leaves) SUBSHARD_HEIGHT (sh * 2 ^ SUBSHARD_HEIGHT + ss)) [0..<2 ^ SUBSHARD_HEIGHT]"
  unfolding subshard_roots_def upt_width Let_def subshard_root_node [OF assms(2, 3)]
  using beyond_frontier [OF assms(1, 2)] by (auto simp: SUBSHARDS_PER_SHARD_def)

lemma shard_root_node:
  assumes "xs = map (\<lambda>ss. node mh leaf SUBSHARD_HEIGHT (sh * 2 ^ SUBSHARD_HEIGHT + ss)) [0..<2 ^ SUBSHARD_HEIGHT]"
  shows "complete_subtree_root mh xs SUBSHARD_HEIGHT = node mh leaf SHARD_HEIGHT sh"
  unfolding assms complete_subtree_node by (simp add: geometry)

lemma prefetched_root_node:
  "tree_holds mh leaves t \<Longrightarrow> i < window_start_shard t \<Longrightarrow> prefetched_root t i = node mh (leaf_at mh leaves) SHARD_HEIGHT i"
  by (auto simp: tree_holds_def prefetched_root_def)

lemma shard_roots_node:
  assumes "mh_ok mh" and "tree_holds mh leaves t"
  shows "map snd (shard_roots mh t) = map (node mh (leaf_at mh leaves) SHARD_HEIGHT) [0..<populated_shards t]"
  unfolding shard_roots_def
  using shard_root_node [OF subshard_roots_node [OF assms]] prefetched_root_node [OF assms(2)] by auto

lemma populated_shards_cover: "tree_size t \<le> populated_shards t * SHARD_LEAVES"
proof (cases "tree_size t")
  case (Suc n)
  then show ?thesis
    using div_mult_mod_eq [of n SHARD_LEAVES] mod_less_divisor [of SHARD_LEAVES n]
    by (simp add: populated_shards_def geometry)
qed simp

lemma tree_root_node:
  assumes "mh_ok mh" and "tree_holds mh leaves t"
  shows "tree_root mh t = node mh (leaf_at mh leaves) TREE_DEPTH 0"
proof (cases "tree_size t = 0")
  case True
  then show ?thesis
    using assms node_empty [of mh TREE_DEPTH leaves 0] by (simp add: tree_root_def tree_holds_size [OF assms(2)]) (simp add: tree_holds_def)
next
  case False
  have "length leaves \<le> populated_shards t * 2 ^ SHARD_HEIGHT"
    using populated_shards_cover [of t] tree_holds_size [OF assms(2)] by (simp add: SHARD_LEAVES_def)
  from sparse_root_node [OF assms(1) _ this shard_roots_node [OF assms], of SHARD_HEIGHT 0]
  show ?thesis using False assms(2) by (simp add: tree_root_def sparse_subtree_root_def tree_holds_def geometry TREE_DEPTH_def)
qed

section \<open>Appending and rolling back\<close>

lemma node_prefix:
  assumes "take n xs = take n ys" and "n \<le> length xs" and "n \<le> length ys" and "(i + 1) * 2 ^ h \<le> n"
  shows "node mh (leaf_at mh xs) h i = node mh (leaf_at mh ys) h i"
proof (rule node_cong)
  fix j assume "i * 2 ^ h \<le> j" "j < (i + 1) * 2 ^ h"
  then have "j < n" using assms(4) by simp
  then show "leaf_at mh xs j = leaf_at mh ys j"
    using assms(2, 3) nth_take [of j n xs] nth_take [of j n ys] assms(1) by (simp add: leaf_at_def)
qed

lemma length_invalidate [simp]: "length (invalidate a b cache) = length cache"
  by (simp add: invalidate_def)

lemma nth_invalidate: "i < length cache \<Longrightarrow> invalidate a b cache ! i = (if a \<le> i \<and> i \<le> b then None else cache ! i)"
  by (simp add: invalidate_def nth_enumerate_eq)

text \<open>Changing the leaves past position \<open>keep\<close> keeps the store if the cache forgets every sub-shard that reaches past it.\<close>

lemma tree_holds_change:
  assumes h: "tree_holds mh xs t" and pre: "take keep xs = take keep ys" "keep \<le> length xs" "keep \<le> length ys"
    and off: "tr_leaf_offset t \<le> keep" and leaves: "tr_leaves u = drop (tr_leaf_offset t) ys"
    and same: "tr_empty_roots u = tr_empty_roots t" "tr_leaf_offset u = tr_leaf_offset t" "tr_prefetched u = tr_prefetched t"
    and len: "length (tr_ss_root_cache u) = L0_DB_ROWS"
    and clean: "\<And>slot r. slot < L0_DB_ROWS \<Longrightarrow> tr_ss_root_cache u ! slot = Some r \<Longrightarrow>
                  tr_ss_root_cache t ! slot = Some r \<and> (slot + 1) * SUBSHARD_LEAVES \<le> keep - tr_leaf_offset t"
  shows "tree_holds mh ys u"
proof -
  have ws: "window_start_shard u = window_start_shard t" by (simp add: window_start_shard_def same)
  note offset = tree_holds_offset [OF h]
  have roots: "tr_prefetched u ! i = node mh (leaf_at mh ys) SHARD_HEIGHT i" if "i < window_start_shard t" for i
  proof -
    have "(i + 1) * 2 ^ SHARD_HEIGHT \<le> window_start_shard t * 2 ^ SHARD_HEIGHT"
      using that by (intro mult_le_mono1) simp
    then have "(i + 1) * 2 ^ SHARD_HEIGHT \<le> keep" using off offset by (simp add: SHARD_LEAVES_def)
    from node_prefix [OF pre this] show ?thesis using h that by (simp add: same tree_holds_def)
  qed
  have cache: "slot * SUBSHARD_LEAVES < length (tr_leaves u)
      \<and> r = node mh (leaf_at mh ys) SUBSHARD_HEIGHT (window_start_shard t * SUBSHARDS_PER_SHARD + slot)"
    if slot: "slot < L0_DB_ROWS" "tr_ss_root_cache u ! slot = Some r" for slot r
  proof
    note c = clean [OF slot]
    then have "slot * 256 + 256 \<le> keep - tr_leaf_offset t" by (simp add: geometry)
    then have full: "slot * 256 + 256 + tr_leaf_offset t \<le> keep" using off by linarith
    from \<open>slot * 256 + 256 \<le> _\<close> have "slot * 256 < length ys - tr_leaf_offset t" using pre(3) off by linarith
    then show "slot * SUBSHARD_LEAVES < length (tr_leaves u)" by (simp add: leaves geometry)
    have "(window_start_shard t * SUBSHARDS_PER_SHARD + slot + 1) * 2 ^ SUBSHARD_HEIGHT \<le> keep"
      using full offset by (simp add: geometry algebra_simps)
    note eq = node_prefix [OF pre this, of mh]
    show "r = node mh (leaf_at mh ys) SUBSHARD_HEIGHT (window_start_shard t * SUBSHARDS_PER_SHARD + slot)"
      unfolding eq [symmetric] using h slot(1) c by (auto simp: tree_holds_def)
  qed
  show ?thesis unfolding tree_holds_def ws
    using h roots cache leaves off pre len by (auto simp: same tree_holds_def)
qed

lemma append_holds:
  assumes h: "tree_holds mh leaves t"
  shows "tree_holds mh (leaves @ cs) (append_commitments height hash cs t)"
proof (cases "cs = []")
  case True
  then show ?thesis using h by (auto simp: append_commitments_def tree_holds_def window_start_shard_def)
next
  case False
  let ?u = "append_commitments height hash cs t"
  have off: "tr_leaf_offset t \<le> length leaves" and tl: "tr_leaves t = drop (tr_leaf_offset t) leaves"
    and len: "length (tr_ss_root_cache t) = L0_DB_ROWS"
    using h by (auto simp: tree_holds_def)
  show ?thesis
  proof (rule tree_holds_change [OF h, where keep = "length leaves"])
    fix slot r
    assume slot: "slot < L0_DB_ROWS" "tr_ss_root_cache ?u ! slot = Some r"
    let ?n = "length (tr_leaves t)" and ?m = "length (tr_leaves t) + length cs"
    have c: "tr_ss_root_cache t ! slot = Some r" and d: "slot < ?n div SUBSHARD_LEAVES \<or> (?m - 1) div SUBSHARD_LEAVES < slot"
      using slot False len by (auto simp: append_commitments_def nth_invalidate Let_def split: if_splits)
    have "slot * SUBSHARD_LEAVES < ?n" using h slot(1) c by (auto simp: tree_holds_def)
    with d False have "(slot + 1) * SUBSHARD_LEAVES \<le> ?n"
      by (auto simp: geometry less_eq_div_iff_mult_less_eq simp flip: Suc_le_eq)
    then show "tr_ss_root_cache t ! slot = Some r \<and> (slot + 1) * SUBSHARD_LEAVES \<le> length leaves - tr_leaf_offset t"
      using c tl by simp
  qed (use off tl len False in \<open>auto simp: append_commitments_def Let_def\<close>)
qed

text \<open>The history of a tree: the blocks it holds with their commitments, oldest first.\<close>

type_synonym tree_history = "(u64 \<times> bytes \<times> node_hash list) list"

definition history_leaves :: "tree_history \<Rightarrow> node_hash list" where
  "history_leaves hist = concat (map (\<lambda>(height, hash, cs). cs) hist)"

definition history_block :: "u64 \<times> bytes \<times> node_hash list \<Rightarrow> tree_block" where
  "history_block = (\<lambda>(height, hash, cs). \<lparr> tb_height = height, tb_hash = hash, tb_num_commitments = of_nat (length cs) \<rparr>)"

definition history_rollback :: "u64 \<Rightarrow> tree_history \<Rightarrow> tree_history" where
  "history_rollback target_height hist = rev (dropWhile (\<lambda>b. fst b > target_height) (rev hist))"

definition tree_at :: "'m merkle_hash \<Rightarrow> node_hash list \<Rightarrow> tree_history \<Rightarrow> tree_db \<Rightarrow> bool" where
  "tree_at mh base hist t \<longleftrightarrow>
     tree_holds mh (base @ history_leaves hist) t \<and> tr_leaf_offset t = length base \<and> tr_blocks t = map history_block hist
     \<and> (\<forall>(height, hash, cs) \<in> set hist. length cs < 2 ^ 32)"

lemma pop_blocks_history:
  assumes "\<forall>(height, hash, cs) \<in> set rest. length cs < 2 ^ 32"
  shows "pop_blocks target_height (map history_block rest) n
    = (map history_block (dropWhile (\<lambda>b. fst b > target_height) rest),
       n + length (history_leaves (takeWhile (\<lambda>b. fst b > target_height) rest)))"
  using assms
proof (induction rest arbitrary: n)
  case (Cons b rest)
  obtain height hash cs where b: "b = (height, hash, cs)" by (cases b)
  have "unat (of_nat (length cs) :: u32) = length cs"
    using Cons.prems b by (simp add: unat_of_nat_small)
  then show ?case using Cons by (simp add: b history_block_def history_leaves_def)
qed (simp add: history_leaves_def)

lemma history_leaves_append [simp]: "history_leaves (xs @ ys) = history_leaves xs @ history_leaves ys"
  by (simp add: history_leaves_def)

lemma length_history_rev [simp]: "length (history_leaves (rev xs)) = length (history_leaves xs)"
  by (induction xs) (auto simp: history_leaves_def)

lemma history_rollback_split:
  "hist = history_rollback target_height hist @ rev (takeWhile (\<lambda>b. fst b > target_height) (rev hist))"
  unfolding history_rollback_def by (metis rev_append rev_rev_ident takeWhile_dropWhile_id)

lemma rollback_holds:
  assumes h: "tree_at mh base hist t"
  shows "tree_at mh base (history_rollback target_height hist) (tree_rollback_to target_height t)"
proof -
  let ?hist = "history_rollback target_height hist" and ?u = "tree_rollback_to target_height t"
  let ?gone = "takeWhile (\<lambda>b. fst b > target_height) (rev hist)"
  have holds: "tree_holds mh (base @ history_leaves hist) t" and off: "tr_leaf_offset t = length base"
    and blocks: "tr_blocks t = map history_block hist" and small: "\<forall>(height, hash, cs) \<in> set hist. length cs < 2 ^ 32"
    using h by (auto simp: tree_at_def)
  have split: "history_leaves hist = history_leaves ?hist @ history_leaves (rev ?gone)"
    by (subst history_rollback_split [of hist target_height]) simp
  have tl: "tr_leaves t = history_leaves hist" using holds off by (simp add: tree_holds_def)
  have len: "length (tr_ss_root_cache t) = L0_DB_ROWS" using holds by (simp add: tree_holds_def)
  have pop: "pop_blocks target_height (rev (tr_blocks t)) 0 = (map history_block (rev ?hist), length (history_leaves ?gone))"
    using pop_blocks_history [of "rev hist" target_height 0] small by (simp add: blocks history_rollback_def rev_map)
  have new_len: "length (tr_leaves t) - length (history_leaves ?gone) = length (history_leaves ?hist)"
    using split tl by simp
  have leaves: "tr_leaves ?u = history_leaves ?hist"
    using pop new_len by (simp add: tree_rollback_to_def tl split)
  have "tree_holds mh (base @ history_leaves ?hist) ?u"
  proof (rule tree_holds_change [OF holds, where keep = "length base + length (history_leaves ?hist)"])
    fix slot r
    assume slot: "slot < L0_DB_ROWS" "tr_ss_root_cache ?u ! slot = Some r"
    let ?n = "length (history_leaves ?hist)"
    have c: "tr_ss_root_cache t ! slot = Some r" and d: "slot < (if ?n = 0 then 0 else (?n - 1) div SUBSHARD_LEAVES)"
      using slot pop new_len len
      by (auto simp: tree_rollback_to_def Let_def nth_invalidate simp del: length_0_conv split: if_splits)
    from d have "(slot + 1) * SUBSHARD_LEAVES \<le> ?n"
      by (auto simp: geometry less_eq_div_iff_mult_less_eq simp flip: Suc_le_eq split: if_splits)
    then show "tr_ss_root_cache t ! slot = Some r \<and> (slot + 1) * SUBSHARD_LEAVES \<le> length base + length (history_leaves ?hist) - tr_leaf_offset t"
      using c off by simp
  qed (use off leaves len pop split in \<open>auto simp: tree_rollback_to_def Let_def\<close>)
  moreover have "tr_blocks ?u = map history_block ?hist" and "tr_leaf_offset ?u = length base"
    using pop off by (auto simp: tree_rollback_to_def Let_def rev_map)
  moreover have "set ?hist \<subseteq> set hist" by (subst (2) history_rollback_split [of hist target_height]) simp
  ultimately show ?thesis using small unfolding tree_at_def by blast
qed

section \<open>Building the rows and the broadcast\<close>

lemma window_shard_count_le: "window_shard_count t \<le> 32"
  by (simp add: window_shard_count_def L0_MAX_SHARDS_def)

text \<open>The value of a build, independent of the cache: the leaves in position order and the roots of the reference tree.\<close>

definition window_rows :: "'m merkle_hash \<Rightarrow> node_hash list \<Rightarrow> tree_db \<Rightarrow> bytes" where
  "window_rows mh leaves t =
     concat (map (\<lambda>k. leaf_at mh leaves (tr_leaf_offset t + k)) [0..<window_shard_count t * SHARD_LEAVES])"

definition window_roots :: "'m merkle_hash \<Rightarrow> node_hash list \<Rightarrow> nat \<Rightarrow> node_hash list" where
  "window_roots mh leaves sh = map (\<lambda>ss. node mh (leaf_at mh leaves) SUBSHARD_HEIGHT (sh * 2 ^ SUBSHARD_HEIGHT + ss)) [0..<2 ^ SUBSHARD_HEIGHT]"

definition window_broadcast :: "'m merkle_hash \<Rightarrow> node_hash list \<Rightarrow> u64 \<Rightarrow> tree_db \<Rightarrow> broadcast_data" where
  "window_broadcast mh leaves anchor_height t =
     \<lparr> bd_shard_roots = map (node mh (leaf_at mh leaves) SHARD_HEIGHT) [0..<window_start_shard t + window_shard_count t],
       bd_subshard_roots = map (\<lambda>i. window_roots mh leaves (window_start_shard t + i)) [0..<window_shard_count t],
       bd_window_start_shard = window_start_shard t, bd_window_shard_count = window_shard_count t, bd_anchor_height = anchor_height \<rparr>"

lemma holds_cache_update:
  assumes "tree_holds mh leaves (t \<lparr> tr_ss_root_cache := c \<rparr>)" and "slot < L0_DB_ROWS"
    and "slot * SUBSHARD_LEAVES < length (tr_leaves t)"
    and "r = node mh (leaf_at mh leaves) SUBSHARD_HEIGHT (window_start_shard t * SUBSHARDS_PER_SHARD + slot)"
  shows "tree_holds mh leaves (t \<lparr> tr_ss_root_cache := c[slot := Some r] \<rparr>)"
  using assms by (auto simp: tree_holds_def window_start_shard_def nth_list_update)

lemma build_subshard_node:
  assumes ok: "mh_ok mh" and h: "tree_holds mh leaves t" and c: "tree_holds mh leaves (t \<lparr> tr_ss_root_cache := c \<rparr>)"
    and i: "i < window_shard_count t" and ss: "ss < 2 ^ SUBSHARD_HEIGHT"
  obtains c' where "tree_holds mh leaves (t \<lparr> tr_ss_root_cache := c' \<rparr>)"
    and "\<forall>db rs. build_subshard mh t i ss (c, db, rs)
          = (c', db @ concat (subshard_leaves t (window_start_shard t + i) ss),
             rs @ [node mh (leaf_at mh leaves) SUBSHARD_HEIGHT ((window_start_shard t + i) * SUBSHARDS_PER_SHARD + ss)])"
proof -
  let ?sh = "window_start_shard t + i" and ?slot = "i * SUBSHARDS_PER_SHARD + ss"
  let ?node = "node mh (leaf_at mh leaves) SUBSHARD_HEIGHT (?sh * SUBSHARDS_PER_SHARD + ss)"
  have index: "window_start_shard t * SUBSHARDS_PER_SHARD + ?slot = ?sh * SUBSHARDS_PER_SHARD + ss" by (simp add: algebra_simps)
  have slot: "?slot < L0_DB_ROWS" using i ss window_shard_count_le [of t] by (simp add: geometry)
  consider (beyond) "?sh * SHARD_LEAVES + ss * SUBSHARD_LEAVES \<ge> tree_size t"
    | (cached) r where "\<not> ?sh * SHARD_LEAVES + ss * SUBSHARD_LEAVES \<ge> tree_size t" "c ! ?slot = Some r"
    | (dirty) "\<not> ?sh * SHARD_LEAVES + ss * SUBSHARD_LEAVES \<ge> tree_size t" "c ! ?slot = None"
    by (cases "c ! ?slot") blast+
  then show ?thesis
  proof cases
    case beyond
    then show ?thesis using that [OF c] beyond_frontier [OF ok h beyond] by (simp add: build_subshard_def Let_def)
  next
    case cached
    have "r = ?node" using c slot cached(2) unfolding index [symmetric]
      by (auto simp: tree_holds_def window_start_shard_def)
    then show ?thesis using that [OF c] cached by (simp add: build_subshard_def Let_def)
  next
    case dirty
    have "?slot * SUBSHARD_LEAVES < length (tr_leaves t)"
      using dirty(1) tree_holds_offset [OF h] by (simp add: tree_size_def geometry algebra_simps)
    from holds_cache_update [OF c slot this] have "tree_holds mh leaves (t \<lparr> tr_ss_root_cache := c[?slot := Some ?node] \<rparr>)"
      unfolding index by simp
    from that [OF this] show ?thesis
      using dirty subshard_root_node [OF h, of ?sh ss] by (simp add: build_subshard_def Let_def)
  qed
qed

lemma build_subshards_node:
  assumes "mh_ok mh" and "tree_holds mh leaves t" and "tree_holds mh leaves (t \<lparr> tr_ss_root_cache := c \<rparr>)"
    and "i < window_shard_count t" and "n \<le> 2 ^ SUBSHARD_HEIGHT"
  shows "\<exists>c'. tree_holds mh leaves (t \<lparr> tr_ss_root_cache := c' \<rparr>)
    \<and> (\<forall>db. fold (build_subshard mh t i) [0..<n] (c, db, [])
        = (c', db @ concat (map (\<lambda>ss. concat (subshard_leaves t (window_start_shard t + i) ss)) [0..<n]),
           map (\<lambda>ss. node mh (leaf_at mh leaves) SUBSHARD_HEIGHT ((window_start_shard t + i) * SUBSHARDS_PER_SHARD + ss)) [0..<n]))"
  using assms(5)
proof (induction n)
  case 0
  then show ?case using assms(3) by auto
next
  case (Suc n)
  then obtain c' where c': "tree_holds mh leaves (t \<lparr> tr_ss_root_cache := c' \<rparr>)"
    "\<forall>db. fold (build_subshard mh t i) [0..<n] (c, db, [])
        = (c', db @ concat (map (\<lambda>ss. concat (subshard_leaves t (window_start_shard t + i) ss)) [0..<n]),
           map (\<lambda>ss. node mh (leaf_at mh leaves) SUBSHARD_HEIGHT ((window_start_shard t + i) * SUBSHARDS_PER_SHARD + ss)) [0..<n])"
    by auto
  have n: "n < 2 ^ SUBSHARD_HEIGHT" using Suc.prems by simp
  obtain c'' where "tree_holds mh leaves (t \<lparr> tr_ss_root_cache := c'' \<rparr>)" and
    "\<forall>db rs. build_subshard mh t i n (c', db, rs)
       = (c'', db @ concat (subshard_leaves t (window_start_shard t + i) n),
          rs @ [node mh (leaf_at mh leaves) SUBSHARD_HEIGHT ((window_start_shard t + i) * SUBSHARDS_PER_SHARD + n)])"
    using build_subshard_node [OF assms(1, 2) c'(1) assms(4) n] by blast
  then show ?case by (auto simp: c'(2))
qed

lemma concat_blocks: "concat (map (\<lambda>i. map f [i * n..<(i + 1) * n]) [0..<m]) = map f [0..<m * n]"
proof (induction m)
  case (Suc m)
  have "[0..<Suc m * n] = [0..<m * n] @ [m * n..<Suc m * n]"
    using upt_add_eq_append [of 0 "m * n" n] by (simp add: add.commute)
  then show ?case using Suc.IH by simp
qed simp

lemma concat_concat_map: "concat (map (\<lambda>x. concat (g x)) xs) = concat (concat (map g xs))"
  by (induction xs) simp_all

lemma build_shard_node:
  assumes "mh_ok mh" and "tree_holds mh leaves t" and "tree_holds mh leaves (t \<lparr> tr_ss_root_cache := c \<rparr>)" and "i < window_shard_count t"
  obtains c' where "tree_holds mh leaves (t \<lparr> tr_ss_root_cache := c' \<rparr>)"
    and "\<forall>db roots ssr. build_shard mh t i (c, db, roots, ssr)
          = (c', db @ concat (map (\<lambda>k. leaf_at mh leaves (tr_leaf_offset t + k)) [i * SHARD_LEAVES..<(i + 1) * SHARD_LEAVES]),
             roots @ [node mh (leaf_at mh leaves) SHARD_HEIGHT (window_start_shard t + i)],
             ssr @ [window_roots mh leaves (window_start_shard t + i)])"
proof -
  let ?sh = "window_start_shard t + i" and ?leaf = "leaf_at mh leaves"
  have off: "tr_leaf_offset t = window_start_shard t * SHARD_LEAVES" by (rule tree_holds_offset [OF assms(2)])
  have row: "subshard_leaves t ?sh ss = map (\<lambda>k. ?leaf (?sh * SHARD_LEAVES + k)) [ss * SUBSHARD_LEAVES..<(ss + 1) * SUBSHARD_LEAVES]" for ss
    unfolding subshard_leaves_node [OF assms(2) le_add1]
    by (rule nth_equalityI) (auto simp: geometry algebra_simps)
  have "concat (map (\<lambda>ss. subshard_leaves t ?sh ss) [0..<2 ^ SUBSHARD_HEIGHT])
      = map (\<lambda>k. ?leaf (?sh * SHARD_LEAVES + k)) [0..<2 ^ SUBSHARD_HEIGHT * SUBSHARD_LEAVES]"
    unfolding row by (rule concat_blocks)
  also have "\<dots> = map (\<lambda>k. ?leaf (tr_leaf_offset t + k)) [i * SHARD_LEAVES..<(i + 1) * SHARD_LEAVES]"
    by (rule nth_equalityI) (auto simp: off geometry algebra_simps)
  finally have rows: "concat (map (\<lambda>ss. concat (subshard_leaves t ?sh ss)) [0..<2 ^ SUBSHARD_HEIGHT])
      = concat (map (\<lambda>k. ?leaf (tr_leaf_offset t + k)) [i * SHARD_LEAVES..<(i + 1) * SHARD_LEAVES])"
    by (simp add: concat_concat_map)
  obtain c' where c': "tree_holds mh leaves (t \<lparr> tr_ss_root_cache := c' \<rparr>)"
    "\<forall>db. fold (build_subshard mh t i) [0..<2 ^ SUBSHARD_HEIGHT] (c, db, [])
        = (c', db @ concat (map (\<lambda>ss. concat (subshard_leaves t ?sh ss)) [0..<2 ^ SUBSHARD_HEIGHT]), window_roots mh leaves ?sh)"
    using build_subshards_node [OF assms le_refl]
    unfolding window_roots_def SUBSHARDS_PER_SHARD_def by blast
  show ?thesis
    by (rule that [OF c'(1)])
      (simp add: build_shard_def upt_width c'(2) rows shard_root_node [OF window_roots_def])
qed

lemma build_shards_node:
  assumes "mh_ok mh" and "tree_holds mh leaves t" and "n \<le> window_shard_count t"
  shows "\<exists>c'. tree_holds mh leaves (t \<lparr> tr_ss_root_cache := c' \<rparr>)
    \<and> fold (build_shard mh t) [0..<n] (tr_ss_root_cache t, [], roots, [])
        = (c', concat (map (\<lambda>k. leaf_at mh leaves (tr_leaf_offset t + k)) [0..<n * SHARD_LEAVES]),
           roots @ map (\<lambda>i. node mh (leaf_at mh leaves) SHARD_HEIGHT (window_start_shard t + i)) [0..<n],
           map (\<lambda>i. window_roots mh leaves (window_start_shard t + i)) [0..<n])"
  using assms(3)
proof (induction n)
  case 0
  then show ?case using assms(2) by (auto intro!: exI [of _ "tr_ss_root_cache t"])
next
  case (Suc n)
  then obtain c' where c': "tree_holds mh leaves (t \<lparr> tr_ss_root_cache := c' \<rparr>)"
    "fold (build_shard mh t) [0..<n] (tr_ss_root_cache t, [], roots, [])
        = (c', concat (map (\<lambda>k. leaf_at mh leaves (tr_leaf_offset t + k)) [0..<n * SHARD_LEAVES]),
           roots @ map (\<lambda>i. node mh (leaf_at mh leaves) SHARD_HEIGHT (window_start_shard t + i)) [0..<n],
           map (\<lambda>i. window_roots mh leaves (window_start_shard t + i)) [0..<n])"
    by auto
  have n: "n < window_shard_count t" using Suc.prems by simp
  have split: "[0..<Suc n * SHARD_LEAVES] = [0..<n * SHARD_LEAVES] @ [n * SHARD_LEAVES..<(n + 1) * SHARD_LEAVES]"
    using upt_add_eq_append [of 0 "n * SHARD_LEAVES" SHARD_LEAVES] by (simp add: add.commute)
  obtain c'' where "tree_holds mh leaves (t \<lparr> tr_ss_root_cache := c'' \<rparr>)" and
    "\<forall>db roots ssr. build_shard mh t n (c', db, roots, ssr)
          = (c'', db @ concat (map (\<lambda>k. leaf_at mh leaves (tr_leaf_offset t + k)) [n * SHARD_LEAVES..<(n + 1) * SHARD_LEAVES]),
             roots @ [node mh (leaf_at mh leaves) SHARD_HEIGHT (window_start_shard t + n)],
             ssr @ [window_roots mh leaves (window_start_shard t + n)])"
    using build_shard_node [OF assms(1, 2) c'(1) n] by blast
  then show ?case unfolding split by (auto simp: c'(2) simp del: mult_Suc)
qed

lemma build_value:
  assumes "mh_ok mh" and h: "tree_holds mh leaves t"
  obtains c' where "tree_holds mh leaves (t \<lparr> tr_ss_root_cache := c' \<rparr>)"
    and "build_pir_db_and_broadcast mh anchor_height t
          = (t \<lparr> tr_ss_root_cache := c' \<rparr>, set_len L0_DB_BYTES (window_rows mh leaves t), window_broadcast mh leaves anchor_height t)"
proof -
  let ?ws = "window_start_shard t" and ?n = "window_shard_count t" and ?root = "node mh (leaf_at mh leaves) SHARD_HEIGHT"
  have pre: "map (prefetched_root t) [0..<?ws] = map ?root [0..<?ws]" using prefetched_root_node [OF h] by simp
  have all: "map ?root [0..<?ws] @ map (\<lambda>i. ?root (?ws + i)) [0..<?n] = map ?root [0..<?ws + ?n]"
    using upt_shift [of ?root ?ws ?n] upt_add_eq_append [of 0 ?ws ?n] by (simp add: add.commute)
  obtain c' where c': "tree_holds mh leaves (t \<lparr> tr_ss_root_cache := c' \<rparr>)"
    "fold (build_shard mh t) [0..<?n] (tr_ss_root_cache t, [], map ?root [0..<?ws], [])
        = (c', window_rows mh leaves t, map ?root [0..<?ws + ?n], map (\<lambda>i. window_roots mh leaves (?ws + i)) [0..<?n])"
    using build_shards_node [OF assms le_refl] unfolding window_rows_def all [symmetric] by blast
  show ?thesis
    by (rule that [OF c'(1)]) (simp add: build_pir_db_and_broadcast_def pre c'(2) window_broadcast_def)
qed

section \<open>Every run\<close>

datatype tree_op = Append_op u64 bytes "node_hash list" | Rollback_op u64 | Build_op u64

fun tree_run :: "'m merkle_hash \<Rightarrow> tree_op list \<Rightarrow> tree_db \<Rightarrow> tree_db" where
  "tree_run mh [] t = t"
| "tree_run mh (Append_op height hash cs # ops) t = tree_run mh ops (append_commitments height hash cs t)"
| "tree_run mh (Rollback_op height # ops) t = tree_run mh ops (tree_rollback_to height t)"
| "tree_run mh (Build_op height # ops) t = tree_run mh ops (fst (build_pir_db_and_broadcast mh height t))"

text \<open>The specification of a run: the list of blocks, no tree and no cache.\<close>

fun history_run :: "tree_op list \<Rightarrow> tree_history \<Rightarrow> tree_history" where
  "history_run [] hist = hist"
| "history_run (Append_op height hash cs # ops) hist = history_run ops (hist @ [(height, hash, cs)])"
| "history_run (Rollback_op height # ops) hist = history_run ops (history_rollback height hist)"
| "history_run (Build_op height # ops) hist = history_run ops hist"

definition appends_fit :: "tree_op list \<Rightarrow> bool" where
  "appends_fit ops \<longleftrightarrow> (\<forall>height hash cs. Append_op height hash cs \<in> set ops \<longrightarrow> length cs < 2 ^ 32)"

lemma append_at: "tree_at mh base hist t \<Longrightarrow> length cs < 2 ^ 32 \<Longrightarrow> tree_at mh base (hist @ [(height, hash, cs)]) (append_commitments height hash cs t)"
  using append_holds [of mh "base @ history_leaves hist" t cs height hash]
  by (auto simp: tree_at_def history_leaves_def history_block_def append_commitments_def Let_def)

lemma build_at:
  assumes "mh_ok mh" and "tree_at mh base hist t"
  shows "tree_at mh base hist (fst (build_pir_db_and_broadcast mh height t))"
proof -
  from assms(2) have h: "tree_holds mh (base @ history_leaves hist) t" by (simp add: tree_at_def)
  show ?thesis by (rule build_value [OF assms(1) h, of height]) (use assms(2) in \<open>simp add: tree_at_def\<close>)
qed

lemma run_at: "mh_ok mh \<Longrightarrow> appends_fit ops \<Longrightarrow> tree_at mh base hist t \<Longrightarrow> tree_at mh base (history_run ops hist) (tree_run mh ops t)"
proof (induction mh ops t arbitrary: hist rule: tree_run.induct)
  case (2 mh height hash cs ops t)
  then have fit: "length cs < 2 ^ 32" "appends_fit ops" by (auto simp: appends_fit_def)
  show ?case using "2.IH" [OF "2.prems"(1) fit(2) append_at [OF "2.prems"(3) fit(1)]] by simp
next
  case (3 mh height ops t)
  then have fit: "appends_fit ops" by (auto simp: appends_fit_def)
  show ?case using "3.IH" [OF "3.prems"(1) fit rollback_holds [OF "3.prems"(3)]] by simp
next
  case (4 mh height ops t)
  then have fit: "appends_fit ops" by (auto simp: appends_fit_def)
  show ?case using "4.IH" [OF "4.prems"(1) fit build_at [OF "4.prems"(1, 3)]] by simp
qed simp

text \<open>The shard roots handed to a windowed tree are those of the leaves before the window.\<close>

definition prefetch_ok :: "'m merkle_hash \<Rightarrow> node_hash list \<Rightarrow> node_hash list \<Rightarrow> bool" where
  "prefetch_ok mh base prefetched \<longleftrightarrow>
     length base mod SHARD_LEAVES = 0 \<and> length base div SHARD_LEAVES \<le> length prefetched \<and>
     (\<forall>i < length base div SHARD_LEAVES. prefetched ! i = node mh (leaf_at mh base) SHARD_HEIGHT i)"

lemma with_offset_at: "prefetch_ok mh base prefetched \<Longrightarrow> tree_at mh base [] (with_offset mh (length base) prefetched)"
  by (auto simp: prefetch_ok_def tree_at_def tree_holds_def with_offset_def window_start_shard_def history_leaves_def)

lemmas run_from_offset = run_at [OF _ _ with_offset_at]

text \<open>A concrete hash, for evaluation: a node is a byte, and a parent is the sum of its children.\<close>

definition sum_hash :: "u8 merkle_hash" where
  "sum_hash = \<lparr> mho_from_bytes = (\<lambda>bs. Some (bs ! 0)), mho_to_bytes = (\<lambda>m. m # replicate 31 0), mho_combine = (\<lambda>level a b. a + b),
     mho_empty_leaf = 2, mho_empty_root = (\<lambda>level. 2 * 2 ^ level) \<rparr>"

definition sample_leaf :: "u8 \<Rightarrow> node_hash" where
  "sample_leaf b = b # replicate 31 0"

definition sample_ops :: "tree_op list" where
  "sample_ops = [Append_op 1 (replicate 32 1) [sample_leaf 5, sample_leaf 6], Build_op 1, Append_op 2 (replicate 32 2) [sample_leaf 7],
     Build_op 2, Rollback_op 1, Append_op 2 (replicate 32 3) [sample_leaf 8, sample_leaf 9]]"

lemma sum_hash_ok: "mh_ok sum_hash"
  by (simp add: mh_ok_def sum_hash_def)

lemma prefetch_ok_Nil: "prefetch_ok mh [] []"
  by (simp add: prefetch_ok_def)

lemma sample_ops_fit: "appends_fit sample_ops"
  by (auto simp: appends_fit_def sample_ops_def)

lemma sample_history: "history_leaves (history_run sample_ops []) = [sample_leaf 5, sample_leaf 6, sample_leaf 8, sample_leaf 9]"
  by (simp add: sample_ops_def history_leaves_def history_rollback_def)

text \<open>
  C24. Every root the tree computes is the root of the reference Merkle tree: from a windowed tree whose prefetched shard roots
  are right, after any sequence of appends, rollbacks and builds, \<open>tree_root\<close> is the root, 32 levels up, of the complete binary
  tree over the leaves before the window, the commitments of the blocks still held, and empty leaves. The sparse routine, the
  sub-shard and shard decomposition and the cache of the code do not show in the result.
\<close>

theorem tree_root_exact:
  assumes "mh_ok mh" and "prefetch_ok mh base prefetched" and "appends_fit ops"
    and "t = tree_run mh ops (with_offset mh (length base) prefetched)" and "hist = history_run ops []"
  shows "tree_root mh t = node mh (leaf_at mh (base @ history_leaves hist)) TREE_DEPTH 0
    \<and> tree_size t = length base + length (history_leaves hist)"
proof -
  have h: "tree_holds mh (base @ history_leaves hist) t"
    using run_from_offset [OF assms(1, 3, 2)] by (simp add: assms(4, 5) tree_at_def)
  then show ?thesis using tree_root_node [OF assms(1) h] tree_holds_size [OF h] by simp
qed

theorem tree_root_exact_witness:
  "tree_root sum_hash (tree_run sum_hash sample_ops (with_offset sum_hash 0 []))
     = node sum_hash (leaf_at sum_hash [sample_leaf 5, sample_leaf 6, sample_leaf 8, sample_leaf 9]) TREE_DEPTH 0
   \<and> tree_size (tree_run sum_hash sample_ops (with_offset sum_hash 0 [])) = 4"
  using tree_root_exact [OF sum_hash_ok prefetch_ok_Nil sample_ops_fit refl refl] by (simp add: sample_history)

text \<open>
  The window does not slide: whatever is appended, a build starts at the shard the tree was made with and covers at most 32 shards, so once there
  are more local leaves than 32 shards hold, the roots it broadcasts are fewer than the populated shards. The README of the witness crates describes
  a window that drops its oldest shard, and the comment on \<open>CapData\<close> one root for every populated shard.
\<close>

lemma window_never_slides:
  assumes "mh_ok mh" and "prefetch_ok mh base prefetched" and "appends_fit ops"
    and "t = tree_run mh ops (with_offset mh (length base) prefetched)"
    and "L0_MAX_SHARDS * SHARD_LEAVES < length (history_leaves (history_run ops []))"
  shows "\<exists>u db b. build_pir_db_and_broadcast mh anchor_height t = (u, db, b) \<and> bd_window_start_shard b = length base div SHARD_LEAVES
    \<and> bd_window_shard_count b = L0_MAX_SHARDS \<and> length (bd_shard_roots b) < populated_shards t"
proof -
  let ?leaves = "base @ history_leaves (history_run ops [])"
  have at: "tree_at mh base (history_run ops []) t" using run_from_offset [OF assms(1, 3, 2)] by (simp add: assms(4))
  then have h: "tree_holds mh ?leaves t" and off: "tr_leaf_offset t = length base" by (simp_all add: tree_at_def)
  have ws: "window_start_shard t * SHARD_LEAVES = length base" using tree_holds_offset [OF h] off by simp
  have size: "tree_size t = length base + length (history_leaves (history_run ops []))" using tree_holds_size [OF h] by simp
  have pos: "0 < SHARD_LEAVES" by (simp add: geometry)
  have "(window_start_shard t + L0_MAX_SHARDS) * SHARD_LEAVES \<le> tree_size t - 1"
    using assms(5) size ws by (simp add: add_mult_distrib)
  then have many: "window_start_shard t + L0_MAX_SHARDS \<le> (tree_size t - 1) div SHARD_LEAVES"
    using pos by (simp add: less_eq_div_iff_mult_less_eq)
  have "tr_leaves t \<noteq> []" "tree_size t \<noteq> 0" using h assms(5) size off by (auto simp: tree_holds_def)
  then have c: "window_shard_count t = L0_MAX_SHARDS" "window_start_shard t + L0_MAX_SHARDS < populated_shards t"
    using many by (simp_all add: window_shard_count_def local_shard_count_def populated_shards_def)
  obtain c' where "build_pir_db_and_broadcast mh anchor_height t
      = (t \<lparr> tr_ss_root_cache := c' \<rparr>, set_len L0_DB_BYTES (window_rows mh ?leaves t), window_broadcast mh ?leaves anchor_height t)"
    using build_value [OF assms(1) h] by blast
  then show ?thesis using c off by (simp add: window_broadcast_def window_start_shard_def)
qed

text \<open>
  C16. The cache of sub-shard roots is never stale: after any sequence of appends, rollbacks and builds, a build writes the leaves
  of the window in position order, padded to the database's size, and the roots of the reference tree, whatever the cache
  holds; the tree it leaves differs in the cache only, and so the next build of the same tree gives the same rows and roots. The window is the
  one the code has, which starts where the tree was made to start and is cut at 32 shards (\<open>window_never_slides\<close>).
\<close>

theorem build_never_stale:
  assumes "mh_ok mh" and "prefetch_ok mh base prefetched" and "appends_fit ops"
    and "t = tree_run mh ops (with_offset mh (length base) prefetched)" and "leaves = base @ history_leaves (history_run ops [])"
  shows "snd (build_pir_db_and_broadcast mh anchor_height t)
           = (set_len L0_DB_BYTES (window_rows mh leaves t), window_broadcast mh leaves anchor_height t)
    \<and> (\<exists>cache. fst (build_pir_db_and_broadcast mh anchor_height t) = t \<lparr> tr_ss_root_cache := cache \<rparr>
         \<and> snd (build_pir_db_and_broadcast mh anchor_height (t \<lparr> tr_ss_root_cache := cache \<rparr>))
             = snd (build_pir_db_and_broadcast mh anchor_height t))"
proof -
  have h: "tree_holds mh leaves t" using run_from_offset [OF assms(1, 3, 2)] by (simp add: assms(4, 5) tree_at_def)
  obtain c' where c': "tree_holds mh leaves (t \<lparr> tr_ss_root_cache := c' \<rparr>)"
    "build_pir_db_and_broadcast mh anchor_height t
       = (t \<lparr> tr_ss_root_cache := c' \<rparr>, set_len L0_DB_BYTES (window_rows mh leaves t), window_broadcast mh leaves anchor_height t)"
    using build_value [OF assms(1) h] by blast
  have "window_rows mh leaves (t \<lparr> tr_ss_root_cache := c' \<rparr>) = window_rows mh leaves t"
    "window_broadcast mh leaves anchor_height (t \<lparr> tr_ss_root_cache := c' \<rparr>) = window_broadcast mh leaves anchor_height t"
    by (simp_all add: window_rows_def window_broadcast_def window_shard_count_def local_shard_count_def tree_size_def window_start_shard_def)
  then have "snd (build_pir_db_and_broadcast mh anchor_height (t \<lparr> tr_ss_root_cache := c' \<rparr>))
     = (set_len L0_DB_BYTES (window_rows mh leaves t), window_broadcast mh leaves anchor_height t)"
    using build_value [OF assms(1) c'(1), of anchor_height] by (metis snd_conv)
  then show ?thesis using c'(2) by auto
qed

theorem build_never_stale_witness:
  "fst (snd (build_pir_db_and_broadcast sum_hash 7 (tree_run sum_hash sample_ops (with_offset sum_hash 0 []))))
     = set_len L0_DB_BYTES (window_rows sum_hash [sample_leaf 5, sample_leaf 6, sample_leaf 8, sample_leaf 9]
         (tree_run sum_hash sample_ops (with_offset sum_hash 0 [])))"
  using build_never_stale [OF sum_hash_ok prefetch_ok_Nil sample_ops_fit refl refl, of 7] by (simp add: sample_history)

end
