(* ===== verification/Witness_Client.thy ===== *)
theory Witness_Client
  imports Pir_Client Witness_Tree
begin

text \<open>
  The witness client of the legacy spendability demo, \<open>witness/witness-client/src/lib.rs\<close> and \<open>reconstruct.rs\<close>, with the epoch
  tag of \<open>pir-types/src/lib.rs\<close>: one private query for the row of a note, the refresh of the published parameters when the server
  rotates its snapshot, and the authentication path from the row and the broadcast.

  Everything the client combines comes from a server, so its own \<open>hash_combine\<close> is fallible here: an encoding that is not a
  hash is the error \<open>Wc_Panic\<close>, as is an index out of range. The HTTP library is a pair of functions on a state of the outside world;
  the cryptographic crates are the records \<open>client_sp\<close> and \<open>merkle_hash\<close>.
\<close>

section \<open>Epochs\<close>

definition PIR_EPOCH_BYTES :: nat where "PIR_EPOCH_BYTES = 8"

text \<open>FNV-1a over the published bytes.\<close>

definition public_params_epoch :: "bytes \<Rightarrow> bytes" where
  "public_params_epoch public_params =
     u64_le (fold (\<lambda>byte hash. (hash XOR ucast byte) * 0x100000001b3) public_params (0xcbf29ce484222325 :: u64))"

definition split_epoch :: "bytes \<Rightarrow> (bytes \<times> bytes) option" where
  "split_epoch response =
     (if length response < PIR_EPOCH_BYTES then None else Some (take PIR_EPOCH_BYTES response, drop PIR_EPOCH_BYTES response))"

section \<open>Reconstruction\<close>

datatype witness_client_error =
    Wc_Http string
  | Wc_ServerUnavailable
  | Wc_InvalidParams string
  | Wc_QueryFailed string
  | Wc_PublicParamsUnstable
  | Wc_MalformedResponse nat
  | Wc_PositionOutsideWindow u64 nat nat
  | Wc_VerificationFailed u64
  | Wc_PoolMismatch string string
  | Wc_Panic

record pir_witness =
  pw_position :: u64
  pw_siblings :: "node_hash list"
  pw_anchor_height :: u64
  pw_anchor_root :: node_hash

definition bytes_to_mho :: "'m merkle_hash \<Rightarrow> node_hash \<Rightarrow> witness_client_error + 'm" where
  "bytes_to_mho mh hash = ok_or Wc_Panic (mho_from_bytes mh hash)"

definition client_combine :: "'m merkle_hash \<Rightarrow> nat \<Rightarrow> node_hash \<Rightarrow> node_hash \<Rightarrow> witness_client_error + node_hash" where
  "client_combine mh level left right =
     bindR (bytes_to_mho mh left) (\<lambda>l. bindR (bytes_to_mho mh right) (\<lambda>r. Inr (mho_to_bytes mh (mho_combine mh level l r))))"

definition empty_root :: "'m merkle_hash \<Rightarrow> nat \<Rightarrow> node_hash" where
  "empty_root mh level = mho_to_bytes mh (mho_empty_root mh level)"

text \<open>\<open>chunks(2)\<close>: an odd last node is combined with the empty root of its level.\<close>

fun combine_chunks :: "'m merkle_hash \<Rightarrow> nat \<Rightarrow> node_hash list \<Rightarrow> witness_client_error + node_hash list" where
  "combine_chunks mh level [] = Inr []"
| "combine_chunks mh level [a] = bindR (client_combine mh level a (empty_root mh level)) (\<lambda>h. Inr [h])"
| "combine_chunks mh level (a # b # rest) =
     bindR (client_combine mh level a b) (\<lambda>h. bindR (combine_chunks mh level rest) (\<lambda>hs. Inr (h # hs)))"

text \<open>\<open>idx ^ 1\<close>.\<close>

definition flip_bit0 :: "nat \<Rightarrow> nat" where
  "flip_bit0 idx = (if even idx then idx + 1 else idx - 1)"

fun extract_levels ::
  "'m merkle_hash \<Rightarrow> nat \<Rightarrow> nat \<Rightarrow> node_hash list \<Rightarrow> nat \<Rightarrow> node_hash list \<Rightarrow> witness_client_error + node_hash list" where
  "extract_levels mh 0 tree_level nodes idx siblings = Inr siblings"
| "extract_levels mh (Suc k) tree_level nodes idx siblings =
     (if tree_level \<ge> length siblings then Inl Wc_Panic
      else let sibling_idx = flip_bit0 idx;
               siblings = siblings[tree_level := if sibling_idx < length nodes then nodes ! sibling_idx else empty_root mh tree_level]
           in bindR (combine_chunks mh tree_level nodes) (\<lambda>next_nodes.
              extract_levels mh k (tree_level + 1) next_nodes (idx div 2) siblings))"

definition extract_siblings ::
  "'m merkle_hash \<Rightarrow> node_hash list \<Rightarrow> nat \<Rightarrow> nat \<Rightarrow> node_hash list \<Rightarrow> witness_client_error + node_hash list" where
  "extract_siblings mh nodes index base_level siblings =
     extract_levels mh (trailing_zeros (length nodes)) base_level nodes index siblings"

fun compute_root_from_path :: "'m merkle_hash \<Rightarrow> nat \<Rightarrow> nat \<Rightarrow> node_hash \<Rightarrow> node_hash list \<Rightarrow> witness_client_error + node_hash" where
  "compute_root_from_path mh level pos current [] = Inr current"
| "compute_root_from_path mh level pos current (sibling # rest) =
     bindR (if even pos then client_combine mh level current sibling else client_combine mh level sibling current)
       (\<lambda>current. compute_root_from_path mh (level + 1) (pos div 2) current rest)"

definition parse_leaves :: "bytes \<Rightarrow> witness_client_error + node_hash list" where
  "parse_leaves decoded_row =
     (if length decoded_row < SUBSHARD_ROW_BYTES then Inl (Wc_QueryFailed ''decoded row too short'')
      else Inr (chunks_exact SUBSHARD_LEAVES 32 decoded_row))"

definition reconstruct_witness ::
  "'m merkle_hash \<Rightarrow> u64 \<Rightarrow> nat \<Rightarrow> nat \<Rightarrow> nat \<Rightarrow> bytes \<Rightarrow> broadcast_data \<Rightarrow> witness_client_error + pir_witness" where
  "reconstruct_witness mh position shard_idx subshard_idx leaf_idx decoded_row broadcast =
     bindR (parse_leaves decoded_row) (\<lambda>leaves.
     bindR (extract_siblings mh leaves leaf_idx 0 (replicate TREE_DEPTH (replicate 32 0))) (\<lambda>siblings.
     if shard_idx < bd_window_start_shard broadcast
        \<or> shard_idx - bd_window_start_shard broadcast \<ge> length (bd_subshard_roots broadcast) then Inl Wc_Panic
     else let ss_roots = bd_subshard_roots broadcast ! (shard_idx - bd_window_start_shard broadcast) in
     bindR (extract_siblings mh ss_roots subshard_idx SUBSHARD_HEIGHT siblings) (\<lambda>siblings.
     let total_cap_slots = 2 ^ SHARD_HEIGHT;
         cap = bd_shard_roots broadcast;
         padded_cap = take total_cap_slots cap @ replicate (total_cap_slots - length cap) (empty_root mh SHARD_HEIGHT) in
     bindR (extract_siblings mh padded_cap shard_idx SHARD_HEIGHT siblings) (\<lambda>siblings.
     if leaf_idx \<ge> length leaves then Inl Wc_Panic
     else bindR (compute_root_from_path mh 0 (unat position) (leaves ! leaf_idx) siblings) (\<lambda>anchor_root.
     Inr \<lparr> pw_position = position, pw_siblings = siblings, pw_anchor_height = bd_anchor_height broadcast, pw_anchor_root = anchor_root \<rparr>)))))"

section \<open>The client\<close>

record published_params =
  pp_c1 :: "u64 list list"
  pp_epoch :: bytes

record witness_client =
  wc_broadcast :: broadcast_data
  wc_rlwe :: rlwe_params
  wc_ypir :: scheme_params
  wc_setup :: "u64 list list"
  wc_published :: published_params

text \<open>
  The outside world: a GET of a path, a POST of a body to \<open>/query\<close>. A response is a status and a body that may fail to
  arrive; no response at all is \<open>Inl\<close>.
\<close>

record 'w witness_net =
  net_get :: "string \<Rightarrow> 'w \<Rightarrow> (string + (nat \<times> (string + bytes))) \<times> 'w"
  net_post :: "bytes \<Rightarrow> 'w \<Rightarrow> (string + (nat \<times> (string + bytes))) \<times> 'w"

text \<open>\<open>send().await?\<close>, the check for 503, \<open>error_for_status()\<close> and the body.\<close>

definition response_body ::
  "(nat \<Rightarrow> witness_client_error) \<Rightarrow> string + (nat \<times> (string + bytes)) \<Rightarrow> witness_client_error + bytes" where
  "response_body status_error resp =
     bindR (map_err Wc_Http resp) (\<lambda>(status, body).
       if status = 503 then Inl Wc_ServerUnavailable
       else if 400 \<le> status \<and> status < 600 then Inl (status_error status)
       else map_err Wc_Http body)"

definition fetch_public_params ::
  "('k, 'q, 'd) client_sp \<Rightarrow> 'w witness_net \<Rightarrow> rlwe_params \<Rightarrow> scheme_params \<Rightarrow> 'w \<Rightarrow> (witness_client_error + published_params) \<times> 'w" where
  "fetch_public_params cl net rlwe ypir w =
     (case net_get net ''/public-params'' w of (resp, w) \<Rightarrow>
       (bindR (response_body (\<lambda>_. Wc_Http ''status'') resp) (\<lambda>bs.
        if rlwe_d rlwe = 0 then Inl Wc_Panic
        else let blocks = sp_db_cols ypir div rlwe_d rlwe;
            expected = blocks * published_c1_len cl (rlwe_d rlwe) (rlwe_q rlwe)
        in if length bs \<noteq> expected then Inl (Wc_InvalidParams ''/public-params returned the wrong length'')
           else Inr \<lparr> pp_c1 = recover_published_c1 cl bs (rlwe_d rlwe) blocks (rlwe_q rlwe), pp_epoch = public_params_epoch bs \<rparr>), w))"

text \<open>A status from 400 on is an error of the transport here, 503 included.\<close>

definition plain_body :: "string + (nat \<times> (string + bytes)) \<Rightarrow> witness_client_error + bytes" where
  "plain_body resp =
     bindR (map_err Wc_Http resp) (\<lambda>(status, body).
       if 400 \<le> status \<and> status < 600 then Inl (Wc_Http ''status'') else map_err Wc_Http body)"

definition witness_connect ::
  "'s ipir_sp \<Rightarrow> ('k, 'q, 'd) client_sp \<Rightarrow> 'w witness_net \<Rightarrow> (bytes \<Rightarrow> (u64 \<times> u64) option) \<Rightarrow> (bytes \<Rightarrow> string option)
     \<Rightarrow> (bytes \<Rightarrow> broadcast_data option) \<Rightarrow> bytes \<Rightarrow> 'w \<Rightarrow> (witness_client_error + witness_client) \<times> 'w" where
  "witness_connect ip cl net scenario_of pool_of broadcast_of setup_seed w =
     (case net_get net ''/params'' w of (resp, w) \<Rightarrow>
      case bindR (plain_body resp) (\<lambda>bs. ok_or (Wc_Http ''json'') (scenario_of bs)) of
        Inl e \<Rightarrow> (Inl e, w)
      | Inr (num_items, item_size_bits) \<Rightarrow>
     (case net_get net ''/metadata'' w of (resp, w) \<Rightarrow>
      case bindR (response_body (\<lambda>_. Wc_Http ''status'') resp) (\<lambda>bs. ok_or (Wc_Http ''json'') (pool_of bs)) of
        Inl e \<Rightarrow> (Inl e, w)
      | Inr pool \<Rightarrow>
      if pool \<noteq> ''ironwood'' then (Inl (Wc_PoolMismatch ''ironwood'' pool), w)
      else
     (case net_get net ''/broadcast'' w of (resp, w) \<Rightarrow>
      case bindR (response_body (\<lambda>_. Wc_Http ''status'') resp) (\<lambda>bs. ok_or (Wc_Http ''json'') (broadcast_of bs)) of
        Inl e \<Rightarrow> (Inl e, w)
      | Inr broadcast \<Rightarrow>
     (case map_err (\<lambda>_. Wc_InvalidParams ''parameters'') (params_for_simplepir ip num_items item_size_bits) of
        Inl e \<Rightarrow> (Inl e, w)
      | Inr (rlwe, ypir) \<Rightarrow>
     (case fetch_public_params cl net rlwe ypir w of
        (Inl e, w) \<Rightarrow> (Inl e, w)
      | (Inr published, w) \<Rightarrow>
          (Inr \<lparr> wc_broadcast = broadcast, wc_rlwe = rlwe, wc_ypir = ypir, wc_setup = public_query_setup ip rlwe ypir setup_seed,
                 wc_published = published \<rparr>, w))))))"

definition generate_ipir_query ::
  "('k, 'q, 'd) client_sp \<Rightarrow> nat \<Rightarrow> witness_client \<Rightarrow> nat \<Rightarrow> witness_client_error + (bytes \<times> 'd)" where
  "generate_ipir_query cl rnd c row_idx =
     (case generate_fresh_query cl (wc_rlwe c) (wc_ypir c) rnd (wc_setup c) row_idx of (query, packing_keys, seed) \<Rightarrow>
        bindR (map_err (\<lambda>_. Wc_QueryFailed ''packing keys'') (serialize_packing_keys cl (wc_rlwe c) packing_keys)) (\<lambda>keys.
        Inr (keys @ to_switched_bytes cl query (rlwe_q (wc_rlwe c)) (sp_query_bits (wc_ypir c)), seed)))"

definition post_query :: "'w witness_net \<Rightarrow> bytes \<Rightarrow> 'w \<Rightarrow> (witness_client_error + bytes) \<times> 'w" where
  "post_query net query_bytes w =
     (case net_post net query_bytes w of (resp, w) \<Rightarrow> (response_body (\<lambda>_. Wc_QueryFailed ''status'') resp, w))"

definition refresh_public_params ::
  "('k, 'q, 'd) client_sp \<Rightarrow> 'w witness_net \<Rightarrow> witness_client \<Rightarrow> 'w \<Rightarrow> (witness_client_error + unit) \<times> witness_client \<times> 'w" where
  "refresh_public_params cl net c w =
     (case fetch_public_params cl net (wc_rlwe c) (wc_ypir c) w of
        (Inl e, w) \<Rightarrow> (Inl e, c, w)
      | (Inr refreshed, w) \<Rightarrow> (Inr (), c \<lparr> wc_published := refreshed \<rparr>, w))"

text \<open>One pass of the loop: \<open>Inr (Some row)\<close> is a row decoded under the epoch of the response, \<open>Inr None\<close> a rotation.\<close>

definition query_attempt ::
  "('k, 'q, 'd) client_sp \<Rightarrow> nat \<Rightarrow> 'w witness_net \<Rightarrow> nat \<Rightarrow> witness_client \<Rightarrow> 'w \<Rightarrow> (witness_client_error + bytes option) \<times> 'w" where
  "query_attempt cl rnd net row_idx c w =
     (case generate_ipir_query cl rnd c row_idx of
        Inl e \<Rightarrow> (Inl e, w)
      | Inr (query_bytes, seed) \<Rightarrow>
          (case post_query net query_bytes w of (resp, w) \<Rightarrow>
            (bindR resp (\<lambda>response_bytes.
             bindR (ok_or (Wc_MalformedResponse (length response_bytes)) (split_epoch response_bytes)) (\<lambda>(epoch, body).
             Inr (if pp_epoch (wc_published c) = epoch
                  then Some (decode_response cl (wc_rlwe c) (wc_ypir c) seed (pp_c1 (wc_published c)) body) else None))), w)))"

definition ipir_round_trip ::
  "('k, 'q, 'd) client_sp \<Rightarrow> (nat \<Rightarrow> nat) \<Rightarrow> 'w witness_net \<Rightarrow> nat \<Rightarrow> witness_client \<Rightarrow> 'w
     \<Rightarrow> (witness_client_error + bytes) \<times> witness_client \<times> 'w" where
  "ipir_round_trip cl rnd net row_idx c w =
     (case query_attempt cl (rnd 0) net row_idx c w of
        (Inl e, w) \<Rightarrow> (Inl e, c, w)
      | (Inr (Some row), w) \<Rightarrow> (Inr row, c, w)
      | (Inr None, w) \<Rightarrow>
          (case refresh_public_params cl net c w of
             (Inl e, c, w) \<Rightarrow> (Inl e, c, w)
           | (Inr _, c, w) \<Rightarrow>
               (case query_attempt cl (rnd 1) net row_idx c w of
                  (Inl e, w) \<Rightarrow> (Inl e, c, w)
                | (Inr (Some row), w) \<Rightarrow> (Inr row, c, w)
                | (Inr None, w) \<Rightarrow> (Inl Wc_PublicParamsUnstable, c, w))))"

definition get_witness ::
  "'m merkle_hash \<Rightarrow> ('k, 'q, 'd) client_sp \<Rightarrow> (nat \<Rightarrow> nat) \<Rightarrow> 'w witness_net \<Rightarrow> u64 \<Rightarrow> witness_client \<Rightarrow> 'w
     \<Rightarrow> (witness_client_error + pir_witness) \<times> witness_client \<times> 'w" where
  "get_witness mh cl rnd net position c w =
     (case decompose_position (unat position) of (shard_idx, subshard_idx, leaf_idx) \<Rightarrow>
      let b = wc_broadcast c; window_end = bd_window_start_shard b + bd_window_shard_count b in
      if shard_idx < bd_window_start_shard b \<or> shard_idx \<ge> window_end
      then (Inl (Wc_PositionOutsideWindow position (bd_window_start_shard b) window_end), c, w)
      else case ipir_round_trip cl rnd net (physical_row_index shard_idx subshard_idx (bd_window_start_shard b)) c w of
          (Inl e, c, w) \<Rightarrow> (Inl e, c, w)
        | (Inr decoded_row, c, w) \<Rightarrow>
            (reconstruct_witness mh position shard_idx subshard_idx leaf_idx decoded_row (wc_broadcast c), c, w))"

fun get_witnesses ::
  "'m merkle_hash \<Rightarrow> ('k, 'q, 'd) client_sp \<Rightarrow> (nat \<Rightarrow> nat \<Rightarrow> nat) \<Rightarrow> 'w witness_net \<Rightarrow> u64 list \<Rightarrow> witness_client \<Rightarrow> 'w
     \<Rightarrow> (witness_client_error + pir_witness list) \<times> witness_client \<times> 'w" where
  "get_witnesses mh cl rnd net [] c w = (Inr [], c, w)"
| "get_witnesses mh cl rnd net (pos # positions) c w =
     (case get_witness mh cl (rnd (length positions)) net pos c w of
        (Inl e, c, w) \<Rightarrow> (Inl e, c, w)
      | (Inr witness, c, w) \<Rightarrow>
          (case get_witnesses mh cl rnd net positions c w of (res, c, w) \<Rightarrow> (bindR res (\<lambda>ws. Inr (witness # ws)), c, w)))"

definition refresh_broadcast ::
  "'w witness_net \<Rightarrow> (bytes \<Rightarrow> broadcast_data option) \<Rightarrow> witness_client \<Rightarrow> 'w \<Rightarrow> (witness_client_error + unit) \<times> witness_client \<times> 'w" where
  "refresh_broadcast net from_json c w =
     (case net_get net ''/broadcast'' w of (resp, w) \<Rightarrow>
       (case bindR (response_body (\<lambda>_. Wc_Http ''status'') resp) (\<lambda>bs. ok_or (Wc_Http ''json'') (from_json bs)) of
          Inl e \<Rightarrow> (Inl e, c, w)
        | Inr b \<Rightarrow> (Inr (), c \<lparr> wc_broadcast := b \<rparr>, w)))"

section \<open>The path of a leaf\<close>

lemma client_combine_valid: "valid_hash mh a \<Longrightarrow> valid_hash mh b \<Longrightarrow> client_combine mh level a b = Inr (hash_combine mh level a b)"
  by (auto simp: valid_hash_def client_combine_def bytes_to_mho_def hash_combine_def)

lemma combine_chunks_valid:
  "\<forall>x \<in> set xs. valid_hash mh x \<Longrightarrow> even (length xs) \<Longrightarrow> combine_chunks mh level xs = Inr (pair_up mh level xs)"
  by (induction mh level xs rule: combine_chunks.induct) (auto simp: client_combine_valid)

lemma empty_root_precomputed:
  assumes "mh_ok mh" and "level \<le> TREE_DEPTH"
  shows "empty_root mh level = precompute_empty_roots mh ! level"
  using assms(2)
proof (induction level)
  case 0 then show ?case using assms(1) by (simp add: mh_ok_def empty_root_def empty_root_0)
next
  case (Suc level)
  then have IH: "precompute_empty_roots mh ! level = mho_to_bytes mh (mho_empty_root mh level)" by (simp add: empty_root_def)
  show ?case using assms(1) empty_root_Suc [OF assms(1), of level] Suc.prems
    by (simp add: empty_root_def hash_combine_def mh_ok_def IH)
qed

lemma flip_bit0_less: "even n \<Longrightarrow> idx < n \<Longrightarrow> flip_bit0 idx < n"
  unfolding flip_bit0_def by (metis Suc_eq_plus1 Suc_lessI even_Suc less_imp_diff_less)

lemma flip_bit0_add: "even n \<Longrightarrow> n + flip_bit0 idx = flip_bit0 (n + idx)"
  by (auto simp: flip_bit0_def elim: oddE)

lemma combine_level:
  assumes "mh_ok mh" and "\<And>j. valid_hash mh (leaf j)"
  shows "combine_chunks mh l (map (\<lambda>j. node mh leaf l (i * 2 ^ Suc h + j)) [0..<2 ^ Suc h])
           = Inr (map (\<lambda>j. node mh leaf (Suc l) (i * 2 ^ h + j)) [0..<2 ^ h])"
  using valid_node [OF assms] pair_up_map [of mh l "\<lambda>j. node mh leaf l (i * 2 ^ Suc h + j)" "2 ^ h"]
  by (subst combine_chunks_valid) (auto simp: algebra_simps)

lemma extract_levels_nodes:
  assumes "mh_ok mh" and "\<And>j. valid_hash mh (leaf j)"
  shows "idx < 2 ^ h \<Longrightarrow> l + h \<le> length siblings \<Longrightarrow>
    extract_levels mh h l (map (\<lambda>j. node mh leaf l (i * 2 ^ h + j)) [0..<2 ^ h]) idx siblings
      = Inr (map (\<lambda>m. if l \<le> m \<and> m < l + h then node mh leaf m (flip_bit0 ((i * 2 ^ h + idx) div 2 ^ (m - l))) else siblings ! m)
               [0..<length siblings])"
proof (induction h arbitrary: l idx siblings)
  case 0
  then show ?case by (auto intro!: nth_equalityI)
next
  case (Suc h)
  let ?sib = "node mh leaf l (flip_bit0 (i * 2 ^ Suc h + idx))"
  have flip: "flip_bit0 idx < 2 ^ Suc h" "i * 2 ^ Suc h + flip_bit0 idx = flip_bit0 (i * 2 ^ Suc h + idx)"
    using Suc.prems(1) by (auto simp: flip_bit0_less flip_bit0_add)
  have lvl: "(i * 2 ^ h + idx div 2) div 2 ^ (m - Suc l) = (i * 2 ^ Suc h + idx) div 2 ^ (m - l)" if "Suc l \<le> m" for m
  proof -
    have "m - l = Suc (m - Suc l)" using that by simp
    moreover have "(i * 2 ^ Suc h + idx) div 2 = i * 2 ^ h + idx div 2" by (simp add: mult.left_commute)
    ultimately show ?thesis by (simp add: div_mult2_eq)
  qed
  have "extract_levels mh (Suc h) l (map (\<lambda>j. node mh leaf l (i * 2 ^ Suc h + j)) [0..<2 ^ Suc h]) idx siblings
      = extract_levels mh h (Suc l) (map (\<lambda>j. node mh leaf (Suc l) (i * 2 ^ h + j)) [0..<2 ^ h]) (idx div 2) (siblings[l := ?sib])"
    using Suc.prems(2) flip combine_level [OF assms, where l = l and i = i and h = h] by (simp add: Let_def)
  also have "\<dots> = Inr (map (\<lambda>m. if Suc l \<le> m \<and> m < Suc l + h
        then node mh leaf m (flip_bit0 ((i * 2 ^ h + idx div 2) div 2 ^ (m - Suc l))) else siblings[l := ?sib] ! m) [0..<length siblings])"
    using Suc.IH [of "idx div 2" "Suc l" "siblings[l := ?sib]"] Suc.prems by simp
  also have "\<dots> = Inr (map (\<lambda>m. if l \<le> m \<and> m < l + Suc h
        then node mh leaf m (flip_bit0 ((i * 2 ^ Suc h + idx) div 2 ^ (m - l))) else siblings ! m) [0..<length siblings])"
    using Suc.prems(2) lvl by (auto simp: nth_list_update le_Suc_eq not_less_eq_eq)
  finally show ?case .
qed

lemma root_from_path:
  assumes "mh_ok mh" and "\<And>j. valid_hash mh (leaf j)"
  shows "compute_root_from_path mh l p (node mh leaf l p) (map (\<lambda>m. node mh leaf m (flip_bit0 (p div 2 ^ (m - l)))) [l..<l + n])
           = Inr (node mh leaf (l + n) (p div 2 ^ n))"
proof (induction n arbitrary: l p)
  case (Suc n)
  have path: "map (\<lambda>m. node mh leaf m (flip_bit0 (p div 2 ^ (m - l)))) [l..<l + Suc n]
      = node mh leaf l (flip_bit0 p) # map (\<lambda>m. node mh leaf m (flip_bit0 (p div 2 div 2 ^ (m - Suc l)))) [Suc l..<Suc l + n]"
    by (auto simp: upt_conv_Cons div_mult2_eq [symmetric] simp flip: power_Suc simp del: upt_Suc intro!: arg_cong [of _ _ "\<lambda>k. node _ _ _ (flip_bit0 (p div 2 ^ k))"])
  have "(if even p then client_combine mh l (node mh leaf l p) (node mh leaf l (flip_bit0 p))
      else client_combine mh l (node mh leaf l (flip_bit0 p)) (node mh leaf l p)) = Inr (node mh leaf (Suc l) (p div 2))"
    by (auto simp: client_combine_valid valid_node [OF assms] flip_bit0_def elim!: evenE oddE)
  then show ?case unfolding path using Suc.IH [of "Suc l" "p div 2"] by (simp add: div_mult2_eq)
qed simp

lemma extract_siblings_nodes:
  assumes "mh_ok mh" and "\<And>j. valid_hash mh (leaf j)"
    and "nodes = map (\<lambda>j. node mh leaf l (i * 2 ^ h + j)) [0..<2 ^ h]" and "idx < 2 ^ h" and "l + h \<le> length siblings"
  shows "extract_siblings mh nodes idx l siblings
      = Inr (map (\<lambda>m. if l \<le> m \<and> m < l + h then node mh leaf m (flip_bit0 ((i * 2 ^ h + idx) div 2 ^ (m - l))) else siblings ! m)
               [0..<length siblings])"
  using extract_levels_nodes [OF assms(1, 2, 4, 5)] by (simp add: extract_siblings_def assms(3) trailing_zeros_power)

text \<open>The path of a position: at each level the sibling of the node above the leaf.\<close>

definition auth_path :: "'m merkle_hash \<Rightarrow> (nat \<Rightarrow> node_hash) \<Rightarrow> nat \<Rightarrow> node_hash list" where
  "auth_path mh leaf p = map (\<lambda>m. node mh leaf m (flip_bit0 (p div 2 ^ m))) [0..<TREE_DEPTH]"

lemma reconstruct_nodes:
  assumes ok: "mh_ok mh" "\<And>j. valid_hash mh (leaf j)"
    and p: "decompose_position (unat position) = (sh, ss, k)" "unat position < 2 ^ TREE_DEPTH"
    and row: "parse_leaves decoded_row = Inr (map (\<lambda>j. node mh leaf 0 (unat position div 2 ^ SUBSHARD_HEIGHT * 2 ^ SUBSHARD_HEIGHT + j)) [0..<2 ^ SUBSHARD_HEIGHT])"
    and win: "bd_window_start_shard b \<le> sh" "sh - bd_window_start_shard b < length (bd_subshard_roots b)"
    and roots: "bd_subshard_roots b ! (sh - bd_window_start_shard b) = map (\<lambda>j. node mh leaf SUBSHARD_HEIGHT (sh * 2 ^ SUBSHARD_HEIGHT + j)) [0..<2 ^ SUBSHARD_HEIGHT]"
    and cap: "take (2 ^ SHARD_HEIGHT) (bd_shard_roots b) @ replicate (2 ^ SHARD_HEIGHT - length (bd_shard_roots b)) (empty_root mh SHARD_HEIGHT)
                = map (node mh leaf SHARD_HEIGHT) [0..<2 ^ SHARD_HEIGHT]"
  shows "reconstruct_witness mh position sh ss k decoded_row b
    = Inr \<lparr> pw_position = position, pw_siblings = auth_path mh leaf (unat position), pw_anchor_height = bd_anchor_height b,
            pw_anchor_root = node mh leaf TREE_DEPTH 0 \<rparr>"
proof -
  let ?p = "unat position"
  have "sh = ?p div 2 ^ 16 mod 2 ^ 32" "ss = ?p div 256 mod 256" "k = ?p mod 256" using p(1) by (auto simp: decompose_position_def geometry)
  then have dec: "?p div 2 ^ SUBSHARD_HEIGHT * 2 ^ SUBSHARD_HEIGHT + k = ?p" "sh * 2 ^ SUBSHARD_HEIGHT + ss = ?p div 2 ^ SUBSHARD_HEIGHT"
      "sh = ?p div 2 ^ SHARD_HEIGHT"
    and bound: "k < 2 ^ SUBSHARD_HEIGHT" "ss < 2 ^ SUBSHARD_HEIGHT" "sh < 2 ^ SHARD_HEIGHT"
    using p(2) div_mult2_eq [of ?p 256 256] div_less_iff_less_mult [of 65536 ?p 65536] by (auto simp: geometry TREE_DEPTH_def)
  note ex = extract_siblings_nodes [where leaf = leaf and mh = mh, OF ok]
  have dec2: "sh * 256 + ss = ?p div 256" using dec(2) by (simp add: SUBSHARD_HEIGHT_def)
  let ?s0 = "replicate TREE_DEPTH (replicate 32 0) :: node_hash list"
  define s1 where "s1 = map (\<lambda>m. if m < 8 then node mh leaf m (flip_bit0 (?p div 2 ^ m)) else ?s0 ! m) [0..<TREE_DEPTH]"
  define s2 where "s2 = map (\<lambda>m. if m < 16 then node mh leaf m (flip_bit0 (?p div 2 ^ m)) else ?s0 ! m) [0..<TREE_DEPTH]"
  have split: "?p div 2 ^ a div 2 ^ (m - a) = ?p div 2 ^ m" if "a \<le> m" for a m
    using that by (simp add: div_mult2_eq [symmetric] power_add [symmetric])
  have e1: "extract_siblings mh (map (\<lambda>j. node mh leaf 0 (?p div 2 ^ SUBSHARD_HEIGHT * 2 ^ SUBSHARD_HEIGHT + j)) [0..<2 ^ SUBSHARD_HEIGHT]) k 0 ?s0 = Inr s1"
    using ex [OF refl bound(1), where l = 0 and siblings = ?s0 and i = "?p div 2 ^ SUBSHARD_HEIGHT"] dec(1) by (simp add: s1_def SUBSHARD_HEIGHT_def TREE_DEPTH_def)
  have e2: "extract_siblings mh (map (\<lambda>j. node mh leaf SUBSHARD_HEIGHT (sh * 2 ^ SUBSHARD_HEIGHT + j)) [0..<2 ^ SUBSHARD_HEIGHT]) ss SUBSHARD_HEIGHT s1 = Inr s2"
    using ex [OF refl bound(2), where l = SUBSHARD_HEIGHT and siblings = s1 and i = sh] split [of 8]
    by (simp add: dec2 s1_def s2_def SUBSHARD_HEIGHT_def TREE_DEPTH_def)
  have e3: "extract_siblings mh (map (node mh leaf SHARD_HEIGHT) [0..<2 ^ SHARD_HEIGHT]) sh SHARD_HEIGHT s2
      = Inr (auth_path mh leaf ?p)"
    using ex [OF refl bound(3), where l = SHARD_HEIGHT and siblings = s2 and i = 0] split [of 16] unfolding dec(3)
    by (simp add: s2_def auth_path_def SHARD_HEIGHT_def TREE_DEPTH_def)
  have root: "compute_root_from_path mh 0 ?p (node mh leaf 0 ?p) (auth_path mh leaf ?p) = Inr (node mh leaf TREE_DEPTH 0)"
    using root_from_path [where leaf = leaf and mh = mh, OF ok, where l = 0 and p = ?p and n = TREE_DEPTH] p(2) by (simp add: auth_path_def)
  show ?thesis
    using win bound(1) root dec(1)
    by (simp add: reconstruct_witness_def row e1 roots e2 Let_def cap e3 del: node.simps)
qed

section \<open>The row and the broadcast of a build\<close>

lemma window_covers:
  assumes h: "tree_holds mh leaves t" and p: "tr_leaf_offset t \<le> p" "p < length leaves"
    and fits: "length (tr_leaves t) \<le> L0_MAX_SHARDS * SHARD_LEAVES"
  shows "window_start_shard t + window_shard_count t = populated_shards t"
    and "window_start_shard t \<le> p div SHARD_LEAVES" and "p div SHARD_LEAVES < populated_shards t"
proof -
  have off: "tr_leaf_offset t = window_start_shard t * SHARD_LEAVES" by (rule tree_holds_offset [OF h])
  have size: "tree_size t = length leaves" by (rule tree_holds_size [OF h])
  have ne: "tr_leaves t \<noteq> []" and len: "length leaves = tr_leaf_offset t + length (tr_leaves t)"
    using h p by (auto simp: tree_holds_def)
  have last: "window_start_shard t \<le> (length leaves - 1) div SHARD_LEAVES"
    using p off by (simp add: less_eq_div_iff_mult_less_eq geometry)
  have "length leaves - 1 < (window_start_shard t + 32) * SHARD_LEAVES"
    using len off fits p by (simp add: geometry algebra_simps)
  then have "(length leaves - 1) div SHARD_LEAVES < window_start_shard t + 32" by (simp add: less_mult_imp_div_less)
  then show "window_start_shard t + window_shard_count t = populated_shards t"
    using last ne p size by (auto simp: window_shard_count_def local_shard_count_def populated_shards_def L0_MAX_SHARDS_def)
  show "window_start_shard t \<le> p div SHARD_LEAVES"
    using p off by (simp add: less_eq_div_iff_mult_less_eq geometry)
  have "p div SHARD_LEAVES \<le> (length leaves - 1) div SHARD_LEAVES" using p(2) by (intro div_le_mono) simp
  then show "p div SHARD_LEAVES < populated_shards t" using p size by (auto simp: populated_shards_def)
qed

lemma row_of_build:
  assumes h: "tree_holds mh leaves t" and size: "\<And>i. length (leaf_at mh leaves i) = 32"
    and row: "window_start_shard t \<le> sh" "sh < window_start_shard t + window_shard_count t" "ss < 256"
    and got: "take SUBSHARD_ROW_BYTES decoded
       = take SUBSHARD_ROW_BYTES (drop (physical_row_index sh ss (window_start_shard t) * SUBSHARD_ROW_BYTES)
           (set_len L0_DB_BYTES (window_rows mh leaves t)))"
  shows "parse_leaves decoded = Inr (map (\<lambda>j. leaf_at mh leaves ((sh * 256 + ss) * 256 + j)) [0..<SUBSHARD_LEAVES])"
proof -
  let ?f = "\<lambda>k. leaf_at mh leaves (tr_leaf_offset t + k)" and ?n = "window_shard_count t * SHARD_LEAVES"
  let ?r = "(sh - window_start_shard t) * 256 + ss"
  have const: "\<forall>x \<in> set (map ?f ks). length x = 32" for ks using size by auto
  have in_window: "?r * 256 + 256 \<le> ?n" using row by (simp add: geometry)
  have len: "length (window_rows mh leaves t) = ?n * 32" unfolding window_rows_def by (subst length_concat_const [OF const]) simp
  have "set_len L0_DB_BYTES (window_rows mh leaves t) = window_rows mh leaves t @ replicate (L0_DB_BYTES - ?n * 32) 0"
    using window_shard_count_le [of t] by (simp add: set_len_def len) (simp add: L0_DB_BYTES_def SUBSHARD_ROW_BYTES_def geometry)
  then have "take SUBSHARD_ROW_BYTES decoded = take (256 * 32) (drop ((?r * 256) * 32) (window_rows mh leaves t))"
    using got in_window len by (simp add: physical_row_index_def SUBSHARD_ROW_BYTES_def geometry mult.commute [of ss])
  also have "\<dots> = concat (take 256 (drop (?r * 256) (map ?f [0..<?n])))"
    unfolding window_rows_def by (subst drop_concat_const [OF const], subst take_concat_const) (auto simp: size dest!: in_set_dropD)
  also have "take 256 (drop (?r * 256) (map ?f [0..<?n])) = map (\<lambda>j. leaf_at mh leaves ((sh * 256 + ss) * 256 + j)) [0..<SUBSHARD_LEAVES]"
    using in_window row tree_holds_offset [OF h]
    by (intro nth_equalityI) (auto simp: SUBSHARD_LEAVES_def SUBSHARD_HEIGHT_def SHARD_LEAVES_def SHARD_HEIGHT_def algebra_simps diff_mult_distrib2)
  finally have row_eq: "take SUBSHARD_ROW_BYTES decoded = concat (map (\<lambda>j. leaf_at mh leaves ((sh * 256 + ss) * 256 + j)) [0..<SUBSHARD_LEAVES])" .
  have all32: "\<forall>x \<in> set (map (\<lambda>j. leaf_at mh leaves ((sh * 256 + ss) * 256 + j)) [0..<SUBSHARD_LEAVES]). length x = 32" using size by auto
  have "length (take SUBSHARD_ROW_BYTES decoded) = SUBSHARD_ROW_BYTES"
    unfolding row_eq by (subst length_concat_const [OF all32]) (simp add: SUBSHARD_ROW_BYTES_def)
  then have enough: "SUBSHARD_ROW_BYTES \<le> length decoded" by simp
  have "chunks_exact SUBSHARD_LEAVES 32 decoded = chunks_exact SUBSHARD_LEAVES 32 (take SUBSHARD_ROW_BYTES decoded)"
    by (rule nth_equalityI) (auto simp: nth_chunks_exact SUBSHARD_ROW_BYTES_def take_drop min_def)
  also have "\<dots> = map (\<lambda>j. leaf_at mh leaves ((sh * 256 + ss) * 256 + j)) [0..<SUBSHARD_LEAVES]"
    unfolding row_eq using chunks_exact_concat [OF all32] by simp
  finally show ?thesis using enough by (simp add: parse_leaves_def)
qed

lemma padded_cap_nodes:
  assumes ok: "mh_ok mh" and cover: "length leaves \<le> n * SHARD_LEAVES" and n: "n \<le> 2 ^ SHARD_HEIGHT"
  shows "take (2 ^ SHARD_HEIGHT) (map (node mh (leaf_at mh leaves) SHARD_HEIGHT) [0..<n])
           @ replicate (2 ^ SHARD_HEIGHT - n) (empty_root mh SHARD_HEIGHT)
         = map (node mh (leaf_at mh leaves) SHARD_HEIGHT) [0..<2 ^ SHARD_HEIGHT]"
proof (rule nth_equalityI)
  have le: "SHARD_HEIGHT \<le> TREE_DEPTH" by (simp add: SHARD_HEIGHT_def TREE_DEPTH_def)
  fix i
  assume "i < length (take (2 ^ SHARD_HEIGHT) (map (node mh (leaf_at mh leaves) SHARD_HEIGHT) [0..<n])
           @ replicate (2 ^ SHARD_HEIGHT - n) (empty_root mh SHARD_HEIGHT))"
  then have i: "i < 2 ^ SHARD_HEIGHT" using n by simp
  have "node mh (leaf_at mh leaves) SHARD_HEIGHT i = empty_root mh SHARD_HEIGHT" if "n \<le> i"
  proof -
    have "length leaves \<le> i * 2 ^ SHARD_HEIGHT"
      using cover mult_le_mono1 [OF that, of SHARD_LEAVES] unfolding SHARD_LEAVES_def by (rule le_trans)
    from node_empty [OF ok le this] show ?thesis by (simp add: empty_root_precomputed [OF ok le])
  qed
  then show "(take (2 ^ SHARD_HEIGHT) (map (node mh (leaf_at mh leaves) SHARD_HEIGHT) [0..<n])
           @ replicate (2 ^ SHARD_HEIGHT - n) (empty_root mh SHARD_HEIGHT)) ! i
      = map (node mh (leaf_at mh leaves) SHARD_HEIGHT) [0..<2 ^ SHARD_HEIGHT] ! i"
    using i n by (auto simp: nth_append)
qed (use n in simp)

lemma round_trip_broadcast: "ipir_round_trip cl rnd net row c w = (res, c', w') \<Longrightarrow> wc_broadcast c' = wc_broadcast c"
  by (auto simp: ipir_round_trip_def refresh_public_params_def split: prod.splits sum.splits option.splits)

lemma reconstruct_of_build:
  assumes ok: "mh_ok mh" and h: "tree_holds mh leaves t" and valid: "\<And>x. x \<in> set leaves \<Longrightarrow> valid_hash mh x \<and> length x = 32"
    and fits: "length leaves \<le> 2 ^ TREE_DEPTH" "length (tr_leaves t) \<le> L0_MAX_SHARDS * SHARD_LEAVES"
    and p: "tr_leaf_offset t \<le> unat position" "unat position < length leaves" "decompose_position (unat position) = (sh, ss, k)"
    and got: "take SUBSHARD_ROW_BYTES decoded
       = take SUBSHARD_ROW_BYTES (drop (physical_row_index sh ss (window_start_shard t) * SUBSHARD_ROW_BYTES)
           (set_len L0_DB_BYTES (window_rows mh leaves t)))"
  shows "window_start_shard t \<le> sh \<and> sh < window_start_shard t + window_shard_count t
    \<and> reconstruct_witness mh position sh ss k decoded (window_broadcast mh leaves anchor_height t)
    = Inr \<lparr> pw_position = position, pw_siblings = auth_path mh (leaf_at mh leaves) (unat position), pw_anchor_height = anchor_height,
            pw_anchor_root = tree_root mh t \<rparr>"
proof -
  let ?p = "unat position" and ?leaf = "leaf_at mh leaves"
  note cov = window_covers [OF h p(1, 2) fits(2)]
  have "?p < 2 ^ 32" using p(2) fits(1) by (simp add: TREE_DEPTH_def)
  then have "?p div 65536 mod 2 ^ 32 = ?p div 65536" by (intro mod_less) (simp add: div_less_iff_less_mult)
  then have sh: "sh = ?p div SHARD_LEAVES" "sh * 256 + ss = ?p div 256" "ss < 256"
    using p(3) div_mult2_eq [of ?p 256 256] by (auto simp: decompose_position_def geometry)
  then have win: "window_start_shard t \<le> sh" "sh < window_start_shard t + window_shard_count t" using cov by auto
  have leaf: "valid_hash mh (?leaf i)" "length (?leaf i) = 32" for i
    using valid ok by (auto simp: leaf_at_def mh_ok_def valid_hash_def)
  have row: "parse_leaves decoded = Inr (map (\<lambda>j. node mh ?leaf 0 (?p div 2 ^ SUBSHARD_HEIGHT * 2 ^ SUBSHARD_HEIGHT + j)) [0..<2 ^ SUBSHARD_HEIGHT])"
    using row_of_build [OF h leaf(2) win sh(3) got] unfolding sh(2) by (simp add: SUBSHARD_LEAVES_def SUBSHARD_HEIGHT_def)
  have ws16: "populated_shards t \<le> 2 ^ SHARD_HEIGHT"
  proof -
    have "(length leaves - 1) div SHARD_LEAVES < 65536" using fits(1) p(2) by (simp add: less_mult_imp_div_less geometry TREE_DEPTH_def)
    then show ?thesis using tree_holds_size [OF h] by (simp add: populated_shards_def SHARD_HEIGHT_def)
  qed
  have cap: "take (2 ^ SHARD_HEIGHT) (map (node mh ?leaf SHARD_HEIGHT) [0..<populated_shards t])
      @ replicate (2 ^ SHARD_HEIGHT - populated_shards t) (empty_root mh SHARD_HEIGHT) = map (node mh ?leaf SHARD_HEIGHT) [0..<2 ^ SHARD_HEIGHT]"
    using padded_cap_nodes [OF ok _ ws16] populated_shards_cover [of t] tree_holds_size [OF h] by simp
  have "reconstruct_witness mh position sh ss k decoded (window_broadcast mh leaves anchor_height t)
      = Inr \<lparr> pw_position = position, pw_siblings = auth_path mh ?leaf ?p,
              pw_anchor_height = bd_anchor_height (window_broadcast mh leaves anchor_height t), pw_anchor_root = node mh ?leaf TREE_DEPTH 0 \<rparr>"
    by (rule reconstruct_nodes [OF ok leaf(1) p(3) _ row])
      (use win cap cov(1) p(2) fits(1) in \<open>auto simp: window_broadcast_def window_roots_def\<close>)
  then show ?thesis using win tree_root_node [OF ok h] by (simp add: window_broadcast_def)
qed

text \<open>
  C7. A wallet gets the witness of its note while the window holds the chain: against a server whose tree went through any sequence of
  appends, rollbacks and builds and has at most 32 shards of leaves (\<open>L0_MAX_SHARDS\<close>) since its window began, a client that holds the broadcast of a
  build and receives the database row it asks for returns, for every position from the start of the window to the end of the tree,
  the 32 siblings of the path of that leaf in the reference tree, the anchor height of the broadcast and the root
  of the server's tree. No error of the client arises, and no combination of hashes panics. Beyond 32 shards the code keeps the window where
  it is and the broadcast misses shards (\<open>window_never_slides\<close>), so the bound is needed.
\<close>

theorem witness_exact:
  assumes "mh_ok mh" and "prefetch_ok mh base prefetched" and "appends_fit ops"
    and "t = tree_run mh ops (with_offset mh (length base) prefetched)" and "leaves = base @ history_leaves (history_run ops [])"
    and "\<And>x. x \<in> set leaves \<Longrightarrow> valid_hash mh x \<and> length x = 32"
    and "length leaves \<le> 2 ^ TREE_DEPTH" and "length leaves \<le> length base + L0_MAX_SHARDS * SHARD_LEAVES"
    and "length base \<le> unat position" and "unat position < length leaves"
    and "decompose_position (unat position) = (sh, ss, k)"
    and "build_pir_db_and_broadcast mh anchor_height t = (u, db, wc_broadcast c)"
    and "ipir_round_trip cl rnd net (physical_row_index sh ss (window_start_shard t)) c w = (Inr decoded, c', w')"
    and "take SUBSHARD_ROW_BYTES decoded
           = take SUBSHARD_ROW_BYTES (drop (physical_row_index sh ss (window_start_shard t) * SUBSHARD_ROW_BYTES) db)"
  shows "get_witness mh cl rnd net position c w
    = (Inr \<lparr> pw_position = position, pw_siblings = auth_path mh (leaf_at mh leaves) (unat position), pw_anchor_height = anchor_height,
             pw_anchor_root = tree_root mh t \<rparr>, c', w')"
proof -
  have at: "tree_at mh base (history_run ops []) t" using run_from_offset [OF assms(1, 3, 2)] by (simp add: assms(4))
  then have h: "tree_holds mh leaves t" and off: "tr_leaf_offset t = length base" by (simp_all add: assms(5) tree_at_def)
  have len: "length (tr_leaves t) \<le> L0_MAX_SHARDS * SHARD_LEAVES" using h assms(8) off by (simp add: tree_holds_def)
  have b: "db = set_len L0_DB_BYTES (window_rows mh leaves t)" "wc_broadcast c = window_broadcast mh leaves anchor_height t"
    using build_value [OF assms(1) h, of anchor_height] assms(12) by (metis prod.inject)+
  have c': "wc_broadcast c' = window_broadcast mh leaves anchor_height t" using round_trip_broadcast [OF assms(13)] b(2) by simp
  note rec = reconstruct_of_build [OF assms(1) h assms(6, 7) len _ assms(10, 11), of decoded anchor_height]
  show ?thesis
    using rec assms(9, 13, 14) off b(1) c' b(2) by (simp add: get_witness_def assms(11) Let_def window_broadcast_def)
qed

text \<open>A concrete server and client: the response is the epoch and the row in the clear.\<close>

definition clear_client :: "(unit, unit, unit) client_sp" where
  "clear_client = \<lparr> published_c1_len = (\<lambda>d q. 0), recover_published_c1 = (\<lambda>bs d blocks q. []),
     generate_fresh_query = (\<lambda>rlwe ypir rnd query_setup row. ((), (), ())), serialize_packing_keys = (\<lambda>rlwe keys. Inr []),
     to_switched_bytes = (\<lambda>query q bits. []), response_body_len = (\<lambda>d q. 0), decode_response = (\<lambda>rlwe ypir seed c1 body. body) \<rparr>"

definition sample_tree :: tree_db where
  "sample_tree = tree_run sum_hash sample_ops (with_offset sum_hash 0 [])"

definition clear_row :: "nat \<Rightarrow> bytes" where
  "clear_row row_idx = take SUBSHARD_ROW_BYTES (drop (row_idx * SUBSHARD_ROW_BYTES) (fst (snd (build_pir_db_and_broadcast sum_hash 7 sample_tree))))"

definition clear_net :: "unit witness_net" where
  "clear_net = \<lparr> net_get = (\<lambda>path w. (Inl ''no route'', w)), net_post = (\<lambda>body w. (Inr (200, Inr (replicate 8 9 @ clear_row 0)), w)) \<rparr>"

definition clear_wallet :: witness_client where
  "clear_wallet = \<lparr> wc_broadcast = snd (snd (build_pir_db_and_broadcast sum_hash 7 sample_tree)), wc_rlwe = sample_rlwe, wc_ypir = sample_scheme 8192,
     wc_setup = [], wc_published = \<lparr> pp_c1 = [], pp_epoch = replicate 8 9 \<rparr> \<rparr>"

lemma clear_round_trip: "ipir_round_trip clear_client rnd clear_net row_idx clear_wallet () = (Inr (clear_row 0), clear_wallet, ())"
  by (simp add: ipir_round_trip_def query_attempt_def generate_ipir_query_def clear_client_def clear_wallet_def post_query_def
      clear_net_def response_body_def split_epoch_def PIR_EPOCH_BYTES_def)

theorem witness_exact_witness:
  "\<exists>path root. get_witness sum_hash clear_client (\<lambda>_. 0) clear_net 2 clear_wallet ()
     = (Inr \<lparr> pw_position = 2, pw_siblings = path, pw_anchor_height = 7, pw_anchor_root = root \<rparr>, clear_wallet, ())
   \<and> path = auth_path sum_hash (leaf_at sum_hash [sample_leaf 5, sample_leaf 6, sample_leaf 8, sample_leaf 9]) 2
   \<and> root = tree_root sum_hash sample_tree"
proof -
  let ?leaves = "[] @ history_leaves (history_run sample_ops [])"
  have tree: "sample_tree = tree_run sum_hash sample_ops (with_offset sum_hash (length ([] :: node_hash list)) [])"
    by (simp add: sample_tree_def)
  have valid: "valid_hash sum_hash x \<and> length x = 32" if "x \<in> set ?leaves" for x
    using that by (auto simp: sample_history sample_leaf_def valid_hash_def sum_hash_def)
  have "history_leaves (history_run sample_ops []) = tr_leaves sample_tree \<and> tr_leaf_offset sample_tree = 0"
    using run_from_offset [OF sum_hash_ok sample_ops_fit prefetch_ok_Nil] by (simp add: sample_tree_def tree_at_def tree_holds_def)
  then have ws: "window_start_shard sample_tree = 0" by (simp add: window_start_shard_def)
  have dec: "decompose_position (unat (2 :: u64)) = (0, 0, 2)" by (simp add: decompose_position_def geometry)
  have build: "build_pir_db_and_broadcast sum_hash 7 sample_tree
      = (fst (build_pir_db_and_broadcast sum_hash 7 sample_tree), fst (snd (build_pir_db_and_broadcast sum_hash 7 sample_tree)), wc_broadcast clear_wallet)"
    by (simp add: clear_wallet_def)
  have row: "take SUBSHARD_ROW_BYTES (clear_row 0)
      = take SUBSHARD_ROW_BYTES (drop (physical_row_index 0 0 (window_start_shard sample_tree) * SUBSHARD_ROW_BYTES) (fst (snd (build_pir_db_and_broadcast sum_hash 7 sample_tree))))"
    by (simp add: clear_row_def physical_row_index_def ws)
  have "length ?leaves \<le> 2 ^ TREE_DEPTH" "length ?leaves \<le> length ([] :: node_hash list) + L0_MAX_SHARDS * SHARD_LEAVES"
    "length ([] :: node_hash list) \<le> unat (2 :: u64)" "unat (2 :: u64) < length ?leaves"
    by (simp_all add: sample_history TREE_DEPTH_def geometry)
  from witness_exact [OF sum_hash_ok prefetch_ok_Nil sample_ops_fit tree refl valid this dec build clear_round_trip row]
  show ?thesis by (simp add: sample_history)
qed

end
