(* ===== verification/Legacy_Nullifiers.thy ===== *)
theory Legacy_Nullifiers
  imports Prelude "HOL-Library.Multiset" "HOL-Library.Sublist"
begin

text \<open>
  The nullifier table of the legacy spendability demo, \<open>nullifier/hashtable-pir/src/lib.rs\<close> with the entries of
  \<open>nullifier/spend-types/src/lib.rs\<close> and the bucket scan of \<open>nullifier/spend-client/src/lib.rs\<close>: buckets of fixed capacity, a
  record per block of the slots it filled, rollback by block hash and eviction of the oldest block.

  A failing insertion keeps what it wrote, so operations return their result beside the table. Bucket and slot numbers are naturals.
\<close>

section \<open>Entries\<close>

definition TARGET_SIZE :: nat where "TARGET_SIZE = 1000000"
definition NUM_BUCKETS :: nat where "NUM_BUCKETS = 16384"
definition BUCKET_CAPACITY :: nat where "BUCKET_CAPACITY = 112"
definition ENTRY_BYTES :: nat where "ENTRY_BYTES = 41"
definition BUCKET_BYTES :: nat where "BUCKET_BYTES = BUCKET_CAPACITY * ENTRY_BYTES"

definition hash_to_bucket :: "bytes \<Rightarrow> nat" where
  "hash_to_bucket nf = le_val (take 4 nf) mod NUM_BUCKETS"

record nullifier_with_meta =
  nm_nullifier :: bytes
  nm_first_output_position :: u32
  nm_action_count :: u8

record nullifier_entry =
  ne_nullifier :: bytes
  ne_spend_height :: u32
  ne_first_output_position :: u32
  ne_action_count :: u8

definition ZERO_NF :: bytes where "ZERO_NF = replicate 32 0"

definition ne_ZERO :: nullifier_entry where
  "ne_ZERO = \<lparr> ne_nullifier = ZERO_NF, ne_spend_height = 0, ne_first_output_position = 0, ne_action_count = 0 \<rparr>"

definition ne_is_empty :: "nullifier_entry \<Rightarrow> bool" where
  "ne_is_empty e \<longleftrightarrow> ne_nullifier e = ZERO_NF"

definition ne_to_bytes :: "nullifier_entry \<Rightarrow> bytes" where
  "ne_to_bytes e = ne_nullifier e @ u32_le (ne_spend_height e) @ u32_le (ne_first_output_position e) @ [ne_action_count e]"

definition ne_from_bytes :: "bytes \<Rightarrow> nullifier_entry" where
  "ne_from_bytes buf = \<lparr> ne_nullifier = take 32 buf, ne_spend_height = of_nat (le_val (take 4 (drop 32 buf))),
     ne_first_output_position = of_nat (le_val (take 4 (drop 36 buf))), ne_action_count = buf ! 40 \<rparr>"

record spend_metadata =
  sm_spend_height :: u32
  sm_first_output_position :: u32
  sm_action_count :: u8

definition sm_from_entry_tail :: "bytes \<Rightarrow> spend_metadata" where
  "sm_from_entry_tail buf = \<lparr> sm_spend_height = of_nat (le_val (take 4 buf)),
     sm_first_output_position = of_nat (le_val (take 4 (drop 4 buf))), sm_action_count = buf ! 8 \<rparr>"

text \<open>The client's scan: whole entries of the first \<open>BUCKET_BYTES\<close> bytes, the first whose nullifier matches.\<close>

definition scan_bucket_for_nf :: "bytes \<Rightarrow> bytes \<Rightarrow> spend_metadata option" where
  "scan_bucket_for_nf decoded_row nf =
     (let bucket_data = take BUCKET_BYTES decoded_row;
          entries = chunks_exact (length bucket_data div ENTRY_BYTES) ENTRY_BYTES bucket_data
      in map_option (\<lambda>chunk. sm_from_entry_tail (drop 32 chunk)) (find (\<lambda>chunk. take 32 chunk = nf) entries))"

section \<open>The table\<close>

datatype ht_error = BucketOverflow nat | BlockNotFound | Snapshot string | Ht_Panic

record nf_bucket =
  bk_entries :: "nullifier_entry list"
  bk_count :: nat

definition bucket_new :: nf_bucket where
  "bucket_new = \<lparr> bk_entries = replicate BUCKET_CAPACITY ne_ZERO, bk_count = 0 \<rparr>"

definition bucket_remove :: "nat \<Rightarrow> nf_bucket \<Rightarrow> nf_bucket" where
  "bucket_remove slot b = b \<lparr> bk_entries := (bk_entries b)[slot := ne_ZERO] \<rparr>"

definition find_free_slot :: "nf_bucket \<Rightarrow> nat option" where
  "find_free_slot b = find (\<lambda>i. ne_is_empty (bk_entries b ! i)) [0..<BUCKET_CAPACITY]"

definition bucket_contains :: "bytes \<Rightarrow> nf_bucket \<Rightarrow> bool" where
  "bucket_contains nf b \<longleftrightarrow> list_ex (\<lambda>i. ne_nullifier (bk_entries b ! i) = nf) [0..<BUCKET_CAPACITY]"

record nf_block =
  nb_block_hash :: bytes
  nb_slots :: "(nat \<times> nat) list"

record hash_table =
  ht_buckets :: "nf_bucket list"
  ht_block_index :: "(u64, nf_block) btree"
  ht_hash_to_height :: "bytes \<rightharpoonup> u64"
  ht_num_entries :: nat

definition ht_new :: hash_table where
  "ht_new = \<lparr> ht_buckets = replicate NUM_BUCKETS bucket_new, ht_block_index = [], ht_hash_to_height = Map.empty, ht_num_entries = 0 \<rparr>"

definition ht_put :: "nat \<Rightarrow> nat \<Rightarrow> nullifier_entry \<Rightarrow> hash_table \<Rightarrow> hash_table" where
  "ht_put bucket_idx slot e db =
     (let b = ht_buckets db ! bucket_idx;
          b = b \<lparr> bk_entries := (bk_entries b)[slot := e], bk_count := if slot \<ge> bk_count b then slot + 1 else bk_count b \<rparr>
      in db \<lparr> ht_buckets := (ht_buckets db)[bucket_idx := b], ht_num_entries := ht_num_entries db + 1 \<rparr>)"

definition entry_of :: "u32 \<Rightarrow> nullifier_with_meta \<Rightarrow> nullifier_entry" where
  "entry_of spend_height n = \<lparr> ne_nullifier = nm_nullifier n, ne_spend_height = spend_height,
     ne_first_output_position = nm_first_output_position n, ne_action_count = nm_action_count n \<rparr>"

fun insert_nullifiers :: "u32 \<Rightarrow> nullifier_with_meta list \<Rightarrow> (nat \<times> nat) list \<Rightarrow> hash_table \<Rightarrow> (ht_error + (nat \<times> nat) list) \<times> hash_table" where
  "insert_nullifiers spend_height [] slots db = (Inr slots, db)"
| "insert_nullifiers spend_height (nwm # rest) slots db =
     (let bucket_idx = hash_to_bucket (nm_nullifier nwm) in
      case find_free_slot (ht_buckets db ! bucket_idx) of
        None \<Rightarrow> (Inl (BucketOverflow bucket_idx), db)
      | Some slot \<Rightarrow>
          insert_nullifiers spend_height rest (slots @ [(bucket_idx, slot)])
            (ht_put bucket_idx slot (entry_of spend_height nwm) db))"

definition insert_block :: "u64 \<Rightarrow> bytes \<Rightarrow> nullifier_with_meta list \<Rightarrow> hash_table \<Rightarrow> (ht_error + unit) \<times> hash_table" where
  "insert_block height block_hash nullifiers db =
     (case insert_nullifiers (ucast height) nullifiers [] db of
        (Inl e, db) \<Rightarrow> (Inl e, db)
      | (Inr slots, db) \<Rightarrow>
          (Inr (), db \<lparr> ht_block_index := bt_insert height \<lparr> nb_block_hash = block_hash, nb_slots = slots \<rparr> (ht_block_index db),
                        ht_hash_to_height := (ht_hash_to_height db)(block_hash \<mapsto> height) \<rparr>))"

definition remove_slots :: "(nat \<times> nat) list \<Rightarrow> nf_bucket list \<Rightarrow> nf_bucket list" where
  "remove_slots slots buckets = fold (\<lambda>(bucket_idx, slot_idx) bs. bs[bucket_idx := bucket_remove slot_idx (bs ! bucket_idx)]) slots buckets"

text \<open>\<open>num_entries -= slots.len()\<close> panics or wraps below zero; the model makes it an error, and the invariant excludes it.\<close>

definition drop_record :: "nf_block \<Rightarrow> hash_table \<Rightarrow> (ht_error + unit) \<times> hash_table" where
  "drop_record r db =
     (let db = db \<lparr> ht_buckets := remove_slots (nb_slots r) (ht_buckets db) \<rparr> in
      if ht_num_entries db < length (nb_slots r) then (Inl Ht_Panic, db)
      else (Inr (), db \<lparr> ht_num_entries := ht_num_entries db - length (nb_slots r) \<rparr>))"

definition rollback_block :: "bytes \<Rightarrow> hash_table \<Rightarrow> (ht_error + unit) \<times> hash_table" where
  "rollback_block block_hash db =
     (case ht_hash_to_height db block_hash of
        None \<Rightarrow> (Inl BlockNotFound, db)
      | Some height \<Rightarrow>
          (let db = db \<lparr> ht_hash_to_height := (ht_hash_to_height db)(block_hash := None) \<rparr> in
           case map_of (ht_block_index db) height of
             None \<Rightarrow> (Inl BlockNotFound, db)
           | Some r \<Rightarrow> drop_record r (db \<lparr> ht_block_index := bt_remove height (ht_block_index db) \<rparr>)))"

definition evict_oldest_block :: "hash_table \<Rightarrow> (ht_error + u64 option) \<times> hash_table" where
  "evict_oldest_block db =
     (case ht_block_index db of
        [] \<Rightarrow> (Inr None, db)
      | (oldest_height, r) # _ \<Rightarrow>
          (case drop_record r (db \<lparr> ht_block_index := bt_remove oldest_height (ht_block_index db),
                                     ht_hash_to_height := (ht_hash_to_height db)(nb_block_hash r := None) \<rparr>) of
             (Inl e, db) \<Rightarrow> (Inl e, db)
           | (Inr _, db) \<Rightarrow> (Inr (Some oldest_height), db)))"

lemma drop_record_index [simp]: "ht_block_index (snd (drop_record r db)) = ht_block_index db"
  by (simp add: drop_record_def Let_def)

lemma length_bt_remove: "m = (k, v) # m' \<Longrightarrow> length (bt_remove k m) < length m"
  by (simp add: bt_remove_def less_Suc_eq_le)

lemma evict_oldest_shrinks:
  "evict_oldest_block db = (Inr (Some h), db') \<Longrightarrow> length (ht_block_index db') < length (ht_block_index db)"
proof (cases "ht_block_index db")
  case (Cons e m)
  obtain k r where e: "e = (k, r)" by (cases e)
  let ?db = "db \<lparr> ht_block_index := bt_remove k (ht_block_index db), ht_hash_to_height := (ht_hash_to_height db)(nb_block_hash r := None) \<rparr>"
  assume "evict_oldest_block db = (Inr (Some h), db')"
  then have "db' = snd (drop_record r ?db)"
    using Cons e by (auto simp: evict_oldest_block_def split: prod.splits sum.splits)
  then show ?thesis using length_bt_remove [of "ht_block_index db" k r m] Cons e by simp
qed (simp add: evict_oldest_block_def)

text \<open>\<open>evict_to_target\<close>: the loop ends because every eviction removes a block.\<close>

function evict_to_target :: "hash_table \<Rightarrow> (ht_error + unit) \<times> hash_table" where
  "evict_to_target db =
     (if ht_num_entries db > TARGET_SIZE then
        case evict_oldest_block db of
          (Inl e, db) \<Rightarrow> (Inl e, db)
        | (Inr None, db) \<Rightarrow> (Inr (), db)
        | (Inr (Some h), db) \<Rightarrow> evict_to_target db
      else (Inr (), db))"
  by pat_completeness auto
termination by (relation "measure (\<lambda>db. length (ht_block_index db))") (auto dest: evict_oldest_shrinks [OF sym])

declare evict_to_target.simps [simp del]

definition ht_contains :: "bytes \<Rightarrow> hash_table \<Rightarrow> bool" where
  "ht_contains nf db \<longleftrightarrow> bucket_contains nf (ht_buckets db ! hash_to_bucket nf)"

definition to_pir_bytes :: "hash_table \<Rightarrow> bytes" where
  "to_pir_bytes db = concat (map (\<lambda>b. concat (map ne_to_bytes (bk_entries b))) (ht_buckets db))"

definition ht_earliest_height :: "hash_table \<Rightarrow> u64 option" where
  "ht_earliest_height db = (case ht_block_index db of [] \<Rightarrow> None | (h, _) # _ \<Rightarrow> Some h)"

definition ht_latest_height :: "hash_table \<Rightarrow> u64 option" where
  "ht_latest_height db = (if ht_block_index db = [] then None else Some (fst (last (ht_block_index db))))"

definition ht_latest_block_hash :: "hash_table \<Rightarrow> bytes option" where
  "ht_latest_block_hash db = (if ht_block_index db = [] then None else Some (nb_block_hash (snd (last (ht_block_index db)))))"

section \<open>Cells and their owners\<close>

definition cell :: "nf_bucket list \<Rightarrow> nat \<times> nat \<Rightarrow> nullifier_entry" where
  "cell bs p = bk_entries (bs ! fst p) ! snd p"

definition in_range :: "nat \<times> nat \<Rightarrow> bool" where
  "in_range p \<longleftrightarrow> fst p < NUM_BUCKETS \<and> snd p < BUCKET_CAPACITY"

definition shape :: "nf_bucket list \<Rightarrow> bool" where
  "shape bs \<longleftrightarrow> length bs = NUM_BUCKETS \<and> (\<forall>b \<in> set bs. length (bk_entries b) = BUCKET_CAPACITY)"

text \<open>The cells in use are exactly the owned ones, and each holds its owner's entry in the bucket of its nullifier.\<close>

definition cells_ok :: "nf_bucket list \<Rightarrow> ((nat \<times> nat) \<times> nullifier_entry) list \<Rightarrow> bool" where
  "cells_ok bs owned \<longleftrightarrow> shape bs \<and> distinct (map fst owned) \<and>
     (\<forall>(p, e) \<in> set owned. in_range p \<and> fst p = hash_to_bucket (ne_nullifier e) \<and> \<not> ne_is_empty e \<and> cell bs p = e) \<and>
     (\<forall>p. in_range p \<longrightarrow> \<not> ne_is_empty (cell bs p) \<longrightarrow> p \<in> fst ` set owned)"

lemma cells_ok_mset: "cells_ok bs xs \<Longrightarrow> mset xs = mset ys \<Longrightarrow> cells_ok bs ys"
  unfolding cells_ok_def by (metis (no_types, lifting) mset_eq_imp_distinct_iff mset_eq_setD mset_map)

lemma cells_ok_entry:
  "cells_ok bs owned \<Longrightarrow> (p, e) \<in> set owned \<Longrightarrow> in_range p \<and> fst p = hash_to_bucket (ne_nullifier e) \<and> \<not> ne_is_empty e \<and> cell bs p = e"
  by (auto simp: cells_ok_def)

lemma cells_ok_used: "cells_ok bs owned \<Longrightarrow> in_range p \<Longrightarrow> \<not> ne_is_empty (cell bs p) \<Longrightarrow> p \<in> fst ` set owned"
  unfolding cells_ok_def by blast

lemma cells_okI:
  assumes "shape bs" and "distinct (map fst owned)"
    and "\<And>p e. (p, e) \<in> set owned \<Longrightarrow> in_range p \<and> fst p = hash_to_bucket (ne_nullifier e) \<and> \<not> ne_is_empty e \<and> cell bs p = e"
    and "\<And>p. in_range p \<Longrightarrow> \<not> ne_is_empty (cell bs p) \<Longrightarrow> p \<in> fst ` set owned"
  shows "cells_ok bs owned"
  using assms unfolding cells_ok_def by blast

lemma cells_ok_shape: "cells_ok bs owned \<Longrightarrow> shape bs"
  by (simp add: cells_ok_def)

lemma cells_ok_distinct: "cells_ok bs owned \<Longrightarrow> distinct (map fst owned)"
  by (simp add: cells_ok_def)

lemma hash_to_bucket_range: "hash_to_bucket nf < NUM_BUCKETS"
  by (simp add: hash_to_bucket_def NUM_BUCKETS_def)

lemma shape_bucket: "shape bs \<Longrightarrow> i < NUM_BUCKETS \<Longrightarrow> length (bk_entries (bs ! i)) = BUCKET_CAPACITY"
  by (simp add: shape_def)

lemma shape_update: "shape bs \<Longrightarrow> length (bk_entries b) = BUCKET_CAPACITY \<Longrightarrow> shape (bs[i := b])"
  by (auto simp: shape_def dest!: set_update_subset_insert [THEN subsetD])

lemma cell_update:
  assumes "shape bs" and "in_range (i, s)" and "in_range q" and "bk_entries b = (bk_entries (bs ! i))[s := e]"
  shows "cell (bs[i := b]) q = (if q = (i, s) then e else cell bs q)"
  using assms shape_bucket [OF assms(1), of i] by (cases q) (auto simp: cell_def in_range_def shape_def nth_list_update)

lemma cells_ok_write:
  assumes ok: "cells_ok bs owned" and p: "in_range (i, s)" "ne_is_empty (cell bs (i, s))"
    and e: "\<not> ne_is_empty e" "i = hash_to_bucket (ne_nullifier e)" and b: "bk_entries b = (bk_entries (bs ! i))[s := e]"
  shows "cells_ok (bs[i := b]) (owned @ [((i, s), e)])"
proof -
  note shape = cells_ok_shape [OF ok]
  note upd = cell_update [OF shape p(1) _ b]
  have fresh: "(i, s) \<notin> fst ` set owned" using cells_ok_entry [OF ok] p(2) by force
  have old: "q \<noteq> (i, s)" if "(q, f) \<in> set owned" for q f using that fresh by force
  show ?thesis
  proof (rule cells_okI)
    show "shape (bs[i := b])" using shape_update [OF shape, of b i] shape_bucket [OF shape, of i] b p(1) by (simp add: in_range_def)
    show "distinct (map fst (owned @ [((i, s), e)]))" using cells_ok_distinct [OF ok] fresh by simp
    show "in_range q \<and> fst q = hash_to_bucket (ne_nullifier f) \<and> \<not> ne_is_empty f \<and> cell (bs[i := b]) q = f"
      if "(q, f) \<in> set (owned @ [((i, s), e)])" for q f
      using that cells_ok_entry [OF ok, of q f] old [of q f] upd [of q] p(1) e by auto
    show "q \<in> fst ` set (owned @ [((i, s), e)])" if "in_range q" "\<not> ne_is_empty (cell (bs[i := b]) q)" for q
      using that cells_ok_used [OF ok that(1)] upd [OF that(1)] by (cases "q = (i, s)") auto
  qed
qed

lemma remove_slots_cells:
  assumes "shape bs" and "\<forall>p \<in> set slots. in_range p"
  shows "shape (remove_slots slots bs) \<and> (\<forall>q. in_range q \<longrightarrow> cell (remove_slots slots bs) q = (if q \<in> set slots then ne_ZERO else cell bs q))"
  using assms
proof (induction slots arbitrary: bs)
  case (Cons p slots)
  obtain i s where p: "p = (i, s)" by (cases p)
  let ?b = "bucket_remove s (bs ! i)" and ?bs = "bs[i := bucket_remove s (bs ! i)]"
  have r: "in_range (i, s)" using Cons.prems p by simp
  have shape: "shape ?bs"
    using shape_update [OF Cons.prems(1), of ?b i] shape_bucket [OF Cons.prems(1), of i] r by (simp add: bucket_remove_def in_range_def)
  have upd: "cell ?bs q = (if q = (i, s) then ne_ZERO else cell bs q)" if "in_range q" for q
    by (rule cell_update [OF Cons.prems(1) r that]) (simp add: bucket_remove_def)
  have "remove_slots (p # slots) bs = remove_slots slots ?bs" by (simp add: remove_slots_def p)
  then show ?case using Cons.IH [OF shape] Cons.prems upd by (auto simp: p)
qed (simp add: remove_slots_def)

lemma ne_ZERO_empty [simp]: "ne_is_empty ne_ZERO"
  by (simp add: ne_is_empty_def ne_ZERO_def)

lemma cells_ok_remove:
  assumes ok: "cells_ok bs (xs @ ys @ zs)"
  shows "cells_ok (remove_slots (map fst ys) bs) (xs @ zs)"
proof -
  have range: "\<forall>p \<in> set (map fst ys). in_range p" using cells_ok_entry [OF ok] by force
  note rem = remove_slots_cells [OF cells_ok_shape [OF ok] range]
  have cells: "cell (remove_slots (map fst ys) bs) q = (if q \<in> set (map fst ys) then ne_ZERO else cell bs q)" if "in_range q" for q
    using rem that by blast
  note distinct = cells_ok_distinct [OF ok]
  have keep: "p \<notin> set (map fst ys)" if "(p, e) \<in> set (xs @ zs)" for p e
    using distinct that by force
  show ?thesis
  proof (rule cells_okI)
    show "shape (remove_slots (map fst ys) bs)" using rem by simp
    show "distinct (map fst (xs @ zs))" using distinct by auto
    show "in_range p \<and> fst p = hash_to_bucket (ne_nullifier e) \<and> \<not> ne_is_empty e \<and> cell (remove_slots (map fst ys) bs) p = e"
      if "(p, e) \<in> set (xs @ zs)" for p e
      using cells_ok_entry [OF ok, of p e] cells [of p] keep [OF that] that by auto
    show "p \<in> fst ` set (xs @ zs)" if "in_range p" "\<not> ne_is_empty (cell (remove_slots (map fst ys) bs) p)" for p
    proof -
      have gone: "p \<notin> set (map fst ys)" "\<not> ne_is_empty (cell bs p)" using cells [OF that(1)] that(2) by (auto split: if_splits)
      have "p \<in> fst ` set (xs @ ys @ zs)" by (rule cells_ok_used [OF ok that(1) gone(2)])
      then show ?thesis using gone(1) by auto
    qed
  qed
qed

section \<open>The ledger of a table\<close>

text \<open>What a table stands for: its blocks in height order, each with its hash and its entries at their cells.\<close>

type_synonym nf_ledger = "(u64 \<times> bytes \<times> ((nat \<times> nat) \<times> nullifier_entry) list) list"

definition owned_of :: "nf_ledger \<Rightarrow> ((nat \<times> nat) \<times> nullifier_entry) list" where
  "owned_of l = concat (map (\<lambda>(h, hash, own). own) l)"

definition index_of :: "nf_ledger \<Rightarrow> (u64, nf_block) btree" where
  "index_of l = map (\<lambda>(h, hash, own). (h, \<lparr> nb_block_hash = hash, nb_slots = map fst own \<rparr>)) l"

definition hashes_of :: "nf_ledger \<Rightarrow> (bytes \<times> u64) list" where
  "hashes_of l = map (\<lambda>(h, hash, own). (hash, h)) l"

definition ht_ok :: "hash_table \<Rightarrow> nf_ledger \<Rightarrow> bool" where
  "ht_ok db l \<longleftrightarrow> cells_ok (ht_buckets db) (owned_of l) \<and> ht_block_index db = index_of l \<and> bt_ok l \<and>
     ht_num_entries db = length (owned_of l) \<and> distinct (map fst (hashes_of l)) \<and> ht_hash_to_height db = map_of (hashes_of l)"

lemma bt_insert_fresh:
  "bt_ok l \<Longrightarrow> k \<notin> fst ` set l \<Longrightarrow> \<exists>xs zs. l = xs @ zs \<and> bt_insert k v l = xs @ (k, v) # zs"
proof (induction l)
  case (Cons e l)
  show ?case
  proof (cases "k < fst e")
    case True
    then have "bt_insert k v (e # l) = [] @ (k, v) # e # l" by (cases e) simp
    then show ?thesis by (metis append_Nil)
  next
    case False
    obtain xs zs where "l = xs @ zs" "bt_insert k v l = xs @ (k, v) # zs" using Cons by auto
    then have "e # l = (e # xs) @ zs \<and> bt_insert k v (e # l) = (e # xs) @ (k, v) # zs"
      using False Cons.prems by (cases e) auto
    then show ?thesis by blast
  qed
qed simp

lemma bt_insert_map: "bt_insert k (f v) (map (\<lambda>(k, v). (k, f v)) l) = map (\<lambda>(k, v). (k, f v)) (bt_insert k v l)"
  by (induction l) (auto split: if_splits)

lemma index_insert: "bt_insert h \<lparr> nb_block_hash = hash, nb_slots = map fst own \<rparr> (index_of l) = index_of (bt_insert h (hash, own) l)"
  using bt_insert_map [of h "\<lambda>(hash, own). \<lparr> nb_block_hash = hash, nb_slots = map fst own \<rparr>" "(hash, own)" l]
  by (simp add: index_of_def case_prod_unfold)

lemma index_remove: "bt_remove h (index_of l) = index_of (bt_remove h l)"
  by (induction l) (auto simp: index_of_def bt_remove_def)

lemma bt_remove_split:
  assumes "bt_ok (xs @ (h, v) # zs)"
  shows "bt_remove h (xs @ (h, v) # zs) = xs @ zs"
proof -
  have "distinct (map fst (xs @ (h, v) # zs))" by (rule bt_ok_distinct [OF assms])
  then have "\<forall>e \<in> set (xs @ zs). fst e \<noteq> h" by auto
  then show ?thesis by (simp add: bt_remove_def filter_id_conv)
qed

lemma map_of_same_set: "distinct (map fst xs) \<Longrightarrow> set xs = set ys \<Longrightarrow> distinct (map fst ys) \<Longrightarrow> map_of xs = map_of ys"
  by (rule map_of_inject_set [THEN iffD2])

lemma find_free_slot_Some: "find_free_slot b = Some s \<Longrightarrow> s < BUCKET_CAPACITY \<and> ne_is_empty (bk_entries b ! s)"
  by (auto simp: find_free_slot_def find_Some_iff)

lemma find_free_slot_None: "find_free_slot b = None \<longleftrightarrow> (\<forall>s < BUCKET_CAPACITY. \<not> ne_is_empty (bk_entries b ! s))"
  by (auto simp: find_free_slot_def find_None_iff)

lemma ht_buckets_put:
  "ht_buckets (ht_put i s e db) = (ht_buckets db)[i := (ht_buckets db ! i)
     \<lparr> bk_entries := (bk_entries (ht_buckets db ! i))[s := e], bk_count := if s \<ge> bk_count (ht_buckets db ! i) then s + 1 else bk_count (ht_buckets db ! i) \<rparr>]"
  by (simp add: ht_put_def Let_def)

lemma insert_nullifiers_cells:
  assumes "cells_ok (ht_buckets db) owned" and "\<forall>n \<in> set ns. nm_nullifier n \<noteq> ZERO_NF"
    and "insert_nullifiers sh ns slots db = (res, db')"
  obtains own ins where "cells_ok (ht_buckets db') (owned @ own)" and "ht_num_entries db' = ht_num_entries db + length own"
    and "map snd own = map (entry_of sh) ins" and "prefix ins ns"
    and "ht_block_index db' = ht_block_index db" and "ht_hash_to_height db' = ht_hash_to_height db"
    and "case res of Inr s \<Rightarrow> s = slots @ map fst own \<and> ins = ns | Inl e \<Rightarrow> \<exists>i. e = BucketOverflow i"
  using assms
proof (induction sh ns slots db arbitrary: owned thesis rule: insert_nullifiers.induct)
  case (1 sh slots db)
  show ?case by (rule "1.prems"(1) [of "[]" "[]"]) (use "1.prems" in auto)
next
  case (2 sh nwm rest slots db)
  let ?i = "hash_to_bucket (nm_nullifier nwm)" and ?e = "entry_of sh nwm"
  show ?case
  proof (cases "find_free_slot (ht_buckets db ! ?i)")
    case None
    show ?thesis by (rule "2.prems"(1) [of "[]" "[]"]) (use None "2.prems" in \<open>auto simp: Let_def\<close>)
  next
    case (Some s)
    let ?db = "ht_put ?i s ?e db"
    note s = find_free_slot_Some [OF Some]
    have run: "insert_nullifiers sh rest (slots @ [(?i, s)]) ?db = (res, db')"
      using "2.prems"(4) Some by (simp add: Let_def)
    have e: "\<not> ne_is_empty ?e" "?i = hash_to_bucket (ne_nullifier ?e)"
      using "2.prems"(3) by (simp_all add: ne_is_empty_def entry_of_def)
    have cells: "cells_ok (ht_buckets ?db) (owned @ [((?i, s), ?e)])"
      unfolding ht_buckets_put
      by (rule cells_ok_write [OF "2.prems"(2) _ _ e]) (use s in \<open>auto simp: in_range_def hash_to_bucket_range cell_def\<close>)
    have nz: "\<forall>n \<in> set rest. nm_nullifier n \<noteq> ZERO_NF" using "2.prems"(3) by simp
    show ?thesis
    proof (rule "2.IH" [OF refl Some _ cells nz run])
      fix own ins
      assume own: "cells_ok (ht_buckets db') ((owned @ [((?i, s), ?e)]) @ own)" "ht_num_entries db' = ht_num_entries ?db + length own"
        "map snd own = map (entry_of sh) ins" "prefix ins rest" "ht_block_index db' = ht_block_index ?db"
        "ht_hash_to_height db' = ht_hash_to_height ?db"
        "case res of Inr t \<Rightarrow> t = (slots @ [(?i, s)]) @ map fst own \<and> ins = rest | Inl e \<Rightarrow> \<exists>i. e = BucketOverflow i"
      show thesis
        by (rule "2.prems"(1) [of "((?i, s), ?e) # own" "nwm # ins"])
          (use own in \<open>auto simp: ht_put_def Let_def split: sum.splits\<close>)
    qed
  qed
qed

lemma owned_of_append [simp]: "owned_of (xs @ ys) = owned_of xs @ owned_of ys"
  by (simp add: owned_of_def)

lemma owned_of_Cons [simp]: "owned_of ((h, hash, own) # l) = own @ owned_of l"
  by (simp add: owned_of_def)

lemma hashes_of_append [simp]: "hashes_of (xs @ ys) = hashes_of xs @ hashes_of ys"
  by (simp add: hashes_of_def)

lemma hashes_of_Cons [simp]: "hashes_of ((h, hash, own) # l) = (hash, h) # hashes_of l"
  by (simp add: hashes_of_def)

lemma insert_block_ok:
  assumes ok: "ht_ok db l" and fresh: "height \<notin> fst ` set l" "block_hash \<notin> fst ` set (hashes_of l)"
    and nz: "\<forall>n \<in> set ns. nm_nullifier n \<noteq> ZERO_NF" and run: "insert_block height block_hash ns db = (Inr (), db')"
  obtains own where "map snd own = map (entry_of (ucast height)) ns" and "ht_ok db' (bt_insert height (block_hash, own) l)"
proof -
  obtain slots db1 where ins: "insert_nullifiers (ucast height) ns [] db = (Inr slots, db1)"
    and db': "db' = db1 \<lparr> ht_block_index := bt_insert height \<lparr> nb_block_hash = block_hash, nb_slots = slots \<rparr> (ht_block_index db1),
                         ht_hash_to_height := (ht_hash_to_height db1)(block_hash \<mapsto> height) \<rparr>"
    using run by (auto simp: insert_block_def split: prod.splits sum.splits)
  have cells: "cells_ok (ht_buckets db) (owned_of l)" using ok by (simp add: ht_ok_def)
  obtain own where own: "cells_ok (ht_buckets db1) (owned_of l @ own)" "ht_num_entries db1 = ht_num_entries db + length own"
    "map snd own = map (entry_of (ucast height)) ns" "ht_block_index db1 = ht_block_index db"
    "ht_hash_to_height db1 = ht_hash_to_height db" "slots = map fst own"
    by (rule insert_nullifiers_cells [OF cells nz ins]) auto
  have bt: "bt_ok l" using ok by (simp add: ht_ok_def)
  obtain xs zs where l: "l = xs @ zs" "bt_insert height (block_hash, own) l = xs @ (height, block_hash, own) # zs"
    using bt_insert_fresh [OF bt fresh(1)] by blast
  have cells': "cells_ok (ht_buckets db1) (owned_of (bt_insert height (block_hash, own) l))"
    unfolding l(2) by (rule cells_ok_mset [OF own(1)]) (simp add: l(1))
  have hashes: "set (hashes_of (bt_insert height (block_hash, own) l)) = insert (block_hash, height) (set (hashes_of l))"
    "distinct (map fst (hashes_of (bt_insert height (block_hash, own) l)))"
    using ok fresh(2) unfolding l(2) by (auto simp: l(1) ht_ok_def)
  have "map_of (hashes_of (bt_insert height (block_hash, own) l)) = map_of ((block_hash, height) # hashes_of l)"
    by (rule map_of_same_set) (use hashes ok fresh(2) in \<open>auto simp: ht_ok_def\<close>)
  then have "ht_ok db' (bt_insert height (block_hash, own) l)"
    using cells' hashes own ok bt unfolding ht_ok_def db' by (simp add: index_insert) (simp add: l(2), simp add: l(1))
  then show ?thesis using own(3) that by blast
qed

lemma drop_record_ok:
  assumes cells: "cells_ok (ht_buckets db) (owned_of (xs @ (h, hash, own) # zs))" and n: "ht_num_entries db = length (owned_of (xs @ (h, hash, own) # zs))"
  obtains db' where "drop_record \<lparr> nb_block_hash = hash, nb_slots = map fst own \<rparr> db = (Inr (), db')"
    and "cells_ok (ht_buckets db') (owned_of (xs @ zs))" and "ht_num_entries db' = length (owned_of (xs @ zs))"
    and "ht_block_index db' = ht_block_index db" and "ht_hash_to_height db' = ht_hash_to_height db"
proof -
  have "cells_ok (ht_buckets db) (owned_of xs @ own @ owned_of zs)" using cells by simp
  from cells_ok_remove [OF this] show ?thesis using that n by (simp add: drop_record_def Let_def)
qed

lemma map_of_minus: "distinct (map fst (xs @ (k, v) # zs)) \<Longrightarrow> (map_of (xs @ (k, v) # zs))(k := None) = map_of (xs @ zs)"
proof (rule ext)
  fix x
  assume "distinct (map fst (xs @ (k, v) # zs))"
  then have "map_of xs k = None" "map_of zs k = None" by (auto simp: map_of_eq_None_iff)
  then show "((map_of (xs @ (k, v) # zs))(k := None)) x = map_of (xs @ zs) x" by (simp add: map_add_def split: option.splits)
qed

lemma ht_commute:
  "db \<lparr> ht_hash_to_height := m, ht_block_index := i \<rparr> = db \<lparr> ht_block_index := i, ht_hash_to_height := m \<rparr>"
  by simp

lemma remove_ok:
  assumes ok: "ht_ok db (xs @ (h, hash, own) # zs)"
  obtains db' where "drop_record \<lparr> nb_block_hash = hash, nb_slots = map fst own \<rparr>
      (db \<lparr> ht_block_index := bt_remove h (ht_block_index db), ht_hash_to_height := (ht_hash_to_height db)(hash := None) \<rparr>) = (Inr (), db')"
    and "ht_ok db' (xs @ zs)"
proof -
  let ?db = "db \<lparr> ht_block_index := bt_remove h (ht_block_index db), ht_hash_to_height := (ht_hash_to_height db)(hash := None) \<rparr>"
  have bt: "bt_ok (xs @ (h, hash, own) # zs)" using ok by (simp add: ht_ok_def)
  have index: "bt_remove h (ht_block_index db) = index_of (xs @ zs)"
    using ok bt_remove_split [OF bt] by (simp add: ht_ok_def index_remove)
  have hmap: "(ht_hash_to_height db)(hash := None) = map_of (hashes_of (xs @ zs))"
    using ok map_of_minus [of "hashes_of xs" hash h "hashes_of zs"] by (simp add: ht_ok_def)
  have bt': "bt_ok (xs @ zs)" using bt by (simp add: bt_ok_def sorted_wrt_append)
  have "cells_ok (ht_buckets ?db) (owned_of (xs @ (h, hash, own) # zs))" "ht_num_entries ?db = length (owned_of (xs @ (h, hash, own) # zs))"
    using ok by (auto simp: ht_ok_def)
  from drop_record_ok [OF this] obtain db' where db': "drop_record \<lparr> nb_block_hash = hash, nb_slots = map fst own \<rparr> ?db = (Inr (), db')"
    "cells_ok (ht_buckets db') (owned_of (xs @ zs))" "ht_num_entries db' = length (owned_of (xs @ zs))"
    "ht_block_index db' = ht_block_index ?db" "ht_hash_to_height db' = ht_hash_to_height ?db"
    by blast
  have "distinct (map fst (hashes_of (xs @ zs)))" using ok by (auto simp: ht_ok_def)
  then have "ht_ok db' (xs @ zs)" using db' index hmap bt' by (simp add: ht_ok_def)
  then show ?thesis using that db'(1) by blast
qed

section \<open>The table stands for its blocks\<close>

text \<open>The specification: the blocks held, in height order, with the entries of each.\<close>

type_synonym nf_blocks = "(u64 \<times> bytes \<times> nullifier_entry list) list"

definition ht_rep :: "hash_table \<Rightarrow> nf_blocks \<Rightarrow> bool" where
  "ht_rep db s \<longleftrightarrow> (\<exists>l. ht_ok db l \<and> s = map (\<lambda>(h, hash, own). (h, hash, map snd own)) l)"

definition blocks_entries :: "nf_blocks \<Rightarrow> nullifier_entry list" where
  "blocks_entries s = concat (map (\<lambda>(h, hash, es). es) s)"

definition spec_insert :: "u64 \<Rightarrow> bytes \<Rightarrow> nullifier_with_meta list \<Rightarrow> nf_blocks \<Rightarrow> nf_blocks" where
  "spec_insert height hash ns s = bt_insert height (hash, map (entry_of (ucast height)) ns) s"

definition spec_rollback :: "bytes \<Rightarrow> nf_blocks \<Rightarrow> nf_blocks" where
  "spec_rollback hash s = filter (\<lambda>b. fst (snd b) \<noteq> hash) s"

lemma spec_of_insert:
  "map (\<lambda>(h, hash, own). (h, hash, map snd own)) (bt_insert height (hash, own) l)
     = bt_insert height (hash, map snd own) (map (\<lambda>(h, hash, own). (h, hash, map snd own)) l)"
  using bt_insert_map [of height "\<lambda>(hash, own). (hash, map snd own)" "(hash, own)" l] by (simp add: case_prod_unfold)

lemma ht_new_rep: "ht_rep ht_new []"
proof -
  have "cells_ok (replicate NUM_BUCKETS bucket_new) []"
    by (rule cells_okI) (auto simp: shape_def bucket_new_def cell_def in_range_def)
  then have "ht_ok ht_new []" by (simp add: ht_ok_def ht_new_def owned_of_def index_of_def hashes_of_def)
  then show ?thesis by (auto simp: ht_rep_def intro!: exI [of _ "[]"])
qed

lemma insert_block_rep:
  assumes rep: "ht_rep db s" and fresh: "height \<notin> fst ` set s" "block_hash \<notin> (fst \<circ> snd) ` set s"
    and nz: "\<forall>n \<in> set ns. nm_nullifier n \<noteq> ZERO_NF" and run: "insert_block height block_hash ns db = (Inr (), db')"
  shows "ht_rep db' (spec_insert height block_hash ns s)"
proof -
  obtain l where l: "ht_ok db l" "s = map (\<lambda>(h, hash, own). (h, hash, map snd own)) l" using rep by (auto simp: ht_rep_def)
  have "height \<notin> fst ` set l" "block_hash \<notin> fst ` set (hashes_of l)"
    using fresh l(2) by (force simp: hashes_of_def)+
  from insert_block_ok [OF l(1) this nz run] obtain own
    where "map snd own = map (entry_of (ucast height)) ns" "ht_ok db' (bt_insert height (block_hash, own) l)" by blast
  then show ?thesis unfolding ht_rep_def spec_insert_def l(2) using spec_of_insert by metis
qed

lemma rollback_unknown: "ht_rep db s \<Longrightarrow> block_hash \<notin> (fst \<circ> snd) ` set s \<Longrightarrow> rollback_block block_hash db = (Inl BlockNotFound, db)"
proof -
  assume "ht_rep db s" and unknown: "block_hash \<notin> (fst \<circ> snd) ` set s"
  then obtain l where l: "ht_ok db l" "s = map (\<lambda>(h, hash, own). (h, hash, map snd own)) l" by (auto simp: ht_rep_def)
  then have "block_hash \<notin> fst ` set (hashes_of l)" using unknown by (force simp: hashes_of_def)
  then have "ht_hash_to_height db block_hash = None" using l(1) by (simp add: ht_ok_def map_of_eq_None_iff)
  then show ?thesis by (simp add: rollback_block_def)
qed

lemma rollback_block_rep:
  assumes rep: "ht_rep db s" and known: "block_hash \<in> (fst \<circ> snd) ` set s"
  obtains db' where "rollback_block block_hash db = (Inr (), db')" and "ht_rep db' (spec_rollback block_hash s)"
proof -
  obtain l where l: "ht_ok db l" "s = map (\<lambda>(h, hash, own). (h, hash, map snd own)) l" using rep by (auto simp: ht_rep_def)
  then obtain h own where "(h, block_hash, own) \<in> set l" using known by auto
  then obtain xs zs where sp: "l = xs @ (h, block_hash, own) # zs" by (meson split_list)
  have ok: "ht_ok db (xs @ (h, block_hash, own) # zs)" using l(1) sp by simp
  have d: "distinct (map fst (hashes_of l))" using l(1) by (simp add: ht_ok_def)
  have height: "ht_hash_to_height db block_hash = Some h"
    using l(1) map_of_is_SomeI [OF d, of block_hash h] sp by (simp add: ht_ok_def)
  have "distinct (map fst l)" using l(1) bt_ok_distinct [of l] by (simp add: ht_ok_def)
  then have dk: "distinct (map fst (index_of l))" by (simp add: index_of_def comp_def case_prod_unfold)
  have rec: "map_of (ht_block_index db) h = Some \<lparr> nb_block_hash = block_hash, nb_slots = map fst own \<rparr>"
    using l(1) map_of_is_SomeI [OF dk, of h] sp by (simp add: ht_ok_def index_of_def)
  obtain db' where db': "drop_record \<lparr> nb_block_hash = block_hash, nb_slots = map fst own \<rparr>
      (db \<lparr> ht_block_index := bt_remove h (ht_block_index db), ht_hash_to_height := (ht_hash_to_height db)(block_hash := None) \<rparr>) = (Inr (), db')"
    "ht_ok db' (xs @ zs)" using remove_ok [OF ok] by blast
  have "rollback_block block_hash db = (Inr (), db')"
    using db'(1) unfolding rollback_block_def Let_def by (simp add: height rec) (subst ht_commute, assumption)
  moreover have "spec_rollback block_hash s = map (\<lambda>(h, hash, own). (h, hash, map snd own)) (xs @ zs)"
  proof -
    have other: "block_hash \<notin> fst ` set (hashes_of xs)" "block_hash \<notin> fst ` set (hashes_of zs)" using d sp by auto
    have keep: "spec_rollback block_hash (map (\<lambda>(h, hash, own). (h, hash, map snd own)) ys) = map (\<lambda>(h, hash, own). (h, hash, map snd own)) ys"
      if "block_hash \<notin> fst ` set (hashes_of ys)" for ys :: nf_ledger
      using that by (induction ys) (auto simp: spec_rollback_def hashes_of_def)
    show ?thesis using keep [OF other(1)] keep [OF other(2)] by (simp add: l(2) sp spec_rollback_def)
  qed
  ultimately show ?thesis using that db'(2) unfolding ht_rep_def by blast
qed

lemma evict_oldest_rep:
  assumes rep: "ht_rep db ((h, hash, es) # s)"
  obtains db' where "evict_oldest_block db = (Inr (Some h), db')" and "ht_rep db' s"
proof -
  obtain l where l: "ht_ok db l" "(h, hash, es) # s = map (\<lambda>(h, hash, own). (h, hash, map snd own)) l" using rep by (auto simp: ht_rep_def)
  then obtain own zs where sp: "l = (h, hash, own) # zs" by (cases l) auto
  have ok: "ht_ok db ([] @ (h, hash, own) # zs)" using l(1) sp by simp
  obtain db' where db': "drop_record \<lparr> nb_block_hash = hash, nb_slots = map fst own \<rparr>
      (db \<lparr> ht_block_index := bt_remove h (ht_block_index db), ht_hash_to_height := (ht_hash_to_height db)(hash := None) \<rparr>) = (Inr (), db')"
    "ht_ok db' ([] @ zs)" using remove_ok [OF ok] by blast
  have "ht_block_index db = (h, \<lparr> nb_block_hash = hash, nb_slots = map fst own \<rparr>) # index_of zs"
    using l(1) sp by (simp add: ht_ok_def index_of_def)
  then have "evict_oldest_block db = (Inr (Some h), db')" using db'(1) by (simp add: evict_oldest_block_def)
  moreover have "s = map (\<lambda>(h, hash, own). (h, hash, map snd own)) zs" using l(2) sp by simp
  ultimately show ?thesis using that db'(2) by (auto simp: ht_rep_def)
qed

lemma ht_contains_rep:
  assumes rep: "ht_rep db s" and nf: "nf \<noteq> ZERO_NF"
  shows "ht_contains nf db \<longleftrightarrow> nf \<in> ne_nullifier ` set (blocks_entries s)"
proof -
  obtain l where l: "ht_ok db l" "s = map (\<lambda>(h, hash, own). (h, hash, map snd own)) l" using rep by (auto simp: ht_rep_def)
  have cells: "cells_ok (ht_buckets db) (owned_of l)" using l(1) by (simp add: ht_ok_def)
  have es: "blocks_entries s = map snd (owned_of l)"
    by (simp add: blocks_entries_def owned_of_def l(2) map_concat comp_def case_prod_unfold)
  have "ht_contains nf db \<longleftrightarrow> (\<exists>i < BUCKET_CAPACITY. ne_nullifier (cell (ht_buckets db) (hash_to_bucket nf, i)) = nf)"
    by (auto simp: ht_contains_def bucket_contains_def list_ex_iff cell_def)
  also have "\<dots> \<longleftrightarrow> nf \<in> ne_nullifier ` set (map snd (owned_of l))"
  proof
    assume "\<exists>i < BUCKET_CAPACITY. ne_nullifier (cell (ht_buckets db) (hash_to_bucket nf, i)) = nf"
    then obtain i where i: "i < BUCKET_CAPACITY" "ne_nullifier (cell (ht_buckets db) (hash_to_bucket nf, i)) = nf" by blast
    then have "(hash_to_bucket nf, i) \<in> fst ` set (owned_of l)"
      using nf by (intro cells_ok_used [OF cells]) (simp_all add: in_range_def hash_to_bucket_range ne_is_empty_def)
    then obtain e where e: "((hash_to_bucket nf, i), e) \<in> set (owned_of l)" by auto
    then have "ne_nullifier e = nf" using cells_ok_entry [OF cells e] i(2) by metis
    then show "nf \<in> ne_nullifier ` set (map snd (owned_of l))" using e by force
  next
    assume "nf \<in> ne_nullifier ` set (map snd (owned_of l))"
    then obtain q e where e: "(q, e) \<in> set (owned_of l)" "ne_nullifier e = nf" by auto
    then show "\<exists>i < BUCKET_CAPACITY. ne_nullifier (cell (ht_buckets db) (hash_to_bucket nf, i)) = nf"
      using cells_ok_entry [OF cells e(1)] by (cases q) (auto simp: in_range_def)
  qed
  finally show ?thesis by (simp add: es)
qed

subsection \<open>Runs\<close>

datatype nf_op = Nf_Insert u64 bytes "nullifier_with_meta list" | Nf_Rollback bytes | Nf_Evict

fun nf_run :: "nf_op list \<Rightarrow> hash_table \<Rightarrow> (ht_error + unit) \<times> hash_table" where
  "nf_run [] db = (Inr (), db)"
| "nf_run (Nf_Insert height hash ns # ops) db =
     (case insert_block height hash ns db of (Inl e, db) \<Rightarrow> (Inl e, db) | (Inr _, db) \<Rightarrow> nf_run ops db)"
| "nf_run (Nf_Rollback hash # ops) db = nf_run ops (snd (rollback_block hash db))"
| "nf_run (Nf_Evict # ops) db = nf_run ops (snd (evict_oldest_block db))"

fun spec_run :: "nf_op list \<Rightarrow> nf_blocks \<Rightarrow> nf_blocks" where
  "spec_run [] s = s"
| "spec_run (Nf_Insert height hash ns # ops) s = spec_run ops (spec_insert height hash ns s)"
| "spec_run (Nf_Rollback hash # ops) s = spec_run ops (spec_rollback hash s)"
| "spec_run (Nf_Evict # ops) s = spec_run ops (drop 1 s)"

text \<open>Each insertion is of a height and a hash not held, and its nullifiers are 32 bytes and not the empty marker.\<close>

fun fresh_ops :: "nf_op list \<Rightarrow> nf_blocks \<Rightarrow> bool" where
  "fresh_ops [] s \<longleftrightarrow> True"
| "fresh_ops (Nf_Insert height hash ns # ops) s \<longleftrightarrow>
     height \<notin> fst ` set s \<and> hash \<notin> (fst \<circ> snd) ` set s \<and> (\<forall>n \<in> set ns. nm_nullifier n \<noteq> ZERO_NF \<and> length (nm_nullifier n) = 32)
     \<and> fresh_ops ops (spec_insert height hash ns s)"
| "fresh_ops (Nf_Rollback hash # ops) s \<longleftrightarrow> fresh_ops ops (spec_rollback hash s)"
| "fresh_ops (Nf_Evict # ops) s \<longleftrightarrow> fresh_ops ops (drop 1 s)"

lemma rollback_any_rep: "ht_rep db s \<Longrightarrow> ht_rep (snd (rollback_block hash db)) (spec_rollback hash s)"
proof (cases "hash \<in> (fst \<circ> snd) ` set s")
  case True
  assume rep: "ht_rep db s"
  obtain db' where "rollback_block hash db = (Inr (), db')" "ht_rep db' (spec_rollback hash s)"
    using rollback_block_rep [OF rep True] by blast
  then show ?thesis by simp
next
  case False
  assume rep: "ht_rep db s"
  have "spec_rollback hash s = s" using False by (force simp: spec_rollback_def filter_id_conv)
  then show ?thesis using rollback_unknown [OF rep False] rep by simp
qed

lemma evict_any_rep:
  assumes rep: "ht_rep db s"
  shows "ht_rep (snd (evict_oldest_block db)) (drop 1 s)"
proof (cases s)
  case Nil
  then have "ht_block_index db = []" using rep by (auto simp: ht_rep_def ht_ok_def index_of_def)
  then show ?thesis using rep Nil by (simp add: evict_oldest_block_def)
next
  case (Cons b s')
  obtain h hash es where b: "b = (h, hash, es)" by (cases b)
  obtain db' where "evict_oldest_block db = (Inr (Some h), db')" "ht_rep db' s'"
    using evict_oldest_rep [of db h hash es s'] rep Cons b by blast
  then show ?thesis using Cons by simp
qed

lemma nf_run_rep: "ht_rep db s \<Longrightarrow> fresh_ops ops s \<Longrightarrow> nf_run ops db = (Inr (), db') \<Longrightarrow> ht_rep db' (spec_run ops s)"
proof (induction ops db arbitrary: s rule: nf_run.induct)
  case (2 height hash ns ops db)
  obtain db1 where ins: "insert_block height hash ns db = (Inr (), db1)" "nf_run ops db1 = (Inr (), db')"
    using "2.prems"(3) by (auto split: prod.splits sum.splits)
  have "ht_rep db1 (spec_insert height hash ns s)"
    using insert_block_rep [OF "2.prems"(1) _ _ _ ins(1)] "2.prems"(2) by simp
  then show ?case using "2.IH" [OF ins(1) [symmetric] refl] "2.prems"(2) ins(2) by simp
next
  case (3 hash ops db)
  then show ?case using rollback_any_rep by simp
next
  case (4 ops db)
  then show ?case using evict_any_rep by simp
qed simp

subsection \<open>The rows of the table\<close>

lemma set_bt_insert_subset: "set (bt_insert k v m) \<subseteq> insert (k, v) (set m)"
  by (induction m) (auto split: if_splits)

lemma blocks_entries_iff: "e \<in> set (blocks_entries s) \<longleftrightarrow> (\<exists>h hash es. (h, hash, es) \<in> set s \<and> e \<in> set es)"
  by (force simp: blocks_entries_def)

lemma blocks_entries_mono: "set a \<subseteq> set b \<Longrightarrow> set (blocks_entries a) \<subseteq> set (blocks_entries b)"
  by (auto simp: blocks_entries_def)

lemma spec_run_lengths:
  "fresh_ops ops s \<Longrightarrow> \<forall>e \<in> set (blocks_entries s). length (ne_nullifier e) = 32 \<Longrightarrow> \<forall>e \<in> set (blocks_entries (spec_run ops s)). length (ne_nullifier e) = 32"
proof (induction ops s rule: spec_run.induct)
  case (2 height hash ns ops s)
  have "\<forall>e \<in> set (blocks_entries (spec_insert height hash ns s)). length (ne_nullifier e) = 32"
  proof
    fix e assume "e \<in> set (blocks_entries (spec_insert height hash ns s))"
    then obtain h k es where e: "(h, k, es) \<in> set (spec_insert height hash ns s)" "e \<in> set es" by (auto simp: blocks_entries_iff)
    then have "(h, k, es) = (height, hash, map (entry_of (ucast height)) ns) \<or> (h, k, es) \<in> set s"
      using set_bt_insert_subset [of height "(hash, map (entry_of (ucast height)) ns)" s] by (auto simp: spec_insert_def)
    then show "length (ne_nullifier e) = 32" using e(2) "2.prems" by (auto simp: entry_of_def blocks_entries_iff)
  qed
  then show ?case using 2 by simp
next
  case (3 hash ops s)
  have "set (spec_rollback hash s) \<subseteq> set s" by (auto simp: spec_rollback_def)
  from blocks_entries_mono [OF this]
  have "\<forall>e \<in> set (blocks_entries (spec_rollback hash s)). length (ne_nullifier e) = 32" using "3.prems"(2) by blast
  then show ?case using 3 by simp
next
  case (4 ops s)
  have "set (drop 1 s) \<subseteq> set s" by (rule set_drop_subset)
  from blocks_entries_mono [OF this]
  have "\<forall>e \<in> set (blocks_entries (drop 1 s)). length (ne_nullifier e) = 32" using "4.prems"(2) by blast
  then show ?case using 4 by simp
qed simp

lemma length_ne_to_bytes: "length (ne_nullifier e) = 32 \<Longrightarrow> length (ne_to_bytes e) = ENTRY_BYTES"
  by (simp add: ne_to_bytes_def ENTRY_BYTES_def)

lemma ne_roundtrip: "length (ne_nullifier e) = 32 \<Longrightarrow> ne_from_bytes (ne_to_bytes e) = e"
  by (simp add: ne_from_bytes_def ne_to_bytes_def nth_append)

definition meta_of :: "nullifier_entry \<Rightarrow> spend_metadata" where
  "meta_of e = \<lparr> sm_spend_height = ne_spend_height e, sm_first_output_position = ne_first_output_position e, sm_action_count = ne_action_count e \<rparr>"

lemma sm_tail: "length (ne_nullifier e) = 32 \<Longrightarrow> sm_from_entry_tail (drop 32 (ne_to_bytes e)) = meta_of e"
  by (simp add: ne_to_bytes_def sm_from_entry_tail_def meta_of_def nth_append)

lemma scan_entries:
  assumes "\<forall>e \<in> set es. length (ne_nullifier e) = 32" and "length es = BUCKET_CAPACITY"
    and "take BUCKET_BYTES row = concat (map ne_to_bytes es)"
  shows "scan_bucket_for_nf row nf = map_option meta_of (find (\<lambda>e. ne_nullifier e = nf) es)"
proof -
  have const: "\<forall>x \<in> set (map ne_to_bytes es). length x = ENTRY_BYTES" using assms(1) by (auto simp: length_ne_to_bytes)
  have len: "length (concat (map ne_to_bytes es)) = length es * ENTRY_BYTES" using length_concat_const [OF const] by simp
  have n: "length (take BUCKET_BYTES row) div ENTRY_BYTES = length (map ne_to_bytes es)"
    unfolding assms(3) len by (simp add: ENTRY_BYTES_def)
  have "scan_bucket_for_nf row nf
      = map_option (\<lambda>chunk. sm_from_entry_tail (drop 32 chunk)) (find (\<lambda>chunk. take 32 chunk = nf) (map ne_to_bytes es))"
    unfolding scan_bucket_for_nf_def Let_def n unfolding assms(3) chunks_exact_concat [OF const] ..
  also have "\<dots> = map_option meta_of (find (\<lambda>e. ne_nullifier e = nf) es)"
    using assms(1) by (induction es) (auto simp: sm_tail, auto simp: ne_to_bytes_def)
  finally show ?thesis .
qed

lemma pir_row:
  assumes "shape (ht_buckets db)" and "\<forall>b \<in> set (ht_buckets db). \<forall>e \<in> set (bk_entries b). length (ne_nullifier e) = 32" and "i < NUM_BUCKETS"
  shows "take BUCKET_BYTES (drop (i * BUCKET_BYTES) (to_pir_bytes db)) = concat (map ne_to_bytes (bk_entries (ht_buckets db ! i)))"
proof -
  have row: "length (concat (map ne_to_bytes (bk_entries b))) = BUCKET_BYTES" if "b \<in> set (ht_buckets db)" for b
  proof -
    have "\<forall>x \<in> set (map ne_to_bytes (bk_entries b)). length x = ENTRY_BYTES" using assms(2) that by (auto simp: length_ne_to_bytes)
    from length_concat_const [OF this] show ?thesis using assms(1) that by (simp add: shape_def BUCKET_BYTES_def)
  qed
  then have "\<forall>x \<in> set (map (\<lambda>b. concat (map ne_to_bytes (bk_entries b))) (ht_buckets db)). length x = BUCKET_BYTES" by auto
  from nth_concat_const [OF this, of i] show ?thesis using assms(1, 3) by (simp add: to_pir_bytes_def shape_def)
qed

lemma scan_rep:
  assumes rep: "ht_rep db s" and len: "\<forall>e \<in> set (blocks_entries s). length (ne_nullifier e) = 32" and nf: "nf \<noteq> ZERO_NF"
    and row: "take BUCKET_BYTES row = take BUCKET_BYTES (drop (hash_to_bucket nf * BUCKET_BYTES) (to_pir_bytes db))"
  shows "case scan_bucket_for_nf row nf of
           None \<Rightarrow> nf \<notin> ne_nullifier ` set (blocks_entries s)
         | Some m \<Rightarrow> \<exists>e \<in> set (blocks_entries s). ne_nullifier e = nf \<and> m = meta_of e"
proof -
  obtain l where l: "ht_ok db l" "s = map (\<lambda>(h, hash, own). (h, hash, map snd own)) l" using rep by (auto simp: ht_rep_def)
  have cells: "cells_ok (ht_buckets db) (owned_of l)" using l(1) by (simp add: ht_ok_def)
  have es: "blocks_entries s = map snd (owned_of l)"
    by (simp add: blocks_entries_def owned_of_def l(2) map_concat comp_def case_prod_unfold)
  note shape = cells_ok_shape [OF cells]
  have used: "cell (ht_buckets db) p \<in> set (blocks_entries s)" if "in_range p" "\<not> ne_is_empty (cell (ht_buckets db) p)" for p
    using cells_ok_used [OF cells that] cells_ok_entry [OF cells] unfolding es by force
  have l32: "length (ne_nullifier (cell (ht_buckets db) p)) = 32" if "in_range p" for p
    using used [OF that] len by (cases "ne_is_empty (cell (ht_buckets db) p)") (auto simp: ne_is_empty_def ZERO_NF_def)
  have all32: "\<forall>b \<in> set (ht_buckets db). \<forall>e \<in> set (bk_entries b). length (ne_nullifier e) = 32"
  proof (intro ballI)
    fix b e assume "b \<in> set (ht_buckets db)" "e \<in> set (bk_entries b)"
    then obtain i j where "i < length (ht_buckets db)" "b = ht_buckets db ! i" "j < length (bk_entries b)" "e = bk_entries b ! j"
      by (metis in_set_conv_nth)
    then show "length (ne_nullifier e) = 32" using l32 [of "(i, j)"] shape by (simp add: in_range_def shape_def cell_def)
  qed
  let ?b = "ht_buckets db ! hash_to_bucket nf"
  have b: "?b \<in> set (ht_buckets db)" using shape hash_to_bucket_range [of nf] by (simp add: shape_def)
  have scan: "scan_bucket_for_nf row nf = map_option meta_of (find (\<lambda>e. ne_nullifier e = nf) (bk_entries ?b))"
    by (rule scan_entries) (use all32 b shape row pir_row [OF shape all32 hash_to_bucket_range] in \<open>auto simp: shape_def\<close>)
  have "ht_contains nf db \<longleftrightarrow> nf \<in> ne_nullifier ` set (bk_entries ?b)"
  proof -
    have cap: "length (bk_entries ?b) = BUCKET_CAPACITY" by (rule shape_bucket [OF shape hash_to_bucket_range])
    have "set (bk_entries ?b) = (!) (bk_entries ?b) ` {0..<BUCKET_CAPACITY}" unfolding cap [symmetric] by (auto simp: set_conv_nth)
    then show ?thesis unfolding ht_contains_def bucket_contains_def list_ex_iff set_upt by (simp add: image_iff) metis
  qed
  then have none: "nf \<notin> ne_nullifier ` set (blocks_entries s)" if "scan_bucket_for_nf row nf = None"
    using that ht_contains_rep [OF rep nf] by (auto simp: scan find_None_iff)
  have some: "\<exists>e \<in> set (blocks_entries s). ne_nullifier e = nf \<and> m = meta_of e" if found: "scan_bucket_for_nf row nf = Some m" for m
  proof -
    obtain i where "i < length (bk_entries ?b)" "ne_nullifier (bk_entries ?b ! i) = nf" "m = meta_of (bk_entries ?b ! i)"
      using found by (auto simp: scan find_Some_iff)
    then show ?thesis
      using used [of "(hash_to_bucket nf, i)"] shape b hash_to_bucket_range [of nf] nf by (auto simp: cell_def in_range_def shape_def ne_is_empty_def)
  qed
  show ?thesis using none some by (auto split: option.splits)
qed

lemma ht_rep_entries: "ht_rep db s \<Longrightarrow> ht_num_entries db = length (blocks_entries s)"
  by (auto simp: ht_rep_def ht_ok_def blocks_entries_def owned_of_def length_concat comp_def case_prod_unfold)

text \<open>
  C15. The nullifier table implements the set of its blocks: after any successful sequence of insertions of new blocks, rollbacks and
  evictions, a nullifier is in the table exactly when some block still held has it, the entry count is the number of their
  nullifiers, and a client that scans the row of the nullifier's bucket gets the metadata of such an entry, or nothing when no block has it.
\<close>

theorem nullifier_table_exact:
  assumes "fresh_ops ops []" and "nf_run ops ht_new = (Inr (), db)" and "nf \<noteq> ZERO_NF" and "s = spec_run ops []"
    and "take BUCKET_BYTES row = take BUCKET_BYTES (drop (hash_to_bucket nf * BUCKET_BYTES) (to_pir_bytes db))"
  shows "(ht_contains nf db \<longleftrightarrow> nf \<in> ne_nullifier ` set (blocks_entries s)) \<and> ht_num_entries db = length (blocks_entries s)
    \<and> (case scan_bucket_for_nf row nf of
         None \<Rightarrow> nf \<notin> ne_nullifier ` set (blocks_entries s)
       | Some m \<Rightarrow> \<exists>e \<in> set (blocks_entries s). ne_nullifier e = nf \<and> m = meta_of e)"
proof -
  have rep: "ht_rep db s" using nf_run_rep [OF ht_new_rep assms(1, 2)] by (simp add: assms(4))
  have len: "\<forall>e \<in> set (blocks_entries s). length (ne_nullifier e) = 32"
    using spec_run_lengths [OF assms(1)] by (simp add: assms(4) blocks_entries_def)
  show ?thesis using ht_contains_rep [OF rep assms(3)] ht_rep_entries [OF rep] scan_rep [OF rep len assms(3, 5)] by blast
qed

definition sample_nf :: "u8 \<Rightarrow> nullifier_with_meta" where
  "sample_nf b = \<lparr> nm_nullifier = b # replicate 31 0, nm_first_output_position = 7, nm_action_count = 1 \<rparr>"

lemma sample_nf_nonzero: "b \<noteq> 0 \<Longrightarrow> nm_nullifier (sample_nf b) \<noteq> ZERO_NF"
  by (auto simp: sample_nf_def ZERO_NF_def dest!: arg_cong [of _ _ "\<lambda>xs. xs ! 0"])

lemma put_empty_table:
  "insert_block h hash [sample_nf b] ht_new = (Inr (), snd (insert_block h hash [sample_nf b] ht_new))"
proof -
  have free: "find_free_slot (ht_buckets ht_new ! hash_to_bucket (nm_nullifier (sample_nf b))) \<noteq> None"
    unfolding find_free_slot_None using hash_to_bucket_range [of "nm_nullifier (sample_nf b)"]
    by (simp add: ht_new_def bucket_new_def) (auto simp: BUCKET_CAPACITY_def intro!: exI [of _ 0])
  then show ?thesis by (auto simp: insert_block_def Let_def)
qed

theorem nullifier_table_exact_witness:
  "\<exists>db. nf_run [Nf_Insert 1 [1] [sample_nf 5]] ht_new = (Inr (), db) \<and> ht_contains (nm_nullifier (sample_nf 5)) db
     \<and> \<not> ht_contains (nm_nullifier (sample_nf 6)) db"
proof -
  let ?ops = "[Nf_Insert 1 [1] [sample_nf 5]]" and ?db = "snd (insert_block 1 [1] [sample_nf 5] ht_new)"
  have run: "nf_run ?ops ht_new = (Inr (), ?db)" by (simp, subst put_empty_table) simp
  have fresh: "fresh_ops ?ops []" by (simp add: sample_nf_nonzero) (simp add: sample_nf_def)
  note nz = sample_nf_nonzero
  note exact = nullifier_table_exact [OF fresh run _ refl refl]
  have "ht_contains (nm_nullifier (sample_nf 5)) ?db" using exact [OF nz [of 5]]
    by (simp add: spec_insert_def blocks_entries_def entry_of_def)
  moreover have "\<not> ht_contains (nm_nullifier (sample_nf 6)) ?db" using exact [OF nz [of 6]]
    by (simp add: spec_insert_def blocks_entries_def entry_of_def) (simp add: sample_nf_def)
  ultimately show ?thesis using run by blast
qed

end
