(* ===== verification/Legacy_Chain.thy ===== *)
theory Legacy_Chain
  imports Legacy_Nullifiers Witness_Tree
begin

text \<open>
  How the servers of the legacy spendability demo follow the chain: the reorganization tracker
  \<open>shared/chain-ingest/src/chain_tracker.rs\<close>, the parsers and the follow loops of \<open>nullifier/nf-ingest\<close> and \<open>witness/commitment-ingest\<close>,
  the window bootstrap of \<open>witness/witness-server/src/server.rs\<close> and the handlers of both servers for the events they receive.

  A poll of the loop is a function of the tip height and of the blocks lightwalletd returns for the range asked. Compact blocks
  are what the protocol buffers carry of the Ironwood pool. Tree sizes are 32-bit; their sums wrap as in a release build.
\<close>

section \<open>Compact blocks\<close>

record compact_action =
  ca_nullifier :: bytes
  ca_cmx :: bytes
  ca_ephemeral_key :: bytes
  ca_ciphertext :: bytes

record compact_tx =
  ct_ironwood_actions :: "compact_action list"

record compact_block =
  cb_height :: u64
  cb_hash :: bytes
  cb_prev_hash :: bytes
  cb_vtx :: "compact_tx list"
  cb_tree_size :: "u32 option"

definition to_hash_array :: "bytes \<Rightarrow> bytes" where
  "to_hash_array bs = set_len 32 bs"

definition ironwood_tree_size :: "compact_block \<Rightarrow> u32 option" where
  "ironwood_tree_size block = (case cb_tree_size block of Some n \<Rightarrow> if n > 0 then Some n else None | None \<Rightarrow> None)"

definition extract_nullifiers :: "compact_block \<Rightarrow> bytes list" where
  "extract_nullifiers block =
     concat (map (\<lambda>tx. map ca_nullifier (filter (\<lambda>a. length (ca_nullifier a) = 32) (ct_ironwood_actions tx))) (cb_vtx block))"

fun meta_of_txs :: "u32 option \<Rightarrow> compact_tx list \<Rightarrow> nullifier_with_meta list" where
  "meta_of_txs running_position [] = []"
| "meta_of_txs running_position (tx # txs) =
     (let action_count = of_nat (length (ct_ironwood_actions tx));
          first_output_position = (case running_position of Some p \<Rightarrow> p | None \<Rightarrow> 0)
      in map (\<lambda>a. \<lparr> nm_nullifier = ca_nullifier a, nm_first_output_position = first_output_position, nm_action_count = action_count \<rparr>)
           (filter (\<lambda>a. length (ca_nullifier a) = 32) (ct_ironwood_actions tx))
         @ meta_of_txs (map_option (\<lambda>p. p + of_nat (length (ct_ironwood_actions tx))) running_position) txs)"

definition extract_nullifiers_with_meta :: "compact_block \<Rightarrow> u32 option \<Rightarrow> nullifier_with_meta list \<times> u32 option" where
  "extract_nullifiers_with_meta block prior_tree_size =
     (let this_tree_size = ironwood_tree_size block;
          total_actions = sum_list (map (\<lambda>tx. of_nat (length (ct_ironwood_actions tx))) (cb_vtx block)) :: u32;
          before = (case Option.bind this_tree_size (\<lambda>ts. checked_sub ts total_actions) of Some n \<Rightarrow> Some n | None \<Rightarrow> prior_tree_size)
      in (meta_of_txs before (cb_vtx block), this_tree_size))"

definition extract_commitments :: "compact_block \<Rightarrow> node_hash list" where
  "extract_commitments block =
     concat (map (\<lambda>tx. map ca_cmx (filter (\<lambda>a. length (ca_cmx a) = 32) (ct_ironwood_actions tx))) (cb_vtx block))"

record decryption_leaf =
  dl_nf :: bytes
  dl_ephemeral_key :: bytes
  dl_ciphertext :: bytes

definition decryption_leaf_from_action :: "compact_action \<Rightarrow> decryption_leaf" where
  "decryption_leaf_from_action a = \<lparr> dl_nf = set_len 32 (ca_nullifier a), dl_ephemeral_key = set_len 32 (ca_ephemeral_key a),
     dl_ciphertext = set_len 52 (ca_ciphertext a) \<rparr>"

definition extract_decryption_leaves :: "compact_block \<Rightarrow> decryption_leaf list" where
  "extract_decryption_leaves block =
     concat (map (\<lambda>tx. map decryption_leaf_from_action (filter (\<lambda>a. length (ca_cmx a) = 32) (ct_ironwood_actions tx))) (cb_vtx block))"

definition extract_commitments_and_decryption :: "compact_block \<Rightarrow> node_hash list \<times> decryption_leaf list" where
  "extract_commitments_and_decryption block =
     fold (\<lambda>tx acc. fold (\<lambda>a (cs, ls). if length (ca_cmx a) = 32 then (cs @ [ca_cmx a], ls @ [decryption_leaf_from_action a]) else (cs, ls))
             (ct_ironwood_actions tx) acc) (cb_vtx block) ([], [])"

definition DECRYPT_LEAF_BYTES :: nat where "DECRYPT_LEAF_BYTES = 32 + 32 + 52"

definition dl_to_bytes :: "decryption_leaf \<Rightarrow> bytes" where
  "dl_to_bytes l = dl_nf l @ dl_ephemeral_key l @ dl_ciphertext l"

definition dl_from_bytes :: "bytes \<Rightarrow> decryption_leaf option" where
  "dl_from_bytes bs =
     (if length bs < DECRYPT_LEAF_BYTES then None
      else Some \<lparr> dl_nf = take 32 bs, dl_ephemeral_key = take 32 (drop 32 bs), dl_ciphertext = take (DECRYPT_LEAF_BYTES - 64) (drop 64 bs) \<rparr>)"

section \<open>The tracker\<close>

datatype chain_action = Extend | Reorg u64

record chain_tracker =
  ck_chain :: "(u64 \<times> bytes) list"
  ck_max_depth :: nat

definition tracker_new :: "nat \<Rightarrow> chain_tracker" where
  "tracker_new max_depth = \<lparr> ck_chain = [], ck_max_depth = max_depth \<rparr>"

definition tracker_with_tip :: "u64 \<Rightarrow> bytes \<Rightarrow> nat \<Rightarrow> chain_tracker" where
  "tracker_with_tip height hash max_depth = (tracker_new max_depth) \<lparr> ck_chain := [(height, hash)] \<rparr>"

definition tracker_tip :: "chain_tracker \<Rightarrow> (u64 \<times> bytes) option" where
  "tracker_tip tr = (if ck_chain tr = [] then None else Some (last (ck_chain tr)))"

definition truncate_to :: "u64 \<Rightarrow> (u64 \<times> bytes) list \<Rightarrow> (u64 \<times> bytes) list" where
  "truncate_to fork_height chain = rev (dropWhile (\<lambda>(h, _). h > fork_height) (rev chain))"

definition find_fork_point :: "bytes \<Rightarrow> (u64 \<times> bytes) list \<Rightarrow> u64" where
  "find_fork_point target_hash chain =
     (case find (\<lambda>(h, hash). hash = target_hash) (rev chain) of
        Some (h, _) \<Rightarrow> h
      | None \<Rightarrow> (case chain of (h, _) # _ \<Rightarrow> saturating_sub h 1 | [] \<Rightarrow> 0))"

definition push_block :: "u64 \<Rightarrow> bytes \<Rightarrow> bytes \<Rightarrow> chain_tracker \<Rightarrow> chain_action \<times> chain_tracker" where
  "push_block height hash prev_hash tr =
     (if ck_chain tr = [] then (Extend, tr \<lparr> ck_chain := [(height, hash)] \<rparr>)
      else case last (ck_chain tr) of (tip_height, tip_hash) \<Rightarrow>
        if prev_hash = tip_hash \<and> height = tip_height + 1
        then let chain = ck_chain tr @ [(height, hash)] in
             (Extend, tr \<lparr> ck_chain := if length chain > ck_max_depth tr then drop 1 chain else chain \<rparr>)
        else let fork_height = find_fork_point prev_hash (ck_chain tr) in
             (Reorg fork_height, tr \<lparr> ck_chain := truncate_to fork_height (ck_chain tr) @ [(height, hash)] \<rparr>))"

section \<open>Following: commitments\<close>

datatype witness_event =
    W_NewBlock u64 bytes bytes "node_hash list" "u32 option"
  | W_Reorg u64

record follow_state =
  fw_tracker :: chain_tracker
  fw_current_height :: u64
  fw_prev_tree_size :: "u32 option"

definition witness_follow_block :: "compact_block \<Rightarrow> follow_state \<Rightarrow> witness_event list \<times> follow_state" where
  "witness_follow_block block st =
     (let height = cb_height block; hash = to_hash_array (cb_hash block); prev_hash = to_hash_array (cb_prev_hash block);
          commitments = extract_commitments block; this_tree_size = ironwood_tree_size block
      in case push_block height hash prev_hash (fw_tracker st) of
           (Extend, tr) \<Rightarrow> ([W_NewBlock height hash prev_hash commitments (fw_prev_tree_size st)],
                           \<lparr> fw_tracker = tr, fw_current_height = height, fw_prev_tree_size = this_tree_size \<rparr>)
         | (Reorg rollback_to, tr) \<Rightarrow> ([W_Reorg rollback_to, W_NewBlock height hash prev_hash commitments None],
                           \<lparr> fw_tracker = tr, fw_current_height = height, fw_prev_tree_size = this_tree_size \<rparr>))"

fun follow_blocks :: "(compact_block \<Rightarrow> 's \<Rightarrow> 'e list \<times> 's) \<Rightarrow> compact_block list \<Rightarrow> 's \<Rightarrow> 'e list \<times> 's" where
  "follow_blocks step [] st = ([], st)"
| "follow_blocks step (b # bs) st =
     (case step b st of (es, st) \<Rightarrow> case follow_blocks step bs st of (es', st) \<Rightarrow> (es @ es', st))"

text \<open>
  One poll: nothing below a new tip, otherwise the blocks after the current height. \<open>latest\<close> and \<open>block_range\<close> are what lightwalletd
  answers; an error of its client ends the loop.
\<close>

definition follow_poll ::
  "(compact_block \<Rightarrow> follow_state \<Rightarrow> 'e list \<times> follow_state) \<Rightarrow> string + u64 \<Rightarrow> (u64 \<Rightarrow> u64 \<Rightarrow> string + compact_block list)
     \<Rightarrow> follow_state \<Rightarrow> string + ('e list \<times> follow_state)" where
  "follow_poll step latest block_range st =
     bindR latest (\<lambda>tip_height.
       if tip_height \<le> fw_current_height st then Inr ([], st)
       else bindR (block_range (fw_current_height st + 1) tip_height) (\<lambda>blocks. Inr (follow_blocks step blocks st)))"

definition CONFIRMATION_DEPTH :: nat where "CONFIRMATION_DEPTH = 10"

definition follow_start :: "u64 \<Rightarrow> bytes \<Rightarrow> u32 option \<Rightarrow> follow_state" where
  "follow_start height hash initial_tree_size =
     \<lparr> fw_tracker = tracker_with_tip height hash (CONFIRMATION_DEPTH * 2), fw_current_height = height, fw_prev_tree_size = initial_tree_size \<rparr>"

datatype witness_server_error = Client string | PirSetup string | MissingCompletingBlock u64 | TreeSizeMismatch u64 nat nat

definition validate_prior_tree_size :: "u64 \<Rightarrow> u32 option \<Rightarrow> tree_db \<Rightarrow> witness_server_error + unit" where
  "validate_prior_tree_size height prior_tree_size t =
     (case prior_tree_size of
        None \<Rightarrow> Inr ()
      | Some expected \<Rightarrow> if tree_size t = unat expected then Inr () else Inl (TreeSizeMismatch height (unat expected) (tree_size t)))"

definition witness_handle :: "witness_event \<Rightarrow> tree_db \<Rightarrow> witness_server_error + tree_db" where
  "witness_handle ev t =
     (case ev of
        W_NewBlock height hash prev_hash commitments prior_tree_size \<Rightarrow>
          bindR (validate_prior_tree_size height prior_tree_size t) (\<lambda>_. Inr (append_commitments height hash commitments t))
      | W_Reorg rollback_to \<Rightarrow> Inr (tree_rollback_to rollback_to t))"

definition witness_handle_all :: "witness_event list \<Rightarrow> tree_db \<Rightarrow> witness_server_error + tree_db" where
  "witness_handle_all evs t = foldR witness_handle evs t"

section \<open>Following: nullifiers\<close>

datatype nf_event =
    N_NewBlock u64 bytes bytes "nullifier_with_meta list"
  | N_Reorg "(u64 \<times> bytes) list" "(u64 \<times> bytes \<times> bytes \<times> nullifier_with_meta list) list"

text \<open>\<open>for h in (rollback_to + 1..=current_height).rev()\<close>: every orphaned block is reported with the zero hash.\<close>

definition orphaned_blocks :: "u64 \<Rightarrow> u64 \<Rightarrow> (u64 \<times> bytes) list" where
  "orphaned_blocks rollback_to current_height =
     rev (map (\<lambda>h. (of_nat h, replicate 32 0)) [unat rollback_to + 1..<unat current_height + 1])"

definition nf_follow_block :: "compact_block \<Rightarrow> follow_state \<Rightarrow> nf_event list \<times> follow_state" where
  "nf_follow_block block st =
     (let height = cb_height block; hash = to_hash_array (cb_hash block); prev_hash = to_hash_array (cb_prev_hash block) in
      case extract_nullifiers_with_meta block (fw_prev_tree_size st) of (nullifiers, this_tree_size) \<Rightarrow>
      case push_block height hash prev_hash (fw_tracker st) of
           (Extend, tr) \<Rightarrow> ([N_NewBlock height hash prev_hash nullifiers],
                           \<lparr> fw_tracker = tr, fw_current_height = height, fw_prev_tree_size = this_tree_size \<rparr>)
         | (Reorg rollback_to, tr) \<Rightarrow>
             ([N_Reorg (orphaned_blocks rollback_to (fw_current_height st)) [(height, hash, prev_hash, nullifiers)]],
              \<lparr> fw_tracker = tr, fw_current_height = height, fw_prev_tree_size = ironwood_tree_size block \<rparr>))"

text \<open>The server: a failed rollback is logged and skipped.\<close>

fun insert_new_blocks :: "(u64 \<times> bytes \<times> bytes \<times> nullifier_with_meta list) list \<Rightarrow> hash_table \<Rightarrow> (ht_error + unit) \<times> hash_table" where
  "insert_new_blocks [] db = (Inr (), db)"
| "insert_new_blocks ((height, hash, prev_hash, ns) # bs) db =
     (case insert_block height hash ns db of (Inl e, db) \<Rightarrow> (Inl e, db) | (Inr _, db) \<Rightarrow> insert_new_blocks bs db)"

definition nf_handle :: "nf_event \<Rightarrow> hash_table \<Rightarrow> (ht_error + unit) \<times> hash_table" where
  "nf_handle ev db =
     (case ev of
        N_NewBlock height hash prev_hash ns \<Rightarrow>
          (case insert_block height hash ns db of (Inl e, db) \<Rightarrow> (Inl e, db) | (Inr _, db) \<Rightarrow> evict_to_target db)
      | N_Reorg orphaned new_blocks \<Rightarrow>
          (let db = fold (\<lambda>(height, hash) db. snd (rollback_block hash db)) (rev orphaned) db in
           case insert_new_blocks new_blocks db of (Inl e, db) \<Rightarrow> (Inl e, db) | (Inr _, db) \<Rightarrow> evict_to_target db))"

section \<open>Window bootstrap\<close>

definition spillover_from_commitments :: "node_hash list \<Rightarrow> nat \<Rightarrow> nat \<Rightarrow> node_hash list" where
  "spillover_from_commitments commitments end_tree_size leaf_offset =
     (if end_tree_size \<le> leaf_offset then []
      else let spillover_count = end_tree_size - leaf_offset; skip = length commitments - spillover_count in drop skip commitments)"

definition completing_block_spillover :: "compact_block \<Rightarrow> nat \<Rightarrow> node_hash list" where
  "completing_block_spillover block leaf_offset =
     spillover_from_commitments (extract_commitments block) (case cb_tree_size block of Some n \<Rightarrow> unat n | None \<Rightarrow> 0) leaf_offset"

record subtree_root =
  sr_root_hash :: bytes
  sr_completing_block_height :: u64

definition NU6_3_MAINNET_ACTIVATION :: u64 where "NU6_3_MAINNET_ACTIVATION = 3428143"
definition NU6_3_TESTNET_ACTIVATION :: u64 where "NU6_3_TESTNET_ACTIVATION = 4134000"

datatype zcash_network = Main_Net | Test_Net

definition activation_height :: "zcash_network \<Rightarrow> u64" where
  "activation_height n = (case n of Main_Net \<Rightarrow> NU6_3_MAINNET_ACTIVATION | Test_Net \<Rightarrow> NU6_3_TESTNET_ACTIVATION)"

definition from_lwd_name :: "string \<Rightarrow> zcash_network option" where
  "from_lwd_name name = (if name = ''main'' then Some Main_Net else if name = ''test'' then Some Test_Net else None)"

definition min_sync_height :: "zcash_network option \<Rightarrow> u64 \<Rightarrow> u64" where
  "min_sync_height network tip_height =
     (case network of
        Some n \<Rightarrow> if tip_height \<ge> activation_height n then activation_height n else 1
      | None \<Rightarrow> 1)"

text \<open>
  \<open>roots\<close> and \<open>block_range\<close> are the answers of lightwalletd. With a limit of one shard the window starts after the last
  completed shard, so the indexed root exists.
\<close>

definition prepare_tree ::
  "'m merkle_hash \<Rightarrow> string + subtree_root list \<Rightarrow> (u64 \<Rightarrow> u64 \<Rightarrow> string + compact_block list) \<Rightarrow> zcash_network option \<Rightarrow> u64 \<Rightarrow> nat
     \<Rightarrow> witness_server_error + (tree_db \<times> u64 \<times> u32 option)" where
  "prepare_tree mh roots block_range network tip_height window_shard_limit =
     (let window_shard_limit = max 1 (min window_shard_limit L0_MAX_SHARDS) in
      bindR (map_err Client roots) (\<lambda>subtree_roots.
      let num_completed = length subtree_roots in
      if num_completed \<ge> window_shard_limit then
        let window_start = num_completed - (window_shard_limit - 1);
            leaf_offset = window_start * SHARD_LEAVES;
            prefetched = map (\<lambda>sr. set_len 32 (sr_root_hash sr)) (take window_start subtree_roots);
            completing_block_height = sr_completing_block_height (subtree_roots ! (window_start - 1));
            sync_from = completing_block_height + 1;
            tree = with_offset mh leaf_offset prefetched
        in bindR (map_err Client (block_range completing_block_height completing_block_height)) (\<lambda>completing_blocks.
           case completing_blocks of
             [] \<Rightarrow> Inl (MissingCompletingBlock completing_block_height)
           | block # _ \<Rightarrow>
               let spillover = completing_block_spillover block leaf_offset;
                   tree = (if spillover \<noteq> [] then append_commitments completing_block_height (set_len 32 (cb_hash block)) spillover tree else tree)
               in Inr (tree, sync_from, Some (of_nat (tree_size tree))))
      else Inr (tree_new mh, min_sync_height network tip_height, None)))"

section \<open>Parsers\<close>

lemma decryption_leaves_aligned: "length (extract_decryption_leaves block) = length (extract_commitments block)"
  by (simp add: extract_decryption_leaves_def extract_commitments_def length_concat comp_def)

lemma fold_actions:
  "fold (\<lambda>a (cs, ls). if length (ca_cmx a) = 32 then (cs @ [ca_cmx a], ls @ [decryption_leaf_from_action a]) else (cs, ls)) as (cs, ls)
     = (cs @ map ca_cmx (filter (\<lambda>a. length (ca_cmx a) = 32) as), ls @ map decryption_leaf_from_action (filter (\<lambda>a. length (ca_cmx a) = 32) as))"
  for as :: "compact_action list"
  by (induction as arbitrary: cs ls) auto

lemma extract_single_pass: "extract_commitments_and_decryption block = (extract_commitments block, extract_decryption_leaves block)"
proof -
  have "fold (\<lambda>tx acc. fold (\<lambda>a (cs, ls). if length (ca_cmx a) = 32 then (cs @ [ca_cmx a], ls @ [decryption_leaf_from_action a]) else (cs, ls))
             (ct_ironwood_actions tx) acc) txs (cs, ls)
      = (cs @ concat (map (\<lambda>tx. map ca_cmx (filter (\<lambda>a. length (ca_cmx a) = 32) (ct_ironwood_actions tx))) txs),
         ls @ concat (map (\<lambda>tx. map decryption_leaf_from_action (filter (\<lambda>a. length (ca_cmx a) = 32) (ct_ironwood_actions tx))) txs))" for txs :: "compact_tx list" and cs ls
    by (induction txs arbitrary: cs ls) (simp_all add: fold_actions)
  then show ?thesis by (simp add: extract_commitments_and_decryption_def extract_commitments_def extract_decryption_leaves_def)
qed

lemma nullifiers_of_meta: "map nm_nullifier (fst (extract_nullifiers_with_meta block prior)) = extract_nullifiers block"
proof -
  have "map nm_nullifier (meta_of_txs p txs)
      = concat (map (\<lambda>tx. map ca_nullifier (filter (\<lambda>a. length (ca_nullifier a) = 32) (ct_ironwood_actions tx))) txs)" for p and txs :: "compact_tx list"
    by (induction p txs rule: meta_of_txs.induct) (auto simp: Let_def comp_def)
  then show ?thesis by (simp add: extract_nullifiers_with_meta_def extract_nullifiers_def Let_def)
qed

lemma dl_roundtrip:
  "length (dl_nf l) = 32 \<Longrightarrow> length (dl_ephemeral_key l) = 32 \<Longrightarrow> length (dl_ciphertext l) = 52 \<Longrightarrow> dl_from_bytes (dl_to_bytes l @ rest) = Some l"
  by (simp add: dl_from_bytes_def dl_to_bytes_def DECRYPT_LEAF_BYTES_def)

section \<open>Following a chain that only grows\<close>

text \<open>Blocks each of which follows the one before it, from a given tip.\<close>

fun linked :: "u64 \<Rightarrow> bytes \<Rightarrow> compact_block list \<Rightarrow> bool" where
  "linked height hash [] \<longleftrightarrow> True"
| "linked height hash (b # bs) \<longleftrightarrow>
     cb_height b = height + 1 \<and> to_hash_array (cb_prev_hash b) = hash \<and> linked (cb_height b) (to_hash_array (cb_hash b)) bs"

lemma push_block_extend:
  assumes "tracker_tip tr = Some (height, hash)" and "0 < ck_max_depth tr"
  shows "\<exists>tr'. push_block (height + 1) hash' hash tr = (Extend, tr') \<and> tracker_tip tr' = Some (height + 1, hash') \<and> ck_max_depth tr' = ck_max_depth tr"
proof -
  have tip: "ck_chain tr \<noteq> []" "last (ck_chain tr) = (height, hash)" using assms(1) by (auto simp: tracker_tip_def split: if_splits)
  then have "drop 1 (ck_chain tr @ [x]) = drop 1 (ck_chain tr) @ [x]" for x by (cases "ck_chain tr") auto
  then show ?thesis by (simp add: push_block_def tip Let_def tracker_tip_def)
qed

section \<open>What a reorganization does\<close>

lemma find_fork_unknown:
  "prev \<notin> snd ` set chain \<Longrightarrow> chain = (a, ah) # rest \<Longrightarrow> find_fork_point prev chain = saturating_sub a 1"
proof -
  assume "prev \<notin> snd ` set chain" and c: "chain = (a, ah) # rest"
  then have "find (\<lambda>(h, hash). hash = prev) (rev chain) = None" by (force simp: find_None_iff)
  then show ?thesis by (simp add: find_fork_point_def c)
qed

lemma push_block_unknown:
  assumes "prev \<notin> snd ` set (ck_chain tr)" and "ck_chain tr = (a, ah) # rest"
  shows "\<exists>tr'. push_block height hash prev tr = (Reorg (saturating_sub a 1), tr') \<and> tracker_tip tr' = Some (height, hash)
    \<and> ck_max_depth tr' = ck_max_depth tr"
proof -
  obtain th thash where tip: "last (ck_chain tr) = (th, thash)" by (cases "last (ck_chain tr)")
  have "thash \<in> snd ` set (ck_chain tr)" using tip last_in_set [of "ck_chain tr"] assms(2) by force
  then have "prev \<noteq> thash" using assms(1) by auto
  moreover have "ck_chain tr \<noteq> []" using assms(2) by simp
  ultimately show ?thesis
    using find_fork_unknown [OF assms] by (simp add: push_block_def tip Let_def tracker_tip_def)
qed

lemma dropWhile_descending:
  "sorted_wrt (>) (map fst xs) \<Longrightarrow> y \<in> set (dropWhile (\<lambda>b. fst b > target) xs) \<Longrightarrow> fst y \<le> target" for target :: "'a::linorder"
  by (induction xs) (auto split: if_splits)

lemma history_rollback_below:
  assumes "sorted_wrt (<) (map fst hist)" and "x \<in> set (history_rollback target hist)"
  shows "fst x \<le> target"
proof -
  have "sorted_wrt (>) (map fst (rev hist))" using assms(1) by (simp add: rev_map [symmetric] sorted_wrt_rev)
  from dropWhile_descending [OF this, of x target] show ?thesis using assms(2) by (simp add: history_rollback_def)
qed

text \<open>What the server does with a block that follows the block the loop has just passed on.\<close>

lemma follow_linked_block:
  assumes "tracker_tip (fw_tracker st) = Some (height, hash)" and "0 < ck_max_depth (fw_tracker st)"
    and "cb_height c = height + 1" and "to_hash_array (cb_prev_hash c) = hash"
  shows "witness_handle_all (fst (witness_follow_block c st)) t
    = bindR (validate_prior_tree_size (cb_height c) (fw_prev_tree_size st) t)
        (\<lambda>_. Inr (append_commitments (cb_height c) (to_hash_array (cb_hash c)) (extract_commitments c) t))"
proof -
  obtain tr where "push_block (cb_height c) (to_hash_array (cb_hash c)) (to_hash_array (cb_prev_hash c)) (fw_tracker st) = (Extend, tr)"
    using push_block_extend [OF assms(1, 2)] assms(3, 4) by metis
  then show ?thesis
    by (cases "validate_prior_tree_size (cb_height c) (fw_prev_tree_size st) t")
      (simp_all add: witness_follow_block_def Let_def witness_handle_all_def witness_handle_def)
qed

text \<open>
  C29. Following the chain through a reorganization loses blocks: when a poll brings exactly one block and it does not link to a block of
  the tracker's window, the server rolls its tree back to below the whole window and appends that one block, and this poll reports no error.
  Every block of the tree is then older than the window or that block: the blocks of the new branch in between were not fetched, and the next
  poll asks for higher ones only. The loss is noticed no earlier than at the next block, and only through the tree size the appended block
  states: a block that follows it is refused with a tree size mismatch exactly when the appended block states a size other than the
  number of leaves the tree is left with (the base, the blocks below the window and the appended one); when it states none, or the lost
  blocks carried no leaf, the following block is appended on top of the gap.
\<close>

theorem reorg_leaves_gap:
  assumes "tree_at mh base hist t" and "sorted_wrt (<) (map fst hist)"
    and "ck_chain (fw_tracker st) = (a, ah) # rest" and "0 < a"
    and "to_hash_array (cb_prev_hash b) \<notin> snd ` set (ck_chain (fw_tracker st))"
    and "fw_current_height st < tip" and "block_range (fw_current_height st + 1) tip = Inr [b]"
    and "length (extract_commitments b) < 2 ^ 32" and "0 < ck_max_depth (fw_tracker st)"
  shows "\<exists>evs st' t'. follow_poll witness_follow_block (Inr tip) block_range st = Inr (evs, st') \<and> witness_handle_all evs t = Inr t'
    \<and> tree_at mh base (history_rollback (a - 1) hist @ [(cb_height b, to_hash_array (cb_hash b), extract_commitments b)]) t'
    \<and> (\<forall>x \<in> set (tr_blocks t'). tb_height x < a \<or> tb_height x = cb_height b)
    \<and> fw_current_height st' = cb_height b
    \<and> tree_size t' = length base + length (history_leaves (history_rollback (a - 1) hist)) + length (extract_commitments b)
    \<and> (\<forall>c. cb_height c = cb_height b + 1 \<and> to_hash_array (cb_prev_hash c) = to_hash_array (cb_hash b) \<longrightarrow>
         witness_handle_all (fst (witness_follow_block c st')) t' =
           (if (case ironwood_tree_size b of Some n \<Rightarrow> unat n = tree_size t' | None \<Rightarrow> True)
            then Inr (append_commitments (cb_height c) (to_hash_array (cb_hash c)) (extract_commitments c) t')
            else Inl (TreeSizeMismatch (cb_height c) (unat (the (ironwood_tree_size b))) (tree_size t'))))"
proof -
  let ?hash = "to_hash_array (cb_hash b)" and ?prev = "to_hash_array (cb_prev_hash b)" and ?cs = "extract_commitments b"
  let ?hist = "history_rollback (a - 1) hist @ [(cb_height b, ?hash, ?cs)]"
  have one: "1 \<le> a" using assms(4) by (simp add: word_le_nat_alt word_less_nat_alt)
  then have pre: "unat (a - 1) = unat a - 1" by (simp add: unat_minus_nowrap)
  have sat: "saturating_sub a 1 = a - 1" using one by (simp add: saturating_sub_def)
  obtain tr' where push: "push_block (cb_height b) ?hash ?prev (fw_tracker st) = (Reorg (a - 1), tr')"
      and tip: "tracker_tip tr' = Some (cb_height b, ?hash)" and depth: "0 < ck_max_depth tr'"
    using push_block_unknown [OF assms(5, 3)] sat assms(9) by metis
  let ?st = "\<lparr> fw_tracker = tr', fw_current_height = cb_height b, fw_prev_tree_size = ironwood_tree_size b \<rparr>"
  have poll: "follow_poll witness_follow_block (Inr tip) block_range st
      = Inr ([W_Reorg (a - 1), W_NewBlock (cb_height b) ?hash ?prev ?cs None], ?st)"
    using assms(6, 7) push by (simp add: follow_poll_def witness_follow_block_def Let_def)
  let ?t = "append_commitments (cb_height b) ?hash ?cs (tree_rollback_to (a - 1) t)"
  have at: "tree_at mh base ?hist ?t" by (rule append_at [OF rollback_holds [OF assms(1)] assms(8)])
  then have size: "tree_size ?t = length base + length (history_leaves (history_rollback (a - 1) hist)) + length ?cs"
    by (auto simp: tree_at_def history_leaves_def dest!: tree_holds_size)
  have "fst x < a" if "x \<in> set (history_rollback (a - 1) hist)" for x
    using history_rollback_below [OF assms(2) that] assms(4) pre by (simp add: word_le_nat_alt word_less_nat_alt)
  then have old: "\<forall>x \<in> set (tr_blocks ?t). tb_height x < a \<or> tb_height x = cb_height b"
    using at by (auto simp: tree_at_def history_block_def)
  have handled: "witness_handle_all [W_Reorg (a - 1), W_NewBlock (cb_height b) ?hash ?prev ?cs None] t = Inr ?t"
    by (simp add: witness_handle_all_def witness_handle_def validate_prior_tree_size_def)
  have later: "witness_handle_all (fst (witness_follow_block c ?st)) ?t =
      (if (case ironwood_tree_size b of Some n \<Rightarrow> unat n = tree_size ?t | None \<Rightarrow> True)
       then Inr (append_commitments (cb_height c) (to_hash_array (cb_hash c)) (extract_commitments c) ?t)
       else Inl (TreeSizeMismatch (cb_height c) (unat (the (ironwood_tree_size b))) (tree_size ?t)))"
    if "cb_height c = cb_height b + 1 \<and> to_hash_array (cb_prev_hash c) = ?hash" for c
    using follow_linked_block [of ?st, OF _ _ that [THEN conjunct1] that [THEN conjunct2], of ?t] tip depth
    by (simp add: validate_prior_tree_size_def split: option.splits)
  show ?thesis using poll handled at old size later by fastforce
qed

definition fork_tree :: tree_db where
  "fork_tree = tree_run sum_hash [Append_op 1 (replicate 32 1) [sample_leaf 5], Append_op 2 (replicate 32 2) [sample_leaf 6]] (with_offset sum_hash 0 [])"

definition fork_block :: compact_block where
  "fork_block = \<lparr> cb_height = 3, cb_hash = replicate 32 33, cb_prev_hash = replicate 32 22, cb_vtx = [], cb_tree_size = Some 3 \<rparr>"

definition fork_child :: compact_block where
  "fork_child = \<lparr> cb_height = 4, cb_hash = replicate 32 44, cb_prev_hash = replicate 32 33, cb_vtx = [], cb_tree_size = Some 3 \<rparr>"

theorem reorg_leaves_gap_witness:
  "\<exists>evs st' t'. follow_poll witness_follow_block (Inr 3) (\<lambda>_ _. Inr [fork_block]) (follow_start 2 (replicate 32 2) None) = Inr (evs, st')
     \<and> witness_handle_all evs fork_tree = Inr t'
     \<and> (\<forall>x \<in> set (tr_blocks t'). tb_height x < 2 \<or> tb_height x = 3) \<and> tree_size t' = 1
     \<and> witness_handle_all (fst (witness_follow_block fork_child st')) t' = Inl (TreeSizeMismatch 4 3 1)"
proof -
  let ?ops = "[Append_op 1 (replicate 32 1) [sample_leaf 5], Append_op 2 (replicate 32 2) [sample_leaf 6]]"
  have at: "tree_at sum_hash [] (history_run ?ops []) fork_tree"
    using run_from_offset [OF sum_hash_ok _ prefetch_ok_Nil, of ?ops] by (simp add: fork_tree_def appends_fit_def)
  have asc: "sorted_wrt (<) (map fst (history_run ?ops []))" by simp
  have chain: "ck_chain (fw_tracker (follow_start 2 (replicate 32 2) None)) = (2, replicate 32 2) # []"
    by (simp add: follow_start_def tracker_with_tip_def)
  have unknown: "to_hash_array (cb_prev_hash fork_block) \<notin> snd ` set (ck_chain (fw_tracker (follow_start 2 (replicate 32 2) None)))"
    unfolding chain by (auto simp: fork_block_def to_hash_array_def set_len_def dest!: arg_cong [of _ _ "\<lambda>xs. xs ! 0"])
  have "(0 :: u64) < 2" "fw_current_height (follow_start 2 (replicate 32 2) None) < 3" "length (extract_commitments fork_block) < 2 ^ 32"
    "0 < ck_max_depth (fw_tracker (follow_start 2 (replicate 32 2) None))"
    by (simp_all add: follow_start_def fork_block_def extract_commitments_def tracker_with_tip_def tracker_new_def CONFIRMATION_DEPTH_def)
  note gap = reorg_leaves_gap [where block_range = "\<lambda>_ _. Inr [fork_block]", OF at asc chain this(1) unknown this(2) refl this(3, 4)]
  have left: "length (history_leaves (history_rollback (2 - 1) (history_run ?ops []))) = 1" "length (extract_commitments fork_block) = 0"
    by (simp_all add: history_rollback_def history_leaves_def fork_block_def extract_commitments_def)
  have child: "cb_height fork_child = cb_height fork_block + 1" "to_hash_array (cb_prev_hash fork_child) = to_hash_array (cb_hash fork_block)"
    "ironwood_tree_size fork_block = Some 3" "cb_height fork_child = 4" "cb_height fork_block = 3"
    by (simp_all add: fork_child_def fork_block_def ironwood_tree_size_def)
  from gap show ?thesis unfolding left by (elim exE conjE) (auto simp: child)
qed

section \<open>Orphaned nullifiers\<close>

lemma cells_ok_contains:
  assumes "cells_ok (ht_buckets db) owned" and "(p, e) \<in> set owned"
  shows "ht_contains (ne_nullifier e) db"
  using cells_ok_entry [OF assms] by (cases p) (auto simp: ht_contains_def bucket_contains_def list_ex_iff cell_def in_range_def intro!: bexI [of _ "snd p"])

lemma rollback_zero_hashes:
  assumes "ht_rep db s" and "replicate 32 0 \<notin> (fst \<circ> snd) ` set s"
  shows "fold (\<lambda>(height, hash) db. snd (rollback_block hash db)) (rev (orphaned_blocks rollback_to current)) db = db"
proof -
  have "fold (\<lambda>(height, hash) db. snd (rollback_block hash db)) os db = db" if "\<forall>x \<in> set os. snd x = replicate 32 0" for os
    using that rollback_unknown [OF assms] by (induction os) (auto split: prod.splits)
  moreover have "\<forall>x \<in> set (rev (orphaned_blocks rollback_to current)). snd x = replicate 32 0"
    by (auto simp: orphaned_blocks_def simp del: upt_Suc)
  ultimately show ?thesis by blast
qed

text \<open>
  C11. Nullifiers of orphaned blocks stay in the table: the follow loop reports every orphaned block with the zero hash, so when the server handles a
  reorganization no rollback finds its block, and every nullifier the table held before, those of the orphaned blocks included, is
  still reported as spent afterwards.
\<close>

theorem reorg_keeps_orphans:
  assumes rep: "ht_rep db s" and zero: "replicate 32 0 \<notin> (fst \<circ> snd) ` set s"
    and push: "push_block (cb_height b) (to_hash_array (cb_hash b)) (to_hash_array (cb_prev_hash b)) (fw_tracker st) = (Reorg rollback_to, tr')"
    and ns: "\<forall>n \<in> set (fst (extract_nullifiers_with_meta b (fw_prev_tree_size st))). nm_nullifier n \<noteq> ZERO_NF"
    and fits: "ht_num_entries db + length (fst (extract_nullifiers_with_meta b (fw_prev_tree_size st))) \<le> TARGET_SIZE"
    and ev: "fst (nf_follow_block b st) = [ev]" and handled: "nf_handle ev db = (Inr (), db')"
    and held: "nf \<in> ne_nullifier ` set (blocks_entries s)"
  shows "ht_contains nf db'"
proof -
  obtain nullifiers ts where x: "extract_nullifiers_with_meta b (fw_prev_tree_size st) = (nullifiers, ts)" by fastforce
  let ?hash = "to_hash_array (cb_hash b)"
  have e: "ev = N_Reorg (orphaned_blocks rollback_to (fw_current_height st)) [(cb_height b, ?hash, to_hash_array (cb_prev_hash b), nullifiers)]"
    using ev by (simp add: nf_follow_block_def Let_def x push)
  obtain db1 where ins: "insert_block (cb_height b) ?hash nullifiers db = (Inr (), db1)" and tgt: "evict_to_target db1 = (Inr (), db')"
    using handled unfolding e nf_handle_def
    by (auto simp: rollback_zero_hashes [OF rep zero] Let_def split: prod.splits sum.splits)
  obtain slots db2 where run: "insert_nullifiers (ucast (cb_height b)) nullifiers [] db = (Inr slots, db2)"
    and db1: "ht_buckets db1 = ht_buckets db2" "ht_num_entries db1 = ht_num_entries db2"
    using ins by (auto simp: insert_block_def split: prod.splits sum.splits)
  obtain l where l: "ht_ok db l" "s = map (\<lambda>(h, hash, own). (h, hash, map snd own)) l" using rep by (auto simp: ht_rep_def)
  have cells: "cells_ok (ht_buckets db) (owned_of l)" using l(1) by (simp add: ht_ok_def)
  obtain own where own: "cells_ok (ht_buckets db2) (owned_of l @ own)" "ht_num_entries db2 = ht_num_entries db + length own"
    "map snd own = map (entry_of (ucast (cb_height b))) nullifiers"
    using insert_nullifiers_cells [OF cells _ run] ns x by (auto simp: fst_def)
  have "length own = length nullifiers" using own(3) by (metis length_map)
  then have "ht_num_entries db1 \<le> TARGET_SIZE" using fits own(2) x db1(2) by simp
  then have "db' = db1" using tgt by (subst (asm) evict_to_target.simps) simp
  moreover have "blocks_entries s = map snd (owned_of l)"
    by (simp add: blocks_entries_def owned_of_def l(2) map_concat comp_def case_prod_unfold)
  moreover have "cells_ok (ht_buckets db1) (owned_of l @ own)" using own(1) db1(1) by simp
  ultimately show ?thesis using held cells_ok_contains [of db1 "owned_of l @ own"] by force
qed

theorem reorg_keeps_orphans_witness:
  "\<exists>db db' ev. insert_block 2 (replicate 32 2) [sample_nf 5] ht_new = (Inr (), db)
     \<and> fst (nf_follow_block fork_block (follow_start 2 (replicate 32 2) None)) = [ev]
     \<and> nf_handle ev db = (Inr (), db') \<and> ht_contains (nm_nullifier (sample_nf 5)) db'"
proof -
  let ?st = "follow_start 2 (replicate 32 2) None"
  obtain db where ins: "insert_block 2 (replicate 32 2) [sample_nf 5] ht_new = (Inr (), db)" using put_empty_table by blast
  have rep: "ht_rep db (spec_insert 2 (replicate 32 2) [sample_nf 5] [])"
    by (rule insert_block_rep [OF ht_new_rep _ _ _ ins]) (simp_all add: sample_nf_nonzero)
  have zero: "replicate 32 0 \<notin> (fst \<circ> snd) ` set (spec_insert 2 (replicate 32 2) [sample_nf 5] [])"
    by (auto simp: spec_insert_def dest!: arg_cong [of _ _ "\<lambda>xs. xs ! 0"])
  have chain: "ck_chain (fw_tracker ?st) = (2, replicate 32 2) # []" by (simp add: follow_start_def tracker_with_tip_def)
  have unknown: "to_hash_array (cb_prev_hash fork_block) \<notin> snd ` set (ck_chain (fw_tracker ?st))"
    unfolding chain by (auto simp: fork_block_def to_hash_array_def set_len_def dest!: arg_cong [of _ _ "\<lambda>xs. xs ! 0"])
  obtain tr' where push: "push_block (cb_height fork_block) (to_hash_array (cb_hash fork_block)) (to_hash_array (cb_prev_hash fork_block)) (fw_tracker ?st)
      = (Reorg (saturating_sub 2 1), tr')" using push_block_unknown [OF unknown chain] by blast
  have ns: "fst (extract_nullifiers_with_meta fork_block n) = []" for n
    by (simp add: extract_nullifiers_with_meta_def Let_def fork_block_def)
  have n: "ht_num_entries db = 1" using ht_rep_entries [OF rep] by (simp add: spec_insert_def blocks_entries_def)
  obtain ev where ev: "fst (nf_follow_block fork_block ?st) = [ev]"
    "ev = N_Reorg (orphaned_blocks (saturating_sub 2 1) (fw_current_height ?st)) [(cb_height fork_block, to_hash_array (cb_hash fork_block), to_hash_array (cb_prev_hash fork_block), [])]"
    using push by (auto simp: nf_follow_block_def Let_def extract_nullifiers_with_meta_def fork_block_def)
  let ?db' = "snd (insert_block (cb_height fork_block) (to_hash_array (cb_hash fork_block)) [] db)"
  have h: "nf_handle ev db = (Inr (), ?db')"
    using n unfolding ev(2) nf_handle_def
    by (simp add: rollback_zero_hashes [OF rep zero] Let_def insert_block_def) (subst evict_to_target.simps, simp add: TARGET_SIZE_def)
  have "ht_contains (nm_nullifier (sample_nf 5)) ?db'"
    by (rule reorg_keeps_orphans [OF rep zero push _ _ ev(1) h]) (use n in \<open>simp_all add: ns TARGET_SIZE_def spec_insert_def blocks_entries_def entry_of_def\<close>)
  then show ?thesis using ins ev(1) h by blast
qed

end
