(* ===== verification/Legacy_Sync.thy ===== *)
theory Legacy_Sync
  imports Legacy_Chain
begin

text \<open>
  The bulk \<open>sync\<close> of \<open>witness/commitment-ingest/src/ingest.rs\<close> and of \<open>nullifier/nf-ingest/src/ingest.rs\<close>. The two differ in the events they send for a block
  only, so the loop is one function of the events, and that it reaches the end of its range is proved once, for every source of events
  that goes through its blocks in order.
\<close>

section \<open>The loop\<close>

datatype server_phase = Syncing u64 u64 | Serving

definition SYNC_BATCH_SIZE :: u64 where "SYNC_BATCH_SIZE = 10000"

text \<open>
  The batches. Heights wrap as in a release build, so the loop need not end near the largest height. The result is the
  events sent and whether the client failed.
\<close>

partial_function (option) sync_loop ::
  "(compact_block list \<Rightarrow> u32 option \<Rightarrow> 'e list \<times> u32 option) \<Rightarrow> (u64 \<Rightarrow> u64 \<Rightarrow> string + compact_block list) \<Rightarrow> u64 \<Rightarrow> u64 \<Rightarrow> u32 option
     \<Rightarrow> ('e list \<times> (string + unit)) option" where
  "sync_loop events block_range to current prev_tree_size =
     (if current \<le> to then
        let batch_end = min (current + SYNC_BATCH_SIZE - 1) to in
        case block_range current batch_end of
          Inl e \<Rightarrow> Some ([], Inl e)
        | Inr blocks \<Rightarrow>
            (case events blocks prev_tree_size of (evs, prev_tree_size) \<Rightarrow>
               Option.bind (sync_loop events block_range to (batch_end + 1) prev_tree_size) (\<lambda>(evs', res). Some (evs @ evs', res)))
      else Some ([], Inr ()))"

text \<open>What a block makes of the tree size before it, and the event sent for it.\<close>

fun sync_events :: "compact_block list \<Rightarrow> u32 option \<Rightarrow> witness_event list \<times> u32 option" where
  "sync_events [] prev_tree_size = ([], prev_tree_size)"
| "sync_events (block # blocks) prev_tree_size =
     (case sync_events blocks (ironwood_tree_size block) of (evs, last_size) \<Rightarrow>
        (W_NewBlock (cb_height block) (to_hash_array (cb_hash block)) (to_hash_array (cb_prev_hash block)) (extract_commitments block) prev_tree_size # evs,
         last_size))"

fun nf_sync_events :: "compact_block list \<Rightarrow> u32 option \<Rightarrow> nf_event list \<times> u32 option" where
  "nf_sync_events [] prev_tree_size = ([], prev_tree_size)"
| "nf_sync_events (block # blocks) prev_tree_size =
     (case extract_nullifiers_with_meta block prev_tree_size of (nullifiers, this_tree_size) \<Rightarrow>
      case nf_sync_events blocks this_tree_size of (evs, last_size) \<Rightarrow>
        (N_NewBlock (cb_height block) (to_hash_array (cb_hash block)) (to_hash_array (cb_prev_hash block)) nullifiers # evs, last_size))"

definition witness_sync ::
  "(u64 \<Rightarrow> u64 \<Rightarrow> string + compact_block list) \<Rightarrow> u64 \<Rightarrow> u64 \<Rightarrow> u32 option \<Rightarrow> (witness_event list \<times> (string + unit)) option" where
  "witness_sync block_range from to initial_tree_size = sync_loop sync_events block_range to from initial_tree_size"

definition nf_sync ::
  "(u64 \<Rightarrow> u64 \<Rightarrow> string + compact_block list) \<Rightarrow> u64 \<Rightarrow> u64 \<Rightarrow> u32 option \<Rightarrow> (nf_event list \<times> (string + unit)) option" where
  "nf_sync block_range from to initial_tree_size = sync_loop nf_sync_events block_range to from initial_tree_size"

section \<open>The range is covered\<close>

text \<open>A chain is its list of compact blocks, lowest first; lightwalletd answers a range with its blocks.\<close>

definition blocks_between :: "compact_block list \<Rightarrow> u64 \<Rightarrow> u64 \<Rightarrow> compact_block list" where
  "blocks_between chain a b = filter (\<lambda>x. a \<le> cb_height x \<and> cb_height x \<le> b) chain"

lemma blocks_between_split:
  assumes "sorted_wrt (<) (map cb_height chain)" and "a \<le> m + 1" and "m \<le> b" and "unat m + 1 < 2 ^ 64"
  shows "blocks_between chain a m @ blocks_between chain (m + 1) b = blocks_between chain a b"
proof -
  have step: "m + 1 \<le> h \<longleftrightarrow> m < h" for h 
    using assms(4) by (simp add: word_le_nat_alt word_less_nat_alt unat_add_nowrap Suc_le_eq)
  show ?thesis using assms(1)
  proof (induction chain)
    case (Cons x chain)
    show ?case
    proof (cases "cb_height x \<le> m")
      case True
      then show ?thesis using Cons assms by (auto simp: blocks_between_def step)
    next
      case False
      then have "blocks_between chain a m = []" using Cons.prems by (force simp: blocks_between_def filter_empty_conv)
      moreover have "a \<le> cb_height x" using False assms(2) step [of "cb_height x"] by auto
      ultimately show ?thesis using Cons False assms by (auto simp: blocks_between_def step)
    qed
  qed (simp add: blocks_between_def)
qed

text \<open>The contract of the events: they are sent block by block, and each block leaves a tree size for the next.\<close>

locale event_source =
  fixes events :: "compact_block list \<Rightarrow> u32 option \<Rightarrow> 'e list \<times> u32 option"
  assumes events_Nil: "events [] prev = ([], prev)"
    and events_append: "events (xs @ ys) prev
      = (fst (events xs prev) @ fst (events ys (snd (events xs prev))), snd (events ys (snd (events xs prev))))"
begin

lemma sync_loop_events:
  assumes lwd: "\<forall>a b. block_range a b = Inr (blocks_between chain a b)" and sorted: "sorted_wrt (<) (map cb_height chain)"
    and to: "unat to + 10000 < 2 ^ 64" and "unat current \<le> unat to + 1"
  shows "sync_loop events block_range to current prev = Some (fst (events (blocks_between chain current to) prev), Inr ())"
  using assms(4)
proof (induction "unat to + 1 - unat current" arbitrary: current prev rule: less_induct)
  case less
  show ?case
  proof (cases "current \<le> to")
    case True
    let ?stop = "min (current + SYNC_BATCH_SIZE - 1) to"
    have cur: "unat current \<le> unat to" using True by (simp add: word_le_nat_alt)
    have "unat (current + 10000) = unat current + 10000" using cur to by (subst unat_add_nowrap) auto
    then have "unat (current + SYNC_BATCH_SIZE - 1) = unat current + 9999"
      unfolding SYNC_BATCH_SIZE_def by (subst unat_minus_nowrap) (simp_all add: word_le_nat_alt)
    then have e: "current \<le> ?stop" "?stop \<le> to" using True by (auto simp: min_def word_le_nat_alt)
    have e1: "unat ?stop + 1 < 2 ^ 64" using e(2) to by (simp add: word_le_nat_alt)
    have next1: "unat (?stop + 1) = unat ?stop + 1" using e1 by (subst unat_add_nowrap) auto
    have le: "unat current \<le> unat ?stop" "unat ?stop \<le> unat to" using e by (simp_all add: word_le_nat_alt)
    have IH: "sync_loop events block_range to (?stop + 1) p = Some (fst (events (blocks_between chain (?stop + 1) to) p), Inr ())" for p
      by (rule less.hyps) (use next1 le in auto)
    have "current \<le> ?stop + 1" using le next1 by (simp add: word_le_nat_alt)
    note split = blocks_between_split [OF sorted this e(2) e1]
    show ?thesis
      by (subst sync_loop.simps, subst split [symmetric])
        (simp add: True lwd IH events_append case_prod_unfold Let_def del: min_less_iff_conj)
  next
    case False
    then have "blocks_between chain current to = []" by (auto simp: blocks_between_def filter_empty_conv)
    then show ?thesis using False by (subst sync_loop.simps) (simp add: events_Nil)
  qed
qed

end

interpretation cs: event_source sync_events
proof
  show "sync_events (xs @ ys) prev
      = (fst (sync_events xs prev) @ fst (sync_events ys (snd (sync_events xs prev))), snd (sync_events ys (snd (sync_events xs prev))))" for xs ys prev
    by (induction xs prev rule: sync_events.induct) (simp_all add: case_prod_unfold)
qed simp

interpretation ns: event_source nf_sync_events
proof
  show "nf_sync_events (xs @ ys) prev
      = (fst (nf_sync_events xs prev) @ fst (nf_sync_events ys (snd (nf_sync_events xs prev))), snd (nf_sync_events ys (snd (nf_sync_events xs prev))))" for xs ys prev
    by (induction xs arbitrary: prev) (simp_all add: case_prod_unfold)
qed simp

end
