(* ===== verification/Witness_Snapshot.thy ===== *)
theory Witness_Snapshot
  imports Witness_Tree
begin

text \<open>
  The snapshot of the commitment tree, \<open>witness/commitment-tree-db/src/snapshot.rs\<close>: the bytes \<open>to_snapshot\<close> writes and the parser
  \<open>from_snapshot\<close>, every error included. The checksum xxHash64 is a parameter. The byte lengths the parser computes from its counts
  are unbounded here; a count whose length overflows the machine word makes the source panic where the model reports a truncated file.
\<close>

datatype tree_error = SnapshotCorrupted string | Tree_Panic

definition SNAPSHOT_MAGIC_V1 :: u64 where "SNAPSHOT_MAGIC_V1 = 0x434D545245450001"
definition SNAPSHOT_MAGIC_V2 :: u64 where "SNAPSHOT_MAGIC_V2 = 0x434D545245450002"
definition SNAPSHOT_MAGIC_V3 :: u64 where "SNAPSHOT_MAGIC_V3 = 0x434D545245450003"
definition SNAPSHOT_MAGIC_V4 :: u64 where "SNAPSHOT_MAGIC_V4 = 0x434D545245450004"
definition BLOCK_RECORD_SIZE :: nat where "BLOCK_RECORD_SIZE = 8 + 32 + 4"

section \<open>Writing\<close>

definition encode_tree_block :: "tree_block \<Rightarrow> bytes" where
  "encode_tree_block b = u64_le (tb_height b) @ tb_hash b @ u32_le (tb_num_commitments b)"

definition cached_entries :: "node_hash option list \<Rightarrow> (u32 \<times> node_hash) list" where
  "cached_entries cache = List.map_filter (\<lambda>(i, c). map_option (\<lambda>root. (of_nat i, root)) c) (List.enumerate 0 cache)"

definition encode_cache_entry :: "u32 \<times> node_hash \<Rightarrow> bytes" where
  "encode_cache_entry = (\<lambda>(slot, root). u32_le slot @ root)"

definition snapshot_payload :: "tree_db \<Rightarrow> bytes" where
  "snapshot_payload t =
     u64_le SNAPSHOT_MAGIC_V4 @ u64_le (of_nat (tree_size t)) @ u64_le (of_nat (length (tr_blocks t)))
     @ u64_le (case tree_latest_height t of Some h \<Rightarrow> h | None \<Rightarrow> 0)
     @ (case tree_latest_block_hash t of Some h \<Rightarrow> h | None \<Rightarrow> replicate 32 0)
     @ u64_le (of_nat (tr_leaf_offset t)) @ u64_le (of_nat (length (tr_prefetched t))) @ concat (tr_prefetched t)
     @ concat (map encode_tree_block (tr_blocks t)) @ concat (tr_leaves t)
     @ u64_le (of_nat (length (cached_entries (tr_ss_root_cache t)))) @ concat (map encode_cache_entry (cached_entries (tr_ss_root_cache t)))"

definition to_snapshot :: "(bytes \<Rightarrow> u64) \<Rightarrow> tree_db \<Rightarrow> bytes" where
  "to_snapshot xxh64 t = snapshot_payload t @ u64_le (xxh64 (snapshot_payload t))"

section \<open>Reading\<close>

text \<open>The state of the parser is what remains of the payload.\<close>

definition snap_take :: "string \<Rightarrow> nat \<Rightarrow> (bytes, tree_error, bytes) step" where
  "snap_take reason n s = (if n \<le> length s then Inr (take n s, drop n s) else Inl (SnapshotCorrupted reason))"

definition snap_u64 :: "(bytes, tree_error, u64) step" where
  "snap_u64 = sbind (snap_take ''unexpected EOF reading u64'' 8) (\<lambda>b. sreturn (of_nat (le_val b)))"

definition decode_tree_block :: "bytes \<Rightarrow> tree_block" where
  "decode_tree_block bs = \<lparr> tb_height = of_nat (le_val (take 8 bs)), tb_hash = take 32 (drop 8 bs), tb_num_commitments = of_nat (le_val (take 4 (drop 40 bs))) \<rparr>"

definition read_block_records :: "nat \<Rightarrow> (bytes, tree_error, tree_block list \<times> nat) step" where
  "read_block_records count =
     sbind (snap_take ''block records truncated'' (count * BLOCK_RECORD_SIZE)) (\<lambda>bs.
       let blocks = map decode_tree_block (chunks_exact count BLOCK_RECORD_SIZE bs)
       in sreturn (blocks, sum_list (map (\<lambda>b. unat (tb_num_commitments b)) blocks)))"

definition read_leaves :: "nat \<Rightarrow> (bytes, tree_error, node_hash list) step" where
  "read_leaves count = sbind (snap_take ''leaf data truncated'' (count * 32)) (\<lambda>bs. sreturn (chunks_exact count 32 bs))"

definition read_cache_entry :: "(bytes, tree_error, u32 \<times> node_hash) step" where
  "read_cache_entry = sbind (snap_take ''cache entry truncated'' (4 + 32)) (\<lambda>bs. sreturn (of_nat (le_val (take 4 bs)), drop 4 bs))"

definition put_cache_entry :: "u32 \<times> node_hash \<Rightarrow> node_hash option list \<Rightarrow> node_hash option list" where
  "put_cache_entry = (\<lambda>(slot, root) cache. if unat slot < L0_DB_ROWS then cache[unat slot := Some root] else cache)"

definition from_snapshot_v3 :: "'m merkle_hash \<Rightarrow> (bytes, tree_error, tree_db) step" where
  "from_snapshot_v3 mh =
     sbind snap_u64 (\<lambda>tree_size.
     sbind snap_u64 (\<lambda>block_count.
     sbind snap_u64 (\<lambda>_.
     sbind (snap_take ''unexpected EOF reading latest_hash'' 32) (\<lambda>_.
     sbind snap_u64 (\<lambda>leaf_offset.
     sbind snap_u64 (\<lambda>prefetched_count.
     sbind (srepeat (unat prefetched_count) (snap_take ''prefetched roots truncated'' 32)) (\<lambda>prefetched.
     sbind (read_block_records (unat block_count)) (\<lambda>(blocks, total_commitments).
     sbind (sguard (leaf_offset \<le> tree_size) Tree_Panic) (\<lambda>_.
     sbind (sguard (total_commitments = unat tree_size - unat leaf_offset)
              (SnapshotCorrupted ''block records do not sum to the local leaves'')) (\<lambda>_.
     sbind (read_leaves (unat tree_size - unat leaf_offset)) (\<lambda>leaves.
     sbind snap_u64 (\<lambda>cached_count.
     sbind (srepeat (unat cached_count) read_cache_entry) (\<lambda>entries.
     sreturn ((with_offset mh (unat leaf_offset) prefetched) \<lparr> tr_leaves := leaves, tr_blocks := blocks,
                tr_ss_root_cache := fold put_cache_entry entries (replicate L0_DB_ROWS None) \<rparr>))))))))))))))"

definition from_snapshot :: "'m merkle_hash \<Rightarrow> (bytes \<Rightarrow> u64) \<Rightarrow> bytes \<Rightarrow> tree_error + tree_db" where
  "from_snapshot mh xxh64 bs =
     (if length bs < 8 + 8 then Inl (SnapshotCorrupted ''data too short'')
      else let payload = take (length bs - 8) bs in
        if of_nat (le_val (drop (length bs - 8) bs)) \<noteq> xxh64 payload then Inl (SnapshotCorrupted ''checksum mismatch'')
        else map_sum id fst
          (sbind snap_u64 (\<lambda>magic.
             if magic = SNAPSHOT_MAGIC_V4 then from_snapshot_v3 mh
             else if magic = SNAPSHOT_MAGIC_V1 \<or> magic = SNAPSHOT_MAGIC_V2 \<or> magic = SNAPSHOT_MAGIC_V3
             then sfail (SnapshotCorrupted ''an Orchard-era commitment tree'')
             else sfail (SnapshotCorrupted ''bad magic'')) payload))"

section \<open>Reading back\<close>

interpretation sn: byte_cursor "\<lambda>_. True" "\<lambda>s. s" "snap_take reason"
  by unfold_locales (auto simp: snap_take_def split: if_splits)

lemma snap_take_append [simp]: "length bs = n \<Longrightarrow> snap_take reason n (bs @ r) = Inr (bs, r)"
  by (auto simp: snap_take_def)

lemma snap_u64_append [simp]: "snap_u64 (le_bytes 8 v @ r) = Inr (of_nat v, r)"
  by (simp add: snap_u64_def sbind_def le_val_le_bytes)

lemma decode_encode_block: "length (tb_hash b) = 32 \<Longrightarrow> decode_tree_block (encode_tree_block b) = b"
  by (simp add: decode_tree_block_def encode_tree_block_def)

lemma read_block_records_append:
  assumes "\<forall>b \<in> set blocks. length (tb_hash b) = 32"
  shows "read_block_records (length blocks) (concat (map encode_tree_block blocks) @ r)
    = Inr ((blocks, sum_list (map (\<lambda>b. unat (tb_num_commitments b)) blocks)), r)"
proof -
  have const: "\<forall>x \<in> set (map encode_tree_block blocks). length x = BLOCK_RECORD_SIZE"
    using assms by (auto simp: encode_tree_block_def BLOCK_RECORD_SIZE_def)
  have "map decode_tree_block (map encode_tree_block blocks) = blocks"
    using assms by (simp add: decode_encode_block map_idI)
  then show ?thesis
    using chunks_exact_concat [OF const] length_concat_const [OF const]
    by (simp add: read_block_records_def sbind_def Let_def del: map_map)
qed

lemma read_leaves_append:
  assumes "\<forall>x \<in> set leaves. length x = 32"
  shows "read_leaves (length leaves) (concat leaves @ r) = Inr (leaves, r)"
  using chunks_exact_concat [OF assms] length_concat_const [OF assms] by (simp add: read_leaves_def sbind_def)

lemma read_cache_entry_append: "length (snd e) = 32 \<Longrightarrow> read_cache_entry (encode_cache_entry e @ r) = Inr (e, r)"
  by (cases e) (simp add: read_cache_entry_def encode_cache_entry_def sbind_def flip: append_assoc)

lemma cached_entries_snoc:
  "cached_entries (cache @ [c]) = cached_entries cache @ (case c of None \<Rightarrow> [] | Some root \<Rightarrow> [(of_nat (length cache), root)])"
  by (auto simp: cached_entries_def List.map_filter_def enumerate_append_eq split: option.splits)

lemma restore_cache:
  "length cache + length rest = L0_DB_ROWS \<Longrightarrow> fold put_cache_entry (cached_entries cache) (replicate (length cache) None @ rest) = cache @ rest"
proof (induction cache arbitrary: rest rule: rev_induct)
  case Nil
  then show ?case by (simp add: cached_entries_def List.map_filter_def)
next
  case (snoc c cache)
  have "unat (of_nat (length cache) :: u32) = length cache"
    using snoc.prems by (intro unat_of_nat_small) (simp add: L0_DB_ROWS_def)
  moreover have "fold put_cache_entry (cached_entries cache) (replicate (length cache) None @ None # rest) = cache @ None # rest"
    using snoc by simp
  ultimately show ?case
    using snoc.prems by (auto simp: cached_entries_snoc put_cache_entry_def replicate_append_same split: option.splits
        simp flip: replicate_append_same)
qed

lemma cached_entries_roots: "e \<in> set (cached_entries cache) \<Longrightarrow> Some (snd e) \<in> set cache"
  by (auto simp: cached_entries_def List.map_filter_def in_set_enumerate_eq) (metis nth_mem)

text \<open>What a snapshot needs of a tree: 32-byte hashes, counts that fit their fields and block records that sum to the leaves.\<close>

definition snapshot_ok :: "'m merkle_hash \<Rightarrow> tree_db \<Rightarrow> bool" where
  "snapshot_ok mh t \<longleftrightarrow>
     tr_empty_roots t = precompute_empty_roots mh \<and> length (tr_ss_root_cache t) = L0_DB_ROWS \<and>
     tree_size t < 2 ^ 64 \<and> length (tr_blocks t) < 2 ^ 64 \<and> length (tr_prefetched t) < 2 ^ 64 \<and>
     sum_list (map (\<lambda>b. unat (tb_num_commitments b)) (tr_blocks t)) = length (tr_leaves t) \<and>
     (\<forall>x \<in> set (tr_leaves t). length x = 32) \<and> (\<forall>x \<in> set (tr_prefetched t). length x = 32) \<and>
     (\<forall>b \<in> set (tr_blocks t). length (tb_hash b) = 32) \<and> (\<forall>x. Some x \<in> set (tr_ss_root_cache t) \<longrightarrow> length x = 32)"

lemma length_cached_entries: "length (cached_entries cache) \<le> length cache"
proof (induction cache rule: rev_induct)
  case Nil
  then show ?case by (simp add: cached_entries_def List.map_filter_def)
next
  case (snoc c cache)
  then show ?case by (auto simp: cached_entries_snoc split: option.splits)
qed

lemma parse_payload:
  assumes ok: "snapshot_ok mh t"
  shows "from_snapshot_v3 mh (drop 8 (snapshot_payload t)) = Inr (t, [])"
proof -
  have bounds: "tree_size t < 2 ^ 64" "length (tr_blocks t) < 2 ^ 64" "length (tr_prefetched t) < 2 ^ 64" "tr_leaf_offset t < 2 ^ 64"
    "length (cached_entries (tr_ss_root_cache t)) < 2 ^ 64"
    using ok length_cached_entries [of "tr_ss_root_cache t"] by (auto simp: snapshot_ok_def tree_size_def L0_DB_ROWS_def)
  have small: "unat (of_nat (tree_size t) :: u64) = tree_size t" "unat (of_nat (length (tr_blocks t)) :: u64) = length (tr_blocks t)"
    "unat (of_nat (length (tr_prefetched t)) :: u64) = length (tr_prefetched t)"
    "unat (of_nat (tr_leaf_offset t) :: u64) = tr_leaf_offset t"
    "unat (of_nat (length (cached_entries (tr_ss_root_cache t))) :: u64) = length (cached_entries (tr_ss_root_cache t))"
    using bounds by (simp_all add: unat_of_nat_small)
  have hash: "length (case tree_latest_block_hash t of Some h \<Rightarrow> h | None \<Rightarrow> replicate 32 (0 :: u8)) = 32"
    using ok by (auto simp: tree_latest_block_hash_def snapshot_ok_def)
  have le: "(of_nat (tr_leaf_offset t) :: u64) \<le> of_nat (tree_size t)"
    unfolding word_le_nat_alt small by (simp add: tree_size_def)
  have pre: "srepeat (length (tr_prefetched t)) (snap_take ''prefetched roots truncated'' 32) (concat (tr_prefetched t) @ r) = Inr (tr_prefetched t, r)" for r
    using srepeat_concat [of "tr_prefetched t" "snap_take ''prefetched roots truncated'' 32" "\<lambda>x. x" r] ok by (simp add: snapshot_ok_def)
  have blocks: "read_block_records (length (tr_blocks t)) (concat (map encode_tree_block (tr_blocks t)) @ r)
      = Inr ((tr_blocks t, length (tr_leaves t)), r)" for r
    using read_block_records_append [of "tr_blocks t" r] ok by (simp add: snapshot_ok_def)
  have leaves: "read_leaves (length (tr_leaves t)) (concat (tr_leaves t) @ r) = Inr (tr_leaves t, r)" for r
    using read_leaves_append [of "tr_leaves t" r] ok by (simp add: snapshot_ok_def)
  have entries: "srepeat (length (cached_entries (tr_ss_root_cache t))) read_cache_entry (concat (map encode_cache_entry (cached_entries (tr_ss_root_cache t))))
      = Inr (cached_entries (tr_ss_root_cache t), [])"
    using srepeat_concat [of "cached_entries (tr_ss_root_cache t)" read_cache_entry encode_cache_entry "[]"] ok cached_entries_roots
    by (simp add: read_cache_entry_append snapshot_ok_def)
  have cache: "fold put_cache_entry (cached_entries (tr_ss_root_cache t)) (replicate L0_DB_ROWS None) = tr_ss_root_cache t"
    using restore_cache [of "tr_ss_root_cache t" "[]"] ok by (simp add: snapshot_ok_def)
  have local: "tree_size t - tr_leaf_offset t = length (tr_leaves t)" by (simp add: tree_size_def)
  have offs: "with_offset mh (tr_leaf_offset t) (tr_prefetched t) \<lparr> tr_leaves := tr_leaves t, tr_blocks := tr_blocks t, tr_ss_root_cache := tr_ss_root_cache t \<rparr> = t"
    using ok by (cases t) (simp add: with_offset_def snapshot_ok_def)
  show ?thesis
    unfolding from_snapshot_v3_def snapshot_payload_def
    by (simp add: sbind_def hash le small pre blocks leaves entries cache local offs)
qed

lemma payload_magic: "snap_u64 (snapshot_payload t) = Inr (SNAPSHOT_MAGIC_V4, drop 8 (snapshot_payload t))" "8 \<le> length (snapshot_payload t)"
  by (simp_all add: snapshot_payload_def)

lemma restore_snapshot: "snapshot_ok mh t \<Longrightarrow> from_snapshot mh xxh64 (to_snapshot xxh64 t) = Inr t"
  using parse_payload [of mh t] payload_magic [of t]
  by (simp add: from_snapshot_def to_snapshot_def Let_def sbind_def)

definition sized_ops :: "tree_op list \<Rightarrow> bool" where
  "sized_ops ops \<longleftrightarrow> (\<forall>height hash cs. Append_op height hash cs \<in> set ops \<longrightarrow> length hash = 32 \<and> (\<forall>c \<in> set cs. length c = 32))"

lemma set_history_rollback: "set (history_rollback h hist) \<subseteq> set hist"
  by (auto simp: history_rollback_def dest: set_dropWhileD)

lemma length_history_rollback: "length (history_rollback h hist) \<le> length hist"
  by (simp add: history_rollback_def) (metis length_dropWhile_le length_rev)

lemma history_run_sized:
  assumes "sized_ops ops" and "\<forall>(height, hash, cs) \<in> set hist. length hash = 32 \<and> (\<forall>c \<in> set cs. length c = 32)"
  shows "\<forall>(height, hash, cs) \<in> set (history_run ops hist). length hash = 32 \<and> (\<forall>c \<in> set cs. length c = 32)"
  using assms
proof (induction ops hist rule: history_run.induct)
  case (2 height hash cs ops hist)
  then show ?case by (auto simp: sized_ops_def)
next
  case (3 height ops hist)
  then have "\<forall>(height, hash, cs) \<in> set (history_rollback height hist). length hash = 32 \<and> (\<forall>c \<in> set cs. length c = 32)"
    using set_history_rollback [of height hist] by blast
  then show ?case using 3 by (auto simp: sized_ops_def)
qed (auto simp: sized_ops_def)

lemma history_run_length: "length (history_run ops hist) \<le> length hist + length ops"
proof (induction ops hist rule: history_run.induct)
  case (3 height ops hist)
  then show ?case using length_history_rollback [of height hist] by simp
qed auto

lemma history_sum:
  "\<forall>(height, hash, cs) \<in> set hist. length cs < 2 ^ 32 \<Longrightarrow>
     sum_list (map (\<lambda>b. unat (tb_num_commitments b)) (map history_block hist)) = length (history_leaves hist)"
  by (induction hist) (auto simp: history_block_def history_leaves_def unat_of_nat_small)

lemma length_node: "mh_ok mh \<Longrightarrow> 0 < h \<Longrightarrow> length (node mh leaf h i) = 32"
  by (cases h) (auto simp: hash_combine_def mh_ok_def)

lemma run_snapshot_ok:
  assumes ok: "mh_ok mh" and "prefetch_ok mh base prefetched" and "appends_fit ops" and "sized_ops ops"
    and "\<forall>x \<in> set prefetched. length x = 32" and "length prefetched < 2 ^ 64" and "length ops < 2 ^ 64"
    and t: "t = tree_run mh ops (with_offset mh (length base) prefetched)" and "tree_size t < 2 ^ 64"
  shows "snapshot_ok mh t"
proof -
  let ?hist = "history_run ops []"
  have pre: "tr_prefetched (tree_run mh ops t) = tr_prefetched t" for t
  proof (induction mh ops t rule: tree_run.induct)
    case (3 mh height ops t)
    then show ?case by (simp add: tree_rollback_to_def Let_def split: prod.splits)
  next
    case (4 mh height ops t)
    then show ?case by (simp add: build_pir_db_and_broadcast_def Let_def split: prod.splits)
  qed (simp_all add: append_commitments_def Let_def)
  have "tree_at mh base ?hist t" using run_from_offset [OF assms(1, 3, 2)] by (simp add: t)
  then have h: "tree_holds mh (base @ history_leaves ?hist) t" and b: "tr_blocks t = map history_block ?hist"
    and l: "tr_leaves t = history_leaves ?hist" and fit: "\<forall>(height, hash, cs) \<in> set ?hist. length cs < 2 ^ 32"
    by (auto simp: tree_at_def tree_holds_def)
  have sized: "\<forall>(height, hash, cs) \<in> set ?hist. length hash = 32 \<and> (\<forall>c \<in> set cs. length c = 32)"
    using history_run_sized [OF assms(4), of "[]"] by simp
  have cache: "length x = 32" if x: "Some x \<in> set (tr_ss_root_cache t)" for x
  proof -
    have "length (tr_ss_root_cache t) = L0_DB_ROWS" using h by (simp add: tree_holds_def)
    then obtain slot where "slot < L0_DB_ROWS" "tr_ss_root_cache t ! slot = Some x"
      using x by (metis in_set_conv_nth)
    then have "x = node mh (leaf_at mh (base @ history_leaves ?hist)) SUBSHARD_HEIGHT (window_start_shard t * SUBSHARDS_PER_SHARD + slot)"
      using h by (simp add: tree_holds_def)
    then show ?thesis using length_node [OF ok, of SUBSHARD_HEIGHT] by (simp add: SUBSHARD_HEIGHT_def)
  qed
  have "length (tr_blocks t) < 2 ^ 64" using history_run_length [of ops "[]"] assms(7) b by simp
  moreover have "tr_prefetched t = prefetched" using pre by (simp add: t with_offset_def)
  ultimately show ?thesis
    using h sized assms history_sum [OF fit] cache l b
    by (auto simp: snapshot_ok_def tree_holds_def history_leaves_def history_block_def)
qed

text \<open>
  C21. A restart is invisible: the snapshot of a tree that went through any sequence of appends, rollbacks and builds restores that very
  tree, its blocks, its window and its cache included, whatever the checksum function; any bytes whose last eight are not the checksum of the
  others are refused as such; and a snapshot of an earlier format (version 1, 2 or 3), whose leaves belong to another pool, is refused even
  when its checksum is right.
\<close>

theorem snapshot_restart:
  assumes "mh_ok mh" and "prefetch_ok mh base prefetched" and "appends_fit ops" and "sized_ops ops"
    and "\<forall>x \<in> set prefetched. length x = 32" and "length prefetched < 2 ^ 64" and "length ops < 2 ^ 64"
    and "t = tree_run mh ops (with_offset mh (length base) prefetched)" and "tree_size t < 2 ^ 64"
  shows "from_snapshot mh xxh64 (to_snapshot xxh64 t) = Inr t
    \<and> (\<forall>data stored. length stored = 8 \<longrightarrow> 8 \<le> length data \<longrightarrow> stored \<noteq> u64_le (xxh64 data)
         \<longrightarrow> from_snapshot mh xxh64 (data @ stored) = Inl (SnapshotCorrupted ''checksum mismatch''))
    \<and> (magic \<in> {SNAPSHOT_MAGIC_V1, SNAPSHOT_MAGIC_V2, SNAPSHOT_MAGIC_V3} \<longrightarrow>
         from_snapshot mh xxh64 ((u64_le magic @ rest) @ u64_le (xxh64 (u64_le magic @ rest)))
           = Inl (SnapshotCorrupted ''an Orchard-era commitment tree''))"
proof -
  have old: "from_snapshot mh xxh64 (p @ u64_le (xxh64 p)) = Inl (SnapshotCorrupted ''an Orchard-era commitment tree'')"
    if "magic \<in> {SNAPSHOT_MAGIC_V1, SNAPSHOT_MAGIC_V2, SNAPSHOT_MAGIC_V3}" "p = u64_le magic @ rest" for p
  proof -
    have "magic \<noteq> SNAPSHOT_MAGIC_V4"
      using that(1) by (auto simp: SNAPSHOT_MAGIC_V1_def SNAPSHOT_MAGIC_V2_def SNAPSHOT_MAGIC_V3_def SNAPSHOT_MAGIC_V4_def)
    moreover have "snap_u64 p = Inr (magic, rest)" "8 \<le> length p" by (simp_all add: that(2))
    ultimately show ?thesis using that(1) by (auto simp: from_snapshot_def Let_def sbind_def)
  qed
  moreover have "from_snapshot mh xxh64 (data @ stored) = Inl (SnapshotCorrupted ''checksum mismatch'')"
    if "length stored = 8" "8 \<le> length data" "stored \<noteq> u64_le (xxh64 data)" for data stored
  proof -
    have "of_nat (le_val stored) \<noteq> xxh64 data"
    proof
      assume eq: "of_nat (le_val stored) = xxh64 data"
      have "le_val stored < 2 ^ 64" using le_val_bound [of stored] that(1) by simp
      then have "unat (xxh64 data) = le_val stored" unfolding eq [symmetric] by (rule unat_of_nat_u64)
      then have "u64_le (xxh64 data) = stored" using le_bytes_le_val [of stored] that(1) by simp
      then show False using that(3) by simp
    qed
    then show ?thesis using that(1,2) by (simp add: from_snapshot_def Let_def)
  qed
  ultimately show ?thesis using restore_snapshot [OF run_snapshot_ok [OF assms]] by blast
qed

theorem snapshot_restart_witness:
  "from_snapshot sum_hash (\<lambda>_. 5) (to_snapshot (\<lambda>_. 5) (tree_run sum_hash sample_ops (with_offset sum_hash 0 [])))
     = Inr (tree_run sum_hash sample_ops (with_offset sum_hash 0 []))
   \<and> from_snapshot sum_hash (\<lambda>_. 5) (replicate 8 1 @ replicate 8 7) = Inl (SnapshotCorrupted ''checksum mismatch'')"
proof -
  let ?t = "tree_run sum_hash sample_ops (with_offset sum_hash 0 [])"
  have sized: "sized_ops sample_ops" by (auto simp: sized_ops_def sample_ops_def sample_leaf_def)
  have "tree_at sum_hash [] (history_run sample_ops []) ?t"
    using run_from_offset [OF sum_hash_ok sample_ops_fit prefetch_ok_Nil] by simp
  then have size: "tree_size ?t < 2 ^ 64"
    by (simp add: tree_at_def tree_holds_size [of sum_hash "history_leaves (history_run sample_ops [])"] sample_history)
  have "length sample_ops < 2 ^ 64" by (simp add: sample_ops_def)
  have differ: "replicate 8 (7 :: u8) \<noteq> u64_le 5" by code_simp
  have "from_snapshot sum_hash (\<lambda>_. 5) (to_snapshot (\<lambda>_. 5) ?t) = Inr ?t
    \<and> (\<forall>data stored. length stored = 8 \<longrightarrow> 8 \<le> length data \<longrightarrow> stored \<noteq> u64_le 5
         \<longrightarrow> from_snapshot sum_hash (\<lambda>_. 5) (data @ stored) = Inl (SnapshotCorrupted ''checksum mismatch''))"
    using snapshot_restart [OF sum_hash_ok prefetch_ok_Nil sample_ops_fit sized _ _ \<open>length sample_ops < 2 ^ 64\<close> refl, of "\<lambda>_. 5"] size by simp
  then show ?thesis using differ by (simp del: replicate.simps)
qed

end
