(* ===== verification/Witness_Server.thy ===== *)
theory Witness_Server
  imports Legacy_Sync Witness_Snapshot
begin

text \<open>
  The witness server of the legacy spendability demo, \<open>witness/witness-server/src/server.rs\<close> with \<open>state.rs\<close> and \<open>snapshot_io.rs\<close>: starting
  from a snapshot or from the window bootstrap, catching up to the tip, publishing the rows and the broadcast, and handling the events of the follow loop one at a time.

  The two tasks of \<open>sync_range\<close> talk through a first-in first-out channel, so the receiver handles the events in the order they were
  sent. The engine's \<open>setup\<close> is a parameter; so are the answers of lightwalletd and the checksum of a snapshot. The file is replaced by a
  rename, so it holds some snapshot in full; binding the socket and the progress shown while syncing are left out.
\<close>

section \<open>Catching up\<close>

text \<open>The outcome of the sending task is dropped.\<close>

definition sync_range ::
  "(u64 \<Rightarrow> u64 \<Rightarrow> string + compact_block list) \<Rightarrow> u64 \<Rightarrow> u64 \<Rightarrow> tree_db \<Rightarrow> u32 option \<Rightarrow> (witness_server_error + tree_db) option" where
  "sync_range block_range from to t initial_tree_size =
     (if from > to then Some (Inr t)
      else Option.bind (witness_sync block_range from to initial_tree_size) (\<lambda>(evs, res). Some (witness_handle_all evs t)))"

section \<open>Publishing\<close>

record witness_metadata =
  wm_anchor_height :: u64
  wm_tree_size :: nat
  wm_window_start_shard :: nat
  wm_window_shard_count :: nat
  wm_populated_shards :: nat
  wm_phase :: server_phase
  wm_pool :: string

record 's pir_state =
  ps_engine_state :: 's
  ps_broadcast :: broadcast_data
  ps_metadata :: witness_metadata

definition rebuild_pir ::
  "'m merkle_hash \<Rightarrow> (bytes \<Rightarrow> string + 's) \<Rightarrow> u64 \<Rightarrow> tree_db \<Rightarrow> witness_server_error + (tree_db \<times> 's pir_state)" where
  "rebuild_pir mh engine_setup anchor_height t =
     (case build_pir_db_and_broadcast mh anchor_height t of (t, db_bytes, broadcast) \<Rightarrow>
        bindR (map_err PirSetup (engine_setup db_bytes)) (\<lambda>engine_state.
        Inr (t, \<lparr> ps_engine_state = engine_state, ps_broadcast = broadcast,
                  ps_metadata = \<lparr> wm_anchor_height = anchor_height, wm_tree_size = tree_size t, wm_window_start_shard = window_start_shard t,
                    wm_window_shard_count = window_shard_count t, wm_populated_shards = populated_shards t, wm_phase = Serving,
                    wm_pool = ''ironwood'' \<rparr> \<rparr>)))"

section \<open>The server\<close>

record 's witness_server =
  sv_tree :: tree_db
  sv_live_pir :: "'s pir_state option"
  sv_phase :: server_phase
  sv_snapshot :: "bytes option"
  sv_blocks_since_snapshot :: u64

datatype snapshot_io_error = Snapshot_Io | Snapshot_Decode tree_error

definition load_snapshot :: "'m merkle_hash \<Rightarrow> (bytes \<Rightarrow> u64) \<Rightarrow> bytes option \<Rightarrow> snapshot_io_error + tree_db" where
  "load_snapshot mh xxh64 snapshot =
     bindR (ok_or Snapshot_Io snapshot) (\<lambda>data. map_err Snapshot_Decode (from_snapshot mh xxh64 data))"

definition save_snapshot :: "(bytes \<Rightarrow> u64) \<Rightarrow> 's witness_server \<Rightarrow> 's witness_server" where
  "save_snapshot xxh64 s = s \<lparr> sv_snapshot := Some (to_snapshot xxh64 (sv_tree s)) \<rparr>"

definition known_tree_size :: "tree_db \<Rightarrow> u32 option" where
  "known_tree_size t = (if tree_size t > 0 then Some (of_nat (tree_size t)) else None)"

definition latest_or_zero :: "tree_db \<Rightarrow> u64" where
  "latest_or_zero t = (case tree_latest_height t of Some h \<Rightarrow> h | None \<Rightarrow> 0)"

definition latest_hash :: "tree_db \<Rightarrow> bytes" where
  "latest_hash t = (case tree_latest_block_hash t of Some h \<Rightarrow> h | None \<Rightarrow> replicate 32 0)"

text \<open>\<open>roots\<close> and \<open>block_range\<close> answer for lightwalletd; \<open>tip_height\<close> and \<open>network\<close> are what it said before.\<close>

definition initial_tree ::
  "'m merkle_hash \<Rightarrow> (bytes \<Rightarrow> u64) \<Rightarrow> string + subtree_root list \<Rightarrow> (u64 \<Rightarrow> u64 \<Rightarrow> string + compact_block list) \<Rightarrow> zcash_network option \<Rightarrow> u64 \<Rightarrow> nat
     \<Rightarrow> bytes option \<Rightarrow> witness_server_error + (tree_db \<times> u64 \<times> u32 option)" where
  "initial_tree mh xxh64 roots block_range network tip_height window_shard_limit snapshot =
     (case load_snapshot mh xxh64 snapshot of
        Inr t \<Rightarrow> Inr (t, case tree_latest_height t of Some h \<Rightarrow> h + 1 | None \<Rightarrow> 0, known_tree_size t)
      | Inl e \<Rightarrow> prepare_tree mh roots block_range network tip_height window_shard_limit)"

definition server_start ::
  "'m merkle_hash \<Rightarrow> (bytes \<Rightarrow> u64) \<Rightarrow> (bytes \<Rightarrow> string + 's) \<Rightarrow> string + subtree_root list \<Rightarrow> (u64 \<Rightarrow> u64 \<Rightarrow> string + compact_block list)
     \<Rightarrow> zcash_network option \<Rightarrow> u64 \<Rightarrow> nat \<Rightarrow> bytes option \<Rightarrow> (witness_server_error + 's witness_server) option" where
  "server_start mh xxh64 engine_setup roots block_range network tip_height window_shard_limit snapshot =
     (case initial_tree mh xxh64 roots block_range network tip_height window_shard_limit snapshot of
        Inl e \<Rightarrow> Some (Inl e)
      | Inr (t, forward_start, initial_tree_size) \<Rightarrow>
          Option.bind (if forward_start \<le> tip_height then sync_range block_range forward_start tip_height t initial_tree_size else Some (Inr t)) (\<lambda>synced.
          Some (bindR synced (\<lambda>t.
            let s = save_snapshot xxh64 \<lparr> sv_tree = t, sv_live_pir = None, sv_phase = Syncing forward_start tip_height, sv_snapshot = snapshot,
                                          sv_blocks_since_snapshot = 0 \<rparr> in
            bindR (rebuild_pir mh engine_setup (latest_or_zero t) t) (\<lambda>(t, pir_state).
            Inr (save_snapshot xxh64 (s \<lparr> sv_tree := t, sv_live_pir := Some pir_state, sv_phase := Serving \<rparr>)))))))"

definition server_follow :: "'s witness_server \<Rightarrow> follow_state" where
  "server_follow s =
     follow_start (latest_or_zero (sv_tree s)) (latest_hash (sv_tree s)) (known_tree_size (sv_tree s))"

definition serve_event ::
  "'m merkle_hash \<Rightarrow> (bytes \<Rightarrow> u64) \<Rightarrow> (bytes \<Rightarrow> string + 's) \<Rightarrow> u64 \<Rightarrow> witness_event \<Rightarrow> 's witness_server \<Rightarrow> witness_server_error + 's witness_server" where
  "serve_event mh xxh64 engine_setup snapshot_interval ev s =
     bindR (witness_handle ev (sv_tree s)) (\<lambda>t.
     let since = (case ev of W_NewBlock _ _ _ _ _ \<Rightarrow> sv_blocks_since_snapshot s + 1 | W_Reorg _ \<Rightarrow> sv_blocks_since_snapshot s) in
     bindR (rebuild_pir mh engine_setup (latest_or_zero t) t) (\<lambda>(t, pir_state).
     let s = s \<lparr> sv_tree := t, sv_live_pir := Some pir_state, sv_blocks_since_snapshot := since \<rparr> in
     Inr (if since \<ge> snapshot_interval then (save_snapshot xxh64 s) \<lparr> sv_blocks_since_snapshot := 0 \<rparr> else s)))"

definition serve_events ::
  "'m merkle_hash \<Rightarrow> (bytes \<Rightarrow> u64) \<Rightarrow> (bytes \<Rightarrow> string + 's) \<Rightarrow> u64 \<Rightarrow> witness_event list \<Rightarrow> 's witness_server \<Rightarrow> witness_server_error + 's witness_server" where
  "serve_events mh xxh64 engine_setup snapshot_interval evs s = foldR (serve_event mh xxh64 engine_setup snapshot_interval) evs s"

section \<open>Catching up reaches the tip\<close>

text \<open>The commitments of a chain whose blocks start with the first that can have one.\<close>

definition chain_leaves :: "compact_block list \<Rightarrow> node_hash list" where
  "chain_leaves chain = concat (map extract_commitments chain)"

definition block_history :: "compact_block \<Rightarrow> u64 \<times> bytes \<times> node_hash list" where
  "block_history b = (cb_height b, to_hash_array (cb_hash b), extract_commitments b)"

text \<open>Every block that states a tree size states the number of commitments up to its end.\<close>

fun sizes_ok :: "nat \<Rightarrow> compact_block list \<Rightarrow> bool" where
  "sizes_ok n [] \<longleftrightarrow> True"
| "sizes_ok n (b # bs) \<longleftrightarrow>
     (let n' = n + length (extract_commitments b)
      in length (extract_commitments b) < 2 ^ 32 \<and> (\<forall>k. ironwood_tree_size b = Some k \<longrightarrow> unat k = n') \<and> sizes_ok n' bs)"

lemma chain_leaves_simps [simp]:
  "chain_leaves [] = []" "chain_leaves (b # bs) = extract_commitments b @ chain_leaves bs" "chain_leaves (xs @ ys) = chain_leaves xs @ chain_leaves ys"
  by (simp_all add: chain_leaves_def)

lemma history_leaves_blocks [simp]: "history_leaves (map block_history bs) = chain_leaves bs"
  by (simp add: history_leaves_def chain_leaves_def block_history_def comp_def)

lemma sizes_ok_append: "sizes_ok n (xs @ ys) \<longleftrightarrow> sizes_ok n xs \<and> sizes_ok (n + length (chain_leaves xs)) ys"
  by (induction xs arbitrary: n) (auto simp: Let_def add.assoc)

text \<open>The receiving side: sizes that agree let every block pass, and the tree grows by the blocks.\<close>

lemma tree_at_size: "tree_at mh base hist t \<Longrightarrow> tree_size t = length base + length (history_leaves hist)"
  using tree_holds_size by (fastforce simp: tree_at_def)

lemma handle_synced:
  assumes "tree_at mh base hist t" and "sizes_ok (tree_size t) bs" and "\<forall>k. prev = Some k \<longrightarrow> unat k = tree_size t"
  shows "\<exists>t'. witness_handle_all (fst (sync_events bs prev)) t = Inr t' \<and> tree_at mh base (hist @ map block_history bs) t'"
  using assms
proof (induction bs arbitrary: hist t prev)
  case (Cons b bs)
  let ?u = "append_commitments (cb_height b) (to_hash_array (cb_hash b)) (extract_commitments b) t"
  have at: "tree_at mh base (hist @ [block_history b]) ?u"
    unfolding block_history_def by (rule append_at [OF Cons.prems(1)]) (use Cons.prems(2) in \<open>simp add: Let_def\<close>)
  have size: "tree_size ?u = tree_size t + length (extract_commitments b)"
    using tree_at_size [OF at] tree_at_size [OF Cons.prems(1)] by (simp add: block_history_def history_leaves_def)
  obtain t' where t': "witness_handle_all (fst (sync_events bs (ironwood_tree_size b))) ?u = Inr t'"
    "tree_at mh base ((hist @ [block_history b]) @ map block_history bs) t'"
    using Cons.IH [OF at, of "ironwood_tree_size b"] Cons.prems(2) size by (auto simp: Let_def)
  have "validate_prior_tree_size (cb_height b) prev t = Inr ()"
    using Cons.prems(3) by (auto simp: validate_prior_tree_size_def split: option.splits)
  then show ?case
    using t' by (auto simp: witness_handle_all_def witness_handle_def case_prod_unfold)
qed (simp add: witness_handle_all_def)

lemma sync_range_reaches:
  assumes "\<forall>a b. block_range a b = Inr (blocks_between chain a b)" and "sorted_wrt (<) (map cb_height chain)" and "unat to + 10000 < 2 ^ 64"
    and "tree_at mh base hist t" and "sizes_ok (tree_size t) (blocks_between chain from to)" and "\<forall>k. initial = Some k \<longrightarrow> unat k = tree_size t"
  shows "\<exists>t'. sync_range block_range from to t initial = Some (Inr t') \<and> tree_at mh base (hist @ map block_history (blocks_between chain from to)) t'"
proof (cases "from > to")
  case True
  then have "blocks_between chain from to = []" by (auto simp: blocks_between_def filter_empty_conv)
  then show ?thesis using True assms(4) by (simp add: sync_range_def)
next
  case False
  then have "unat from \<le> unat to + 1" by (simp add: not_less word_le_nat_alt)
  from cs.sync_loop_events [OF assms(1-3) this] handle_synced [OF assms(4-6)] False
  show ?thesis by (auto simp: sync_range_def witness_sync_def)
qed

section \<open>The window bootstrap\<close>

text \<open>
  What lightwalletd answers about the completed shards of a chain: their roots in the reference tree, and for each the height of the block
  that holds its last leaf, a block with a stated tree size.
\<close>

definition completes :: "compact_block list \<Rightarrow> nat \<Rightarrow> u64 \<Rightarrow> bool" where
  "completes chain n height \<longleftrightarrow>
     (\<exists>xs b ys. chain = xs @ b # ys \<and> cb_height b = height \<and> ironwood_tree_size b \<noteq> None
        \<and> length (chain_leaves xs) < n \<and> n \<le> length (chain_leaves (xs @ [b])))"

definition roots_honest :: "'m merkle_hash \<Rightarrow> compact_block list \<Rightarrow> subtree_root list \<Rightarrow> bool" where
  "roots_honest mh chain roots \<longleftrightarrow>
     length roots = length (chain_leaves chain) div SHARD_LEAVES \<and>
     (\<forall>i < length roots. set_len 32 (sr_root_hash (roots ! i)) = node mh (leaf_at mh (chain_leaves chain)) SHARD_HEIGHT i
        \<and> completes chain ((i + 1) * SHARD_LEAVES) (sr_completing_block_height (roots ! i)))"

lemma spillover_window:
  assumes "sizes_ok 0 (xs @ [b])" and "ironwood_tree_size b \<noteq> None" and "length (chain_leaves xs) \<le> off" and "off \<le> length (chain_leaves (xs @ [b]))"
  shows "completing_block_spillover b off = drop off (chain_leaves (xs @ [b]))"
proof -
  obtain k where k: "ironwood_tree_size b = Some k" "cb_tree_size b = Some k"
    using assms(2) by (auto simp: ironwood_tree_size_def split: option.splits if_splits)
  have "unat k = length (chain_leaves (xs @ [b]))" using assms(1) k(1) by (simp add: sizes_ok_append Let_def)
  then show ?thesis
    using assms(3, 4) by (auto simp: completing_block_spillover_def spillover_from_commitments_def k(2) Let_def intro!: arg_cong2 [of _ _ _ _ drop])
qed

lemma between_one:
  assumes "sorted_wrt (<) (map cb_height (xs @ b # ys))"
  shows "blocks_between (xs @ b # ys) (cb_height b) (cb_height b) = [b]"
    and "unat (cb_height b) + 1 < 2 ^ 64 \<Longrightarrow> \<forall>y \<in> set ys. cb_height y \<le> tip \<Longrightarrow> blocks_between (xs @ b # ys) (cb_height b + 1) tip = ys"
proof -
  have below: "\<forall>x \<in> set xs. cb_height x < cb_height b" and above: "\<forall>y \<in> set ys. cb_height b < cb_height y"
    using assms by (auto simp: sorted_wrt_append)
  have "filter (\<lambda>x. cb_height b \<le> cb_height x \<and> cb_height x \<le> cb_height b) xs = []"
    "filter (\<lambda>x. cb_height b \<le> cb_height x \<and> cb_height x \<le> cb_height b) ys = []"
    using below above by (auto simp: filter_empty_conv)
  then show "blocks_between (xs @ b # ys) (cb_height b) (cb_height b) = [b]" by (simp add: blocks_between_def)
  show "blocks_between (xs @ b # ys) (cb_height b + 1) tip = ys"
    if "unat (cb_height b) + 1 < 2 ^ 64" "\<forall>y \<in> set ys. cb_height y \<le> tip"
  proof -
    have "cb_height b + 1 \<le> h \<longleftrightarrow> cb_height b < h" for h
      using that(1) by (simp add: word_le_nat_alt word_less_nat_alt unat_add_nowrap Suc_le_eq)
    then show ?thesis using below above that(2) by (auto simp: blocks_between_def filter_empty_conv filter_id_conv)
  qed
qed

lemma prefetch_window:
  assumes "roots_honest mh chain roots" and "ws \<le> length roots"
  shows "prefetch_ok mh (take (ws * SHARD_LEAVES) (chain_leaves chain)) (map (\<lambda>sr. set_len 32 (sr_root_hash sr)) (take ws roots))"
proof -
  let ?L = "chain_leaves chain" and ?base = "take (ws * SHARD_LEAVES) (chain_leaves chain)"
  have off: "ws * SHARD_LEAVES \<le> length ?L"
    using assms by (simp add: roots_honest_def less_eq_div_iff_mult_less_eq SHARD_LEAVES_def)
  then have len: "length ?base = ws * SHARD_LEAVES" by simp
  have "node mh (leaf_at mh ?L) SHARD_HEIGHT i = node mh (leaf_at mh ?base) SHARD_HEIGHT i" if "i < ws" for i
  proof (rule node_prefix [of "ws * SHARD_LEAVES"])
    have "(i + 1) * SHARD_LEAVES \<le> ws * SHARD_LEAVES" using that by (intro mult_le_mono1) simp
    then show "(i + 1) * 2 ^ SHARD_HEIGHT \<le> ws * SHARD_LEAVES" by (simp add: SHARD_LEAVES_def)
  qed (use off in simp_all)
  then show ?thesis using assms len off by (auto simp: prefetch_ok_def roots_honest_def SHARD_LEAVES_def)
qed

text \<open>
  Whichever branch it takes, the bootstrap returns a tree over a prefix of the chain, the rest of which is what the sync that follows asks for, and its
  window has room for the whole chain.
\<close>

definition history_tip :: "tree_history \<Rightarrow> compact_block list \<Rightarrow> bool" where
  "history_tip hist held \<longleftrightarrow>
     (hist \<noteq> [] \<longrightarrow> held \<noteq> [] \<and> fst (last hist) = cb_height (last held) \<and> fst (snd (last hist)) = to_hash_array (cb_hash (last held)))"

lemma history_tip_append: "history_tip hist held \<Longrightarrow> history_tip (hist @ map block_history rest) (held @ rest)"
  by (cases rest rule: rev_cases) (auto simp: history_tip_def block_history_def)

definition bootstrapped ::
  "'m merkle_hash \<Rightarrow> compact_block list \<Rightarrow> u64 \<Rightarrow> tree_db \<times> u64 \<times> u32 option \<Rightarrow> node_hash list \<Rightarrow> tree_history \<Rightarrow> compact_block list \<Rightarrow> bool" where
  "bootstrapped mh chain tip = (\<lambda>(t, from, initial) base hist held.
     tree_at mh base hist t \<and> base @ history_leaves hist = chain_leaves held \<and> chain = held @ blocks_between chain from tip
     \<and> (\<forall>k. initial = Some k \<longrightarrow> unat k = tree_size t) \<and> history_tip hist held)"

lemma prepare_window:
  assumes roots: "roots_honest mh chain roots" and lwd: "\<forall>a b. block_range a b = Inr (blocks_between chain a b)"
    and sorted: "sorted_wrt (<) (map cb_height chain)" and sizes: "sizes_ok 0 chain" and small: "length (chain_leaves chain) < 2 ^ 32"
    and tip: "\<forall>b \<in> set chain. cb_height b \<le> tip" "unat tip + 1 < 2 ^ 64"
    and limit: "max 1 (min limit L0_MAX_SHARDS) \<le> length roots" "ws = length roots - (max 1 (min limit L0_MAX_SHARDS) - 1)"
  shows "\<exists>r hist held. prepare_tree mh (Inr roots) block_range network tip limit = Inr r
     \<and> bootstrapped mh chain tip r (take (ws * SHARD_LEAVES) (chain_leaves chain)) hist held"
proof -
  let ?off = "ws * SHARD_LEAVES" and ?pre = "map (\<lambda>sr. set_len 32 (sr_root_hash sr)) (take ws roots)"
  let ?base = "take ?off (chain_leaves chain)" and ?height = "sr_completing_block_height (roots ! (ws - 1))"
  have ws: "0 < ws" "ws \<le> length roots" using limit by auto
  then have "ws - 1 < length roots" "ws - 1 + 1 = ws" by auto
  then have "completes chain ?off ?height" using roots unfolding roots_honest_def by metis
  then obtain xs b ys where b: "chain = xs @ b # ys" "cb_height b = ?height" "ironwood_tree_size b \<noteq> None"
    "length (chain_leaves xs) < ?off" "?off \<le> length (chain_leaves (xs @ [b]))"
    unfolding completes_def by blast
  define L where "L = chain_leaves (xs @ [b])"
  let ?spill = "drop ?off L"
  have spill: "completing_block_spillover b ?off = ?spill"
    unfolding L_def by (rule spillover_window) (use sizes b in \<open>auto simp: sizes_ok_append Let_def\<close>)
  have base: "?base = take ?off L" "length ?base = ?off" using b by (auto simp: L_def)
  have at0: "tree_at mh ?base [] (with_offset mh ?off ?pre)" using with_offset_at [OF prefetch_window [OF roots ws(2)]] base(2) by simp
  have "length ?spill < 2 ^ 32" using small b(1) by (simp add: L_def)
  from append_at [OF at0 this, of ?height "set_len 32 (cb_hash b)"]
  have at1: "tree_at mh ?base [(?height, set_len 32 (cb_hash b), ?spill)] (append_commitments ?height (set_len 32 (cb_hash b)) ?spill (with_offset mh ?off ?pre))"
    by simp
  define t where "t = (if ?spill \<noteq> [] then append_commitments ?height (set_len 32 (cb_hash b)) ?spill (with_offset mh ?off ?pre) else with_offset mh ?off ?pre)"
  define hist where "hist = (if ?spill \<noteq> [] then [(?height, set_len 32 (cb_hash b), ?spill)] else [])"
  have at: "tree_at mh ?base hist t" using at0 at1 by (simp add: t_def hist_def)
  have leaves: "?base @ history_leaves hist = L" by (auto simp: base(1) hist_def history_leaves_def)
  have "tree_size t = length L" using tree_at_size [OF at] by (metis leaves length_append)
  moreover have "length L < 2 ^ 32" using small b(1) by (simp add: L_def)
  ultimately have size: "unat (of_nat (tree_size t) :: u32) = tree_size t" by (simp add: unat_of_nat_small)
  have "unat (cb_height b) \<le> unat tip" using tip(1) b(1) by (simp add: word_le_nat_alt)
  then have one: "blocks_between chain ?height ?height = [b]" "blocks_between chain (?height + 1) tip = ys"
    using between_one(1) [of xs b ys] between_one(2) [of xs b ys tip] sorted tip b(1) by (simp_all add: b(2))
  have "prepare_tree mh (Inr roots) block_range network tip limit = Inr (t, ?height + 1, Some (of_nat (tree_size t)))"
    using limit(1) unfolding prepare_tree_def Let_def map_err_simps bindR_simps limit(2) [symmetric]
    by (simp add: lwd one [unfolded One_nat_def] spill t_def)
  moreover have "bootstrapped mh chain tip (t, ?height + 1, Some (of_nat (tree_size t))) ?base hist (xs @ [b])"
    using at leaves one(2) size b(1, 2) by (auto simp: bootstrapped_def L_def hist_def history_tip_def to_hash_array_def)
  ultimately show ?thesis by blast
qed

lemma prepare_bootstraps:
  assumes roots: "roots_honest mh chain roots" and lwd: "\<forall>a b. block_range a b = Inr (blocks_between chain a b)"
    and sorted: "sorted_wrt (<) (map cb_height chain)" and sizes: "sizes_ok 0 chain" and small: "length (chain_leaves chain) < 2 ^ 32"
    and tip: "\<forall>b \<in> set chain. min_sync_height network tip \<le> cb_height b \<and> cb_height b \<le> tip" "unat tip + 1 < 2 ^ 64"
  shows "\<exists>r base hist held. prepare_tree mh (Inr roots) block_range network tip limit = Inr r \<and> bootstrapped mh chain tip r base hist held
     \<and> length (chain_leaves chain) \<le> length base + L0_MAX_SHARDS * SHARD_LEAVES"
proof -
  let ?m = "max 1 (min limit L0_MAX_SHARDS)" and ?n = "length roots"
  have total: "length (chain_leaves chain) < (?n + 1) * SHARD_LEAVES"
    using roots dividend_less_div_times [of SHARD_LEAVES "length (chain_leaves chain)"] by (simp add: roots_honest_def SHARD_LEAVES_def)
  show ?thesis
  proof (cases "?m \<le> ?n")
    case True
    define ws where "ws = ?n - (?m - 1)"
    have cap: "(?n + 1) \<le> ws + 32" using True by (auto simp: ws_def L0_MAX_SHARDS_def)
    have "length (chain_leaves chain) \<le> ws * SHARD_LEAVES + L0_MAX_SHARDS * SHARD_LEAVES"
      using total mult_le_mono1 [OF cap, of SHARD_LEAVES] by (simp add: add_mult_distrib L0_MAX_SHARDS_def)
    moreover have "ws * SHARD_LEAVES \<le> length (chain_leaves chain)"
      using roots by (simp add: roots_honest_def ws_def less_eq_div_iff_mult_less_eq [symmetric] SHARD_LEAVES_def)
    ultimately show ?thesis using prepare_window [OF roots lwd sorted sizes small _ tip(2) True ws_def] tip(1) by fastforce
  next
    case False
    have "?n + 1 \<le> 32" using False by (auto simp: L0_MAX_SHARDS_def)
    then have fits: "length (chain_leaves chain) \<le> L0_MAX_SHARDS * SHARD_LEAVES"
      using total mult_le_mono1 [of "?n + 1" 32 SHARD_LEAVES] unfolding L0_MAX_SHARDS_def by linarith
    have "blocks_between chain (min_sync_height network tip) tip = chain" using tip(1) by (simp add: blocks_between_def filter_id_conv)
    then have "bootstrapped mh chain tip (tree_new mh, min_sync_height network tip, None) [] [] []"
      using with_offset_at [OF prefetch_ok_Nil] by (simp add: bootstrapped_def tree_new_def history_leaves_def history_tip_def)
    moreover have "prepare_tree mh (Inr roots) block_range network tip limit = Inr (tree_new mh, min_sync_height network tip, None)"
      using False unfolding prepare_tree_def Let_def map_err_simps bindR_simps by (simp only: if_False)
    ultimately show ?thesis using fits by force
  qed
qed

section \<open>Serving\<close>

text \<open>A server that serves: what it publishes is the rows and the broadcast of exactly the leaves it holds.\<close>

definition serving ::
  "'m merkle_hash \<Rightarrow> (bytes \<Rightarrow> string + 's) \<Rightarrow> node_hash list \<Rightarrow> tree_history \<Rightarrow> 's witness_server \<Rightarrow> bool" where
  "serving mh engine_setup base hist s \<longleftrightarrow>
     tree_at mh base hist (sv_tree s) \<and> sv_phase s = Serving \<and>
     (\<exists>ps. sv_live_pir s = Some ps
        \<and> ps_broadcast ps = window_broadcast mh (base @ history_leaves hist) (latest_or_zero (sv_tree s)) (sv_tree s)
        \<and> engine_setup (set_len L0_DB_BYTES (window_rows mh (base @ history_leaves hist) (sv_tree s))) = Inr (ps_engine_state ps))"

lemma serving_size: "serving mh engine_setup base hist s \<Longrightarrow> tree_size (sv_tree s) = length base + length (history_leaves hist)"
  unfolding serving_def using tree_at_size by blast

lemma window_cache [simp]:
  "window_shard_count (t \<lparr> tr_ss_root_cache := c \<rparr>) = window_shard_count t" "window_start_shard (t \<lparr> tr_ss_root_cache := c \<rparr>) = window_start_shard t"
  "populated_shards (t \<lparr> tr_ss_root_cache := c \<rparr>) = populated_shards t" "latest_or_zero (t \<lparr> tr_ss_root_cache := c \<rparr>) = latest_or_zero t"
  "tree_size (t \<lparr> tr_ss_root_cache := c \<rparr>) = tree_size t"
  by (simp_all add: window_shard_count_def local_shard_count_def window_start_shard_def populated_shards_def tree_size_def latest_or_zero_def
      tree_latest_height_def)

lemma window_value_cache [simp]:
  "window_rows mh leaves (t \<lparr> tr_ss_root_cache := c \<rparr>) = window_rows mh leaves t"
  "window_broadcast mh leaves a (t \<lparr> tr_ss_root_cache := c \<rparr>) = window_broadcast mh leaves a t"
  by (simp_all add: window_rows_def window_broadcast_def)

lemma rebuild_serves:
  assumes ok: "mh_ok mh" and at: "tree_at mh base hist t" and total: "\<forall>db. \<exists>e. engine_setup db = Inr e"
  shows "\<exists>t' ps. rebuild_pir mh engine_setup (latest_or_zero t) t = Inr (t', ps)
     \<and> (\<forall>s. sv_tree s = t' \<longrightarrow> sv_live_pir s = Some ps \<longrightarrow> sv_phase s = Serving \<longrightarrow> serving mh engine_setup base hist s)"
proof -
  let ?L = "base @ history_leaves hist"
  have h: "tree_holds mh ?L t" using at by (simp add: tree_at_def)
  obtain c' where c': "tree_holds mh ?L (t \<lparr> tr_ss_root_cache := c' \<rparr>)"
    "build_pir_db_and_broadcast mh (latest_or_zero t) t
       = (t \<lparr> tr_ss_root_cache := c' \<rparr>, set_len L0_DB_BYTES (window_rows mh ?L t), window_broadcast mh ?L (latest_or_zero t) t)"
    using build_value [OF ok h] by blast
  obtain e where e: "engine_setup (set_len L0_DB_BYTES (window_rows mh ?L t)) = Inr e" using total by blast
  have "tree_at mh base hist (t \<lparr> tr_ss_root_cache := c' \<rparr>)" using at c'(1) by (simp add: tree_at_def)
  then show ?thesis using c'(2) e by (auto simp: rebuild_pir_def serving_def)
qed

lemma server_start_serves:
  assumes ok: "mh_ok mh" and total: "\<forall>db. \<exists>e. engine_setup db = Inr e" and lwd: "\<forall>a b. block_range a b = Inr (blocks_between chain a b)"
    and sorted: "sorted_wrt (<) (map cb_height chain)" and sizes: "sizes_ok 0 chain" and tip: "unat tip + 10000 < 2 ^ 64"
    and init: "initial_tree mh xxh64 roots block_range network tip limit snapshot = Inr r" and boot: "bootstrapped mh chain tip r base hist held"
  shows "\<exists>s rest. server_start mh xxh64 engine_setup roots block_range network tip limit snapshot = Some (Inr s)
     \<and> chain = held @ rest \<and> serving mh engine_setup base (hist @ map block_history rest) s \<and> sv_snapshot s = Some (to_snapshot xxh64 (sv_tree s))
     \<and> sv_blocks_since_snapshot s = 0"
proof -
  obtain t start initial where r: "r = (t, start, initial)" by (cases r)
  let ?rest = "blocks_between chain start tip"
  have at: "tree_at mh base hist t" and leaves: "base @ history_leaves hist = chain_leaves held" and chain: "chain = held @ ?rest"
    and initial: "\<forall>k. initial = Some k \<longrightarrow> unat k = tree_size t"
    using boot by (simp_all add: bootstrapped_def r)
  have "tree_size t = length (chain_leaves held)" using tree_at_size [OF at] by (metis leaves length_append)
  moreover have "sizes_ok 0 (held @ ?rest)" using sizes chain by simp
  ultimately have "sizes_ok (tree_size t) ?rest" by (simp add: sizes_ok_append)
  from sync_range_reaches [OF lwd sorted tip at this initial]
  obtain t' where t': "sync_range block_range start tip t initial = Some (Inr t')" "tree_at mh base (hist @ map block_history ?rest) t'" by blast
  have sync: "(if start \<le> tip then sync_range block_range start tip t initial else Some (Inr t)) = Some (Inr t')"
    using t'(1) by (auto simp: sync_range_def split: if_splits)
  obtain u ps where u: "rebuild_pir mh engine_setup (latest_or_zero t') t' = Inr (u, ps)"
    "\<And>s. sv_tree s = u \<Longrightarrow> sv_live_pir s = Some ps \<Longrightarrow> sv_phase s = Serving \<Longrightarrow> serving mh engine_setup base (hist @ map block_history ?rest) s"
    using rebuild_serves [OF ok t'(2) total] by blast
  show ?thesis
    using chain by (auto simp: server_start_def init r sync u(1) Let_def save_snapshot_def intro!: exI [of _ ?rest] u(2))
qed

text \<open>Blocks that each follow the one before them are reported by the follow loop exactly as by the sync.\<close>

lemma follow_as_sync:
  assumes "linked height hash bs" and "tracker_tip (fw_tracker st) = Some (height, hash)" and "0 < ck_max_depth (fw_tracker st)"
  shows "\<exists>tr. follow_blocks witness_follow_block bs st
     = (fst (sync_events bs (fw_prev_tree_size st)),
        \<lparr> fw_tracker = tr, fw_current_height = (if bs = [] then fw_current_height st else cb_height (last bs)),
          fw_prev_tree_size = snd (sync_events bs (fw_prev_tree_size st)) \<rparr>)
     \<and> tracker_tip tr = Some (if bs = [] then (height, hash) else (cb_height (last bs), to_hash_array (cb_hash (last bs))))
     \<and> ck_max_depth tr = ck_max_depth (fw_tracker st)"
  using assms
proof (induction bs arbitrary: height hash st)
  case (Cons b bs)
  obtain tr' where tr': "push_block (height + 1) (to_hash_array (cb_hash b)) hash (fw_tracker st) = (Extend, tr')"
    "tracker_tip tr' = Some (height + 1, to_hash_array (cb_hash b))" "ck_max_depth tr' = ck_max_depth (fw_tracker st)"
    using push_block_extend [OF Cons.prems(2, 3)] by blast
  let ?st = "\<lparr> fw_tracker = tr', fw_current_height = height + 1, fw_prev_tree_size = ironwood_tree_size b \<rparr>"
  have link: "linked (height + 1) (to_hash_array (cb_hash b)) bs" and b: "cb_height b = height + 1" "to_hash_array (cb_prev_hash b) = hash"
    using Cons.prems(1) by auto
  have step: "witness_follow_block b st = ([W_NewBlock (cb_height b) (to_hash_array (cb_hash b)) (to_hash_array (cb_prev_hash b)) (extract_commitments b) (fw_prev_tree_size st)], ?st)"
    using tr'(1) b by (simp add: witness_follow_block_def Let_def)
  show ?case using Cons.IH [OF link, of ?st] tr'(2, 3) Cons.prems(3) b by (auto simp: step case_prod_unfold)
qed (auto intro!: exI [of _ "fw_tracker _"])

lemma serve_synced:
  assumes ok: "mh_ok mh" and total: "\<forall>db. \<exists>e. engine_setup db = Inr e" and "serving mh engine_setup base hist s"
    and "sizes_ok (tree_size (sv_tree s)) bs" and "\<forall>k. prev = Some k \<longrightarrow> unat k = tree_size (sv_tree s)"
  shows "\<exists>s'. serve_events mh xxh64 engine_setup interval (fst (sync_events bs prev)) s = Inr s'
     \<and> serving mh engine_setup base (hist @ map block_history bs) s' \<and> (\<forall>k. snd (sync_events bs prev) = Some k \<longrightarrow> unat k = tree_size (sv_tree s'))"
  using assms(3-5)
proof (induction bs arbitrary: hist s prev)
  case (Cons b bs)
  let ?t = "sv_tree s"
  let ?u = "append_commitments (cb_height b) (to_hash_array (cb_hash b)) (extract_commitments b) ?t"
  have at0: "tree_at mh base hist ?t" using Cons.prems(1) by (simp add: serving_def)
  have at: "tree_at mh base (hist @ [block_history b]) ?u"
    unfolding block_history_def by (rule append_at [OF at0]) (use Cons.prems(2) in \<open>simp add: Let_def\<close>)
  obtain t' ps where t': "rebuild_pir mh engine_setup (latest_or_zero ?u) ?u = Inr (t', ps)"
    "\<And>s. sv_tree s = t' \<Longrightarrow> sv_live_pir s = Some ps \<Longrightarrow> sv_phase s = Serving \<Longrightarrow> serving mh engine_setup base (hist @ [block_history b]) s"
    using rebuild_serves [OF ok at total] by blast
  have "validate_prior_tree_size (cb_height b) prev ?t = Inr ()"
    using Cons.prems(3) by (auto simp: validate_prior_tree_size_def split: option.splits)
  then have "\<exists>s1. serve_event mh xxh64 engine_setup interval
      (W_NewBlock (cb_height b) (to_hash_array (cb_hash b)) (to_hash_array (cb_prev_hash b)) (extract_commitments b) prev) s = Inr s1
      \<and> sv_tree s1 = t' \<and> sv_live_pir s1 = Some ps \<and> sv_phase s1 = sv_phase s"
    using t'(1) by (auto simp: serve_event_def witness_handle_def Let_def save_snapshot_def)
  then obtain s1 where s1: "serve_event mh xxh64 engine_setup interval
      (W_NewBlock (cb_height b) (to_hash_array (cb_hash b)) (to_hash_array (cb_prev_hash b)) (extract_commitments b) prev) s = Inr s1"
    "serving mh engine_setup base (hist @ [block_history b]) s1"
    using t'(2) Cons.prems(1) unfolding serving_def by metis
  have size: "tree_size (sv_tree s1) = tree_size ?t + length (extract_commitments b)"
    using serving_size [OF s1(2)] serving_size [OF Cons.prems(1)] by (simp add: block_history_def history_leaves_def)
  obtain s' where "serve_events mh xxh64 engine_setup interval (fst (sync_events bs (ironwood_tree_size b))) s1 = Inr s'"
    "serving mh engine_setup base ((hist @ [block_history b]) @ map block_history bs) s'"
    "\<forall>k. snd (sync_events bs (ironwood_tree_size b)) = Some k \<longrightarrow> unat k = tree_size (sv_tree s')"
    using Cons.IH [OF s1(2), of "ironwood_tree_size b"] Cons.prems(2) size by (auto simp: Let_def)
  then show ?case using s1(1) by (simp add: serve_events_def case_prod_unfold)
qed (simp add: serve_events_def)

text \<open>
  Polls of the follow loop, each with what lightwalletd answers to it, and the blocks a sequence of them brings when the chain
  only grows: every poll that sees a higher tip gets blocks that follow the current one.
\<close>

type_synonym lwd_view = "(string + u64) \<times> (u64 \<Rightarrow> u64 \<Rightarrow> string + compact_block list)"

fun server_polls ::
  "'m merkle_hash \<Rightarrow> (bytes \<Rightarrow> u64) \<Rightarrow> (bytes \<Rightarrow> string + 's) \<Rightarrow> u64 \<Rightarrow> lwd_view list \<Rightarrow> follow_state \<Rightarrow> 's witness_server
     \<Rightarrow> witness_server_error + (follow_state \<times> 's witness_server)" where
  "server_polls mh xxh64 engine_setup snapshot_interval [] st s = Inr (st, s)"
| "server_polls mh xxh64 engine_setup snapshot_interval ((latest, block_range) # polls) st s =
     bindR (map_err Client (follow_poll witness_follow_block latest block_range st)) (\<lambda>(evs, st).
     bindR (serve_events mh xxh64 engine_setup snapshot_interval evs s) (\<lambda>s.
     server_polls mh xxh64 engine_setup snapshot_interval polls st s))"

fun polls_grow :: "u64 \<Rightarrow> bytes \<Rightarrow> lwd_view list \<Rightarrow> compact_block list \<Rightarrow> bool" where
  "polls_grow height hash [] bs \<longleftrightarrow> bs = []"
| "polls_grow height hash ((latest, block_range) # polls) bs \<longleftrightarrow>
     (\<exists>tip seg rest. latest = Inr tip \<and> bs = seg @ rest \<and> (if tip \<le> height then seg = [] else block_range (height + 1) tip = Inr seg)
        \<and> linked height hash seg
        \<and> (if seg = [] then polls_grow height hash polls rest
           else polls_grow (cb_height (last seg)) (to_hash_array (cb_hash (last seg))) polls rest))"

definition following :: "u64 \<Rightarrow> bytes \<Rightarrow> follow_state \<Rightarrow> 's witness_server \<Rightarrow> bool" where
  "following height hash st s \<longleftrightarrow>
     tracker_tip (fw_tracker st) = Some (height, hash) \<and> 0 < ck_max_depth (fw_tracker st) \<and> fw_current_height st = height
     \<and> (\<forall>k. fw_prev_tree_size st = Some k \<longrightarrow> unat k = tree_size (sv_tree s))"

lemma polls_serve:
  assumes ok: "mh_ok mh" and total: "\<forall>db. \<exists>e. engine_setup db = Inr e" and "following height hash st s"
    and "serving mh engine_setup base hist s" and "sizes_ok (tree_size (sv_tree s)) bs" and "polls_grow height hash polls bs"
  shows "\<exists>st' s'. server_polls mh xxh64 engine_setup interval polls st s = Inr (st', s') \<and> serving mh engine_setup base (hist @ map block_history bs) s'"
  using assms(3-6)
proof (induction polls arbitrary: height hash st s hist bs)
  case (Cons poll polls)
  obtain tip block_range seg rest where poll: "poll = (Inr tip, block_range)" "bs = seg @ rest"
    "if tip \<le> height then seg = [] else block_range (height + 1) tip = Inr seg" "linked height hash seg"
    and rest: "if seg = [] then polls_grow height hash polls rest else polls_grow (cb_height (last seg)) (to_hash_array (cb_hash (last seg))) polls rest"
    using Cons.prems(4) by (cases poll) auto
  have f: "tracker_tip (fw_tracker st) = Some (height, hash)" "0 < ck_max_depth (fw_tracker st)" "fw_current_height st = height"
    "\<forall>k. fw_prev_tree_size st = Some k \<longrightarrow> unat k = tree_size (sv_tree s)"
    using Cons.prems(1) by (simp_all add: following_def)
  obtain tr where tr: "follow_blocks witness_follow_block seg st
     = (fst (sync_events seg (fw_prev_tree_size st)), \<lparr> fw_tracker = tr, fw_current_height = (if seg = [] then height else cb_height (last seg)),
          fw_prev_tree_size = snd (sync_events seg (fw_prev_tree_size st)) \<rparr>)"
     "tracker_tip tr = Some (if seg = [] then (height, hash) else (cb_height (last seg), to_hash_array (cb_hash (last seg))))"
     "ck_max_depth tr = ck_max_depth (fw_tracker st)"
    using follow_as_sync [OF poll(4) f(1, 2)] f(3) by auto
  let ?st = "\<lparr> fw_tracker = tr, fw_current_height = (if seg = [] then height else cb_height (last seg)),
          fw_prev_tree_size = snd (sync_events seg (fw_prev_tree_size st)) \<rparr>"
  have polled: "follow_poll witness_follow_block (Inr tip) block_range st = Inr (fst (sync_events seg (fw_prev_tree_size st)), ?st)"
    using poll(3) f(3) tr(1) by (auto simp: follow_poll_def split: if_splits)
  have "sizes_ok (tree_size (sv_tree s)) seg" using Cons.prems(3) poll(2) by (simp add: sizes_ok_append)
  then obtain s' where s': "serve_events mh xxh64 engine_setup interval (fst (sync_events seg (fw_prev_tree_size st))) s = Inr s'"
    "serving mh engine_setup base (hist @ map block_history seg) s'"
    "\<forall>k. snd (sync_events seg (fw_prev_tree_size st)) = Some k \<longrightarrow> unat k = tree_size (sv_tree s')"
    using serve_synced [OF ok total Cons.prems(2) _ f(4)] by blast
  have "tree_size (sv_tree s') = tree_size (sv_tree s) + length (chain_leaves seg)"
    using serving_size [OF s'(2)] serving_size [OF Cons.prems(2)] by simp
  then have sizes: "sizes_ok (tree_size (sv_tree s')) rest" using Cons.prems(3) poll(2) by (simp add: sizes_ok_append)
  have "following (if seg = [] then height else cb_height (last seg)) (if seg = [] then hash else to_hash_array (cb_hash (last seg))) ?st s'"
    using tr(2, 3) f(2) s'(3) by (auto simp: following_def)
  from Cons.IH [OF this s'(2) sizes] rest
  show ?case using s'(1) by (auto simp: poll(1, 2) polled split: if_splits)
qed simp

text \<open>A lightwalletd that answers for one chain: its shard roots, its blocks by height, and a tip above all of them.\<close>

definition lwd_honest ::
  "'m merkle_hash \<Rightarrow> compact_block list \<Rightarrow> subtree_root list \<Rightarrow> (u64 \<Rightarrow> u64 \<Rightarrow> string + compact_block list) \<Rightarrow> zcash_network option \<Rightarrow> u64 \<Rightarrow> bool" where
  "lwd_honest mh chain roots block_range network tip \<longleftrightarrow>
     roots_honest mh chain roots \<and> (\<forall>a b. block_range a b = Inr (blocks_between chain a b)) \<and> sorted_wrt (<) (map cb_height chain)
     \<and> (\<forall>b \<in> set chain. min_sync_height network tip \<le> cb_height b \<and> cb_height b \<le> tip) \<and> unat tip + 10000 < 2 ^ 64"

lemma following_start:
  assumes "tree_size (sv_tree s) < 2 ^ 32"
  shows "following (latest_or_zero (sv_tree s)) (latest_hash (sv_tree s)) (server_follow s) s"
  using assms
  by (auto simp: following_def server_follow_def follow_start_def tracker_with_tip_def tracker_new_def tracker_tip_def CONFIRMATION_DEPTH_def
      known_tree_size_def unat_of_nat_small split: if_splits)

lemma tree_tip:
  assumes "tree_at mh base hist t" and "history_tip hist chain" and "base @ history_leaves hist = chain_leaves chain"
    and "length (chain_leaves chain) mod SHARD_LEAVES \<noteq> 0"
  shows "latest_or_zero t = cb_height (last chain)" and "latest_hash t = to_hash_array (cb_hash (last chain))"
proof -
  have "length base mod SHARD_LEAVES = 0" using assms(1) by (auto simp: tree_at_def tree_holds_def)
  then have ne: "hist \<noteq> []" using assms(3, 4) by (auto simp: history_leaves_def)
  then have b: "tr_blocks t = map history_block hist" "tr_blocks t \<noteq> []" using assms(1) by (auto simp: tree_at_def)
  show "latest_or_zero t = cb_height (last chain)" "latest_hash t = to_hash_array (cb_hash (last chain))"
    using assms(2) ne b
    by (auto simp: latest_or_zero_def latest_hash_def tree_latest_height_def tree_latest_block_hash_def last_map history_block_def history_tip_def
        split: prod.splits)
qed

text \<open>From an honest lightwalletd the server starts, whatever the window limit, and keeps serving the growing chain.\<close>

lemma server_from_chain:
  assumes ok: "mh_ok mh" and total: "\<forall>db. \<exists>e. engine_setup db = Inr e" and lwd: "lwd_honest mh chain roots block_range network tip"
    and sizes: "sizes_ok 0 chain" and small: "length (chain_leaves chain) < 2 ^ 32" and fresh: "load_snapshot mh xxh64 snapshot = Inl err"
  shows "\<exists>s. server_start mh xxh64 engine_setup (Inr roots) block_range network tip limit snapshot = Some (Inr s) \<and>
    (length (chain_leaves chain) mod SHARD_LEAVES \<noteq> 0 \<longrightarrow>
       latest_or_zero (sv_tree s) = cb_height (last chain) \<and> latest_hash (sv_tree s) = to_hash_array (cb_hash (last chain))) \<and>
    (\<forall>polls new. polls_grow (latest_or_zero (sv_tree s)) (latest_hash (sv_tree s)) polls new \<longrightarrow> sizes_ok (length (chain_leaves chain)) new \<longrightarrow>
       (\<exists>st' s' base hist. server_polls mh xxh64 engine_setup interval polls (server_follow s) s = Inr (st', s')
          \<and> serving mh engine_setup base hist s' \<and> base @ history_leaves hist = chain_leaves (chain @ new)))"
proof -
  have l: "roots_honest mh chain roots" "\<forall>a b. block_range a b = Inr (blocks_between chain a b)" "sorted_wrt (<) (map cb_height chain)"
    "\<forall>b \<in> set chain. min_sync_height network tip \<le> cb_height b \<and> cb_height b \<le> tip" "unat tip + 10000 < 2 ^ 64"
    using lwd by (simp_all add: lwd_honest_def)
  have "unat tip + 1 < 2 ^ 64" using l(5) by simp
  from prepare_bootstraps [OF l(1-3) sizes small l(4) this]
  obtain r base hist held where r: "prepare_tree mh (Inr roots) block_range network tip limit = Inr r" "bootstrapped mh chain tip r base hist held"
    by blast
  have "initial_tree mh xxh64 (Inr roots) block_range network tip limit snapshot = Inr r" by (simp add: initial_tree_def fresh r(1))
  from server_start_serves [OF ok total l(2, 3) sizes l(5) this r(2)]
  obtain s rest where s: "server_start mh xxh64 engine_setup (Inr roots) block_range network tip limit snapshot = Some (Inr s)"
    "chain = held @ rest" "serving mh engine_setup base (hist @ map block_history rest) s" by blast
  have "base @ history_leaves hist = chain_leaves held" and "history_tip hist held" using r(2) by (simp_all add: bootstrapped_def split: prod.splits)
  then have tip: "history_tip (hist @ map block_history rest) chain" using history_tip_append s(2) by metis
  have leaves: "base @ history_leaves (hist @ map block_history rest) = chain_leaves chain"
    using \<open>base @ history_leaves hist = chain_leaves held\<close> s(2) by simp
  then have size: "tree_size (sv_tree s) = length (chain_leaves chain)" using serving_size [OF s(3)] by (metis length_append)
  have "\<exists>st' s' base hist. server_polls mh xxh64 engine_setup interval polls (server_follow s) s = Inr (st', s')
      \<and> serving mh engine_setup base hist s' \<and> base @ history_leaves hist = chain_leaves (chain @ new)"
    if grow: "polls_grow (latest_or_zero (sv_tree s)) (latest_hash (sv_tree s)) polls new" "sizes_ok (length (chain_leaves chain)) new" for polls new
  proof -
    have f: "following (latest_or_zero (sv_tree s)) (latest_hash (sv_tree s)) (server_follow s) s" using size small by (intro following_start) simp
    obtain st' s' where s': "server_polls mh xxh64 engine_setup interval polls (server_follow s) s = Inr (st', s')"
      "serving mh engine_setup base ((hist @ map block_history rest) @ map block_history new) s'"
      using polls_serve [OF ok total f s(3)] grow size by metis
    moreover have "base @ history_leaves ((hist @ map block_history rest) @ map block_history new) = chain_leaves (chain @ new)"
      using leaves by simp
    ultimately show ?thesis by blast
  qed
  moreover have "tree_at mh base (hist @ map block_history rest) (sv_tree s)" using s(3) by (simp add: serving_def)
  ultimately show ?thesis using s(1) tree_tip [OF _ tip leaves] by blast
qed

end
