(* ===== verification/Legacy_Nf_Snapshot.thy ===== *)
theory Legacy_Nf_Snapshot
  imports Legacy_Nullifiers
begin

text \<open>
  The snapshot of the nullifier table, \<open>nullifier/hashtable-pir/src/snapshot.rs\<close>: the bytes \<open>to_snapshot\<close> writes, the parser with every error, and
  that a restart brings back a table for the same blocks. The checksum xxHash64 is a parameter.
\<close>

definition NF_SNAPSHOT_MAGIC :: u64 where "NF_SNAPSHOT_MAGIC = 0x5350454E44504952"
definition NF_SNAPSHOT_VERSION :: u32 where "NF_SNAPSHOT_VERSION = 3"

section \<open>Writing\<close>

definition encode_slot :: "nat \<times> nat \<Rightarrow> bytes" where
  "encode_slot = (\<lambda>(bucket_idx, slot_idx). u32_le (of_nat bucket_idx) @ [of_nat slot_idx, 0])"

definition encode_nf_block :: "u64 \<times> nf_block \<Rightarrow> bytes" where
  "encode_nf_block = (\<lambda>(height, r). u64_le height @ nb_block_hash r @ u32_le (of_nat (length (nb_slots r))) @ concat (map encode_slot (nb_slots r)))"

definition nf_snapshot_payload :: "hash_table \<Rightarrow> bytes" where
  "nf_snapshot_payload db =
     u64_le NF_SNAPSHOT_MAGIC @ u32_le NF_SNAPSHOT_VERSION
     @ u64_le (case ht_latest_height db of Some h \<Rightarrow> h | None \<Rightarrow> 0)
     @ u64_le (case ht_latest_height db of Some h \<Rightarrow> h | None \<Rightarrow> 0)
     @ (case ht_latest_block_hash db of Some h \<Rightarrow> h | None \<Rightarrow> replicate 32 0)
     @ u64_le (of_nat (ht_num_entries db)) @ u64_le (of_nat (length (ht_block_index db)))
     @ concat (map encode_nf_block (ht_block_index db)) @ to_pir_bytes db"

definition nf_to_snapshot :: "(bytes \<Rightarrow> u64) \<Rightarrow> hash_table \<Rightarrow> bytes" where
  "nf_to_snapshot xxh64 db = nf_snapshot_payload db @ u64_le (xxh64 (nf_snapshot_payload db))"

section \<open>Reading\<close>

definition nf_take :: "string \<Rightarrow> nat \<Rightarrow> (bytes, ht_error, bytes) step" where
  "nf_take reason n s = (if n \<le> length s then Inr (take n s, drop n s) else Inl (Snapshot reason))"

definition nf_u64 :: "(bytes, ht_error, u64) step" where
  "nf_u64 = sbind (nf_take ''unexpected EOF'' 8) (\<lambda>b. sreturn (of_nat (le_val b)))"

definition nf_u32 :: "(bytes, ht_error, u32) step" where
  "nf_u32 = sbind (nf_take ''unexpected EOF'' 4) (\<lambda>b. sreturn (of_nat (le_val b)))"

definition read_slot :: "(bytes, ht_error, nat \<times> nat) step" where
  "read_slot = sbind nf_u32 (\<lambda>bucket_idx. sbind (nf_take ''unexpected EOF'' 2) (\<lambda>b. sreturn (unat bucket_idx, unat (b ! 0))))"

definition read_nf_block :: "(bytes, ht_error, u64 \<times> nf_block) step" where
  "read_nf_block =
     sbind nf_u64 (\<lambda>height.
     sbind (nf_take ''unexpected EOF'' 32) (\<lambda>block_hash.
     sbind nf_u32 (\<lambda>num_slots.
     sbind (srepeat (unat num_slots) read_slot) (\<lambda>slots.
     sreturn (height, \<lparr> nb_block_hash = block_hash, nb_slots = slots \<rparr>)))))"

definition bucket_of_bytes :: "bytes \<Rightarrow> nf_bucket" where
  "bucket_of_bytes bs =
     (let entries = map ne_from_bytes (chunks_exact BUCKET_CAPACITY ENTRY_BYTES bs)
      in \<lparr> bk_entries = entries,
           bk_count = (case find (\<lambda>j. \<not> ne_is_empty (entries ! j)) (rev [0..<BUCKET_CAPACITY]) of Some j \<Rightarrow> j + 1 | None \<Rightarrow> 0) \<rparr>)"

definition nf_parse :: "(bytes, ht_error, hash_table) step" where
  "nf_parse =
     sbind nf_u64 (\<lambda>magic.
     sbind (sguard (magic = NF_SNAPSHOT_MAGIC) (Snapshot ''bad magic'')) (\<lambda>_.
     sbind nf_u32 (\<lambda>version.
     sbind (sguard (version = NF_SNAPSHOT_VERSION)
       (Snapshot (if version < NF_SNAPSHOT_VERSION then ''unsupported snapshot version (an Orchard-era dataset)'' else ''unsupported snapshot version''))) (\<lambda>_.
     sbind nf_u64 (\<lambda>_.
     sbind nf_u64 (\<lambda>_.
     sbind (nf_take ''unexpected EOF'' 32) (\<lambda>_.
     sbind nf_u64 (\<lambda>num_entries.
     sbind nf_u64 (\<lambda>num_blocks.
     sbind (srepeat (unat num_blocks) read_nf_block) (\<lambda>blocks.
     sbind (nf_take ''bucket data truncated'' (NUM_BUCKETS * BUCKET_BYTES)) (\<lambda>buckets.
     sreturn
       \<lparr> ht_buckets = map bucket_of_bytes (chunks_exact NUM_BUCKETS BUCKET_BYTES buckets),
         ht_block_index = fold (\<lambda>(height, r). bt_insert height r) blocks [],
         ht_hash_to_height = fold (\<lambda>(height, r) m. m(nb_block_hash r \<mapsto> height)) blocks Map.empty,
         ht_num_entries = unat num_entries \<rparr>)))))))))))"

definition nf_from_snapshot :: "(bytes \<Rightarrow> u64) \<Rightarrow> bytes \<Rightarrow> ht_error + hash_table" where
  "nf_from_snapshot xxh64 bs =
     (if length bs < 8 + 4 + 8 + 8 + 32 + 8 + 8 + NUM_BUCKETS * BUCKET_BYTES + 8 then Inl (Snapshot ''data too short'')
      else let payload = take (length bs - 8) bs in
        if of_nat (le_val (drop (length bs - 8) bs)) \<noteq> xxh64 payload then Inl (Snapshot ''checksum mismatch'')
        else map_sum id fst (nf_parse payload))"

section \<open>Reading back\<close>

interpretation nf: byte_cursor "\<lambda>_. True" "\<lambda>s. s" "nf_take reason"
  by unfold_locales (auto simp: nf_take_def split: if_splits)

lemma nf_take_append [simp]: "length bs = n \<Longrightarrow> nf_take reason n (bs @ r) = Inr (bs, r)"
  by (auto simp: nf_take_def)

lemma nf_word_append [simp]: "nf_u64 (le_bytes 8 v @ r) = Inr (of_nat v, r)" "nf_u32 (le_bytes 4 v @ r) = Inr (of_nat v, r)"
  by (simp_all add: nf_u64_def nf_u32_def sbind_def le_val_le_bytes)

lemma read_slot_append: "in_range p \<Longrightarrow> read_slot (encode_slot p @ r) = Inr (p, r)"
  by (cases p) (simp add: read_slot_def encode_slot_def sbind_def in_range_def NUM_BUCKETS_def BUCKET_CAPACITY_def unat_of_nat_small nf_take_def)

lemma read_nf_block_append:
  assumes "length (nb_block_hash b) = 32" and "length (nb_slots b) < 2 ^ 32" and "\<forall>p \<in> set (nb_slots b). in_range p"
  shows "read_nf_block (encode_nf_block (height, b) @ r) = Inr ((height, b), r)"
proof -
  have "srepeat (length (nb_slots b)) read_slot (concat (map encode_slot (nb_slots b)) @ r) = Inr (nb_slots b, r)"
    using assms(3) by (intro srepeat_concat) (simp add: read_slot_append)
  moreover have "unat (of_nat (length (nb_slots b)) :: u32) = length (nb_slots b)" using assms(2) by (simp add: unat_of_nat_small)
  ultimately show ?thesis using assms(1) by (simp add: read_nf_block_def encode_nf_block_def sbind_def)
qed

text \<open>The buckets come back entry by entry; only the hint \<open>count\<close>, which no operation reads, is computed anew.\<close>

lemma bucket_of_bytes_entries:
  assumes "length es = BUCKET_CAPACITY" and "\<forall>e \<in> set es. length (ne_nullifier e) = 32"
  shows "bk_entries (bucket_of_bytes (concat (map ne_to_bytes es))) = es"
proof -
  have "\<forall>x \<in> set (map ne_to_bytes es). length x = ENTRY_BYTES" using assms(2) by (auto simp: length_ne_to_bytes)
  from chunks_exact_concat [OF this] show ?thesis
    using assms by (simp add: bucket_of_bytes_def Let_def map_idI ne_roundtrip)
qed

lemma length_bucket_bytes:
  assumes "length es = BUCKET_CAPACITY" and "\<forall>e \<in> set es. length (ne_nullifier e) = 32"
  shows "length (concat (map ne_to_bytes es)) = BUCKET_BYTES"
proof -
  have "\<forall>x \<in> set (map ne_to_bytes es). length x = ENTRY_BYTES" using assms(2) by (auto simp: length_ne_to_bytes)
  from length_concat_const [OF this] show ?thesis using assms(1) by (simp add: BUCKET_BYTES_def)
qed

lemma buckets_read_back:
  assumes "shape (ht_buckets db)" and "\<forall>b \<in> set (ht_buckets db). \<forall>e \<in> set (bk_entries b). length (ne_nullifier e) = 32"
  shows "length (to_pir_bytes db) = NUM_BUCKETS * BUCKET_BYTES"
    and "map bk_entries (map bucket_of_bytes (chunks_exact NUM_BUCKETS BUCKET_BYTES (to_pir_bytes db))) = map bk_entries (ht_buckets db)"
proof -
  let ?rows = "map (\<lambda>b. concat (map ne_to_bytes (bk_entries b))) (ht_buckets db)"
  have n: "length ?rows = NUM_BUCKETS" using assms(1) by (simp add: shape_def)
  have const: "\<forall>x \<in> set ?rows. length x = BUCKET_BYTES" using assms by (auto simp: shape_def length_bucket_bytes)
  from length_concat_const [OF const] n show "length (to_pir_bytes db) = NUM_BUCKETS * BUCKET_BYTES" by (simp add: to_pir_bytes_def)
  have "chunks_exact NUM_BUCKETS BUCKET_BYTES (to_pir_bytes db) = ?rows"
    unfolding to_pir_bytes_def n [symmetric] by (rule chunks_exact_concat [OF const])
  then show "map bk_entries (map bucket_of_bytes (chunks_exact NUM_BUCKETS BUCKET_BYTES (to_pir_bytes db))) = map bk_entries (ht_buckets db)"
    using assms by (auto simp: shape_def bucket_of_bytes_entries)
qed

lemma cells_ok_entries: "map bk_entries bs = map bk_entries bs' \<Longrightarrow> cells_ok bs owned = cells_ok bs' owned"
proof -
  assume eq: "map bk_entries bs = map bk_entries bs'"
  then have len: "length bs = length bs'" by (metis length_map)
  have same: "i < length bs \<Longrightarrow> bk_entries (bs ! i) = bk_entries (bs' ! i)" for i using eq len by (metis nth_map)
  have "shape x \<longleftrightarrow> length (map bk_entries x) = NUM_BUCKETS \<and> (\<forall>es \<in> set (map bk_entries x). length es = BUCKET_CAPACITY)" for x
    by (simp add: shape_def)
  then have "shape bs = shape bs'" by (simp only: eq)
  moreover have "shape bs' \<Longrightarrow> in_range p \<Longrightarrow> cell bs p = cell bs' p" for p using same len by (auto simp: cell_def in_range_def shape_def)
  ultimately show ?thesis unfolding cells_ok_def by (auto 0 4)
qed

lemma fold_bt_insert: "bt_ok (xs @ ys) \<Longrightarrow> fold (\<lambda>(height, r). bt_insert height r) ys xs = xs @ ys" for ys :: "(u64 \<times> nf_block) list"
proof (induction ys arbitrary: xs)
  case (Cons y ys)
  obtain h b where y: "y = (h, b)" by (cases y)
  have "bt_insert h b xs = xs @ [(h, b)]" if "bt_ok (xs @ (h, b) # ys)" for xs using that by (induction xs) auto
  then show ?case using Cons.IH [of "xs @ [y]"] Cons.prems by (simp add: y)
qed simp

lemma fold_hashes:
  "fold (\<lambda>(height, r) m. m(nb_block_hash r \<mapsto> height)) bs m = m ++ map_of (rev (map (\<lambda>(height, r). (nb_block_hash r, height)) bs))"
  by (induction bs arbitrary: m) (auto simp: map_add_def fun_eq_iff split: option.splits)

lemma index_hashes: "map (\<lambda>(height, r). (nb_block_hash r, height)) (index_of l) = hashes_of l"
  by (simp add: index_of_def hashes_of_def comp_def case_prod_unfold)

lemma map_of_rev_distinct: "distinct (map fst xs) \<Longrightarrow> map_of (rev xs) = map_of xs"
  by (rule map_of_same_set) (simp_all add: rev_map [symmetric])

lemma table_entry_lengths:
  assumes "cells_ok bs owned" and "\<forall>(p, e) \<in> set owned. length (ne_nullifier e) = 32"
  shows "\<forall>b \<in> set bs. \<forall>e \<in> set (bk_entries b). length (ne_nullifier e) = 32"
proof (intro ballI)
  fix b e assume "b \<in> set bs" "e \<in> set (bk_entries b)"
  then obtain i j where "i < length bs" "b = bs ! i" "j < length (bk_entries b)" "e = bk_entries b ! j" by (metis in_set_conv_nth)
  moreover have "shape bs" using assms(1) by (simp add: cells_ok_def)
  ultimately have p: "in_range (i, j)" "cell bs (i, j) = e" by (auto simp: in_range_def shape_def cell_def)
  show "length (ne_nullifier e) = 32"
  proof (cases "ne_is_empty e")
    case False
    then obtain e' where "((i, j), e') \<in> set owned" using cells_ok_used [OF assms(1) p(1)] p(2) by auto
    then show ?thesis using cells_ok_entry [OF assms(1)] assms(2) p(2) by fastforce
  qed (simp add: ne_is_empty_def ZERO_NF_def)
qed

lemma parse_nf_payload:
  assumes ok: "ht_ok db l" and lens: "\<forall>(p, e) \<in> set (owned_of l). length (ne_nullifier e) = 32"
    and hashes: "\<forall>(h, hash, own) \<in> set l. length hash = 32 \<and> length own < 2 ^ 32" and small: "length (owned_of l) < 2 ^ 64" "length l < 2 ^ 64"
  shows "\<exists>db'. nf_parse (nf_snapshot_payload db) = Inr (db', []) \<and> ht_ok db' l \<and> to_pir_bytes db' = to_pir_bytes db
    \<and> 8 + 4 + 8 + 8 + 32 + 8 + 8 + NUM_BUCKETS * BUCKET_BYTES \<le> length (nf_snapshot_payload db)"
proof -
  let ?bs = "ht_block_index db" and ?db' = "db \<lparr> ht_buckets := map bucket_of_bytes (chunks_exact NUM_BUCKETS BUCKET_BYTES (to_pir_bytes db)) \<rparr>"
  have c: "cells_ok (ht_buckets db) (owned_of l)" "?bs = index_of l" "bt_ok l" "ht_num_entries db = length (owned_of l)"
    "distinct (map fst (hashes_of l))" "ht_hash_to_height db = map_of (hashes_of l)"
    using ok by (simp_all add: ht_ok_def)
  have shape: "shape (ht_buckets db)" using c(1) by (simp add: cells_ok_def)
  note again = buckets_read_back [OF shape table_entry_lengths [OF c(1) lens]]
  have slots: "in_range p" if "(h, hash, own) \<in> set l" "p \<in> fst ` set own" for h hash own p
    using that cells_ok_entry [OF c(1)] by (fastforce simp: owned_of_def)
  have blocks: "srepeat (length ?bs) read_nf_block (concat (map encode_nf_block ?bs) @ r) = Inr (?bs, r)" for r
    by (rule srepeat_concat) (use hashes slots in \<open>auto simp: c(2) index_of_def intro!: read_nf_block_append\<close>)
  have index: "fold (\<lambda>(height, r). bt_insert height r) ?bs [] = ?bs"
    using fold_bt_insert [of "[]" ?bs] c(2, 3) by (simp add: bt_ok_def index_of_def comp_def case_prod_unfold)
  have heights: "fold (\<lambda>(height, r) m. m(nb_block_hash r \<mapsto> height)) ?bs Map.empty = ht_hash_to_height db"
    using map_of_rev_distinct [OF c(5)] by (simp add: fold_hashes c(2, 6) index_hashes)
  have hash: "length (case ht_latest_block_hash db of Some h \<Rightarrow> h | None \<Rightarrow> replicate 32 (0 :: u8)) = 32"
  proof (cases "l = []")
    case False
    obtain h hash own where x: "last l = (h, hash, own)" by (cases "last l")
    then have "(h, hash, own) \<in> set l" using last_in_set [OF False] by simp
    then show ?thesis using hashes False x by (auto simp: ht_latest_block_hash_def c(2) index_of_def last_map)
  qed (simp add: ht_latest_block_hash_def c(2) index_of_def)
  have words: "unat (of_nat (ht_num_entries db) :: u64) = ht_num_entries db" "unat (of_nat (length ?bs) :: u64) = length ?bs"
    using small by (simp_all add: c(2, 4) index_of_def unat_of_nat_small)
  have pir: "to_pir_bytes ?db' = to_pir_bytes db"
    using again(2) by (simp add: to_pir_bytes_def flip: map_map [of "\<lambda>es. concat (map ne_to_bytes es)" bk_entries, unfolded comp_def])
  have "nf_parse (nf_snapshot_payload db) = Inr (?db', [])"
    using nf_take_append [OF again(1), of _ "[]"] by (simp add: nf_parse_def nf_snapshot_payload_def sbind_def hash words blocks index heights)
  moreover have "ht_ok ?db' l" using ok cells_ok_entries [OF again(2), of "owned_of l"] by (simp add: ht_ok_def)
  moreover have "8 + 4 + 8 + 8 + 32 + 8 + 8 + NUM_BUCKETS * BUCKET_BYTES \<le> length (nf_snapshot_payload db)"
    using again(1) hash by (simp add: nf_snapshot_payload_def)
  ultimately show ?thesis using pir by blast
qed

text \<open>
  A restart keeps the table: from the snapshot of a table that stands for the blocks \<open>s\<close>, \<open>from_snapshot\<close> makes a table that stands for the same
  blocks and serves the same rows, so that every later insertion, rollback and eviction acts on it alike.
\<close>

lemma nf_snapshot_restart:
  assumes rep: "ht_rep db s" and lens: "\<forall>(h, hash, es) \<in> set s. length hash = 32 \<and> length es < 2 ^ 32 \<and> (\<forall>e \<in> set es. length (ne_nullifier e) = 32)"
    and small: "length (blocks_entries s) < 2 ^ 64" "length s < 2 ^ 64"
  shows "\<exists>db'. nf_from_snapshot xxh64 (nf_to_snapshot xxh64 db) = Inr db' \<and> ht_rep db' s \<and> to_pir_bytes db' = to_pir_bytes db"
proof -
  obtain l where l: "ht_ok db l" "s = map (\<lambda>(h, hash, own). (h, hash, map snd own)) l" using rep by (auto simp: ht_rep_def)
  have entries: "map snd (owned_of l) = blocks_entries s"
    by (simp add: blocks_entries_def owned_of_def l(2) map_concat comp_def case_prod_unfold)
  have "\<forall>(p, e) \<in> set (owned_of l). length (ne_nullifier e) = 32" "\<forall>(h, hash, own) \<in> set l. length hash = 32 \<and> length own < 2 ^ 32"
    using lens by (fastforce simp: l(2) owned_of_def)+
  moreover have "length (owned_of l) < 2 ^ 64" "length l < 2 ^ 64" using small arg_cong [OF entries, of length] l(2) by simp_all
  ultimately obtain db' where db': "nf_parse (nf_snapshot_payload db) = Inr (db', [])" "ht_ok db' l" "to_pir_bytes db' = to_pir_bytes db"
    "8 + 4 + 8 + 8 + 32 + 8 + 8 + NUM_BUCKETS * BUCKET_BYTES \<le> length (nf_snapshot_payload db)"
    using parse_nf_payload [OF l(1)] by blast
  show ?thesis using db' l(2) by (auto simp: nf_from_snapshot_def nf_to_snapshot_def Let_def ht_rep_def)
qed

text \<open>A snapshot of another version, in particular one of the earlier pool, is refused.\<close>

lemma nf_other_version:
  "version \<noteq> NF_SNAPSHOT_VERSION \<Longrightarrow> \<exists>reason. nf_parse (u64_le NF_SNAPSHOT_MAGIC @ u32_le version @ rest) = Inl (Snapshot reason)"
  by (simp add: nf_parse_def sbind_def sguard_def)

end
