(* ===== verification/Nullifier_Server.thy ===== *)
theory Nullifier_Server
  imports Legacy_Sync Legacy_Nf_Snapshot
begin

text \<open>
  The nullifier server of the legacy spendability demo, \<open>nullifier/spend-server/src/server.rs\<close> with \<open>state.rs\<close>: a snapshot or an empty
  table, the sync to the tip, the backfill of earlier batches until there are enough nullifiers, the eviction down to the
  target, the first published rows and the event loop that follows. The engine, the checksum and the answers of lightwalletd are
  parameters; what an event does to the table is in \<open>Legacy_Chain\<close>. The progress phases reported while syncing and the errors of connecting and of writing the
  snapshot file are left out.
\<close>

section \<open>The start\<close>

definition BACKFILL_BATCH :: u64 where "BACKFILL_BATCH = 50000"

fun nf_apply :: "nf_event list \<Rightarrow> hash_table \<Rightarrow> (ht_error + unit) \<times> hash_table" where
  "nf_apply [] db = (Inr (), db)"
| "nf_apply (N_NewBlock height hash prev_hash ns # evs) db =
     (case insert_block height hash ns db of (Inl e, db) \<Rightarrow> (Inl e, db) | (Inr _, db) \<Rightarrow> nf_apply evs db)"
| "nf_apply (N_Reorg orphaned new_blocks # evs) db = nf_apply evs db"

definition nf_sync_range ::
  "(u64 \<Rightarrow> u64 \<Rightarrow> string + compact_block list) \<Rightarrow> u64 \<Rightarrow> u64 \<Rightarrow> hash_table \<Rightarrow> u32 option \<Rightarrow> ((ht_error + unit) \<times> hash_table) option" where
  "nf_sync_range block_range from to db initial_tree_size =
     (if from > to then Some (Inr (), db)
      else Option.bind (nf_sync block_range from to initial_tree_size) (\<lambda>(evs, res). Some (nf_apply evs db)))"

partial_function (option) backfill ::
  "(u64 \<Rightarrow> u64 \<Rightarrow> string + compact_block list) \<Rightarrow> u64 \<Rightarrow> nat \<Rightarrow> u64 \<Rightarrow> hash_table \<Rightarrow> ((ht_error + unit) \<times> hash_table) option" where
  "backfill block_range floor wanted_size backfill_end db =
     (if ht_num_entries db < wanted_size \<and> backfill_end \<ge> floor then
        let backfill_start = max (saturating_sub backfill_end (BACKFILL_BATCH - 1)) floor in
        Option.bind (nf_sync_range block_range backfill_start backfill_end db None) (\<lambda>(res, db).
          case res of
            Inl e \<Rightarrow> Some (Inl e, db)
          | Inr _ \<Rightarrow>
              if backfill_start = floor then Some (Inr (), db)
              else backfill block_range floor wanted_size (saturating_sub backfill_start 1) db)
      else Some (Inr (), db))"

datatype nf_server_error = Nf_HashTable ht_error | Nf_PirSetup string

record spendability_metadata =
  sb_earliest_height :: u64
  sb_latest_height :: u64
  sb_num_nullifiers :: nat
  sb_num_buckets :: nat
  sb_phase :: server_phase
  sb_pool :: string

record 's nf_pir_state =
  np_engine_state :: 's
  np_metadata :: spendability_metadata

record 's nf_server =
  ns_table :: hash_table
  ns_live_pir :: "'s nf_pir_state"
  ns_phase :: server_phase
  ns_snapshot :: bytes
  ns_blocks_since_snapshot :: u64

definition nf_rebuild_pir :: "(bytes \<Rightarrow> string + 's) \<Rightarrow> hash_table \<Rightarrow> nf_server_error + 's nf_pir_state" where
  "nf_rebuild_pir engine_setup db =
     bindR (map_err Nf_PirSetup (engine_setup (to_pir_bytes db))) (\<lambda>engine_state.
     Inr \<lparr> np_engine_state = engine_state,
           np_metadata = \<lparr> sb_earliest_height = (case ht_earliest_height db of Some h \<Rightarrow> h | None \<Rightarrow> 0),
             sb_latest_height = (case ht_latest_height db of Some h \<Rightarrow> h | None \<Rightarrow> 0), sb_num_nullifiers = ht_num_entries db,
             sb_num_buckets = NUM_BUCKETS, sb_phase = Serving, sb_pool = ''ironwood'' \<rparr> \<rparr>)"

definition nf_load :: "(bytes \<Rightarrow> u64) \<Rightarrow> bytes option \<Rightarrow> hash_table \<times> bool" where
  "nf_load xxh64 snapshot =
     (case bindR (ok_or (Snapshot ''io'') snapshot) (nf_from_snapshot xxh64) of Inr db \<Rightarrow> (db, True) | Inl _ \<Rightarrow> (ht_new, False))"

definition forward_start :: "bool \<Rightarrow> u64 \<Rightarrow> u64 \<Rightarrow> hash_table \<Rightarrow> u64" where
  "forward_start from_snapshot tip_height floor db =
     (if from_snapshot then (case ht_latest_height db of Some h \<Rightarrow> h + 1 | None \<Rightarrow> tip_height)
      else max (saturating_sub tip_height BACKFILL_BATCH) floor)"

definition nf_fill ::
  "(u64 \<Rightarrow> u64 \<Rightarrow> string + compact_block list) \<Rightarrow> u64 \<Rightarrow> u64 \<Rightarrow> nat \<Rightarrow> hash_table \<times> bool \<Rightarrow> ((ht_error + unit) \<times> hash_table) option" where
  "nf_fill block_range floor tip_height wanted_size = (\<lambda>(db, from_snapshot).
     let start = forward_start from_snapshot tip_height floor db in
     Option.bind (if start \<le> tip_height then nf_sync_range block_range start tip_height db None else Some (Inr (), db)) (\<lambda>(res, db).
       case res of
         Inl e \<Rightarrow> Some (Inl e, db)
       | Inr _ \<Rightarrow> if from_snapshot then Some (Inr (), db) else backfill block_range floor wanted_size (saturating_sub start 1) db))"

definition nf_server_start ::
  "(bytes \<Rightarrow> u64) \<Rightarrow> (bytes \<Rightarrow> string + 's) \<Rightarrow> (u64 \<Rightarrow> u64 \<Rightarrow> string + compact_block list) \<Rightarrow> zcash_network option \<Rightarrow> u64 \<Rightarrow> nat \<Rightarrow> bytes option
     \<Rightarrow> (nf_server_error + 's nf_server) option" where
  "nf_server_start xxh64 engine_setup block_range network tip_height wanted_size snapshot =
     Option.bind (nf_fill block_range (min_sync_height network tip_height) tip_height wanted_size (nf_load xxh64 snapshot)) (\<lambda>(res, db).
     case res of
       Inl e \<Rightarrow> Some (Inl (Nf_HashTable e))
     | Inr _ \<Rightarrow>
         (let saved = nf_to_snapshot xxh64 db in
          case evict_to_target db of
            (Inl e, db) \<Rightarrow> Some (Inl (Nf_HashTable e))
          | (Inr _, db) \<Rightarrow>
              Some (bindR (nf_rebuild_pir engine_setup db) (\<lambda>pir_state. Inr \<lparr> ns_table = db, ns_live_pir = pir_state, ns_phase = Serving, ns_snapshot = saved, ns_blocks_since_snapshot = 0 \<rparr>))))"

text \<open>Follow mode: where it starts, and the handling of the events one at a time.\<close>

definition nf_follow_start :: "'s nf_server \<Rightarrow> follow_state" where
  "nf_follow_start s =
     follow_start (case ht_latest_height (ns_table s) of Some h \<Rightarrow> h | None \<Rightarrow> 0)
       (case ht_latest_block_hash (ns_table s) of Some h \<Rightarrow> h | None \<Rightarrow> replicate 32 0) None"

definition nf_serve_event ::
  "(bytes \<Rightarrow> u64) \<Rightarrow> (bytes \<Rightarrow> string + 's) \<Rightarrow> u64 \<Rightarrow> nf_event \<Rightarrow> 's nf_server \<Rightarrow> nf_server_error + 's nf_server" where
  "nf_serve_event xxh64 engine_setup snapshot_interval ev s =
     (case nf_handle ev (ns_table s) of
        (Inl e, db) \<Rightarrow> Inl (Nf_HashTable e)
      | (Inr _, db) \<Rightarrow>
          bindR (nf_rebuild_pir engine_setup db) (\<lambda>pir_state.
            let since = ns_blocks_since_snapshot s + 1; s = s \<lparr> ns_table := db, ns_live_pir := pir_state, ns_blocks_since_snapshot := since \<rparr> in
            Inr (if since \<ge> snapshot_interval then s \<lparr> ns_snapshot := nf_to_snapshot xxh64 db, ns_blocks_since_snapshot := 0 \<rparr> else s)))"

definition nf_serve_events ::
  "(bytes \<Rightarrow> u64) \<Rightarrow> (bytes \<Rightarrow> string + 's) \<Rightarrow> u64 \<Rightarrow> nf_event list \<Rightarrow> 's nf_server \<Rightarrow> nf_server_error + 's nf_server" where
  "nf_serve_events xxh64 engine_setup snapshot_interval evs s = foldR (nf_serve_event xxh64 engine_setup snapshot_interval) evs s"

section \<open>Room in the buckets\<close>

definition bucket_load :: "nat \<Rightarrow> bytes list \<Rightarrow> nat" where
  "bucket_load i nfs = length (filter (\<lambda>nf. hash_to_bucket nf = i) nfs)"

lemma bucket_load_append [simp]: "bucket_load i (xs @ ys) = bucket_load i xs + bucket_load i ys"
  by (simp add: bucket_load_def)

lemma free_slot_exists:
  assumes ok: "cells_ok bs owned" and i: "i < NUM_BUCKETS" and load: "bucket_load i (map (ne_nullifier \<circ> snd) owned) < BUCKET_CAPACITY"
  shows "find_free_slot (bs ! i) \<noteq> None"
proof
  assume "find_free_slot (bs ! i) = None"
  then have full: "(i, s) \<in> fst ` set owned" if "s < BUCKET_CAPACITY" for s
    using that i cells_ok_used [OF ok, of "(i, s)"] by (auto simp: find_free_slot_None cell_def in_range_def)
  let ?mine = "filter (\<lambda>x. hash_to_bucket (ne_nullifier (snd x)) = i) owned"
  have "Pair i ` {..<BUCKET_CAPACITY} \<subseteq> fst ` set ?mine"
  proof
    fix p assume "p \<in> Pair i ` {..<BUCKET_CAPACITY}"
    then obtain s e where p: "p = (i, s)" "(p, e) \<in> set owned" using full by fastforce
    then have "hash_to_bucket (ne_nullifier e) = i" using cells_ok_entry [OF ok p(2)] by simp
    then show "p \<in> fst ` set ?mine" using p(2) by force
  qed
  from card_mono [OF _ this] have "BUCKET_CAPACITY \<le> card (fst ` set ?mine)" by (simp add: card_image inj_on_def)
  also have "\<dots> \<le> length ?mine" using card_image_le [of "set ?mine" fst] card_length [of ?mine] by simp
  finally show False using load by (simp add: bucket_load_def filter_map comp_def)
qed

lemma insert_fits:
  assumes "cells_ok (ht_buckets db) owned" and "\<forall>n \<in> set ns. nm_nullifier n \<noteq> ZERO_NF"
    and "\<forall>i. bucket_load i (map (ne_nullifier \<circ> snd) owned @ map nm_nullifier ns) \<le> BUCKET_CAPACITY"
  shows "\<exists>slots' db'. insert_nullifiers sh ns slots db = (Inr slots', db')"
  using assms
proof (induction sh ns slots db arbitrary: owned rule: insert_nullifiers.induct)
  case (2 sh nwm rest slots db)
  let ?i = "hash_to_bucket (nm_nullifier nwm)" and ?e = "entry_of sh nwm"
  have "bucket_load ?i (map (ne_nullifier \<circ> snd) owned) < BUCKET_CAPACITY"
    using "2.prems"(3) [rule_format, of ?i] by (simp add: bucket_load_def)
  from free_slot_exists [OF "2.prems"(1) hash_to_bucket_range this]
  obtain s where Some: "find_free_slot (ht_buckets db ! ?i) = Some s" by blast
  have e: "\<not> ne_is_empty ?e" "?i = hash_to_bucket (ne_nullifier ?e)" using "2.prems"(2) by (simp_all add: ne_is_empty_def entry_of_def)
  have cells: "cells_ok (ht_buckets (ht_put ?i s ?e db)) (owned @ [((?i, s), ?e)])"
    unfolding ht_buckets_put
    by (rule cells_ok_write [OF "2.prems"(1) _ _ e]) (use find_free_slot_Some [OF Some] in \<open>auto simp: in_range_def hash_to_bucket_range cell_def\<close>)
  have "bucket_load i (map (ne_nullifier \<circ> snd) (owned @ [((?i, s), ?e)]) @ map nm_nullifier rest)
      = bucket_load i (map (ne_nullifier \<circ> snd) owned @ map nm_nullifier (nwm # rest))" for i
    by (simp add: bucket_load_def entry_of_def)
  then have "\<forall>i. bucket_load i (map (ne_nullifier \<circ> snd) (owned @ [((?i, s), ?e)]) @ map nm_nullifier rest) \<le> BUCKET_CAPACITY"
    using "2.prems"(3) by (simp only: simp_thms)
  from "2.IH" [OF refl Some cells _ this] "2.prems"(2) Some show ?case by (simp add: Let_def)
qed simp

text \<open>A block whose nullifiers have room goes in, and the table then stands for the blocks with it.\<close>

definition block_nfs :: "nf_blocks \<Rightarrow> bytes list" where
  "block_nfs s = map ne_nullifier (blocks_entries s)"

lemma insert_block_fits:
  assumes rep: "ht_rep db s" and fresh: "height \<notin> fst ` set s" "block_hash \<notin> (fst \<circ> snd) ` set s" and nz: "\<forall>n \<in> set ns. nm_nullifier n \<noteq> ZERO_NF"
    and room: "\<forall>i. bucket_load i (block_nfs s @ map nm_nullifier ns) \<le> BUCKET_CAPACITY"
  shows "\<exists>db'. insert_block height block_hash ns db = (Inr (), db') \<and> ht_rep db' (spec_insert height block_hash ns s)"
proof -
  obtain l where l: "ht_ok db l" "s = map (\<lambda>(h, hash, own). (h, hash, map snd own)) l" using rep by (auto simp: ht_rep_def)
  have "map snd (owned_of l) = blocks_entries s"
    by (simp add: blocks_entries_def owned_of_def l(2) map_concat comp_def case_prod_unfold)
  then have nfs: "map (ne_nullifier \<circ> snd) (owned_of l) = block_nfs s" by (metis block_nfs_def map_map)
  have "cells_ok (ht_buckets db) (owned_of l)" using l(1) by (simp add: ht_ok_def)
  from insert_fits [OF this nz] room nfs
  obtain slots' db1 where "insert_nullifiers (ucast height) ns [] db = (Inr slots', db1)" by metis
  then obtain db' where run: "insert_block height block_hash ns db = (Inr (), db')" by (auto simp: insert_block_def)
  then show ?thesis using insert_block_rep [OF rep fresh nz] by blast
qed

section \<open>The table of a chain\<close>

text \<open>
  A table holds a list of compact blocks: their heights, hashes and nullifiers, each with the height of its block, in the order of the heights.
\<close>

definition table_view :: "nf_blocks \<Rightarrow> (u64 \<times> bytes \<times> (bytes \<times> u32) list) list" where
  "table_view s = map (\<lambda>(h, hash, es). (h, hash, map (\<lambda>e. (ne_nullifier e, ne_spend_height e)) es)) s"

definition chain_view :: "compact_block list \<Rightarrow> (u64 \<times> bytes \<times> (bytes \<times> u32) list) list" where
  "chain_view blocks = map (\<lambda>b. (cb_height b, to_hash_array (cb_hash b), map (\<lambda>nf. (nf, ucast (cb_height b))) (extract_nullifiers b))) blocks"

definition holds :: "hash_table \<Rightarrow> compact_block list \<Rightarrow> bool" where
  "holds db blocks \<longleftrightarrow> (\<exists>s. ht_rep db s \<and> table_view s = chain_view blocks)"

definition chain_nfs :: "compact_block list \<Rightarrow> bytes list" where
  "chain_nfs blocks = concat (map extract_nullifiers blocks)"

definition nf_chain_ok :: "compact_block list \<Rightarrow> bool" where
  "nf_chain_ok blocks \<longleftrightarrow> sorted_wrt (<) (map cb_height blocks) \<and> distinct (map (to_hash_array \<circ> cb_hash) blocks) \<and> ZERO_NF \<notin> set (chain_nfs blocks)
     \<and> (\<forall>i. bucket_load i (chain_nfs blocks) \<le> BUCKET_CAPACITY)"

lemma chain_nfs_simps [simp]:
  "chain_nfs [] = []" "chain_nfs (b # bs) = extract_nullifiers b @ chain_nfs bs" "chain_nfs (xs @ ys) = chain_nfs xs @ chain_nfs ys"
  by (simp_all add: chain_nfs_def)

lemma nf_chain_ok_filter:
  assumes "nf_chain_ok blocks"
  shows "nf_chain_ok (filter P blocks)"
proof -
  have load: "bucket_load i (chain_nfs (filter P blocks)) \<le> bucket_load i (chain_nfs blocks)" for i by (induction blocks) auto
  have sorted: "sorted_wrt (<) (map cb_height (filter P blocks))"
    using assms unfolding nf_chain_ok_def sorted_wrt_map by (simp add: sorted_wrt_filter)
  have "distinct (map (to_hash_array \<circ> cb_hash) (filter P blocks))" using assms by (simp add: nf_chain_ok_def distinct_map_filter)
  moreover have "set (chain_nfs (filter P blocks)) \<subseteq> set (chain_nfs blocks)" by (auto simp: chain_nfs_def)
  ultimately show ?thesis using assms load sorted unfolding nf_chain_ok_def by (meson le_trans subsetD)
qed

lemma view_eqD:
  assumes "table_view s = chain_view blocks"
  shows "map fst s = map cb_height blocks" "map (fst \<circ> snd) s = map (to_hash_array \<circ> cb_hash) blocks" "block_nfs s = chain_nfs blocks"
proof -
  have "map (\<lambda>(h, hash, es). map ne_nullifier es) s = map extract_nullifiers blocks"
    using arg_cong [OF assms, of "map (map fst \<circ> snd \<circ> snd)"] by (simp add: table_view_def chain_view_def comp_def case_prod_unfold)
  from arg_cong [OF this, of concat] show "block_nfs s = chain_nfs blocks"
    by (simp add: block_nfs_def blocks_entries_def chain_nfs_def map_concat comp_def case_prod_unfold)
  show "map fst s = map cb_height blocks" "map (fst \<circ> snd) s = map (to_hash_array \<circ> cb_hash) blocks"
    using arg_cong [OF assms, of "map fst"] arg_cong [OF assms, of "map (fst \<circ> snd)"]
    by (simp_all add: table_view_def chain_view_def comp_def case_prod_unfold)
qed

lemma holds_obtain:
  assumes "holds db blocks"
  obtains s where "ht_rep db s" and "map fst s = map cb_height blocks" and "map (fst \<circ> snd) s = map (to_hash_array \<circ> cb_hash) blocks"
    and "block_nfs s = chain_nfs blocks" and "table_view s = chain_view blocks"
  using assms view_eqD unfolding holds_def by blast

lemma holds_entries: "holds db blocks \<Longrightarrow> ht_num_entries db = length (chain_nfs blocks)"
  by (erule holds_obtain) (metis block_nfs_def ht_rep_entries length_map)

lemma holds_contains:
  assumes "holds db blocks" and "nf \<noteq> ZERO_NF"
  shows "ht_contains nf db \<longleftrightarrow> nf \<in> set (chain_nfs blocks)"
proof -
  obtain s where s: "ht_rep db s" "block_nfs s = chain_nfs blocks" using holds_obtain [OF assms(1)] by metis
  show ?thesis using ht_contains_rep [OF s(1) assms(2)] by (simp add: s(2) [symmetric] block_nfs_def)
qed

lemma bt_insert_middle:
  "bt_ok (xs @ ys) \<Longrightarrow> \<forall>e \<in> set xs. fst e < k \<Longrightarrow> \<forall>e \<in> set ys. k < fst e \<Longrightarrow> bt_insert k v (xs @ ys) = xs @ (k, v) # ys"
proof (induction xs)
  case Nil
  then show ?case by (cases ys) auto
qed auto

text \<open>A block of the chain goes in at its place.\<close>

lemma insert_block_holds:
  assumes holds: "holds db (pre @ post)" and chain: "nf_chain_ok (pre @ b # post)" and ns: "map nm_nullifier ns = extract_nullifiers b"
  shows "\<exists>db'. insert_block (cb_height b) (to_hash_array (cb_hash b)) ns db = (Inr (), db') \<and> holds db' (pre @ b # post)"
proof -
  obtain s where s: "ht_rep db s" "map fst s = map cb_height (pre @ post)" "map (fst \<circ> snd) s = map (to_hash_array \<circ> cb_hash) (pre @ post)"
    "block_nfs s = chain_nfs (pre @ post)"
    "table_view s = chain_view (pre @ post)"
    by (rule holds_obtain [OF holds])
  have order: "\<forall>x \<in> set pre. cb_height x < cb_height b" "\<forall>x \<in> set post. cb_height b < cb_height x" and ok: "bt_ok s"
    using chain s(2) by (auto simp: nf_chain_ok_def bt_ok_def sorted_wrt_append)
  have keys: "fst ` set s = cb_height ` set (pre @ post)" "(fst \<circ> snd) ` set s = (to_hash_array \<circ> cb_hash) ` set (pre @ post)"
    using arg_cong [OF s(2), of set] arg_cong [OF s(3), of set] by (simp_all only: list.set_map)
  have "(to_hash_array \<circ> cb_hash) b \<notin> (to_hash_array \<circ> cb_hash) ` set (pre @ post)" using chain by (simp add: nf_chain_ok_def image_Un)
  then have fresh: "cb_height b \<notin> fst ` set s" "to_hash_array (cb_hash b) \<notin> (fst \<circ> snd) ` set s"
    unfolding keys using order by (auto simp only: set_append image_iff Un_iff less_irrefl comp_def)
  have nz: "\<forall>n \<in> set ns. nm_nullifier n \<noteq> ZERO_NF" 
  proof
    fix n assume "n \<in> set ns"
    then have "nm_nullifier n \<in> set (extract_nullifiers b)" using ns by (metis imageI list.set_map)
    then show "nm_nullifier n \<noteq> ZERO_NF" using chain by (auto simp: nf_chain_ok_def)
  qed
  have room: "\<forall>i. bucket_load i (block_nfs s @ map nm_nullifier ns) \<le> BUCKET_CAPACITY"
    using chain by (simp add: nf_chain_ok_def s(4) ns add_ac)
  obtain db' where db': "insert_block (cb_height b) (to_hash_array (cb_hash b)) ns db = (Inr (), db')"
    "ht_rep db' (spec_insert (cb_height b) (to_hash_array (cb_hash b)) ns s)"
    using insert_block_fits [OF s(1) fresh nz room] by blast
  let ?e = "(to_hash_array (cb_hash b), map (entry_of (ucast (cb_height b))) ns)"
  obtain sa sb where split: "s = sa @ sb" "table_view sa = chain_view pre" "table_view sb = chain_view post"
    using s(5) by (auto simp: table_view_def chain_view_def map_eq_append_conv)
  have keys: "map fst sa = map cb_height pre" "map fst sb = map cb_height post"
    using view_eqD(1) split(2, 3) by blast+
  have "\<forall>h \<in> set (map fst sa). h < cb_height b" "\<forall>h \<in> set (map fst sb). cb_height b < h" unfolding keys using order by auto
  then have "\<forall>e \<in> set sa. fst e < cb_height b" "\<forall>e \<in> set sb. cb_height b < fst e" by simp_all
  from bt_insert_middle [OF ok [unfolded split(1)] this]
  have "spec_insert (cb_height b) (to_hash_array (cb_hash b)) ns s = sa @ (cb_height b, ?e) # sb" by (simp add: spec_insert_def split(1))
  moreover have "map (\<lambda>e. (ne_nullifier e, ne_spend_height e)) (map (entry_of h) ns) = map (\<lambda>nf. (nf, h)) (extract_nullifiers b)" for h
    by (simp add: ns [symmetric] entry_of_def)
  ultimately have "table_view (spec_insert (cb_height b) (to_hash_array (cb_hash b)) ns s) = chain_view (pre @ b # post)"
    using split by (simp add: table_view_def chain_view_def)
  then show ?thesis using db' by (auto simp: holds_def)
qed

lemma nf_apply_holds:
  "holds db (pre @ post) \<Longrightarrow> nf_chain_ok (pre @ xs @ post)
     \<Longrightarrow> \<exists>db'. nf_apply (fst (nf_sync_events xs prev)) db = (Inr (), db') \<and> holds db' (pre @ xs @ post)"
proof (induction xs arbitrary: pre prev db)
  case (Cons b xs)
  obtain ns size where ns: "extract_nullifiers_with_meta b prev = (ns, size)" by fastforce
  have nfs: "map nm_nullifier ns = extract_nullifiers b" using nullifiers_of_meta [of b prev] ns by simp
  have "pre @ b # post = filter (\<lambda>x. x \<in> set (pre @ [b] @ post)) (pre @ (b # xs) @ post)"
  proof -
    have "filter (\<lambda>x. x \<in> set (pre @ [b] @ post)) xs = []"
      using Cons.prems(2) by (fastforce simp: nf_chain_ok_def sorted_wrt_append filter_empty_conv)
    then show ?thesis by (simp add: filter_id_conv)
  qed
  then have "nf_chain_ok (pre @ b # post)" using nf_chain_ok_filter [OF Cons.prems(2)] by metis
  from insert_block_holds [OF Cons.prems(1) this nfs]
  obtain db1 where db1: "insert_block (cb_height b) (to_hash_array (cb_hash b)) ns db = (Inr (), db1)" "holds db1 ((pre @ [b]) @ post)" by auto
  then show ?case using Cons.IH [OF db1(2), of size] Cons.prems(2) ns by (auto simp: case_prod_unfold)
qed simp

lemma nf_sync_range_holds:
  assumes lwd: "\<forall>a b. block_range a b = Inr (blocks_between chain a b)" and chain: "nf_chain_ok chain" and tip: "unat tip + 10000 < 2 ^ 64"
    and range: "from \<le> to" "to \<le> tip" and holds: "holds db (blocks_between chain (to + 1) tip)"
  shows "\<exists>db'. nf_sync_range block_range from to db initial = Some (Inr (), db') \<and> holds db' (blocks_between chain from tip)"
proof -
  have sorted: "sorted_wrt (<) (map cb_height chain)" using chain by (simp add: nf_chain_ok_def)
  have to: "unat to + 10000 < 2 ^ 64" "unat from \<le> unat to" using range tip by (simp_all add: word_le_nat_alt)
  have next1: "unat (to + 1) = unat to + 1" using to by (subst unat_add_nowrap) auto
  have "from \<le> to + 1" using to next1 by (simp add: word_le_nat_alt)
  note split = blocks_between_split [OF sorted this range(2)]
  have "nf_chain_ok (blocks_between chain from to @ blocks_between chain (to + 1) tip)"
    using split to nf_chain_ok_filter [OF chain] by (simp add: blocks_between_def)
  from nf_apply_holds [where pre = "[]", simplified, OF holds this, of initial]
  obtain db' where db': "nf_apply (fst (nf_sync_events (blocks_between chain from to) initial)) db = (Inr (), db')"
    "holds db' (blocks_between chain from to @ blocks_between chain (to + 1) tip)" by blast
  have "nf_sync block_range from to initial = Some (fst (nf_sync_events (blocks_between chain from to) initial), Inr ())"
    unfolding nf_sync_def by (rule ns.sync_loop_events [OF lwd sorted to(1)]) (use to in simp)
  then show ?thesis using db' range(1) split to by (auto simp: nf_sync_range_def)
qed

text \<open>The backfill ends, at the floor or with as many nullifiers as wanted.\<close>

lemma backfill_holds:
  assumes lwd: "\<forall>a b. block_range a b = Inr (blocks_between chain a b)" and chain: "nf_chain_ok chain" and tip: "unat tip + 10000 < 2 ^ 64"
    and floor: "1 \<le> floor"
  shows "stop \<le> tip \<Longrightarrow> floor \<le> stop + 1 \<Longrightarrow> holds db (blocks_between chain (stop + 1) tip)
    \<Longrightarrow> \<exists>db' start. backfill block_range floor wanted stop db = Some (Inr (), db') \<and> floor \<le> start \<and> holds db' (blocks_between chain start tip)
      \<and> (start = floor \<or> wanted \<le> ht_num_entries db')"
proof (induction "unat stop" arbitrary: stop db rule: less_induct)
  case less
  have end1: "unat (stop + 1) = unat stop + 1" using less.prems(1) tip by (subst unat_add_nowrap) (auto simp: word_le_nat_alt)
  show ?case
  proof (cases "ht_num_entries db < wanted \<and> floor \<le> stop")
    case True
    let ?start = "max (saturating_sub stop (BACKFILL_BATCH - 1)) floor"
    have sub: "saturating_sub stop (BACKFILL_BATCH - 1) \<le> stop" by (simp add: word_le_nat_alt unat_saturating_sub)
    then have start: "floor \<le> ?start" "?start \<le> stop" using True by auto
    obtain db1 where db1: "nf_sync_range block_range ?start stop db None = Some (Inr (), db1)" "holds db1 (blocks_between chain ?start tip)"
      using nf_sync_range_holds [OF lwd chain tip start(2) less.prems(1, 3), of None] by blast
    show ?thesis
    proof (cases "?start = floor")
      case True': True
      have "backfill block_range floor wanted stop db = Some (Inr (), db1)"
        by (subst backfill.simps) (use True True' db1 in \<open>simp add: Let_def\<close>)
      then show ?thesis using db1(2) True' by auto
    next
      case False
      let ?stop = "saturating_sub ?start 1"
      have one: "unat ?start \<ge> 1" using start(1) floor by (simp add: word_le_nat_alt)
      have e: "unat ?stop + 1 = unat ?start" "?stop + 1 = ?start" using one by (simp_all add: unat_saturating_sub) (simp add: saturating_sub_def word_le_nat_alt)
      have "?stop \<le> tip" "floor \<le> ?stop + 1" "unat ?stop < unat stop"
        using e start less.prems(1) by (auto simp: word_le_nat_alt)
      moreover have "backfill block_range floor wanted stop db = backfill block_range floor wanted ?stop db1"
        by (subst backfill.simps) (use True False db1 in \<open>simp add: Let_def\<close>)
      ultimately show ?thesis using less.hyps [of ?stop db1] db1(2) e(2) by simp
    qed
  next
    case False
    have "backfill block_range floor wanted stop db = Some (Inr (), db)" by (subst backfill.simps) (use False in auto)
    moreover have "stop + 1 = floor \<or> wanted \<le> ht_num_entries db"
      using False less.prems(2) end1 by (auto simp: word_le_nat_alt word_unat_eq_iff)
    ultimately show ?thesis using less.prems(2, 3) by blast
  qed
qed

text \<open>What the target leaves of a list of blocks: the last of them, as many as fit.\<close>

fun newest_within :: "nat \<Rightarrow> compact_block list \<Rightarrow> compact_block list" where
  "newest_within n [] = []"
| "newest_within n (b # blocks) = (if length (chain_nfs (b # blocks)) \<le> n then b # blocks else newest_within n blocks)"

lemma newest_within_fits: "length (chain_nfs (newest_within n blocks)) \<le> n"
  by (induction blocks) auto

lemma newest_within_suffix: "\<exists>pre. blocks = pre @ newest_within n blocks"
  by (induction blocks) (auto intro: exI [of _ "[]"], metis append_Cons)

lemma newest_within_append: "newest_within n (newest_within n xs @ ys) = newest_within n (xs @ ys)"
proof (induction xs)
  case (Cons b xs)
  show ?case
  proof (cases "length (chain_nfs (b # xs)) \<le> n")
    case False
    then have "\<not> length (chain_nfs ((b # xs) @ ys)) \<le> n" by simp
    then show ?thesis using Cons.IH False by simp
  qed simp
qed simp

lemma evict_holds: "holds db blocks \<Longrightarrow> \<exists>db'. evict_to_target db = (Inr (), db') \<and> holds db' (newest_within TARGET_SIZE blocks)"
proof (induction blocks arbitrary: db)
  case Nil
  then show ?case using holds_entries [OF Nil] by (simp add: evict_to_target.simps)
next
  case (Cons b blocks)
  have size: "ht_num_entries db = length (chain_nfs (b # blocks))" by (rule holds_entries [OF Cons.prems])
  show ?case
  proof (cases "TARGET_SIZE < ht_num_entries db")
    case True
    obtain s where s: "ht_rep db s" "table_view s = chain_view (b # blocks)" using Cons.prems by (auto simp: holds_def)
    then obtain h hash es s' where split: "s = (h, hash, es) # s'" by (cases s) (auto simp: table_view_def chain_view_def)
    obtain db1 where db1: "evict_oldest_block db = (Inr (Some h), db1)" "ht_rep db1 s'" by (rule evict_oldest_rep [OF s(1) [unfolded split]])
    have "holds db1 blocks" unfolding holds_def by (rule exI [of _ s']) (use db1(2) s(2) split in \<open>simp add: table_view_def chain_view_def\<close>)
    from Cons.IH [OF this] obtain db' where "evict_to_target db1 = (Inr (), db')" "holds db' (newest_within TARGET_SIZE blocks)" by blast
    moreover from this have "evict_to_target db = (Inr (), db')" by (subst evict_to_target.simps) (use True db1(1) in simp)
    ultimately show ?thesis using True size by simp
  next
    case False
    then have "evict_to_target db = (Inr (), db)" by (subst evict_to_target.simps) simp
    then show ?thesis using Cons.prems False size by simp
  qed
qed

text \<open>A server that publishes the last blocks of a chain goes on to do so as the chain grows.\<close>

definition nf_serving :: "(bytes \<Rightarrow> string + 's) \<Rightarrow> compact_block list \<Rightarrow> 's nf_server \<Rightarrow> bool" where
  "nf_serving engine_setup blocks s \<longleftrightarrow> holds (ns_table s) (newest_within TARGET_SIZE blocks) \<and> ns_phase s = Serving
     \<and> engine_setup (to_pir_bytes (ns_table s)) = Inr (np_engine_state (ns_live_pir s))
     \<and> sb_num_nullifiers (np_metadata (ns_live_pir s)) = length (chain_nfs (newest_within TARGET_SIZE blocks))"

lemma nf_chain_ok_append: "nf_chain_ok (xs @ ys) \<Longrightarrow> nf_chain_ok xs \<and> nf_chain_ok ys"
  unfolding nf_chain_ok_def by (auto simp: sorted_wrt_append intro: add_leD1 add_leD2)

lemma nf_rebuild_serves:
  assumes "\<forall>rows. \<exists>st. engine_setup rows = Inr st"
  obtains p where "nf_rebuild_pir engine_setup db = Inr p" and "sb_num_nullifiers (np_metadata p) = ht_num_entries db"
    and "engine_setup (to_pir_bytes db) = Inr (np_engine_state p)"
proof -
  obtain st where st: "engine_setup (to_pir_bytes db) = Inr st" using assms by blast
  then obtain p where p: "nf_rebuild_pir engine_setup db = Inr p" by (simp add: nf_rebuild_pir_def)
  then have "sb_num_nullifiers (np_metadata p) = ht_num_entries db" "np_engine_state p = st" using st by (auto simp: nf_rebuild_pir_def)
  then show thesis using that p st by simp
qed

lemma nf_serve_growth:
  assumes engine: "\<forall>rows. \<exists>st. engine_setup rows = Inr st"
  shows "nf_serving engine_setup blocks s \<Longrightarrow> nf_chain_ok (blocks @ new)
    \<Longrightarrow> \<exists>s'. nf_serve_events xxh64 engine_setup interval (fst (nf_sync_events new prev)) s = Inr s' \<and> nf_serving engine_setup (blocks @ new) s'"
proof (induction new arbitrary: blocks s prev)
  case (Cons b new)
  let ?held = "newest_within TARGET_SIZE blocks"
  obtain ns size where ns: "extract_nullifiers_with_meta b prev = (ns, size)" by fastforce
  have nfs: "map nm_nullifier ns = extract_nullifiers b" using nullifiers_of_meta [of b prev] ns by simp
  obtain pre where pre: "pre @ ?held = blocks" using newest_within_suffix [of blocks TARGET_SIZE] by metis
  have "pre @ (?held @ [b]) @ new = (pre @ ?held) @ b # new" by simp
  then have "nf_chain_ok (pre @ (?held @ [b]) @ new)" using Cons.prems(2) by (simp only: pre)
  then have "nf_chain_ok (?held @ [b])" using nf_chain_ok_append by blast
  with insert_block_holds [where post = "[]", of "ns_table s" ?held b ns] Cons.prems(1) nfs
  obtain db1 where db1: "insert_block (cb_height b) (to_hash_array (cb_hash b)) ns (ns_table s) = (Inr (), db1)" "holds db1 (?held @ [b])"
    by (auto simp: nf_serving_def)
  obtain db2 where db2: "evict_to_target db1 = (Inr (), db2)" "holds db2 (newest_within TARGET_SIZE (blocks @ [b]))"
    using evict_holds [OF db1(2)] by (auto simp: newest_within_append)
  obtain p where p: "nf_rebuild_pir engine_setup db2 = Inr p" "sb_num_nullifiers (np_metadata p) = ht_num_entries db2"
    "engine_setup (to_pir_bytes db2) = Inr (np_engine_state p)" by (rule nf_rebuild_serves [OF engine])
  let ?ev = "N_NewBlock (cb_height b) (to_hash_array (cb_hash b)) (to_hash_array (cb_prev_hash b)) ns"
  obtain s1 where s1: "nf_serve_event xxh64 engine_setup interval ?ev s = Inr s1" "nf_serving engine_setup (blocks @ [b]) s1"
    using db1(1) db2 p Cons.prems(1) holds_entries [OF db2(2)] by (simp add: nf_serve_event_def nf_handle_def nf_serving_def Let_def)
  then show ?case using Cons.IH [OF s1(2), of size] Cons.prems(2) ns by (simp add: nf_serve_events_def case_prod_unfold)
qed (simp add: nf_serve_events_def)

lemma min_sync_height_pos: "1 \<le> min_sync_height network tip"
  by (cases network; cases "the network") 
    (auto simp: min_sync_height_def word_le_nat_alt activation_height_def NU6_3_MAINNET_ACTIVATION_def NU6_3_TESTNET_ACTIVATION_def)

lemma nf_fill_holds:
  assumes lwd: "\<forall>a b. block_range a b = Inr (blocks_between chain a b)" and chain: "nf_chain_ok chain" and tip: "unat tip + 10000 < 2 ^ 64"
    and floor: "1 \<le> floor" "floor \<le> tip + 1"
  shows "\<exists>db' start. nf_fill block_range floor tip wanted (ht_new, False) = Some (Inr (), db') \<and> floor \<le> start \<and> holds db' (blocks_between chain start tip)
    \<and> (start = floor \<or> wanted \<le> ht_num_entries db')"
proof -
  let ?start = "forward_start False tip floor ht_new" and ?stop = "saturating_sub (forward_start False tip floor ht_new) 1"
  have "saturating_sub tip BACKFILL_BATCH \<le> tip" by (simp add: word_le_nat_alt unat_saturating_sub)
  moreover have tip1: "unat (tip + 1) = unat tip + 1" using tip by (subst unat_add_nowrap) auto
  ultimately have start: "floor \<le> ?start" "?start \<le> tip + 1" using floor by (auto simp: forward_start_def word_le_nat_alt max_def)
  have one: "unat ?start \<ge> 1" using start(1) floor by (simp add: word_le_nat_alt)
  have e: "?stop + 1 = ?start" using one by (simp add: saturating_sub_def word_le_nat_alt)
  have "?stop \<le> tip" using start(2) tip1 by (simp add: word_le_nat_alt unat_saturating_sub)
  have empty: "holds ht_new (blocks_between chain (tip + 1) tip)"
  proof -
    have "blocks_between chain (tip + 1) tip = []" using tip1 by (auto simp: blocks_between_def filter_empty_conv word_le_nat_alt)
    then show ?thesis using ht_new_rep by (auto simp: holds_def table_view_def chain_view_def)
  qed
  obtain db1 where db1: "(if ?start \<le> tip then nf_sync_range block_range ?start tip ht_new None else Some (Inr (), ht_new)) = Some (Inr (), db1)"
    "holds db1 (blocks_between chain ?start tip)"
  proof (cases "?start \<le> tip")
    case True
    then show ?thesis using that nf_sync_range_holds [OF lwd chain tip True order_refl empty] by auto
  next
    case False
    then have "?start = tip + 1" using start(2) tip1 by (simp add: word_le_nat_alt word_unat_eq_iff)
    then show ?thesis using that False empty by auto
  qed
  have "nf_fill block_range floor tip wanted (ht_new, False) = backfill block_range floor wanted ?stop db1"
    using db1(1) by (simp add: nf_fill_def Let_def)
  then show ?thesis
    using backfill_holds [OF lwd chain tip floor(1) \<open>?stop \<le> tip\<close>, of db1 wanted] start(1) db1(2) e by simp
qed

text \<open>The start on an honest lightwalletd reaches serving, with the blocks down to the floor or enough of them.\<close>

lemma nf_start_serves:
  assumes lwd: "\<forall>a b. block_range a b = Inr (blocks_between chain a b)" and chain: "nf_chain_ok chain"
    and tip: "1 \<le> tip" "unat tip + 10000 < 2 ^ 64" and engine: "\<forall>rows. \<exists>st. engine_setup rows = Inr st"
    and floor: "floor = min_sync_height network tip"
  obtains s start where "nf_server_start xxh64 engine_setup block_range network tip wanted None = Some (Inr s)" and "floor \<le> start"
    and "start = floor \<or> wanted \<le> length (chain_nfs (blocks_between chain start tip))" and "nf_serving engine_setup (blocks_between chain start tip) s"
proof -
  have "floor \<le> tip + 1"
  proof -
    have "unat (tip + 1) = unat tip + 1" using tip by (subst unat_add_nowrap) auto
    then show ?thesis using tip(1) by (cases network; cases "the network") (auto simp: floor min_sync_height_def word_le_nat_alt)
  qed
  with nf_fill_holds [OF lwd chain tip(2) _ this, of wanted] min_sync_height_pos floor
  obtain db start where fill: "nf_fill block_range floor tip wanted (ht_new, False) = Some (Inr (), db)" "floor \<le> start"
    "holds db (blocks_between chain start tip)" "start = floor \<or> wanted \<le> ht_num_entries db" by metis
  obtain db' where evict: "evict_to_target db = (Inr (), db')" "holds db' (newest_within TARGET_SIZE (blocks_between chain start tip))"
    using evict_holds [OF fill(3)] by blast
  obtain p where p: "nf_rebuild_pir engine_setup db' = Inr p" "sb_num_nullifiers (np_metadata p) = ht_num_entries db'"
    "engine_setup (to_pir_bytes db') = Inr (np_engine_state p)" by (rule nf_rebuild_serves [OF engine])
  have "nf_load xxh64 None = (ht_new, False)" by (simp add: nf_load_def)
  then obtain s where s: "nf_server_start xxh64 engine_setup block_range network tip wanted None = Some (Inr s)"
    "nf_serving engine_setup (blocks_between chain start tip) s"
    using fill(1) evict p holds_entries [OF evict(2)] by (simp add: nf_server_start_def nf_serving_def floor Let_def)
  then show thesis using that fill(2, 4) holds_entries [OF fill(3)] by simp
qed

text \<open>What a client's scan of a row finds: a nullifier of the blocks held, with the height of its block.\<close>

lemma view_entry:
  assumes "table_view s = chain_view blocks" and "e \<in> set (blocks_entries s)"
  shows "\<exists>b \<in> set blocks. ne_nullifier e \<in> set (extract_nullifiers b) \<and> ne_spend_height e = ucast (cb_height b)"
proof -
  obtain h hash es where e: "(h, hash, es) \<in> set s" "e \<in> set es" using assms(2) by (auto simp: blocks_entries_iff)
  then have "(h, hash, map (\<lambda>e. (ne_nullifier e, ne_spend_height e)) es) \<in> set (table_view s)" by (force simp: table_view_def)
  then obtain b where b: "b \<in> set blocks" "map (\<lambda>e. (ne_nullifier e, ne_spend_height e)) es = map (\<lambda>nf. (nf, ucast (cb_height b))) (extract_nullifiers b)"
    unfolding assms(1) by (auto simp: chain_view_def)
  have "(ne_nullifier e, ne_spend_height e) \<in> set (map (\<lambda>nf. (nf, ucast (cb_height b))) (extract_nullifiers b))"
    unfolding b(2) [symmetric] using e(2) by auto
  then show ?thesis using b(1) by auto
qed

lemma holds_scan:
  assumes "holds db blocks" and nf: "nf \<noteq> ZERO_NF"
    and row: "take BUCKET_BYTES row = take BUCKET_BYTES (drop (hash_to_bucket nf * BUCKET_BYTES) (to_pir_bytes db))"
  shows "case scan_bucket_for_nf row nf of
      None \<Rightarrow> nf \<notin> set (chain_nfs blocks)
    | Some m \<Rightarrow> \<exists>b \<in> set blocks. nf \<in> set (extract_nullifiers b) \<and> sm_spend_height m = ucast (cb_height b)"
proof -
  obtain s where s: "ht_rep db s" "block_nfs s = chain_nfs blocks" "table_view s = chain_view blocks" using holds_obtain [OF assms(1)] by metis
  have nfs: "ne_nullifier ` set (blocks_entries s) = set (chain_nfs blocks)" using arg_cong [OF s(2), of set] by (simp add: block_nfs_def)
  have len: "\<forall>e \<in> set (blocks_entries s). length (ne_nullifier e) = 32"
  proof
    fix e assume "e \<in> set (blocks_entries s)"
    then have "ne_nullifier e \<in> set (chain_nfs blocks)" using nfs by blast
    then show "length (ne_nullifier e) = 32" by (auto simp: chain_nfs_def extract_nullifiers_def)
  qed
  note scan = scan_rep [OF s(1) len nf row, unfolded nfs]
  show ?thesis
  proof (cases "scan_bucket_for_nf row nf")
    case None
    then show ?thesis using scan by simp
  next
    case (Some m)
    then obtain e where "e \<in> set (blocks_entries s)" "ne_nullifier e = nf" "m = meta_of e" using scan by auto
    then show ?thesis using view_entry [OF s(3), of e] Some by (auto simp: meta_of_def)
  qed
qed

text \<open>A range that cannot be fetched counts as synced: the outcome of the sync task is dropped, and the start goes on to serve without it.\<close>

lemma nf_sync_range_failed_fetch:
  "from \<le> to \<Longrightarrow> block_range from (min (from + SYNC_BATCH_SIZE - 1) to) = Inl e \<Longrightarrow> nf_sync_range block_range from to db initial = Some (Inr (), db)"
  by (simp add: nf_sync_range_def nf_sync_def sync_loop.simps [of _ _ to "from"] Let_def)

end
