(* ===== verification/Nullifier_Client.thy ===== *)
theory Nullifier_Client
  imports Witness_Client Nullifier_Server
begin

text \<open>
  The spendability client of the legacy demo, \<open>nullifier/spend-client/src/lib.rs\<close> with the checks of \<open>nullifier/spend-types/src/lib.rs\<close>: connecting,
  one private query for the bucket of a nullifier, the refresh of the published parameters when the server rotates, and the scan of the bucket.
  The HTTP library, the epochs and the cryptographic crates are those of \<open>Witness_Client\<close>; the interior lock of the client is the state
  an operation returns. The alternative YPIR build is left out, and so are the progress reports of the blocking wrapper.
\<close>

section \<open>The client\<close>

datatype spend_client_error =
    Sc_Http string
  | Sc_ServerUnavailable
  | Sc_InvalidParams string
  | Sc_QueryFailed string
  | Sc_PublicParamsUnstable
  | Sc_MalformedResponse nat
  | Sc_PoolMismatch string string
  | Sc_Panic

record spend_client =
  sc_num_items :: u64
  sc_item_size_bits :: u64
  sc_metadata :: spendability_metadata
  sc_rlwe :: rlwe_params
  sc_ypir :: scheme_params
  sc_setup :: "u64 list list"
  sc_published :: published_params

definition is_expected_pool :: "spendability_metadata \<Rightarrow> bool" where
  "is_expected_pool m \<longleftrightarrow> sb_pool m = ''ironwood''"

text \<open>\<open>send().await?\<close>, the check for 503 where the code has one, \<open>error_for_status()\<close> and the body.\<close>

definition sc_body ::
  "bool \<Rightarrow> (nat \<Rightarrow> spend_client_error) \<Rightarrow> string + (nat \<times> (string + bytes)) \<Rightarrow> spend_client_error + bytes" where
  "sc_body checks_503 status_error resp =
     bindR (map_err Sc_Http resp) (\<lambda>(status, body).
       if checks_503 \<and> status = 503 then Inl Sc_ServerUnavailable
       else if 400 \<le> status \<and> status < 600 then Inl (status_error status)
       else map_err Sc_Http body)"

definition sc_fetch_public_params ::
  "('k, 'q, 'd) client_sp \<Rightarrow> 'w witness_net \<Rightarrow> rlwe_params \<Rightarrow> scheme_params \<Rightarrow> 'w \<Rightarrow> (spend_client_error + published_params) \<times> 'w" where
  "sc_fetch_public_params cl net rlwe ypir w =
     (case net_get net ''/public-params'' w of (resp, w) \<Rightarrow>
       (bindR (sc_body True (\<lambda>_. Sc_Http ''status'') resp) (\<lambda>bs.
        if rlwe_d rlwe = 0 then Inl Sc_Panic
        else let blocks = sp_db_cols ypir div rlwe_d rlwe;
            expected = blocks * published_c1_len cl (rlwe_d rlwe) (rlwe_q rlwe)
        in if length bs \<noteq> expected then Inl (Sc_InvalidParams ''/public-params returned the wrong length'')
           else Inr \<lparr> pp_c1 = recover_published_c1 cl bs (rlwe_d rlwe) blocks (rlwe_q rlwe), pp_epoch = public_params_epoch bs \<rparr>), w))"

definition sc_connect ::
  "'s ipir_sp \<Rightarrow> ('k, 'q, 'd) client_sp \<Rightarrow> 'w witness_net \<Rightarrow> (bytes \<Rightarrow> (u64 \<times> u64) option) \<Rightarrow> (bytes \<Rightarrow> spendability_metadata option)
     \<Rightarrow> bytes \<Rightarrow> 'w \<Rightarrow> (spend_client_error + spend_client) \<times> 'w" where
  "sc_connect ip cl net scenario_of metadata_of setup_seed w =
     (case net_get net ''/params'' w of (resp, w) \<Rightarrow>
      case bindR (sc_body False (\<lambda>_. Sc_Http ''status'') resp) (\<lambda>bs. ok_or (Sc_Http ''json'') (scenario_of bs)) of
        Inl e \<Rightarrow> (Inl e, w)
      | Inr (num_items, item_size_bits) \<Rightarrow>
     (case net_get net ''/metadata'' w of (resp, w) \<Rightarrow>
      case bindR (sc_body True (\<lambda>_. Sc_Http ''status'') resp) (\<lambda>bs. ok_or (Sc_Http ''json'') (metadata_of bs)) of
        Inl e \<Rightarrow> (Inl e, w)
      | Inr metadata \<Rightarrow>
      if \<not> is_expected_pool metadata then (Inl (Sc_PoolMismatch ''ironwood'' (sb_pool metadata)), w)
      else if item_size_bits < 2048 * 14 then (Inl (Sc_InvalidParams ''item_size_bits below SimplePIR minimum 28672''), w)
      else
     (case map_err (\<lambda>_. Sc_InvalidParams ''parameters'') (params_for_simplepir ip num_items item_size_bits) of
        Inl e \<Rightarrow> (Inl e, w)
      | Inr (rlwe, ypir) \<Rightarrow>
     (case sc_fetch_public_params cl net rlwe ypir w of
        (Inl e, w) \<Rightarrow> (Inl e, w)
      | (Inr published, w) \<Rightarrow>
          (Inr \<lparr> sc_num_items = num_items, sc_item_size_bits = item_size_bits, sc_metadata = metadata, sc_rlwe = rlwe, sc_ypir = ypir,
                 sc_setup = public_query_setup ip rlwe ypir setup_seed, sc_published = published \<rparr>, w)))))"

definition sc_generate_query ::
  "('k, 'q, 'd) client_sp \<Rightarrow> nat \<Rightarrow> spend_client \<Rightarrow> nat \<Rightarrow> spend_client_error + (bytes \<times> 'd)" where
  "sc_generate_query cl rnd c bucket_idx =
     (case generate_fresh_query cl (sc_rlwe c) (sc_ypir c) rnd (sc_setup c) bucket_idx of (query, packing_keys, seed) \<Rightarrow>
        bindR (map_err (\<lambda>_. Sc_QueryFailed ''packing keys'') (serialize_packing_keys cl (sc_rlwe c) packing_keys)) (\<lambda>keys.
        Inr (keys @ to_switched_bytes cl query (rlwe_q (sc_rlwe c)) (sp_query_bits (sc_ypir c)), seed)))"

definition sc_post_query :: "'w witness_net \<Rightarrow> bytes \<Rightarrow> 'w \<Rightarrow> (spend_client_error + bytes) \<times> 'w" where
  "sc_post_query net query_bytes w =
     (case net_post net query_bytes w of (resp, w) \<Rightarrow> (sc_body True (\<lambda>_. Sc_QueryFailed ''status'') resp, w))"

definition sc_refresh_public_params ::
  "('k, 'q, 'd) client_sp \<Rightarrow> 'w witness_net \<Rightarrow> spend_client \<Rightarrow> 'w \<Rightarrow> (spend_client_error + unit) \<times> spend_client \<times> 'w" where
  "sc_refresh_public_params cl net c w =
     (case sc_fetch_public_params cl net (sc_rlwe c) (sc_ypir c) w of
        (Inl e, w) \<Rightarrow> (Inl e, c, w)
      | (Inr refreshed, w) \<Rightarrow> (Inr (), c \<lparr> sc_published := refreshed \<rparr>, w))"

text \<open>One pass of the loop: \<open>Inr (Some row)\<close> is a row decoded under the epoch of the response, \<open>Inr None\<close> a rotation.\<close>

definition sc_attempt ::
  "('k, 'q, 'd) client_sp \<Rightarrow> nat \<Rightarrow> 'w witness_net \<Rightarrow> nat \<Rightarrow> spend_client \<Rightarrow> 'w \<Rightarrow> (spend_client_error + bytes option) \<times> 'w" where
  "sc_attempt cl rnd net row_idx c w =
     (case sc_generate_query cl rnd c row_idx of
        Inl e \<Rightarrow> (Inl e, w)
      | Inr (query_bytes, seed) \<Rightarrow>
          (case sc_post_query net query_bytes w of (resp, w) \<Rightarrow>
            (bindR resp (\<lambda>response_bytes.
             bindR (ok_or (Sc_MalformedResponse (length response_bytes)) (split_epoch response_bytes)) (\<lambda>(epoch, body).
             Inr (if pp_epoch (sc_published c) = epoch
                  then Some (decode_response cl (sc_rlwe c) (sc_ypir c) seed (pp_c1 (sc_published c)) body) else None))), w)))"

definition sc_round_trip ::
  "('k, 'q, 'd) client_sp \<Rightarrow> (nat \<Rightarrow> nat) \<Rightarrow> 'w witness_net \<Rightarrow> nat \<Rightarrow> spend_client \<Rightarrow> 'w \<Rightarrow> (spend_client_error + bytes) \<times> spend_client \<times> 'w" where
  "sc_round_trip cl rnd net row_idx c w =
     (case sc_attempt cl (rnd 0) net row_idx c w of
        (Inl e, w) \<Rightarrow> (Inl e, c, w)
      | (Inr (Some row), w) \<Rightarrow> (Inr row, c, w)
      | (Inr None, w) \<Rightarrow>
          (case sc_refresh_public_params cl net c w of
             (Inl e, c, w) \<Rightarrow> (Inl e, c, w)
           | (Inr _, c, w) \<Rightarrow>
               (case sc_attempt cl (rnd 1) net row_idx c w of
                  (Inl e, w) \<Rightarrow> (Inl e, c, w)
                | (Inr (Some row), w) \<Rightarrow> (Inr row, c, w)
                | (Inr None, w) \<Rightarrow> (Inl Sc_PublicParamsUnstable, c, w))))"

definition is_spent ::
  "('k, 'q, 'd) client_sp \<Rightarrow> (nat \<Rightarrow> nat) \<Rightarrow> 'w witness_net \<Rightarrow> bytes \<Rightarrow> spend_client \<Rightarrow> 'w \<Rightarrow> (spend_client_error + spend_metadata option) \<times> spend_client \<times> 'w" where
  "is_spent cl rnd net nf c w =
     (case sc_round_trip cl rnd net (hash_to_bucket nf) c w of (res, c, w) \<Rightarrow> (bindR res (\<lambda>decoded. Inr (scan_bucket_for_nf decoded nf)), c, w))"

definition sc_refresh_metadata ::
  "'w witness_net \<Rightarrow> (bytes \<Rightarrow> spendability_metadata option) \<Rightarrow> spend_client \<Rightarrow> 'w \<Rightarrow> (spend_client_error + unit) \<times> spend_client \<times> 'w" where
  "sc_refresh_metadata net metadata_of c w =
     (case net_get net ''/metadata'' w of (resp, w) \<Rightarrow>
      case bindR (sc_body True (\<lambda>_. Sc_Http ''status'') resp) (\<lambda>bs. ok_or (Sc_Http ''json'') (metadata_of bs)) of
        Inl e \<Rightarrow> (Inl e, c, w)
      | Inr metadata \<Rightarrow>
          if \<not> is_expected_pool metadata then (Inl (Sc_PoolMismatch ''ironwood'' (sb_pool metadata)), c, w)
          else (Inr (), c \<lparr> sc_metadata := metadata \<rparr>, w))"

fun check_nullifiers ::
  "('k, 'q, 'd) client_sp \<Rightarrow> (nat \<Rightarrow> nat \<Rightarrow> nat) \<Rightarrow> 'w witness_net \<Rightarrow> bytes list \<Rightarrow> spend_client \<Rightarrow> 'w
     \<Rightarrow> (spend_client_error + spend_metadata option list) \<times> spend_client \<times> 'w" where
  "check_nullifiers cl rnd net [] c w = (Inr [], c, w)"
| "check_nullifiers cl rnd net (nf # nfs) c w =
     (case is_spent cl (rnd (length nfs)) net nf c w of
        (Inl e, c, w) \<Rightarrow> (Inl e, c, w)
      | (Inr meta, c, w) \<Rightarrow>
          (case check_nullifiers cl rnd net nfs c w of (res, c, w) \<Rightarrow> (bindR res (\<lambda>results. Inr (meta # results)), c, w)))"

section \<open>From the chain to the wallet\<close>

text \<open>
  What a wallet needs of a published state: a client that receives the row the engine answers learns, for any nullifier, a block of \<open>blocks\<close> that spends
  it, by its height, or that none does.
\<close>

definition tells_spends ::
  "('k, 'q, 'd) client_sp \<Rightarrow> (nat \<Rightarrow> nat) \<Rightarrow> 'w witness_net \<Rightarrow> ('s \<Rightarrow> nat \<Rightarrow> bytes) \<Rightarrow> compact_block list \<Rightarrow> 's nf_pir_state \<Rightarrow> bool" where
  "tells_spends cl rnd net row_of blocks pir \<longleftrightarrow>
     (\<forall>nf c w decoded c' w'.
        nf \<noteq> ZERO_NF \<longrightarrow> sc_round_trip cl rnd net (hash_to_bucket nf) c w = (Inr decoded, c', w') \<longrightarrow>
        take BUCKET_BYTES decoded = row_of (np_engine_state pir) (hash_to_bucket nf) \<longrightarrow>
        (\<exists>m. is_spent cl rnd net nf c w = (Inr m, c', w')
           \<and> (case m of None \<Rightarrow> \<forall>b \<in> set blocks. nf \<notin> set (extract_nullifiers b)
              | Some d \<Rightarrow> \<exists>b \<in> set blocks. nf \<in> set (extract_nullifiers b) \<and> sm_spend_height d = ucast (cb_height b))))"

lemma serving_tells_spends:
  assumes s: "nf_serving engine_setup blocks s"
    and rows: "\<forall>db e r. engine_setup db = Inr e \<longrightarrow> row_of e r = take BUCKET_BYTES (drop (r * BUCKET_BYTES) db)"
  shows "tells_spends cl rnd net row_of (newest_within TARGET_SIZE blocks) (ns_live_pir s)"
  unfolding tells_spends_def
proof (intro allI impI)
  let ?held = "newest_within TARGET_SIZE blocks"
  fix nf c w decoded c' w'
  assume nf: "nf \<noteq> ZERO_NF" and trip: "sc_round_trip cl rnd net (hash_to_bucket nf) c w = (Inr decoded, c', w')"
    and row: "take BUCKET_BYTES decoded = row_of (np_engine_state (ns_live_pir s)) (hash_to_bucket nf)"
  have holds: "holds (ns_table s) ?held" and engine: "engine_setup (to_pir_bytes (ns_table s)) = Inr (np_engine_state (ns_live_pir s))"
    using s by (simp_all add: nf_serving_def)
  have "take BUCKET_BYTES decoded = take BUCKET_BYTES (drop (hash_to_bucket nf * BUCKET_BYTES) (to_pir_bytes (ns_table s)))"
    using row rows engine by simp
  note scan = holds_scan [OF holds nf this]
  have "is_spent cl rnd net nf c w = (Inr (scan_bucket_for_nf decoded nf), c', w')" using trip by (simp add: is_spent_def)
  then show "\<exists>m. is_spent cl rnd net nf c w = (Inr m, c', w')
      \<and> (case m of None \<Rightarrow> \<forall>b \<in> set ?held. nf \<notin> set (extract_nullifiers b)
         | Some d \<Rightarrow> \<exists>b \<in> set ?held. nf \<in> set (extract_nullifiers b) \<and> sm_spend_height d = ucast (cb_height b))"
    using scan by (cases "scan_bucket_for_nf decoded nf") (auto simp: chain_nfs_def)
qed

text \<open>
  C13. From the chain to the wallet: a nullifier server started without a snapshot on an honest lightwalletd, over a chain of at most 112 nullifiers a
  bucket, reaches serving: the forward sync and the backfill end, with the blocks down to the floor of the network or to the first
  batch with which there are as many nullifiers as wanted. Then, and after any further blocks of the chain, every client that receives the row the
  engine answers learns of a nullifier exactly whether one of the last blocks spends it, as many blocks as the target size allows, and at which height. The last block counts: the code holds nothing back for
  confirmations, although the README of the nullifier crates says that it does.
\<close>

theorem spentness_exact:
  assumes lwd: "\<forall>a b. block_range a b = Inr (blocks_between chain a b)" and chain: "nf_chain_ok chain"
    and tip: "1 \<le> tip" "unat tip + 10000 < 2 ^ 64" and engine: "\<forall>rows. \<exists>st. engine_setup rows = Inr st"
    and rows: "\<forall>db e r. engine_setup db = Inr e \<longrightarrow> row_of e r = take BUCKET_BYTES (drop (r * BUCKET_BYTES) db)"
    and floor: "floor = min_sync_height network tip"
  shows "\<exists>s start. nf_server_start xxh64 engine_setup block_range network tip wanted None = Some (Inr s)
    \<and> floor \<le> start \<and> (start = floor \<or> wanted \<le> length (chain_nfs (blocks_between chain start tip)))
    \<and> (\<forall>new prev interval. nf_chain_ok (blocks_between chain start tip @ new) \<longrightarrow>
         (\<exists>s'. nf_serve_events xxh64 engine_setup interval (fst (nf_sync_events new prev)) s = Inr s' \<and> ns_phase s' = Serving
            \<and> tells_spends cl rnd net row_of (newest_within TARGET_SIZE (blocks_between chain start tip @ new)) (ns_live_pir s')))"
proof -
  obtain s start where s: "nf_server_start xxh64 engine_setup block_range network tip wanted None = Some (Inr s)" "floor \<le> start"
    "start = floor \<or> wanted \<le> length (chain_nfs (blocks_between chain start tip))" "nf_serving engine_setup (blocks_between chain start tip) s"
    by (rule nf_start_serves [OF lwd chain tip engine floor])
  have "\<exists>s'. nf_serve_events xxh64 engine_setup interval (fst (nf_sync_events new prev)) s = Inr s' \<and> ns_phase s' = Serving
      \<and> tells_spends cl rnd net row_of (newest_within TARGET_SIZE (blocks_between chain start tip @ new)) (ns_live_pir s')"
    if grown: "nf_chain_ok (blocks_between chain start tip @ new)" for new prev interval
  proof -
    obtain s' where s': "nf_serve_events xxh64 engine_setup interval (fst (nf_sync_events new prev)) s = Inr s'"
      "nf_serving engine_setup (blocks_between chain start tip @ new) s'"
      using nf_serve_growth [OF engine s(4) grown] by blast
    then show ?thesis using serving_tells_spends [OF s'(2) rows] by (auto simp: nf_serving_def)
  qed
  then show ?thesis using s(1, 2, 3) by (intro exI [of _ s] exI [of _ start]) simp
qed

text \<open>One block with one nullifier, and an engine that keeps the rows in the clear.\<close>

definition nf_chain_block :: compact_block where
  "nf_chain_block =
     \<lparr> cb_height = 1, cb_hash = replicate 32 9, cb_prev_hash = replicate 32 0,
       cb_vtx = [\<lparr> ct_ironwood_actions = [\<lparr> ca_nullifier = nm_nullifier (sample_nf 5), ca_cmx = [], ca_ephemeral_key = [], ca_ciphertext = [] \<rparr>] \<rparr>],
       cb_tree_size = Some 1 \<rparr>"

lemma nf_chain_block_nfs: "extract_nullifiers nf_chain_block = [nm_nullifier (sample_nf 5)]"
  by (simp add: nf_chain_block_def extract_nullifiers_def sample_nf_def)

lemma nf_chain_one: "nf_chain_ok [nf_chain_block]"
  using sample_nf_nonzero [of 5] by (auto simp: nf_chain_ok_def nf_chain_block_nfs bucket_load_def BUCKET_CAPACITY_def)

definition one_block_server :: "bytes nf_server" where
  "one_block_server =
     projr (the (nf_server_start (\<lambda>_. 0) Inr (\<lambda>a b. Inr (blocks_between [nf_chain_block] a b)) None 1 10 None))"

definition bucket_row :: "bytes \<Rightarrow> nat \<Rightarrow> bytes" where
  "bucket_row db r = take BUCKET_BYTES (drop (r * BUCKET_BYTES) db)"

text \<open>The server's answer to a query for the bucket of \<open>nf\<close>, under the epoch the client holds.\<close>

definition bucket_net :: "bytes \<Rightarrow> unit witness_net" where
  "bucket_net nf = \<lparr> net_get = (\<lambda>path w. (Inl ''no route'', w)),
     net_post = (\<lambda>body w. (Inr (200, Inr (replicate 8 9 @ bucket_row (np_engine_state (ns_live_pir one_block_server)) (hash_to_bucket nf))), w)) \<rparr>"

definition clear_spender :: spend_client where
  "clear_spender = \<lparr> sc_num_items = 16384, sc_item_size_bits = 36736,
     sc_metadata = \<lparr> sb_earliest_height = 1, sb_latest_height = 1, sb_num_nullifiers = 1, sb_num_buckets = 16384, sb_phase = Serving, sb_pool = ''ironwood'' \<rparr>,
     sc_rlwe = sample_rlwe, sc_ypir = sample_scheme 8192, sc_setup = [], sc_published = \<lparr> pp_c1 = [], pp_epoch = replicate 8 9 \<rparr> \<rparr>"

lemma bucket_round_trip:
  "sc_round_trip clear_client rnd (bucket_net nf) row_idx clear_spender ()
     = (Inr (bucket_row (np_engine_state (ns_live_pir one_block_server)) (hash_to_bucket nf)), clear_spender, ())"
  by (simp add: sc_round_trip_def sc_attempt_def sc_generate_query_def clear_client_def clear_spender_def sc_post_query_def
      bucket_net_def sc_body_def split_epoch_def PIR_EPOCH_BYTES_def)

theorem spentness_exact_witness:
  "\<exists>d. is_spent clear_client (\<lambda>_. 0) (bucket_net (nm_nullifier (sample_nf 5))) (nm_nullifier (sample_nf 5)) clear_spender () = (Inr (Some d), clear_spender, ())
     \<and> sm_spend_height d = 1
     \<and> is_spent clear_client (\<lambda>_. 0) (bucket_net (nm_nullifier (sample_nf 6))) (nm_nullifier (sample_nf 6)) clear_spender () = (Inr None, clear_spender, ())"
proof -
  let ?chain = "[nf_chain_block]"
  have h: "\<forall>a b. (Inr (blocks_between ?chain a b) :: string + compact_block list) = Inr (blocks_between ?chain a b)" "(1::u64) \<le> 1" "unat (1::u64) + 10000 < 2 ^ 64"
    "\<forall>rows. \<exists>st. (Inr rows :: string + bytes) = Inr st"
    "\<forall>db e r. (Inr db :: string + bytes) = Inr e \<longrightarrow> bucket_row e r = take BUCKET_BYTES (drop (r * BUCKET_BYTES) db)" "(1::u64) = min_sync_height None 1"
    by (simp_all add: min_sync_height_def bucket_row_def)
  have small: "length (chain_nfs (blocks_between ?chain a b)) \<le> 1" for a b by (simp add: blocks_between_def nf_chain_block_nfs)
  have tells: "tells_spends clear_client (\<lambda>_. 0) (bucket_net nf) bucket_row ?chain (ns_live_pir one_block_server)" for nf
  proof -
    obtain s and start :: u64 where s: "nf_server_start (\<lambda>_. 0) Inr (\<lambda>a b. Inr (blocks_between ?chain a b)) None 1 10 None = Some (Inr s)"
      and start: "1 \<le> start" "start = 1 \<or> 10 \<le> length (chain_nfs (blocks_between ?chain start 1))"
      and serve: "\<forall>new prev interval. nf_chain_ok (blocks_between ?chain start 1 @ new) \<longrightarrow>
        (\<exists>s'. nf_serve_events (\<lambda>_. 0) Inr interval (fst (nf_sync_events new prev)) s = Inr s' \<and> ns_phase s' = Serving
           \<and> tells_spends clear_client (\<lambda>_. 0) (bucket_net nf) bucket_row (newest_within TARGET_SIZE (blocks_between ?chain start 1 @ new)) (ns_live_pir s'))"
      using spentness_exact [where ?xxh64.0 = "\<lambda>_. 0" and engine_setup = Inr and wanted = 10 and row_of = bucket_row and cl = clear_client
          and rnd = "\<lambda>_. 0" and net = "bucket_net nf", OF h(1) nf_chain_one h(2, 3, 4, 5, 6)] by blast
    have "start = 1" using start small [of start 1] by simp
    then have blocks: "blocks_between ?chain start 1 = ?chain" by (simp add: blocks_between_def nf_chain_block_def)
    have "newest_within TARGET_SIZE ?chain = ?chain" by (simp add: nf_chain_block_nfs TARGET_SIZE_def)
    moreover have "one_block_server = s" using s by (simp add: one_block_server_def)
    ultimately show ?thesis using serve [unfolded blocks, rule_format, of "[]"] nf_chain_one by (auto simp: nf_serve_events_def)
  qed
  have answer: "\<exists>m. is_spent clear_client (\<lambda>_. 0) (bucket_net nf) nf clear_spender () = (Inr m, clear_spender, ())
      \<and> (case m of None \<Rightarrow> nf \<noteq> nm_nullifier (sample_nf 5) | Some d \<Rightarrow> nf = nm_nullifier (sample_nf 5) \<and> sm_spend_height d = 1)" if nz: "nf \<noteq> ZERO_NF" for nf
  proof -
    have row: "take BUCKET_BYTES (bucket_row db r) = bucket_row db r" for db r by (simp add: bucket_row_def)
    obtain m where "is_spent clear_client (\<lambda>_. 0) (bucket_net nf) nf clear_spender () = (Inr m, clear_spender, ())"
      "case m of None \<Rightarrow> \<forall>b \<in> set ?chain. nf \<notin> set (extract_nullifiers b)
       | Some d \<Rightarrow> \<exists>b \<in> set ?chain. nf \<in> set (extract_nullifiers b) \<and> sm_spend_height d = ucast (cb_height b)"
      using tells [of nf, unfolded tells_spends_def, rule_format, OF nz bucket_round_trip row] by blast
    then show ?thesis by (intro exI [of _ m]) (auto simp: nf_chain_block_nfs split: option.splits, auto simp: nf_chain_block_def)
  qed
  have "nm_nullifier (sample_nf 6) \<noteq> nm_nullifier (sample_nf 5)" by (simp add: sample_nf_def)
  then show ?thesis using answer [OF sample_nf_nonzero [of 5]] answer [OF sample_nf_nonzero [of 6]] by (auto split: option.splits)
qed

end
