(* ===== verification/Alert_Engine.thy ===== *)
theory Alert_Engine
  imports Complex_Main Prelude "HOL-Library.List_Lexorder" "HOL-Library.Char_ord"
begin

text \<open>
  The paging rules of the monitoring sidecar: \<open>server/pir-apm/src/alerts.rs\<close> with \<open>thresholds.rs\<close>, the schema of \<open>schema.rs\<close> and the part of the loop of
  \<open>main.rs\<close> that drives them. Floats are rationals (no value is NaN or infinite), an \<open>Instant\<close> is its number of nanoseconds, the readings of the
  system clock during an evaluation are a parameter, and a message is its format with the values it prints.
\<close>

section \<open>Thresholds and schema\<close>

definition SCRAPE_FAILURE_TICKS :: u32 where "SCRAPE_FAILURE_TICKS = 2"
definition READY_FAILURE_SECONDS :: u64 where "READY_FAILURE_SECONDS = 5 * 60"
definition HTTP_5XX_RATIO :: rat where "HTTP_5XX_RATIO = 5 / 100"
definition HTTP_5XX_MIN_REQUESTS :: rat where "HTTP_5XX_MIN_REQUESTS = 10"
definition DEFAULT_LATENCY_P99_SECONDS :: rat where "DEFAULT_LATENCY_P99_SECONDS = 1"
definition LATENCY_MIN_REQUESTS :: rat where "LATENCY_MIN_REQUESTS = 20"
definition DISK_USED_RATIO :: rat where "DISK_USED_RATIO = 90 / 100"
definition MEMORY_AVAILABLE_BYTES :: u64 where "MEMORY_AVAILABLE_BYTES = 512 * 1024 * 1024"
definition WORKER_RSS_LIMIT_BYTES :: u64 where "WORKER_RSS_LIMIT_BYTES = 2 * 1024 * 1024 * 1024"

record schema =
  sc_prefix :: string
  sc_endpoints :: "string list"
  sc_processing_endpoints :: "string list"
  sc_informational_endpoints :: "string list"
  sc_default_latency_p99 :: rat
  sc_latency_overrides :: "(string, rat) btree"

datatype schema_error = Bad_prefix string | No_endpoint | Bad_endpoint string | Duplicate_endpoint string | Bad_override string | Bad_budget string | Bad_default

definition is_identifier :: "string \<Rightarrow> bool" where
  "is_identifier s \<longleftrightarrow> s \<noteq> [] \<and> list_all (\<lambda>c. (CHR ''a'' \<le> c \<and> c \<le> CHR ''z'') \<or> (CHR ''0'' \<le> c \<and> c \<le> CHR ''9'') \<or> c = CHR ''_'') s"

fun check_endpoints :: "string list \<Rightarrow> string list \<Rightarrow> schema_error + unit" where
  "check_endpoints seen [] = Inr ()"
| "check_endpoints seen (endpoint # rest) =
     (if \<not> is_identifier endpoint then Inl (Bad_endpoint endpoint)
      else if endpoint \<in> set seen then Inl (Duplicate_endpoint endpoint)
      else check_endpoints (endpoint # seen) rest)"

fun check_overrides :: "(string, rat) btree \<Rightarrow> schema_error + unit" where
  "check_overrides [] = Inr ()"
| "check_overrides ((endpoint, budget) # rest) =
     (if \<not> is_identifier endpoint then Inl (Bad_override endpoint)
      else if \<not> budget > 0 then Inl (Bad_budget endpoint)
      else check_overrides rest)"

text \<open>The names of the metric families, which are the prefix with a fixed suffix each, are left out; the sets are lists in key order.\<close>

definition schema_new :: "string \<Rightarrow> string list \<Rightarrow> string list \<Rightarrow> string list \<Rightarrow> rat \<Rightarrow> (string, rat) btree \<Rightarrow> schema_error + schema" where
  "schema_new prefix endpoints processing informational default_latency overrides =
     (if \<not> is_identifier prefix then Inl (Bad_prefix prefix)
      else if endpoints = [] then Inl No_endpoint
      else bindR (check_endpoints [] endpoints) (\<lambda>_.
        case find (\<lambda>e. \<not> is_identifier e) (processing @ informational) of
          Some e \<Rightarrow> Inl (Bad_endpoint e)
        | None \<Rightarrow>
            bindR (check_overrides overrides) (\<lambda>_.
              if \<not> default_latency > 0 then Inl Bad_default
              else Inr \<lparr> sc_prefix = prefix, sc_endpoints = endpoints, sc_processing_endpoints = processing,
                         sc_informational_endpoints = informational, sc_default_latency_p99 = default_latency,
                         sc_latency_overrides = overrides \<rparr>)))"

definition enhance_default :: "schema_error + schema" where
  "enhance_default = schema_new ''enhance'' [''health'', ''init'', ''query''] [''query''] [''health''] DEFAULT_LATENCY_P99_SECONDS [(''init'', 2), (''query'', 5)]"

definition schema_knows :: "schema \<Rightarrow> string \<Rightarrow> bool" where
  "schema_knows s endpoint \<longleftrightarrow> endpoint \<in> set (sc_endpoints s)"

definition schema_uses_processing :: "schema \<Rightarrow> string \<Rightarrow> bool" where
  "schema_uses_processing s endpoint \<longleftrightarrow> endpoint \<in> set (sc_processing_endpoints s)"

definition is_informational :: "schema \<Rightarrow> string \<Rightarrow> bool" where
  "is_informational s endpoint \<longleftrightarrow> endpoint \<in> set (sc_informational_endpoints s)"

definition latency_budget :: "schema \<Rightarrow> string \<Rightarrow> rat option" where
  "latency_budget s endpoint =
     (if is_informational s endpoint then None
      else Some (case map_of (sc_latency_overrides s) endpoint of Some b \<Rightarrow> b | None \<Rightarrow> sc_default_latency_p99 s))"

definition observed_budget :: "schema \<Rightarrow> string \<Rightarrow> rat option" where
  "observed_budget s endpoint = (if schema_uses_processing s endpoint then None else latency_budget s endpoint)"

section \<open>The engine\<close>

record latency_window =
  lw_samples :: rat
  lw_p50 :: "rat option"
  lw_p95 :: "rat option"
  lw_p99 :: "rat option"

record endpoint_window =
  ew_qps :: rat
  ew_requests :: rat
  ew_errors_5xx :: rat
  ew_error_ratio :: rat
  ew_observed :: latency_window
  ew_processing :: latency_window
  ew_in_flight :: rat
  ew_processing_in_flight :: rat
  ew_processing_available :: bool

definition alert_latency :: "bool \<Rightarrow> endpoint_window \<Rightarrow> latency_window" where
  "alert_latency uses_processing w = (if uses_processing then ew_processing w else ew_observed w)"

record host_health =
  hh_load_one :: rat
  hh_load_five :: rat
  hh_load_fifteen :: rat
  hh_total_memory_bytes :: u64
  hh_available_memory_bytes :: u64
  hh_disk_total_bytes :: u64
  hh_disk_available_bytes :: u64
  hh_disk_used_ratio :: rat
  hh_data_dir :: string

datatype alert_text =
    Failed_ticks u32 | Ticks u32 | Non_200_for nat | Seconds u64
  | Percent_over rat rat | Over_percent_min rat rat
  | Latency_over string rat rat | Latency_unavailable string | Latency_limit string rat rat
  | Percent_used rat | Over_percent rat | MiB_available u64 | MiB_below u64
  | Replicas_ready rat rat | All_replicas_ready | MiB_resident rat | MiB_limit u64

record alert =
  al_check :: string
  al_observed :: alert_text
  al_threshold :: alert_text
  al_fired_at :: nat

datatype alert_transition = Fired alert | Recovered alert

datatype recent_message = Fired_message string alert_text | Recovered_message string

type_synonym gauges = "(string, rat) btree"

record alert_engine =
  ae_schema :: schema
  ae_active :: "(string, alert) btree"
  ae_recent :: "(nat \<times> recent_message) list"
  ae_scrape_failures :: u32
  ae_ready_failed_since :: "nat option"
  ae_worker_groups :: "(string, (string, gauges) btree) btree"
  ae_workers :: "(string, gauges) btree"

record alert_input =
  ai_now :: nat
  ai_scrape_ok :: bool
  ai_ready_ok :: bool
  ai_endpoints :: "(string, endpoint_window) btree"
  ai_host :: host_health

definition engine_new :: "schema \<Rightarrow> alert_engine" where
  "engine_new s = \<lparr> ae_schema = s, ae_active = [], ae_recent = [], ae_scrape_failures = 0, ae_ready_failed_since = None,
     ae_worker_groups = [], ae_workers = [] \<rparr>"

definition set_worker_groups :: "(string, (string, gauges) btree) btree \<Rightarrow> alert_engine \<Rightarrow> alert_engine" where
  "set_worker_groups groups e = e \<lparr> ae_worker_groups := groups \<rparr>"

definition set_workers :: "(string, gauges) btree \<Rightarrow> alert_engine \<Rightarrow> alert_engine" where
  "set_workers workers e = e \<lparr> ae_workers := workers \<rparr>"

subsection \<open>Conditions\<close>

type_synonym conditions = "(string, bool \<times> alert_text \<times> alert_text) btree"

definition gauge_or_zero :: "gauges \<Rightarrow> string \<Rightarrow> rat" where
  "gauge_or_zero g name = (case map_of g name of Some v \<Rightarrow> v | None \<Rightarrow> 0)"

definition NANOS :: nat where "NANOS = 1000000000"

definition ready_failed_for :: "alert_engine \<Rightarrow> nat \<Rightarrow> nat" where
  "ready_failed_for e now = (case ae_ready_failed_since e of Some since \<Rightarrow> now - since | None \<Rightarrow> 0)"

definition service_conditions :: "alert_engine \<Rightarrow> alert_input \<Rightarrow> conditions \<Rightarrow> conditions" where
  "service_conditions e i cs =
     (let failed_for = ready_failed_for e (ai_now i) in
      bt_insert ''ready'' (\<not> ai_ready_ok i \<and> failed_for \<ge> unat READY_FAILURE_SECONDS * NANOS, Non_200_for (failed_for div NANOS), Seconds READY_FAILURE_SECONDS)
     (bt_insert ''scrape_failure'' (ae_scrape_failures e \<ge> SCRAPE_FAILURE_TICKS, Failed_ticks (ae_scrape_failures e), Ticks SCRAPE_FAILURE_TICKS) cs))"

definition endpoint_conditions :: "schema \<Rightarrow> string \<times> endpoint_window \<Rightarrow> conditions \<Rightarrow> conditions" where
  "endpoint_conditions s = (\<lambda>(endpoint, window) cs.
     if is_informational s endpoint then cs
     else
       let cs = bt_insert (endpoint @ ''_5xx'')
             (ew_requests window \<ge> HTTP_5XX_MIN_REQUESTS \<and> ew_error_ratio window > HTTP_5XX_RATIO,
              Percent_over (ew_error_ratio window * 100) (ew_requests window), Over_percent_min (HTTP_5XX_RATIO * 100) HTTP_5XX_MIN_REQUESTS) cs;
           uses_processing = schema_uses_processing s endpoint \<or> ew_processing_available window;
           latency_label = (if uses_processing then ''post-body server p99'' else ''p99'');
           latency_threshold = (case latency_budget s endpoint of Some b \<Rightarrow> b | None \<Rightarrow> DEFAULT_LATENCY_P99_SECONDS);
           latency = alert_latency uses_processing window
       in bt_insert (endpoint @ ''_high_latency'')
            (lw_samples latency \<ge> LATENCY_MIN_REQUESTS \<and> (case lw_p99 latency of Some p99 \<Rightarrow> p99 > latency_threshold | None \<Rightarrow> False),
             (case lw_p99 latency of Some p99 \<Rightarrow> Latency_over latency_label p99 (lw_samples latency) | None \<Rightarrow> Latency_unavailable latency_label),
             Latency_limit latency_label latency_threshold LATENCY_MIN_REQUESTS) cs)"

definition host_conditions :: "host_health \<Rightarrow> conditions \<Rightarrow> conditions" where
  "host_conditions h cs =
     bt_insert ''memory_available'' (hh_available_memory_bytes h < MEMORY_AVAILABLE_BYTES,
         MiB_available (hh_available_memory_bytes h div 1024 div 1024), MiB_below (MEMORY_AVAILABLE_BYTES div 1024 div 1024))
     (bt_insert ''disk_usage'' (hh_disk_used_ratio h > DISK_USED_RATIO, Percent_used (hh_disk_used_ratio h * 100), Over_percent (DISK_USED_RATIO * 100)) cs)"

definition group_condition :: "string \<Rightarrow> string \<times> gauges \<Rightarrow> conditions \<Rightarrow> conditions" where
  "group_condition table = (\<lambda>(group, g).
     let configured = gauge_or_zero g ''configured_replicas''; ready = gauge_or_zero g ''ready_replicas'' in
     bt_insert (''worker_group_'' @ table @ ''_'' @ group) (configured > 0 \<and> ready < configured, Replicas_ready ready configured, All_replicas_ready))"

definition worker_condition :: "string \<times> gauges \<Rightarrow> conditions \<Rightarrow> conditions" where
  "worker_condition = (\<lambda>(worker, g).
     let rss = gauge_or_zero g ''process_rss_bytes'' in
     bt_insert (''worker_rss_'' @ worker)
       (rss > of_nat (unat WORKER_RSS_LIMIT_BYTES), MiB_resident (rss / 1024 / 1024), MiB_limit (WORKER_RSS_LIMIT_BYTES div 1024 div 1024)))"

definition conditions :: "alert_engine \<Rightarrow> alert_input \<Rightarrow> conditions" where
  "conditions e i =
     fold worker_condition (ae_workers e)
    (fold (\<lambda>(table, groups). fold (group_condition table) groups) (ae_worker_groups e)
    (host_conditions (ai_host i)
    (fold (endpoint_conditions (ae_schema e)) (ai_endpoints i)
    (service_conditions e i []))))"

subsection \<open>Transitions\<close>

definition record_message :: "nat \<Rightarrow> recent_message \<Rightarrow> alert_engine \<Rightarrow> alert_engine" where
  "record_message stamp message e = e \<lparr> ae_recent := take 20 ((stamp, message) # ae_recent e) \<rparr>"

text \<open>\<open>clock n\<close> is the n-th reading of the system clock in this evaluation.\<close>

fun transitions :: "(nat \<Rightarrow> nat) \<Rightarrow> nat \<Rightarrow> conditions \<Rightarrow> alert_engine \<Rightarrow> alert_transition list \<times> alert_engine" where
  "transitions clock n [] e = ([], e)"
| "transitions clock n ((check, firing, observed, threshold) # cs) e =
     (case (firing, map_of (ae_active e) check) of
        (True, None) \<Rightarrow>
          (let alert = \<lparr> al_check = check, al_observed = observed, al_threshold = threshold, al_fired_at = clock n \<rparr>;
               e = record_message (clock (n + 1)) (Fired_message check observed) (e \<lparr> ae_active := bt_insert check alert (ae_active e) \<rparr>)
           in case transitions clock (n + 2) cs e of (ts, e) \<Rightarrow> (Fired alert # ts, e))
      | (False, Some alert) \<Rightarrow>
          (let e = record_message (clock n) (Recovered_message (al_check alert)) (e \<lparr> ae_active := bt_remove check (ae_active e) \<rparr>)
           in case transitions clock (n + 1) cs e of (ts, e) \<Rightarrow> (Recovered alert # ts, e))
      | _ \<Rightarrow> transitions clock n cs e)"

definition observe :: "alert_input \<Rightarrow> alert_engine \<Rightarrow> alert_engine" where
  "observe i e = e \<lparr> ae_scrape_failures := if ai_scrape_ok i then 0 else saturating_add (ae_scrape_failures e) 1,
     ae_ready_failed_since := if ai_ready_ok i then None else Some (case ae_ready_failed_since e of Some since \<Rightarrow> since | None \<Rightarrow> ai_now i) \<rparr>"

definition evaluate :: "(nat \<Rightarrow> nat) \<Rightarrow> alert_input \<Rightarrow> alert_engine \<Rightarrow> alert_transition list \<times> alert_engine" where
  "evaluate clock i e = (let e = observe i e in transitions clock 0 (conditions e i) e)"

definition active_alerts :: "alert_engine \<Rightarrow> alert list" where
  "active_alerts e = map snd (ae_active e)"

definition recent_alerts :: "alert_engine \<Rightarrow> (nat \<times> recent_message) list" where
  "recent_alerts e = ae_recent e"

text \<open>One turn of the scrape loop, once the metrics are read.\<close>

record apm_tick =
  tk_worker_groups :: "(string, (string, gauges) btree) btree"
  tk_workers :: "(string, gauges) btree"
  tk_input :: alert_input
  tk_clock :: "nat \<Rightarrow> nat"

definition apm_step :: "apm_tick \<Rightarrow> alert_engine \<Rightarrow> alert_transition list \<times> alert_engine" where
  "apm_step t e = evaluate (tk_clock t) (tk_input t) (set_workers (tk_workers t) (set_worker_groups (tk_worker_groups t) e))"

fun apm_run :: "apm_tick list \<Rightarrow> alert_engine \<Rightarrow> alert_transition list \<times> alert_engine" where
  "apm_run [] e = ([], e)"
| "apm_run (t # ts) e = (case apm_step t e of (tr, e) \<Rightarrow> case apm_run ts e of (trs, e) \<Rightarrow> (tr @ trs, e))"

section \<open>What is active\<close>

text \<open>One evaluation: a check with a condition is active afterwards exactly when it fires, every other check stays as it was.\<close>

lemma transitions_keep:
  "ae_schema (snd (transitions clock n cs e)) = ae_schema e \<and> ae_scrape_failures (snd (transitions clock n cs e)) = ae_scrape_failures e
     \<and> ae_ready_failed_since (snd (transitions clock n cs e)) = ae_ready_failed_since e"
  by (induction clock n cs e rule: transitions.induct) (auto simp: Let_def record_message_def case_prod_unfold split: option.splits bool.splits)

lemma transitions_ok: "bt_ok (ae_active e) \<Longrightarrow> bt_ok (ae_active (snd (transitions clock n cs e)))"
  by (induction clock n cs e rule: transitions.induct) (auto simp: Let_def record_message_def case_prod_unfold split: option.splits bool.splits)

lemma transitions_recent: "length (ae_recent e) \<le> 20 \<Longrightarrow> length (ae_recent (snd (transitions clock n cs e))) \<le> 20"
  by (induction clock n cs e rule: transitions.induct) (auto simp: Let_def record_message_def case_prod_unfold split: option.splits bool.splits)

definition is_active :: "string \<Rightarrow> alert_engine \<Rightarrow> bool" where
  "is_active c e \<longleftrightarrow> map_of (ae_active e) c \<noteq> None"

lemma record_active [simp]: "ae_active (record_message stamp m e) = ae_active e" "is_active c (record_message stamp m e) = is_active c e"
  by (simp_all add: is_active_def record_message_def)

lemma is_active_update:
  "bt_ok (ae_active e) \<Longrightarrow> is_active c (e \<lparr> ae_active := bt_insert k a (ae_active e) \<rparr>) \<longleftrightarrow> c = k \<or> is_active c e"
  "is_active c (e \<lparr> ae_active := bt_remove k (ae_active e) \<rparr>) \<longleftrightarrow> c \<noteq> k \<and> is_active c e"
  by (auto simp: is_active_def map_of_bt_remove)

lemma transitions_active:
  "bt_ok (ae_active e) \<Longrightarrow> distinct (map fst cs) \<Longrightarrow>
     is_active c (snd (transitions clock n cs e)) = (case map_of cs c of Some (firing, _) \<Rightarrow> firing | None \<Rightarrow> is_active c e)"
proof (induction cs arbitrary: n e)
  case (Cons x cs)
  obtain check firing observed threshold where x: "x = (check, firing, observed, threshold)" by (cases x)
  have rest: "map_of cs check = None" using Cons.prems(2) x by (simp add: map_of_eq_None_iff)
  consider (fire) "firing" "map_of (ae_active e) check = None" | (recover) a where "\<not> firing" "map_of (ae_active e) check = Some a"
    | (same) "firing \<longleftrightarrow> is_active check e" by (fastforce simp: is_active_def)
  then show ?case
  proof cases
    case fire
    then show ?thesis using Cons rest x by (auto simp: Let_def case_prod_unfold is_active_update split: option.split)
  next
    case recover
    then show ?thesis using Cons rest x by (auto simp: Let_def case_prod_unfold is_active_update split: option.split)
  next
    case same
    then show ?thesis using Cons rest x by (cases "map_of (ae_active e) check"; cases firing) (auto simp: is_active_def)
  qed
qed simp

text \<open>The transitions of a check, as whether each is a firing.\<close>

definition transition_alert :: "alert_transition \<Rightarrow> alert" where
  "transition_alert t = (case t of Fired a \<Rightarrow> a | Recovered a \<Rightarrow> a)"

definition is_fired :: "alert_transition \<Rightarrow> bool" where
  "is_fired t \<longleftrightarrow> (case t of Fired _ \<Rightarrow> True | Recovered _ \<Rightarrow> False)"

definition transitions_of :: "string \<Rightarrow> alert_transition list \<Rightarrow> bool list" where
  "transitions_of c ts = map is_fired (filter (\<lambda>t. al_check (transition_alert t) = c) ts)"

fun alternating :: "bool \<Rightarrow> bool list \<Rightarrow> bool" where
  "alternating b [] \<longleftrightarrow> True"
| "alternating b (x # xs) \<longleftrightarrow> x = b \<and> alternating (\<not> b) xs"

lemma alternating_append: "alternating b (xs @ ys) \<longleftrightarrow> alternating b xs \<and> alternating (b \<noteq> odd (length xs)) ys"
  by (induction b xs rule: alternating.induct) auto

lemma transitions_of_simps [simp]:
  "transitions_of c [] = []" "transitions_of c (xs @ ys) = transitions_of c xs @ transitions_of c ys"
  "transitions_of c (t # ts) = (if al_check (transition_alert t) = c then is_fired t # transitions_of c ts else transitions_of c ts)"
  by (simp_all add: transitions_of_def)

text \<open>An alert is filed under its check.\<close>

definition keyed :: "alert_engine \<Rightarrow> bool" where
  "keyed e \<longleftrightarrow> bt_ok (ae_active e) \<and> (\<forall>(c, a) \<in> set (ae_active e). al_check a = c)"

lemma keyed_step:
  "keyed e \<Longrightarrow> keyed (record_message stamp m e)"
  "keyed e \<Longrightarrow> keyed (e \<lparr> ae_active := bt_insert c \<lparr> al_check = c, al_observed = obs, al_threshold = th, al_fired_at = k \<rparr> (ae_active e) \<rparr>)"
  "keyed e \<Longrightarrow> keyed (e \<lparr> ae_active := bt_remove c (ae_active e) \<rparr>)"
  by (auto simp: keyed_def record_message_def set_bt_insert bt_remove_def)

lemma keyed_get: "keyed e \<Longrightarrow> map_of (ae_active e) c = Some a \<Longrightarrow> al_check a = c"
  by (auto simp: keyed_def dest!: map_of_SomeD)

lemma transitions_alternate:
  "keyed e \<Longrightarrow> keyed (snd (transitions clock n cs e)) \<and> alternating (\<not> is_active c e) (transitions_of c (fst (transitions clock n cs e)))
     \<and> is_active c (snd (transitions clock n cs e)) = (is_active c e \<noteq> odd (length (transitions_of c (fst (transitions clock n cs e)))))"
proof (induction cs arbitrary: n e)
  case (Cons x cs)
  obtain check firing observed threshold where x: "x = (check, firing, observed, threshold)" by (cases x)
  consider (fire) "firing" "map_of (ae_active e) check = None" | (recover) a where "\<not> firing" "map_of (ae_active e) check = Some a"
    | (same) "firing \<longleftrightarrow> map_of (ae_active e) check \<noteq> None" by fastforce
  then show ?case
  proof cases
    case fire
    let ?a = "\<lparr> al_check = check, al_observed = observed, al_threshold = threshold, al_fired_at = clock n \<rparr>"
    let ?e = "record_message (clock (n + 1)) (Fired_message check observed) (e \<lparr> ae_active := bt_insert check ?a (ae_active e) \<rparr>)"
    have "keyed ?e" using Cons.prems by (intro keyed_step)
    moreover have "is_active c ?e \<longleftrightarrow> c = check \<or> is_active c e" using Cons.prems by (simp add: is_active_update keyed_def)
    moreover have "\<not> is_active check e" using fire by (simp add: is_active_def)
    ultimately show ?thesis using Cons.IH [of ?e "n + 2"] fire x by (auto simp: Let_def case_prod_unfold transition_alert_def is_fired_def)
  next
    case recover
    let ?e = "record_message (clock n) (Recovered_message (al_check a)) (e \<lparr> ae_active := bt_remove check (ae_active e) \<rparr>)"
    have "keyed ?e" using Cons.prems by (intro keyed_step)
    moreover have "is_active c ?e \<longleftrightarrow> c \<noteq> check \<and> is_active c e" by (simp add: is_active_update)
    moreover have "is_active check e" using recover by (simp add: is_active_def)
    moreover have "al_check a = check" by (rule keyed_get [OF Cons.prems recover(2)])
    ultimately show ?thesis using Cons.IH [of ?e "n + 1"] recover x by (auto simp: Let_def case_prod_unfold transition_alert_def is_fired_def)
  next
    case same
    then show ?thesis using Cons x by (cases "map_of (ae_active e) check"; cases firing) auto
  qed
qed simp

section \<open>The conditions\<close>

text \<open>Adding conditions under other names leaves a condition alone.\<close>

definition adds_apart :: "string \<Rightarrow> (conditions \<Rightarrow> conditions) \<Rightarrow> bool" where
  "adds_apart k f \<longleftrightarrow> (\<forall>cs. bt_ok cs \<longrightarrow> bt_ok (f cs) \<and> map_of (f cs) k = map_of cs k)"

lemma adds_apart_insert: "c \<noteq> k \<Longrightarrow> adds_apart k (bt_insert c v)"
  by (simp add: adds_apart_def)

lemma adds_apart_fold:
  assumes "\<And>x. adds_apart k (f x)"
  shows "adds_apart k (fold f xs)"
  unfolding adds_apart_def
proof (intro allI impI)
  show "bt_ok cs \<Longrightarrow> bt_ok (fold f xs cs) \<and> map_of (fold f xs cs) k = map_of cs k" for cs
    using assms by (induction xs arbitrary: cs) (auto simp: adds_apart_def)
qed

lemma apartD: "adds_apart k f \<Longrightarrow> bt_ok cs \<Longrightarrow> bt_ok (f cs)" "adds_apart k f \<Longrightarrow> bt_ok cs \<Longrightarrow> map_of (f cs) k = map_of cs k"
  by (simp_all add: adds_apart_def)

lemma name_apart:
  assumes k: "k = ''scrape_failure'' \<or> k = ''ready''"
  shows "endpoint @ ''_5xx'' \<noteq> k" "endpoint @ ''_high_latency'' \<noteq> k" "''worker_group_'' @ rest \<noteq> k" "''worker_rss_'' @ rest \<noteq> k"
    "''memory_available'' \<noteq> k" "''disk_usage'' \<noteq> k"
proof -
  have "last k \<noteq> last (endpoint @ ''_5xx'')" using k by auto
  then show "endpoint @ ''_5xx'' \<noteq> k" by blast
  have "last (butlast k) \<noteq> last (butlast (endpoint @ ''_high_latency''))" using k by (auto simp: butlast_append)
  then show "endpoint @ ''_high_latency'' \<noteq> k" by blast
qed (use k in auto)

lemma conditions_apart:
  assumes k: "k = ''scrape_failure'' \<or> k = ''ready''"
  shows "adds_apart k (endpoint_conditions s x)" "adds_apart k (host_conditions h)" "adds_apart k (group_condition table y)" "adds_apart k (worker_condition y)"
proof -
  note apart = adds_apart_def Let_def name_apart [OF k, symmetric] map_of_bt_insert
  show "adds_apart k (endpoint_conditions s x)" by (cases x) (simp add: endpoint_conditions_def apart)
  show "adds_apart k (host_conditions h)" by (simp add: host_conditions_def apart)
  show "adds_apart k (group_condition table y)" by (cases y) (simp only: group_condition_def prod.case, simp add: apart del: append.simps)
  show "adds_apart k (worker_condition y)" by (cases y) (simp only: worker_condition_def prod.case, simp add: apart del: append.simps)
qed

lemma conditions_service:
  assumes k: "k = ''scrape_failure'' \<or> k = ''ready''"
  shows "map_of (conditions e i) k = map_of (service_conditions e i []) k" and "bt_ok (conditions e i)"
proof -
  have "adds_apart k (fold (endpoint_conditions (ae_schema e)) (ai_endpoints i))" by (intro adds_apart_fold conditions_apart k)
  moreover have "adds_apart k (fold (\<lambda>(table, groups). fold (group_condition table) groups) (ae_worker_groups e))"
    by (intro adds_apart_fold) (auto intro!: adds_apart_fold conditions_apart k split: prod.split)
  moreover have "adds_apart k (fold worker_condition (ae_workers e))" by (intro adds_apart_fold conditions_apart k)
  ultimately have "adds_apart k (\<lambda>cs. fold worker_condition (ae_workers e) (fold (\<lambda>(table, groups). fold (group_condition table) groups) (ae_worker_groups e)
    (host_conditions (ai_host i) (fold (endpoint_conditions (ae_schema e)) (ai_endpoints i) cs))))"
    using conditions_apart(2) [OF k, of "ai_host i"] by (simp add: adds_apart_def)
  from apartD [OF this, of "service_conditions e i []"]
  show "map_of (conditions e i) k = map_of (service_conditions e i []) k" "bt_ok (conditions e i)"
    by (simp_all add: conditions_def service_conditions_def Let_def del: bt_insert.simps)
qed

section \<open>Runs\<close>

lemma apm_run_snoc:
  "apm_run (ts @ [t]) e = (fst (apm_run ts e) @ fst (apm_step t (snd (apm_run ts e))), snd (apm_step t (snd (apm_run ts e))))"
  by (induction ts arbitrary: e) (simp_all add: case_prod_unfold)

text \<open>The engine a tick evaluates.\<close>

definition ticked :: "apm_tick \<Rightarrow> alert_engine \<Rightarrow> alert_engine" where
  "ticked t e = observe (tk_input t) (set_workers (tk_workers t) (set_worker_groups (tk_worker_groups t) e))"

lemma apm_step_transitions: "apm_step t e = transitions (tk_clock t) 0 (conditions (ticked t e) (tk_input t)) (ticked t e)"
  by (simp add: apm_step_def evaluate_def ticked_def Let_def)

lemma ticked_simps [simp]:
  "ae_active (ticked t e) = ae_active e" "ae_recent (ticked t e) = ae_recent e" "is_active c (ticked t e) = is_active c e" "keyed (ticked t e) = keyed e"
  "ae_scrape_failures (ticked t e) = (if ai_scrape_ok (tk_input t) then 0 else saturating_add (ae_scrape_failures e) 1)"
  "ae_ready_failed_since (ticked t e) = (if ai_ready_ok (tk_input t) then None
     else Some (case ae_ready_failed_since e of Some since \<Rightarrow> since | None \<Rightarrow> ai_now (tk_input t)))"
  by (simp_all add: ticked_def observe_def set_workers_def set_worker_groups_def is_active_def keyed_def)

lemma apm_run_alternate:
  "keyed (snd (apm_run ts (engine_new s))) \<and> alternating True (transitions_of c (fst (apm_run ts (engine_new s))))
     \<and> is_active c (snd (apm_run ts (engine_new s))) = odd (length (transitions_of c (fst (apm_run ts (engine_new s)))))"
proof (induction ts rule: rev_induct)
  case Nil
  then show ?case by (simp add: engine_new_def keyed_def is_active_def)
next
  case (snoc t ts)
  then have "keyed (ticked t (snd (apm_run ts (engine_new s))))" by simp
  from transitions_alternate [OF this, of "tk_clock t" 0 "conditions (ticked t (snd (apm_run ts (engine_new s)))) (tk_input t)" c] snoc
  show ?case by (auto simp: apm_run_snoc apm_step_transitions alternating_append)
qed

lemma apm_run_recent: "length (ae_recent (snd (apm_run ts (engine_new s)))) \<le> 20"
proof (induction ts rule: rev_induct)
  case (snoc t ts)
  then show ?case by (simp add: apm_run_snoc apm_step_transitions transitions_recent)
qed (simp add: engine_new_def)

text \<open>The counters are those of the last failing ticks.\<close>

lemma apm_run_counters:
  "unat (ae_scrape_failures (snd (apm_run ts (engine_new s)))) = min (length (takeWhile (\<lambda>t. \<not> ai_scrape_ok (tk_input t)) (rev ts))) (2 ^ 32 - 1)
     \<and> ae_ready_failed_since (snd (apm_run ts (engine_new s)))
       = (case takeWhile (\<lambda>t. \<not> ai_ready_ok (tk_input t)) (rev ts) of [] \<Rightarrow> None | fs \<Rightarrow> Some (ai_now (tk_input (last fs))))"
proof (induction ts rule: rev_induct)
  case (snoc t ts)
  then show ?case by (auto simp: apm_run_snoc apm_step_transitions transitions_keep unat_saturating_add split: list.splits)
qed (simp add: engine_new_def)

text \<open>
  C40. The alert engine over any run of the scrape loop from a new engine: the scrape alert is active exactly when the last two ticks
  failed, the readiness alert exactly when readiness has failed without a break from some tick to the last, five minutes or more apart,
  every check's notifications alternate between firing and recovery, starting with a firing, and the last one says whether it is active.
\<close>

theorem alert_runs_exact:
  "case apm_run ticks (engine_new s) of (trs, e) \<Rightarrow>
     (let unscraped = takeWhile (\<lambda>t. \<not> ai_scrape_ok (tk_input t)) (rev ticks); unready = takeWhile (\<lambda>t. \<not> ai_ready_ok (tk_input t)) (rev ticks) in
      (is_active ''scrape_failure'' e \<longleftrightarrow> 2 \<le> length unscraped)
      \<and> (is_active ''ready'' e \<longleftrightarrow> unready \<noteq> [] \<and> 300 * NANOS \<le> ai_now (tk_input (hd unready)) - ai_now (tk_input (last unready))))
     \<and> (\<forall>c. alternating True (transitions_of c trs) \<and> (is_active c e \<longleftrightarrow> odd (length (transitions_of c trs))))
     \<and> length (recent_alerts e) \<le> 20"
proof (cases ticks rule: rev_cases)
  case Nil
  then show ?thesis by (simp add: engine_new_def is_active_def recent_alerts_def)
next
  case (snoc ts t)
  let ?e = "snd (apm_run ticks (engine_new s))" and ?pre = "ticked t (snd (apm_run ts (engine_new s)))"
  have e: "?e = snd (transitions (tk_clock t) 0 (conditions ?pre (tk_input t)) ?pre)" by (simp add: snoc apm_run_snoc apm_step_transitions)
  have ok: "bt_ok (ae_active ?pre)" using apm_run_alternate [of ts s] by (simp add: keyed_def)
  have act: "is_active k ?e = (case map_of (service_conditions ?pre (tk_input t) []) k of Some (firing, _) \<Rightarrow> firing | None \<Rightarrow> is_active k ?pre)"
    if k: "k = ''scrape_failure'' \<or> k = ''ready''" for k
    unfolding e transitions_active [OF ok bt_ok_distinct [OF conditions_service(2) [OF k]]] conditions_service(1) [OF k] ..
  have "ae_scrape_failures ?e = ae_scrape_failures ?pre" "ae_ready_failed_since ?e = ae_ready_failed_since ?pre" by (simp_all add: e transitions_keep)
  note counters = this apm_run_counters [of ticks s]
  have "is_active ''scrape_failure'' ?e \<longleftrightarrow> 2 \<le> length (takeWhile (\<lambda>t. \<not> ai_scrape_ok (tk_input t)) (rev ticks))"
  proof -
    have "is_active ''scrape_failure'' ?e \<longleftrightarrow> SCRAPE_FAILURE_TICKS \<le> ae_scrape_failures ?pre"
      by (subst act) (simp_all add: service_conditions_def Let_def)
    then show ?thesis using counters by (simp add: SCRAPE_FAILURE_TICKS_def word_le_nat_alt)
  qed
  moreover have "is_active ''ready'' ?e \<longleftrightarrow> unready \<noteq> [] \<and> 300 * NANOS \<le> ai_now (tk_input (hd unready)) - ai_now (tk_input (last unready))"
    if u: "unready = takeWhile (\<lambda>t. \<not> ai_ready_ok (tk_input t)) (rev ticks)" for unready
  proof -
    have "is_active ''ready'' ?e \<longleftrightarrow> \<not> ai_ready_ok (tk_input t) \<and> 300 * NANOS \<le> ready_failed_for ?pre (ai_now (tk_input t))"
      by (subst act) (simp_all add: service_conditions_def Let_def READY_FAILURE_SECONDS_def)
    moreover have "unready = (if ai_ready_ok (tk_input t) then [] else t # takeWhile (\<lambda>t. \<not> ai_ready_ok (tk_input t)) (rev ts))"
      by (simp add: u snoc)
    ultimately show ?thesis using counters u by (auto simp: ready_failed_for_def split: if_splits)
  qed
  moreover note apm_run_alternate [of ticks s] apm_run_recent [of ticks s]
  ultimately show ?thesis by (auto simp: case_prod_unfold Let_def recent_alerts_def)
qed

text \<open>A check that no longer has a condition keeps its state, so the alert of a worker or a group that is gone never recovers.\<close>

lemma absent_check_kept:
  assumes "keyed e" and "bt_ok (conditions (ticked t e) (tk_input t))" and "c \<notin> fst ` set (conditions (ticked t e) (tk_input t))"
  shows "is_active c (snd (apm_step t e)) = is_active c e"
  using transitions_active [OF _ bt_ok_distinct [OF assms(2)], of "ticked t e" c "tk_clock t" 0] assms(1, 3)
  by (simp add: apm_step_transitions keyed_def map_of_eq_None_iff [THEN iffD2])

end
