(* ===== verification/Pir_Ingest.thy ===== *)
theory Pir_Ingest
  imports Pir_Coordinator Spend_Types
begin

text \<open>
  The Enhance server's process, \<open>server/enhance-pir-server/src/bin/server.rs\<close>, with the node client of \<open>zakura.rs\<close>: the worker groups of
  the configuration, the calls of the node and its blocks as records and spends, the reconciliation of the journal with the best chain, and
  the loop that catches up and publishes.

  The node is outside the repository, and so are hexadecimal coding and the parser of its blocks: \<open>zakura_lib\<close> holds the two functions, and a
  parsed block is what the code reads of the parser's. The node's answers depend on when it is asked: \<open>views t\<close> is what it answers the \<open>t\<close>-th
  call from, and \<open>time_at t\<close> is the time then, so the best chain may change between any two calls. The two loops may run forever, on a journal whose
  blocks are out of order or at the largest height, and are partial functions. A URL is checked by the third-party parser, the parameter
  \<open>url_ok\<close>; the arguments and files of the process, and the text of the messages beyond their kind, are left out.
\<close>

section \<open>Worker groups\<close>

record worker_config =
  wf_name :: string
  wf_url :: string

record worker_group_config =
  gf_name :: string
  gf_replicas :: "worker_config list"

record worker_config_file =
  cf_groups :: "worker_group_config list"
  cf_transparent_spend_groups :: "worker_group_config list"

definition validate_name :: "string \<Rightarrow> string \<Rightarrow> string + unit" where
  "validate_name kind name =
     (if name = [] \<or> \<not> list_all (\<lambda>c. (CHR ''a'' \<le> c \<and> c \<le> CHR ''z'') \<or> (CHR ''A'' \<le> c \<and> c \<le> CHR ''Z'') \<or> (CHR ''0'' \<le> c \<and> c \<le> CHR ''9'') \<or> c = CHR ''-'') name
      then Inl (''invalid '' @ kind @ '' name'') else Inr ())"

definition trim_end_matches :: "string \<Rightarrow> string" where
  "trim_end_matches url = rev (dropWhile (\<lambda>c. c = CHR ''/'') (rev url))"

fun validate_replicas ::
  "(string \<Rightarrow> bool) \<Rightarrow> worker_config list \<Rightarrow> string list \<times> string list \<Rightarrow> string + (worker_target list \<times> string list \<times> string list)" where
  "validate_replicas url_ok [] (names, urls) = Inr ([], names, urls)"
| "validate_replicas url_ok (worker # workers) (names, urls) =
     bindR (validate_name ''worker'' (wf_name worker)) (\<lambda>_.
     if \<not> url_ok (wf_url worker) then Inl (''invalid URL for '' @ wf_name worker)
     else let url = trim_end_matches (wf_url worker) in
       if wf_name worker \<in> set names then Inl (''duplicate worker name: '' @ wf_name worker)
       else if url \<in> set urls then Inl (''duplicate worker URL: '' @ url)
       else bindR (validate_replicas url_ok workers (wf_name worker # names, url # urls)) (\<lambda>(targets, seen).
         Inr (Remote (wf_name worker) url # targets, seen)))"

fun validate_groups ::
  "(string \<Rightarrow> bool) \<Rightarrow> worker_group_config list \<Rightarrow> string list \<Rightarrow> string list \<times> string list \<Rightarrow> string + worker_group list" where
  "validate_groups url_ok [] group_names seen = Inr []"
| "validate_groups url_ok (g # groups) group_names seen =
     bindR (validate_name ''worker group'' (gf_name g)) (\<lambda>_.
     if gf_name g \<in> set group_names then Inl (''duplicate worker group name: '' @ gf_name g)
     else if gf_replicas g = [] then Inl (''worker group '' @ gf_name g @ '' has no replicas'')
     else bindR (validate_replicas url_ok (gf_replicas g) seen) (\<lambda>(replicas, seen).
       bindR (validate_groups url_ok groups (gf_name g # group_names) seen) (\<lambda>rest.
         Inr (\<lparr> wg_name = gf_name g, wg_replicas = replicas \<rparr> # rest))))"

definition validate_worker_groups :: "(string \<Rightarrow> bool) \<Rightarrow> worker_group_config list \<Rightarrow> string + worker_group list" where
  "validate_worker_groups url_ok configured = validate_groups url_ok configured [] ([], [])"

text \<open>The configuration file when there is one, otherwise one group of one worker per URL.\<close>

definition url_groups :: "string list \<Rightarrow> worker_group_config list" where
  "url_groups worker_urls = map (\<lambda>(index, url).
     \<lparr> gf_name = ''shard-group-'' @ decimal (index + 1), gf_replicas = [\<lparr> wf_name = ''worker-'' @ decimal (index + 1), wf_url = url \<rparr>] \<rparr>)
     (enumerate 0 worker_urls)"

definition remote_worker_setups ::
  "(string \<Rightarrow> bool) \<Rightarrow> worker_config_file option \<Rightarrow> string list \<Rightarrow> string + table_setup list" where
  "remote_worker_setups url_ok worker_config worker_urls =
     (let enhance = (case worker_config of Some config \<Rightarrow> cf_groups config | None \<Rightarrow> url_groups worker_urls) in
      if enhance = [] then Inl ''distributed mode requires at least one worker group''
      else bindR (validate_worker_groups url_ok enhance) (\<lambda>groups. Inr [\<lparr> ts_table = Enhance, ts_groups = groups \<rparr>]))"

datatype server_mode = Distributed | Embedded_Mode

definition server_setups ::
  "(string \<Rightarrow> bool) \<Rightarrow> server_mode \<Rightarrow> worker_config_file option \<Rightarrow> string list \<Rightarrow> string + table_setup list" where
  "server_setups url_ok mode worker_config worker_urls =
     (case mode of
        Distributed \<Rightarrow> remote_worker_setups url_ok worker_config worker_urls
      | Embedded_Mode \<Rightarrow>
        Inr (map (\<lambda>table. \<lparr> ts_table = table,
          ts_groups = [\<lparr> wg_name = ''embedded-group'', wg_replicas = [Embedded ''embedded''] \<rparr>] \<rparr>) DB_ALL))"

section \<open>Calls of the node\<close>

datatype enhance_zakura_error =
    Zakura_Http string
  | InvalidCookie
  | Zakura_Rpc int string
  | MissingResult
  | Zakura_Hex
  | Zakura_Block string
  | MissingTreeSize u64

definition is_white :: "char \<Rightarrow> bool" where
  "is_white c \<longleftrightarrow> of_char c \<in> {9, 10, 11, 12, 13, 32 :: nat}"

text \<open>The text of the cookie file, in ASCII.\<close>

definition parse_cookie :: "string \<Rightarrow> enhance_zakura_error + string \<times> string" where
  "parse_cookie cookie =
     (let trimmed = rev (dropWhile is_white (rev (dropWhile is_white cookie)));
          username = takeWhile (\<lambda>c. c \<noteq> CHR '':'') trimmed in
      if CHR '':'' \<notin> set trimmed then Inl InvalidCookie
      else
        let password = drop (length username + 1) trimmed in
        if username = [] \<or> password = [] then Inl InvalidCookie else Inr (username, password))"

record 'a rpc_response =
  rr_result :: "'a option"
  rr_error :: "(int \<times> string) option"

text \<open>What comes back of a request: nothing, or a status and a body, which may not parse.\<close>

datatype 'a rpc_reply = Rpc_Failed string | Rpc_Replied nat "'a rpc_response option"

definition zakura_call :: "'a rpc_reply \<Rightarrow> enhance_zakura_error + 'a" where
  "zakura_call reply =
     (case reply of
        Rpc_Failed e \<Rightarrow> Inl (Zakura_Http e)
      | Rpc_Replied status body \<Rightarrow>
        if status = 401 then Inl InvalidCookie
        else if 400 \<le> status \<and> status < 600 then Inl (Zakura_Http ''status'')
        else case body of
          None \<Rightarrow> Inl (Zakura_Http ''body'')
        | Some response \<Rightarrow>
          (case rr_error response of
             Some (code, message) \<Rightarrow> Inl (Zakura_Rpc code message)
           | None \<Rightarrow> ok_or MissingResult (rr_result response)))"

section \<open>Blocks of the node\<close>

record parsed_action =
  pa_ephemeral_key :: bytes
  pa_enc_ciphertext :: bytes
  pa_cv :: bytes
  pa_out_ciphertext :: bytes

record parsed_tx =
  pt_has_transparent_inputs :: bool
  pt_has_transparent_outputs :: bool
  pt_ironwood_actions :: "parsed_action list"
  pt_hash :: bytes
  pt_spent_outpoints :: "(bytes \<times> u32) list"

record parsed_block =
  pb_hash :: string
  pb_transactions :: "parsed_tx list"

record zakura_lib =
  zl_hex_decode :: "string \<Rightarrow> bytes option"
  zl_deserialize :: "bytes \<Rightarrow> string + parsed_block"

text \<open>The replies of the node at a moment: the tip, a hash, a raw block, and the tree size in the verbose block.\<close>

record zakura_view =
  zv_tip :: "u64 rpc_reply"
  zv_block_hash :: "u64 \<Rightarrow> string rpc_reply"
  zv_raw_block :: "u64 \<Rightarrow> string rpc_reply"
  zv_tree_size :: "u64 \<Rightarrow> u64 option rpc_reply"

definition tip_height :: "zakura_view \<Rightarrow> enhance_zakura_error + u64" where
  "tip_height v = zakura_call (zv_tip v)"

definition block_hash :: "zakura_view \<Rightarrow> u64 \<Rightarrow> enhance_zakura_error + string" where
  "block_hash v height = zakura_call (zv_block_hash v height)"

definition block_tree_size :: "zakura_view \<Rightarrow> u64 \<Rightarrow> enhance_zakura_error + u64" where
  "block_tree_size v height = bindR (zakura_call (zv_tree_size v height)) (ok_or (MissingTreeSize height))"

definition raw_block :: "zakura_lib \<Rightarrow> zakura_view \<Rightarrow> u64 \<Rightarrow> enhance_zakura_error + parsed_block" where
  "raw_block lib v height =
     bindR (zakura_call (zv_raw_block v height)) (\<lambda>raw_hex.
     bindR (ok_or Zakura_Hex (zl_hex_decode lib raw_hex)) (\<lambda>raw. map_err Zakura_Block (zl_deserialize lib raw)))"

record zakura_block = canonical_block +
  zb_transparent_spends :: "spend_entry list"

definition records_of :: "parsed_block \<Rightarrow> bytes list" where
  "records_of block = concat (map (\<lambda>tx.
     map (\<lambda>action. from_parts \<lparr> ephemeral_key = pa_ephemeral_key action, enc_ciphertext = pa_enc_ciphertext action, cv_net = pa_cv action,
       out_ciphertext = pa_out_ciphertext action, has_transparent_inputs = pt_has_transparent_inputs tx,
       has_transparent_outputs = pt_has_transparent_outputs tx \<rparr>) (pt_ironwood_actions tx)) (pb_transactions block))"

fun spends_of :: "u32 \<Rightarrow> nat \<Rightarrow> parsed_tx list \<Rightarrow> enhance_zakura_error + spend_entry list" where
  "spends_of spend_height transaction_index [] = Inr []"
| "spends_of spend_height transaction_index (tx # txs) =
     (if transaction_index \<ge> 2 ^ 16 then Inl (Zakura_Block ''too many transactions'')
      else bindR (spends_of spend_height (transaction_index + 1) txs) (\<lambda>rest.
        Inr (map (\<lambda>(txid, index). \<lparr> se_outpoint_txid = txid, se_outpoint_index = index, se_spending_txid = pt_hash tx,
               se_spend_height = spend_height, se_transaction_index = of_nat transaction_index \<rparr>) (pt_spent_outpoints tx) @ rest)))"

text \<open>The raw block and its tree size are two calls.\<close>

definition fetch_block :: "zakura_lib \<Rightarrow> (nat \<Rightarrow> zakura_view) \<Rightarrow> u64 \<Rightarrow> nat \<Rightarrow> (enhance_zakura_error + zakura_block) \<times> nat" where
  "fetch_block lib views height clock =
     (case raw_block lib (views clock) height of
        Inl e \<Rightarrow> (Inl e, clock + 1)
      | Inr block \<Rightarrow>
        if unat height \<ge> 2 ^ 32 then (Inl (Zakura_Block ''block height exceeds u32''), clock + 1)
        else case spends_of (ucast height) 0 (pb_transactions block) of
          Inl e \<Rightarrow> (Inl e, clock + 1)
        | Inr spends \<Rightarrow>
          (case (if height \<ge> ACTIVATION_HEIGHT then (block_tree_size (views (clock + 1)) height, clock + 2) else (Inr 0, clock + 1)) of
             (Inl e, clock) \<Rightarrow> (Inl e, clock)
           | (Inr size_now, clock) \<Rightarrow>
               (Inr \<lparr> cb_height = height, cb_hash = pb_hash block, cb_records = records_of block, cb_tree_size = size_now,
                      zb_transparent_spends = spends \<rparr>, clock)))"

section \<open>The ingest loop\<close>

datatype server_error = Server_Zakura enhance_zakura_error | Server_Ingest enhance_ingest_error | Server_Publish string | Not_Activated

definition previous_height :: "record_journal \<Rightarrow> u64 option" where
  "previous_height j = (if length (rj_blocks j) < 2 then None else Some (bl_height (rj_blocks j ! (length (rj_blocks j) - 2))))"

partial_function (option) reconcile_journal ::
  "(nat \<Rightarrow> zakura_view) \<Rightarrow> u64 \<Rightarrow> journal \<Rightarrow> nat \<Rightarrow> ((server_error + unit) \<times> journal \<times> nat) option" where
  "reconcile_journal views tip s clock =
     (case rj_last_block (snd s) of
        None \<Rightarrow> Some (Inr (), s, clock)
      | Some b \<Rightarrow>
        if bl_height b \<le> tip then
          (case block_hash (views clock) (bl_height b) of
             Inl e \<Rightarrow> Some (Inl (Server_Zakura e), s, clock + 1)
           | Inr hash \<Rightarrow>
               if hash = bl_hash b then Some (Inr (), s, clock + 1)
               else reconcile_journal views tip (rewind_to_height (previous_height (snd s)) s) (clock + 1))
        else reconcile_journal views tip (rewind_to_height (previous_height (snd s)) s) clock)"

partial_function (option) catch_up_journal ::
  "zakura_lib \<Rightarrow> (nat \<Rightarrow> zakura_view) \<Rightarrow> u64 \<Rightarrow> u64 \<Rightarrow> journal \<Rightarrow> nat \<Rightarrow> ((server_error + unit) \<times> journal \<times> nat) option" where
  "catch_up_journal lib views target next_height s clock =
     (if next_height \<le> target then
        (case fetch_block lib views next_height clock of
           (Inl e, clock) \<Rightarrow> Some (Inl (Server_Zakura e), s, clock)
         | (Inr block, clock) \<Rightarrow>
           (case enhance_append_block (canonical_block.truncate block) s of
              (s, Inl e) \<Rightarrow> Some (Inl (Server_Ingest e), s, clock)
            | (s, Inr _) \<Rightarrow> catch_up_journal lib views target (next_height + 1) s clock))
      else Some (Inr (), s, clock))"

definition already_published :: "u64 \<Rightarrow> string option \<Rightarrow> 'p coordinator_state \<Rightarrow> bool" where
  "already_published target current_hash co =
     (case newest co of
        None \<Rightarrow> False
      | Some s \<Rightarrow> gm_anchor_height (gs_manifest s) = target \<and> current_hash = Some (gm_anchor_block_hash (gs_manifest s)))"

text \<open>The end of a turn: publish the tip, unless it has moved meanwhile.\<close>

definition publish_tip ::
  "'s ipir_sp \<Rightarrow> ('k, 'p, 'r) pack_sp \<Rightarrow> (bytes \<Rightarrow> bytes) \<Rightarrow> (bytes \<Rightarrow> string) \<Rightarrow> (nat \<Rightarrow> nat) \<Rightarrow> (nat \<Rightarrow> zakura_view) \<Rightarrow> u64 \<Rightarrow> journal
     \<Rightarrow> 's fleet \<times> 'p coordinator_state \<Rightarrow> nat \<Rightarrow> (server_error + unit) \<times> ('s fleet \<times> 'p coordinator_state) \<times> nat" where
  "publish_tip ip pk sha256 hex_encode time_at views target s srv clock =
     (let current_hash = (case highest_committed (snd s) of Some (height, hash) \<Rightarrow> if height = target then Some hash else None | None \<Rightarrow> None) in
      if committed_height (snd s) = Some target \<and> \<not> already_published target current_hash (snd srv) then
        (case tip_height (views clock) of
           Inl e \<Rightarrow> (Inl (Server_Zakura e), srv, clock + 1)
         | Inr tip \<Rightarrow>
           if tip \<noteq> target then (Inr (), srv, clock + 1)
           else
             (case block_hash (views (clock + 1)) target of
                Inl e \<Rightarrow> (Inl (Server_Zakura e), srv, clock + 2)
              | Inr node_hash \<Rightarrow>
                if Some node_hash \<noteq> current_hash then (Inr (), srv, clock + 2)
                else
                  (case publish_from_store ip pk sha256 hex_encode (time_at (clock + 2)) s target node_hash srv of
                     (srv, Inl e) \<Rightarrow> (Inl (Server_Publish e), srv, clock + 2)
                   | (srv, Inr _) \<Rightarrow> (Inr (), srv, clock + 2))))
      else (Inr (), srv, clock))"

definition ingest_turn ::
  "'s ipir_sp \<Rightarrow> ('k, 'p, 'r) pack_sp \<Rightarrow> (bytes \<Rightarrow> bytes) \<Rightarrow> (bytes \<Rightarrow> string) \<Rightarrow> (nat \<Rightarrow> nat) \<Rightarrow> zakura_lib \<Rightarrow> (nat \<Rightarrow> zakura_view) \<Rightarrow> journal
     \<Rightarrow> 's fleet \<times> 'p coordinator_state \<Rightarrow> nat \<Rightarrow> ((server_error + unit) \<times> journal \<times> ('s fleet \<times> 'p coordinator_state) \<times> nat) option" where
  "ingest_turn ip pk sha256 hex_encode time_at lib views s srv clock =
     (case tip_height (views clock) of
        Inl e \<Rightarrow> Some (Inl (Server_Zakura e), s, srv, clock + 1)
      | Inr target \<Rightarrow>
        Option.bind (reconcile_journal views target s (clock + 1)) (\<lambda>(res, s, clock).
        case res of Inl e \<Rightarrow> Some (Inl e, s, srv, clock)
        | Inr _ \<Rightarrow>
          if target < ACTIVATION_HEIGHT then Some (Inl Not_Activated, s, srv, clock)
          else
            let next_height = (case committed_height (snd s) of Some height \<Rightarrow> height + 1 | None \<Rightarrow> ACTIVATION_HEIGHT);
                srv = (if next_height \<le> target then (fst srv, set_phase (time_at clock) (Syncing (saturating_sub next_height 1) target) (snd srv)) else srv) in
            Option.bind (catch_up_journal lib views target next_height s clock) (\<lambda>(res, s, clock).
            case res of Inl e \<Rightarrow> Some (Inl e, s, srv, clock)
            | Inr _ \<Rightarrow>
              (case publish_tip ip pk sha256 hex_encode time_at views target s srv clock of (res, srv, clock) \<Rightarrow> Some (res, s, srv, clock)))))"

text \<open>The process restarts the loop from the files after an error.\<close>

definition ingest_failed :: "nat \<Rightarrow> 's fleet \<times> 'p coordinator_state \<Rightarrow> 's fleet \<times> 'p coordinator_state" where
  "ingest_failed now srv = (fst srv, set_phase now (Failed ''ingestion failed; retrying; inspect local logs'') (snd srv))"

section \<open>A node that answers one chain\<close>

definition chain_height :: "nat \<Rightarrow> u64" where
  "chain_height i = ACTIVATION_HEIGHT + of_nat i"

text \<open>The records of the first \<open>k\<close> blocks.\<close>

definition chain_size :: "parsed_block list \<Rightarrow> nat \<Rightarrow> nat" where
  "chain_size chain k = sum_list (map (\<lambda>b. length (records_of b)) (take k chain))"

definition node_entries :: "parsed_block list \<Rightarrow> (u64 \<times> string \<times> bytes list) list" where
  "node_entries chain = map (\<lambda>i. (chain_height i, pb_hash (chain ! i), records_of (chain ! i))) [0..<length chain]"

definition action_ok :: "parsed_action \<Rightarrow> bool" where
  "action_ok a \<longleftrightarrow> length (pa_ephemeral_key a) = 32 \<and> length (pa_enc_ciphertext a) = 580 \<and> length (pa_cv a) = 32 \<and> length (pa_out_ciphertext a) = 80"

definition parsed_ok :: "parsed_block \<Rightarrow> bool" where
  "parsed_ok b \<longleftrightarrow> length (pb_transactions b) \<le> 2 ^ 16 \<and> (\<forall>tx \<in> set (pb_transactions b). \<forall>a \<in> set (pt_ironwood_actions tx). action_ok a)"

definition chain_ok :: "parsed_block list \<Rightarrow> bool" where
  "chain_ok chain \<longleftrightarrow> chain \<noteq> [] \<and> 3428143 + length chain < 2 ^ 32 \<and> chain_size chain (length chain) \<le> 2 ^ 54 \<and> (\<forall>b \<in> set chain. parsed_ok b)"

text \<open>What the node answers for a block of the chain, and for all of the chain.\<close>

definition gives_block :: "zakura_lib \<Rightarrow> zakura_view \<Rightarrow> parsed_block list \<Rightarrow> nat \<Rightarrow> bool" where
  "gives_block lib v chain i \<longleftrightarrow> raw_block lib v (chain_height i) = Inr (chain ! i)
     \<and> block_tree_size v (chain_height i) = Inr (of_nat (chain_size chain (Suc i)))"

definition node_serves :: "zakura_lib \<Rightarrow> zakura_view \<Rightarrow> parsed_block list \<Rightarrow> bool" where
  "node_serves lib v chain \<longleftrightarrow> tip_height v = Inr (chain_height (length chain - 1))
     \<and> (\<forall>i < length chain. block_hash v (chain_height i) = Inr (pb_hash (chain ! i)) \<and> gives_block lib v chain i)"

lemma unat_chain_height: "3428143 + i < 2 ^ 32 \<Longrightarrow> unat (chain_height i) = 3428143 + i"
proof -
  assume small: "3428143 + i < 2 ^ 32"
  then have "unat (of_nat i :: u64) = i" by (intro unat_of_nat_u64) simp
  then show ?thesis using small by (simp add: chain_height_def ACTIVATION_HEIGHT_def unat_add_nowrap)
qed

lemma chain_height_Suc: "chain_height (Suc i) = chain_height i + 1"
  by (simp add: chain_height_def)

lemma chain_height_le_tip:
  assumes "chain_ok chain" and "3428143 + i < 2 ^ 32"
  shows "chain_height i \<le> chain_height (length chain - 1) \<longleftrightarrow> i < length chain"
proof -
  have "unat (chain_height i) = 3428143 + i" "unat (chain_height (length chain - 1)) = 3428143 + (length chain - 1)"
    using assms by (auto simp: chain_ok_def intro!: unat_chain_height)
  moreover have "length chain - 1 + 1 = length chain" using assms(1) by (cases chain) (simp_all add: chain_ok_def)
  ultimately show ?thesis unfolding word_le_nat_alt by linarith
qed

lemma chain_size_Suc: "i < length chain \<Longrightarrow> chain_size chain (Suc i) = chain_size chain i + length (records_of (chain ! i))"
  by (simp add: chain_size_def take_Suc_conv_app_nth)

lemma chain_size_mono: "i \<le> k \<Longrightarrow> chain_size chain i \<le> chain_size chain k"
proof -
  assume "i \<le> k"
  then obtain m where "k = i + m" using le_Suc_ex by blast
  then show ?thesis by (simp add: chain_size_def take_add)
qed

lemma length_node_entries [simp]: "length (node_entries chain) = length chain"
  by (simp add: node_entries_def)

lemma nth_node_entries [simp]:
  "i < length chain \<Longrightarrow> node_entries chain ! i = (chain_height i, pb_hash (chain ! i), records_of (chain ! i))"
  by (simp add: node_entries_def)

lemma records_of_width: "parsed_ok b \<Longrightarrow> r \<in> set (records_of b) \<Longrightarrow> length r = RECORD_BYTES"
  by (auto simp: records_of_def parsed_ok_def action_ok_def from_parts_concat parts_ok_def RECORD_BYTES_def)

lemma spends_of_ok: "n + length txs \<le> 2 ^ 16 \<Longrightarrow> \<exists>spends. spends_of h n txs = Inr spends"
proof (induction txs arbitrary: n)
  case (Cons tx txs)
  have "n + 1 + length txs \<le> 2 ^ 16" using Cons.prems by simp
  then obtain rest where "spends_of h (n + 1) txs = Inr rest" using Cons.IH by blast
  then show ?case using Cons.prems by simp
qed simp

lemma fetch_block_chain:
  assumes chain: "chain_ok chain" and i: "i < length chain" and gives: "\<forall>t. gives_block lib (views t) chain i"
  shows "\<exists>spends. fetch_block lib views (chain_height i) clock
    = (Inr \<lparr> cb_height = chain_height i, cb_hash = pb_hash (chain ! i), cb_records = records_of (chain ! i),
         cb_tree_size = of_nat (chain_size chain (Suc i)), zb_transparent_spends = spends \<rparr>, clock + 2)"
proof -
  have h: "unat (chain_height i) = 3428143 + i" using chain i by (intro unat_chain_height) (simp add: chain_ok_def)
  have "parsed_ok (chain ! i)" using chain i by (simp add: chain_ok_def)
  then obtain spends where "spends_of (ucast (chain_height i)) 0 (pb_transactions (chain ! i)) = Inr spends"
    using spends_of_ok [of 0 "pb_transactions (chain ! i)" "ucast (chain_height i)"] unfolding parsed_ok_def by auto
  moreover have "ACTIVATION_HEIGHT \<le> chain_height i" using h by (simp add: word_le_nat_alt ACTIVATION_HEIGHT_def)
  moreover have "unat (chain_height i) < 2 ^ 32" using h chain i by (simp add: chain_ok_def)
  ultimately show ?thesis using gives by (simp add: fetch_block_def gives_block_def)
qed

section \<open>The journal in step with the chain\<close>

definition in_step :: "parsed_block list \<Rightarrow> nat \<Rightarrow> journal \<Rightarrow> bool" where
  "in_step chain k s \<longleftrightarrow> journal_ok s \<and> rj_layout (snd s) = ENHANCE_LAYOUT \<and> k \<le> length chain \<and> journal_abs s = take k (node_entries chain)"

lemma abs_block:
  assumes "i < length (rj_blocks (snd s))"
  shows "bl_height (rj_blocks (snd s) ! i) = fst (journal_abs s ! i)" "bl_hash (rj_blocks (snd s) ! i) = fst (snd (journal_abs s ! i))"
  using assms by (simp_all add: journal_abs_def)

lemma length_journal_abs [simp]: "length (journal_abs s) = length (rj_blocks (snd s))"
  by (simp add: journal_abs_def)

lemma tree_size_abs:
  assumes "journal_ok s"
  shows "unat (rj_tree_size (snd s)) = sum_list (map (\<lambda>(_, _, records). length records) (journal_abs s))"
proof (cases s)
  case (Pair d j)
  have pos: "positions_from 0 (rj_blocks j)" "total_actions (rj_blocks j) = unat (rj_tree_size j)"
    using assms Pair by (auto elim: journal_okE)
  have "length (journal_records s) = unat (rj_tree_size j)" by (simp add: Pair journal_records_def)
  then have "length (take (unat (bl_action_count b)) (drop (unat (bl_first_position b)) (journal_records s))) = unat (bl_action_count b)"
    if "b \<in> set (rj_blocks j)" for b
    using position_in_total [OF pos(1) that] pos(2) by simp
  then have "map (\<lambda>(_, _, records). length records) (journal_abs s) = map (\<lambda>b. unat (bl_action_count b)) (rj_blocks j)"
    by (simp add: journal_abs_def Pair)
  then show ?thesis using pos(2) Pair by (simp add: total_actions_def)
qed

lemma in_step_blocks: "in_step chain k s \<Longrightarrow> length (rj_blocks (snd s)) = k"
  using length_journal_abs [of s] by (simp add: in_step_def)

lemma in_step_size:
  assumes "in_step chain k s"
  shows "unat (rj_tree_size (snd s)) = chain_size chain k"
proof -
  have "map (\<lambda>(_, _, records). length records) (take k (node_entries chain)) = map (\<lambda>b. length (records_of b)) (take k chain)"
    using assms by (intro nth_equalityI) (auto simp: in_step_def)
  then show ?thesis using assms tree_size_abs [of s] by (simp add: in_step_def chain_size_def)
qed

lemma in_step_last:
  assumes "in_step chain k s"
  shows "rj_last_block (snd s) = None \<longleftrightarrow> k = 0"
    and "0 < k \<Longrightarrow> \<exists>b. rj_last_block (snd s) = Some b \<and> bl_height b = chain_height (k - 1) \<and> bl_hash b = pb_hash (chain ! (k - 1))"
proof -
  have len: "length (rj_blocks (snd s)) = k" using assms by (rule in_step_blocks)
  then show "rj_last_block (snd s) = None \<longleftrightarrow> k = 0" by (auto simp: rj_last_block_def)
  assume k: "0 < k"
  then have "rj_last_block (snd s) = Some (rj_blocks (snd s) ! (k - 1))" using len by (auto simp: rj_last_block_def last_conv_nth)
  then show "\<exists>b. rj_last_block (snd s) = Some b \<and> bl_height b = chain_height (k - 1) \<and> bl_hash b = pb_hash (chain ! (k - 1))"
    using assms k len abs_block [of "k - 1" s] by (cases k) (auto simp: in_step_def)
qed

lemma in_step_committed:
  assumes "in_step chain k s"
  shows "(case committed_height (snd s) of Some height \<Rightarrow> height + 1 | None \<Rightarrow> ACTIVATION_HEIGHT) = chain_height k"
    and "0 < k \<Longrightarrow> highest_committed (snd s) = Some (chain_height (k - 1), pb_hash (chain ! (k - 1)))"
proof -
  show "(case committed_height (snd s) of Some height \<Rightarrow> height + 1 | None \<Rightarrow> ACTIVATION_HEIGHT) = chain_height k"
  proof (cases k)
    case 0
    then show ?thesis using in_step_last(1) [OF assms] by (simp add: committed_height_def chain_height_def)
  next
    case (Suc i)
    then show ?thesis using in_step_last(2) [OF assms] by (auto simp: committed_height_def chain_height_Suc)
  qed
  assume "0 < k"
  then show "highest_committed (snd s) = Some (chain_height (k - 1), pb_hash (chain ! (k - 1)))"
    using in_step_last(2) [OF assms] by (auto simp: highest_committed_def)
qed

text \<open>The next block of the chain extends the journal by exactly its entry.\<close>

lemma append_in_step:
  assumes chain: "chain_ok chain" and step: "in_step chain k s" and k: "k < length chain"
    and b: "cb_height b = chain_height k" "cb_hash b = pb_hash (chain ! k)" "cb_records b = records_of (chain ! k)"
      "cb_tree_size b = of_nat (chain_size chain (Suc k))"
  shows "\<exists>s'. enhance_append_block b s = (s', Inr ()) \<and> in_step chain (Suc k) s'"
proof -
  obtain d j where s: "s = (d, j)" by (cases s)
  have ok: "journal_ok (d, j)" and lay: "rj_layout j = ENHANCE_LAYOUT" using step by (simp_all add: in_step_def s)
  have size: "unat (rj_tree_size j) = chain_size chain k" using in_step_size [OF step] by (simp add: s)
  have cap: "chain_size chain (Suc k) \<le> 2 ^ 54"
    using chain chain_size_mono [of "Suc k" "length chain" chain] k by (simp add: chain_ok_def)
  then have t: "unat (cb_tree_size b) = chain_size chain (Suc k)" unfolding b(4) by (intro unat_of_nat_u64) simp
  have h: "unat (chain_height k) = 3428143 + k" using chain k by (intro unat_chain_height) (simp add: chain_ok_def)
  have fol: "follows (cb_height b) j"
  proof (cases k)
    case 0
    then show ?thesis using in_step_last(1) [OF step] by (simp add: follows_def s)
  next
    case (Suc i)
    then show ?thesis using in_step_last(2) [OF step] b(1) by (auto simp: follows_def s chain_height_Suc)
  qed
  have nz: "cb_height b \<noteq> 0" using h b(1) by (auto simp: unat_eq_0)
  have new: "\<not> (case rj_last_block j of None \<Rightarrow> False | Some lb \<Rightarrow> bl_height lb \<ge> cb_height b)"
    using fol nz by (auto simp: follows_def not_le less_plus_one split: option.splits)
  have widths: "\<forall>r \<in> set (cb_records b). length r = RECORD_BYTES"
    using records_of_width [of "chain ! k"] chain k by (simp add: chain_ok_def b(3))
  have fit: "length (cb_records b) \<le> unat (cb_tree_size b) \<and> unat (cb_tree_size b) - length (cb_records b) \<le> unat (rj_tree_size j)
      \<and> unat (rj_tree_size j) \<le> unat (cb_tree_size b)"
    by (simp add: t size chain_size_Suc [OF k] b(3))
  have small: "unat (cb_tree_size b) \<le> 2 ^ 54" "length (cb_records b) < 2 ^ 64" using cap t fit by simp_all
  obtain s' where s': "enhance_append_block b (d, j) = (s', Inr ())" "journal_ok s'" "rj_layout (snd s') = rj_layout j"
    "journal_abs s' = journal_abs (d, j)
       @ [(cb_height b, cb_hash b, drop (unat (rj_tree_size j) - (unat (cb_tree_size b) - length (cb_records b))) (cb_records b))]"
    using enhance_append_next [OF ok lay nz fol widths small new fit] by blast
  have "unat (rj_tree_size j) - (unat (cb_tree_size b) - length (cb_records b)) = 0"
    by (simp add: t size chain_size_Suc [OF k] b(3))
  then have "journal_abs s' = take (Suc k) (node_entries chain)"
    using s'(4) step k by (simp add: in_step_def s b(1-3) take_Suc_conv_app_nth)
  then show ?thesis using s'(1-3) lay k by (auto simp: in_step_def s)
qed

lemma catch_up_chain:
  assumes chain: "chain_ok chain" and gives: "\<forall>t i. k \<le> i \<and> i < length chain \<longrightarrow> gives_block lib (views t) chain i" and step: "in_step chain k s"
  shows "\<exists>s' clock'. catch_up_journal lib views (chain_height (length chain - 1)) (chain_height k) s clock = Some (Inr (), s', clock')
    \<and> in_step chain (length chain) s'"
  using gives step
proof (induction "length chain - k" arbitrary: k s clock)
  case 0
  then have k: "k = length chain" by (simp add: in_step_def)
  have "\<not> chain_height k \<le> chain_height (length chain - 1)"
    using chain_height_le_tip [OF chain, of k] chain k by (simp add: chain_ok_def)
  then show ?case using 0 k by (subst catch_up_journal.simps) simp
next
  case (Suc n)
  then have k: "k < length chain" by simp
  have le: "chain_height k \<le> chain_height (length chain - 1)"
    using chain_height_le_tip [OF chain, of k] chain k by (simp add: chain_ok_def)
  obtain spends where f: "fetch_block lib views (chain_height k) clock
    = (Inr \<lparr> cb_height = chain_height k, cb_hash = pb_hash (chain ! k), cb_records = records_of (chain ! k),
         cb_tree_size = of_nat (chain_size chain (Suc k)), zb_transparent_spends = spends \<rparr>, clock + 2)"
    using fetch_block_chain [OF chain k] Suc.prems(1) k by blast
  let ?b = "\<lparr> cb_height = chain_height k, cb_hash = pb_hash (chain ! k), cb_records = records_of (chain ! k),
         cb_tree_size = of_nat (chain_size chain (Suc k)) \<rparr>"
  obtain s1 where s1: "enhance_append_block ?b s = (s1, Inr ())" "in_step chain (Suc k) s1"
    using append_in_step [OF chain Suc.prems(2) k, of ?b] by auto
  have n: "n = length chain - Suc k" using Suc.hyps(2) by linarith
  obtain s' clock' where s': "catch_up_journal lib views (chain_height (length chain - 1)) (chain_height (Suc k)) s1 (clock + 2) = Some (Inr (), s', clock')"
    "in_step chain (length chain) s'"
    using Suc.hyps(1) [OF n _ s1(2), of "clock + 2"] Suc.prems(1) by (meson Suc_leD)
  have "catch_up_journal lib views (chain_height (length chain - 1)) (chain_height k) s clock = Some (Inr (), s', clock')"
    using le f s1(1) s'(1) by (subst catch_up_journal.simps) (simp add: canonical_block.truncate_def chain_height_Suc)
  then show ?case using s'(2) by blast
qed

section \<open>Reconciling\<close>

text \<open>The journal's blocks are one per height from activation; the first \<open>k\<close> are the chain's, and none after them is.\<close>

definition forked :: "parsed_block list \<Rightarrow> nat \<Rightarrow> journal \<Rightarrow> bool" where
  "forked chain k s \<longleftrightarrow> journal_ok s \<and> rj_layout (snd s) = ENHANCE_LAYOUT
     \<and> 3428143 + length (journal_abs s) < 2 ^ 32 \<and> k \<le> length chain \<and> k \<le> length (journal_abs s) \<and> take k (journal_abs s) = take k (node_entries chain)
     \<and> (\<forall>i < length (journal_abs s). fst (journal_abs s ! i) = chain_height i
          \<and> (k \<le> i \<and> i < length chain \<longrightarrow> fst (snd (journal_abs s ! i)) \<noteq> pb_hash (chain ! i)))"

lemma rewind_keep_previous:
  assumes "sorted_wrt (\<lambda>a b. bl_height a < bl_height b) (rj_blocks j)" and "rj_blocks j \<noteq> []"
  shows "rewind_keep (previous_height j) j = length (rj_blocks j) - 1"
proof -
  obtain ys b where bl: "rj_blocks j = ys @ [b]" using assms(2) by (metis append_butlast_last_id)
  show ?thesis
  proof (cases ys rule: rev_cases)
    case Nil
    then show ?thesis by (simp add: previous_height_def rewind_keep_def bl)
  next
    case (snoc zs a)
    then have prev: "previous_height j = Some (bl_height a)" by (simp add: previous_height_def bl)
    have "bl_height y \<le> bl_height a" if "y \<in> set ys" for y
      using assms(1) that snoc bl by (auto simp: sorted_wrt_append)
    moreover have "\<not> bl_height b \<le> bl_height a" using assms(1) snoc bl by (simp add: sorted_wrt_append not_le)
    ultimately have "takeWhile (\<lambda>x. bl_height x \<le> bl_height a) (rj_blocks j) = ys" by (simp add: bl takeWhile_append2)
    then show ?thesis by (simp add: rewind_keep_def prev bl)
  qed
qed

lemma rewind_forked:
  assumes "forked chain k s" and "k < length (rj_blocks (snd s))"
  shows "forked chain k (rewind_to_height (previous_height (snd s)) s)
    \<and> length (rj_blocks (snd (rewind_to_height (previous_height (snd s)) s))) = length (rj_blocks (snd s)) - 1"
proof -
  obtain d j where s: "s = (d, j)" by (cases s)
  have ok: "journal_ok (d, j)" using assms(1) by (simp add: forked_def s)
  let ?s = "rewind_to_height (previous_height j) (d, j)" and ?n = "length (rj_blocks j) - 1"
  have "rj_blocks j \<noteq> []" using assms(2) by (auto simp: s)
  moreover have "sorted_wrt (\<lambda>a b. bl_height a < bl_height b) (rj_blocks j)" using ok by (auto elim: journal_okE)
  ultimately have keep: "rewind_keep (previous_height j) j = ?n" by (intro rewind_keep_previous)
  have r: "journal_ok ?s" "rj_blocks (snd ?s) = take ?n (rj_blocks j)" "journal_abs ?s = take ?n (journal_abs (d, j))"
    "rj_layout (snd ?s) = rj_layout j"
    using rewind_ok [OF ok, of "previous_height j"] by (simp_all add: keep)
  have "length (rj_blocks (snd ?s)) = ?n" by (simp add: r(2))
  moreover have "forked chain k ?s"
    using assms r(1,3,4) by (auto simp: forked_def s min_def)
  ultimately show ?thesis by (simp add: s)
qed

lemma reconcile_chain:
  assumes chain: "chain_ok chain" and serves: "\<forall>t. node_serves lib (views t) chain" and fork: "forked chain k s"
  shows "\<exists>s' clock'. reconcile_journal views (chain_height (length chain - 1)) s clock = Some (Inr (), s', clock') \<and> in_step chain k s'"
  using fork
proof (induction "length (rj_blocks (snd s)) - k" arbitrary: s clock)
  case 0
  then have len: "length (rj_blocks (snd s)) = k" by (simp add: forked_def)
  then have step: "in_step chain k s" using 0(2) by (simp add: forked_def in_step_def)
  show ?case
  proof (cases k)
    case 0
    then have "rj_last_block (snd s) = None" using in_step_last(1) [OF step] by simp
    then show ?thesis using step by (subst reconcile_journal.simps) simp
  next
    case (Suc i)
    then obtain b where b: "rj_last_block (snd s) = Some b" "bl_height b = chain_height i" "bl_hash b = pb_hash (chain ! i)"
      using in_step_last(2) [OF step] by auto
    have i: "i < length chain" using step Suc by (simp add: in_step_def)
    then have "chain_height i \<le> chain_height (length chain - 1)"
      using chain_height_le_tip [OF chain, of i] chain by (simp add: chain_ok_def)
    moreover have "block_hash (views clock) (chain_height i) = Inr (pb_hash (chain ! i))" using serves i by (simp add: node_serves_def)
    ultimately show ?thesis using b step by (subst reconcile_journal.simps) simp
  qed
next
  case (Suc n)
  let ?l = "length (rj_blocks (snd s)) - 1" and ?s = "rewind_to_height (previous_height (snd s)) s"
  have k: "k < length (rj_blocks (snd s))" using Suc.hyps(2) by linarith
  have fork: "forked chain k ?s" and len: "length (rj_blocks (snd ?s)) = ?l" using rewind_forked [OF Suc.prems k] by simp_all
  have n: "n = length (rj_blocks (snd ?s)) - k" using Suc.hyps(2) len by linarith
  have last: "rj_last_block (snd s) = Some (rj_blocks (snd s) ! ?l)" using k by (auto simp: rj_last_block_def last_conv_nth)
  have at: "bl_height (rj_blocks (snd s) ! ?l) = chain_height ?l"
    "?l < length chain \<longrightarrow> bl_hash (rj_blocks (snd s) ! ?l) \<noteq> pb_hash (chain ! ?l)"
    using Suc.prems k abs_block [of ?l s] by (simp_all add: forked_def)
  have "3428143 + ?l < 2 ^ 32" using Suc.prems k by (simp add: forked_def)
  then have above: "chain_height ?l \<le> chain_height (length chain - 1) \<longleftrightarrow> ?l < length chain"
    by (rule chain_height_le_tip [OF chain])
  have differ: "block_hash (views clock) (chain_height ?l) = Inr (pb_hash (chain ! ?l))" if "?l < length chain"
    using serves that by (simp add: node_serves_def)
  let ?clock = "if ?l < length chain then clock + 1 else clock"
  have "reconcile_journal views (chain_height (length chain - 1)) s clock = reconcile_journal views (chain_height (length chain - 1)) ?s ?clock"
    using last at above differ by (subst reconcile_journal.simps) auto
  then show ?case using Suc.hyps(1) [OF n fork, of ?clock] by simp
qed

text \<open>
  Reconciliation looks at the last block only and appending compares heights and tree sizes but no parent hash. So when the best chain changes below
  the next height while the loop catches up, and the tree sizes agree there, the blocks already written stay: the journal then has the old
  chain's first blocks under the new chain's, and every later reconciliation accepts it.
\<close>

lemma orphan_survives:
  assumes old: "chain_ok old" and new: "chain_ok new" and serves: "\<forall>t. node_serves lib (views t) new" and step: "in_step old k s"
    and k: "k < length new" and size: "chain_size old k = chain_size new k"
  shows "\<exists>s' clock'. catch_up_journal lib views (chain_height (length new - 1)) (chain_height k) s clock = Some (Inr (), s', clock')
    \<and> journal_abs s' = take k (node_entries old) @ drop k (node_entries new)
    \<and> (\<forall>now. reconcile_journal views (chain_height (length new - 1)) s' now = Some (Inr (), s', now + 1))"
proof -
  let ?h = "take k old @ drop k new"
  have ko: "k \<le> length old" using step by (simp add: in_step_def)
  have len: "length ?h = length new" using ko k by simp
  have at: "?h ! i = (if i < k then old ! i else new ! i)" if "i < length new" for i
    using that ko k by (simp add: nth_append)
  have "take (k + m) ?h = take k old @ take m (drop k new)" for m using ko by (simp add: take_add)
  then have sizes: "chain_size ?h (k + m) = chain_size new (k + m)" for m
    using size by (simp add: chain_size_def take_add)
  have from_k: "chain_size ?h i = chain_size new i" if "k \<le> i" for i using sizes [of "i - k"] that by simp
  have hok: "chain_ok ?h"
    using old new k len from_k [of "length new"] unfolding chain_ok_def by (auto dest: in_set_takeD in_set_dropD)
  have "journal_abs s = take k (node_entries ?h)"
    using step ko k len at by (intro nth_equalityI) (auto simp: in_step_def)
  then have h: "in_step ?h k s" using step k len by (simp add: in_step_def)
  have gives: "\<forall>t i. k \<le> i \<and> i < length ?h \<longrightarrow> gives_block lib (views t) ?h i"
    using serves len at from_k by (simp add: node_serves_def gives_block_def)
  obtain s' clock' where s': "catch_up_journal lib views (chain_height (length new - 1)) (chain_height k) s clock = Some (Inr (), s', clock')"
    "in_step ?h (length new) s'"
    using catch_up_chain [OF hok gives h] unfolding len by blast
  have "journal_abs s' = take k (node_entries old) @ drop k (node_entries new)"
    using s'(2) len at ko k by (intro nth_equalityI) (auto simp: in_step_def nth_append)
  moreover have top: "?h ! (length new - 1) = new ! (length new - 1)" "0 < length new" using at [of "length new - 1"] k by auto
  obtain b where "rj_last_block (snd s') = Some b" "bl_height b = chain_height (length new - 1)" "bl_hash b = pb_hash (new ! (length new - 1))"
    using in_step_last(2) [OF s'(2) top(2)] unfolding top(1) by blast
  then have "reconcile_journal views (chain_height (length new - 1)) s' now = Some (Inr (), s', now + 1)" for now
    using serves k by (subst reconcile_journal.simps) (simp add: node_serves_def)
  ultimately show ?thesis using s'(1) by blast
qed

section \<open>Publishing\<close>

lemma publish_from_store_live:
  assumes live: "live_ok co" "\<forall>g \<in> set (co_live co). generation_of g \<noteq> - 1"
    and run: "publish_from_store ip pk sha256 hex_encode now s height hash (fl, co) = ((fl', co'), r)"
  shows "case r of
      Inl e \<Rightarrow> co_live co' = co_live co
    | Inr _ \<Rightarrow> \<exists>g. newest co' = Some g \<and> gm_anchor_height (gs_manifest g) = height \<and> gm_anchor_block_hash (gs_manifest g) = hash"
proof (cases "table_journal Enhance s")
  case (Inl e)
  then show ?thesis using run by (auto simp: publish_from_store_def)
next
  case (Inr enhance)
  then have "publish ip pk sha256 hex_encode now [enhance] height hash (fl, co) = ((fl', co'), r)"
    using run by (simp add: publish_from_store_def)
  then show ?thesis
    using publish_error_live publish_live [OF live]
    by (cases r) (fastforce simp: newest_def RETAINED_GENERATIONS_def)+
qed

lemma publish_tip_chain:
  assumes chain: "chain_ok chain" and serves: "\<forall>t. node_serves lib (views t) chain" and step: "in_step chain (length chain) s"
    and live: "live_ok co" "\<forall>g \<in> set (co_live co). generation_of g \<noteq> - 1"
    and run: "publish_tip ip pk sha256 hex_encode time_at views (chain_height (length chain - 1)) s (fl, co) clock = (r, (fl', co'), clock')"
  shows "case r of
      Inl e \<Rightarrow> (\<exists>m. e = Server_Publish m) \<and> co_live co' = co_live co
    | Inr _ \<Rightarrow> \<exists>g. newest co' = Some g \<and> gm_anchor_height (gs_manifest g) = chain_height (length chain - 1)
        \<and> gm_anchor_block_hash (gs_manifest g) = pb_hash (last chain)"
proof -
  let ?tip = "chain_height (length chain - 1)"
  have ne: "chain \<noteq> []" "0 < length chain" using chain by (simp_all add: chain_ok_def)
  have top: "highest_committed (snd s) = Some (?tip, pb_hash (last chain))"
    using in_step_committed(2) [OF step] ne by (simp add: last_conv_nth)
  then have com: "committed_height (snd s) = Some ?tip" by (auto simp: highest_committed_def committed_height_def)
  have node: "tip_height (views t) = Inr ?tip" "block_hash (views t) ?tip = Inr (pb_hash (last chain))" for t
    using serves ne by (simp_all add: node_serves_def last_conv_nth)
  show ?thesis
  proof (cases "already_published ?tip (Some (pb_hash (last chain))) co")
    case True
    then show ?thesis using run top com by (auto simp: publish_tip_def already_published_def split: option.splits)
  next
    case False
    obtain fl1 co1 r1 where pub: "publish_from_store ip pk sha256 hex_encode (time_at (clock + 2)) s ?tip (pb_hash (last chain)) (fl, co) = ((fl1, co1), r1)"
      by (metis prod.exhaust)
    show ?thesis
      using publish_from_store_live [OF live pub] run top com node False pub
      by (auto simp: publish_tip_def Let_def split: sum.splits)
  qed
qed

section \<open>Worker groups are accepted\<close>

lemma validate_replicas_check:
  "validate_replicas url_ok ws (names, urls) = Inr (targets, names', urls') \<Longrightarrow> check_replicas targets names = Inr names' \<and> length targets = length ws"
proof (induction ws arbitrary: names urls targets)
  case (Cons w ws)
  then show ?case by (fastforce simp: bindR_Inr_iff Let_def split: if_splits prod.splits)
qed simp

lemma validate_groups_check:
  "validate_groups url_ok gs group_names (names, urls) = Inr groups \<Longrightarrow>
     (\<exists>seen. check_groups groups names = Inr seen) \<and> distinct (map wg_name groups) \<and> set (map wg_name groups) \<inter> set group_names = {}
     \<and> length groups = length gs"
proof (induction gs arbitrary: group_names names urls groups)
  case (Cons g gs)
  obtain replicas names' urls' rest where r: "validate_name ''worker group'' (gf_name g) = Inr ()" "gf_name g \<notin> set group_names" "gf_replicas g \<noteq> []"
      "validate_replicas url_ok (gf_replicas g) (names, urls) = Inr (replicas, names', urls')"
      "validate_groups url_ok gs (gf_name g # group_names) (names', urls') = Inr rest"
      "groups = \<lparr> wg_name = gf_name g, wg_replicas = replicas \<rparr> # rest"
    using Cons.prems by (auto simp: bindR_Inr_iff split: if_splits)
  have "gf_name g \<noteq> []" using r(1) by (auto simp: validate_name_def)
  then show ?case using Cons.IH [OF r(5)] validate_replicas_check [OF r(4)] r(2,3,6) by (cases replicas) auto
qed simp

lemma distinct_no_duplicate: "distinct names \<Longrightarrow> \<not> has_duplicate names"
proof -
  have "distinct xs \<Longrightarrow> \<not> list_ex (\<lambda>(a, b). a = b) (zip xs (tl xs))" for xs :: "string list"
  proof (induction xs)
    case (Cons x xs)
    then show ?case by (cases xs) auto
  qed simp
  then show "distinct names \<Longrightarrow> \<not> has_duplicate names" by (simp add: has_duplicate_def)
qed

text \<open>Worker groups that pass the configuration's checks pass the coordinator's.\<close>

lemma remote_setups_configured:
  assumes setups: "remote_worker_setups url_ok worker_config worker_urls = Inr setups" and params: "shard_parameters ip ENHANCE_LAYOUT = Inr p"
  shows "\<exists>co. with_query_slots ip now setups slots = Inr co \<and> co_live co = []"
proof -
  obtain gs groups where g: "gs \<noteq> []" "validate_groups url_ok gs [] ([], []) = Inr groups" "setups = [\<lparr> ts_table = Enhance, ts_groups = groups \<rparr>]"
    using setups by (auto simp: remote_worker_setups_def validate_worker_groups_def Let_def bindR_Inr_iff split: if_splits)
  have v: "\<exists>seen. check_groups groups [] = Inr seen" "\<not> has_duplicate (map wg_name groups)" "groups \<noteq> []"
    using validate_groups_check [OF g(2)] g(1) distinct_no_duplicate by auto
  show ?thesis using v params by (auto simp: with_query_slots_def g(3) split: prod.splits)
qed

section \<open>Properties\<close>

text \<open>
  C30. One turn of the ingest loop brings the journal to the node's chain, whatever it held of other forks. The node answers from one chain of
  well-formed blocks from activation on; the journal is consistent, has one block per height from activation, its first \<open>k\<close> blocks are the
  chain's and no later one has the chain's hash at its height. Then the turn ends: reconciliation rewinds exactly the blocks that are not the
  chain's, catching up appends every missing one, no fetch and no append fails, and the journal holds exactly the chain, with the height, the hash and the
  records of every block. If the turn succeeds, the newest generation is anchored at the tip and its hash; the only
  error is that publishing failed, and then the generations that can be answered are as before.
\<close>

theorem ingest_converges:
  assumes chain: "chain_ok chain" and serves: "\<forall>t. node_serves lib (views t) chain" and fork: "forked chain k s"
    and live: "live_ok co" "\<forall>g \<in> set (co_live co). generation_of g \<noteq> - 1"
  shows "\<exists>r s' fl' co' clock'. ingest_turn ip pk sha256 hex_encode time_at lib views s (fl, co) clock = Some (r, s', (fl', co'), clock')
    \<and> journal_ok s' \<and> journal_abs s' = node_entries chain
    \<and> (case r of
         Inl e \<Rightarrow> (\<exists>m. e = Server_Publish m) \<and> co_live co' = co_live co
       | Inr _ \<Rightarrow> \<exists>g. newest co' = Some g \<and> gm_anchor_height (gs_manifest g) = chain_height (length chain - 1)
           \<and> gm_anchor_block_hash (gs_manifest g) = pb_hash (last chain))"
proof -
  let ?tip = "chain_height (length chain - 1)"
  obtain s1 c1 where s1: "reconcile_journal views ?tip s (clock + 1) = Some (Inr (), s1, c1)" "in_step chain k s1"
    using reconcile_chain [OF chain serves fork] by blast
  obtain s2 c2 where s2: "catch_up_journal lib views ?tip (chain_height k) s1 c1 = Some (Inr (), s2, c2)" "in_step chain (length chain) s2"
    using catch_up_chain [OF chain _ s1(2)] serves by (meson node_serves_def)
  have next_height: "(case committed_height (snd s1) of Some height \<Rightarrow> height + 1 | None \<Rightarrow> ACTIVATION_HEIGHT) = chain_height k"
    by (rule in_step_committed(1) [OF s1(2)])
  have tip: "tip_height (views clock) = Inr ?tip" using serves by (simp add: node_serves_def)
  have "unat ?tip = 3428143 + (length chain - 1)" using chain by (intro unat_chain_height) (auto simp: chain_ok_def)
  then have active: "\<not> ?tip < ACTIVATION_HEIGHT" by (simp add: word_less_nat_alt ACTIVATION_HEIGHT_def)
  let ?co = "if chain_height k \<le> ?tip then set_phase (time_at c1) (Syncing (saturating_sub (chain_height k) 1) ?tip) co else co"
  have live': "live_ok ?co" "\<forall>g \<in> set (co_live ?co). generation_of g \<noteq> - 1" "co_live ?co = co_live co"
    using live by (simp_all add: live_ok_def)
  obtain r fl' co' clock' where pub: "publish_tip ip pk sha256 hex_encode time_at views ?tip s2 (fl, ?co) c2 = (r, (fl', co'), clock')"
    by (metis prod.exhaust)
  have "ingest_turn ip pk sha256 hex_encode time_at lib views s (fl, co) clock = Some (r, s2, (fl', co'), clock')"
    using tip s1(1) next_height s2(1) active pub by (simp add: ingest_turn_def Let_def if_distrib [of "Pair fl"] cong: if_cong)
  moreover have "journal_ok s2" "journal_abs s2 = node_entries chain" using s2(2) by (simp_all add: in_step_def)
  ultimately show ?thesis using publish_tip_chain [OF chain serves s2(2) live'(1,2) pub] unfolding live'(3) by blast
qed

section \<open>Witness\<close>

definition sample_node_block :: "string \<Rightarrow> parsed_action list \<Rightarrow> parsed_block" where
  "sample_node_block hash actions = \<lparr> pb_hash = hash, pb_transactions = [\<lparr> pt_has_transparent_inputs = False, pt_has_transparent_outputs = True,
     pt_ironwood_actions = actions, pt_hash = [1], pt_spent_outpoints = [([2], 0)] \<rparr>] \<rparr>"

definition sample_action :: parsed_action where
  "sample_action = \<lparr> pa_ephemeral_key = replicate 32 1, pa_enc_ciphertext = replicate 580 2, pa_cv = replicate 32 3, pa_out_ciphertext = replicate 80 4 \<rparr>"

definition sample_node_chain :: "parsed_block list" where
  "sample_node_chain = [sample_node_block ''a'' [], sample_node_block ''b'' [sample_action]]"

definition sample_lib :: zakura_lib where
  "sample_lib = \<lparr> zl_hex_decode = (\<lambda>s. Some (if s = ''00'' then [0] else [1])), zl_deserialize = (\<lambda>raw. Inr (sample_node_chain ! (if raw = [0] then 0 else 1))) \<rparr>"

definition sample_reply :: "'a \<Rightarrow> 'a rpc_reply" where
  "sample_reply x = Rpc_Replied 200 (Some \<lparr> rr_result = Some x, rr_error = None \<rparr>)"

definition sample_node_view :: zakura_view where
  "sample_node_view = \<lparr> zv_tip = sample_reply 3428144, zv_block_hash = (\<lambda>h. sample_reply (if h = 3428143 then ''a'' else ''b'')),
     zv_raw_block = (\<lambda>h. sample_reply (if h = 3428143 then ''00'' else ''01'')),
     zv_tree_size = (\<lambda>h. sample_reply (Some (if h = 3428143 then 0 else 1))) \<rparr>"

text \<open>A journal whose second block is of another fork.\<close>

definition sample_fork :: journal where
  "sample_fork =
     (let m = \<lparr> mf_version = JOURNAL_VERSION, mf_table = ''enhance'', mf_tree_size = 1, mf_blocks =
        [\<lparr> bl_height = 3428143, bl_hash = ''a'', bl_first_position = 0, bl_action_count = 0 \<rparr>,
         \<lparr> bl_height = 3428144, bl_hash = ''orphan'', bl_first_position = 0, bl_action_count = 1 \<rparr>] \<rparr>
      in (\<lparr> records_bin = Some (replicate 725 9), manifest_json = Manifest_Found m \<rparr>,
          \<lparr> rj_name = ''enhance'', rj_table = Some Enhance, rj_layout = ENHANCE_LAYOUT, rj_manifest = m \<rparr>))"

lemma sample_records: "records_of (sample_node_block h []) = []" "length (records_of (sample_node_block h [sample_action])) = 1"
  by (simp_all add: records_of_def sample_node_block_def)

lemma sample_chain_ok: "chain_ok sample_node_chain"
  by (simp add: chain_ok_def sample_node_chain_def chain_size_def sample_records)
     (simp add: parsed_ok_def sample_node_block_def sample_action_def action_ok_def)

lemma sample_node_serves: "node_serves sample_lib sample_node_view sample_node_chain"
  by (auto simp: node_serves_def sample_node_chain_def sample_node_view_def sample_lib_def sample_reply_def zakura_call_def tip_height_def block_hash_def
      gives_block_def raw_block_def block_tree_size_def chain_height_def chain_size_def ACTIVATION_HEIGHT_def sample_records less_Suc_eq numeral_2_eq_2)
     (simp_all add: sample_node_block_def)

lemma sample_forked: "forked sample_node_chain 1 sample_fork"
proof -
  have abs: "journal_abs sample_fork = [(3428143, ''a'', []), (3428144, ''orphan'', [replicate 725 9])]"
    by (simp add: journal_abs_def journal_records_def sample_fork_def Let_def ENHANCE_LAYOUT_def RECORD_BYTES_def)
  have "journal_ok sample_fork" by (simp add: journal_ok_def sample_fork_def Let_def ENHANCE_LAYOUT_def RECORD_BYTES_def)
  moreover have "rj_layout (snd sample_fork) = ENHANCE_LAYOUT" by (simp add: sample_fork_def Let_def)
  moreover have "take 1 (node_entries sample_node_chain) = [(3428143, ''a'', [])]"
    by (simp add: node_entries_def sample_node_chain_def chain_height_def ACTIVATION_HEIGHT_def sample_records) (simp add: sample_node_block_def)
  ultimately show ?thesis
    by (simp add: forked_def abs less_Suc_eq all_conj_distrib sample_node_chain_def chain_height_def ACTIVATION_HEIGHT_def)
       (auto simp: sample_node_block_def chain_height_def ACTIVATION_HEIGHT_def less_Suc_eq)
qed

theorem ingest_converges_witness:
  "\<exists>r s' srv clock'. ingest_turn tiny_ipir tiny_pack id first_byte id sample_lib (\<lambda>_. sample_node_view) sample_fork (tiny_fleet, tiny_co) 0
       = Some (r, s', srv, clock')
     \<and> map (\<lambda>(height, hash, records). (height, hash, length records)) (journal_abs s') = [(3428143, ''a'', 0), (3428144, ''b'', 1)]"
proof -
  have co: "live_ok tiny_co" "\<forall>g \<in> set (co_live tiny_co). generation_of g \<noteq> - 1" by (simp_all add: live_ok_def tiny_co_def)
  have "map (\<lambda>(height, hash, records). (height, hash, length records)) (node_entries sample_node_chain) = [(3428143, ''a'', 0), (3428144, ''b'', 1)]"
    by (simp add: node_entries_def sample_node_chain_def chain_height_def ACTIVATION_HEIGHT_def sample_records) (simp add: sample_node_block_def)
  moreover obtain r s' fl' co' clock' where
    "ingest_turn tiny_ipir tiny_pack id first_byte id sample_lib (\<lambda>_. sample_node_view) sample_fork (tiny_fleet, tiny_co) 0 = Some (r, s', (fl', co'), clock')"
    "journal_abs s' = node_entries sample_node_chain"
    using ingest_converges [OF sample_chain_ok _ sample_forked co, of sample_lib "\<lambda>_. sample_node_view" tiny_ipir tiny_pack id first_byte id tiny_fleet 0]
      sample_node_serves by blast
  ultimately show ?thesis by metis
qed

end
