(* ===== verification/Spec2Isabelle.thy ===== *)
theory Spec2Isabelle
  imports Filter_Ingest Spend_Client Witness_Client Witness_Server Nullifier_Client Alert_Engine Pir_Ingest
begin

text \<open>
  A verification development for the private retrieval services of this repository.

  \<^bold>\<open>The programs.\<close>  Four systems share the repository.

  \<^enum> \<^emph>\<open>Transparent block filters\<close> (\<open>pir/transparent-filter\<close>, \<open>server/transparent-filter-server\<close>). The server follows a node: for every
    block it extracts the scripts created and spent, builds a BIP-158 style filter, appends filter and chain entry to its store and serves
    ranges. A wallet checks every batch against its own chain of block hashes and matches its scripts.
  \<^enum> \<^emph>\<open>Enhance PIR and transparent spends\<close> (\<open>pir/enhance\<close>, \<open>pir/transparent-spend\<close>, \<open>server/enhance-pir-server\<close>). The coordinator writes
    fixed-size records and spend entries to logs, cuts them into shards and tables, has workers prepare them, publishes a generation, and
    answers encrypted queries by splitting them over the worker groups and adding the partial answers.
  \<^enum> \<^emph>\<open>The legacy spendability demo\<close> (\<open>demos/legacy-spendability\<close>). Two servers follow lightwalletd: one keeps a windowed note commitment
    tree and publishes its rows and a broadcast, from which a wallet rebuilds a witness; the other keeps a hash table of nullifiers.
  \<^enum> \<^emph>\<open>Monitoring\<close> (\<open>server/pir-apm\<close>), of which the alert engine is modelled.

  \<^bold>\<open>Theories and sources.\<close>  Each theory opens with what it models; paths are under \<open>src/\<close>.

  \<^item> \<open>Prelude\<close>: machine types, results, checked and saturating arithmetic, little-endian codecs, ordered maps, step functions on a cursor.
  \<^item> \<open>Filter_Types\<close>, \<open>Filter_Validate\<close>, \<open>Filter_Matching\<close>, \<open>Filter_Envelope\<close>, \<open>Filter_Client\<close>: the crate \<open>pir/transparent-filter\<close>;
    \<open>Filter_Gcs\<close> is the reference encoding of a filter, with the equivalence of \<open>validate_filter\<close> to it.
  \<^item> \<open>Filter_Store\<close>, \<open>Filter_Extract\<close>, \<open>Filter_Service\<close>, \<open>Filter_Ingest\<close>: \<open>store.rs\<close>, \<open>extract.rs\<close> with \<open>prevout.rs\<close> and the
    batched call of \<open>zakura.rs\<close>, \<open>service.rs\<close>, \<open>ingest.rs\<close> of the filter server.
  \<^item> \<open>Pir_Types\<close>, \<open>Pir_Wire\<close>, \<open>Pir_Journal\<close>, \<open>Pir_Ipir\<close>, \<open>Pir_Worker\<close>, \<open>Pir_Coordinator\<close>: \<open>types.rs\<close>, \<open>wire.rs\<close>, \<open>store.rs\<close> with
    \<open>ingest.rs\<close>, \<open>ipir.rs\<close>, \<open>worker.rs\<close>, \<open>coordinator.rs\<close> of the Enhance server; \<open>Pir_Client\<close>: \<open>pir/enhance/src/client.rs\<close>.
    \<open>Pir_Answer\<close> composes coordinator and workers; \<open>Pir_Ingest\<close> is the process: \<open>bin/server.rs\<close> with the node client \<open>zakura.rs\<close>.
  \<^item> \<open>Spend_Types\<close>, \<open>Spend_Journal\<close>, \<open>Spend_Tables\<close>, \<open>Spend_Client\<close>: \<open>pir/transparent-spend\<close> and \<open>spend.rs\<close> of the Enhance server.
  \<^item> \<open>Witness_Tree\<close>, \<open>Witness_Snapshot\<close>, \<open>Witness_Client\<close>, \<open>Witness_Server\<close>: the crates under \<open>demos/legacy-spendability/witness\<close>.
  \<^item> \<open>Legacy_Nullifiers\<close>, \<open>Legacy_Nf_Snapshot\<close>, \<open>Nullifier_Server\<close>, \<open>Nullifier_Client\<close>: the crates under \<open>demos/legacy-spendability/nullifier\<close>;
    \<open>Legacy_Chain\<close> and \<open>Legacy_Sync\<close>: chain tracking, parsing, bulk sync, follow loops and event handlers of both demo servers.
  \<^item> \<open>Alert_Engine\<close>: \<open>alerts.rs\<close>, \<open>thresholds.rs\<close>, \<open>schema.rs\<close> and the alert part of \<open>main.rs\<close> of \<open>server/pir-apm\<close>.

  \<^bold>\<open>How the code is modelled.\<close>  A struct is a record, an enum a datatype, a \<open>Result\<close> a sum with the error on the left; a panic is an error
  value of its own. Words keep their width and wrap as in a release build; \<open>usize\<close> is a natural with its limits written out where the
  source tests them. Files are explicit disk states, so that a crash between two writes is a state of the model. Maps that are iterated
  are lists in their order of iteration. A node, a lightwalletd and an HTTP peer answer through functions that may depend on the time
  of the call; the lookups of one prefetch or one extraction of the filter ingest share one view of the node. Operations on shared state run
  to their end except in the worker, whose requests are also split where they take locks and interleaved (\<open>worker_reach\<close>), with one
  activation at a time, as the coordinator sends them.

  \<^bold>\<open>Parameters.\<close>  Code outside the repository is an argument of the definitions that use it: SHA-256, hexadecimal, base64 and JSON coding, SipHash, the
  BIP-158 writer (\<open>bip158_writer\<close>), the cryptographic crates (\<open>ipir_sp\<close>, \<open>client_sp\<close>; \<open>linear_kernel\<close>), the node hash (\<open>merkle_hash\<close>;
  \<open>mh_ok\<close>), xxHash64, the PIR engine's \<open>setup\<close>, the HTTP library, the node and lightwalletd (\<open>lwd_honest\<close>). What a theorem needs of them is a
  hypothesis of that name, and its witness instantiates it.

  \<^bold>\<open>Interfaces.\<close>  \<open>byte_cursor\<close> (Prelude) is interpreted on the envelope reader (\<open>rd\<close>), the wire decoder (\<open>wi\<close>) and both snapshot parsers
  (\<open>sn\<close>, \<open>nf\<close>); \<open>accepted_chain\<close> on the wallet's chain map (\<open>cm\<close>) and on the server's store (\<open>fs\<close>); \<open>previous_outputs\<close> on the
  node-backed resolver (\<open>zk\<close>); \<open>event_source\<close> on the events of both bulk syncs (\<open>cs\<close>, \<open>ns\<close>).

  \<^bold>\<open>What is shown.\<close>

  \<^item> Decoders accept exactly the canonical encodings: filters, envelopes, wire messages, shard artifacts, snapshots. The filter decoder
    also equals its overflow-checked variant, so that none of its unchecked additions and shifts wraps.
  \<^item> Storage: the filter store, the record journal and the spend log refine abstract sequences; an append interrupted anywhere reopens
    to the state before it, while a rewind interrupted between its steps does not (the findings of the manifest).
  \<^item> Filters: extraction drops no spend, matching has no false negatives and equals a reference search, a served range is accepted by
    a client with the same chain, coverage advances to the stop height, ingest keeps every stored filter true.
  \<^item> PIR: one turn of the ingest loop brings the journal from any fork to the node's chain, the sharded product is the product of the whole database, an answered query is the requested row whichever replicas are
    up, a published generation stays answerable, a lookup returns the recorded spend or none. A worker keeps every shard of its retained generations
    under any interleaving, and an evaluation misses one only when an activation overtakes it.
  \<^item> Demo: the tree root, the rows and the broadcast are those of the full Merkle tree, caches are never stale, a
    rebuilt witness is the authentication path, and both servers, started on an honest lightwalletd, reach serving and keep their state
    equal to the chain's while it grows. Witnesses are right while there are at most 32 shards from the start of the window on: the window never slides
    (\<open>window_never_slides\<close>), although the README of the witness crates says that it does, and both servers serve the tip, not the block ten below it.
    Reorganizations of the demo leave orphaned nullifiers (\<open>reorg_keeps_orphans\<close>) and gaps in the tree (\<open>reorg_leaves_gap\<close>). \<open>chain_witness_exact\<close> below and \<open>spentness_exact\<close> of \<open>Nullifier_Client\<close> are the compositions from the chain to the wallet.
  \<^item> Alerts: which checks are active after any run of the scrape loop, and that notifications alternate.

  \<^bold>\<open>Loops and bounds.\<close>  Loops that end for a structural reason are recursive functions with a measure. The range sync of the filter client carries fuel, one
  unit a batch, shown to be enough; the catch-up loop of ingest has as fuel the number of heights up to the tip. The bulk sync and
  the backfill of the demo and the two loops of the Enhance ingest may run forever near the largest height, so they are partial functions into
  \<open>option\<close>, shown to return below it. The doubling
  loop of the spend tables ends in a table or in the allocation panic. Endless service loops are modelled by one turn and by runs of turns.

  \<^bold>\<open>Not modelled.\<close>  Of \<open>pir-apm\<close>: reading Prometheus text and the windows over it, host figures, HTML and Slack messages. Metric registration, the
  transport of JSON-RPC and gRPC, routers, sockets and process start-up; the load test; the adapters of the demo to the PIR crates and the alternative
  YPIR engine; the combined demo server, which starts both servers in one process. These are input and output or presentation around
  third-party libraries. Failing file-system calls are modelled only where the code reads a missing or short file.
\<close>

section \<open>From the chain to a wallet's witness\<close>

text \<open>
  What a wallet needs of a published state: for every position of the window, a client that holds the published broadcast and receives the row
  the engine answers gets the authentication path of that position among \<open>leaves\<close> and the root over all of them.
\<close>

definition gives_witnesses ::
  "'m merkle_hash \<Rightarrow> ('k, 'q, 'd) client_sp \<Rightarrow> (nat \<Rightarrow> nat) \<Rightarrow> 'w witness_net \<Rightarrow> ('s \<Rightarrow> nat \<Rightarrow> bytes) \<Rightarrow> node_hash list \<Rightarrow> 's pir_state \<Rightarrow> bool" where
  "gives_witnesses mh cl rnd net row_of leaves ps \<longleftrightarrow>
     (\<forall>position c w sh ss k decoded c' w'.
        wc_broadcast c = ps_broadcast ps \<longrightarrow> decompose_position (unat position) = (sh, ss, k) \<longrightarrow>
        bd_window_start_shard (ps_broadcast ps) * SHARD_LEAVES \<le> unat position \<longrightarrow> unat position < length leaves \<longrightarrow>
        ipir_round_trip cl rnd net (physical_row_index sh ss (bd_window_start_shard (ps_broadcast ps))) c w = (Inr decoded, c', w') \<longrightarrow>
        take SUBSHARD_ROW_BYTES decoded = row_of (ps_engine_state ps) (physical_row_index sh ss (bd_window_start_shard (ps_broadcast ps))) \<longrightarrow>
        get_witness mh cl rnd net position c w
          = (Inr \<lparr> pw_position = position, pw_siblings = auth_path mh (leaf_at mh leaves) (unat position),
                   pw_anchor_height = bd_anchor_height (ps_broadcast ps), pw_anchor_root = node mh (leaf_at mh leaves) TREE_DEPTH 0 \<rparr>, c', w'))"

lemma serving_gives_witnesses:
  assumes ok: "mh_ok mh" and s: "serving mh engine_setup base hist s" and ps: "sv_live_pir s = Some ps" and leaves: "leaves = base @ history_leaves hist"
    and valid: "\<And>x. x \<in> set leaves \<Longrightarrow> valid_hash mh x \<and> length x = 32" and fits: "length leaves \<le> 2 ^ TREE_DEPTH"
    and window: "length leaves \<le> (bd_window_start_shard (ps_broadcast ps) + L0_MAX_SHARDS) * SHARD_LEAVES"
    and rows: "\<forall>db e r. engine_setup db = Inr e \<longrightarrow> row_of e r = take SUBSHARD_ROW_BYTES (drop (r * SUBSHARD_ROW_BYTES) db)"
  shows "gives_witnesses mh cl rnd net row_of leaves ps"
proof -
  let ?t = "sv_tree s" and ?b = "ps_broadcast ps"
  have h: "tree_holds mh leaves ?t" using s by (simp add: serving_def tree_at_def leaves)
  have b: "?b = window_broadcast mh leaves (latest_or_zero ?t) ?t"
    and e: "engine_setup (set_len L0_DB_BYTES (window_rows mh leaves ?t)) = Inr (ps_engine_state ps)"
    using s ps by (auto simp: serving_def leaves)
  have ws: "bd_window_start_shard ?b = window_start_shard ?t" by (simp add: b window_broadcast_def)
  have off: "tr_leaf_offset ?t = window_start_shard ?t * SHARD_LEAVES" by (rule tree_holds_offset [OF h])
  have len: "length (tr_leaves ?t) \<le> L0_MAX_SHARDS * SHARD_LEAVES"
    using h window off ws by (simp add: tree_holds_def add_mult_distrib)
  show ?thesis
    unfolding gives_witnesses_def
  proof (intro allI impI)
    fix position :: u64 and c w sh ss k decoded c' w'
    assume c: "wc_broadcast c = ?b" and dec: "decompose_position (unat position) = (sh, ss, k)"
      and p: "bd_window_start_shard ?b * SHARD_LEAVES \<le> unat position" "unat position < length leaves"
      and trip: "ipir_round_trip cl rnd net (physical_row_index sh ss (bd_window_start_shard ?b)) c w = (Inr decoded, c', w')"
      and row: "take SUBSHARD_ROW_BYTES decoded = row_of (ps_engine_state ps) (physical_row_index sh ss (bd_window_start_shard ?b))"
    have got: "take SUBSHARD_ROW_BYTES decoded
        = take SUBSHARD_ROW_BYTES (drop (physical_row_index sh ss (window_start_shard ?t) * SUBSHARD_ROW_BYTES) (set_len L0_DB_BYTES (window_rows mh leaves ?t)))"
      using row rows e ws by simp
    have pos: "tr_leaf_offset ?t \<le> unat position" using p(1) ws off by simp
    note rec = reconstruct_of_build [OF ok h valid fits len pos p(2) dec got, of "latest_or_zero ?t"]
    have "wc_broadcast c' = ?b" using round_trip_broadcast [OF trip] c by simp
    then show "get_witness mh cl rnd net position c w
        = (Inr \<lparr> pw_position = position, pw_siblings = auth_path mh (leaf_at mh leaves) (unat position), pw_anchor_height = bd_anchor_height ?b,
                 pw_anchor_root = node mh (leaf_at mh leaves) TREE_DEPTH 0 \<rparr>, c', w')"
      using rec trip c b tree_root_node [OF ok h] by (simp add: get_witness_def dec Let_def window_broadcast_def)
  qed
qed

lemma chain_leaves_length: "x \<in> set (chain_leaves chain) \<Longrightarrow> length x = 32"
  by (auto simp: chain_leaves_def extract_commitments_def)

text \<open>
  C28. From the chain to the wallet: a witness server without a usable snapshot, given the answers of a lightwalletd that serves one chain, starts whatever
  its window limit, follows from the last block unless the chain ends exactly at a shard boundary, and keeps serving through any polls that
  bring further blocks. After them, as long as the chain has at most 32 shards of commitments (\<open>L0_MAX_SHARDS\<close>) from the start of
  the window on, every client that holds the published broadcast and receives the row the engine answers gets, for every position of the window, the authentication path and the
  root of the Merkle tree over all the commitments of the chain, those before the window included, which the server never fetched. The anchor
  is the last block the server has, and the window stays where the start put it, unlike what the README of the witness crates says (\<open>window_never_slides\<close>).
\<close>

theorem chain_witness_exact:
  assumes ok: "mh_ok mh" and engine: "\<forall>db. \<exists>e. engine_setup db = Inr e"
    and rows: "\<forall>db e r. engine_setup db = Inr e \<longrightarrow> row_of e r = take SUBSHARD_ROW_BYTES (drop (r * SUBSHARD_ROW_BYTES) db)"
    and lwd: "lwd_honest mh chain roots block_range network tip" and sizes: "sizes_ok 0 chain" and small: "length (chain_leaves chain) < 2 ^ 32"
    and fresh: "load_snapshot mh xxh64 snapshot = Inl err"
  shows "\<exists>s. server_start mh xxh64 engine_setup (Inr roots) block_range network tip limit snapshot = Some (Inr s) \<and>
    (length (chain_leaves chain) mod SHARD_LEAVES \<noteq> 0 \<longrightarrow>
       latest_or_zero (sv_tree s) = cb_height (last chain) \<and> latest_hash (sv_tree s) = to_hash_array (cb_hash (last chain))) \<and>
    (\<forall>polls new. polls_grow (latest_or_zero (sv_tree s)) (latest_hash (sv_tree s)) polls new \<longrightarrow> sizes_ok (length (chain_leaves chain)) new \<longrightarrow>
       (\<forall>x \<in> set (chain_leaves (chain @ new)). valid_hash mh x) \<longrightarrow> length (chain_leaves (chain @ new)) \<le> 2 ^ TREE_DEPTH \<longrightarrow>
       (\<exists>st' s' ps. server_polls mh xxh64 engine_setup interval polls (server_follow s) s = Inr (st', s') \<and> sv_live_pir s' = Some ps
          \<and> bd_anchor_height (ps_broadcast ps) = latest_or_zero (sv_tree s')
          \<and> (length (chain_leaves (chain @ new)) \<le> (bd_window_start_shard (ps_broadcast ps) + L0_MAX_SHARDS) * SHARD_LEAVES \<longrightarrow>
               gives_witnesses mh cl rnd net row_of (chain_leaves (chain @ new)) ps)))"
proof -
  from server_from_chain [OF ok engine lwd sizes small fresh]
  obtain s where s: "server_start mh xxh64 engine_setup (Inr roots) block_range network tip limit snapshot = Some (Inr s)"
    and tip: "length (chain_leaves chain) mod SHARD_LEAVES \<noteq> 0 \<longrightarrow>
       latest_or_zero (sv_tree s) = cb_height (last chain) \<and> latest_hash (sv_tree s) = to_hash_array (cb_hash (last chain))"
    and serve: "\<forall>polls new. polls_grow (latest_or_zero (sv_tree s)) (latest_hash (sv_tree s)) polls new \<longrightarrow> sizes_ok (length (chain_leaves chain)) new \<longrightarrow>
       (\<exists>st' s' base hist. server_polls mh xxh64 engine_setup interval polls (server_follow s) s = Inr (st', s')
          \<and> serving mh engine_setup base hist s' \<and> base @ history_leaves hist = chain_leaves (chain @ new))" by blast
  have "\<exists>st' s' ps. server_polls mh xxh64 engine_setup interval polls (server_follow s) s = Inr (st', s') \<and> sv_live_pir s' = Some ps
      \<and> bd_anchor_height (ps_broadcast ps) = latest_or_zero (sv_tree s')
      \<and> (length (chain_leaves (chain @ new)) \<le> (bd_window_start_shard (ps_broadcast ps) + L0_MAX_SHARDS) * SHARD_LEAVES \<longrightarrow>
           gives_witnesses mh cl rnd net row_of (chain_leaves (chain @ new)) ps)"
    if grow: "polls_grow (latest_or_zero (sv_tree s)) (latest_hash (sv_tree s)) polls new" "sizes_ok (length (chain_leaves chain)) new"
      and valid: "\<forall>x \<in> set (chain_leaves (chain @ new)). valid_hash mh x" "length (chain_leaves (chain @ new)) \<le> 2 ^ TREE_DEPTH" for polls new
  proof -
    obtain st' s' base hist where s': "server_polls mh xxh64 engine_setup interval polls (server_follow s) s = Inr (st', s')"
      "serving mh engine_setup base hist s'" "chain_leaves (chain @ new) = base @ history_leaves hist"
      using serve grow by metis
    obtain ps where ps: "sv_live_pir s' = Some ps" using s'(2) by (auto simp: serving_def)
    have anchor: "bd_anchor_height (ps_broadcast ps) = latest_or_zero (sv_tree s')" using s'(2) ps by (auto simp: serving_def window_broadcast_def)
    have "valid_hash mh x \<and> length x = 32" if "x \<in> set (chain_leaves (chain @ new))" for x
      using that valid(1) chain_leaves_length by blast
    from serving_gives_witnesses [OF ok s'(2) ps s'(3) this valid(2) _ rows] show ?thesis using s'(1) ps anchor by blast
  qed
  then show ?thesis using s tip by blast
qed

text \<open>One block in the chain, one more in a poll, an engine that keeps the rows in the clear.\<close>

definition chain_block :: "u64 \<Rightarrow> u8 \<Rightarrow> u8 \<Rightarrow> u32 \<Rightarrow> compact_block" where
  "chain_block height leaf prev n =
     \<lparr> cb_height = height, cb_hash = replicate 32 leaf, cb_prev_hash = replicate 32 prev,
       cb_vtx = [\<lparr> ct_ironwood_actions = [\<lparr> ca_nullifier = [], ca_cmx = sample_leaf leaf, ca_ephemeral_key = [], ca_ciphertext = [] \<rparr>] \<rparr>],
       cb_tree_size = Some n \<rparr>"

lemma chain_block_simps [simp]:
  "cb_height (chain_block height leaf prev n) = height" "extract_commitments (chain_block height leaf prev n) = [sample_leaf leaf]"
  "to_hash_array (cb_hash (chain_block height leaf prev n)) = replicate 32 leaf" "to_hash_array (cb_prev_hash (chain_block height leaf prev n)) = replicate 32 prev"
  "ironwood_tree_size (chain_block height leaf prev n) = (if n > 0 then Some n else None)"
  by (simp_all add: chain_block_def extract_commitments_def sample_leaf_def to_hash_array_def set_len_def ironwood_tree_size_def)

lemma lwd_honest_one:
  "lwd_honest sum_hash [chain_block 1 5 0 1] [] (\<lambda>a b. Inr (blocks_between [chain_block 1 5 0 1] a b)) None 1"
  by (simp add: lwd_honest_def roots_honest_def min_sync_height_def SHARD_LEAVES_def SHARD_HEIGHT_def)

theorem chain_witness_exact_witness:
  "\<exists>s st' s' ps. server_start sum_hash (\<lambda>_. 0) Inr (Inr []) (\<lambda>a b. Inr (blocks_between [chain_block 1 5 0 1] a b)) None 1 4 None = Some (Inr s)
     \<and> server_polls sum_hash (\<lambda>_. 0) Inr 100 [(Inr 2, \<lambda>_ _. Inr [chain_block 2 6 5 2])] (server_follow s) s = Inr (st', s') \<and> sv_live_pir s' = Some ps
     \<and> gives_witnesses sum_hash clear_client (\<lambda>_. 0) clear_net (\<lambda>db r. take SUBSHARD_ROW_BYTES (drop (r * SUBSHARD_ROW_BYTES) db))
          [sample_leaf 5, sample_leaf 6] ps"
proof -
  let ?chain = "[chain_block 1 5 0 1]" and ?row = "\<lambda>db r. take SUBSHARD_ROW_BYTES (drop (r * SUBSHARD_ROW_BYTES) db)"
  let ?polls = "[(Inr 2, \<lambda>_ _. Inr [chain_block 2 6 5 2])] :: lwd_view list" and ?new = "[chain_block 2 6 5 2]"
  have leaves: "chain_leaves (?chain @ ?new) = [sample_leaf 5, sample_leaf 6]" by simp
  have h: "\<forall>db. \<exists>e. (Inr db :: string + bytes) = Inr e" "\<forall>db e r. (Inr db :: string + bytes) = Inr e \<longrightarrow> ?row e r = ?row db r"
    "sizes_ok 0 ?chain" "length (chain_leaves ?chain) < 2 ^ 32" "load_snapshot sum_hash (\<lambda>_. 0) None = Inl Snapshot_Io"
    by (simp_all add: load_snapshot_def)
  obtain s where s: "server_start sum_hash (\<lambda>_. 0) Inr (Inr []) (\<lambda>a b. Inr (blocks_between ?chain a b)) None 1 4 None = Some (Inr s)"
    and tip: "length (chain_leaves ?chain) mod SHARD_LEAVES \<noteq> 0 \<longrightarrow>
       latest_or_zero (sv_tree s) = cb_height (last ?chain) \<and> latest_hash (sv_tree s) = to_hash_array (cb_hash (last ?chain))"
    and serve: "\<forall>polls new. polls_grow (latest_or_zero (sv_tree s)) (latest_hash (sv_tree s)) polls new \<longrightarrow> sizes_ok (length (chain_leaves ?chain)) new \<longrightarrow>
       (\<forall>x \<in> set (chain_leaves (?chain @ new)). valid_hash sum_hash x) \<longrightarrow> length (chain_leaves (?chain @ new)) \<le> 2 ^ TREE_DEPTH \<longrightarrow>
       (\<exists>st' s' ps. server_polls sum_hash (\<lambda>_. 0) Inr 100 polls (server_follow s) s = Inr (st', s') \<and> sv_live_pir s' = Some ps
          \<and> bd_anchor_height (ps_broadcast ps) = latest_or_zero (sv_tree s')
          \<and> (length (chain_leaves (?chain @ new)) \<le> (bd_window_start_shard (ps_broadcast ps) + L0_MAX_SHARDS) * SHARD_LEAVES \<longrightarrow>
               gives_witnesses sum_hash clear_client (\<lambda>_. 0) clear_net ?row (chain_leaves (?chain @ new)) ps))"
    using chain_witness_exact [where engine_setup = Inr and row_of = ?row and limit = 4 and interval = 100 and cl = clear_client and rnd = "\<lambda>_. 0"
        and net = clear_net, OF sum_hash_ok h(1, 2) lwd_honest_one h(3, 4, 5)] by blast
  have at: "latest_or_zero (sv_tree s) = 1" "latest_hash (sv_tree s) = replicate 32 5"
    using tip by (simp_all add: SHARD_LEAVES_def SHARD_HEIGHT_def)
  have grow: "polls_grow (latest_or_zero (sv_tree s)) (latest_hash (sv_tree s)) ?polls ?new"
    unfolding at by (auto simp: word_le_nat_alt intro!: exI [of _ ?new])
  have "sizes_ok (length (chain_leaves ?chain)) ?new" "\<forall>x \<in> set (chain_leaves (?chain @ ?new)). valid_hash sum_hash x"
    "length (chain_leaves (?chain @ ?new)) \<le> 2 ^ TREE_DEPTH"
    by (simp_all add: TREE_DEPTH_def valid_hash_def sum_hash_def sample_leaf_def)
  with serve grow obtain st' s' ps where "server_polls sum_hash (\<lambda>_. 0) Inr 100 ?polls (server_follow s) s = Inr (st', s')" "sv_live_pir s' = Some ps"
    "length (chain_leaves (?chain @ ?new)) \<le> (bd_window_start_shard (ps_broadcast ps) + L0_MAX_SHARDS) * SHARD_LEAVES \<longrightarrow>
       gives_witnesses sum_hash clear_client (\<lambda>_. 0) clear_net ?row (chain_leaves (?chain @ ?new)) ps" by blast
  moreover have "length (chain_leaves (?chain @ ?new)) \<le> (n + L0_MAX_SHARDS) * SHARD_LEAVES" for n
    by (simp add: L0_MAX_SHARDS_def SHARD_LEAVES_def SHARD_HEIGHT_def)
  ultimately show ?thesis using s unfolding leaves by blast
qed

end
